(* ===== verification/Prelude.thy ===== *)
theory Prelude
  imports Main "HOL-Library.Word"
begin

text \<open>
  Shared vocabulary of the development: names for the machine integer types of the C code,
  checked array access, C's truncating division, C strings and the generic list and word lemmas
  that the component theories rest on.
\<close>

named_theorems badnet_simps \<open>unfolding rules of the small helpers shared by the components\<close>

type_synonym byte = "8 word"
type_synonym uint8 = "8 word"
type_synonym uint16 = "16 word"
type_synonym uint32 = "32 word"
type_synonym uint64 = "64 word"

text \<open>The largest size that the code accepts for a buffer (64-bit build).\<close>

definition SIZE_T_CEILING :: nat where "SIZE_T_CEILING = 2 ^ 63 - 17"

subsection \<open>Results of parsers\<close>

text \<open>A parser returns a value, refuses its input, or fails an assertion of the code.\<close>

datatype 'a parsed = Parsed 'a | Rejected | Aborted

subsection \<open>Checked array access\<close>

text \<open>
  A C array read \<open>a[i]\<close> with a signed index: \<open>None\<close> stands for a read outside the array.
\<close>

definition arr_get :: "'a list \<Rightarrow> int \<Rightarrow> 'a option" where
  "arr_get xs i = (if 0 \<le> i \<and> i < int (length xs) then Some (xs ! nat i) else None)"

definition arr_set :: "'a list \<Rightarrow> int \<Rightarrow> 'a \<Rightarrow> 'a list option" where
  "arr_set xs i v = (if 0 \<le> i \<and> i < int (length xs) then Some (xs[nat i := v]) else None)"

lemma arr_get_Some_iff:
  "arr_get xs i = Some v \<longleftrightarrow> 0 \<le> i \<and> i < int (length xs) \<and> xs ! nat i = v"
  by (auto simp: arr_get_def)

lemma arr_get_of_nat [simp]: "n < length xs \<Longrightarrow> arr_get xs (int n) = Some (xs ! n)"
  by (simp add: arr_get_def)

lemma arr_set_of_nat [simp]: "n < length xs \<Longrightarrow> arr_set xs (int n) v = Some (xs[n := v])"
  by (simp add: arr_set_def)

subsection \<open>C division\<close>

text \<open>Division and remainder of C's signed integers truncate towards zero.\<close>

definition c_div :: "int \<Rightarrow> int \<Rightarrow> int" where
  "c_div a b = sgn a * sgn b * (\<bar>a\<bar> div \<bar>b\<bar>)"

definition c_mod :: "int \<Rightarrow> int \<Rightarrow> int" where
  "c_mod a b = a - b * c_div a b"

lemma c_div_nonneg [simp]: "0 \<le> a \<Longrightarrow> 0 < b \<Longrightarrow> c_div a b = a div b"
  by (cases "a = 0") (auto simp: c_div_def sgn_if)

lemma c_mod_nonneg [simp]: "0 \<le> a \<Longrightarrow> 0 < b \<Longrightarrow> c_mod a b = a mod b"
  by (simp add: c_mod_def minus_mult_div_eq_mod)

subsection \<open>Lists\<close>

lemma foldr_append_concat: "foldr (@) xss [] = concat xss"
  by (induction xss) simp_all

lemma take_replicate_min [simp]: "take n (replicate m x) = replicate (min n m) x"
  by (simp add: min_def)

lemma map_of_bij_inv:
  assumes "\<And>x. x \<in> set xs \<Longrightarrow> g (f x) = x"
  shows "map g (map f xs) = xs"
  using assms by (induction xs) auto

lemma takeWhile_stop [simp]: "c \<notin> set l \<Longrightarrow> takeWhile (\<lambda>x. x \<noteq> c) (l @ c # r) = l"
  by (induction l) auto

lemma takeWhile_absent [simp]: "c \<notin> set l \<Longrightarrow> takeWhile (\<lambda>x. x \<noteq> c) l = l"
  by (induction l) auto

lemma takeWhile_break:
  "length (takeWhile (\<lambda>x. x \<noteq> c) s) \<noteq> length s \<Longrightarrow>
   takeWhile (\<lambda>x. x \<noteq> c) s @ c # drop (length (takeWhile (\<lambda>x. x \<noteq> c) s) + 1) s = s"
  by (induction s) auto

lemma takeWhile_take: "take (length (takeWhile P xs)) xs = takeWhile P xs"
  by (induction xs) auto

subsection \<open>Hexadecimal digits\<close>

definition hex_digit_upper :: "nat \<Rightarrow> char" where
  "hex_digit_upper n = char_of (if n < 10 then 48 + n else 55 + n)"

text \<open>The output of \<^verbatim>\<open>printf\<close>'s \<^verbatim>\<open>%02X\<close> for one byte, and a digit's value.\<close>

definition hex_byte :: "byte \<Rightarrow> string" where
  "hex_byte b = [hex_digit_upper (unat b div 16), hex_digit_upper (unat b mod 16)]"

definition hex_value :: "char \<Rightarrow> nat option" where
  "hex_value c =
     (let n = (of_char c :: nat)
      in if 48 \<le> n \<and> n \<le> 57 then Some (n - 48)
         else if 65 \<le> n \<and> n \<le> 70 then Some (n - 55)
         else if 97 \<le> n \<and> n \<le> 102 then Some (n - 87)
         else None)"

lemma hex_value_hex_digit_upper [simp]: "n < 16 \<Longrightarrow> hex_value (hex_digit_upper n) = Some n"
  by (auto simp: hex_value_def hex_digit_upper_def Let_def)

lemma of_char_hex_digit_upper:
  "n < 16 \<Longrightarrow> (of_char (hex_digit_upper n) :: nat) = (if n < 10 then 48 + n else 55 + n)"
  by (simp add: hex_digit_upper_def)

lemma char_neqI: "(of_char c :: nat) \<noteq> of_char d \<Longrightarrow> c \<noteq> d"
  by auto

lemma length_hex_byte [simp]: "length (hex_byte b) = 2"
  by (simp add: hex_byte_def)

lemma unat_byte_less [simp]: "unat (b :: byte) < 256"
proof -
  have "unat b < 2 ^ LENGTH(8)" by (rule unsigned_less)
  then show ?thesis by simp
qed

lemma byte_nibbles [simp]: "unat (b :: byte) div 16 < 16" "unat b mod 16 < 16"
  using unat_byte_less [of b] by presburger+

lemma length_concat_map_const:
  assumes "\<And>x. x \<in> set xs \<Longrightarrow> length (f x) = n"
  shows "length (concat (map f xs)) = n * length xs"
  using assms by (induction xs) auto

lemma concat_map_concat_map:
  "concat (map f (concat (map g xs))) = concat (map (\<lambda>x. concat (map f (g x))) xs)"
  by (induction xs) simp_all

subsection \<open>Cutting a list into pieces\<close>

text \<open>The consecutive pieces of length \<open>n\<close>; a shorter tail is dropped.\<close>

function chunks :: "nat \<Rightarrow> 'a list \<Rightarrow> 'a list list" where
  "chunks n xs = (if n = 0 \<or> length xs < n then [] else take n xs # chunks n (drop n xs))"
  by pat_completeness auto
termination
  by (relation "measure (\<lambda>(n, xs). length xs)") auto

declare chunks.simps [simp del]

lemma chunks_concat:
  assumes "0 < n" "\<And>x. x \<in> set xss \<Longrightarrow> length x = n"
  shows "chunks n (concat xss) = xss"
  using assms(2) by (induction xss) (use assms(1) in \<open>auto simp: chunks.simps\<close>)

lemma unat_drop_bit: "unat (drop_bit k (n :: 'a :: len word)) = unat n div 2 ^ k"
  unfolding unsigned_drop_bit_eq take_bit_drop_bit
  by (simp add: drop_bit_eq_div take_bit_nat_eq_self)

end
