(* ===== verification/Strings.thy ===== *)
theory Strings
  imports Prelude
begin

text \<open>
  The string helpers of \<^verbatim>\<open>src/BADNET/src/lib\<close> that the parsers share: decimal numbers
  (\<^verbatim>\<open>string/parse_int.c\<close>), hexadecimal text (\<^verbatim>\<open>encoding/binascii.c\<close>, \<^verbatim>\<open>string/compat_ctype.h\<close>),
  substring search (\<^verbatim>\<open>string/util_string.c\<close>) and splitting (\<^verbatim>\<open>smartlist_core/smartlist_split.c\<close>).
  A C string is the list of its characters before the terminating NUL; a pointer into a string
  is the suffix it points at.
\<close>

subsection \<open>Characters\<close>

definition is_space :: "char \<Rightarrow> bool" where
  "is_space c \<longleftrightarrow> c = CHR '' '' \<or> (9 \<le> (of_char c :: nat) \<and> (of_char c :: nat) \<le> 13)"

definition is_digit :: "char \<Rightarrow> bool" where
  "is_digit c \<longleftrightarrow> 48 \<le> (of_char c :: nat) \<and> (of_char c :: nat) \<le> 57"

definition digit_val :: "char \<Rightarrow> nat" where
  "digit_val c = of_char c - 48"

definition digit_char :: "nat \<Rightarrow> char" where
  "digit_char n = char_of (48 + n)"

definition NL :: char where
  "NL = CHR 0x0A"

subsection \<open>Decimal numbers\<close>

text \<open>\<^verbatim>\<open>printf\<close>'s \<^verbatim>\<open>%d\<close> of a non-negative number.\<close>

fun show_nat :: "nat \<Rightarrow> string" where
  "show_nat n = (if n < 10 then [digit_char n] else show_nat (n div 10) @ [digit_char (n mod 10)])"

declare show_nat.simps [simp del]

definition digits_val :: "string \<Rightarrow> nat" where
  "digits_val ds = foldl (\<lambda>a c. 10 * a + digit_val c) 0 ds"

definition LONG_MAX :: int where "LONG_MAX = 2 ^ 63 - 1"
definition LONG_MIN :: int where "LONG_MIN = - (2 ^ 63)"
definition ULONG_MAX :: int where "ULONG_MAX = 2 ^ 64 - 1"
definition INT32_MAX :: int where "INT32_MAX = 2 ^ 31 - 1"
definition UINT32_MAX :: int where "UINT32_MAX = 2 ^ 32 - 1"

text \<open>Optional sign after leading white space, as \<^verbatim>\<open>strtol\<close> and \<^verbatim>\<open>strtoul\<close> skip it.\<close>

definition strto_sign :: "string \<Rightarrow> bool \<times> string" where
  "strto_sign s =
     (case dropWhile is_space s of
        [] \<Rightarrow> (False, [])
      | c # r \<Rightarrow> if c = CHR ''-'' then (True, r) else if c = CHR ''+'' then (False, r)
                else (False, c # r))"

text \<open>
  \<^verbatim>\<open>strtol(s, &endptr, 10)\<close> on a platform with 64-bit \<^verbatim>\<open>long\<close>: the value, whether \<^verbatim>\<open>errno\<close> became
  \<^verbatim>\<open>ERANGE\<close>, and \<^verbatim>\<open>endptr\<close>.
\<close>

definition strtol10 :: "string \<Rightarrow> int \<times> bool \<times> string" where
  "strtol10 s =
     (let (neg, r) = strto_sign s; ds = takeWhile is_digit r
      in if ds = [] then (0, False, s)
         else let v = (if neg then - int (digits_val ds) else int (digits_val ds))
              in if v > LONG_MAX then (LONG_MAX, True, dropWhile is_digit r)
                 else if v < LONG_MIN then (LONG_MIN, True, dropWhile is_digit r)
                 else (v, False, dropWhile is_digit r))"

definition strtoul10 :: "string \<Rightarrow> int \<times> bool \<times> string" where
  "strtoul10 s =
     (let (neg, r) = strto_sign s; ds = takeWhile is_digit r
      in if ds = [] then (0, False, s)
         else let v = int (digits_val ds)
              in if v > ULONG_MAX then (ULONG_MAX, True, dropWhile is_digit r)
                 else ((if neg then (- v) mod 2 ^ 64 else v), False, dropWhile is_digit r))"

text \<open>
  \<^verbatim>\<open>CHECK_STRTOX_RESULT\<close>: the result is the returned value, the flag \<^verbatim>\<open>*ok\<close> and the pointer \<^verbatim>\<open>*next\<close>;
  \<open>want_next\<close> says whether the caller passed a \<^verbatim>\<open>next\<close> pointer.
\<close>

definition check_strtox :: "string \<Rightarrow> int \<times> bool \<times> string \<Rightarrow> int \<Rightarrow> int \<Rightarrow> bool \<Rightarrow> int \<times> bool \<times> string" where
  "check_strtox s res mn mx want_next =
     (let (r, erange, endp) = res
      in if erange \<or> endp = s \<or> (\<not> want_next \<and> endp \<noteq> []) \<or> mx < mn \<or> r < mn \<or> r > mx
         then (0, False, endp) else (r, True, endp))"

definition tor_parse_long :: "string \<Rightarrow> int \<Rightarrow> int \<Rightarrow> bool \<Rightarrow> int \<times> bool \<times> string" where
  "tor_parse_long s mn mx want_next = check_strtox s (strtol10 s) mn mx want_next"

definition tor_parse_ulong :: "string \<Rightarrow> int \<Rightarrow> int \<Rightarrow> bool \<Rightarrow> int \<times> bool \<times> string" where
  "tor_parse_ulong s mn mx want_next = check_strtox s (strtoul10 s) mn mx want_next"

subsection \<open>Hexadecimal text\<close>

definition hex_decode_digit :: "char \<Rightarrow> int" where
  "hex_decode_digit c = (case hex_value c of Some n \<Rightarrow> int n | None \<Rightarrow> -1)"

definition base16_encode :: "byte list \<Rightarrow> string" where
  "base16_encode src = concat (map hex_byte src)"

fun base16_pairs :: "string \<Rightarrow> byte list option" where
  "base16_pairs (c # d # r) =
     (if hex_decode_digit c < 0 \<or> hex_decode_digit d < 0 then None
      else map_option ((#) (of_int (hex_decode_digit c * 16 + hex_decode_digit d)))
             (base16_pairs r))"
| "base16_pairs _ = Some []"

text \<open>The decoded bytes (their number is the C function's result), or \<open>None\<close> for \<open>-1\<close>.\<close>

definition base16_decode :: "nat \<Rightarrow> string \<Rightarrow> byte list option" where
  "base16_decode destlen src =
     (if odd (length src) \<or> destlen < length src div 2 \<or> int destlen > INT32_MAX then None
      else base16_pairs src)"

subsection \<open>Searching and splitting\<close>

definition starts_with :: "string \<Rightarrow> string \<Rightarrow> bool" where
  "starts_with s p \<longleftrightarrow> take (length p) s = p"

text \<open>
  \<^verbatim>\<open>tor_memmem\<close>, \<^verbatim>\<open>tor_memstr\<close>, \<^verbatim>\<open>strstr\<close>: the offset of the first occurrence of a non-empty needle.
\<close>

fun tor_memstr :: "string \<Rightarrow> string \<Rightarrow> nat option" where
  "tor_memstr [] needle = (if needle = [] then Some 0 else None)"
| "tor_memstr (c # s) needle =
     (if starts_with (c # s) needle then Some 0 else map_option Suc (tor_memstr s needle))"

text \<open>The flags of \<^verbatim>\<open>smartlist_split_string\<close>.\<close>

record split_flags =
  SPLIT_SKIP_SPACE :: bool
  SPLIT_IGNORE_BLANK :: bool
  SPLIT_STRIP_SPACE :: bool

definition no_split_flags :: split_flags where
  "no_split_flags = \<lparr>SPLIT_SKIP_SPACE = False, SPLIT_IGNORE_BLANK = False, SPLIT_STRIP_SPACE = False\<rparr>"

definition rstrip_space :: "string \<Rightarrow> string" where
  "rstrip_space s = rev (dropWhile is_space (rev s))"

text \<open>
  One round of the loop on the suffix \<open>cp\<close>: the piece before the separator (with its end
  found), and the suffix after the separator or \<open>None\<close> at the end of the string. The separator
  \<open>None\<close> means any run of blanks.
\<close>

definition split_next :: "string option \<Rightarrow> bool \<Rightarrow> string \<Rightarrow> string \<times> string option" where
  "split_next sep last_piece cp =
     (if last_piece then (cp, None)
      else case sep of
        Some sp \<Rightarrow>
          (case tor_memstr cp sp of
             None \<Rightarrow> (cp, None)
           | Some k \<Rightarrow> if drop k cp = [] then (cp, None)
                       else (take k cp, Some (drop (k + length sp) cp)))
      | None \<Rightarrow>
          (let w = takeWhile (\<lambda>c. c \<noteq> CHR 0x09 \<and> c \<noteq> CHR '' '') cp;
               r = dropWhile (\<lambda>c. c \<noteq> CHR 0x09 \<and> c \<noteq> CHR '' '') cp
           in if r = [] then (w, None)
              else (w, Some (dropWhile (\<lambda>c. c = CHR 0x09 \<or> c = CHR '' '') (tl r)))))"

definition split_finish :: "split_flags \<Rightarrow> string \<Rightarrow> string option" where
  "split_finish flags w =
     (let w1 = (if SPLIT_SKIP_SPACE flags then rstrip_space w else w)
      in if w1 = [] \<and> SPLIT_IGNORE_BLANK flags then None
         else Some (if SPLIT_STRIP_SPACE flags then filter (\<lambda>c. c \<noteq> CHR '' '') w1 else w1))"

text \<open>
  The loop, with the number \<open>n\<close> of pieces so far; the fuel bounds the number of rounds, and one
  more than the length of the string is enough for a non-empty separator.
\<close>

fun split_loop :: "nat \<Rightarrow> split_flags \<Rightarrow> string option \<Rightarrow> nat \<Rightarrow> nat \<Rightarrow> string \<Rightarrow> string list" where
  "split_loop 0 flags sep mx n cp = []"
| "split_loop (Suc fuel) flags sep mx n cp =
     (let cp1 = (if SPLIT_SKIP_SPACE flags then dropWhile is_space cp else cp);
          (w, nxt) = split_next sep (mx > 0 \<and> n = mx - 1) cp1;
          piece = split_finish flags w;
          here = (case piece of None \<Rightarrow> [] | Some p \<Rightarrow> [p])
      in case nxt of
           None \<Rightarrow> here
         | Some cp2 \<Rightarrow> here @ split_loop fuel flags sep mx (n + length here) cp2)"

definition smartlist_split_string :: "split_flags \<Rightarrow> string option \<Rightarrow> nat \<Rightarrow> string \<Rightarrow> string list" where
  "smartlist_split_string flags sep mx s = split_loop (Suc (length s)) flags sep mx 0 s"

text \<open>Any fuel that exceeds the length of the text gives the same pieces.\<close>

lemma split_next_shorter:
  assumes "split_next sep l cp = (w, Some cp2)" "sep \<noteq> Some []"
  shows "length cp2 < length cp"
proof (cases sep)
  case None
  define r where "r = dropWhile (\<lambda>c. c \<noteq> CHR 0x09 \<and> c \<noteq> CHR '' '') cp"
  have r: "length r \<le> length cp" unfolding r_def by (rule length_dropWhile_le)
  have "r \<noteq> []" "cp2 = dropWhile (\<lambda>c. c = CHR 0x09 \<or> c = CHR '' '') (tl r)"
    using assms(1) unfolding split_next_def None r_def [symmetric] by (auto simp: Let_def split: if_splits)
  moreover from this have "length cp2 \<le> length (tl r)" by (simp only: length_dropWhile_le)
  ultimately show ?thesis using r by (cases r) auto
next
  case (Some sp)
  then obtain c sp1 where "sp = c # sp1" using assms(2) by (cases sp) auto
  then show ?thesis using assms(1) unfolding Some by (auto simp: split_next_def split: if_splits option.splits)
qed

lemma split_loop_fuel:
  "length cp < f \<Longrightarrow> length cp < g \<Longrightarrow> sep \<noteq> Some [] \<Longrightarrow>
   split_loop f flags sep mx n cp = split_loop g flags sep mx n cp"
proof (induction f arbitrary: g n cp)
  case (Suc f)
  then obtain h where g: "g = Suc h" by (cases g) auto
  define cp1 where "cp1 = (if SPLIT_SKIP_SPACE flags then dropWhile is_space cp else cp)"
  have "length cp1 \<le> length cp" unfolding cp1_def using length_dropWhile_le by auto
  then have "length cp2 < f \<and> length cp2 < h" if "split_next sep b cp1 = (w, Some cp2)" for b w cp2
    using split_next_shorter [OF that Suc.prems(3)] Suc.prems(1,2) g by simp
  then show ?case
    using Suc.IH Suc.prems(3) unfolding g split_loop.simps cp1_def [symmetric] Let_def
    by (auto split: prod.splits option.splits)
qed simp

subsection \<open>Decimal round trip\<close>

lemma is_digit_digit_char [simp]: "n < 10 \<Longrightarrow> is_digit (digit_char n)"
  by (simp add: is_digit_def digit_char_def)

lemma digit_val_digit_char [simp]: "n < 10 \<Longrightarrow> digit_val (digit_char n) = n"
  by (simp add: digit_val_def digit_char_def)

lemma show_nat_digits [simp]: "c \<in> set (show_nat n) \<Longrightarrow> is_digit c"
proof (induction n rule: show_nat.induct)
  case (1 n)
  then show ?case by (cases "n < 10") (auto simp: show_nat.simps [of n])
qed

lemma show_nat_nonempty [simp]: "show_nat n \<noteq> []"
  by (subst show_nat.simps) simp

lemma digits_val_show_nat [simp]: "digits_val (show_nat n) = n"
proof (induction n rule: show_nat.induct)
  case (1 n)
  then show ?case
    by (cases "n < 10") (auto simp: show_nat.simps [of n] digits_val_def)
qed

lemma length_show_nat: "n < 10 ^ k \<Longrightarrow> 0 < k \<Longrightarrow> length (show_nat n) \<le> k"
proof (induction k arbitrary: n)
  case (Suc k)
  show ?case
  proof (cases "n < 10")
    case True
    then show ?thesis by (simp add: show_nat.simps)
  next
    case False
    then have "0 < k" using Suc.prems by (cases k) auto
    moreover have "n div 10 < 10 ^ k" using Suc.prems(1) by (simp add: less_mult_imp_div_less mult.commute)
    ultimately have "length (show_nat (n div 10)) \<le> k" by (intro Suc.IH)
    then show ?thesis using False by (simp add: show_nat.simps [of n])
  qed
qed simp

lemma digit_not_space: "is_digit c \<Longrightarrow> \<not> is_space c"
  by (auto simp: is_digit_def is_space_def)

lemma digit_not_sign: "is_digit c \<Longrightarrow> c \<noteq> CHR ''-'' \<and> c \<noteq> CHR ''+''"
  by (auto simp: is_digit_def)

lemma strto_sign_digit: "is_digit c \<Longrightarrow> strto_sign (c # r) = (False, c # r)"
  by (simp add: strto_sign_def digit_not_space digit_not_sign)

lemma takeWhile_show_nat:
  assumes "rest = [] \<or> \<not> is_digit (hd rest)"
  shows "takeWhile is_digit (show_nat n @ rest) = show_nat n"
    and "dropWhile is_digit (show_nat n @ rest) = rest"
  using assms by (cases rest; auto simp: takeWhile_append2 dropWhile_append2)+

lemma strtol10_show_nat:
  assumes "rest = [] \<or> \<not> is_digit (hd rest)" "int n \<le> LONG_MAX"
  shows "strtol10 (show_nat n @ rest) = (int n, False, rest)"
proof -
  obtain c r where cr: "show_nat n = c # r" "is_digit c"
    by (metis list.exhaust list.set_intros(1) show_nat_digits show_nat_nonempty)
  then have "strto_sign (show_nat n @ rest) = (False, show_nat n @ rest)"
    by (simp add: strto_sign_digit)
  then show ?thesis
    using assms(2) by (simp add: strtol10_def takeWhile_show_nat [OF assms(1)] LONG_MIN_def)
qed

lemma strtoul10_show_nat:
  assumes "rest = [] \<or> \<not> is_digit (hd rest)" "int n \<le> ULONG_MAX"
  shows "strtoul10 (show_nat n @ rest) = (int n, False, rest)"
proof -
  obtain c r where cr: "show_nat n = c # r" "is_digit c"
    by (metis list.exhaust list.set_intros(1) show_nat_digits show_nat_nonempty)
  then have "strto_sign (show_nat n @ rest) = (False, show_nat n @ rest)"
    by (simp add: strto_sign_digit)
  then show ?thesis
    using assms(2) by (simp add: strtoul10_def takeWhile_show_nat [OF assms(1)])
qed

lemma tor_parse_ulong_show_nat:
  assumes "rest = [] \<or> \<not> is_digit (hd rest)" "mn \<le> int n" "int n \<le> mx" "mx \<le> ULONG_MAX"
  shows "tor_parse_ulong (show_nat n @ rest) mn mx True = (int n, True, rest)"
  using assms by (simp add: tor_parse_ulong_def check_strtox_def strtoul10_show_nat)

lemma tor_parse_long_show_nat:
  assumes "rest = [] \<or> \<not> is_digit (hd rest)" "mn \<le> int n" "int n \<le> mx" "mx \<le> LONG_MAX"
  shows "tor_parse_long (show_nat n @ rest) mn mx True = (int n, True, rest)"
  using assms by (simp add: tor_parse_long_def check_strtox_def strtol10_show_nat)

lemma hex_decode_digit_upper [simp]: "n < 16 \<Longrightarrow> hex_decode_digit (hex_digit_upper n) = int n"
  by (simp add: hex_decode_digit_def)

lemma base16_pairs_encode [simp]: "base16_pairs (base16_encode bs) = Some bs"
proof (induction bs)
  case (Cons b bs)
  have "int (unat b div 16) * 16 + int (unat b mod 16) = int (unat b)"
    by (metis div_mult_mod_eq of_nat_add of_nat_mult of_nat_numeral)
  then show ?case using Cons by (simp add: base16_encode_def hex_byte_def)
qed (simp add: base16_encode_def)

lemma length_base16_encode [simp]: "length (base16_encode bs) = 2 * length bs"
  by (simp add: base16_encode_def length_concat_map_const [where n = 2])

lemma base16_roundtrip:
  "length bs \<le> destlen \<Longrightarrow> int destlen \<le> INT32_MAX \<Longrightarrow>
   base16_decode destlen (base16_encode bs) = Some bs"
  by (simp add: base16_decode_def)

subsection \<open>Splitting at a single character\<close>

lemma tor_memstr_single:
  "c \<notin> set w \<Longrightarrow> tor_memstr (w @ c # r) [c] = Some (length w)"
  "c \<notin> set w \<Longrightarrow> tor_memstr w [c] = None"
  by (induction w) (auto simp: starts_with_def)

lemma tor_memstr_first:
  assumes "\<forall>i < length p. \<not> starts_with (drop i (p @ needle @ r)) needle" "needle \<noteq> []"
  shows "tor_memstr (p @ needle @ r) needle = Some (length p)"
  using assms(1)
proof (induction p)
  case Nil
  then show ?case using assms(2) by (cases needle) (auto simp: starts_with_def)
next
  case (Cons c p)
  have "\<not> starts_with (c # p @ needle @ r) needle" using Cons.prems by force
  moreover have "\<forall>i < length p. \<not> starts_with (drop i (p @ needle @ r)) needle" using Cons.prems by fastforce
  ultimately show ?case using Cons.IH by simp
qed

lemma tor_memstr_hd:
  assumes "needle \<noteq> []" "hd needle \<notin> set p"
  shows "tor_memstr (p @ needle @ r) needle = Some (length p)"
proof (rule tor_memstr_first [OF _ assms(1)], intro allI impI notI)
  fix i assume i: "i < length p" "starts_with (drop i (p @ needle @ r)) needle"
  then have "hd (take (length needle) (drop i (p @ needle @ r))) = hd needle" by (simp add: starts_with_def)
  then have "p ! i = hd needle" using i assms(1) by (simp add: hd_drop_conv_nth nth_append)
  then show False using i(1) assms(2) nth_mem by metis
qed

lemma tor_memstr_second:
  assumes "1 < length needle" "needle ! 1 \<notin> set p" "needle ! 0 \<noteq> needle ! 1"
  shows "tor_memstr (p @ needle @ r) needle = Some (length p)"
proof (rule tor_memstr_first, intro allI impI notI)
  fix i assume i: "i < length p" "starts_with (drop i (p @ needle @ r)) needle"
  have "take (length needle) (drop i xs) ! 1 = xs ! (i + 1)" if "i \<le> length xs" for xs
    using that assms(1) by simp
  from this [of "p @ needle @ r"] have "(p @ needle @ r) ! (i + 1) = needle ! 1"
    using i by (metis length_append less_imp_le_nat starts_with_def trans_le_add1)
  moreover have "(p @ needle @ r) ! (i + 1) = (if i + 1 < length p then p ! (i + 1) else needle ! 0)"
    using i(1) assms(1) by (auto simp: nth_append not_less le_Suc_eq)
  ultimately show False using assms nth_mem [of "i + 1" p] by (auto split: if_splits)
qed (use assms in auto)

lemma split_next_single:
  "c \<notin> set w \<Longrightarrow> split_next (Some [c]) False (w @ c # r) = (w, Some r)"
  "c \<notin> set w \<Longrightarrow> split_next (Some [c]) False w = (w, None)"
  by (simp_all add: split_next_def tor_memstr_single)

lemma split_loop_join:
  assumes "\<forall>w \<in> set ws. c \<notin> set w" "c \<notin> set w" "length ws < fuel"
  shows "split_loop fuel no_split_flags (Some [c]) 0 n (concat (map (\<lambda>w. w @ [c]) ws) @ w) = ws @ [w]"
  using assms
proof (induction ws arbitrary: fuel n)
  case Nil
  then obtain f where "fuel = Suc f" by (cases fuel) auto
  then show ?case using Nil by (simp add: split_next_single no_split_flags_def split_finish_def)
next
  case (Cons v ws)
  then obtain f where f: "fuel = Suc f" "length ws < f" by (cases fuel) auto
  then show ?case using Cons.IH [of f] Cons.prems
    by (simp add: split_next_single no_split_flags_def split_finish_def)
qed

lemma smartlist_split_join:
  assumes "\<forall>w \<in> set ws. c \<notin> set w" "c \<notin> set w"
  shows "smartlist_split_string no_split_flags (Some [c]) 0 (concat (map (\<lambda>w. w @ [c]) ws) @ w) = ws @ [w]"
  unfolding smartlist_split_string_def
proof (rule split_loop_join [OF assms])
  have "length ws \<le> length (concat (map (\<lambda>w. w @ [c]) ws))" by (induction ws) auto
  then show "length ws < Suc (length (concat (map (\<lambda>w. w @ [c]) ws) @ w))" by simp
qed

lemma base16_encode_chars:
  "c \<in> set (base16_encode bs) \<Longrightarrow> \<exists>n < 16. c = hex_digit_upper n"
  by (auto simp: base16_encode_def hex_byte_def intro: byte_nibbles)

lemma base16_encode_no:
  assumes "hex_value c = None"
  shows "c \<notin> set (base16_encode bs)"
proof
  assume "c \<in> set (base16_encode bs)"
  then obtain n where "n < 16" "c = hex_digit_upper n" using base16_encode_chars by blast
  then show False using assms by simp
qed

end
