(* ===== verification/Consdiff.thy ===== *)
theory Consdiff
  imports Strings
begin

text \<open>
  The consensus diff engine of \<^verbatim>\<open>src/BADNET/src/feature/dircommon/consdiff.c\<close>: the longest common
  subsequence driven change marking (\<^verbatim>\<open>calc_changes\<close>), the generation of an ed script
  (\<^verbatim>\<open>gen_ed_diff\<close>), its application (\<^verbatim>\<open>apply_ed_diff\<close>) and the text level entry points
  (\<^verbatim>\<open>consensus_diff_generate\<close>, \<^verbatim>\<open>consensus_diff_apply\<close>). A \<^verbatim>\<open>cdline_t\<close> is the list of its
  characters and a \<^verbatim>\<open>bitarray_t\<close> a list of booleans. The SHA3 implementation is a parameter.
\<close>

subsection \<open>Lines and slices\<close>

type_synonym cdline = string

definition lines_eq :: "cdline \<Rightarrow> cdline \<Rightarrow> bool" where
  "lines_eq a b \<longleftrightarrow> length a = length b \<and> a = b"

definition line_str_eq :: "cdline \<Rightarrow> string \<Rightarrow> bool" where
  "line_str_eq a b \<longleftrightarrow> lines_eq a b"

definition line_starts_with_str :: "cdline \<Rightarrow> string \<Rightarrow> bool" where
  "line_starts_with_str a b \<longleftrightarrow> length a \<ge> length b \<and> take (length b) a = b"

lemma lines_eq_iff [simp]: "lines_eq a b \<longleftrightarrow> a = b" "line_str_eq a b \<longleftrightarrow> a = b"
  by (auto simp: lines_eq_def line_str_eq_def)

record smartlist_slice_t =
  sl_list :: "cdline list"
  sl_offset :: nat
  sl_len :: nat

text \<open>
  \<^verbatim>\<open>smartlist_slice\<close>: the assertions (\<open>start\<close> and \<open>end\<close> inside the list, in order) are
  \<open>slice_ok\<close> of the result, which the callers establish.
\<close>

definition smartlist_slice :: "cdline list \<Rightarrow> nat \<Rightarrow> int \<Rightarrow> smartlist_slice_t" where
  "smartlist_slice xs start e =
     \<lparr>sl_list = xs, sl_offset = start,
      sl_len = nat ((if e = -1 then int (length xs) else e) - int start)\<rparr>"

definition slice_ok :: "smartlist_slice_t \<Rightarrow> bool" where
  "slice_ok sl \<longleftrightarrow> sl_offset sl + sl_len sl \<le> length (sl_list sl)"

definition slice_lines :: "smartlist_slice_t \<Rightarrow> cdline list" where
  "slice_lines sl = take (sl_len sl) (drop (sl_offset sl) (sl_list sl))"

subsection \<open>Longest common subsequence lengths\<close>

text \<open>
  One row of the table: \<open>prev\<close> is the previous row from column \<open>j\<close> on, \<open>left\<close> is \<open>result[j]\<close>.
\<close>

fun lcs_row :: "cdline \<Rightarrow> cdline list \<Rightarrow> nat list \<Rightarrow> nat \<Rightarrow> nat list" where
  "lcs_row line1 (line2 # ls) (p # q # ps) left =
     (let v = (if lines_eq line1 line2 then p + 1 else max left q)
      in v # lcs_row line1 ls (q # ps) v)"
| "lcs_row line1 _ _ left = []"

definition lcs_step :: "cdline list \<Rightarrow> nat list \<Rightarrow> cdline \<Rightarrow> nat list" where
  "lcs_step ls2 result line1 = hd result # lcs_row line1 ls2 result (hd result)"

text \<open>\<open>backwards\<close> is the direction \<open>-1\<close>: both slices are walked from their last line.\<close>

definition lcs_lengths :: "smartlist_slice_t \<Rightarrow> smartlist_slice_t \<Rightarrow> bool \<Rightarrow> nat list" where
  "lcs_lengths slc1 slc2 backwards =
     (let dir = (if backwards then rev else (\<lambda>x. x))
      in foldl (lcs_step (dir (slice_lines slc2))) (replicate (sl_len slc2 + 1) 0)
           (dir (slice_lines slc1)))"

subsection \<open>Marking changes\<close>

function trim_front :: "smartlist_slice_t \<Rightarrow> smartlist_slice_t \<Rightarrow> smartlist_slice_t \<times> smartlist_slice_t" where
  "trim_front s1 s2 =
     (if sl_len s1 > 0 \<and> sl_len s2 > 0 \<and>
         lines_eq (sl_list s1 ! sl_offset s1) (sl_list s2 ! sl_offset s2)
      then trim_front (s1\<lparr>sl_offset := sl_offset s1 + 1, sl_len := sl_len s1 - 1\<rparr>)
                      (s2\<lparr>sl_offset := sl_offset s2 + 1, sl_len := sl_len s2 - 1\<rparr>)
      else (s1, s2))"
  by pat_completeness auto
termination
  by (relation "measure (\<lambda>(s1, s2). sl_len s1)") auto

function trim_back :: "smartlist_slice_t \<Rightarrow> smartlist_slice_t \<Rightarrow> smartlist_slice_t \<times> smartlist_slice_t" where
  "trim_back s1 s2 =
     (if sl_len s1 > 0 \<and> sl_len s2 > 0 \<and>
         lines_eq (sl_list s1 ! (sl_offset s1 + sl_len s1 - 1))
                  (sl_list s2 ! (sl_offset s2 + sl_len s2 - 1))
      then trim_back (s1\<lparr>sl_len := sl_len s1 - 1\<rparr>) (s2\<lparr>sl_len := sl_len s2 - 1\<rparr>)
      else (s1, s2))"
  by pat_completeness auto
termination
  by (relation "measure (\<lambda>(s1, s2). sl_len s1)") auto

declare trim_front.simps [simp del] trim_back.simps [simp del]

definition trim_slices :: "smartlist_slice_t \<Rightarrow> smartlist_slice_t \<Rightarrow> smartlist_slice_t \<times> smartlist_slice_t" where
  "trim_slices s1 s2 = (let (t1, t2) = trim_front s1 s2 in trim_back t1 t2)"

definition smartlist_slice_string_pos :: "smartlist_slice_t \<Rightarrow> cdline \<Rightarrow> nat option" where
  "smartlist_slice_string_pos sl s =
     find (\<lambda>i. lines_eq (sl_list sl ! i) s) [sl_offset sl ..< sl_offset sl + sl_len sl]"

text \<open>Setting every bit of a range but one (the loop over the second slice).\<close>

definition set_range_except :: "nat option \<Rightarrow> nat \<Rightarrow> nat \<Rightarrow> bool list \<Rightarrow> bool list" where
  "set_range_except toskip a b ch = foldl (\<lambda>c i. if toskip \<noteq> Some i then c[i := True] else c) ch [a ..< b]"

definition set_changed ::
  "bool list \<Rightarrow> bool list \<Rightarrow> smartlist_slice_t \<Rightarrow> smartlist_slice_t \<Rightarrow> bool list \<times> bool list" where
  "set_changed changed1 changed2 slc1 slc2 =
     (let toskip = (if sl_len slc1 = 1
                    then smartlist_slice_string_pos slc2 (sl_list slc1 ! sl_offset slc1)
                    else None);
          changed1' = (if sl_len slc1 = 1 \<and> toskip = None
                       then changed1[sl_offset slc1 := True] else changed1)
      in (changed1', set_range_except toskip (sl_offset slc2)
                       (sl_offset slc2 + sl_len slc2) changed2))"

definition optimal_column_to_split ::
  "smartlist_slice_t \<Rightarrow> smartlist_slice_t \<Rightarrow> smartlist_slice_t \<Rightarrow> nat" where
  "optimal_column_to_split top_sl bot_sl slc2 =
     (let lens_top = lcs_lengths top_sl slc2 False;
          lens_bot = lcs_lengths bot_sl slc2 True
      in fst (foldl (\<lambda>(column, max_sum) i.
                let s = int (lens_top ! i) + int (lens_bot ! (sl_len slc2 - i))
                in if s > max_sum then (i, s) else (column, max_sum))
              (0, -1) [0 ..< sl_len slc2 + 1]))"

lemma trim_front_len: "trim_front s1 s2 = (t1, t2) \<Longrightarrow> sl_len t1 \<le> sl_len s1 \<and> sl_len t2 \<le> sl_len s2"
proof (induction s1 s2 rule: trim_front.induct)
  case (1 s1 s2)
  then show ?case by (subst (asm) (2) trim_front.simps) (auto split: if_splits)
qed

lemma trim_back_len: "trim_back s1 s2 = (t1, t2) \<Longrightarrow> sl_len t1 \<le> sl_len s1 \<and> sl_len t2 \<le> sl_len s2"
proof (induction s1 s2 rule: trim_back.induct)
  case (1 s1 s2)
  then show ?case by (subst (asm) (2) trim_back.simps) (auto split: if_splits)
qed

lemma trim_slices_len: "trim_slices s1 s2 = (t1, t2) \<Longrightarrow> sl_len t1 \<le> sl_len s1 \<and> sl_len t2 \<le> sl_len s2"
  by (auto simp: trim_slices_def split: prod.splits dest!: trim_front_len trim_back_len)

text \<open>The two slices before and after the first \<open>k\<close> lines, as \<^verbatim>\<open>calc_changes\<close> builds them.\<close>

definition split_slice :: "smartlist_slice_t \<Rightarrow> nat \<Rightarrow> smartlist_slice_t \<times> smartlist_slice_t" where
  "split_slice s k =
     (smartlist_slice (sl_list s) (sl_offset s) (int (sl_offset s + k)),
      smartlist_slice (sl_list s) (sl_offset s + k) (int (sl_offset s + sl_len s)))"

lemma split_slice_eq:
  "k \<le> sl_len s \<Longrightarrow> split_slice s k =
     (\<lparr>sl_list = sl_list s, sl_offset = sl_offset s, sl_len = k\<rparr>,
      \<lparr>sl_list = sl_list s, sl_offset = sl_offset s + k, sl_len = sl_len s - k\<rparr>)"
  by (simp add: split_slice_def smartlist_slice_def)

function calc_changes ::
  "smartlist_slice_t \<Rightarrow> smartlist_slice_t \<Rightarrow> bool list \<Rightarrow> bool list \<Rightarrow> bool list \<times> bool list" where
  "calc_changes slc1 slc2 changed1 changed2 =
     (let (s1, s2) = trim_slices slc1 slc2
      in if sl_len s1 \<le> 1 then set_changed changed1 changed2 s1 s2
         else if sl_len s2 \<le> 1 then
           (let (c2, c1) = set_changed changed2 changed1 s2 s1 in (c1, c2))
         else
           let (top_sl, bot_sl) = split_slice s1 (sl_len s1 div 2);
               mid2 = optimal_column_to_split top_sl bot_sl s2;
               (left, right) = split_slice s2 mid2;
               (c1, c2) = calc_changes top_sl left changed1 changed2
           in calc_changes bot_sl right c1 c2)"
  by pat_completeness auto
termination
  by (relation "measure (\<lambda>(s1, s2, c1, c2). sl_len s1)")
     (auto simp: split_slice_eq dest!: trim_slices_len [OF sym])

declare calc_changes.simps [simp del]

subsection \<open>Router entries\<close>

text \<open>\<^verbatim>\<open>base64_compare_table\<close>: the value of a base64 digit, 255 for every other character.\<close>

definition NOT_VALID_BASE64 :: nat where "NOT_VALID_BASE64 = 255"

definition base64_compare_table :: "char \<Rightarrow> nat" where
  "base64_compare_table c =
     (let n = (of_char c :: nat)
      in if n = 43 then 62 else if n = 47 then 63
         else if 48 \<le> n \<and> n \<le> 57 then n + 4
         else if 65 \<le> n \<and> n \<le> 90 then n - 65
         else if 97 \<le> n \<and> n \<le> 122 then n - 71
         else NOT_VALID_BASE64)"

text \<open>
  The loop of \<^verbatim>\<open>get_id_hash\<close> looks at the character before it compares the position with the end of the
  line. A hash that runs to the end of its line makes it read one byte beyond the line: the newline, since
  \<^verbatim>\<open>consensus_split_lines\<close> refuses a text whose last line has none. The loop stops there whatever the byte is.
\<close>

definition get_id_hash :: "cdline \<Rightarrow> string option" where
  "get_id_hash line =
     (if length line < 2 then None
      else case dropWhile (\<lambda>c. c \<noteq> CHR '' '') (drop 2 line) of
             [] \<Rightarrow> None
           | _ # r \<Rightarrow>
               (let h = takeWhile (\<lambda>c. base64_compare_table c \<noteq> NOT_VALID_BASE64) r
                in if h = [] then None else Some h))"

definition is_valid_router_entry :: "cdline \<Rightarrow> bool" where
  "is_valid_router_entry line \<longleftrightarrow>
     \<not> (length line < 2 \<or> take 2 line \<noteq> ''r '') \<and> get_id_hash line \<noteq> None"

text \<open>\<^verbatim>\<open>next_router\<close>: the first valid router line after \<open>cur\<close>, or the length of the list.\<close>

function next_router_from :: "cdline list \<Rightarrow> nat \<Rightarrow> nat" where
  "next_router_from cons cur =
     (if cur \<ge> length cons then length cons
      else if is_valid_router_entry (cons ! cur) then cur
      else next_router_from cons (cur + 1))"
  by pat_completeness auto
termination
  by (relation "measure (\<lambda>(cons, cur). length cons - cur)") auto

declare next_router_from.simps [simp del]

definition next_router :: "cdline list \<Rightarrow> int \<Rightarrow> int" where
  "next_router cons cur = int (next_router_from cons (nat (cur + 1)))"

text \<open>
  \<^verbatim>\<open>base64cmp\<close>: a null hash is lower than any other. The loop reads a character of each hash
  before it tests for the end, so on an empty hash it reads outside: \<open>None\<close>.
\<close>

fun base64cmp_loop :: "string \<Rightarrow> string \<Rightarrow> int option" where
  "base64cmp_loop (x # a) (y # b) =
     (let av = base64_compare_table x; bv = base64_compare_table y
      in if av = NOT_VALID_BASE64 then (if bv = NOT_VALID_BASE64 then Some 0 else Some (-1))
         else if bv = NOT_VALID_BASE64 then Some 1
         else if av < bv then Some (-1)
         else if av > bv then Some 1
         else if a = [] then (if b = [] then Some 0 else Some (-1))
         else if b = [] then Some 1
         else base64cmp_loop a b)"
| "base64cmp_loop _ _ = None"

fun base64cmp :: "string option \<Rightarrow> string option \<Rightarrow> int option" where
  "base64cmp None None = Some 0"
| "base64cmp None (Some _) = Some (-1)"
| "base64cmp (Some _) None = Some 1"
| "base64cmp (Some a) (Some b) = base64cmp_loop a b"

record router_id_iterator_t =
  last_hash :: "string option"
  hash :: "string option"

definition ROUTER_ID_ITERATOR_INIT :: router_id_iterator_t where
  "ROUTER_ID_ITERATOR_INIT = \<lparr>last_hash = None, hash = None\<rparr>"

datatype diff_error =
    RoutersNotSorted
  | TooFewCommonRouters
  | AddsDotLine
  | ReadOutside \<comment> \<open>a read outside a hash\<close>

definition find_next_router_line ::
  "cdline list \<Rightarrow> int \<Rightarrow> router_id_iterator_t \<Rightarrow> diff_error + (int \<times> router_id_iterator_t)" where
  "find_next_router_line cons idx it =
     (let idx' = next_router cons idx
      in if idx' < int (length cons) then
           (case get_id_hash (cons ! nat idx') of
              None \<Rightarrow> Inl RoutersNotSorted
            | Some h \<Rightarrow>
                (case base64cmp (Some h) (hash it) of
                   None \<Rightarrow> Inl ReadOutside
                 | Some c \<Rightarrow> if c \<le> 0 then Inl RoutersNotSorted
                             else Inr (idx', \<lparr>last_hash = hash it, hash = Some h\<rparr>)))
         else Inr (idx', it))"

definition START_OF_SIGNATURES_SECTION :: string where
  "START_OF_SIGNATURES_SECTION = ''directory-signature ''"

text \<open>\<^verbatim>\<open>preprocess_consensus\<close>: the lines before the signatures, and the command that deletes them.\<close>

definition preprocess_consensus :: "cdline list \<Rightarrow> cdline list \<times> cdline option" where
  "preprocess_consensus cons =
     (let body = takeWhile (\<lambda>l. \<not> line_starts_with_str l START_OF_SIGNATURES_SECTION) cons
      in if length body < length cons
         then (body, Some (show_nat (length body + 1) @ '',$d''))
         else (cons, None))"

subsection \<open>Generating the ed script\<close>

lemma next_router_from_bounds:
  "cur \<le> length cons \<Longrightarrow> cur \<le> next_router_from cons cur \<and> next_router_from cons cur \<le> length cons"
proof (induction cons cur rule: next_router_from.induct)
  case (1 cons cur)
  have unfold: "next_router_from cons cur =
      (if cur \<ge> length cons then length cons
       else if is_valid_router_entry (cons ! cur) then cur else next_router_from cons (cur + 1))"
    by (rule next_router_from.simps)
  show ?case using 1 unfolding unfold by auto
qed

lemma find_next_router_line_bounds:
  assumes "find_next_router_line cons idx it = Inr (idx', it')" "-1 \<le> idx" "idx < int (length cons)"
  shows "idx < idx' \<and> idx' \<le> int (length cons)"
proof -
  have "idx' = next_router cons idx"
    using assms(1) by (auto simp: find_next_router_line_def Let_def split: if_splits option.splits)
  then show ?thesis
    using next_router_from_bounds [of "nat (idx + 1)" cons] assms(2,3)
    by (simp add: next_router_def) linarith
qed

text \<open>
  The inner loop: advance the position with the lower hash until both agree. (\<open>-1 \<le> i\<close> is the
  assertion of \<^verbatim>\<open>next_router\<close>; positions never drop below \<open>-1\<close>.)
\<close>

function advance_lower ::
  "cdline list \<Rightarrow> cdline list \<Rightarrow> int \<Rightarrow> int \<Rightarrow> router_id_iterator_t \<Rightarrow> router_id_iterator_t \<Rightarrow>
   diff_error + (int \<times> int \<times> router_id_iterator_t \<times> router_id_iterator_t)" where
  "advance_lower cons1 cons2 i1 i2 it1 it2 =
     (let len1 = int (length cons1); len2 = int (length cons2)
      in case base64cmp (hash it1) (hash it2) of
           None \<Rightarrow> Inl ReadOutside
         | Some cmp \<Rightarrow>
             if cmp = 0 then Inr (i1, i2, it1, it2)
             else if -1 \<le> i1 \<and> i1 < len1 \<and> cmp < 0 then
               (case find_next_router_line cons1 i1 it1 of
                  Inl e \<Rightarrow> Inl e
                | Inr (i1', it1') \<Rightarrow>
                    if i1' = len1 then Inr (i1', len2, it1', it2)
                    else advance_lower cons1 cons2 i1' i2 it1' it2)
             else if -1 \<le> i2 \<and> i2 < len2 \<and> cmp > 0 then
               (case find_next_router_line cons2 i2 it2 of
                  Inl e \<Rightarrow> Inl e
                | Inr (i2', it2') \<Rightarrow>
                    if i2' = len2 then Inr (len1, i2', it1, it2')
                    else advance_lower cons1 cons2 i1 i2' it1 it2')
             else Inr (len1, len2, it1, it2))"
  by pat_completeness auto
termination
  by (relation "measure (\<lambda>(c1, c2, i1, i2, _). nat (int (length c1) - i1) + nat (int (length c2) - i2))")
     (auto dest: find_next_router_line_bounds)

declare advance_lower.simps [simp del]

lemma advance_lower_bounds:
  assumes "advance_lower cons1 cons2 i1 i2 it1 it2 = Inr (j1, j2, it1', it2')"
    and "i1 \<le> int (length cons1)" "i2 \<le> int (length cons2)"
  shows "i1 \<le> j1 \<and> j1 \<le> int (length cons1) \<and> i2 \<le> j2 \<and> j2 \<le> int (length cons2)"
  using assms
proof (induction cons1 cons2 i1 i2 it1 it2 rule: advance_lower.induct)
  case (1 cons1 cons2 i1 i2 it1 it2)
  from 1(3) show ?case
    unfolding advance_lower.simps [of cons1 cons2 i1 i2] Let_def
    using 1(1) [OF refl refl] 1(2) [OF refl refl] 1(4,5)
    by (auto split: option.splits if_splits sum.splits dest!: find_next_router_line_bounds)
       fastforce+
qed

definition MAX_LINE_COUNT :: int where "MAX_LINE_COUNT = 10000"

text \<open>
  The outer loop of \<^verbatim>\<open>gen_ed_diff\<close>: move both positions to the next common router, mark the
  changes between the previous and the new positions.
\<close>

definition step_routers ::
  "cdline list \<Rightarrow> cdline list \<Rightarrow> int \<Rightarrow> int \<Rightarrow> router_id_iterator_t \<Rightarrow> router_id_iterator_t \<Rightarrow>
   diff_error + (int \<times> int \<times> router_id_iterator_t \<times> router_id_iterator_t)" where
  "step_routers cons1 cons2 i1 i2 it1 it2 =
     (let len1 = int (length cons1); len2 = int (length cons2)
      in case (if i1 < len1 then find_next_router_line cons1 i1 it1 else Inr (i1, it1)) of
           Inl e \<Rightarrow> Inl e
         | Inr (i1a, it1a) \<Rightarrow>
             (case (if i2 < len2 then find_next_router_line cons2 i2 it2 else Inr (i2, it2)) of
                Inl e \<Rightarrow> Inl e
              | Inr (i2a, it2a) \<Rightarrow>
                  if i1a < len1 \<or> i2a < len2
                  then advance_lower cons1 cons2 i1a i2a it1a it2a
                  else Inr (i1a, i2a, it1a, it2a)))"

lemma step_routers_bounds:
  assumes "step_routers cons1 cons2 i1 i2 it1 it2 = Inr (j1, j2, it1', it2')"
    and "-1 \<le> i1" "-1 \<le> i2" "i1 \<le> int (length cons1)" "i2 \<le> int (length cons2)"
  shows "i1 \<le> j1 \<and> j1 \<le> int (length cons1) \<and> i2 \<le> j2 \<and> j2 \<le> int (length cons2) \<and>
     (i1 < int (length cons1) \<longrightarrow> i1 < j1) \<and> (i2 < int (length cons2) \<longrightarrow> i2 < j2)"
  using assms unfolding step_routers_def Let_def
  by (auto split: sum.splits if_splits dest!: find_next_router_line_bounds advance_lower_bounds)

function gen_changes ::
  "cdline list \<Rightarrow> cdline list \<Rightarrow> int \<Rightarrow> int \<Rightarrow> router_id_iterator_t \<Rightarrow> router_id_iterator_t \<Rightarrow>
   nat \<Rightarrow> nat \<Rightarrow> bool list \<Rightarrow> bool list \<Rightarrow> diff_error + (bool list \<times> bool list)" where
  "gen_changes cons1 cons2 i1 i2 it1 it2 start1 start2 changed1 changed2 =
     (if -1 \<le> i1 \<and> -1 \<le> i2 \<and> i1 \<le> int (length cons1) \<and> i2 \<le> int (length cons2) \<and>
         (i1 < int (length cons1) \<or> i2 < int (length cons2)) then
        (case step_routers cons1 cons2 i1 i2 it1 it2 of
           Inl e \<Rightarrow> Inl e
         | Inr (j1, j2, it1', it2') \<Rightarrow>
             if j1 - int start1 > MAX_LINE_COUNT \<or> j2 - int start2 > MAX_LINE_COUNT
             then Inl TooFewCommonRouters
             else let (c1, c2) = calc_changes (smartlist_slice cons1 start1 j1)
                                   (smartlist_slice cons2 start2 j2) changed1 changed2
                  in gen_changes cons1 cons2 j1 j2 it1' it2' (nat j1) (nat j2) c1 c2)
      else Inr (changed1, changed2))"
  by pat_completeness auto
termination
  by (relation "measure (\<lambda>(c1, c2, i1, i2, _). nat (int (length c1) - i1) + nat (int (length c2) - i2))")
     (auto dest: step_routers_bounds)

declare gen_changes.simps [simp del]

text \<open>
  The reverse walk of \<^verbatim>\<open>gen_ed_diff\<close>. The counters are \<open>n1 = i1 + 1\<close> and \<open>n2 = i2 + 1\<close> of the code,
  the numbers of lines not yet visited. \<open>skip_changed\<close> is the loop that grabs contiguous changed
  lines.
\<close>

fun skip_changed :: "bool list \<Rightarrow> nat \<Rightarrow> nat" where
  "skip_changed ch 0 = 0"
| "skip_changed ch (Suc n) = (if ch ! n then skip_changed ch n else Suc n)"

definition ed_command :: "nat \<Rightarrow> nat \<Rightarrow> nat \<Rightarrow> cdline" where
  "ed_command start1x deleted added =
     (if added = 0 then
        (if deleted = 1 then show_nat (start1x + 1) @ ''d''
         else show_nat (start1x + 1) @ '','' @ show_nat (start1x + deleted) @ ''d'')
      else if deleted = 0 then show_nat start1x @ ''a''
      else if deleted = 1 then show_nat (start1x + 1) @ ''c''
      else show_nat (start1x + 1) @ '','' @ show_nat (start1x + deleted) @ ''c'')"

lemma skip_changed_le: "skip_changed ch n \<le> n"
  by (induction n) auto

lemma skip_changed_less: "n > 0 \<Longrightarrow> ch ! (n - 1) \<Longrightarrow> skip_changed ch n < n"
  by (cases n) (auto simp: le_imp_less_Suc skip_changed_le)

function ed_walk :: "cdline list \<Rightarrow> bool list \<Rightarrow> bool list \<Rightarrow> nat \<Rightarrow> nat \<Rightarrow> diff_error + cdline list" where
  "ed_walk cons2 changed1 changed2 n1 n2 =
     (if n1 = 0 \<and> n2 = 0 then Inr []
      else if \<not> (n1 > 0 \<and> changed1 ! (n1 - 1)) \<and> \<not> (n2 > 0 \<and> changed2 ! (n2 - 1))
      then ed_walk cons2 changed1 changed2 (n1 - 1) (n2 - 1)
      else
        let m1 = skip_changed changed1 n1; m2 = skip_changed changed2 n2;
            added = n2 - m2; deleted = n1 - m1;
            new_lines = take added (drop m2 cons2);
            cmd = ed_command m1 deleted added
        in if added > 0 \<and> (\<exists>l \<in> set new_lines. line_str_eq l ''.'') then Inl AddsDotLine
           else (case ed_walk cons2 changed1 changed2 m1 m2 of
                   Inl e \<Rightarrow> Inl e
                 | Inr rest \<Rightarrow>
                     if added = 0 then Inr (cmd # rest)
                     else Inr (cmd # new_lines @ ''.'' # rest)))"
  by pat_completeness auto
termination
proof (relation "measure (\<lambda>(cons2, ch1, ch2, n1, n2). n1 + n2)", goal_cases)
  case (3 cons2 changed1 changed2 n1 n2 m1 m2)
  then show ?case
    using skip_changed_le [of changed1 n1] skip_changed_le [of changed2 n2]
      skip_changed_less [of n1 changed1] skip_changed_less [of n2 changed2]
    by auto
qed auto

declare ed_walk.simps [simp del]

definition gen_ed_diff :: "cdline list \<Rightarrow> cdline list \<Rightarrow> diff_error + cdline list" where
  "gen_ed_diff cons1_orig cons2 =
     (let (cons1, remove_trailer) = preprocess_consensus cons1_orig;
          len1 = length cons1; len2 = length cons2
      in case gen_changes cons1 cons2 (-1) (-1) ROUTER_ID_ITERATOR_INIT ROUTER_ID_ITERATOR_INIT
                0 0 (replicate len1 False) (replicate len2 False) of
           Inl e \<Rightarrow> Inl e
         | Inr (changed1, changed2) \<Rightarrow>
             (case ed_walk cons2 changed1 changed2 len1 len2 of
                Inl e \<Rightarrow> Inl e
              | Inr script \<Rightarrow>
                  Inr ((case remove_trailer of None \<Rightarrow> [] | Some l \<Rightarrow> [l]) @ script)))"

subsection \<open>Applying an ed script\<close>

datatype ed_error =
    CommandTooLong | MissingLineNumber | MissingRangeEnd | InvalidRange | NotReverseSorted
  | NoCommand | CommandNotOneChar | UnknownCommand | EofNotDelete | AddAfterRange
  | UnterminatedInsert | InsertsNothing

definition get_linenum :: "string \<Rightarrow> (int \<times> string) option" where
  "get_linenum s =
     (if s = [] \<or> \<not> is_digit (hd s) then None
      else let (n, ok, rest) = tor_parse_long s 0 INT32_MAX True
           in if ok then Some (n, rest) else None)"

text \<open>
  Parsing one command line against a consensus of \<open>len1\<close> lines of which \<open>j\<close> are still unread: the
  range and the action.
\<close>

definition parse_range :: "nat \<Rightarrow> string \<Rightarrow> ed_error + (int \<times> int \<times> bool \<times> bool \<times> string)" where
  "parse_range len1 s =
     (case get_linenum s of
        None \<Rightarrow> Inl MissingLineNumber
      | Some (start, p) \<Rightarrow>
          if p \<noteq> [] \<and> hd p = CHR '','' then
            (let q = tl p
             in if q \<noteq> [] \<and> hd q = CHR ''$'' then
                  (if int len1 \<le> start then Inl InvalidRange
                   else Inr (start, int len1, True, True, tl q))
                else case get_linenum q of
                       None \<Rightarrow> Inl MissingRangeEnd
                     | Some (e, r) \<Rightarrow> if e \<le> start then Inl InvalidRange
                                     else Inr (start, e, True, False, r))
          else Inr (start, start, False, False, p))"

definition parse_ed_command :: "nat \<Rightarrow> int \<Rightarrow> cdline \<Rightarrow> ed_error + (int \<times> int \<times> char)" where
  "parse_ed_command len1 j line =
     (if length line > 127 then Inl CommandTooLong
      else case parse_range len1 (takeWhile (\<lambda>c. c \<noteq> CHR 0x00) line) of
             Inl e \<Rightarrow> Inl e
           | Inr (start, e, had_range, end_was_eof, ptr) \<Rightarrow>
               if e > j then Inl NotReverseSorted
               else if ptr = [] then Inl NoCommand
               else if tl ptr \<noteq> [] then Inl CommandNotOneChar
               else if hd ptr \<notin> {CHR ''a'', CHR ''c'', CHR ''d''} then Inl UnknownCommand
               else if end_was_eof \<and> hd ptr \<noteq> CHR ''d'' then Inl EofNotDelete
               else if had_range \<and> hd ptr = CHR ''a'' then Inl AddAfterRange
               else Inr (start, e, hd ptr))"

text \<open>
  The main loop on the remaining script lines; \<open>acc\<close> is the output so far, in the reversed order
  in which the code collects it.
\<close>

function apply_loop :: "cdline list \<Rightarrow> cdline list \<Rightarrow> int \<Rightarrow> cdline list \<Rightarrow> ed_error + cdline list" where
  "apply_loop cons1 [] j acc = Inr (rev (acc @ rev (take (nat j) cons1)))"
| "apply_loop cons1 (line # diff) j acc =
     (case parse_ed_command (length cons1) j line of
        Inl e \<Rightarrow> Inl e
      | Inr (start, e, action) \<Rightarrow>
          let acc1 = acc @ rev (drop (nat e) (take (nat j) cons1));
              j1 = (if e < j then e else j);
              j2 = (if action \<in> {CHR ''c'', CHR ''d''} then min (j1 - 1) (start - 1) else j1)
          in if action \<in> {CHR ''a'', CHR ''c''} then
               (let ins = takeWhile (\<lambda>l. \<not> line_str_eq l ''.'') diff
                in if ins = [] then Inl InsertsNothing
                   else if length ins = length diff then Inl UnterminatedInsert
                   else apply_loop cons1 (drop (length ins + 1) diff) j2 (acc1 @ rev ins))
             else apply_loop cons1 diff j2 acc1)"
  by pat_completeness auto
termination
  by (relation "measure (\<lambda>(c, d, j, a). length d)") auto

declare apply_loop.simps(2) [simp del]

definition apply_ed_diff :: "cdline list \<Rightarrow> cdline list \<Rightarrow> nat \<Rightarrow> ed_error + cdline list" where
  "apply_ed_diff cons1 diff diff_starting_line =
     apply_loop cons1 (drop diff_starting_line diff) (int (length cons1)) []"

subsection \<open>Whole diffs\<close>

definition ns_diff_version :: string where "ns_diff_version = ''network-status-diff-version 1''"
definition hash_token :: string where "hash_token = ''hash''"
definition DIGEST256_LEN :: nat where "DIGEST256_LEN = 32"
definition HEX_DIGEST256_LEN :: nat where "HEX_DIGEST256_LEN = 64"
definition CONSENSUS_LINE_MAX_LEN :: nat where "CONSENSUS_LINE_MAX_LEN = 2 ^ 20"

definition consdiff_gen_diff ::
  "cdline list \<Rightarrow> cdline list \<Rightarrow> byte list \<Rightarrow> byte list \<Rightarrow> cdline list option" where
  "consdiff_gen_diff cons1 cons2 digests1 digests2 =
     (case gen_ed_diff cons1 cons2 of
        Inl _ \<Rightarrow> None
      | Inr ed_diff \<Rightarrow>
          (case apply_ed_diff cons1 ed_diff 0 of
             Inl _ \<Rightarrow> None
           | Inr ed_cons2 \<Rightarrow>
               if \<not> (length cons2 = length ed_cons2 \<and> list_all2 lines_eq cons2 ed_cons2) then None
               else Some (ns_diff_version #
                          (hash_token @ '' '' @ base16_encode digests1 @ '' '' @ base16_encode digests2) #
                          ed_diff)))"

definition consdiff_get_digests :: "cdline list \<Rightarrow> (byte list \<times> byte list) option" where
  "consdiff_get_digests diff =
     (if length diff < 2 then None
      else if \<not> line_str_eq (diff ! 0) ns_diff_version then None
      else
        let hash_words = smartlist_split_string no_split_flags (Some '' '') 0
                           (takeWhile (\<lambda>c. c \<noteq> CHR 0x00) (diff ! 1))
        in if length hash_words \<noteq> 3 \<or> hash_words ! 0 \<noteq> hash_token then None
           else let h1 = hash_words ! 1; h2 = hash_words ! 2
                in if length h1 \<noteq> HEX_DIGEST256_LEN \<or> length h2 \<noteq> HEX_DIGEST256_LEN then None
                   else (case (base16_decode DIGEST256_LEN h1, base16_decode DIGEST256_LEN h2) of
                           (Some d1, Some d2) \<Rightarrow> Some (d1, d2)
                         | _ \<Rightarrow> None))"

definition consensus_join_lines :: "cdline list \<Rightarrow> string" where
  "consensus_join_lines inp = concat (map (\<lambda>l. l @ [NL]) inp)"

text \<open>
  \<^verbatim>\<open>consdiff_apply_diff\<close>: the digest of the result is taken over the C string, up to its first NUL;
  \<open>sha3\<close> is the digest function, \<open>None\<close> its failure.
\<close>

definition consdiff_apply_diff ::
  "(string \<Rightarrow> byte list option) \<Rightarrow> cdline list \<Rightarrow> cdline list \<Rightarrow> byte list \<Rightarrow> string option" where
  "consdiff_apply_diff sha3 cons1 diff digests1 =
     (case consdiff_get_digests diff of
        None \<Rightarrow> None
      | Some (e1, e2) \<Rightarrow>
          if digests1 \<noteq> e1 then None
          else case apply_ed_diff cons1 diff 2 of
                 Inl _ \<Rightarrow> None
               | Inr cons2 \<Rightarrow>
                   let cons2_str = takeWhile (\<lambda>c. c \<noteq> CHR 0x00) (consensus_join_lines cons2)
                   in case sha3 cons2_str of
                        None \<Rightarrow> None
                      | Some d2 \<Rightarrow> if d2 \<noteq> e2 then None else Some cons2_str)"

function consensus_split_lines :: "string \<Rightarrow> cdline list option" where
  "consensus_split_lines s =
     (if s = [] then Some []
      else let line = takeWhile (\<lambda>c. c \<noteq> NL) s
           in if length line = length s then None
              else if length line > CONSENSUS_LINE_MAX_LEN then None
              else map_option ((#) line) (consensus_split_lines (drop (length line + 1) s)))"
  by pat_completeness auto
termination
  by (relation "measure length") auto

declare consensus_split_lines.simps [simp del]

text \<open>
  The signed part of a consensus (\<^verbatim>\<open>router_get_hash_impl_helper\<close> of \<^verbatim>\<open>sigcommon.c\<close>): from the first
  \<open>start_str\<close>, which must begin a line, through the first \<open>end_c\<close> after the next \<open>end_str\<close>.
\<close>

definition router_get_hash_impl_helper :: "string \<Rightarrow> string \<Rightarrow> string \<Rightarrow> char \<Rightarrow> string option" where
  "router_get_hash_impl_helper s start_str end_str end_c =
     (case tor_memstr s start_str of
        None \<Rightarrow> None
      | Some a \<Rightarrow>
          if a \<noteq> 0 \<and> s ! (a - 1) \<noteq> NL then None
          else let body = drop (a + length start_str) s
               in case tor_memstr body end_str of
                    None \<Rightarrow> None
                  | Some b \<Rightarrow>
                      let tail = drop (b + length end_str) body;
                          k = length (takeWhile (\<lambda>c. c \<noteq> end_c) tail)
                      in if k = length tail then None
                         else Some (take (length start_str + b + length end_str + k + 1) (drop a s)))"

definition router_get_networkstatus_v3_signed_boundaries :: "string \<Rightarrow> string option" where
  "router_get_networkstatus_v3_signed_boundaries s =
     router_get_hash_impl_helper s ''network-status-version'' (NL # ''directory-signature'') (CHR '' '')"

definition router_get_networkstatus_v3_sha3_as_signed ::
  "(string \<Rightarrow> byte list option) \<Rightarrow> string \<Rightarrow> byte list option" where
  "router_get_networkstatus_v3_sha3_as_signed sha3 s =
     sha3 (case router_get_networkstatus_v3_signed_boundaries s of None \<Rightarrow> s | Some p \<Rightarrow> p)"

definition consensus_diff_generate ::
  "(string \<Rightarrow> byte list option) \<Rightarrow> string \<Rightarrow> string \<Rightarrow> string option" where
  "consensus_diff_generate sha3 cons1 cons2 =
     (case (router_get_networkstatus_v3_sha3_as_signed sha3 cons1, sha3 cons2) of
        (Some d1, Some d2) \<Rightarrow>
          (case consensus_split_lines cons1 of
             None \<Rightarrow> None
           | Some lines1 \<Rightarrow>
               (case consensus_split_lines cons2 of
                  None \<Rightarrow> None
                | Some lines2 \<Rightarrow>
                    map_option consensus_join_lines (consdiff_gen_diff lines1 lines2 d1 d2)))
      | _ \<Rightarrow> None)"

definition consensus_diff_apply ::
  "(string \<Rightarrow> byte list option) \<Rightarrow> string \<Rightarrow> string \<Rightarrow> string option" where
  "consensus_diff_apply sha3 consensus diff =
     (case router_get_networkstatus_v3_sha3_as_signed sha3 consensus of
        None \<Rightarrow> None
      | Some d1 \<Rightarrow>
          (case consensus_split_lines consensus of
             None \<Rightarrow> None
           | Some lines1 \<Rightarrow>
               (case consensus_split_lines diff of
                  None \<Rightarrow> None
                | Some lines2 \<Rightarrow> consdiff_apply_diff sha3 lines1 lines2 d1)))"

definition looks_like_a_consensus_diff :: "string \<Rightarrow> bool" where
  "looks_like_a_consensus_diff document \<longleftrightarrow>
     length document \<ge> length ns_diff_version \<and> take (length ns_diff_version) document = ns_diff_version"

end
