(* ===== verification/Consdiff_Correct.thy ===== *)
theory Consdiff_Correct
  imports Consdiff
begin

text \<open>
  Correctness of the consensus diff engine: the change marking leaves the same lines unmarked on
  both sides, the generated script applied to the base gives the target, and the text level
  functions are inverse to each other.
\<close>

subsection \<open>Kept lines\<close>

text \<open>The lines of a range that carry no change mark.\<close>

definition kept :: "'a list \<Rightarrow> bool list \<Rightarrow> nat \<Rightarrow> nat \<Rightarrow> 'a list" where
  "kept xs ch a b = map ((!) xs) (filter (\<lambda>i. \<not> ch ! i) [a ..< b])"

lemma kept_empty [simp]: "b \<le> a \<Longrightarrow> kept xs ch a b = []"
  by (simp add: kept_def)

lemma kept_split: "a \<le> b \<Longrightarrow> b \<le> c \<Longrightarrow> kept xs ch a c = kept xs ch a b @ kept xs ch b c"
  using upt_add_eq_append [of a b "c - b"] by (simp add: kept_def)

lemma kept_cong:
  "(\<And>i. a \<le> i \<Longrightarrow> i < b \<Longrightarrow> ch ! i = ch' ! i) \<Longrightarrow> kept xs ch a b = kept xs ch' a b"
  unfolding kept_def by (rule arg_cong [where f = "map _"], rule filter_cong) auto

lemma kept_all: "(\<And>i. a \<le> i \<Longrightarrow> i < b \<Longrightarrow> \<not> ch ! i) \<Longrightarrow> kept xs ch a b = map ((!) xs) [a ..< b]"
  unfolding kept_def by (rule arg_cong [where f = "map _"]) (auto simp: filter_id_conv)

lemma kept_none: "(\<And>i. a \<le> i \<Longrightarrow> i < b \<Longrightarrow> ch ! i) \<Longrightarrow> kept xs ch a b = []"
  unfolding kept_def by (simp add: filter_empty_conv)

lemma kept_one:
  assumes "a \<le> k" "k < b" "\<not> ch ! k" "\<And>i. a \<le> i \<Longrightarrow> i < b \<Longrightarrow> i \<noteq> k \<Longrightarrow> ch ! i"
  shows "kept xs ch a b = [xs ! k]"
proof -
  have "kept xs ch a b = kept xs ch a k @ kept xs ch k (Suc k) @ kept xs ch (Suc k) b"
    using assms(1,2) kept_split [of a k b xs ch] kept_split [of k "Suc k" b xs ch] by simp
  moreover have "kept xs ch a k = []" "kept xs ch (Suc k) b = []"
    using assms by (auto intro!: kept_none)
  ultimately show ?thesis using assms(3) by (simp add: kept_def)
qed

lemma kept_Suc: "a \<le> b \<Longrightarrow> kept xs ch a (Suc b) = kept xs ch a b @ (if ch ! b then [] else [xs ! b])"
  by (simp add: kept_def)

subsection \<open>The contract of change marking\<close>

text \<open>
  The marks of two ranges after a call: the lengths are unchanged, nothing outside the ranges is
  touched, and the unmarked lines of both ranges agree.
\<close>

definition marks ::
  "'a list \<Rightarrow> 'a list \<Rightarrow> nat \<Rightarrow> nat \<Rightarrow> nat \<Rightarrow> nat \<Rightarrow> bool list \<times> bool list \<Rightarrow> bool list \<times> bool list \<Rightarrow> bool" where
  "marks xs ys a1 b1 a2 b2 = (\<lambda>(c1, c2) (d1, d2).
     length d1 = length c1 \<and> length d2 = length c2 \<and>
     (\<forall>i. i < a1 \<or> b1 \<le> i \<longrightarrow> d1 ! i = c1 ! i) \<and>
     (\<forall>i. i < a2 \<or> b2 \<le> i \<longrightarrow> d2 ! i = c2 ! i) \<and>
     kept xs d1 a1 b1 = kept ys d2 a2 b2)"

lemma marks_swap: "marks xs ys a1 b1 a2 b2 (c1, c2) (d1, d2) \<Longrightarrow> marks ys xs a2 b2 a1 b1 (c2, c1) (d2, d1)"
  by (auto simp: marks_def)

lemma marks_trans:
  assumes "marks xs ys a1 m1 a2 m2 (c1, c2) (d1, d2)" "marks xs ys m1 b1 m2 b2 (d1, d2) (e1, e2)"
    and "a1 \<le> m1" "m1 \<le> b1" "a2 \<le> m2" "m2 \<le> b2"
  shows "marks xs ys a1 b1 a2 b2 (c1, c2) (e1, e2)"
proof -
  have "kept xs e1 a1 m1 = kept xs d1 a1 m1" "kept ys e2 a2 m2 = kept ys d2 a2 m2"
    using assms(2) by (auto simp: marks_def intro!: kept_cong)
  then show ?thesis
    using assms kept_split [of a1 m1 b1 xs e1] kept_split [of a2 m2 b2 ys e2]
    by (auto simp: marks_def)
qed

lemma marks_unmarked:
  assumes "map ((!) xs) [a1 ..< b1] = map ((!) ys) [a2 ..< b2]"
    and "\<And>i. a1 \<le> i \<Longrightarrow> i < b1 \<Longrightarrow> \<not> c1 ! i" "\<And>i. a2 \<le> i \<Longrightarrow> i < b2 \<Longrightarrow> \<not> c2 ! i"
  shows "marks xs ys a1 b1 a2 b2 (c1, c2) (c1, c2)"
  using assms by (simp add: marks_def kept_all)

lemma set_range_except_length [simp]: "length (set_range_except sk a b ch) = length ch"
proof -
  have "length (foldl (\<lambda>c i. if sk \<noteq> Some i then c[i := True] else c) ch is) = length ch" for "is"
    by (induction "is" arbitrary: ch) auto
  then show ?thesis by (simp add: set_range_except_def)
qed

lemma set_range_except_nth:
  assumes "b \<le> length ch"
  shows "set_range_except sk a b ch ! i \<longleftrightarrow> (a \<le> i \<and> i < b \<and> sk \<noteq> Some i) \<or> ch ! i"
proof -
  have "\<forall>i \<in> set is. i < length ch \<Longrightarrow>
    foldl (\<lambda>c i. if sk \<noteq> Some i then c[i := True] else c) ch is ! i \<longleftrightarrow>
      (i \<in> set is \<and> sk \<noteq> Some i) \<or> ch ! i" for "is"
    by (induction "is" arbitrary: ch) (auto simp: nth_list_update)
  from this [of "[a ..< b]"] assms show ?thesis by (auto simp: set_range_except_def)
qed

lemma string_pos_Some:
  "smartlist_slice_string_pos sl l = Some k \<Longrightarrow>
   sl_offset sl \<le> k \<and> k < sl_offset sl + sl_len sl \<and> sl_list sl ! k = l"
  by (auto simp: smartlist_slice_string_pos_def find_Some_iff nth_append)

lemma set_changed_marks:
  assumes "sl_len s1 \<le> 1"
    and len: "sl_offset s1 + sl_len s1 \<le> length c1" "sl_offset s2 + sl_len s2 \<le> length c2"
    and clear: "\<And>i. sl_offset s1 \<le> i \<Longrightarrow> i < sl_offset s1 + sl_len s1 \<Longrightarrow> \<not> c1 ! i"
      "\<And>i. sl_offset s2 \<le> i \<Longrightarrow> i < sl_offset s2 + sl_len s2 \<Longrightarrow> \<not> c2 ! i"
  shows "marks (sl_list s1) (sl_list s2) (sl_offset s1) (sl_offset s1 + sl_len s1)
           (sl_offset s2) (sl_offset s2 + sl_len s2) (c1, c2) (set_changed c1 c2 s1 s2)"
proof (cases "sl_len s1 = 1")
  case False
  then have "sl_len s1 = 0" using assms(1) by simp
  then show ?thesis
    by (auto simp: set_changed_def marks_def set_range_except_nth [OF len(2)] kept_none)
next
  case True
  show ?thesis
  proof (cases "smartlist_slice_string_pos s2 (sl_list s1 ! sl_offset s1)")
    case None
    then show ?thesis using True len
      by (auto simp: set_changed_def marks_def set_range_except_nth [OF len(2)] kept_none kept_Suc)
  next
    case (Some k)
    note k = string_pos_Some [OF this]
    have "kept (sl_list s2) (set_range_except (Some k) (sl_offset s2) (sl_offset s2 + sl_len s2) c2)
        (sl_offset s2) (sl_offset s2 + sl_len s2) = [sl_list s2 ! k]"
      using k clear(2) by (intro kept_one) (auto simp: set_range_except_nth [OF len(2)])
    moreover have "kept (sl_list s1) c1 (sl_offset s1) (Suc (sl_offset s1)) = [sl_list s1 ! sl_offset s1]"
      using clear(1) True by (simp add: kept_def)
    ultimately show ?thesis using True Some k
      by (auto simp: set_changed_def marks_def set_range_except_nth [OF len(2)])
  qed
qed

text \<open>Two ranges of the same length hold the same lines.\<close>

definition agree :: "'a list \<Rightarrow> nat \<Rightarrow> 'a list \<Rightarrow> nat \<Rightarrow> nat \<Rightarrow> bool" where
  "agree xs a ys b n \<longleftrightarrow> (\<forall>i < n. xs ! (a + i) = ys ! (b + i))"

lemma agree_map: "agree xs a ys b n \<Longrightarrow> map ((!) xs) [a ..< a + n] = map ((!) ys) [b ..< b + n]"
  by (auto simp: agree_def intro!: nth_equalityI)

lemma trim_front_spec:
  assumes "trim_front s1 s2 = (t1, t2)"
  shows "\<exists>p. p \<le> sl_len s1 \<and> p \<le> sl_len s2 \<and>
     t1 = s1\<lparr>sl_offset := sl_offset s1 + p, sl_len := sl_len s1 - p\<rparr> \<and>
     t2 = s2\<lparr>sl_offset := sl_offset s2 + p, sl_len := sl_len s2 - p\<rparr> \<and>
     agree (sl_list s1) (sl_offset s1) (sl_list s2) (sl_offset s2) p"
  using assms
proof (induction s1 s2 rule: trim_front.induct)
  case (1 s1 s2)
  show ?case
  proof (cases "sl_len s1 > 0 \<and> sl_len s2 > 0 \<and> sl_list s1 ! sl_offset s1 = sl_list s2 ! sl_offset s2")
    case True
    then have "trim_front (s1\<lparr>sl_offset := sl_offset s1 + 1, sl_len := sl_len s1 - 1\<rparr>)
        (s2\<lparr>sl_offset := sl_offset s2 + 1, sl_len := sl_len s2 - 1\<rparr>) = (t1, t2)"
      using 1(2) by (simp add: trim_front.simps [of s1 s2])
    from 1(1) [OF _ this] True obtain p where p: "p \<le> sl_len s1 - 1" "p \<le> sl_len s2 - 1"
      "t1 = s1\<lparr>sl_offset := sl_offset s1 + Suc p, sl_len := sl_len s1 - Suc p\<rparr>"
      "t2 = s2\<lparr>sl_offset := sl_offset s2 + Suc p, sl_len := sl_len s2 - Suc p\<rparr>"
      "agree (sl_list s1) (Suc (sl_offset s1)) (sl_list s2) (Suc (sl_offset s2)) p"
      by auto
    then show ?thesis using True
      by (intro exI [of _ "Suc p"]) (auto simp: agree_def less_Suc_eq_0_disj)
  next
    case False
    then have "t1 = s1" "t2 = s2" using 1(2) by (auto simp: trim_front.simps [of s1 s2])
    then show ?thesis by (intro exI [of _ 0]) (simp add: agree_def)
  qed
qed

lemma trim_back_spec:
  assumes "trim_back s1 s2 = (t1, t2)"
  shows "\<exists>q. q \<le> sl_len s1 \<and> q \<le> sl_len s2 \<and>
     t1 = s1\<lparr>sl_len := sl_len s1 - q\<rparr> \<and> t2 = s2\<lparr>sl_len := sl_len s2 - q\<rparr> \<and>
     agree (sl_list s1) (sl_offset s1 + (sl_len s1 - q)) (sl_list s2) (sl_offset s2 + (sl_len s2 - q)) q"
  using assms
proof (induction s1 s2 rule: trim_back.induct)
  case (1 s1 s2)
  let ?e1 = "sl_offset s1 + sl_len s1" and ?e2 = "sl_offset s2 + sl_len s2"
  show ?case
  proof (cases "sl_len s1 > 0 \<and> sl_len s2 > 0 \<and> sl_list s1 ! (?e1 - 1) = sl_list s2 ! (?e2 - 1)")
    case True
    then have "trim_back (s1\<lparr>sl_len := sl_len s1 - 1\<rparr>) (s2\<lparr>sl_len := sl_len s2 - 1\<rparr>) = (t1, t2)"
      using 1(2) by (simp add: trim_back.simps [of s1 s2])
    from 1(1) [OF _ this] True obtain q where q: "q \<le> sl_len s1 - 1" "q \<le> sl_len s2 - 1"
      "t1 = s1\<lparr>sl_len := sl_len s1 - Suc q\<rparr>" "t2 = s2\<lparr>sl_len := sl_len s2 - Suc q\<rparr>"
      "agree (sl_list s1) (sl_offset s1 + (sl_len s1 - Suc q))
         (sl_list s2) (sl_offset s2 + (sl_len s2 - Suc q)) q"
      by auto
    have "sl_offset s1 + (sl_len s1 - Suc q) + q = ?e1 - 1"
      "sl_offset s2 + (sl_len s2 - Suc q) + q = ?e2 - 1" using True q(1,2) by auto
    then show ?thesis using True q
      by (intro exI [of _ "Suc q"]) (auto simp: agree_def less_Suc_eq)
  next
    case False
    then have "t1 = s1" "t2 = s2" using 1(2) by (auto simp: trim_back.simps [of s1 s2])
    then show ?thesis by (intro exI [of _ 0]) (simp add: agree_def)
  qed
qed

lemma trim_slices_spec:
  assumes "trim_slices s1 s2 = (t1, t2)"
  shows "\<exists>p q. p + q \<le> sl_len s1 \<and> p + q \<le> sl_len s2 \<and>
     t1 = s1\<lparr>sl_offset := sl_offset s1 + p, sl_len := sl_len s1 - p - q\<rparr> \<and>
     t2 = s2\<lparr>sl_offset := sl_offset s2 + p, sl_len := sl_len s2 - p - q\<rparr> \<and>
     agree (sl_list s1) (sl_offset s1) (sl_list s2) (sl_offset s2) p \<and>
     agree (sl_list s1) (sl_offset s1 + sl_len s1 - q) (sl_list s2) (sl_offset s2 + sl_len s2 - q) q"
proof -
  obtain u1 u2 where u: "trim_front s1 s2 = (u1, u2)" by fastforce
  with assms have t: "trim_back u1 u2 = (t1, t2)" by (simp add: trim_slices_def)
  from trim_front_spec [OF u] obtain p where p: "p \<le> sl_len s1" "p \<le> sl_len s2"
    "u1 = s1\<lparr>sl_offset := sl_offset s1 + p, sl_len := sl_len s1 - p\<rparr>"
    "u2 = s2\<lparr>sl_offset := sl_offset s2 + p, sl_len := sl_len s2 - p\<rparr>"
    "agree (sl_list s1) (sl_offset s1) (sl_list s2) (sl_offset s2) p" by blast
  from trim_back_spec [OF t] obtain q where q: "q \<le> sl_len s1 - p" "q \<le> sl_len s2 - p"
    "t1 = u1\<lparr>sl_len := sl_len u1 - q\<rparr>" "t2 = u2\<lparr>sl_len := sl_len u2 - q\<rparr>"
    "agree (sl_list u1) (sl_offset u1 + (sl_len u1 - q)) (sl_list u2) (sl_offset u2 + (sl_len u2 - q)) q"
    using p(3,4) by auto
  show ?thesis
    by (rule exI [of _ p], rule exI [of _ q]) (use p q in auto)
qed

lemma optimal_column_le: "optimal_column_to_split a b s2 \<le> sl_len s2"
proof -
  have aux: "fst (foldl (\<lambda>(column, max_sum) i. if f i > max_sum then (i, f i) else (column, max_sum))
      (c, m) is) \<le> n" if "\<forall>i \<in> set is. i \<le> n" "c \<le> n" for f :: "nat \<Rightarrow> int" and c m "is" n
    using that by (induction "is" arbitrary: c m) auto
  show ?thesis unfolding optimal_column_to_split_def Let_def by (rule aux) auto
qed

text \<open>
  Both slices are inside their bit arrays and still unmarked: the precondition of a marking call.
\<close>

definition unmarked :: "smartlist_slice_t \<Rightarrow> bool list \<Rightarrow> bool" where
  "unmarked s c \<longleftrightarrow> sl_offset s + sl_len s \<le> length c \<and>
     (\<forall>i. sl_offset s \<le> i \<and> i < sl_offset s + sl_len s \<longrightarrow> \<not> c ! i)"

definition slice_marks ::
  "smartlist_slice_t \<Rightarrow> smartlist_slice_t \<Rightarrow> bool list \<times> bool list \<Rightarrow> bool list \<times> bool list \<Rightarrow> bool" where
  "slice_marks s1 s2 = marks (sl_list s1) (sl_list s2) (sl_offset s1) (sl_offset s1 + sl_len s1)
     (sl_offset s2) (sl_offset s2 + sl_len s2)"

lemma set_changed_slice_marks:
  "sl_len s1 \<le> 1 \<Longrightarrow> unmarked s1 c1 \<Longrightarrow> unmarked s2 c2 \<Longrightarrow>
   slice_marks s1 s2 (c1, c2) (set_changed c1 c2 s1 s2)"
  unfolding slice_marks_def by (rule set_changed_marks) (auto simp: unmarked_def)

lemma slice_marks_split:
  assumes "k1 \<le> sl_len s1" "k2 \<le> sl_len s2"
    and "split_slice s1 k1 = (t1, b1)" "split_slice s2 k2 = (t2, b2)"
    and "unmarked s1 c1" "unmarked s2 c2"
    and first: "\<And>c1 c2. unmarked t1 c1 \<Longrightarrow> unmarked t2 c2 \<Longrightarrow> slice_marks t1 t2 (c1, c2) (f c1 c2)"
    and second: "\<And>c1 c2. unmarked b1 c1 \<Longrightarrow> unmarked b2 c2 \<Longrightarrow> slice_marks b1 b2 (c1, c2) (g c1 c2)"
  shows "slice_marks s1 s2 (c1, c2) (let (d1, d2) = f c1 c2 in g d1 d2)"
proof -
  obtain d1 d2 where d: "f c1 c2 = (d1, d2)" by fastforce
  obtain e1 e2 where e: "g d1 d2 = (e1, e2)" by fastforce
  have parts: "t1 = \<lparr>sl_list = sl_list s1, sl_offset = sl_offset s1, sl_len = k1\<rparr>"
    "b1 = \<lparr>sl_list = sl_list s1, sl_offset = sl_offset s1 + k1, sl_len = sl_len s1 - k1\<rparr>"
    "t2 = \<lparr>sl_list = sl_list s2, sl_offset = sl_offset s2, sl_len = k2\<rparr>"
    "b2 = \<lparr>sl_list = sl_list s2, sl_offset = sl_offset s2 + k2, sl_len = sl_len s2 - k2\<rparr>"
    using assms(1-4) by (simp_all add: split_slice_eq)
  have m1: "slice_marks t1 t2 (c1, c2) (d1, d2)"
    using first [of c1 c2] assms(1,2,5,6) by (simp add: d parts unmarked_def)
  then have "unmarked b1 d1" "unmarked b2 d2"
    using assms(1,2,5,6) by (auto simp: parts unmarked_def slice_marks_def marks_def)
  then have m2: "slice_marks b1 b2 (d1, d2) (e1, e2)" using second e by metis
  have "marks (sl_list s1) (sl_list s2) (sl_offset s1) (sl_offset s1 + sl_len s1)
      (sl_offset s2) (sl_offset s2 + sl_len s2) (c1, c2) (e1, e2)"
    by (rule marks_trans [where ?m1.0 = "sl_offset s1 + k1" and ?m2.0 = "sl_offset s2 + k2"])
       (use m1 m2 assms(1,2) in \<open>simp_all add: parts slice_marks_def\<close>)
  then show ?thesis by (simp add: d e slice_marks_def)
qed

lemma slice_marks_trim:
  assumes "trim_slices s1 s2 = (t1, t2)" "unmarked s1 c1" "unmarked s2 c2"
    and "slice_marks t1 t2 (c1, c2) (d1, d2)"
  shows "slice_marks s1 s2 (c1, c2) (d1, d2)"
proof -
  from trim_slices_spec [OF assms(1)] obtain p q where pq: "p + q \<le> sl_len s1" "p + q \<le> sl_len s2"
    "t1 = s1\<lparr>sl_offset := sl_offset s1 + p, sl_len := sl_len s1 - p - q\<rparr>"
    "t2 = s2\<lparr>sl_offset := sl_offset s2 + p, sl_len := sl_len s2 - p - q\<rparr>"
    and ag: "agree (sl_list s1) (sl_offset s1) (sl_list s2) (sl_offset s2) p"
      "agree (sl_list s1) (sl_offset s1 + sl_len s1 - q) (sl_list s2) (sl_offset s2 + sl_len s2 - q) q"
    by blast
  let ?m = "marks (sl_list s1) (sl_list s2)"
  let ?o1 = "sl_offset s1" and ?o2 = "sl_offset s2"
  let ?e1 = "?o1 + sl_len s1" and ?e2 = "?o2 + sl_len s2"
  have front: "?m ?o1 (?o1 + p) ?o2 (?o2 + p) (c1, c2) (c1, c2)"
    using assms(2,3) pq agree_map [OF ag(1)] by (intro marks_unmarked) (auto simp: unmarked_def)
  have mid: "?m (?o1 + p) (?e1 - q) (?o2 + p) (?e2 - q) (c1, c2) (d1, d2)"
    using assms(4) pq by (simp add: slice_marks_def add.assoc)
  then have rear: "?m (?e1 - q) ?e1 (?e2 - q) ?e2 (d1, d2) (d1, d2)"
    using assms(2,3) pq agree_map [OF ag(2)]
    by (intro marks_unmarked) (auto simp: unmarked_def marks_def)
  have "?m (?o1 + p) ?e1 (?o2 + p) ?e2 (c1, c2) (d1, d2)"
    by (rule marks_trans [OF mid rear]) (use pq in auto)
  then show ?thesis unfolding slice_marks_def
    by (rule marks_trans [OF front]) (use pq in auto)
qed

text \<open>Change marking meets its contract: induction over the divide and conquer recursion.\<close>

lemma calc_changes_marks:
  "unmarked s1 c1 \<Longrightarrow> unmarked s2 c2 \<Longrightarrow> slice_marks s1 s2 (c1, c2) (calc_changes s1 s2 c1 c2)"
proof (induction "sl_len s1" arbitrary: s1 s2 c1 c2 rule: less_induct)
  case less
  obtain t1 t2 where t: "trim_slices s1 s2 = (t1, t2)" by fastforce
  note spec = trim_slices_spec [OF t]
  have un: "unmarked t1 c1" "unmarked t2 c2"
    using spec less.prems by (auto simp: unmarked_def)
  have "slice_marks t1 t2 (c1, c2) (calc_changes s1 s2 c1 c2)"
  proof (cases "sl_len t1 \<le> 1 \<or> sl_len t2 \<le> 1")
    case True
    show ?thesis
    proof (cases "sl_len t1 \<le> 1")
      case False
      obtain d2 d1 where d: "set_changed c2 c1 t2 t1 = (d2, d1)" by fastforce
      have "slice_marks t2 t1 (c2, c1) (d2, d1)"
        using set_changed_slice_marks [of t2 c2 t1 c1] True False un d by simp
      then show ?thesis using True False
        by (auto simp: calc_changes.simps [of s1 s2 c1 c2] t d slice_marks_def intro: marks_swap)
    qed (use set_changed_slice_marks un in \<open>simp add: calc_changes.simps [of s1 s2 c1 c2] t\<close>)
  next
    case False
    obtain u1 b1 where s1: "split_slice t1 (sl_len t1 div 2) = (u1, b1)" by fastforce
    define k where "k = optimal_column_to_split u1 b1 t2"
    obtain u2 b2 where s2: "split_slice t2 k = (u2, b2)" by fastforce
    have smaller: "sl_len u1 < sl_len s1" "sl_len b1 < sl_len s1"
      using s1 False trim_slices_len [OF t] by (auto simp: split_slice_eq)
    have "slice_marks t1 t2 (c1, c2) (let (d1, d2) = calc_changes u1 u2 c1 c2 in calc_changes b1 b2 d1 d2)"
      using optimal_column_le [of u1 b1 t2]
      by (intro slice_marks_split [OF _ _ s1 s2 un] less.hyps smaller) (auto simp: k_def)
    then show ?thesis using False
      by (simp add: calc_changes.simps [of s1 s2 c1 c2] t s1 s2 flip: k_def)
  qed
  then show ?case
    using slice_marks_trim [OF t less.prems] by (cases "calc_changes s1 s2 c1 c2") simp
qed

subsection \<open>The marks of a whole pair of consensuses\<close>

definition pos_ok :: "int \<Rightarrow> nat \<Rightarrow> nat \<Rightarrow> bool" where
  "pos_ok i start len \<longleftrightarrow> start \<le> len \<and> (i = int start \<or> i = -1 \<and> start = 0)"

definition changes_inv ::
  "cdline list \<Rightarrow> cdline list \<Rightarrow> nat \<Rightarrow> nat \<Rightarrow> bool list \<Rightarrow> bool list \<Rightarrow> bool" where
  "changes_inv cons1 cons2 a1 a2 c1 c2 \<longleftrightarrow>
     length c1 = length cons1 \<and> length c2 = length cons2 \<and>
     (\<forall>i. a1 \<le> i \<and> i < length cons1 \<longrightarrow> \<not> c1 ! i) \<and> (\<forall>i. a2 \<le> i \<and> i < length cons2 \<longrightarrow> \<not> c2 ! i) \<and>
     kept cons1 c1 0 a1 = kept cons2 c2 0 a2"

lemma changes_inv_step:
  assumes inv: "changes_inv cons1 cons2 a1 a2 c1 c2"
    and le: "a1 \<le> b1" "b1 \<le> length cons1" "a2 \<le> b2" "b2 \<le> length cons2"
    and calc: "calc_changes (smartlist_slice cons1 a1 (int b1)) (smartlist_slice cons2 a2 (int b2)) c1 c2 = (d1, d2)"
  shows "changes_inv cons1 cons2 b1 b2 d1 d2"
proof -
  let ?s1 = "smartlist_slice cons1 a1 (int b1)" and ?s2 = "smartlist_slice cons2 a2 (int b2)"
  have f: "sl_list ?s1 = cons1" "sl_offset ?s1 = a1" "a1 + sl_len ?s1 = b1"
    "sl_list ?s2 = cons2" "sl_offset ?s2 = a2" "a2 + sl_len ?s2 = b2"
    using le by (simp_all add: smartlist_slice_def)
  have "unmarked ?s1 c1" "unmarked ?s2 c2"
    using inv le f by (auto simp: unmarked_def changes_inv_def)
  then have m: "marks cons1 cons2 a1 b1 a2 b2 (c1, c2) (d1, d2)"
    using calc_changes_marks [of ?s1 c1 ?s2 c2] by (simp add: calc slice_marks_def f)
  have old: "kept cons1 d1 0 a1 = kept cons1 c1 0 a1" "kept cons2 d2 0 a2 = kept cons2 c2 0 a2"
    using m by (auto simp: marks_def intro!: kept_cong)
  have "kept cons1 d1 0 b1 = kept cons2 d2 0 b2"
    using m old inv kept_split [of 0 a1 b1 cons1 d1] kept_split [of 0 a2 b2 cons2 d2] le
    by (simp add: marks_def changes_inv_def)
  with m inv le show ?thesis by (auto simp: marks_def changes_inv_def)
qed

lemma gen_changes_inv:
  assumes "gen_changes cons1 cons2 i1 i2 it1 it2 a1 a2 c1 c2 = Inr (d1, d2)"
    and "pos_ok i1 a1 (length cons1)" "pos_ok i2 a2 (length cons2)"
    and "changes_inv cons1 cons2 a1 a2 c1 c2"
  shows "changes_inv cons1 cons2 (length cons1) (length cons2) d1 d2"
  using assms
proof (induction cons1 cons2 i1 i2 it1 it2 a1 a2 c1 c2 rule: gen_changes.induct)
  case (1 cons1 cons2 i1 i2 it1 it2 a1 a2 c1 c2)
  have range: "-1 \<le> i1" "-1 \<le> i2" "i1 \<le> int (length cons1)" "i2 \<le> int (length cons2)"
    using 1(3,4) by (auto simp: pos_ok_def)
  show ?case
  proof (cases "i1 < int (length cons1) \<or> i2 < int (length cons2)")
    case False
    then have "a1 = length cons1" "a2 = length cons2" using 1(3,4) by (auto simp: pos_ok_def)
    with False 1(2,5) show ?thesis by (simp add: gen_changes.simps [of cons1 cons2 i1 i2])
  next
    case True
    with 1(2) range obtain j1 j2 it1' it2' where
      step: "step_routers cons1 cons2 i1 i2 it1 it2 = Inr (j1, j2, it1', it2')"
      by (auto simp: gen_changes.simps [of cons1 cons2 i1 i2] split: sum.splits)
    obtain e1 e2 where e: "calc_changes (smartlist_slice cons1 a1 j1) (smartlist_slice cons2 a2 j2) c1 c2 = (e1, e2)"
      by fastforce
    have b: "i1 \<le> j1" "j1 \<le> int (length cons1)" "i2 \<le> j2" "j2 \<le> int (length cons2)"
      "i1 < int (length cons1) \<longrightarrow> i1 < j1" "i2 < int (length cons2) \<longrightarrow> i2 < j2"
      using step_routers_bounds [OF step range] by auto
    have j: "0 \<le> j1" "0 \<le> j2" using b range by linarith+
    have rec: "gen_changes cons1 cons2 j1 j2 it1' it2' (nat j1) (nat j2) e1 e2 = Inr (d1, d2)"
      and big: "\<not> (j1 - int a1 > MAX_LINE_COUNT \<or> j2 - int a2 > MAX_LINE_COUNT)"
      using 1(2) True range by (auto simp: gen_changes.simps [of cons1 cons2 i1 i2] step e split: if_splits)
    have "changes_inv cons1 cons2 (nat j1) (nat j2) e1 e2"
      using 1(3,4) b j e by (intro changes_inv_step [OF 1(5)]) (auto simp: pos_ok_def)
    then show ?thesis
      using 1(1) [OF _ step] True range big rec e j b by (simp add: pos_ok_def)
  qed
qed

lemma gen_changes_kept:
  assumes "gen_changes cons1 cons2 (-1) (-1) it1 it2 0 0
             (replicate (length cons1) False) (replicate (length cons2) False) = Inr (d1, d2)"
  shows "length d1 = length cons1" "length d2 = length cons2"
    and "kept cons1 d1 0 (length cons1) = kept cons2 d2 0 (length cons2)"
  using gen_changes_inv [OF assms] by (simp_all add: pos_ok_def changes_inv_def)

subsection \<open>Parsing the generated commands\<close>

lemma get_linenum_show_nat:
  assumes "rest = [] \<or> \<not> is_digit (hd rest)" "int n \<le> INT32_MAX"
  shows "get_linenum (show_nat n @ rest) = Some (int n, rest)"
proof -
  have "hd (show_nat n @ rest) = hd (show_nat n)" "is_digit (hd (show_nat n))"
    by (simp_all add: hd_append show_nat_digits [of _ n])
  then show ?thesis
    using tor_parse_long_show_nat [OF assms(1), of 0 n INT32_MAX] assms(2)
    by (simp add: get_linenum_def INT32_MAX_def LONG_MAX_def)
qed

lemma digit_not_nul: "is_digit c \<Longrightarrow> c \<noteq> CHR 0x00"
  by (auto simp: is_digit_def)

lemma takeWhile_nul_show [simp]:
  "takeWhile (\<lambda>c. c \<noteq> CHR 0x00) (show_nat n @ s) = show_nat n @ takeWhile (\<lambda>c. c \<noteq> CHR 0x00) s"
  by (rule takeWhile_append2) (use digit_not_nul show_nat_digits in blast)

lemma show_nat_int32: "int n \<le> INT32_MAX \<Longrightarrow> length (show_nat n) \<le> 10"
  by (rule length_show_nat) (simp_all add: INT32_MAX_def)

lemma parse_single:
  assumes "int n \<le> INT32_MAX" "c \<in> {CHR ''a'', CHR ''c'', CHR ''d''}" "int n \<le> j"
  shows "parse_ed_command len1 j (show_nat n @ [c]) = Inr (int n, int n, c)"
proof -
  have "\<not> is_digit c" "c \<noteq> CHR 0x00" "c \<noteq> CHR '',''" using assms(2) by (auto simp: is_digit_def)
  then show ?thesis
    using assms show_nat_int32 [OF assms(1)]
    by (auto simp: parse_ed_command_def parse_range_def get_linenum_show_nat)
qed

lemma parse_pair:
  assumes "int m \<le> INT32_MAX" "c \<in> {CHR ''c'', CHR ''d''}" "int m \<le> j" "n < m"
  shows "parse_ed_command len1 j (show_nat n @ '','' @ show_nat m @ [c]) = Inr (int n, int m, c)"
proof -
  have c: "\<not> is_digit c" "c \<noteq> CHR 0x00" using assms(2) by (auto simp: is_digit_def)
  have n: "int n \<le> INT32_MAX" using assms(1,4) by simp
  have comma: "\<not> is_digit (CHR '','')" by (simp add: is_digit_def)
  have "hd (show_nat m @ [c]) \<noteq> CHR ''$''"
    using show_nat_digits [of "hd (show_nat m)" m] by (auto simp: hd_append is_digit_def)
  then show ?thesis
    using assms c comma n show_nat_int32 [OF assms(1)] show_nat_int32 [OF n]
    by (auto simp: parse_ed_command_def parse_range_def get_linenum_show_nat)
qed

lemma parse_trailer:
  assumes "int n \<le> INT32_MAX" "int n < int len1" "int len1 \<le> j"
  shows "parse_ed_command len1 j (show_nat n @ '',$d'') = Inr (int n, int len1, CHR ''d'')"
  using assms show_nat_int32 [OF assms(1)]
  by (auto simp: parse_ed_command_def parse_range_def get_linenum_show_nat is_digit_def)

subsection \<open>Running the generated script\<close>

lemma take_drop_takeWhile_dot:
  "\<forall>l \<in> set new. l \<noteq> ''.'' \<Longrightarrow>
   takeWhile (\<lambda>l. \<not> line_str_eq l ''.'') (new @ ''.'' # rest) = new"
  by (induction new) auto

lemma apply_command:
  assumes "int (m + d) \<le> j" "j \<le> int (length cons1)" "int (length cons1) \<le> INT32_MAX"
    and "\<forall>l \<in> set new. l \<noteq> ''.''" "d > 0 \<or> new \<noteq> []"
  shows "apply_loop cons1 (ed_command m d (length new) #
            (if new = [] then rest else new @ ''.'' # rest)) j acc =
         apply_loop cons1 rest (int m) (acc @ rev (drop (m + d) (take (nat j) cons1)) @ rev new)"
proof -
  have j1: "(if int (m + d) < j then int (m + d) else j) = int (m + d)" using assms(1) by auto
  have j2: "min (int (m + d) - 1) (int (m + 1) - 1) = int m" if "0 < d" using that by auto
  have j3: "int (Suc m) - 1 = int m" by simp
  show ?thesis
proof (cases "new = []")
  case True
  then have d: "0 < d" using assms(5) by simp
  have "parse_ed_command (length cons1) j (ed_command m d 0) = Inr (int (m + 1), int (m + d), CHR ''d'')"
  proof (cases "d = 1")
    case True
    then show ?thesis using parse_single [of "m + 1" "CHR ''d''" j] assms by (simp add: ed_command_def)
  next
    case False
    then show ?thesis using parse_pair [of "m + d" "CHR ''d''" j "m + 1"] d assms
      by (simp add: ed_command_def)
  qed
  then show ?thesis using True d
    by (simp add: apply_loop.simps(2) Let_def j1 j2 j3 del: of_nat_add of_nat_Suc)
next
  case False
  have ins: "takeWhile (\<lambda>l. \<not> line_str_eq l ''.'') (new @ ''.'' # rest) = new"
    using assms(4) by (rule take_drop_takeWhile_dot)
  show ?thesis
  proof (cases "d = 0")
    case True
    have "parse_ed_command (length cons1) j (ed_command m d (length new)) = Inr (int m, int m, CHR ''a'')"
      using parse_single [of m "CHR ''a''" j] True False assms by (simp add: ed_command_def)
    then show ?thesis using False True ins assms(1) by (simp add: apply_loop.simps(2) Let_def)
  next
    case d: False
    have "parse_ed_command (length cons1) j (ed_command m d (length new)) =
        Inr (int (m + 1), int (m + d), CHR ''c'')"
    proof (cases "d = 1")
      case True
      then show ?thesis using parse_single [of "m + 1" "CHR ''c''" j] False assms
        by (simp add: ed_command_def)
    next
      case False
      then show ?thesis using parse_pair [of "m + d" "CHR ''c''" j "m + 1"] d assms \<open>new \<noteq> []\<close>
        by (simp add: ed_command_def)
    qed
    then show ?thesis using False d ins
      by (simp add: apply_loop.simps(2) Let_def j1 j2 j3 del: of_nat_add of_nat_Suc)
  qed
qed
qed

lemma skip_changed_marked: "skip_changed ch n \<le> i \<Longrightarrow> i < n \<Longrightarrow> ch ! i"
  by (induction n) (auto split: if_splits simp: less_Suc_eq)

lemma kept_skip: "kept xs ch 0 (skip_changed ch n) = kept xs ch 0 n"
  using kept_split [of 0 "skip_changed ch n" n xs ch] skip_changed_le [of ch n]
  by (simp add: kept_none skip_changed_marked)

text \<open>
  The script of the lines below \<open>n1\<close>, \<open>n2\<close> rebuilds the first \<open>n2\<close> target lines in front of the base
  lines from \<open>n1\<close> to \<open>j\<close> that were not copied yet.
\<close>

lemma ed_walk_apply:
  assumes "ed_walk cons2 ch1 ch2 n1 n2 = Inr script"
    and "kept cons1 ch1 0 n1 = kept cons2 ch2 0 n2"
    and "n1 \<le> j" "j \<le> length cons1" "n2 \<le> length cons2" "int (length cons1) \<le> INT32_MAX"
  shows "apply_loop cons1 script (int j) acc = Inr (take n2 cons2 @ drop n1 (take j cons1) @ rev acc)"
  using assms
proof (induction cons2 ch1 ch2 n1 n2 arbitrary: script j acc rule: ed_walk.induct)
  case (1 cons2 ch1 ch2 n1 n2)
  show ?case
  proof (cases "n1 = 0 \<and> n2 = 0")
    case True
    then show ?thesis using "1.prems" by (simp add: ed_walk.simps [of cons2 ch1 ch2 0 0])
  next
    case nz: False
    show ?thesis
    proof (cases "\<not> (n1 > 0 \<and> ch1 ! (n1 - 1)) \<and> \<not> (n2 > 0 \<and> ch2 ! (n2 - 1))")
      case same: True
      obtain m1 m2 where m: "n1 = Suc m1" "n2 = Suc m2"
        using nz same "1.prems"(2) by (cases n1; cases n2) (auto simp: kept_Suc)
      have eq: "kept cons1 ch1 0 m1 = kept cons2 ch2 0 m2" "cons1 ! m1 = cons2 ! m2"
        using same "1.prems"(2) m by (auto simp: kept_Suc)
      have "apply_loop cons1 script (int j) acc = Inr (take m2 cons2 @ drop m1 (take j cons1) @ rev acc)"
        using "1.IH"(1) [OF nz same, of script j acc] "1.prems" eq(1) same m
        by (simp add: ed_walk.simps [of cons2 ch1 ch2 "Suc m1" "Suc m2"])
      moreover have "drop m1 (take j cons1) = cons1 ! m1 # drop (Suc m1) (take j cons1)"
        using "1.prems"(3,4) m by (simp add: Cons_nth_drop_Suc [symmetric])
      ultimately show ?thesis
        using "1.prems"(5) m eq(2) by (simp add: take_Suc_conv_app_nth)
    next
      case diff: False
      define m1 m2 where "m1 = skip_changed ch1 n1" and "m2 = skip_changed ch2 n2"
      define new where "new = take (n2 - m2) (drop m2 cons2)"
      have le: "m1 \<le> n1" "m2 \<le> n2" by (simp_all add: m1_def m2_def skip_changed_le)
      have len: "length new = n2 - m2" using "1.prems"(5) le by (simp add: new_def)
      have some: "n1 - m1 > 0 \<or> new \<noteq> []"
        using diff skip_changed_less [of n1 ch1] skip_changed_less [of n2 ch2] len
        by (auto simp: m1_def m2_def)
      have emp: "new = [] \<longleftrightarrow> n2 \<le> m2" using len by (metis diff_is_0_eq length_0_conv)
      then have emp_dot: "n2 \<le> m2 \<Longrightarrow> ''.'' \<notin> set new" by simp
      obtain rest where rest: "ed_walk cons2 ch1 ch2 m1 m2 = Inr rest"
        and nodot: "''.'' \<notin> set new"
        and script: "script = ed_command m1 (n1 - m1) (length new) #
            (if new = [] then rest else new @ ''.'' # rest)"
        using "1.prems"(1) nz diff len
        by (auto simp: ed_walk.simps [of cons2 ch1 ch2 n1 n2] Let_def emp emp_dot
            simp flip: m1_def m2_def new_def split: if_splits sum.splits)
      from nodot have dot: "\<forall>l \<in> set new. l \<noteq> ''.''" by auto
      have IH: "apply_loop cons1 rest (int m1) acc' = Inr (take m2 cons2 @ rev acc')" for acc'
        using "1.IH"(2) [OF nz diff m1_def m2_def refl refl new_def refl, of rest m1 acc']
          rest dot "1.prems" le kept_skip [of cons1 ch1 n1] kept_skip [of cons2 ch2 n2]
        by (auto simp: m1_def [symmetric] m2_def [symmetric])
      have "take n2 cons2 = take m2 cons2 @ new"
        using le by (metis le_add_diff_inverse new_def take_add)
      then show ?thesis
        using apply_command [of m1 "n1 - m1" "int j" cons1 new rest acc] IH script dot some "1.prems" le
        by simp
    qed
  qed
qed

lemma kept_take: "b \<le> n \<Longrightarrow> kept (take n xs) ch a b = kept xs ch a b"
  by (auto simp: kept_def)

lemma preprocess_body:
  assumes "preprocess_consensus cons = (body, tr)"
  shows "body = take (length body) cons" "length body \<le> length cons"
    and "tr = (if length body < length cons then Some (show_nat (length body + 1) @ '',$d'') else None)"
proof -
  let ?b = "takeWhile (\<lambda>l. \<not> line_starts_with_str l START_OF_SIGNATURES_SECTION) cons"
  have le: "length ?b \<le> length cons" by (rule length_takeWhile_le)
  have "body = (if length ?b < length cons then ?b else cons)"
    and tr: "tr = (if length ?b < length cons then Some (show_nat (length ?b + 1) @ '',$d'') else None)"
    using assms by (auto simp: preprocess_consensus_def Let_def split: if_splits)
  moreover have "?b = cons" if "\<not> length ?b < length cons"
    using that le takeWhile_take [of _ cons] by (metis le_antisym linorder_not_le take_all_iff)
  ultimately have body: "body = ?b" by metis
  then show "body = take (length body) cons" by (simp add: takeWhile_take)
  show "length body \<le> length cons" using body le by simp
  show "tr = (if length body < length cons then Some (show_nat (length body + 1) @ '',$d'') else None)"
    using tr body by simp
qed

text \<open>The number of lines of the signature section that is cut off before the comparison.\<close>

definition signature_lines :: "cdline list \<Rightarrow> nat" where
  "signature_lines cons = length cons - length (fst (preprocess_consensus cons))"

lemma gen_ed_diff_apply:
  assumes gen: "gen_ed_diff cons1 cons2 = Inr script"
    and len: "int (length cons1) \<le> INT32_MAX" and sig: "signature_lines cons1 \<noteq> 1"
  shows "apply_ed_diff cons1 script 0 = Inr cons2"
proof -
  obtain body tr where pp: "preprocess_consensus cons1 = (body, tr)" by fastforce
  note b = preprocess_body [OF pp]
  obtain ch1 ch2 cmds where
    ch: "gen_changes body cons2 (-1) (-1) ROUTER_ID_ITERATOR_INIT ROUTER_ID_ITERATOR_INIT 0 0
           (replicate (length body) False) (replicate (length cons2) False) = Inr (ch1, ch2)"
    and walk: "ed_walk cons2 ch1 ch2 (length body) (length cons2) = Inr cmds"
    and script: "script = (case tr of None \<Rightarrow> [] | Some l \<Rightarrow> [l]) @ cmds"
    using gen by (auto simp: gen_ed_diff_def pp Let_def split: sum.splits)
  have "kept cons1 ch1 0 (length body) = kept cons2 ch2 0 (length cons2)"
    using gen_changes_kept(3) [OF ch] kept_take [of "length body" "length body" cons1 ch1 0]
    by (simp add: b(1) [symmetric])
  then have main: "apply_loop cons1 cmds (int (length body)) acc = Inr (cons2 @ rev acc)" for acc
    using ed_walk_apply [OF walk, of cons1 "length body" acc] b(2) len by simp
  show ?thesis
  proof (cases "length body < length cons1")
    case False
    then show ?thesis using b main [of "[]"] script by (simp add: apply_ed_diff_def)
  next
    case True
    then have more: "length body + 1 < length cons1" using sig pp by (simp add: signature_lines_def)
    then have "parse_ed_command (length cons1) (int (length cons1)) (show_nat (length body + 1) @ '',$d'') =
        Inr (int (length body + 1), int (length cons1), CHR ''d'')"
      using len by (intro parse_trailer) auto
    then show ?thesis
      using b(3) True main [of "[]"] script by (simp add: apply_ed_diff_def apply_loop.simps(2) Let_def)
  qed
qed

lemma signature_lines_one_fails:
  assumes gen: "gen_ed_diff cons1 cons2 = Inr script"
    and len: "int (length cons1) \<le> INT32_MAX" and sig: "signature_lines cons1 = 1"
  shows "apply_ed_diff cons1 script 0 = Inl InvalidRange"
proof -
  obtain body tr where pp: "preprocess_consensus cons1 = (body, tr)" by fastforce
  note b = preprocess_body [OF pp]
  have body: "length body + 1 = length cons1" using sig pp by (simp add: signature_lines_def)
  then have "tr = Some (show_nat (length cons1) @ '',$d'')" using b(3) by auto
  then obtain cmds where "script = (show_nat (length cons1) @ '',$d'') # cmds"
    using gen by (auto simp: gen_ed_diff_def pp Let_def split: sum.splits)
  moreover have "parse_ed_command (length cons1) (int (length cons1)) (show_nat (length cons1) @ '',$d'') =
      Inl InvalidRange"
    using show_nat_int32 [OF len] len
    by (simp add: parse_ed_command_def parse_range_def get_linenum_show_nat is_digit_def)
  ultimately show ?thesis by (simp add: apply_ed_diff_def apply_loop.simps(2))
qed

subsection \<open>The text level\<close>

lemma split_join_lines:
  assumes "\<forall>l \<in> set ls. NL \<notin> set l \<and> length l \<le> CONSENSUS_LINE_MAX_LEN"
  shows "consensus_split_lines (consensus_join_lines ls) = Some ls"
  using assms
proof (induction ls)
  case Nil
  show ?case by (simp add: consensus_join_lines_def consensus_split_lines.simps)
next
  case (Cons l ls)
  let ?s = "consensus_join_lines ls"
  have "takeWhile (\<lambda>c. c \<noteq> NL) (l @ NL # ?s) = l"
    using Cons.prems by simp
  then show ?case
    using Cons consensus_split_lines.simps [of "l @ NL # ?s"]
    by (simp add: consensus_join_lines_def Let_def)
qed

lemma split_lines_join:
  "consensus_split_lines s = Some ls \<Longrightarrow>
   consensus_join_lines ls = s \<and> (\<forall>l \<in> set ls. NL \<notin> set l \<and> length l \<le> CONSENSUS_LINE_MAX_LEN)"
proof (induction s arbitrary: ls rule: consensus_split_lines.induct)
  case (1 s)
  show ?case
  proof (cases "s = []")
    case True
    then show ?thesis using "1.prems" by (simp add: consensus_split_lines.simps consensus_join_lines_def)
  next
    case False
    define line where "line = takeWhile (\<lambda>c. c \<noteq> NL) s"
    obtain rest where r: "length line \<noteq> length s" "\<not> length line > CONSENSUS_LINE_MAX_LEN"
      "consensus_split_lines (drop (length line + 1) s) = Some rest" "ls = line # rest"
      using "1.prems" False
      by (auto simp: consensus_split_lines.simps [of s] Let_def simp flip: line_def split: if_splits)
    note IH = "1.IH" [OF False line_def r(1,2,3)]
    have "line @ NL # drop (length line + 1) s = s"
      using takeWhile_break [of NL s] r(1) by (simp flip: line_def)
    moreover have "NL \<notin> set line" unfolding line_def by (metis (mono_tags) set_takeWhileD)
    ultimately show ?thesis using IH r by (simp add: consensus_join_lines_def)
  qed
qed

text \<open>A line that survives writing to text and reading back.\<close>

definition plain_line :: "cdline \<Rightarrow> bool" where
  "plain_line l \<longleftrightarrow> NL \<notin> set l \<and> length l \<le> CONSENSUS_LINE_MAX_LEN"

lemma plain_show_nat:
  "NL \<notin> set (show_nat n)" "int n \<le> INT32_MAX \<Longrightarrow> length (show_nat n) \<le> 10"
  using show_nat_digits [of NL n] show_nat_int32 by (auto simp: is_digit_def NL_def)

lemma ed_command_plain:
  assumes "int (m + d) + 1 \<le> INT32_MAX"
  shows "plain_line (ed_command m d a)"
  using assms plain_show_nat(1) plain_show_nat(2) [of m] plain_show_nat(2) [of "m + 1"]
    plain_show_nat(2) [of "m + d"]
  by (auto simp: plain_line_def ed_command_def CONSENSUS_LINE_MAX_LEN_def NL_def)

lemma ed_walk_lines:
  assumes "ed_walk cons2 ch1 ch2 n1 n2 = Inr script" "l \<in> set script"
  shows "l \<in> set cons2 \<or> l = ''.'' \<or> (\<exists>m d a. l = ed_command m d a \<and> m + d \<le> n1)"
  using assms
proof (induction cons2 ch1 ch2 n1 n2 arbitrary: script rule: ed_walk.induct)
  case (1 cons2 ch1 ch2 n1 n2)
  have le: "skip_changed ch1 n1 + (n1 - skip_changed ch1 n1) \<le> n1"
    using skip_changed_le [of ch1 n1] by simp
  show ?case
  proof (cases "(n1 = 0 \<and> n2 = 0) \<or>
      (\<not> (n1 > 0 \<and> ch1 ! (n1 - 1)) \<and> \<not> (n2 > 0 \<and> ch2 ! (n2 - 1)))")
    case True
    show ?thesis
    proof (cases "n1 = 0 \<and> n2 = 0")
      case False
      with True "1.prems"(1) have "ed_walk cons2 ch1 ch2 (n1 - 1) (n2 - 1) = Inr script"
        by (auto simp: ed_walk.simps [of cons2 ch1 ch2 n1 n2] split: if_splits)
      from "1.IH"(1) [OF False _ this "1.prems"(2)] True False show ?thesis
        by (meson diff_le_self le_trans)
    qed (use "1.prems" in \<open>simp add: ed_walk.simps [of cons2 ch1 ch2 0 0]\<close>)
  next
    case False
    let ?m1 = "skip_changed ch1 n1" and ?m2 = "skip_changed ch2 n2"
    let ?new = "take (n2 - ?m2) (drop ?m2 cons2)"
    obtain rest where rest: "ed_walk cons2 ch1 ch2 ?m1 ?m2 = Inr rest"
      and ok: "\<not> (n2 - ?m2 > 0 \<and> (\<exists>l \<in> set ?new. line_str_eq l ''.''))"
      and script: "script = ed_command ?m1 (n1 - ?m1) (n2 - ?m2) # rest \<or>
        script = ed_command ?m1 (n1 - ?m1) (n2 - ?m2) # ?new @ ''.'' # rest"
      using "1.prems"(1) False
      by (auto simp: ed_walk.simps [of cons2 ch1 ch2 n1 n2] Let_def split: if_splits sum.splits)
    have IH: "l \<in> set cons2 \<or> l = ''.'' \<or> (\<exists>m d a. l = ed_command m d a \<and> m + d \<le> ?m1)"
      if "l \<in> set rest"
      using "1.IH"(2) [OF _ _ refl refl refl refl refl refl ok rest that] False by blast
    have "l \<in> set cons2" if "l \<in> set ?new" using that by (metis in_set_dropD in_set_takeD)
    moreover have "l = ed_command ?m1 (n1 - ?m1) (n2 - ?m2) \<or> l = ''.'' \<or> l \<in> set ?new \<or> l \<in> set rest"
      using script "1.prems"(2) by auto
    ultimately show ?thesis using IH le skip_changed_le [of ch1 n1] by (blast intro: le_trans)
  qed
qed

lemma gen_ed_diff_plain:
  assumes gen: "gen_ed_diff cons1 cons2 = Inr script"
    and len: "int (length cons1) + 1 \<le> INT32_MAX" and plain: "\<forall>l \<in> set cons2. plain_line l"
  shows "\<forall>l \<in> set script. plain_line l"
proof
  fix l assume l: "l \<in> set script"
  obtain body tr where pp: "preprocess_consensus cons1 = (body, tr)" by fastforce
  note b = preprocess_body [OF pp]
  obtain ch1 ch2 cmds where walk: "ed_walk cons2 ch1 ch2 (length body) (length cons2) = Inr cmds"
    and script: "script = (case tr of None \<Rightarrow> [] | Some l \<Rightarrow> [l]) @ cmds"
    using gen by (auto simp: gen_ed_diff_def pp Let_def split: sum.splits)
  have small: "int (length body) + 1 \<le> INT32_MAX" using b(2) len by linarith
  consider "l = show_nat (length body + 1) @ '',$d''" | "l \<in> set cmds"
    using l script b(3) by (auto split: option.splits if_splits)
  then show "plain_line l"
  proof cases
    case 1
    then show ?thesis using small plain_show_nat(1) plain_show_nat(2) [of "length body + 1"]
      by (auto simp: plain_line_def CONSENSUS_LINE_MAX_LEN_def NL_def)
  next
    case 2
    from ed_walk_lines [OF walk this] show ?thesis
    proof (elim disjE exE conjE)
      fix m d a assume "l = ed_command m d a" "m + d \<le> length body"
      moreover from this(2) have "int (m + d) + 1 \<le> INT32_MAX" using small by linarith
      ultimately show ?thesis using ed_command_plain by blast
    qed (use plain in \<open>auto simp: plain_line_def NL_def CONSENSUS_LINE_MAX_LEN_def\<close>)
  qed
qed

lemma hash_line_split:
  "smartlist_split_string no_split_flags (Some '' '') 0
     (hash_token @ '' '' @ base16_encode d1 @ '' '' @ base16_encode d2) =
   [hash_token, base16_encode d1, base16_encode d2]"
proof -
  have "CHR '' '' \<notin> set (base16_encode d)" for d
    by (rule base16_encode_no) (simp add: hex_value_def)
  then show ?thesis
    using smartlist_split_join [of "[hash_token, base16_encode d1]" "CHR '' ''" "base16_encode d2"]
    by (simp add: hash_token_def)
qed

lemma get_digests_header:
  assumes "length d1 = 32" "length d2 = 32"
  shows "consdiff_get_digests (ns_diff_version #
      (hash_token @ '' '' @ base16_encode d1 @ '' '' @ base16_encode d2) # rest) = Some (d1, d2)"
proof -
  define hdr where "hdr = hash_token @ '' '' @ base16_encode d1 @ '' '' @ base16_encode d2"
  have "CHR 0x00 \<notin> set (base16_encode d)" for d
    by (rule base16_encode_no) (simp add: hex_value_def)
  then have hdr: "takeWhile (\<lambda>c. c \<noteq> CHR 0x00) hdr = hdr"
    by (subst takeWhile_eq_all_conv) (auto simp: hash_token_def hdr_def)
  have words: "smartlist_split_string no_split_flags (Some '' '') 0 hdr =
      [hash_token, base16_encode d1, base16_encode d2]"
    unfolding hdr_def by (rule hash_line_split)
  show ?thesis
    using assms unfolding hdr_def [symmetric]
    by (simp add: consdiff_get_digests_def hdr words base16_roundtrip HEX_DIGEST256_LEN_def
        DIGEST256_LEN_def INT32_MAX_def)
qed

subsection \<open>No read outside a hash\<close>

definition iter_ok :: "router_id_iterator_t \<Rightarrow> bool" where
  "iter_ok it \<longleftrightarrow> hash it \<noteq> Some []"

lemma base64cmp_loop_Some: "a \<noteq> [] \<Longrightarrow> b \<noteq> [] \<Longrightarrow> base64cmp_loop a b \<noteq> None"
  by (induction a b rule: base64cmp_loop.induct) (auto simp: Let_def)

lemma base64cmp_Some: "x \<noteq> Some [] \<Longrightarrow> y \<noteq> Some [] \<Longrightarrow> base64cmp x y \<noteq> None"
  by (cases x; cases y) (auto simp: base64cmp_loop_Some)

lemma get_id_hash_nonempty: "get_id_hash l \<noteq> Some []"
  by (auto simp: get_id_hash_def Let_def split: list.splits)

lemma find_next_router_line_safe:
  assumes "iter_ok it"
  shows "find_next_router_line cons i it \<noteq> Inl ReadOutside"
    and "find_next_router_line cons i it = Inr (i', it') \<Longrightarrow> iter_ok it'"
proof -
  have cmp: "base64cmp (Some h) (hash it) \<noteq> None" if "get_id_hash l = Some h" for l h
    using assms that get_id_hash_nonempty [of l] by (intro base64cmp_Some) (auto simp: iter_ok_def)
  show "find_next_router_line cons i it \<noteq> Inl ReadOutside"
    using cmp by (fastforce simp: find_next_router_line_def Let_def split: option.splits if_splits)
  show "find_next_router_line cons i it = Inr (i', it') \<Longrightarrow> iter_ok it'"
    using assms get_id_hash_nonempty
    by (fastforce simp: find_next_router_line_def iter_ok_def Let_def split: option.splits if_splits)
qed

text \<open>Outcomes that neither read outside nor leave an empty hash in an iterator.\<close>

definition safe_step ::
  "diff_error + (int \<times> int \<times> router_id_iterator_t \<times> router_id_iterator_t) \<Rightarrow> bool" where
  "safe_step r \<longleftrightarrow> (case r of Inl e \<Rightarrow> e \<noteq> ReadOutside | Inr (_, _, u1, u2) \<Rightarrow> iter_ok u1 \<and> iter_ok u2)"

lemma safe_step_simps [simp]:
  "safe_step (Inl e) \<longleftrightarrow> e \<noteq> ReadOutside"
  "safe_step (Inr (j1, j2, u1, u2)) \<longleftrightarrow> iter_ok u1 \<and> iter_ok u2"
  by (simp_all add: safe_step_def)

lemma advance_lower_safe:
  "iter_ok it1 \<Longrightarrow> iter_ok it2 \<Longrightarrow> safe_step (advance_lower cons1 cons2 i1 i2 it1 it2)"
proof (induction cons1 cons2 i1 i2 it1 it2 rule: advance_lower.induct)
  case (1 cons1 cons2 i1 i2 it1 it2)
  obtain cmp where cmp: "base64cmp (hash it1) (hash it2) = Some cmp"
    using base64cmp_Some [of "hash it1" "hash it2"] "1.prems" by (auto simp: iter_ok_def)
  let ?low1 = "-1 \<le> i1 \<and> i1 < int (length cons1) \<and> cmp < 0"
  let ?low2 = "-1 \<le> i2 \<and> i2 < int (length cons2) \<and> cmp > 0"
  consider (stop) "cmp = 0 \<or> \<not> ?low1 \<and> \<not> ?low2" | (one) "cmp \<noteq> 0" ?low1 | (two) "cmp \<noteq> 0" "\<not> ?low1" ?low2
    by blast
  then show ?case
  proof cases
    case stop
    then show ?thesis using cmp "1.prems" unfolding advance_lower.simps [of cons1 cons2 i1 i2] Let_def
      by auto
  next
    case one
    show ?thesis
    proof (cases "find_next_router_line cons1 i1 it1")
      case (Inl e)
      then show ?thesis using one cmp find_next_router_line_safe(1) [OF "1.prems"(1), of cons1 i1]
        by (simp add: advance_lower.simps [of cons1 cons2 i1 i2])
    next
      case (Inr p)
      obtain k u where p: "p = (k, u)" by fastforce
      have "iter_ok u" using find_next_router_line_safe(2) [OF "1.prems"(1)] Inr p by blast
      then show ?thesis
        using one cmp Inr p "1.prems" "1.IH"(1) [OF refl refl cmp one(1) one(2) Inr p [symmetric]]
        by (simp add: advance_lower.simps [of cons1 cons2 i1 i2])
    qed
  next
    case two
    show ?thesis
    proof (cases "find_next_router_line cons2 i2 it2")
      case (Inl e)
      then show ?thesis using two cmp find_next_router_line_safe(1) [OF "1.prems"(2), of cons2 i2]
        by (simp add: advance_lower.simps [of cons1 cons2 i1 i2])
    next
      case (Inr p)
      obtain k u where p: "p = (k, u)" by fastforce
      have "iter_ok u" using find_next_router_line_safe(2) [OF "1.prems"(2)] Inr p by blast
      then show ?thesis
        using two cmp Inr p "1.prems" "1.IH"(2) [OF refl refl cmp two(1) two(2) two(3) Inr p [symmetric]]
        by (simp add: advance_lower.simps [of cons1 cons2 i1 i2])
    qed
  qed
qed

lemma step_routers_safe:
  assumes "iter_ok it1" "iter_ok it2"
  shows "safe_step (step_routers cons1 cons2 i1 i2 it1 it2)"
proof (cases "if i1 < int (length cons1) then find_next_router_line cons1 i1 it1 else Inr (i1, it1)")
  case (Inl e)
  then show ?thesis using find_next_router_line_safe(1) [OF assms(1), of cons1 i1]
    by (auto simp: step_routers_def Let_def split: if_splits)
next
  case (Inr p)
  obtain k1 u1 where p: "p = (k1, u1)" by fastforce
  have u1: "iter_ok u1" using Inr p assms find_next_router_line_safe(2) [OF assms(1)]
    by (auto split: if_splits)
  show ?thesis
  proof (cases "if i2 < int (length cons2) then find_next_router_line cons2 i2 it2 else Inr (i2, it2)")
    case (Inl e)
    then show ?thesis using Inr p find_next_router_line_safe(1) [OF assms(2), of cons2 i2]
      by (auto simp: step_routers_def Let_def split: if_splits)
  next
    case r2: (Inr q)
    obtain k2 u2 where q: "q = (k2, u2)" by fastforce
    have "iter_ok u2" using r2 q assms find_next_router_line_safe(2) [OF assms(2)]
      by (auto split: if_splits)
    then show ?thesis using Inr p r2 q u1 advance_lower_safe by (simp add: step_routers_def Let_def)
  qed
qed

lemma gen_changes_safe:
  "iter_ok it1 \<Longrightarrow> iter_ok it2 \<Longrightarrow>
   gen_changes cons1 cons2 i1 i2 it1 it2 a1 a2 c1 c2 \<noteq> Inl ReadOutside"
proof (induction cons1 cons2 i1 i2 it1 it2 a1 a2 c1 c2 rule: gen_changes.induct)
  case (1 cons1 cons2 i1 i2 it1 it2 a1 a2 c1 c2)
  note safe = step_routers_safe [OF "1.prems", of cons1 cons2 i1 i2]
  show ?case
  proof (cases "step_routers cons1 cons2 i1 i2 it1 it2")
    case (Inl e)
    then show ?thesis using safe by (simp add: gen_changes.simps [of cons1 cons2 i1 i2])
  next
    case (Inr p)
    obtain j1 j2 u1 u2 where p: "p = (j1, j2, u1, u2)" by (cases p) auto
    obtain d1 d2 where d: "calc_changes (smartlist_slice cons1 a1 j1) (smartlist_slice cons2 a2 j2) c1 c2 = (d1, d2)"
      by fastforce
    show ?thesis
      using Inr p d safe "1.IH" [OF _ Inr p [symmetric] refl refl _ refl d [symmetric]]
      by (auto simp: gen_changes.simps [of cons1 cons2 i1 i2])
  qed
qed

lemma ed_walk_safe: "ed_walk cons2 ch1 ch2 n1 n2 \<noteq> Inl ReadOutside"
proof (induction cons2 ch1 ch2 n1 n2 rule: ed_walk.induct)
  case (1 cons2 ch1 ch2 n1 n2)
  note IH1 = "1.IH"(1) and IH2 = "1.IH"(2) [OF _ _ refl refl refl refl refl refl]
  show ?case
  proof
    assume bad: "ed_walk cons2 ch1 ch2 n1 n2 = Inl ReadOutside"
    then show False
      using IH1 IH2 unfolding ed_walk.simps [of cons2 ch1 ch2 n1 n2]
      by (simp only: Let_def split: if_splits sum.splits) simp_all
  qed
qed

subsection \<open>Properties\<close>

lemma consdiff_gen_diff_Some:
  "consdiff_gen_diff cons1 cons2 d1 d2 = Some diff \<longleftrightarrow>
   (\<exists>ed. gen_ed_diff cons1 cons2 = Inr ed \<and> apply_ed_diff cons1 ed 0 = Inr cons2 \<and>
     diff = ns_diff_version # (hash_token @ '' '' @ base16_encode d1 @ '' '' @ base16_encode d2) # ed)"
proof -
  have eq: "length xs = length ys \<and> list_all2 lines_eq xs ys \<longleftrightarrow> xs = ys" for xs ys :: "cdline list"
    by (auto simp: list_all2_conv_all_nth intro: nth_equalityI)
  show ?thesis unfolding consdiff_gen_diff_def eq by (auto split: sum.splits)
qed

lemma header_plain:
  assumes "length d1 = 32" "length d2 = 32"
  shows "plain_line ns_diff_version"
    "plain_line (hash_token @ '' '' @ base16_encode d1 @ '' '' @ base16_encode d2)"
proof -
  have "NL \<notin> set (base16_encode d)" for d
    by (rule base16_encode_no) (simp add: hex_value_def NL_def)
  then show "plain_line (hash_token @ '' '' @ base16_encode d1 @ '' '' @ base16_encode d2)"
    using assms by (simp add: plain_line_def hash_token_def CONSENSUS_LINE_MAX_LEN_def NL_def)
  show "plain_line ns_diff_version"
    by (simp add: plain_line_def ns_diff_version_def CONSENSUS_LINE_MAX_LEN_def NL_def)
qed

lemma length_join_lines: "length ls \<le> length (consensus_join_lines ls)"
  by (induction ls) (auto simp: consensus_join_lines_def)

text \<open>
  C8. Self check. The script that \<^verbatim>\<open>gen_ed_diff\<close> produces, applied by \<^verbatim>\<open>apply_ed_diff\<close> to the base
  consensus, gives exactly the target consensus, unless the signature section of the base is a
  single line.
\<close>

theorem generated_script_applies:
  assumes "gen_ed_diff cons1 cons2 = Inr script" "int (length cons1) \<le> INT32_MAX"
    and "signature_lines cons1 \<noteq> 1"
  shows "apply_ed_diff cons1 script 0 = Inr cons2"
  using assms by (rule gen_ed_diff_apply)

text \<open>Two small consensuses: a router is replaced, another line added, the signatures dropped.\<close>

definition demo_cons1 :: "cdline list" where
  "demo_cons1 = [''network-status-version 3'', ''r a AAAA x'', ''s Fast'', ''r b BBBB y'', ''s Guard'',
     ''directory-signature x'', ''sig'']"

definition demo_cons2 :: "cdline list" where
  "demo_cons2 = [''network-status-version 3'', ''r a AAAA x'', ''s Fast'', ''w 5'', ''r c CCCC y'',
     ''directory-signature z'']"

theorem generated_script_applies_witness:
  "\<exists>script. gen_ed_diff demo_cons1 demo_cons2 = Inr script \<and>
     apply_ed_diff demo_cons1 script 0 = Inr demo_cons2"
proof -
  have gen: "gen_ed_diff demo_cons1 demo_cons2 =
      Inr [''6,$d'', ''4,5c'', ''w 5'', ''r c CCCC y'', ''directory-signature z'', ''.'']"
    by code_simp
  moreover have "int (length demo_cons1) \<le> INT32_MAX" "signature_lines demo_cons1 \<noteq> 1"
    by code_simp+
  ultimately show ?thesis using generated_script_applies by blast
qed

text \<open>
  Which diffs \<^verbatim>\<open>consdiff_gen_diff\<close> returns: exactly those for which \<^verbatim>\<open>gen_ed_diff\<close> found a script
  and the signature section of the base is not a single line. In the latter case the command
  \<open>n,$d\<close> that deletes the signatures has \<open>n\<close> equal to the length of the base, which
  \<^verbatim>\<open>apply_ed_diff\<close> rejects as an invalid range: the branch the code calls impossible is taken.
\<close>

theorem consdiff_gen_diff_exact:
  assumes "int (length cons1) \<le> INT32_MAX"
  shows "consdiff_gen_diff cons1 cons2 d1 d2 =
    (case gen_ed_diff cons1 cons2 of
       Inl _ \<Rightarrow> None
     | Inr ed \<Rightarrow>
         if signature_lines cons1 = 1 then None
         else Some (ns_diff_version #
                (hash_token @ '' '' @ base16_encode d1 @ '' '' @ base16_encode d2) # ed))"
proof (cases "gen_ed_diff cons1 cons2")
  case (Inr ed)
  show ?thesis
  proof (cases "signature_lines cons1 = 1")
    case True
    then show ?thesis using signature_lines_one_fails [OF Inr assms] Inr
      by (simp add: consdiff_gen_diff_def)
  next
    case False
    then show ?thesis using gen_ed_diff_apply [OF Inr assms] Inr
      by (simp add: consdiff_gen_diff_Some)
  qed
qed (simp add: consdiff_gen_diff_def)

theorem consdiff_gen_diff_exact_witness:
  "int (length (butlast demo_cons1)) \<le> INT32_MAX \<and>
   (\<exists>ed. gen_ed_diff (butlast demo_cons1) demo_cons2 = Inr ed) \<and>
   consdiff_gen_diff (butlast demo_cons1) demo_cons2 [1] [2] = None"
proof -
  have gen: "gen_ed_diff (butlast demo_cons1) demo_cons2 =
      Inr [''6,$d'', ''4,5c'', ''w 5'', ''r c CCCC y'', ''directory-signature z'', ''.'']"
    by code_simp
  moreover have "int (length (butlast demo_cons1)) \<le> INT32_MAX" "signature_lines (butlast demo_cons1) = 1"
    by code_simp+
  ultimately show ?thesis using consdiff_gen_diff_exact [of "butlast demo_cons1" demo_cons2 "[1]" "[2]"] by simp
qed

text \<open>
  C3. Round trip. A diff that \<^verbatim>\<open>consensus_diff_generate\<close> produces is recognised as a diff, and
  \<^verbatim>\<open>consensus_diff_apply\<close> turns the base text back into the target text, digest checks included. The
  digest function is any function of 32 byte results; a NUL in the target would end the C string.
\<close>

theorem consensus_diff_roundtrip:
  assumes gen: "consensus_diff_generate sha3 c1 c2 = Some diff"
    and sha3: "\<And>s d. sha3 s = Some d \<Longrightarrow> length d = 32"
    and nul: "CHR 0x00 \<notin> set c2" and len: "int (length c1) + 1 \<le> INT32_MAX"
  shows "consensus_diff_apply sha3 c1 diff = Some c2 \<and> looks_like_a_consensus_diff diff"
proof -
  obtain d1 d2 l1 l2 dl where
    d: "router_get_networkstatus_v3_sha3_as_signed sha3 c1 = Some d1" "sha3 c2 = Some d2"
    and l: "consensus_split_lines c1 = Some l1" "consensus_split_lines c2 = Some l2"
    and dl: "consdiff_gen_diff l1 l2 d1 d2 = Some dl" "diff = consensus_join_lines dl"
    using gen by (auto simp: consensus_diff_generate_def split: option.splits)
  have n: "length d1 = 32" "length d2 = 32"
    using d sha3 by (auto simp: router_get_networkstatus_v3_sha3_as_signed_def)
  obtain ed where ed: "gen_ed_diff l1 l2 = Inr ed" "apply_ed_diff l1 ed 0 = Inr l2"
    "dl = ns_diff_version # (hash_token @ '' '' @ base16_encode d1 @ '' '' @ base16_encode d2) # ed"
    using dl(1) by (auto simp: consdiff_gen_diff_Some)
  have text1: "consensus_join_lines l1 = c1" and text2: "consensus_join_lines l2 = c2"
    and plain2: "\<forall>l \<in> set l2. plain_line l"
    using split_lines_join [OF l(1)] split_lines_join [OF l(2)] by (auto simp: plain_line_def)
  have "int (length l1) + 1 \<le> INT32_MAX" using length_join_lines [of l1] text1 len by simp
  then have "\<forall>l \<in> set dl. plain_line l"
    using gen_ed_diff_plain [OF ed(1) _ plain2] header_plain [OF n] ed(3) by auto
  then have split: "consensus_split_lines diff = Some dl"
    using split_join_lines [of dl] dl(2) by (simp add: plain_line_def)
  have tw: "takeWhile (\<lambda>c. c \<noteq> CHR 0x00) c2 = c2" using nul by (auto simp: takeWhile_eq_all_conv)
  have "consdiff_apply_diff sha3 l1 dl d1 = Some c2"
    using ed(2) d(2) get_digests_header [OF n, of ed] text2
    by (simp add: consdiff_apply_diff_def ed(3) apply_ed_diff_def tw Let_def)
  moreover have "looks_like_a_consensus_diff diff"
    by (simp add: looks_like_a_consensus_diff_def dl(2) ed(3) consensus_join_lines_def)
  ultimately show ?thesis using d l split by (simp add: consensus_diff_apply_def)
qed

text \<open>A stand-in for the digest, for the witness.\<close>

definition demo_sha3 :: "string \<Rightarrow> byte list option" where
  "demo_sha3 s = Some (replicate 32 (if length s < 100 then 0 else 1))"

theorem consensus_diff_roundtrip_witness:
  "\<exists>diff. consensus_diff_generate demo_sha3 (consensus_join_lines demo_cons1) (consensus_join_lines demo_cons2) = Some diff \<and>
     consensus_diff_apply demo_sha3 (consensus_join_lines demo_cons1) diff = Some (consensus_join_lines demo_cons2)"
proof -
  have ed: "gen_ed_diff demo_cons1 demo_cons2 =
      Inr [''6,$d'', ''4,5c'', ''w 5'', ''r c CCCC y'', ''directory-signature z'', ''.'']" by code_simp
  have "int (length demo_cons1) \<le> INT32_MAX" "signature_lines demo_cons1 \<noteq> 1" by code_simp+
  note applied = gen_ed_diff_apply [OF ed this]
  have "consensus_split_lines (consensus_join_lines demo_cons1) = Some demo_cons1"
    "consensus_split_lines (consensus_join_lines demo_cons2) = Some demo_cons2"
    by (rule split_join_lines;
        simp add: demo_cons1_def demo_cons2_def NL_def CONSENSUS_LINE_MAX_LEN_def)+
  then have "consensus_diff_generate demo_sha3 (consensus_join_lines demo_cons1) (consensus_join_lines demo_cons2) \<noteq> None"
    using ed applied by (simp add: consensus_diff_generate_def demo_sha3_def
        router_get_networkstatus_v3_sha3_as_signed_def consdiff_gen_diff_Some)
  then obtain diff where gen: "consensus_diff_generate demo_sha3 (consensus_join_lines demo_cons1)
      (consensus_join_lines demo_cons2) = Some diff" by blast
  have "CHR 0x00 \<notin> set (consensus_join_lines demo_cons2)"
    "int (length (consensus_join_lines demo_cons1)) + 1 \<le> INT32_MAX" by code_simp+
  moreover have "length d = 32" if "demo_sha3 s = Some d" for s d
    using that by (auto simp: demo_sha3_def)
  ultimately show ?thesis using gen consensus_diff_roundtrip [OF gen] by blast
qed

text \<open>
  C29. Memory safety of the router comparison: \<^verbatim>\<open>base64cmp\<close> reads a character before it tests for the
  end of a hash, but \<^verbatim>\<open>gen_ed_diff\<close> never hands it an empty hash.
\<close>

theorem gen_ed_diff_reads_inside: "gen_ed_diff cons1 cons2 \<noteq> Inl ReadOutside"
proof -
  have init: "iter_ok ROUTER_ID_ITERATOR_INIT" by (simp add: iter_ok_def ROUTER_ID_ITERATOR_INIT_def)
  show ?thesis
    using gen_changes_safe [OF init init] ed_walk_safe
    by (auto simp: gen_ed_diff_def Let_def split: prod.splits sum.splits)
qed

text \<open>
  Marking. After \<^verbatim>\<open>calc_changes\<close> on two slices whose bits are clear, the lines left unmarked in
  the two slices are the same sequence, and no bit outside the slices has changed.
\<close>

theorem calc_changes_agree:
  assumes "unmarked s1 c1" "unmarked s2 c2" "calc_changes s1 s2 c1 c2 = (d1, d2)"
  shows "kept (sl_list s1) d1 (sl_offset s1) (sl_offset s1 + sl_len s1) =
      kept (sl_list s2) d2 (sl_offset s2) (sl_offset s2 + sl_len s2) \<and>
    (\<forall>i. i < sl_offset s1 \<or> sl_offset s1 + sl_len s1 \<le> i \<longrightarrow> d1 ! i = c1 ! i) \<and>
    (\<forall>i. i < sl_offset s2 \<or> sl_offset s2 + sl_len s2 \<le> i \<longrightarrow> d2 ! i = c2 ! i)"
  using calc_changes_marks [OF assms(1,2)] assms(3) by (simp add: slice_marks_def marks_def)

theorem calc_changes_agree_witness:
  "\<exists>d1 d2. calc_changes (smartlist_slice demo_cons1 1 5) (smartlist_slice demo_cons2 1 5)
       (replicate 7 False) (replicate 6 False) = (d1, d2) \<and>
     kept demo_cons1 d1 1 5 = kept demo_cons2 d2 1 5 \<and> kept demo_cons1 d1 1 5 = [''r a AAAA x'', ''s Fast'']"
proof -
  let ?d1 = "[False, False, False, True, True, False, False]" and ?d2 = "[False, False, False, True, True, False]"
  have "calc_changes (smartlist_slice demo_cons1 1 5) (smartlist_slice demo_cons2 1 5)
       (replicate 7 False) (replicate 6 False) = (?d1, ?d2)" by code_simp
  moreover have "unmarked (smartlist_slice demo_cons1 1 5) (replicate 7 False)"
    "unmarked (smartlist_slice demo_cons2 1 5) (replicate 6 False)"
    by (auto simp: unmarked_def smartlist_slice_def)
  moreover have "kept demo_cons1 ?d1 1 5 = [''r a AAAA x'', ''s Fast'']" by code_simp
  ultimately show ?thesis
    using calc_changes_agree by (fastforce simp: smartlist_slice_def)
qed

end
