(* ===== verification/Token_Bucket.thy ===== *)
theory Token_Bucket
  imports Prelude
begin

text \<open>
  Token buckets, \<^verbatim>\<open>src/BADNET/src/lib/evloop/token_bucket.c\<close> and \<^verbatim>\<open>token_bucket.h\<close>. Unsigned fields are
  words; the signed 32-bit level is an integer with the conversion of the C assignment written
  out (\<open>to_int32\<close>). A result \<open>None\<close> is a division by a zero rate. Rate limiting itself is stated
  once, in the locale \<open>rate_limiter\<close>, and holds of both kinds of bucket.
\<close>

subsection \<open>Data\<close>

definition to_int32 :: "int \<Rightarrow> int" where
  "to_int32 x = (x + 2 ^ 31) mod 2 ^ 32 - 2 ^ 31"

definition TOKEN_BUCKET_MAX_BURST :: int where "TOKEN_BUCKET_MAX_BURST = 2 ^ 31 - 1"
definition TICKS_PER_STEP :: nat where "TICKS_PER_STEP = 16"
definition STAMP_TICKS_PER_SECOND :: nat where "STAMP_TICKS_PER_SECOND = 953"

record token_bucket_cfg_t =
  rate :: uint32
  burst :: int

type_synonym token_bucket_raw_t = int

record token_bucket_rw_t =
  rw_cfg :: token_bucket_cfg_t
  read_bucket :: token_bucket_raw_t
  write_bucket :: token_bucket_raw_t
  rw_last_refilled :: uint32

record token_bucket_ctr_t =
  ctr_cfg :: token_bucket_cfg_t
  ctr_counter :: token_bucket_raw_t
  ctr_last_refilled :: uint32

subsection \<open>Raw buckets\<close>

definition token_bucket_cfg_init :: "uint32 \<Rightarrow> uint32 \<Rightarrow> token_bucket_cfg_t" where
  "token_bucket_cfg_init r b =
     \<lparr>rate = r, burst = (if int (unat b) > TOKEN_BUCKET_MAX_BURST then TOKEN_BUCKET_MAX_BURST else int (unat b))\<rparr>"

definition token_bucket_raw_reset :: "token_bucket_cfg_t \<Rightarrow> token_bucket_raw_t" where
  "token_bucket_raw_reset cfg = burst cfg"

definition token_bucket_raw_adjust :: "token_bucket_raw_t \<Rightarrow> token_bucket_cfg_t \<Rightarrow> token_bucket_raw_t" where
  "token_bucket_raw_adjust bucket cfg = min bucket (burst cfg)"

text \<open>
  The gap is computed in 64 bits; the product and the sum of the refill in 32 bits.
\<close>

definition token_bucket_raw_refill_steps ::
  "token_bucket_raw_t \<Rightarrow> token_bucket_cfg_t \<Rightarrow> uint32 \<Rightarrow> (token_bucket_raw_t \<times> bool) option" where
  "token_bucket_raw_refill_steps bucket cfg elapsed =
     (let was_empty = bucket \<le> 0;
          gap = (burst cfg mod 2 ^ 64 - bucket mod 2 ^ 64) mod 2 ^ 64
      in if rate cfg = 0 then None
         else let bucket' = (if int (unat elapsed) > gap div int (unat (rate cfg)) then burst cfg
                             else to_int32 (bucket mod 2 ^ 32 + int (unat (rate cfg * elapsed))))
              in Some (bucket', was_empty \<and> bucket' > 0))"

definition token_bucket_raw_dec :: "token_bucket_raw_t \<Rightarrow> int \<Rightarrow> token_bucket_raw_t \<times> bool" where
  "token_bucket_raw_dec bucket n =
     (if n < 0 then (bucket, False)
      else (to_int32 (bucket - n), bucket > 0 \<and> n \<ge> bucket))"

definition token_bucket_raw_get :: "token_bucket_raw_t \<Rightarrow> nat" where
  "token_bucket_raw_get bucket = (if bucket \<ge> 0 then nat bucket else 0)"

subsection \<open>Read and write buckets\<close>

definition monotime_coarse_stamp_units_to_approx_msec :: "uint64 \<Rightarrow> uint64" where
  "monotime_coarse_stamp_units_to_approx_msec units = (units * 1000) div of_nat STAMP_TICKS_PER_SECOND"

definition rate_per_sec_to_rate_per_step :: "uint32 \<Rightarrow> uint32" where
  "rate_per_sec_to_rate_per_step r =
     (let units = (ucast r :: uint64) * of_nat TICKS_PER_STEP;
          v = (ucast (monotime_coarse_stamp_units_to_approx_msec units div 1000) :: uint32)
      in if v \<noteq> 0 then v else 1)"

definition token_bucket_rw_adjust :: "token_bucket_rw_t \<Rightarrow> uint32 \<Rightarrow> uint32 \<Rightarrow> token_bucket_rw_t" where
  "token_bucket_rw_adjust b r bu =
     (let cfg = token_bucket_cfg_init (rate_per_sec_to_rate_per_step r) bu
      in b\<lparr>rw_cfg := cfg,
           read_bucket := token_bucket_raw_adjust (read_bucket b) cfg,
           write_bucket := token_bucket_raw_adjust (write_bucket b) cfg\<rparr>)"

definition token_bucket_rw_reset :: "token_bucket_rw_t \<Rightarrow> uint32 \<Rightarrow> token_bucket_rw_t" where
  "token_bucket_rw_reset b now_ts =
     b\<lparr>read_bucket := token_bucket_raw_reset (rw_cfg b),
       write_bucket := token_bucket_raw_reset (rw_cfg b), rw_last_refilled := now_ts\<rparr>"

definition token_bucket_rw_init :: "uint32 \<Rightarrow> uint32 \<Rightarrow> uint32 \<Rightarrow> token_bucket_rw_t" where
  "token_bucket_rw_init r bu now_ts =
     token_bucket_rw_reset
       (token_bucket_rw_adjust
          \<lparr>rw_cfg = \<lparr>rate = 0, burst = 0\<rparr>, read_bucket = 0, write_bucket = 0, rw_last_refilled = 0\<rparr> r bu)
       now_ts"

text \<open>The two flags are the bits \<^verbatim>\<open>TB_READ\<close> and \<^verbatim>\<open>TB_WRITE\<close> of the code.\<close>

definition token_bucket_rw_refill :: "token_bucket_rw_t \<Rightarrow> uint32 \<Rightarrow> (token_bucket_rw_t \<times> bool \<times> bool) option" where
  "token_bucket_rw_refill b now_ts =
     (let elapsed_ticks = now_ts - rw_last_refilled b
      in if elapsed_ticks > - 1 - 300 * 1000 then Some (b, False, False)
         else let elapsed_steps = elapsed_ticks div of_nat TICKS_PER_STEP
              in if elapsed_steps = 0 then Some (b, False, False)
                 else case (token_bucket_raw_refill_steps (read_bucket b) (rw_cfg b) elapsed_steps,
                            token_bucket_raw_refill_steps (write_bucket b) (rw_cfg b) elapsed_steps) of
                        (Some (r, fr), Some (w, fw)) \<Rightarrow>
                          Some (b\<lparr>read_bucket := r, write_bucket := w, rw_last_refilled := now_ts\<rparr>, fr, fw)
                      | _ \<Rightarrow> None)"

definition token_bucket_rw_dec_read :: "token_bucket_rw_t \<Rightarrow> int \<Rightarrow> token_bucket_rw_t \<times> bool" where
  "token_bucket_rw_dec_read b n =
     (let (r, e) = token_bucket_raw_dec (read_bucket b) n in (b\<lparr>read_bucket := r\<rparr>, e))"

definition token_bucket_rw_dec_write :: "token_bucket_rw_t \<Rightarrow> int \<Rightarrow> token_bucket_rw_t \<times> bool" where
  "token_bucket_rw_dec_write b n =
     (let (w, e) = token_bucket_raw_dec (write_bucket b) n in (b\<lparr>write_bucket := w\<rparr>, e))"

definition token_bucket_rw_dec :: "token_bucket_rw_t \<Rightarrow> int \<Rightarrow> int \<Rightarrow> token_bucket_rw_t \<times> bool \<times> bool" where
  "token_bucket_rw_dec b n_read n_written =
     (let (b1, er) = token_bucket_rw_dec_read b n_read;
          (b2, ew) = token_bucket_rw_dec_write b1 n_written
      in (b2, er, ew))"

subsection \<open>Counters\<close>

definition token_bucket_ctr_adjust :: "token_bucket_ctr_t \<Rightarrow> uint32 \<Rightarrow> uint32 \<Rightarrow> token_bucket_ctr_t" where
  "token_bucket_ctr_adjust b r bu =
     (let cfg = token_bucket_cfg_init r bu
      in b\<lparr>ctr_cfg := cfg, ctr_counter := token_bucket_raw_adjust (ctr_counter b) cfg\<rparr>)"

definition token_bucket_ctr_reset :: "token_bucket_ctr_t \<Rightarrow> uint32 \<Rightarrow> token_bucket_ctr_t" where
  "token_bucket_ctr_reset b now_ts =
     b\<lparr>ctr_counter := token_bucket_raw_reset (ctr_cfg b), ctr_last_refilled := now_ts\<rparr>"

definition token_bucket_ctr_init :: "uint32 \<Rightarrow> uint32 \<Rightarrow> uint32 \<Rightarrow> token_bucket_ctr_t" where
  "token_bucket_ctr_init r bu now_ts =
     token_bucket_ctr_reset
       (token_bucket_ctr_adjust
          \<lparr>ctr_cfg = \<lparr>rate = 0, burst = 0\<rparr>, ctr_counter = 0, ctr_last_refilled = 0\<rparr> r bu)
       now_ts"

definition token_bucket_ctr_refill :: "token_bucket_ctr_t \<Rightarrow> uint32 \<Rightarrow> token_bucket_ctr_t option" where
  "token_bucket_ctr_refill b now_ts =
     (let elapsed_ticks = now_ts - ctr_last_refilled b
      in if elapsed_ticks > - 1 - 300 * 1000 then Some b
         else case token_bucket_raw_refill_steps (ctr_counter b) (ctr_cfg b) elapsed_ticks of
                None \<Rightarrow> None
              | Some (c, _) \<Rightarrow> Some (b\<lparr>ctr_counter := c, ctr_last_refilled := now_ts\<rparr>))"

definition token_bucket_ctr_dec :: "token_bucket_ctr_t \<Rightarrow> int \<Rightarrow> token_bucket_ctr_t \<times> bool" where
  "token_bucket_ctr_dec b n =
     (let (c, e) = token_bucket_raw_dec (ctr_counter b) n in (b\<lparr>ctr_counter := c\<rparr>, e))"

subsection \<open>The refill as arithmetic\<close>

definition cfg_ok :: "token_bucket_cfg_t \<Rightarrow> bool" where
  "cfg_ok cfg \<longleftrightarrow> rate cfg \<noteq> 0 \<and> 0 \<le> burst cfg \<and> burst cfg \<le> TOKEN_BUCKET_MAX_BURST"

definition level_ok :: "token_bucket_cfg_t \<Rightarrow> token_bucket_raw_t \<Rightarrow> bool" where
  "level_ok cfg b \<longleftrightarrow> - (2 ^ 31) \<le> b \<and> b \<le> burst cfg"

lemma to_int32_id: "- (2 ^ 31) \<le> x \<Longrightarrow> x < 2 ^ 31 \<Longrightarrow> to_int32 x = x"
  by (simp add: to_int32_def)

lemma to_int32_mod: "to_int32 (x mod 2 ^ 32 + y) = to_int32 (x + y)"
  unfolding to_int32_def by (metis add.assoc mod_add_left_eq)

lemma refill_steps_level:
  assumes "cfg_ok cfg" "level_ok cfg b"
  shows "\<exists>f. token_bucket_raw_refill_steps b cfg e =
    Some (min (burst cfg) (b + int (unat (rate cfg)) * int (unat e)), f) \<and>
    (f \<longleftrightarrow> b \<le> 0 \<and> min (burst cfg) (b + int (unat (rate cfg)) * int (unat e)) > 0)"
proof -
  let ?r = "int (unat (rate cfg))" and ?e = "int (unat e)"
  have "unat (rate cfg) \<noteq> 0" using assms(1) by (simp add: cfg_ok_def unsigned_eq_0_iff)
  then have r: "0 < ?r" by linarith
  have bounds: "0 \<le> burst cfg" "burst cfg \<le> 2 ^ 31 - 1" "- (2 ^ 31) \<le> b" "b \<le> burst cfg"
    using assms by (auto simp: cfg_ok_def level_ok_def TOKEN_BUCKET_MAX_BURST_def)
  have "(burst cfg mod 2 ^ 64 - b mod 2 ^ 64) mod 2 ^ 64 = (burst cfg - b) mod 2 ^ 64" by (rule mod_diff_eq)
  then have gap: "(burst cfg mod 2 ^ 64 - b mod 2 ^ 64) mod 2 ^ 64 = burst cfg - b"
    using bounds by simp
  show ?thesis
  proof (cases "?e > (burst cfg - b) div ?r")
    case True
    then have "(burst cfg - b) div ?r + 1 \<le> ?e" by simp
    then have "((burst cfg - b) div ?r + 1) * ?r \<le> ?e * ?r" using r by (intro mult_right_mono) auto
    moreover have "burst cfg - b < ((burst cfg - b) div ?r + 1) * ?r"
      using r div_mult_mod_eq [of "burst cfg - b" ?r] pos_mod_bound [OF r, of "burst cfg - b"]
      by (simp only: distrib_right mult_1_left)
    ultimately have "min (burst cfg) (b + ?r * ?e) = burst cfg" by (simp only: mult.commute)
    then show ?thesis
      using True r assms(1) unfolding token_bucket_raw_refill_steps_def Let_def gap by (auto simp: cfg_ok_def)
  next
    case False
    then have "?e * ?r \<le> (burst cfg - b) div ?r * ?r" using r by (intro mult_right_mono) auto
    also have "\<dots> \<le> burst cfg - b" using r by (simp add: minus_mod_eq_div_mult [symmetric])
    finally have le: "?r * ?e \<le> burst cfg - b" by (simp only: mult.commute)
    have "unat (rate cfg * e) = unat (rate cfg) * unat e"
    proof -
      have "int (unat (rate cfg) * unat e) < 2 ^ 32" using le bounds by (simp del: of_nat_unat)
      then have "unat (rate cfg) * unat e < 2 ^ 32" by (metis of_nat_less_iff of_nat_numeral of_nat_power)
      then show ?thesis by (simp add: unat_word_ariths)
    qed
    then have "to_int32 (b mod 2 ^ 32 + int (unat (rate cfg * e))) = to_int32 (b + ?r * ?e)"
      by (simp only: to_int32_mod of_nat_mult)
    also have "\<dots> = b + ?r * ?e" using le bounds by (intro to_int32_id) (auto intro: order_trans simp del: of_nat_unat)
    finally have "to_int32 (b mod 2 ^ 32 + int (unat (rate cfg * e))) = min (burst cfg) (b + ?r * ?e)"
      using le by simp
    then show ?thesis
      using False assms(1) unfolding token_bucket_raw_refill_steps_def Let_def gap by (auto simp: cfg_ok_def)
  qed
qed

subsection \<open>Rate limiting\<close>

text \<open>
  A schedule of refills and of spending. Times are ticks of the clock that never wraps; the code sees
  them as 32-bit stamps.
\<close>

datatype limiter_op = Refill nat | Spend int

fun run_ops :: "('s \<Rightarrow> uint32 \<Rightarrow> 's) \<Rightarrow> ('s \<Rightarrow> int \<Rightarrow> 's) \<Rightarrow> limiter_op list \<Rightarrow> 's \<Rightarrow> 's" where
  "run_ops refill spend [] s = s"
| "run_ops refill spend (Refill u # xs) s = run_ops refill spend xs (refill s (of_nat u))"
| "run_ops refill spend (Spend n # xs) s = run_ops refill spend xs (spend s n)"

fun spent :: "limiter_op list \<Rightarrow> int" where
  "spent [] = 0"
| "spent (Refill u # xs) = spent xs"
| "spent (Spend n # xs) = n + spent xs"

text \<open>Time does not go back, and the time at the end of the schedule.\<close>

fun times_ordered :: "nat \<Rightarrow> limiter_op list \<Rightarrow> bool" where
  "times_ordered u [] \<longleftrightarrow> True"
| "times_ordered u (Refill v # xs) \<longleftrightarrow> u \<le> v \<and> times_ordered v xs"
| "times_ordered u (Spend n # xs) \<longleftrightarrow> times_ordered u xs"

fun end_time :: "nat \<Rightarrow> limiter_op list \<Rightarrow> nat" where
  "end_time u [] = u"
| "end_time u (Refill v # xs) = end_time v xs"
| "end_time u (Spend n # xs) = end_time u xs"

text \<open>No amount takes the level below the least 32-bit integer. The level itself may become negative.\<close>

fun fits :: "('s \<Rightarrow> uint32 \<Rightarrow> 's) \<Rightarrow> ('s \<Rightarrow> int \<Rightarrow> 's) \<Rightarrow> ('s \<Rightarrow> int) \<Rightarrow> limiter_op list \<Rightarrow> 's \<Rightarrow> bool" where
  "fits refill spend level [] s \<longleftrightarrow> True"
| "fits refill spend level (Refill u # xs) s \<longleftrightarrow> fits refill spend level xs (refill s (of_nat u))"
| "fits refill spend level (Spend n # xs) s \<longleftrightarrow>
     0 \<le> n \<and> - (2 ^ 31) \<le> level s - n \<and> fits refill spend level xs (spend s n)"

lemma end_time_le: "times_ordered u xs \<Longrightarrow> u \<le> end_time u xs"
  by (induction u xs rule: times_ordered.induct) auto

lemma stamp_diff: "t \<le> u \<Longrightarrow> unat (of_nat u - of_nat t :: uint32) \<le> u - t"
proof -
  assume "t \<le> u"
  then have "(of_nat u - of_nat t :: uint32) = of_nat (u - t)" by (simp add: of_nat_diff)
  then show ?thesis by (simp add: unsigned_of_nat take_bit_nat_def)
qed

text \<open>
  The contract of a bucket that a refill credits with \<open>speed\<close> units for each period of \<open>period\<close> ticks since
  the stamp of the last credit: what is credited is never credited again.
\<close>

locale rate_limiter =
  fixes ok :: "'s \<Rightarrow> bool"
    and level :: "'s \<Rightarrow> int"
    and cap :: "'s \<Rightarrow> int"
    and speed :: "'s \<Rightarrow> int"
    and stamp :: "'s \<Rightarrow> uint32"
    and periods :: "'s \<Rightarrow> uint32 \<Rightarrow> nat"
    and period :: nat
    and refill :: "'s \<Rightarrow> uint32 \<Rightarrow> 's"
    and spend :: "'s \<Rightarrow> int \<Rightarrow> 's"
  assumes period_pos: "0 < period"
    and level_cap: "ok s \<Longrightarrow> level s \<le> cap s"
    and speed_nonneg: "ok s \<Longrightarrow> 0 \<le> speed s"
    and periods_le: "ok s \<Longrightarrow> periods s t * period \<le> unat (t - stamp s)"
    and refill_ok: "ok s \<Longrightarrow> ok (refill s t)"
    and refill_level: "ok s \<Longrightarrow> level (refill s t) = min (cap s) (level s + speed s * int (periods s t))"
    and refill_stamp: "ok s \<Longrightarrow> stamp (refill s t) = (if periods s t = 0 then stamp s else t)"
    and refill_cfg: "ok s \<Longrightarrow> cap (refill s t) = cap s" "ok s \<Longrightarrow> speed (refill s t) = speed s"
    and spend_ok: "ok s \<Longrightarrow> 0 \<le> n \<Longrightarrow> - (2 ^ 31) \<le> level s - n \<Longrightarrow> ok (spend s n)"
    and spend_level: "ok s \<Longrightarrow> 0 \<le> n \<Longrightarrow> - (2 ^ 31) \<le> level s - n \<Longrightarrow> level (spend s n) = level s - n"
    and spend_cfg: "ok s \<Longrightarrow> 0 \<le> n \<Longrightarrow> - (2 ^ 31) \<le> level s - n \<Longrightarrow> cap (spend s n) = cap s"
      "ok s \<Longrightarrow> 0 \<le> n \<Longrightarrow> - (2 ^ 31) \<le> level s - n \<Longrightarrow> speed (spend s n) = speed s"
      "ok s \<Longrightarrow> 0 \<le> n \<Longrightarrow> - (2 ^ 31) \<le> level s - n \<Longrightarrow> stamp (spend s n) = stamp s"
begin

text \<open>Periods between two times, counted in one piece or in two.\<close>

lemma periods_split:
  assumes "ok s" "stamp s = of_nat t" "t \<le> u" "u \<le> v"
  shows "periods s (of_nat u) + (v - u) div period \<le> (v - t) div period"
proof -
  have "periods s (of_nat u) * period \<le> u - t"
    using periods_le [OF assms(1), of "of_nat u"] stamp_diff [OF assms(3)] assms(2) by simp
  then have "(v - u) + periods s (of_nat u) * period \<le> v - t" using assms(3,4) by linarith
  then have "((v - u) + periods s (of_nat u) * period) div period \<le> (v - t) div period" by (rule div_le_mono)
  then show ?thesis using period_pos by simp
qed

lemma conserved:
  assumes "ok s" "stamp s = of_nat t" "t \<le> u" "times_ordered u xs" "fits refill spend level xs s"
  shows "spent xs + level (run_ops refill spend xs s) \<le> level s + speed s * int ((end_time u xs - t) div period)"
  using assms
proof (induction xs arbitrary: s t u)
  case Nil
  then show ?case using speed_nonneg [OF Nil(1)] by simp
next
  case (Cons x xs)
  note ok = Cons.prems(1)
  show ?case
  proof (cases x)
    case (Refill v)
    let ?s = "refill s (of_nat v)" and ?g = "periods s (of_nat v)"
    have le: "t \<le> v" "u \<le> v" "v \<le> end_time v xs" using Cons.prems(3,4) Refill end_time_le by auto
    define t' where "t' = (if ?g = 0 then t else v)"
    have "stamp ?s = of_nat t'" "t' \<le> v" using refill_stamp [OF ok] Cons.prems(2) le by (auto simp: t'_def)
    then have IH: "spent xs + level (run_ops refill spend xs ?s) \<le> level ?s + speed s * int ((end_time v xs - t') div period)"
      using Cons.IH [OF refill_ok [OF ok], of "of_nat v" t' v] Cons.prems(4,5) Refill refill_cfg(2) [OF ok] by simp
    have "?g + (end_time v xs - t') div period \<le> (end_time v xs - t) div period"
      using periods_split [OF ok Cons.prems(2) le(1,3)] by (simp add: t'_def)
    then have "speed s * int (?g + (end_time v xs - t') div period) \<le> speed s * int ((end_time v xs - t) div period)"
      using speed_nonneg [OF ok] by (intro mult_left_mono) simp_all
    moreover have "level ?s \<le> level s + speed s * int ?g" using refill_level [OF ok] by simp
    ultimately show ?thesis using IH Refill by (simp add: distrib_left)
  next
    case (Spend n)
    then have n: "0 \<le> n" "- (2 ^ 31) \<le> level s - n" using Cons.prems(5) by auto
    show ?thesis
      using Cons.IH [OF spend_ok [OF ok n], of t u] Cons.prems Spend spend_level [OF ok n] spend_cfg [OF ok n] by simp
  qed
qed

lemma spent_bound:
  assumes "ok s" "stamp s = of_nat t" "times_ordered t xs" "fits refill spend level xs s"
  shows "spent xs + level (run_ops refill spend xs s) \<le> cap s + speed s * int ((end_time t xs - t) div period)"
  using conserved [OF assms(1,2) le_refl assms(3,4)] level_cap [OF assms(1)] by linarith

end

subsection \<open>Both buckets limit the rate\<close>

text \<open>
  The steps a refill counts: none when the clock seems to have gone back by at most five minutes.
\<close>

definition elapsed_of :: "uint32 \<Rightarrow> uint32 \<Rightarrow> uint32" where
  "elapsed_of now prev = (if now - prev > - 1 - 300 * 1000 then 0 else now - prev)"

definition ctr_ok :: "token_bucket_ctr_t \<Rightarrow> bool" where
  "ctr_ok b \<longleftrightarrow> cfg_ok (ctr_cfg b) \<and> level_ok (ctr_cfg b) (ctr_counter b)"

definition ctr_credit :: "token_bucket_ctr_t \<Rightarrow> uint32 \<Rightarrow> int" where
  "ctr_credit b now = int (unat (rate (ctr_cfg b))) * int (unat (elapsed_of now (ctr_last_refilled b)))"

definition ctr_refill :: "token_bucket_ctr_t \<Rightarrow> uint32 \<Rightarrow> token_bucket_ctr_t" where
  "ctr_refill b now = (case token_bucket_ctr_refill b now of None \<Rightarrow> b | Some b' \<Rightarrow> b')"

lemma dec_level:
  "cfg_ok cfg \<Longrightarrow> level_ok cfg b \<Longrightarrow> 0 \<le> n \<Longrightarrow> - (2 ^ 31) \<le> b - n \<Longrightarrow> token_bucket_raw_dec b n = (b - n, b > 0 \<and> n \<ge> b)"
  by (simp add: token_bucket_raw_dec_def to_int32_id cfg_ok_def level_ok_def TOKEN_BUCKET_MAX_BURST_def)

lemma product_nonneg: "0 \<le> int (unat x) * int (unat y)"
  by (rule mult_nonneg_nonneg) (rule of_nat_0_le_iff)+

lemma ctr_refill_eq:
  assumes "ctr_ok b"
  shows "ctr_refill b now = (if now - ctr_last_refilled b > - 1 - 300 * 1000 then b
    else b\<lparr>ctr_counter := min (burst (ctr_cfg b)) (ctr_counter b + ctr_credit b now), ctr_last_refilled := now\<rparr>)"
  using assms refill_steps_level [of "ctr_cfg b" "ctr_counter b" "now - ctr_last_refilled b"]
  by (auto simp: ctr_refill_def token_bucket_ctr_refill_def ctr_ok_def ctr_credit_def elapsed_of_def Let_def)

interpretation ctr: rate_limiter ctr_ok ctr_counter "\<lambda>b. burst (ctr_cfg b)" "\<lambda>b. int (unat (rate (ctr_cfg b)))" ctr_last_refilled
  "\<lambda>b now. unat (elapsed_of now (ctr_last_refilled b))" 1 ctr_refill "\<lambda>b n. fst (token_bucket_ctr_dec b n)"
proof
  fix b :: token_bucket_ctr_t and now :: uint32 and n :: int
  assume ok: "ctr_ok b"
  note parts = ok [unfolded ctr_ok_def cfg_ok_def level_ok_def]
  have c: "0 \<le> ctr_credit b now" unfolding ctr_credit_def by (rule product_nonneg)
  show "ctr_counter b \<le> burst (ctr_cfg b)" using parts by simp
  show "ctr_ok (ctr_refill b now)"
    using parts c by (auto simp: ctr_refill_eq [OF ok] ctr_ok_def cfg_ok_def level_ok_def)
  show "ctr_counter (ctr_refill b now) =
      min (burst (ctr_cfg b)) (ctr_counter b + int (unat (rate (ctr_cfg b))) * int (unat (elapsed_of now (ctr_last_refilled b))))"
    using parts by (auto simp: ctr_refill_eq [OF ok] ctr_credit_def elapsed_of_def)
  show "ctr_last_refilled (ctr_refill b now) = (if unat (elapsed_of now (ctr_last_refilled b)) = 0 then ctr_last_refilled b else now)"
    by (auto simp: ctr_refill_eq [OF ok] elapsed_of_def unsigned_eq_0_iff)
  assume n: "0 \<le> n" "- (2 ^ 31) \<le> ctr_counter b - n"
  have dec: "fst (token_bucket_ctr_dec b n) = b\<lparr>ctr_counter := ctr_counter b - n\<rparr>"
    using ok n dec_level [of "ctr_cfg b" "ctr_counter b" n] by (simp add: token_bucket_ctr_dec_def ctr_ok_def)
  show "ctr_ok (fst (token_bucket_ctr_dec b n))" "ctr_counter (fst (token_bucket_ctr_dec b n)) = ctr_counter b - n"
    "burst (ctr_cfg (fst (token_bucket_ctr_dec b n))) = burst (ctr_cfg b)"
    "int (unat (rate (ctr_cfg (fst (token_bucket_ctr_dec b n))))) = int (unat (rate (ctr_cfg b)))"
    "ctr_last_refilled (fst (token_bucket_ctr_dec b n)) = ctr_last_refilled b"
    unfolding dec using parts n by (auto simp: ctr_ok_def cfg_ok_def level_ok_def)
qed (simp_all add: ctr_refill_eq elapsed_of_def)

definition rw_ok :: "token_bucket_rw_t \<Rightarrow> bool" where
  "rw_ok b \<longleftrightarrow> cfg_ok (rw_cfg b) \<and> level_ok (rw_cfg b) (read_bucket b) \<and> level_ok (rw_cfg b) (write_bucket b)"

definition rw_steps :: "token_bucket_rw_t \<Rightarrow> uint32 \<Rightarrow> uint32" where
  "rw_steps b now = elapsed_of now (rw_last_refilled b) div of_nat TICKS_PER_STEP"

definition rw_credit :: "token_bucket_rw_t \<Rightarrow> uint32 \<Rightarrow> int" where
  "rw_credit b now = int (unat (rate (rw_cfg b))) * int (unat (rw_steps b now))"

definition rw_refill :: "token_bucket_rw_t \<Rightarrow> uint32 \<Rightarrow> token_bucket_rw_t" where
  "rw_refill b now = (case token_bucket_rw_refill b now of None \<Rightarrow> b | Some (b', _) \<Rightarrow> b')"

lemma rw_refill_full:
  assumes "rw_ok b"
  shows "token_bucket_rw_refill b now =
    (if rw_steps b now = 0 then Some (b, False, False)
     else let r = min (burst (rw_cfg b)) (read_bucket b + rw_credit b now);
              w = min (burst (rw_cfg b)) (write_bucket b + rw_credit b now)
          in Some (b\<lparr>read_bucket := r, write_bucket := w, rw_last_refilled := now\<rparr>,
               read_bucket b \<le> 0 \<and> r > 0, write_bucket b \<le> 0 \<and> w > 0))"
proof (cases "now - rw_last_refilled b > - 1 - 300 * 1000")
  case True
  then show ?thesis by (simp add: token_bucket_rw_refill_def rw_steps_def elapsed_of_def Let_def)
next
  case False
  then have st: "rw_steps b now = (now - rw_last_refilled b) div of_nat TICKS_PER_STEP"
    by (simp add: rw_steps_def elapsed_of_def)
  obtain fr fw where
    "token_bucket_raw_refill_steps (read_bucket b) (rw_cfg b) (rw_steps b now) =
       Some (min (burst (rw_cfg b)) (read_bucket b + rw_credit b now), fr)"
    "fr \<longleftrightarrow> read_bucket b \<le> 0 \<and> min (burst (rw_cfg b)) (read_bucket b + rw_credit b now) > 0"
    "token_bucket_raw_refill_steps (write_bucket b) (rw_cfg b) (rw_steps b now) =
       Some (min (burst (rw_cfg b)) (write_bucket b + rw_credit b now), fw)"
    "fw \<longleftrightarrow> write_bucket b \<le> 0 \<and> min (burst (rw_cfg b)) (write_bucket b + rw_credit b now) > 0"
    using assms refill_steps_level [of "rw_cfg b" "read_bucket b" "rw_steps b now"]
      refill_steps_level [of "rw_cfg b" "write_bucket b" "rw_steps b now"]
    unfolding rw_ok_def rw_credit_def by blast
  then show ?thesis using False by (simp add: token_bucket_rw_refill_def Let_def flip: st)
qed

lemma rw_refill_eq:
  assumes "rw_ok b"
  shows "rw_refill b now = (if rw_steps b now = 0 then b
    else b\<lparr>read_bucket := min (burst (rw_cfg b)) (read_bucket b + rw_credit b now),
           write_bucket := min (burst (rw_cfg b)) (write_bucket b + rw_credit b now), rw_last_refilled := now\<rparr>)"
  by (simp add: rw_refill_def rw_refill_full [OF assms] Let_def)

lemma rw_dec_read_eq:
  assumes "rw_ok b" "0 \<le> n" "- (2 ^ 31) \<le> read_bucket b - n"
  shows "fst (token_bucket_rw_dec_read b n) = b\<lparr>read_bucket := read_bucket b - n\<rparr>"
  using assms dec_level [of "rw_cfg b" "read_bucket b" n] by (simp add: token_bucket_rw_dec_read_def rw_ok_def)

interpretation rw_read: rate_limiter rw_ok read_bucket "\<lambda>b. burst (rw_cfg b)" "\<lambda>b. int (unat (rate (rw_cfg b)))" rw_last_refilled
  "\<lambda>b now. unat (rw_steps b now)" TICKS_PER_STEP rw_refill "\<lambda>b n. fst (token_bucket_rw_dec_read b n)"
proof
  fix b :: token_bucket_rw_t and now :: uint32 and n :: int
  show "0 < TICKS_PER_STEP" by (simp add: TICKS_PER_STEP_def)
  assume ok: "rw_ok b"
  note parts = ok [unfolded rw_ok_def cfg_ok_def level_ok_def]
  have c: "0 \<le> rw_credit b now" unfolding rw_credit_def by (rule product_nonneg)
  show "read_bucket b \<le> burst (rw_cfg b)" using parts by simp
  show "0 \<le> int (unat (rate (rw_cfg b)))" by simp
  show "unat (rw_steps b now) * TICKS_PER_STEP \<le> unat (now - rw_last_refilled b)"
    by (simp add: rw_steps_def elapsed_of_def TICKS_PER_STEP_def unat_div)
  show "rw_ok (rw_refill b now)"
    using parts c by (auto simp: rw_refill_eq [OF ok] rw_ok_def cfg_ok_def level_ok_def)
  show "read_bucket (rw_refill b now) =
      min (burst (rw_cfg b)) (read_bucket b + int (unat (rate (rw_cfg b))) * int (unat (rw_steps b now)))"
    using parts by (auto simp: rw_refill_eq [OF ok] rw_credit_def)
  show "rw_last_refilled (rw_refill b now) = (if unat (rw_steps b now) = 0 then rw_last_refilled b else now)"
    by (simp add: rw_refill_eq [OF ok] unsigned_eq_0_iff)
  show "burst (rw_cfg (rw_refill b now)) = burst (rw_cfg b)"
    "int (unat (rate (rw_cfg (rw_refill b now)))) = int (unat (rate (rw_cfg b)))" by (simp_all add: rw_refill_eq [OF ok])
  assume n: "0 \<le> n" "- (2 ^ 31) \<le> read_bucket b - n"
  show "rw_ok (fst (token_bucket_rw_dec_read b n))" "read_bucket (fst (token_bucket_rw_dec_read b n)) = read_bucket b - n"
    "burst (rw_cfg (fst (token_bucket_rw_dec_read b n))) = burst (rw_cfg b)"
    "int (unat (rate (rw_cfg (fst (token_bucket_rw_dec_read b n))))) = int (unat (rate (rw_cfg b)))"
    "rw_last_refilled (fst (token_bucket_rw_dec_read b n)) = rw_last_refilled b"
    unfolding rw_dec_read_eq [OF ok n] using parts n by (auto simp: rw_ok_def cfg_ok_def level_ok_def)
qed

subsection \<open>Properties\<close>

text \<open>
  C20. The refill is exact saturating arithmetic. For every level the code can hold, also a negative
  one, \<^verbatim>\<open>token_bucket_raw_refill_steps\<close> computes the minimum of the burst and of level plus rate times
  elapsed steps, although its intermediate results wrap at 32 and 64 bits, and it reports exactly
  the change from empty to non-empty.
\<close>

theorem token_bucket_refill_exact:
  assumes "cfg_ok cfg" "level_ok cfg b"
  shows "token_bucket_raw_refill_steps b cfg elapsed =
    (let level = min (burst cfg) (b + int (unat (rate cfg)) * int (unat elapsed))
     in Some (level, b \<le> 0 \<and> level > 0))"
  using refill_steps_level [OF assms, of elapsed] by (auto simp: Let_def)

theorem token_bucket_refill_exact_witness:
  "token_bucket_raw_refill_steps (-2000000000) (token_bucket_cfg_init 1000000 3000000000) 4000 =
     Some (2000000000, True)"
proof -
  have "cfg_ok (token_bucket_cfg_init 1000000 3000000000)"
    "level_ok (token_bucket_cfg_init 1000000 3000000000) (-2000000000)"
    by (simp_all add: cfg_ok_def level_ok_def token_bucket_cfg_init_def TOKEN_BUCKET_MAX_BURST_def)
  from token_bucket_refill_exact [OF this, of 4000] show ?thesis
    by (simp add: token_bucket_cfg_init_def TOKEN_BUCKET_MAX_BURST_def)
qed

text \<open>
  C21. Rate limiting over time. A bucket was last refilled at time \<open>t\<close>; refills and reads follow in any
  order, the times never decrease, and no read takes the level below the least 32-bit integer. Then the bytes read, less
  what the bucket has been overdrawn, are at most the burst plus the rate times the whole steps of 16 ticks
  between \<open>t\<close> and the last refill: no time is credited twice, also when the 32-bit stamps wrap around.
  With a level that is not negative at the end, this bounds the bytes read.
\<close>

theorem token_bucket_rw_limits:
  assumes "rw_ok b" "rw_last_refilled b = of_nat t" "times_ordered t ops"
    and "fits rw_refill (\<lambda>b n. fst (token_bucket_rw_dec_read b n)) read_bucket ops b"
  shows "spent ops + read_bucket (run_ops rw_refill (\<lambda>b n. fst (token_bucket_rw_dec_read b n)) ops b) \<le>
    burst (rw_cfg b) + int (unat (rate (rw_cfg b))) * int ((end_time t ops - t) div TICKS_PER_STEP)"
  by (rule rw_read.spent_bound [OF assms])

definition demo_bucket :: token_bucket_rw_t where
  "demo_bucket = token_bucket_rw_init 100000 500 0"

lemma demo_bucket: "demo_bucket = \<lparr>rw_cfg = \<lparr>rate = 1678, burst = 500\<rparr>, read_bucket = 500, write_bucket = 500, rw_last_refilled = 0\<rparr>"
  by (simp add: demo_bucket_def token_bucket_rw_init_def token_bucket_rw_adjust_def token_bucket_rw_reset_def
      token_bucket_cfg_init_def token_bucket_raw_reset_def rate_per_sec_to_rate_per_step_def
      TOKEN_BUCKET_MAX_BURST_def monotime_coarse_stamp_units_to_approx_msec_def TICKS_PER_STEP_def
      STAMP_TICKS_PER_SECOND_def Let_def)

lemma demo_bucket_ok: "rw_ok demo_bucket"
  by (simp add: demo_bucket rw_ok_def cfg_ok_def level_ok_def TOKEN_BUCKET_MAX_BURST_def)

text \<open>A bucket that is overdrawn, refilled twice, and read again.\<close>

theorem token_bucket_rw_limits_witness:
  "spent [Spend 900, Refill 20, Refill 40, Spend 100] +
     read_bucket (run_ops rw_refill (\<lambda>b n. fst (token_bucket_rw_dec_read b n)) [Spend 900, Refill 20, Refill 40, Spend 100] demo_bucket) \<le>
   500 + 1678 * int (40 div 16)"
proof -
  have "fits rw_refill (\<lambda>b n. fst (token_bucket_rw_dec_read b n)) read_bucket [Spend 900, Refill 20, Refill 40, Spend 100] demo_bucket"
    by (simp add: demo_bucket rw_refill_def token_bucket_rw_refill_def token_bucket_rw_dec_read_def token_bucket_raw_dec_def
        token_bucket_raw_refill_steps_def to_int32_def TICKS_PER_STEP_def Let_def)
  from token_bucket_rw_limits [OF demo_bucket_ok, of 0, OF _ _ this] show ?thesis
    by (simp add: demo_bucket TICKS_PER_STEP_def)
qed

text \<open>The same bound for the bucket with a single counter, which is credited for every tick.\<close>

theorem token_bucket_ctr_limits:
  assumes "ctr_ok b" "ctr_last_refilled b = of_nat t" "times_ordered t ops"
    and "fits ctr_refill (\<lambda>b n. fst (token_bucket_ctr_dec b n)) ctr_counter ops b"
  shows "spent ops + ctr_counter (run_ops ctr_refill (\<lambda>b n. fst (token_bucket_ctr_dec b n)) ops b) \<le>
    burst (ctr_cfg b) + int (unat (rate (ctr_cfg b))) * int (end_time t ops - t)"
  using ctr.spent_bound [OF assms] by simp

end
