(* ===== verification/Binascii.thy ===== *)
theory Binascii
  imports Strings
begin

text \<open>
  Base64 of \<^verbatim>\<open>src/BADNET/src/lib/encoding/binascii.c\<close>. The bit accumulator of the base64
  loops is the 32-bit word of the code. A result \<open>None\<close> is the return value -1.
\<close>

unbundle bit_operations_syntax

subsection \<open>Base64 encoding\<close>

definition BASE64_OPENSSL_LINELEN :: nat where "BASE64_OPENSSL_LINELEN = 64"

definition ceil_div :: "nat \<Rightarrow> nat \<Rightarrow> nat" where
  "ceil_div a b = (a + (b - 1)) div b"

text \<open>The size without the NUL; \<open>None\<close> when one of the three assertions fails.\<close>

definition base64_encode_size :: "nat \<Rightarrow> bool \<Rightarrow> nat option" where
  "base64_encode_size srclen multiline =
     (if \<not> int srclen < INT32_MAX \<or> \<not> int (ceil_div srclen 3) < INT32_MAX div 4 then None
      else let blen = ceil_div srclen 3 * 4;
               enclen = (if multiline then blen + ceil_div blen BASE64_OPENSSL_LINELEN else blen)
           in if int enclen < INT32_MAX \<and> (enclen = 0 \<or> enclen > srclen) then Some enclen else None)"

text \<open>
  The assertion \<^verbatim>\<open>srclen < INT_MAX / 3\<close> of \<^verbatim>\<open>base64_decode_maxsize\<close> is left out: the only caller, the
  tokenizer, has already refused objects longer than \<^verbatim>\<open>MAX_UNPARSED_OBJECT_SIZE\<close>.
\<close>

definition base64_decode_maxsize :: "nat \<Rightarrow> nat" where
  "base64_decode_maxsize srclen = ceil_div (srclen * 3) 4"

definition base64_encode_table :: string where
  "base64_encode_table = ''ABCDEFGHIJKLMNOPQRSTUVWXYZabcdefghijklmnopqrstuvwxyz0123456789+/''"

definition encode_n :: "uint32 \<Rightarrow> nat \<Rightarrow> char" where
  "encode_n n idx = base64_encode_table ! unat (drop_bit ((3 - idx) * 6) n AND 0x3f)"

text \<open>The loop over the source bytes, and the final \<^verbatim>\<open>switch\<close> on the leftover bytes.\<close>

fun encode_loop :: "uint32 \<Rightarrow> nat \<Rightarrow> byte list \<Rightarrow> string" where
  "encode_loop n n_idx (b # bs) =
     (let n' = push_bit 8 n OR ucast b
      in if n_idx + 1 = 3
         then [encode_n n' 0, encode_n n' 1, encode_n n' 2, encode_n n' 3] @ encode_loop 0 0 bs
         else encode_loop n' (n_idx + 1) bs)"
| "encode_loop n n_idx [] =
     (if n_idx = 1 then
        (let m = push_bit 4 n in [encode_n m 2, encode_n m 3, CHR ''='', CHR ''=''])
      else if n_idx = 2 then
        (let m = push_bit 2 n in [encode_n m 1, encode_n m 2, encode_n m 3, CHR ''=''])
      else [])"

text \<open>The \<^verbatim>\<open>ENCODE_CHAR\<close> macro with \<^verbatim>\<open>BASE64_ENCODE_MULTILINE\<close>, and the final newline.\<close>

fun encode_chars :: "nat \<Rightarrow> string \<Rightarrow> string" where
  "encode_chars linelen (c # cs) =
     (if (linelen + 1) mod BASE64_OPENSSL_LINELEN = 0
      then c # NL # encode_chars 0 cs
      else c # encode_chars (linelen + 1) cs)"
| "encode_chars linelen [] = (if linelen \<noteq> 0 then [NL] else [])"

text \<open>
  \<open>None\<close> is the result \<open>-1\<close>, and also a failed assertion of \<^verbatim>\<open>base64_encode_size\<close>; the test
  \<^verbatim>\<open>enclen > INT_MAX\<close> repeats the last of these assertions.
\<close>

definition base64_encode :: "nat \<Rightarrow> byte list \<Rightarrow> bool \<Rightarrow> string option" where
  "base64_encode destlen src multiline =
     (case base64_encode_size (length src) multiline of
        None \<Rightarrow> None
      | Some enclen \<Rightarrow>
          if destlen < enclen + 1 then None
          else if destlen > SIZE_T_CEILING then None
          else let cs = encode_loop 0 0 src
               in Some (if multiline then encode_chars 0 cs else cs))"

definition base64_encode_nopad :: "nat \<Rightarrow> byte list \<Rightarrow> string option" where
  "base64_encode_nopad destlen src =
     map_option (filter (\<lambda>c. \<not> (c = CHR ''='' \<or> c = NL))) (base64_encode destlen src False)"

text \<open>
  \<^verbatim>\<open>digest256_to_base64\<close> of \<^verbatim>\<open>crypto_format.c\<close> encodes into a buffer of 256 bytes of its own, asserts the
  length and copies the 43 characters to the caller; it is all of \<^verbatim>\<open>ed25519_public_to_base64\<close>.
\<close>

definition BASE64_DIGEST256_LEN :: nat where "BASE64_DIGEST256_LEN = 43"

definition digest256_to_base64 :: "byte list \<Rightarrow> string option" where
  "digest256_to_base64 digest =
     (case base64_encode_nopad 256 (take 32 digest) of
        None \<Rightarrow> None
      | Some buf \<Rightarrow> if length buf = BASE64_DIGEST256_LEN then Some buf else None)"

definition ed25519_public_to_base64 :: "byte list \<Rightarrow> string option" where
  "ed25519_public_to_base64 pubkey = digest256_to_base64 pubkey"

subsection \<open>Base64 decoding\<close>

datatype base64_class = Invalid | Space | Pad | Value nat

definition base64_decode_table :: "char \<Rightarrow> base64_class" where
  "base64_decode_table c =
     (let n = (of_char c :: nat)
      in if n \<in> {9, 10, 11, 13, 32} then Space
         else if n = 43 then Value 62 else if n = 47 then Value 63
         else if 48 \<le> n \<and> n \<le> 57 then Value (n + 4)
         else if n = 61 then Pad
         else if 65 \<le> n \<and> n \<le> 90 then Value (n - 65)
         else if 97 \<le> n \<and> n \<le> 122 then Value (n - 71)
         else Invalid)"

definition decode_finish :: "nat \<Rightarrow> uint32 \<Rightarrow> nat \<Rightarrow> byte list \<Rightarrow> byte list option" where
  "decode_finish destlen n n_idx out =
     (if n_idx = 1 then None
      else if n_idx = 2 then
        (if destlen < 1 \<or> length out > destlen - 1 then None
         else Some (out @ [ucast (drop_bit 4 n)]))
      else if n_idx = 3 then
        (if destlen < 2 \<or> length out > destlen - 2 then None
         else Some (out @ [ucast (drop_bit 10 n), ucast (drop_bit 2 n)]))
      else Some out)"

fun decode_loop :: "nat \<Rightarrow> uint32 \<Rightarrow> nat \<Rightarrow> byte list \<Rightarrow> string \<Rightarrow> byte list option" where
  "decode_loop destlen n n_idx out [] = decode_finish destlen n n_idx out"
| "decode_loop destlen n n_idx out (c # cs) =
     (case base64_decode_table c of
        Invalid \<Rightarrow> None
      | Space \<Rightarrow> decode_loop destlen n n_idx out cs
      | Pad \<Rightarrow> decode_finish destlen n n_idx out
      | Value v \<Rightarrow>
          (let n' = push_bit 6 n OR of_nat v
           in if n_idx + 1 = 4 then
                (if destlen < 3 \<or> length out > destlen - 3 then None
                 else decode_loop destlen 0 0
                        (out @ [ucast (drop_bit 16 n'), ucast (drop_bit 8 n' AND 0xff), ucast (n' AND 0xff)]) cs)
              else decode_loop destlen n' (n_idx + 1) out cs))"

definition base64_decode :: "nat \<Rightarrow> string \<Rightarrow> byte list option" where
  "base64_decode destlen src =
     (if int destlen > INT32_MAX then None else decode_loop destlen 0 0 [] src)"

subsection \<open>The accumulator as a number\<close>

lemma push_or_nat: "b < 2 ^ k \<Longrightarrow> push_bit k a OR b = a * 2 ^ k + b" for a b :: nat
proof -
  assume "b < 2 ^ k"
  then have b: "take_bit k b = b" by (simp add: take_bit_nat_eq_self)
  have "push_bit k a AND take_bit k b = 0" by (rule bit_eqI) (auto simp: bit_simps)
  then have "push_bit k a OR take_bit k b = push_bit k a + take_bit k b"
    by (rule disjunctive_add_eq_or [symmetric])
  then show ?thesis by (simp add: b push_bit_eq_mult)
qed

lemma unat_push_bit:
  fixes n :: uint32
  assumes "unat n * 2 ^ k < 2 ^ 32"
  shows "unat (push_bit k n) = push_bit k (unat n)"
  unfolding unsigned_push_bit_eq using assms by (simp add: take_bit_nat_eq_self push_bit_eq_mult)

lemma unat_shift_or:
  fixes n v :: uint32
  assumes "unat v < 2 ^ k" "unat n * 2 ^ k < 2 ^ 32"
  shows "unat (push_bit k n OR v) = unat n * 2 ^ k + unat v"
  unfolding unsigned_or_eq unat_push_bit [OF assms(2)] by (rule push_or_nat [OF assms(1)])

lemma unat_field:
  fixes n :: uint32
  shows "unat (drop_bit k n AND 0x3f) = unat n div 2 ^ k mod 64"
proof -
  have "drop_bit k n AND 0x3f = take_bit 6 (drop_bit k n)"
    by (simp add: take_bit_eq_mask mask_eq_exp_minus_1)
  then have "unat (drop_bit k n AND 0x3f) = take_bit 6 (unat (drop_bit k n))"
    by (simp only: unsigned_take_bit_eq)
  then show ?thesis by (simp add: unat_drop_bit take_bit_eq_mod)
qed

lemma ucast_byte: "(ucast (drop_bit k w :: uint32) :: byte) = of_nat (unat w div 2 ^ k)"
proof -
  have "(ucast (drop_bit k w) :: byte) = of_nat (unat (drop_bit k w))" by simp
  then show ?thesis by (simp only: unat_drop_bit)
qed

lemma ucast_and_ff: "(ucast (w AND 0xff :: uint32) :: byte) = ucast w"
proof -
  have "w AND 0xff = take_bit 8 w" by (simp add: take_bit_eq_mask mask_eq_exp_minus_1)
  then show ?thesis by (simp add: bit_eq_iff bit_simps)
qed

subsection \<open>Base64 round trip\<close>

lemma decode_encode_table:
  assumes "k < 64"
  shows "base64_decode_table (base64_encode_table ! k) = Value k"
proof -
  have "map base64_decode_table base64_encode_table = map Value [0 ..< 64]"
    by (simp add: base64_encode_table_def base64_decode_table_def upt_conv_Cons)
  moreover have "length base64_encode_table = 64" by (simp add: base64_encode_table_def)
  ultimately show ?thesis using assms by (metis length_map nth_map nth_upt add.left_neutral diff_zero length_upt)
qed

lemma unat_byte_le: "unat (b :: byte) \<le> 255"
  using unat_byte_less [of b] by linarith

lemma acc8:
  assumes "unat n < 2 ^ 24"
  shows "unat (push_bit 8 n OR ucast (b :: byte) :: uint32) = unat n * 256 + unat b"
proof -
  have "unat b < 2 ^ 32" using unat_byte_less [of b] by (rule order.strict_trans) simp
  then have u: "unat (ucast b :: uint32) = unat b"
    by (simp add: unsigned_ucast_eq take_bit_nat_eq_self)
  have "unat (ucast b :: uint32) < 2 ^ 8" unfolding u by simp
  from unat_shift_or [OF this, of n] assms u show ?thesis by simp
qed

lemma acc6:
  assumes "unat n < 2 ^ 18" "v < 64"
  shows "unat (push_bit 6 n OR of_nat v :: uint32) = unat n * 64 + v"
proof -
  have u: "unat (of_nat v :: uint32) = v" using assms(2) by (simp add: unsigned_of_nat take_bit_nat_eq_self)
  show ?thesis using unat_shift_or [of "of_nat v" 6 n] assms u by simp
qed

lemma encode_n_nat: "encode_n n idx = base64_encode_table ! (unat n div 2 ^ ((3 - idx) * 6) mod 64)"
  by (simp only: encode_n_def unat_field)

lemma decode_step:
  "v < 64 \<Longrightarrow> n_idx < 3 \<Longrightarrow> decode_loop destlen n n_idx out (base64_encode_table ! v # cs) =
     decode_loop destlen (push_bit 6 n OR of_nat v) (Suc n_idx) out cs"
  by (simp add: decode_encode_table)

lemma decode_flush:
  "v < 64 \<Longrightarrow> length out + 3 \<le> destlen \<Longrightarrow> decode_loop destlen n 3 out (base64_encode_table ! v # cs) =
     (let n' = push_bit 6 n OR of_nat v
      in decode_loop destlen 0 0
           (out @ [ucast (drop_bit 16 n'), ucast (drop_bit 8 n' AND 0xff), ucast (n' AND 0xff)]) cs)"
  by (auto simp: decode_encode_table Let_def)

lemma decode_quad:
  assumes "v0 < 64" "v1 < 64" "v2 < 64" "v3 < 64" "length out + 3 \<le> destlen"
  defines "N \<equiv> ((v0 * 64 + v1) * 64 + v2) * 64 + v3"
  shows "decode_loop destlen 0 0 out (base64_encode_table ! v0 # base64_encode_table ! v1 #
           base64_encode_table ! v2 # base64_encode_table ! v3 # cs) =
         decode_loop destlen 0 0 (out @ [of_nat (N div 65536), of_nat (N div 256), of_nat N]) cs"
proof -
  let ?w0 = "push_bit 6 0 OR of_nat v0 :: uint32"
  let ?w1 = "push_bit 6 ?w0 OR of_nat v1 :: uint32"
  let ?w2 = "push_bit 6 ?w1 OR of_nat v2 :: uint32"
  let ?w3 = "push_bit 6 ?w2 OR of_nat v3 :: uint32"
  have u0: "unat ?w0 = v0" using acc6 [of 0 v0] assms by simp
  have u1: "unat ?w1 = v0 * 64 + v1" using acc6 [of ?w0 v1] assms u0 by simp
  have u2: "unat ?w2 = (v0 * 64 + v1) * 64 + v2" using acc6 [of ?w1 v2] assms u1 by simp
  have u3: "unat ?w3 = N" using acc6 [of ?w2 v3] assms u2 by simp
  have bytes: "(ucast (drop_bit 16 ?w3) :: byte) = of_nat (N div 65536)"
    "(ucast (drop_bit 8 ?w3 AND 0xff) :: byte) = of_nat (N div 256)"
    "(ucast (?w3 AND 0xff) :: byte) = of_nat N"
    using ucast_byte [of 16 ?w3] ucast_byte [of 8 ?w3] ucast_byte [of 0 ?w3] u3
    by (simp_all only: ucast_and_ff drop_bit_0 id_apply) simp_all
  have "decode_loop destlen 0 0 out (base64_encode_table ! v0 # base64_encode_table ! v1 #
           base64_encode_table ! v2 # base64_encode_table ! v3 # cs) =
        decode_loop destlen 0 0 (out @ [ucast (drop_bit 16 ?w3), ucast (drop_bit 8 ?w3 AND 0xff),
          ucast (?w3 AND 0xff)]) cs"
    using decode_step [OF assms(1), of 0 destlen 0 out] decode_step [OF assms(2), of 1 destlen ?w0 out]
      decode_step [OF assms(3), of 2 destlen ?w1 out] decode_flush [OF assms(4,5), of ?w2]
    by (simp only: Let_def One_nat_def Suc_1 numeral_2_eq_2 numeral_3_eq_3 zero_less_Suc Suc_less_eq)
  then show ?thesis by (simp only: bytes)
qed

text \<open>A full group of three bytes becomes four characters and comes back.\<close>

definition triple_chars :: "byte \<Rightarrow> byte \<Rightarrow> byte \<Rightarrow> string" where
  "triple_chars a b c =
     (let N = (unat a * 256 + unat b) * 256 + unat c
      in [base64_encode_table ! (N div 262144), base64_encode_table ! (N div 4096 mod 64),
          base64_encode_table ! (N div 64 mod 64), base64_encode_table ! (N mod 64)])"

lemma encode_triple: "encode_loop 0 0 (a # b # c # bs) = triple_chars a b c @ encode_loop 0 0 bs"
proof -
  let ?w0 = "push_bit 8 0 OR ucast a :: uint32"
  let ?w1 = "push_bit 8 ?w0 OR ucast b :: uint32"
  let ?w2 = "push_bit 8 ?w1 OR ucast c :: uint32"
  have u0: "unat ?w0 = unat a" using acc8 [of 0 a] by simp
  have u1: "unat ?w1 = unat a * 256 + unat b"
    using acc8 [of ?w0 b] u0 unat_byte_le [of a] by simp
  have lt: "unat a * 256 + unat b < 2 ^ 16" using unat_byte_le [of a] unat_byte_le [of b] by simp
  have u2: "unat ?w2 = (unat a * 256 + unat b) * 256 + unat c"
    using acc8 [of ?w1 c] u1 lt by simp
  have top: "((unat a * 256 + unat b) * 256 + unat c) div 262144 < 64"
    using lt unat_byte_le [of c] by simp
  have "encode_loop 0 0 (a # b # c # bs) =
      [encode_n ?w2 0, encode_n ?w2 1, encode_n ?w2 2, encode_n ?w2 3] @ encode_loop 0 0 bs"
    by (simp add: Let_def)
  also have "[encode_n ?w2 0, encode_n ?w2 1, encode_n ?w2 2, encode_n ?w2 3] = triple_chars a b c"
    unfolding triple_chars_def encode_n_nat u2 Let_def using top by simp
  finally show ?thesis .
qed

lemma sextets: "((N div 262144 * 64 + N div 4096 mod 64) * 64 + N div 64 mod 64) * 64 + N mod 64 = (N :: nat)"
proof -
  have "N div 4096 = N div 262144 * 64 + N div 4096 mod 64"
    using div_mult_mod_eq [of "N div 4096" 64] by (simp add: div_mult2_eq [symmetric])
  moreover have "N div 64 = N div 4096 * 64 + N div 64 mod 64"
    using div_mult_mod_eq [of "N div 64" 64] by (simp add: div_mult2_eq [symmetric])
  moreover have "N = N div 64 * 64 + N mod 64" by simp
  ultimately show ?thesis by presburger
qed

lemma triple_bytes:
  fixes a b c :: byte
  defines "N \<equiv> (unat a * 256 + unat b) * 256 + unat c"
  shows "[of_nat (N div 65536), of_nat (N div 256), of_nat N] = [a, b, c]"
proof -
  have d: "N div 256 = unat a * 256 + unat b" "N div 65536 = unat a"
    unfolding N_def using unat_byte_le [of c] unat_byte_le [of b] by (simp_all add: less_Suc_eq_le)
  have z: "(256 :: byte) = 0" by simp
  have "(of_nat N :: byte) = of_nat (unat a * 256 + unat b) * 256 + of_nat (unat c)"
    unfolding N_def by (simp only: of_nat_add of_nat_mult of_nat_numeral)
  then have "(of_nat N :: byte) = c" by (simp only: z mult_zero_right add_0_left of_nat_unat ucast_id)
  moreover have "(of_nat (unat a * 256 + unat b) :: byte) = of_nat (unat a) * 256 + of_nat (unat b)"
    by (simp only: of_nat_add of_nat_mult of_nat_numeral)
  then have "(of_nat (unat a * 256 + unat b) :: byte) = b"
    by (simp only: z mult_zero_right add_0_left of_nat_unat ucast_id)
  ultimately show ?thesis by (simp only: d of_nat_unat ucast_id)
qed

lemma triple_bound:
  "((unat a * 256 + unat b) * 256 + unat (c :: byte)) div 262144 < 64" for a b :: byte
proof -
  have "(unat a * 256 + unat b) * 256 + unat c < 2 ^ 24"
    using unat_byte_le [of a] unat_byte_le [of b] unat_byte_le [of c] by simp
  then show ?thesis by simp
qed

lemma decode_triple_chars:
  assumes "length out + 3 \<le> destlen"
  shows "decode_loop destlen 0 0 out (triple_chars a b c @ cs) = decode_loop destlen 0 0 (out @ [a, b, c]) cs"
proof -
  define N where "N = (unat a * 256 + unat b) * 256 + unat c"
  have "N div 262144 < 64" unfolding N_def by (rule triple_bound)
  then show ?thesis
    using decode_quad [OF _ _ _ _ assms, of "N div 262144" "N div 4096 mod 64" "N div 64 mod 64" "N mod 64" cs]
      triple_bytes [of a b c, folded N_def]
    by (simp only: triple_chars_def Let_def sextets N_def [symmetric]) simp
qed

lemma table_char:
  assumes "v < 64"
  shows "base64_encode_table ! v \<noteq> CHR ''=''" "base64_encode_table ! v \<noteq> NL"
proof -
  have "base64_decode_table (CHR ''='') = Pad" "base64_decode_table NL = Space"
    by (simp_all add: base64_decode_table_def NL_def)
  then show "base64_encode_table ! v \<noteq> CHR ''=''" "base64_encode_table ! v \<noteq> NL"
    using decode_encode_table [OF assms] by (metis base64_class.distinct)+
qed

lemma decode_pad: "decode_loop destlen n n_idx out (CHR ''='' # cs) = decode_finish destlen n n_idx out"
  by (simp add: base64_decode_table_def)

lemma acc8_0: "push_bit 8 0 OR ucast a = (ucast a :: uint32)" for a :: byte
  by simp

lemma encode_one:
  "encode_loop 0 0 [a] = [base64_encode_table ! (unat a div 4), base64_encode_table ! (unat a * 16 mod 64),
     CHR ''='', CHR ''='']"
proof -
  have u: "unat (ucast a :: uint32) = unat a" using acc8 [of 0 a] by simp
  then have m: "unat (push_bit 4 (ucast a :: uint32)) = unat a * 16"
    using unat_push_bit [of "ucast a" 4] unat_byte_le [of a] by (simp add: push_bit_eq_mult)
  have "encode_loop 0 0 [a] = [encode_n (push_bit 4 (ucast a)) 2, encode_n (push_bit 4 (ucast a)) 3,
      CHR ''='', CHR ''='']"
    by (simp add: Let_def)
  then show ?thesis
    using unat_byte_le [of a] unfolding encode_n_nat m by simp
qed

lemma encode_two:
  "encode_loop 0 0 [a, b] = (let N = (unat a * 256 + unat b) * 4
     in [base64_encode_table ! (N div 4096), base64_encode_table ! (N div 64 mod 64),
         base64_encode_table ! (N mod 64), CHR ''=''])"
proof -
  let ?w = "push_bit 8 (ucast a) OR ucast b :: uint32"
  have u: "unat (ucast a :: uint32) = unat a" using acc8 [of 0 a] by simp
  have w: "unat ?w = unat a * 256 + unat b"
    using acc8 [of "ucast a" b] u unat_byte_le [of a] by simp
  have lt: "unat a * 256 + unat b < 2 ^ 16" using unat_byte_le [of a] unat_byte_le [of b] by simp
  then have m: "unat (push_bit 2 ?w) = (unat a * 256 + unat b) * 4"
    using unat_push_bit [of ?w 2] w by (simp add: push_bit_eq_mult)
  have "encode_loop 0 0 [a, b] = [encode_n (push_bit 2 ?w) 1, encode_n (push_bit 2 ?w) 2,
      encode_n (push_bit 2 ?w) 3, CHR ''='']"
    by (simp add: Let_def)
  then show ?thesis using lt unfolding encode_n_nat m Let_def by simp
qed

lemma decode_two_values:
  assumes "v0 < 64" "v1 < 64"
  shows "decode_loop destlen 0 0 out (base64_encode_table ! v0 # base64_encode_table ! v1 # cs) =
    decode_loop destlen (of_nat (v0 * 64 + v1)) 2 out cs"
proof -
  let ?w0 = "push_bit 6 0 OR of_nat v0 :: uint32"
  let ?w1 = "push_bit 6 ?w0 OR of_nat v1 :: uint32"
  have u0: "unat ?w0 = v0" using acc6 [of 0 v0] assms by simp
  have "unat ?w1 = v0 * 64 + v1" using acc6 [of ?w0 v1] assms u0 by simp
  then have "?w1 = of_nat (v0 * 64 + v1)" by (metis of_nat_unat ucast_id)
  then show ?thesis
    using decode_step [OF assms(1), of 0 destlen 0 out] decode_step [OF assms(2), of 1 destlen ?w0 out]
    by (simp only: One_nat_def Suc_1 numeral_2_eq_2 numeral_3_eq_3 zero_less_Suc Suc_less_eq)
qed

text \<open>Both at the end of the text and at a padding character the decoder finishes.\<close>

definition text_end :: "string \<Rightarrow> bool" where
  "text_end cs \<longleftrightarrow> cs = [] \<or> hd cs = CHR ''=''"

lemma decode_end: "text_end cs \<Longrightarrow> decode_loop destlen n n_idx out cs = decode_finish destlen n n_idx out"
  by (cases cs) (auto simp: text_end_def decode_pad simp del: decode_loop.simps(2))

lemma unat_small: "k < 2 ^ 32 \<Longrightarrow> unat (of_nat k :: uint32) = k"
  by (simp add: unsigned_of_nat take_bit_nat_eq_self)

lemma decode_encode_one:
  assumes "text_end cs" "length out + 1 \<le> destlen"
  shows "decode_loop destlen 0 0 out
      (base64_encode_table ! (unat a div 4) # base64_encode_table ! (unat a * 16 mod 64) # cs) = Some (out @ [a])"
proof -
  have lt: "unat a div 4 < 64" using unat_byte_le [of a] by simp
  have "unat a * 16 div 64 = unat a div 4" using div_mult_mult2 [of 16 "unat a" 4] by simp
  then have N: "unat a div 4 * 64 + unat a * 16 mod 64 = unat a * 16"
    using div_mult_mod_eq [of "unat a * 16" 64] by simp
  have u: "unat (of_nat (unat a * 16) :: uint32) = unat a * 16"
    using unat_byte_le [of a] by (intro unat_small) simp
  have "(ucast (drop_bit 4 (of_nat (unat a * 16)) :: uint32) :: byte) = of_nat (unat (of_nat (unat a * 16) :: uint32) div 2 ^ 4)"
    by (rule ucast_byte)
  also have "\<dots> = a" unfolding u by simp
  finally have "(ucast (drop_bit 4 (of_nat (unat a * 16)) :: uint32) :: byte) = a" .
  then show ?thesis
    using assms decode_two_values [OF lt, of "unat a * 16 mod 64" destlen out cs]
    by (simp only: N decode_end decode_finish_def) auto
qed

lemma decode_encode_two:
  fixes a b :: byte
  assumes "text_end cs" "length out + 2 \<le> destlen"
  defines "N \<equiv> (unat a * 256 + unat b) * 4"
  shows "decode_loop destlen 0 0 out
      (base64_encode_table ! (N div 4096) # base64_encode_table ! (N div 64 mod 64) #
       base64_encode_table ! (N mod 64) # cs) = Some (out @ [a, b])"
proof -
  let ?w = "push_bit 6 (of_nat (N div 4096 * 64 + N div 64 mod 64)) OR of_nat (N mod 64) :: uint32"
  have lt: "N < 2 ^ 18" unfolding N_def using unat_byte_le [of a] unat_byte_le [of b] by simp
  then have v: "N div 4096 < 64" by simp
  have N: "N div 4096 * 64 + N div 64 mod 64 = N div 64"
    using div_mult_mod_eq [of "N div 64" 64] by (simp add: div_mult2_eq [symmetric])
  have n64: "unat (of_nat (N div 64) :: uint32) = N div 64" using lt by (intro unat_small) simp
  have w: "unat ?w = N" using acc6 [of "of_nat (N div 64)" "N mod 64"] lt n64 by (simp add: N)
  have z: "(256 :: byte) = 0" by simp
  have "N div 4 = unat a * 256 + unat b" "N div 1024 = unat a"
    unfolding N_def using unat_byte_le [of b] by (simp_all add: less_Suc_eq_le)
  then have bytes: "(ucast (drop_bit 10 ?w) :: byte) = a" "(ucast (drop_bit 2 ?w) :: byte) = b"
    using ucast_byte [of 10 ?w] ucast_byte [of 2 ?w] w by (simp_all add: z)
  have "decode_loop destlen 0 0 out
      (base64_encode_table ! (N div 4096) # base64_encode_table ! (N div 64 mod 64) #
       base64_encode_table ! (N mod 64) # cs) = decode_loop destlen ?w (Suc 2) out cs"
    using decode_two_values [OF v, of "N div 64 mod 64" destlen out "base64_encode_table ! (N mod 64) # cs"]
      decode_step [of "N mod 64" 2 destlen _ out cs] by simp
  also have "\<dots> = decode_finish destlen ?w 3 out" using assms(1) by (simp only: decode_end) simp
  also have "\<dots> = Some (out @ [a, b])" using assms(2) by (simp only: decode_finish_def bytes) auto
  finally show ?thesis .
qed

lemma triples_cases [case_names none one two three]:
  assumes "bs = [] \<Longrightarrow> P" "\<And>a. bs = [a] \<Longrightarrow> P" "\<And>a b. bs = [a, b] \<Longrightarrow> P"
    and "\<And>a b c cs. bs = a # b # c # cs \<Longrightarrow> P"
  shows P
  using assms by (metis neq_Nil_conv)

text \<open>The characters that \<^verbatim>\<open>base64_encode_nopad\<close> keeps.\<close>

definition kept_char :: "char \<Rightarrow> bool" where
  "kept_char c \<longleftrightarrow> \<not> (c = CHR ''='' \<or> c = NL)"

lemma kept_table [simp]: "v < 64 \<Longrightarrow> kept_char (base64_encode_table ! v)"
  using table_char by (simp add: kept_char_def)

lemma decode_encode_loop:
  "length out + length bs \<le> destlen \<Longrightarrow>
     decode_loop destlen 0 0 out (encode_loop 0 0 bs) = Some (out @ bs) \<and>
     decode_loop destlen 0 0 out (filter kept_char (encode_loop 0 0 bs)) = Some (out @ bs)"
proof (induction bs arbitrary: out rule: length_induct)
  case (1 bs)
  show ?case
  proof (cases bs rule: triples_cases)
    case none
    then show ?thesis by (simp add: decode_finish_def)
  next
    case (one a)
    have "unat a div 4 < 64" using unat_byte_le [of a] by simp
    moreover have "text_end [CHR ''='', CHR ''='']" "text_end []" by (simp_all add: text_end_def)
    ultimately show ?thesis using one 1(2) decode_encode_one [of _ out destlen a]
      by (simp only: encode_one) (simp add: kept_char_def [of "CHR ''=''"] del: decode_loop.simps)
  next
    case (two a b)
    have "(unat a * 256 + unat b) * 4 < 2 ^ 18" using unat_byte_le [of a] unat_byte_le [of b] by simp
    then have "(unat a * 256 + unat b) * 4 div 4096 < 64" by simp
    moreover have "text_end [CHR ''='']" "text_end []" by (simp_all add: text_end_def)
    ultimately show ?thesis using two 1(2) decode_encode_two [of _ out destlen a b]
      by (simp only: encode_two Let_def) (simp add: kept_char_def [of "CHR ''=''"] del: decode_loop.simps)
  next
    case (three a b c cs)
    have 2: "length out + 3 \<le> destlen" using 1(2) three by simp
    have IH: "decode_loop destlen 0 0 (out @ [a, b, c]) (encode_loop 0 0 cs) = Some (out @ [a, b, c] @ cs)"
        "decode_loop destlen 0 0 (out @ [a, b, c]) (filter kept_char (encode_loop 0 0 cs)) = Some (out @ [a, b, c] @ cs)"
      using 1 three by simp_all
    have "filter kept_char (triple_chars a b c) = triple_chars a b c"
      using triple_bound [of a b c] by (simp add: triple_chars_def Let_def)
    then show ?thesis using IH decode_triple_chars [OF 2, of a b c] three
      by (simp only: encode_triple filter_append) simp
  qed
qed

lemma decode_encode_chars:
  "decode_loop destlen n n_idx out (encode_chars l cs) = decode_loop destlen n n_idx out cs"
proof -
  have nl: "base64_decode_table NL = Space" by (simp add: base64_decode_table_def NL_def)
  show ?thesis
    by (induction l cs arbitrary: n n_idx out rule: encode_chars.induct)
       (auto simp: nl Let_def split: base64_class.splits)
qed

lemma length_encode_loop: "length (encode_loop 0 0 bs) = ceil_div (length bs) 3 * 4"
proof (induction bs rule: length_induct)
  case (1 bs)
  show ?case
  proof (cases bs rule: triples_cases)
    case (three a b c cs)
    then have "length (encode_loop 0 0 cs) = ceil_div (length cs) 3 * 4" using 1 by simp
    moreover have "ceil_div (length bs) 3 = Suc (ceil_div (length cs) 3)"
      using three by (simp add: ceil_div_def)
    moreover have "length (encode_loop 0 0 bs) = 4 + length (encode_loop 0 0 cs)"
      unfolding three encode_triple by (simp add: triple_chars_def Let_def)
    ultimately show ?thesis by simp
  qed (simp_all add: ceil_div_def Let_def)
qed

lemma length_encode_chars:
  "l < 64 \<Longrightarrow> length (encode_chars l cs) = length cs + ceil_div (l + length cs) 64"
proof (induction l cs rule: encode_chars.induct)
  case (1 l c cs)
  show ?case
  proof (cases "l = 63")
    case True
    have "(126 + Suc (length cs)) div 64 = Suc ((63 + length cs) div 64)"
      using div_add_self2 [of 64 "63 + length cs"] by (simp add: ac_simps)
    then show ?thesis using 1 True by (simp add: BASE64_OPENSSL_LINELEN_def ceil_div_def)
  next
    case False
    then have "Suc l mod 64 \<noteq> 0" using 1(3) by (simp add: mod_Suc)
    then show ?thesis using 1 False by (simp add: BASE64_OPENSSL_LINELEN_def)
  qed
next
  case (2 l)
  then show ?case by (cases "l = 0") (auto simp: ceil_div_def intro!: sym [OF div_nat_eqI])
qed

lemma decode_loop_text:
  assumes "base64_encode m bs multiline = Some s \<or> base64_encode_nopad m bs = Some s" "length bs \<le> destlen"
  shows "decode_loop destlen 0 0 [] s = Some bs"
proof -
  have kept: "(\<lambda>c. \<not> (c = CHR ''='' \<or> c = NL)) = kept_char" by (auto simp: kept_char_def)
  have "s \<in> {encode_loop 0 0 bs, encode_chars 0 (encode_loop 0 0 bs), filter kept_char (encode_loop 0 0 bs)}"
    using assms(1) unfolding base64_encode_nopad_def kept
    by (auto simp: base64_encode_def Let_def split: if_splits option.splits)
  then show ?thesis
    using assms(2) decode_encode_loop [of "[]" bs destlen] by (auto simp: decode_encode_chars)
qed

lemma base64_decode_encode:
  assumes "length bs \<le> destlen" "int destlen \<le> INT32_MAX"
    and "base64_encode m bs multiline = Some s \<or> base64_encode_nopad m bs = Some s"
  shows "base64_decode destlen s = Some bs"
  using assms(2) decode_loop_text [OF assms(3,1)] by (simp add: base64_decode_def)

lemma encode_n_char: "encode_n n idx \<in> set base64_encode_table"
  unfolding encode_n_nat by (rule nth_mem) (simp add: base64_encode_table_def)

lemma encode_loop_chars: "set (encode_loop n n_idx bs) \<subseteq> insert (CHR ''='') (set base64_encode_table)"
  by (induction n n_idx bs rule: encode_loop.induct) (auto simp: Let_def encode_n_char split: if_splits)

lemma encode_chars_chars: "set (encode_chars l cs) \<subseteq> insert NL (set cs)"
  by (induction l cs rule: encode_chars.induct) auto

text \<open>What a word of base64 text is made of, in a form that excludes all separators.\<close>

definition base64_char :: "char \<Rightarrow> bool" where
  "base64_char c \<longleftrightarrow> c \<in> set base64_encode_table \<or> c = CHR ''=''"

lemma base64_text_chars:
  "base64_encode m bs False = Some s \<Longrightarrow> list_all base64_char s"
  "base64_encode_nopad m bs = Some s \<Longrightarrow> list_all base64_char s"
  "base64_encode m bs True = Some s \<Longrightarrow> list_all (\<lambda>c. base64_char c \<or> c = NL) s"
  using encode_loop_chars [of 0 0 bs] encode_chars_chars [of 0 "encode_loop 0 0 bs"]
  by (auto simp: base64_encode_def base64_encode_nopad_def base64_char_def list_all_iff Let_def
      split: if_splits option.splits)

text \<open>A larger destination changes nothing, and what is written always fits.\<close>

lemma decode_loop_grow:
  "decode_loop d n i out cs = Some x \<Longrightarrow> d \<le> d' \<Longrightarrow> decode_loop d' n i out cs = Some x"
proof (induction d n i out cs rule: decode_loop.induct)
  case (2 d n i out c cs)
  then show ?case by (auto simp: Let_def decode_finish_def split: base64_class.splits if_splits)
qed (auto simp: decode_finish_def split: if_splits)

lemma decode_loop_fits:
  "decode_loop d n i out cs = Some x \<Longrightarrow> length out \<le> d \<Longrightarrow> length x \<le> d"
proof (induction d n i out cs rule: decode_loop.induct)
  case (2 d n i out c cs)
  then show ?case by (auto simp: Let_def decode_finish_def split: base64_class.splits if_splits)
qed (auto simp: decode_finish_def split: if_splits)

lemma base64_decode_short:
  assumes "base64_encode m bs multiline = Some s \<or> base64_encode_nopad m bs = Some s" "destlen < length bs"
  shows "base64_decode destlen s = None"
proof (rule ccontr)
  assume "base64_decode destlen s \<noteq> None"
  then obtain x where small: "int destlen \<le> INT32_MAX" and x: "decode_loop destlen 0 0 [] s = Some x"
    by (auto simp: base64_decode_def split: if_splits)
  have "decode_loop (length bs) 0 0 [] s = Some bs" using assms(1) by (rule decode_loop_text) simp
  then have "x = bs" using decode_loop_grow [OF x, of "length bs"] assms(2) by simp
  then show False using decode_loop_fits [OF x] assms(2) by simp
qed

text \<open>
  C27. Base64 round trip: what \<^verbatim>\<open>base64_encode\<close> writes, on one line or on several, and what
  \<^verbatim>\<open>base64_encode_nopad\<close> writes, \<^verbatim>\<open>base64_decode\<close> reads back to the original bytes exactly when the
  destination has room for these bytes (and is not larger than \<^verbatim>\<open>INT_MAX\<close>), and refuses otherwise. The
  check of \<^verbatim>\<open>destlen\<close> is thus exact; note 1 of \<^verbatim>\<open>base64_decode\<close> announces a conservative one that counts
  spaces and padding as data.
\<close>

theorem base64_roundtrip:
  assumes "base64_encode m bs multiline = Some s \<or> base64_encode_nopad m bs = Some s"
  shows "base64_decode destlen s =
    (if length bs \<le> destlen \<and> int destlen \<le> INT32_MAX then Some bs else None)"
proof (cases "length bs \<le> destlen \<and> int destlen \<le> INT32_MAX")
  case True
  then show ?thesis using base64_decode_encode [OF _ _ assms] by simp
next
  case False
  then show ?thesis using base64_decode_short [OF assms] by (cases "destlen < length bs") (auto simp: base64_decode_def)
qed

lemma demo_base64: "base64_encode 10 [1, 255, 7, 16] True = Some (''Af8HEA=='' @ [NL])"
  by (simp add: base64_encode_def base64_encode_size_def ceil_div_def BASE64_OPENSSL_LINELEN_def
      encode_n_def base64_encode_table_def INT32_MAX_def SIZE_T_CEILING_def)

theorem base64_roundtrip_witness:
  "base64_encode 10 [1, 255, 7, 16] True = Some (''Af8HEA=='' @ [NL]) \<and>
   base64_decode 4 (''Af8HEA=='' @ [NL]) = Some [1, 255, 7, 16] \<and>
   base64_decode 3 (''Af8HEA=='' @ [NL]) = None"
  using base64_roundtrip [OF disjI1 [OF demo_base64], of 4] base64_roundtrip [OF disjI1 [OF demo_base64], of 3] demo_base64
  by (simp add: INT32_MAX_def)

lemma base64_encode_length:
  assumes "base64_encode destlen src multiline = Some s"
  shows "base64_encode_size (length src) multiline = Some (length s)" "length s + 1 \<le> destlen"
  using assms length_encode_loop [of src] length_encode_chars [of 0 "encode_loop 0 0 src"]
  by (auto simp: base64_encode_def base64_encode_size_def BASE64_OPENSSL_LINELEN_def Let_def split: if_splits option.splits)

text \<open>
  The size promised by \<^verbatim>\<open>base64_encode_size\<close> is exact: \<^verbatim>\<open>base64_encode\<close> writes that many characters,
  so its closing assertion holds, and the text with its NUL fits the destination.
\<close>

theorem base64_encode_fits:
  assumes "base64_encode destlen src multiline = Some s"
  shows "base64_encode_size (length src) multiline = Some (length s) \<and> length s + 1 \<le> destlen"
  using base64_encode_length [OF assms] by blast

theorem base64_encode_fits_witness:
  "base64_encode_size (length [1 :: byte, 255, 7, 16]) True = Some (length (''Af8HEA=='' @ [NL]))"
  using base64_encode_fits [OF demo_base64] by blast

text \<open>The assertions of \<^verbatim>\<open>base64_encode_size\<close> hold for everything up to a gigabyte.\<close>

lemma ceil_div_bounds:
  assumes "0 < b"
  shows "a \<le> ceil_div a b * b" "ceil_div a b * b \<le> a + (b - 1)"
proof -
  show "ceil_div a b * b \<le> a + (b - 1)" by (simp add: ceil_div_def)
  have "a + (b - 1) < ceil_div a b * b + b"
    using dividend_less_div_times [OF assms, of "a + (b - 1)"] by (simp only: ceil_div_def ac_simps)
  then show "a \<le> ceil_div a b * b" using assms by simp
qed

lemma base64_encode_size_defined:
  assumes "srclen \<le> 2 ^ 30"
  shows "base64_encode_size srclen multiline \<noteq> None"
proof -
  define c where "c = ceil_div srclen 3"
  define l where "l = ceil_div (c * 4) 64"
  have c: "srclen \<le> c * 3" "c * 3 \<le> srclen + 2" using ceil_div_bounds [of 3 srclen] by (simp_all add: c_def)
  have l: "l * 64 \<le> c * 4 + 63" using ceil_div_bounds [of 64 "c * 4"] by (simp add: l_def)
  have "c = 0 \<and> l = 0 \<or> 0 < c" using l by auto
  then show ?thesis using assms c l
    by (auto simp: base64_encode_size_def BASE64_OPENSSL_LINELEN_def INT32_MAX_def Let_def c_def [symmetric] l_def [symmetric])
qed

lemma length_nopad:
  "length (filter kept_char (encode_loop 0 0 bs)) = ceil_div (length bs * 4) 3"
proof (induction bs rule: length_induct)
  case (1 bs)
  have pad: "\<not> kept_char (CHR ''='')" by (simp add: kept_char_def)
  show ?case
  proof (cases bs rule: triples_cases)
    case (one a)
    have "unat a div 4 < 64" using unat_byte_le [of a] by simp
    then show ?thesis by (simp add: one encode_one pad ceil_div_def del: encode_loop.simps)
  next
    case (two a b)
    have "(unat a * 256 + unat b) * 4 < 2 ^ 18" using unat_byte_le [of a] unat_byte_le [of b] by simp
    then have "(unat a * 256 + unat b) * 4 div 4096 < 64" by simp
    then show ?thesis by (simp add: two encode_two pad ceil_div_def Let_def del: encode_loop.simps)
  next
    case (three a b c cs)
    then have "length (filter kept_char (encode_loop 0 0 cs)) = ceil_div (length cs * 4) 3" using 1 by simp
    moreover have "filter kept_char (triple_chars a b c) = triple_chars a b c"
      using triple_bound [of a b c] by (simp add: triple_chars_def Let_def)
    moreover have "length (triple_chars a b c) = 4" by (simp add: triple_chars_def Let_def)
    ultimately show ?thesis unfolding three encode_triple by (simp add: ceil_div_def)
  qed (simp add: ceil_div_def)
qed

lemma digest256_to_base64_text:
  assumes "length digest = 32"
  shows "digest256_to_base64 digest = base64_encode_nopad 256 digest"
    "base64_encode_nopad 256 digest = Some (filter kept_char (encode_loop 0 0 digest))"
proof -
  have kept: "(\<lambda>c. \<not> (c = CHR ''='' \<or> c = NL)) = kept_char" by (auto simp: kept_char_def)
  show enc: "base64_encode_nopad 256 digest = Some (filter kept_char (encode_loop 0 0 digest))"
    using assms unfolding base64_encode_nopad_def kept
    by (simp add: base64_encode_def base64_encode_size_def ceil_div_def INT32_MAX_def SIZE_T_CEILING_def)
  show "digest256_to_base64 digest = base64_encode_nopad 256 digest"
    using assms length_nopad [of digest]
    by (simp add: digest256_to_base64_def enc BASE64_DIGEST256_LEN_def ceil_div_def)
qed

end
