(* ===== verification/Parsecommon.thy ===== *)
theory Parsecommon
  imports Binascii
begin

text \<open>
  The tokenizer of directory documents, \<^verbatim>\<open>src/BADNET/src/feature/dirparse/parsecommon.c\<close>, with the
  whitespace helpers of \<^verbatim>\<open>lib/string/util_string.c\<close>. A pointer \<open>s\<close> with its end \<open>eos\<close> is the list of the
  characters between them. The RSA library is a parameter. Every \<^verbatim>\<open>RET_ERR\<close> is a value of \<open>tok_error\<close>.
\<close>

subsection \<open>Whitespace\<close>

abbreviation NUL :: char where "NUL \<equiv> CHR 0x00"

definition is_blank :: "char \<Rightarrow> bool" where
  "is_blank c \<longleftrightarrow> c = CHR '' '' \<or> c = CHR 0x09 \<or> c = CHR 0x0D"

function eat_whitespace_eos :: "string \<Rightarrow> string" where
  "eat_whitespace_eos [] = []"
| "eat_whitespace_eos (c # s) =
     (if is_blank c \<or> c = NL then eat_whitespace_eos s
      else if c = CHR ''#'' then eat_whitespace_eos (dropWhile (\<lambda>x. x \<noteq> NUL \<and> x \<noteq> NL) s)
      else c # s)"
  by pat_completeness auto
termination
  by (relation "measure length") (auto simp: le_imp_less_Suc length_dropWhile_le)

text \<open>\<^verbatim>\<open>eat_whitespace\<close> on a NUL-terminated string behaves alike.\<close>

abbreviation eat_whitespace :: "string \<Rightarrow> string" where "eat_whitespace \<equiv> eat_whitespace_eos"

definition eat_whitespace_eos_no_nl :: "string \<Rightarrow> string" where
  "eat_whitespace_eos_no_nl s = dropWhile is_blank s"

definition ends_word :: "char \<Rightarrow> bool" where
  "ends_word c \<longleftrightarrow> c = NUL \<or> c = CHR ''#'' \<or> is_blank c \<or> c = NL"

definition find_whitespace_eos :: "string \<Rightarrow> string" where
  "find_whitespace_eos s = dropWhile (\<lambda>c. \<not> ends_word c) s"

lemma length_eat_whitespace: "length (eat_whitespace_eos s) \<le> length s"
proof (induction s rule: eat_whitespace_eos.induct)
  case (2 c s)
  show ?case
  proof (cases "is_blank c \<or> c = NL")
    case True
    then show ?thesis using 2(1) by simp
  next
    case no_blank: False
    show ?thesis
    proof (cases "c = CHR ''#''")
      case True
      then show ?thesis
        using 2(2) no_blank length_dropWhile_le [of "\<lambda>x. x \<noteq> NUL \<and> x \<noteq> NL" s] by simp
    qed (use no_blank in simp)
  qed
qed simp

subsection \<open>Tokens and rules\<close>

text \<open>
  The keywords that the modelled rule tables use; the remaining constants of the enumeration are
  \<open>K_OTHER\<close> with their number.
\<close>

datatype directory_keyword = K_R | K_ONION_KEY | K_ONION_KEY_NTOR | K_ID | K_OPT
  | K_ACCEPT | K_ACCEPT6 | K_REJECT | K_REJECT6
  | A_PURPOSE | A_LAST_LISTED | A_UNKNOWN | K_OTHER nat

datatype obj_syntax = NO_OBJ | NEED_OBJ | NEED_KEY_1024 | NEED_KEY | OBJ_OK

record 'k directory_token =
  tp :: directory_keyword
  args :: "string list"
  object_type :: "string option"
  object_body :: "byte list option"
  key :: "'k option"

record token_rule =
  rule_t :: string
  rule_v :: directory_keyword
  min_args :: int
  max_args :: int
  concat_args :: bool
  os :: obj_syntax
  min_cnt :: int
  max_cnt :: int
  at_start :: bool
  at_end :: bool

record 'k pk_lib =
  pk_asn1_decode :: "byte list \<Rightarrow> 'k option"
  pk_num_bits :: "'k \<Rightarrow> int"
  pk_is_private :: "'k \<Rightarrow> bool"
  pk_exponent_ok :: "'k \<Rightarrow> bool"

datatype tok_error =
    LineTooLong | UnexpectedEOF | FarTooManyArgs string | TooFewArgs string | TooManyArgs string
  | BadBeginLine | MissingEndLine | MismatchedEndTag string | ObjectTooBig | BadBase64
  | UnexpectedPublicKey | UnparsablePublicKey | UnexpectedObject string | UnexpectedKeyFor string
  | MissingObject string | WrongKeySize string | MissingKey string | PrivateKeyGiven string

definition MAX_LINE_LENGTH :: nat where "MAX_LINE_LENGTH = 128 * 1024"
definition MAX_UNPARSED_OBJECT_SIZE :: nat where "MAX_UNPARSED_OBJECT_SIZE = 128 * 1024"
definition MAX_ARGS :: nat where "MAX_ARGS = 512"
definition PK_BYTES :: int where "PK_BYTES = 128"

subsection \<open>One token\<close>

text \<open>The loop of \<^verbatim>\<open>get_token_arguments\<close> with the number \<open>j\<close> of arguments so far.\<close>

function token_arguments :: "nat \<Rightarrow> string \<Rightarrow> string list option" where
  "token_arguments j cp =
     (if cp = [] then Some []
      else if j = MAX_ARGS then None
      else let w = takeWhile (\<lambda>c. \<not> ends_word c) cp; rest = dropWhile (\<lambda>c. \<not> ends_word c) cp
           in if rest = [] then Some [w]
              else map_option ((#) w) (token_arguments (Suc j) (eat_whitespace (tl rest))))"
  by pat_completeness auto
termination
proof (relation "measure (\<lambda>(j, cp). length cp)", goal_cases)
  case (2 j cp w rest)
  have "length rest \<le> length cp" using 2(4) by (simp add: length_dropWhile_le)
  moreover have "length (eat_whitespace (tl rest)) \<le> length (tl rest)" by (rule length_eat_whitespace)
  ultimately show ?case using 2(5) by (cases rest) auto
qed simp

declare token_arguments.simps [simp del]

definition get_token_arguments :: "string \<Rightarrow> string list option" where
  "get_token_arguments line = token_arguments 0 line"

definition token_check_object ::
  "'k pk_lib \<Rightarrow> string \<Rightarrow> 'k directory_token \<Rightarrow> obj_syntax \<Rightarrow> tok_error + 'k directory_token" where
  "token_check_object pk kwd tok o_syn =
     (let need_key = (case key tok of
            None \<Rightarrow> Inl (MissingKey kwd)
          | Some k \<Rightarrow> if pk_is_private pk k then Inl (PrivateKeyGiven kwd) else Inr tok)
      in case o_syn of
           NO_OBJ \<Rightarrow> if object_body tok \<noteq> None then Inl (UnexpectedObject kwd)
                     else if key tok \<noteq> None then Inl (UnexpectedKeyFor kwd) else Inr tok
         | NEED_OBJ \<Rightarrow> if object_body tok = None then Inl (MissingObject kwd) else Inr tok
         | NEED_KEY_1024 \<Rightarrow>
             (case key tok of
                Some k \<Rightarrow> if pk_num_bits pk k \<noteq> PK_BYTES * 8 then Inl (WrongKeySize kwd) else need_key
              | None \<Rightarrow> need_key)
         | NEED_KEY \<Rightarrow> need_key
         | OBJ_OK \<Rightarrow> Inr tok)"

text \<open>
  The keyword line of a token: the keyword, its object syntax and the token without object.
\<close>

definition keyword_line ::
  "token_rule list \<Rightarrow> string \<Rightarrow> string \<Rightarrow> string \<Rightarrow> tok_error + (string \<times> obj_syntax \<times> 'k directory_token)" where
  "keyword_line table line kw after_kw =
     (let tok = \<lparr>tp = K_OPT, args = [], object_type = None, object_body = None, key = None\<rparr>
      in case find (\<lambda>r. rule_t r = kw) table of
           None \<Rightarrow>
             Inr ([], OBJ_OK, tok\<lparr>tp := (if line \<noteq> [] \<and> hd line = CHR ''@'' then A_UNKNOWN else K_OPT),
                                  args := [line]\<rparr>)
         | Some r \<Rightarrow>
             let rest = eat_whitespace_eos_no_nl after_kw
             in case (if concat_args r then Some [rest] else get_token_arguments rest) of
                  None \<Rightarrow> Inl (FarTooManyArgs (rule_t r))
                | Some a \<Rightarrow>
                    if int (length a) < min_args r then Inl (TooFewArgs (rule_t r))
                    else if int (length a) > max_args r then Inl (TooManyArgs (rule_t r))
                    else Inr (rule_t r, os r, tok\<lparr>tp := rule_v r, args := a\<rparr>))"

definition last_is :: "nat \<Rightarrow> string \<Rightarrow> string \<Rightarrow> bool" where
  "last_is n s t \<longleftrightarrow> drop (length s - n) s = t"

text \<open>
  The object after the keyword line, with \<open>s\<close> at the first character that is not whitespace: the
  token with its object, and the rest of the text.
\<close>

definition read_object ::
  "'k pk_lib \<Rightarrow> obj_syntax \<Rightarrow> 'k directory_token \<Rightarrow> string \<Rightarrow> tok_error + ('k directory_token \<times> string)" where
  "read_object pk o_syn tok s =
     (let line = takeWhile (\<lambda>c. c \<noteq> NL) s; n = length line
      in if n = length s \<or> n < 11 \<or> \<not> starts_with s ''-----BEGIN '' then Inr (tok, s)
         else if n \<le> 16 \<or> NUL \<in> set (take (n - 16) (drop 11 s)) \<or> \<not> last_is 5 line ''-----'' \<or>
                 n > MAX_UNPARSED_OBJECT_SIZE then Inl BadBeginLine
         else
           let otype = take (n - 16) (drop 11 line); s1 = drop (n + 1) s
           in case tor_memstr s1 ''-----END '' of
                None \<Rightarrow> Inl MissingEndLine
              | Some k \<Rightarrow>
                  let end_line = takeWhile (\<lambda>c. c \<noteq> NL) (drop k s1)
                  in if length end_line \<noteq> 9 + (n - 16) + 5 \<or> take (n - 16) (drop 9 end_line) \<noteq> otype \<or>
                        \<not> last_is 5 end_line ''-----'' then Inl (MismatchedEndTag otype)
                     else if k > MAX_UNPARSED_OBJECT_SIZE then Inl ObjectTooBig
                     else case base64_decode (base64_decode_maxsize k) (take k s1) of
                            None \<Rightarrow> Inl BadBase64
                          | Some body \<Rightarrow>
                              let tok1 = tok\<lparr>object_type := Some otype, object_body := Some body\<rparr>;
                                  rest = drop (k + length end_line) s1
                              in if otype \<noteq> ''RSA PUBLIC KEY'' then Inr (tok1, rest)
                                 else if o_syn \<notin> {NEED_KEY, NEED_KEY_1024, OBJ_OK} then Inl UnexpectedPublicKey
                                 else case pk_asn1_decode pk body of
                                        None \<Rightarrow> Inl UnparsablePublicKey
                                      | Some k' \<Rightarrow> Inr (tok1\<lparr>key := Some k'\<rparr>, rest))"

definition get_next_token ::
  "'k pk_lib \<Rightarrow> token_rule list \<Rightarrow> string \<Rightarrow> tok_error + ('k directory_token \<times> string)" where
  "get_next_token pk table s0 =
     (let s = eat_whitespace_eos s0; line = takeWhile (\<lambda>c. c \<noteq> NL) s
      in if length line > MAX_LINE_LENGTH then Inl LineTooLong
         else
           let word = takeWhile (\<lambda>c. \<not> ends_word c) line; opt = (word = ''opt'');
               line1 = (if opt then eat_whitespace_eos_no_nl (find_whitespace_eos line) else line)
           in if \<not> opt \<and> s = [] then Inl UnexpectedEOF
              else case keyword_line table line1 (takeWhile (\<lambda>c. \<not> ends_word c) line1) (find_whitespace_eos line1) of
                     Inl e \<Rightarrow> Inl e
                   | Inr (kwd, o_syn, tok) \<Rightarrow>
                       (case read_object pk o_syn tok (eat_whitespace_eos (drop (length line) s)) of
                          Inl e \<Rightarrow> Inl e
                        | Inr (tok1, rest) \<Rightarrow>
                            (case token_check_object pk kwd tok1 o_syn of
                               Inl e \<Rightarrow> Inl e
                             | Inr tok2 \<Rightarrow> Inr (tok2, rest))))"

lemma read_object_shorter: "read_object pk o_syn tok s = Inr (tok', rest) \<Longrightarrow> length rest \<le> length s"
  by (auto simp: read_object_def Let_def split: if_splits option.splits)

lemma eat_whitespace_head:
  "eat_whitespace_eos s = c # r \<Longrightarrow> \<not> is_blank c \<and> c \<noteq> NL \<and> c \<noteq> CHR ''#''"
proof (induction s rule: eat_whitespace_eos.induct)
  case (2 c' s)
  then show ?case by (auto split: if_splits)
qed simp

lemma get_next_token_shorter:
  assumes "get_next_token pk table s0 = Inr (tok, rest)"
  shows "length rest < length s0"
proof -
  define s where "s = eat_whitespace_eos s0"
  define line where "line = takeWhile (\<lambda>c. c \<noteq> NL) s"
  have len: "length s \<le> length s0" by (simp add: s_def length_eat_whitespace)
  obtain o_syn tok1 tok2 where "read_object pk o_syn tok1 (eat_whitespace_eos (drop (length line) s)) = Inr (tok2, rest)"
    using assms by (auto simp: get_next_token_def s_def line_def Let_def split: if_splits sum.splits prod.splits)
  then have rest: "length rest \<le> length s - length line"
    using read_object_shorter length_eat_whitespace [of "drop (length line) s"] by fastforce
  have "s \<noteq> []"
    using assms by (auto simp: get_next_token_def s_def [symmetric] Let_def split: if_splits)
  then obtain c r where "s = c # r" by (cases s) auto
  then have "line \<noteq> []" using eat_whitespace_head [of s0 c r] by (simp add: line_def s_def)
  moreover have "length line \<le> length s" by (simp add: line_def length_takeWhile_le)
  ultimately show ?thesis using rest len by (cases line) auto
qed

subsection \<open>All tokens of a text\<close>

function tokenize_loop ::
  "'k pk_lib \<Rightarrow> token_rule list \<Rightarrow> string \<Rightarrow> 'k directory_token list \<Rightarrow> tok_error + 'k directory_token list" where
  "tokenize_loop pk table s out =
     (if s = [] then Inr out
      else case get_next_token pk table s of
             Inl e \<Rightarrow> Inl e
           | Inr (tok, rest) \<Rightarrow> tokenize_loop pk table (eat_whitespace_eos rest) (out @ [tok]))"
  by pat_completeness auto
termination
proof (relation "measure (\<lambda>(pk, table, s, out). length s)", goal_cases)
  case (2 pk table s out y tok rest)
  then have "length rest < length s" using get_next_token_shorter by metis
  then show ?case using length_eat_whitespace [of rest] by simp
qed simp

declare tokenize_loop.simps [simp del]

datatype tokenize_error = InternalNul | BadToken tok_error | OnlyAnnotations | MixedAnnotations
  | UnexpectedAnnotations | NoAnnotationsAllowed | MissingElement string | TooManyElements string
  | NotFirst string | NotLast string

record tokenize_flags =
  TS_ANNOTATIONS_OK :: bool
  TS_NOCHECK :: bool
  TS_NO_NEW_ANNOTATIONS :: bool

definition no_tokenize_flags :: tokenize_flags where
  "no_tokenize_flags = \<lparr>TS_ANNOTATIONS_OK = False, TS_NOCHECK = False, TS_NO_NEW_ANNOTATIONS = False\<rparr>"

definition is_annotation :: "directory_keyword \<Rightarrow> bool" where
  "is_annotation v \<longleftrightarrow> v \<in> {A_PURPOSE, A_LAST_LISTED, A_UNKNOWN}"

definition count_tp :: "directory_keyword \<Rightarrow> 'k directory_token list \<Rightarrow> int" where
  "count_tp v out = int (length (filter (\<lambda>t. tp t = v) out))"

text \<open>The placement of annotations: the position of the first token that is not one.\<close>

definition check_annotations ::
  "tokenize_flags \<Rightarrow> nat \<Rightarrow> 'k directory_token list \<Rightarrow> tokenize_error + nat" where
  "check_annotations flags prev_len out =
     (if TS_ANNOTATIONS_OK flags then
        (let first = length (takeWhile (\<lambda>t. is_annotation (tp t)) out)
         in if first = length out then Inl OnlyAnnotations
            else if \<exists>t \<in> set (drop first out). is_annotation (tp t) then Inl MixedAnnotations
            else if TS_NO_NEW_ANNOTATIONS flags \<and> first \<noteq> prev_len then Inl UnexpectedAnnotations
            else Inr first)
      else if \<exists>t \<in> set out. is_annotation (tp t) then Inl NoAnnotationsAllowed
      else Inr 0)"

definition rule_error :: "'k directory_token list \<Rightarrow> nat \<Rightarrow> token_rule \<Rightarrow> tokenize_error option" where
  "rule_error out first r =
     (if count_tp (rule_v r) out < min_cnt r then Some (MissingElement (rule_t r))
      else if count_tp (rule_v r) out > max_cnt r then Some (TooManyElements (rule_t r))
      else if at_start r \<and> (out = [] \<or> tp (out ! first) \<noteq> rule_v r) then Some (NotFirst (rule_t r))
      else if at_end r \<and> (out = [] \<or> tp (last out) \<noteq> rule_v r) then Some (NotLast (rule_t r))
      else None)"

fun check_rules :: "'k directory_token list \<Rightarrow> nat \<Rightarrow> token_rule list \<Rightarrow> tokenize_error option" where
  "check_rules out first [] = None"
| "check_rules out first (r # rs) =
     (case rule_error out first r of Some e \<Rightarrow> Some e | None \<Rightarrow> check_rules out first rs)"

text \<open>\<^verbatim>\<open>tokenize_string\<close> with the tokens \<open>out0\<close> that are already in the list.\<close>

definition tokenize_string ::
  "'k pk_lib \<Rightarrow> string \<Rightarrow> 'k directory_token list \<Rightarrow> token_rule list \<Rightarrow> tokenize_flags \<Rightarrow>
   tokenize_error + 'k directory_token list" where
  "tokenize_string pk s out0 table flags =
     (if NUL \<in> set s then Inl InternalNul
      else case tokenize_loop pk table s out0 of
             Inl e \<Rightarrow> Inl (BadToken e)
           | Inr out \<Rightarrow>
               if TS_NOCHECK flags then Inr out
               else (case check_annotations flags (length out0) out of
                       Inl e \<Rightarrow> Inl e
                     | Inr first \<Rightarrow>
                         (case check_rules out first table of Some e \<Rightarrow> Inl e | None \<Rightarrow> Inr out)))"

definition find_opt_by_keyword :: "'k directory_token list \<Rightarrow> directory_keyword \<Rightarrow> 'k directory_token option" where
  "find_opt_by_keyword s keyword = find (\<lambda>t. tp t = keyword) s"

text \<open>\<^verbatim>\<open>find_by_keyword_\<close>: \<open>None\<close> is the failed assertion.\<close>

definition find_by_keyword :: "'k directory_token list \<Rightarrow> directory_keyword \<Rightarrow> 'k directory_token option" where
  "find_by_keyword s keyword = find_opt_by_keyword s keyword"

definition find_all_by_keyword :: "'k directory_token list \<Rightarrow> directory_keyword \<Rightarrow> 'k directory_token list" where
  "find_all_by_keyword s k = filter (\<lambda>t. tp t = k) s"

subsection \<open>Tokens conform to their rules\<close>

definition obj_ok :: "'k pk_lib \<Rightarrow> obj_syntax \<Rightarrow> 'k directory_token \<Rightarrow> bool" where
  "obj_ok pk o_syn tok \<longleftrightarrow>
     (case o_syn of
        NO_OBJ \<Rightarrow> object_body tok = None \<and> key tok = None
      | NEED_OBJ \<Rightarrow> object_body tok \<noteq> None
      | NEED_KEY_1024 \<Rightarrow> (\<exists>k. key tok = Some k \<and> pk_num_bits pk k = 1024 \<and> \<not> pk_is_private pk k)
      | NEED_KEY \<Rightarrow> (\<exists>k. key tok = Some k \<and> \<not> pk_is_private pk k)
      | OBJ_OK \<Rightarrow> True)"

definition conforms :: "'k pk_lib \<Rightarrow> token_rule list \<Rightarrow> 'k directory_token \<Rightarrow> bool" where
  "conforms pk table tok \<longleftrightarrow>
     (tp tok \<in> {K_OPT, A_UNKNOWN} \<and> length (args tok) = 1) \<or>
     (\<exists>r \<in> set table. tp tok = rule_v r \<and> min_args r \<le> int (length (args tok)) \<and>
        int (length (args tok)) \<le> max_args r \<and> obj_ok pk (os r) tok)"

lemma token_check_object_ok:
  "token_check_object pk kwd tok o_syn = Inr tok' \<Longrightarrow> tok' = tok \<and> obj_ok pk o_syn tok"
  by (cases o_syn) (auto simp: token_check_object_def obj_ok_def PK_BYTES_def Let_def split: if_splits option.splits)

lemma read_object_keeps: "read_object pk o_syn tok s = Inr (tok', rest) \<Longrightarrow> tp tok' = tp tok \<and> args tok' = args tok"
  by (auto simp: read_object_def Let_def split: if_splits option.splits)

lemma keyword_line_conforms:
  assumes "keyword_line table line kw after_kw = Inr (kwd, o_syn, tok)"
  shows "(tp tok \<in> {K_OPT, A_UNKNOWN} \<and> length (args tok) = 1) \<or>
     (\<exists>r \<in> set table. tp tok = rule_v r \<and> o_syn = os r \<and> min_args r \<le> int (length (args tok)) \<and>
        int (length (args tok)) \<le> max_args r)"
proof (cases "find (\<lambda>r. rule_t r = kw) table")
  case None
  then show ?thesis using assms by (auto simp: keyword_line_def Let_def split: if_splits)
next
  case (Some r)
  then have "r \<in> set table" by (auto simp: find_Some_iff)
  then show ?thesis
    using assms Some by (auto simp: keyword_line_def Let_def split: if_splits option.splits intro!: bexI [of _ r])
qed

lemma get_next_token_conforms:
  assumes "get_next_token pk table s = Inr (tok, rest)"
  shows "conforms pk table tok"
proof -
  obtain line kw aft kwd o_syn tok0 tok1 s1 where
    kw: "keyword_line table line kw aft = Inr (kwd, o_syn, tok0)" and
    obj: "read_object pk o_syn tok0 s1 = Inr (tok1, rest)" and
    chk: "token_check_object pk kwd tok1 o_syn = Inr tok"
    using assms by (auto simp: get_next_token_def Let_def split: if_splits sum.splits prod.splits)
  show ?thesis
    using keyword_line_conforms [OF kw] read_object_keeps [OF obj] token_check_object_ok [OF chk]
    by (auto simp: conforms_def)
qed

lemma tokenize_loop_conforms:
  "tokenize_loop pk table s out = Inr out' \<Longrightarrow> \<forall>t \<in> set out. conforms pk table t \<Longrightarrow>
   \<forall>t \<in> set out'. conforms pk table t"
proof (induction pk table s out rule: tokenize_loop.induct)
  case (1 pk table s out)
  show ?case
  proof (cases "s = []")
    case True
    then show ?thesis using 1(2,3) by (simp add: tokenize_loop.simps)
  next
    case False
    obtain tok rest where t: "get_next_token pk table s = Inr (tok, rest)"
      using 1(2) False by (auto simp: tokenize_loop.simps [of pk table s] split: sum.splits)
    then show ?thesis
      using 1(1) [OF False t, of tok rest] 1(2,3) False get_next_token_conforms [OF t]
      by (simp add: tokenize_loop.simps [of pk table s])
  qed
qed

lemma check_rules_None: "check_rules out first rs = None \<longleftrightarrow> (\<forall>r \<in> set rs. rule_error out first r = None)"
  by (induction rs) (auto split: option.splits)

lemma tokenize_ok:
  assumes "tokenize_string pk s [] table flags = Inr out" "\<not> TS_NOCHECK flags"
  shows "\<forall>t \<in> set out. conforms pk table t"
    and "r \<in> set table \<Longrightarrow> min_cnt r \<le> count_tp (rule_v r) out \<and> count_tp (rule_v r) out \<le> max_cnt r"
proof -
  obtain first where l: "tokenize_loop pk table s [] = Inr out" and c: "check_rules out first table = None"
    using assms by (auto simp: tokenize_string_def split: if_splits sum.splits option.splits)
  show "\<forall>t \<in> set out. conforms pk table t" using tokenize_loop_conforms [OF l] by simp
  show "r \<in> set table \<Longrightarrow> min_cnt r \<le> count_tp (rule_v r) out \<and> count_tp (rule_v r) out \<le> max_cnt r"
    using c by (auto simp: check_rules_None rule_error_def split: if_splits)
qed

text \<open>
  C26. What a successful \<open>tokenize_string\<close> guarantees to the parsers that use its tokens: every token
  is unrecognised or obeys a rule of the table in its number of arguments and its object, and every
  rule of the table appears as often as it must and may.
\<close>

theorem tokenize_string_conforms:
  assumes "tokenize_string pk s [] table flags = Inr out" "\<not> TS_NOCHECK flags"
  shows "(\<forall>t \<in> set out. conforms pk table t) \<and>
    (\<forall>r \<in> set table. min_cnt r \<le> count_tp (rule_v r) out \<and> count_tp (rule_v r) out \<le> max_cnt r)"
  using tokenize_ok [OF assms] by blast

subsection \<open>Reading what is written\<close>

definition word :: "string \<Rightarrow> bool" where
  "word w \<longleftrightarrow> w \<noteq> [] \<and> list_all (\<lambda>c. \<not> ends_word c) w"

fun sp_join :: "string list \<Rightarrow> string" where
  "sp_join [] = []"
| "sp_join [w] = w"
| "sp_join (w # v # ws) = w @ CHR '' '' # sp_join (v # ws)"

text \<open>The line of an item: keyword and arguments.\<close>

definition item_line :: "string \<Rightarrow> string list \<Rightarrow> string" where
  "item_line kw ws = (if ws = [] then kw else kw @ CHR '' '' # sp_join ws)"

lemma ends_word_space [simp]: "ends_word (CHR '' '')"
  by (simp add: ends_word_def is_blank_def)

lemma word_split:
  assumes "word w"
  shows "ends_word c \<Longrightarrow> takeWhile (\<lambda>c. \<not> ends_word c) (w @ c # r) = w"
    "ends_word c \<Longrightarrow> dropWhile (\<lambda>c. \<not> ends_word c) (w @ c # r) = c # r"
    "takeWhile (\<lambda>c. \<not> ends_word c) w = w" "dropWhile (\<lambda>c. \<not> ends_word c) w = []"
  using assms by (auto simp: word_def list_all_iff takeWhile_append2 dropWhile_append2)

lemma word_head:
  assumes "word w"
  obtains c r where "w = c # r" "\<not> is_blank c" "c \<noteq> NL" "c \<noteq> CHR ''#''" "c \<noteq> NUL"
  using assms by (cases w) (auto simp: word_def ends_word_def)

lemma eat_whitespace_word: "word w \<Longrightarrow> eat_whitespace_eos (w @ r) = w @ r"
  by (erule word_head) simp

lemma sp_join_head: "word w \<Longrightarrow> \<exists>r. sp_join (w # ws) = w @ r"
  by (cases ws) auto

lemma eat_whitespace_sp_join:
  assumes "\<forall>w \<in> set ws. word w"
  shows "eat_whitespace_eos (sp_join ws) = sp_join ws"
proof (cases ws)
  case (Cons w vs)
  then obtain r where "sp_join ws = w @ r" "word w" using sp_join_head assms by force
  then show ?thesis by (simp add: eat_whitespace_word)
qed simp

lemma eat_no_nl_sp_join:
  assumes "\<forall>w \<in> set ws. word w"
  shows "eat_whitespace_eos_no_nl (sp_join ws) = sp_join ws"
    "eat_whitespace_eos_no_nl (CHR '' '' # sp_join ws) = sp_join ws"
proof -
  show 1: "eat_whitespace_eos_no_nl (sp_join ws) = sp_join ws"
  proof (cases ws)
    case (Cons w vs)
    then obtain r where "sp_join ws = w @ r" "word w" using sp_join_head assms by force
    then show ?thesis by (elim word_head) (simp add: eat_whitespace_eos_no_nl_def)
  qed (simp add: eat_whitespace_eos_no_nl_def)
  show "eat_whitespace_eos_no_nl (CHR '' '' # sp_join ws) = sp_join ws"
    using 1 by (simp add: eat_whitespace_eos_no_nl_def is_blank_def)
qed

lemma token_arguments_sp_join:
  "\<forall>w \<in> set ws. word w \<Longrightarrow> j + length ws \<le> MAX_ARGS \<Longrightarrow> token_arguments j (sp_join ws) = Some ws"
proof (induction ws arbitrary: j rule: sp_join.induct)
  case (2 w)
  then have "w \<noteq> []" "j \<noteq> MAX_ARGS" by (auto simp: word_def)
  then show ?case using 2 word_split [of w] by (simp add: token_arguments.simps [of j w])
next
  case (3 w v ws)
  have eat: "eat_whitespace (sp_join (v # ws)) = sp_join (v # ws)" using 3(2) by (intro eat_whitespace_sp_join) simp
  have "w \<noteq> []" "j \<noteq> MAX_ARGS" using 3 by (auto simp: word_def)
  then show ?case
    using 3 word_split(1,2) [of w "CHR '' ''" "sp_join (v # ws)"] eat
    by (simp add: token_arguments.simps [of j "w @ CHR '' '' # sp_join (v # ws)"])
qed (simp add: token_arguments.simps)

lemma item_line_chars:
  assumes "word kw" "\<forall>w \<in> set ws. word w" "c \<in> set (item_line kw ws)"
  shows "c \<noteq> NL" "c \<noteq> NUL"
proof -
  have "c \<in> set (sp_join ws) \<Longrightarrow> c = CHR '' '' \<or> (\<exists>w \<in> set ws. c \<in> set w)"
    by (induction ws rule: sp_join.induct) auto
  then have "c = CHR '' '' \<or> \<not> ends_word c"
    using assms by (auto simp: item_line_def word_def list_all_iff split: if_splits)
  then show "c \<noteq> NL" "c \<noteq> NUL" by (auto simp: ends_word_def NL_def)
qed

lemma get_next_token_item:
  fixes pk :: "'k pk_lib"
  assumes kw: "word kw" "kw \<noteq> ''opt''" and ws: "\<forall>w \<in> set ws. word w" "length ws \<le> MAX_ARGS"
    and r: "find (\<lambda>r. rule_t r = kw) table = Some r" "\<not> concat_args r"
      "min_args r \<le> int (length ws)" "int (length ws) \<le> max_args r"
    and len: "length (item_line kw ws) \<le> MAX_LINE_LENGTH"
  shows "get_next_token pk table (item_line kw ws @ NL # rest) =
    (case read_object pk (os r) \<lparr>tp = rule_v r, args = ws, object_type = None, object_body = None, key = None\<rparr>
            (eat_whitespace_eos rest) of
       Inl e \<Rightarrow> Inl e
     | Inr (tok1, rest1) \<Rightarrow>
         (case token_check_object pk kw tok1 (os r) of Inl e \<Rightarrow> Inl e | Inr tok2 \<Rightarrow> Inr (tok2, rest1)))"
proof -
  let ?l = "item_line kw ws"
  have hd: "\<exists>r. ?l = kw @ r" by (auto simp: item_line_def)
  then have eat: "eat_whitespace_eos (?l @ NL # rest) = ?l @ NL # rest"
    using eat_whitespace_word [OF kw(1)] by (metis append.assoc)
  have line: "takeWhile (\<lambda>c. c \<noteq> NL) (?l @ NL # rest) = ?l"
    using item_line_chars(1) [OF kw(1) ws(1)] by (intro takeWhile_stop) blast
  have kwd: "takeWhile (\<lambda>c. \<not> ends_word c) ?l = kw"
    using word_split [OF kw(1)] by (simp add: item_line_def)
  have aft: "eat_whitespace_eos_no_nl (find_whitespace_eos ?l) = sp_join ws"
  proof (cases "ws = []")
    case True
    then show ?thesis using word_split(4) [OF kw(1)]
      by (simp add: item_line_def find_whitespace_eos_def eat_whitespace_eos_no_nl_def del: dropWhile_eq_Nil_conv)
  next
    case False
    then show ?thesis using word_split(2) [OF kw(1)] eat_no_nl_sp_join(2) [OF ws(1)]
      by (simp add: item_line_def find_whitespace_eos_def)
  qed
  have args: "get_token_arguments (sp_join ws) = Some ws"
    using token_arguments_sp_join ws by (simp add: get_token_arguments_def)
  have rt: "rule_t r = kw" using r(1) by (auto simp: find_Some_iff)
  have "keyword_line table ?l kw (find_whitespace_eos ?l) =
      Inr (kw, os r, \<lparr>tp = rule_v r, args = ws, object_type = None, object_body = None, key = None :: 'k option\<rparr>)"
    using r args aft rt by (simp add: keyword_line_def)
  moreover have "eat_whitespace_eos (drop (length ?l) (?l @ NL # rest)) = eat_whitespace_eos rest" by simp
  ultimately show ?thesis
    using eat line kwd kw(2) len by (simp add: get_next_token_def Let_def)
qed

lemma read_object_none:
  assumes "s = [] \<or> hd s \<noteq> CHR ''-''"
  shows "read_object pk o_syn tok s = Inr (tok, s)"
proof -
  have "\<not> starts_with s ''-----BEGIN ''" using assms by (cases s) (auto simp: starts_with_def)
  then show ?thesis by (simp add: read_object_def)
qed

subsection \<open>An instance\<close>

definition demo_rule :: token_rule where
  "demo_rule = \<lparr>rule_t = ''r'', rule_v = K_R, min_args = 1, max_args = 4, concat_args = False, os = NO_OBJ,
     min_cnt = 1, max_cnt = 1, at_start = True, at_end = False\<rparr>"

definition demo_pk_lib :: "unit pk_lib" where
  "demo_pk_lib = \<lparr>pk_asn1_decode = (\<lambda>_. None), pk_num_bits = (\<lambda>_. 1024), pk_is_private = (\<lambda>_. False),
     pk_exponent_ok = (\<lambda>_. True)\<rparr>"

lemma demo_tokenize:
  "tokenize_string demo_pk_lib (''r nick id'' @ [NL]) [] [demo_rule] no_tokenize_flags =
     Inr [\<lparr>tp = K_R, args = [''nick'', ''id''], object_type = None, object_body = None, key = None\<rparr>]"
proof -
  let ?tok = "\<lparr>tp = K_R, args = [''nick'', ''id''], object_type = None, object_body = None, key = None :: unit option\<rparr>"
  have words: "word ''r''" "word ''nick''" "word ''id''" by (simp_all add: word_def ends_word_def is_blank_def NL_def)
  have "get_next_token demo_pk_lib [demo_rule] (item_line ''r'' [''nick'', ''id''] @ NL # []) = Inr (?tok, [])"
    using words by (subst get_next_token_item [where r = demo_rule])
      (simp_all add: demo_rule_def MAX_ARGS_def MAX_LINE_LENGTH_def item_line_def read_object_none token_check_object_def)
  then have "tokenize_loop demo_pk_lib [demo_rule] (''r nick id'' @ [NL]) [] = Inr [?tok]"
    by (simp add: tokenize_loop.simps item_line_def)
  then show ?thesis
    by (simp add: tokenize_string_def no_tokenize_flags_def check_annotations_def is_annotation_def rule_error_def
        count_tp_def demo_rule_def NL_def)
qed

theorem tokenize_string_conforms_witness:
  "\<exists>tok. tokenize_string demo_pk_lib (''r nick id'' @ [NL]) [] [demo_rule] no_tokenize_flags = Inr [tok] \<and>
     conforms demo_pk_lib [demo_rule] tok \<and> args tok = [''nick'', ''id''] \<and>
     min_cnt demo_rule \<le> count_tp K_R [tok] \<and> count_tp K_R [tok] \<le> max_cnt demo_rule"
  using tokenize_string_conforms [OF demo_tokenize] demo_tokenize
  by (simp add: no_tokenize_flags_def demo_rule_def)

end
