(* ===== verification/Pem.thy ===== *)
theory Pem
  imports Parsecommon
begin

text \<open>
  PEM objects, \<^verbatim>\<open>src/BADNET/src/lib/encoding/pem.c\<close>, and the agreement of the writer with both readers:
  \<^verbatim>\<open>pem_decode\<close> and the tokenizer of directory documents.
\<close>

text \<open>\<open>None\<close> when an assertion of \<^verbatim>\<open>base64_encode_size\<close> fails.\<close>

definition pem_encoded_size :: "nat \<Rightarrow> string \<Rightarrow> nat option" where
  "pem_encoded_size src_len objtype =
     map_option (\<lambda>n. length (''-----BEGIN -----'' @ [NL]) + length (''-----END -----'' @ [NL]) + length objtype * 2 + n + 1)
       (base64_encode_size src_len True)"

text \<open>\<^verbatim>\<open>tor_snprintf\<close> fails when the text and its NUL do not fit.\<close>

definition pem_encode :: "nat \<Rightarrow> byte list \<Rightarrow> string \<Rightarrow> string option" where
  "pem_encode destlen src objtype =
     (let header = ''-----BEGIN '' @ objtype @ ''-----'' @ [NL];
          footer = ''-----END '' @ objtype @ ''-----'' @ [NL]
      in if length header \<ge> destlen then None
         else case base64_encode (destlen - length header) src True of
                None \<Rightarrow> None
              | Some b \<Rightarrow>
                  let offset = length header + length b
                  in if offset > destlen then None
                     else if length footer \<ge> destlen - offset then None
                     else Some (header @ b @ footer))"

definition pem_decode :: "nat \<Rightarrow> string \<Rightarrow> string \<Rightarrow> byte list option" where
  "pem_decode destlen src objtype =
     (let s = eat_whitespace_eos src; tag = ''-----BEGIN '' @ objtype @ ''-----''
      in if \<not> starts_with s tag then None
         else let s1 = eat_whitespace_eos_no_nl (drop (length tag) s)
              in if s1 = [] \<or> hd s1 \<noteq> NL then None
                 else case tor_memstr s1 ([NL] @ ''-----END '' @ objtype @ ''-----'') of
                        None \<Rightarrow> None
                      | Some k \<Rightarrow> base64_decode destlen (take k s1))"

subsection \<open>The shape of the text\<close>

lemma base64_char_not: "base64_char c \<Longrightarrow> c \<noteq> CHR ''-'' \<and> c \<noteq> NL \<and> \<not> ends_word c"
  by (auto simp: base64_char_def base64_encode_table_def ends_word_def is_blank_def NL_def)

lemma encode_chars_nonempty: "0 < l \<Longrightarrow> encode_chars l cs \<noteq> []"
  by (cases cs) auto

lemma encode_chars_last: "encode_chars l cs = [] \<or> last (encode_chars l cs) = NL"
  by (induction l cs rule: encode_chars.induct) (auto simp: encode_chars_nonempty)

lemma base64_multiline_end:
  assumes "base64_encode m bs True = Some b"
  shows "b = [] \<or> (\<exists>b'. b = b' @ [NL])"
  using assms encode_chars_last [of 0 "encode_loop 0 0 bs"]
  by (auto simp: base64_encode_def Let_def split: if_splits option.splits) (metis append_butlast_last_id)

lemma decode_loop_NL:
  "decode_loop d n i out (NL # cs) = decode_loop d n i out cs"
  "decode_loop d n i out (cs @ [NL]) = decode_loop d n i out cs"
proof -
  have nl: "base64_decode_table NL = Space" by (simp add: base64_decode_table_def NL_def)
  show "decode_loop d n i out (NL # cs) = decode_loop d n i out cs" by (simp add: nl)
  show "decode_loop d n i out (cs @ [NL]) = decode_loop d n i out cs"
    by (induction cs arbitrary: n i out) (auto simp: nl Let_def split: base64_class.splits)
qed

lemma pem_encode_shape:
  assumes "pem_encode destlen src objtype = Some t"
  obtains b m where "base64_encode m src True = Some b"
    "t = (''-----BEGIN '' @ objtype @ ''-----'' @ [NL]) @ b @ ''-----END '' @ objtype @ ''-----'' @ [NL]"
    "length t + 1 \<le> destlen"
  using assms by (auto simp: pem_encode_def Let_def split: if_splits option.splits)

lemma base64_no_dash:
  assumes "base64_encode m src True = Some b"
  shows "CHR ''-'' \<notin> set b"
  using base64_text_chars(3) [OF assms] base64_char_not by (auto simp: list_all_iff NL_def)

lemma pem_decode_encode:
  assumes "pem_encode n src objtype = Some t" "length src \<le> destlen" "int destlen \<le> INT32_MAX"
  shows "pem_decode destlen (t @ rest) objtype = Some src"
proof -
  obtain b m where b: "base64_encode m src True = Some b"
    and t: "t = (''-----BEGIN '' @ objtype @ ''-----'' @ [NL]) @ b @ ''-----END '' @ objtype @ ''-----'' @ [NL]"
    using pem_encode_shape [OF assms(1)] by metis
  let ?tag = "''-----BEGIN '' @ objtype @ ''-----''" and ?stop = "[NL] @ ''-----END '' @ objtype @ ''-----''"
  let ?r = "[NL] @ rest"
  have eat: "eat_whitespace_eos (t @ rest) = t @ rest" by (simp add: t is_blank_def NL_def)
  have st: "starts_with (t @ rest) ?tag" by (simp add: t starts_with_def)
  have s1: "eat_whitespace_eos_no_nl (drop (length ?tag) (t @ rest)) =
      [NL] @ b @ ''-----END '' @ objtype @ ''-----'' @ ?r"
    by (simp add: t eat_whitespace_eos_no_nl_def is_blank_def NL_def)
  obtain p where p: "[NL] @ b = p @ [NL]" "CHR ''-'' \<notin> set p" "base64_decode destlen p = Some src"
  proof -
    have dec: "base64_decode destlen b = Some src" using base64_decode_encode assms(2,3) b by blast
    show ?thesis
    proof (cases "b = []")
      case True
      then show ?thesis using that [of "[]"] dec by simp
    next
      case False
      then obtain b' where b': "b = b' @ [NL]" using base64_multiline_end [OF b] by blast
      have "base64_decode destlen (NL # b') = Some src"
        using dec b' by (simp add: base64_decode_def decode_loop_NL del: decode_loop.simps split: if_splits)
      then show ?thesis using that [of "NL # b'"] b' base64_no_dash [OF b] by (simp add: NL_def)
    qed
  qed
  define E where "E = ?stop"
  define S where "S = p @ E @ ?r"
  have mem: "tor_memstr S E = Some (length p)"
    unfolding S_def using p(2) by (intro tor_memstr_second) (simp_all add: E_def NL_def)
  have "[NL] @ b @ ''-----END '' @ objtype @ ''-----'' @ ?r = S"
    using p(1) unfolding S_def E_def by (metis append.assoc)
  note s1 = s1 [unfolded this]
  have "S \<noteq> []" "hd S = NL" "take (length p) S = p" using p(1) by (cases p; auto simp: S_def E_def)+
  then show ?thesis
    unfolding pem_decode_def Let_def eat s1 E_def [symmetric] using st mem p(3) by simp
qed

text \<open>
  PEM round trip: what \<^verbatim>\<open>pem_encode\<close> writes fits the size that \<^verbatim>\<open>pem_encoded_size\<close> promises, and
  \<^verbatim>\<open>pem_decode\<close> reads the object back from it, also when other text follows.
\<close>

theorem pem_roundtrip:
  assumes "pem_encode n src objtype = Some t" "length src \<le> destlen" "int destlen \<le> INT32_MAX"
  shows "pem_encoded_size (length src) objtype = Some (length t + 1) \<and> pem_decode destlen (t @ rest) objtype = Some src"
proof
  obtain b m where b: "base64_encode m src True = Some b"
    and t: "t = (''-----BEGIN '' @ objtype @ ''-----'' @ [NL]) @ b @ ''-----END '' @ objtype @ ''-----'' @ [NL]"
    using pem_encode_shape [OF assms(1)] by metis
  then show "pem_encoded_size (length src) objtype = Some (length t + 1)"
    using base64_encode_length [OF b] by (simp add: pem_encoded_size_def)
qed (rule pem_decode_encode [OF assms])

lemma demo_pem:
  "pem_encode 60 [1, 255, 7, 16] ''KEY'' =
     Some (''-----BEGIN KEY-----'' @ [NL] @ ''Af8HEA=='' @ [NL] @ ''-----END KEY-----'' @ [NL])"
  by (simp add: pem_encode_def base64_encode_def base64_encode_size_def ceil_div_def BASE64_OPENSSL_LINELEN_def
      encode_n_def base64_encode_table_def NL_def INT32_MAX_def SIZE_T_CEILING_def)

theorem pem_roundtrip_witness:
  "pem_decode 4 ((''-----BEGIN KEY-----'' @ [NL] @ ''Af8HEA=='' @ [NL] @ ''-----END KEY-----'' @ [NL]) @ ''x'') ''KEY'' =
     Some [1, 255, 7, 16]"
  using pem_roundtrip [OF demo_pem, of 4 "''x''"] by (simp add: INT32_MAX_def)

subsection \<open>The tokenizer reads PEM objects\<close>

lemma maxsize_enough:
  assumes "base64_encode m src True = Some b"
  shows "length src \<le> base64_decode_maxsize (length b)"
proof -
  have "ceil_div (length src) 3 * 4 \<le> length b"
    using base64_encode_length [OF assms] by (auto simp: base64_encode_size_def Let_def split: if_splits)
  then show ?thesis by (simp add: base64_decode_maxsize_def ceil_div_def)
qed

definition pem_text :: "string \<Rightarrow> string \<Rightarrow> string" where
  "pem_text objtype b = ''-----BEGIN '' @ objtype @ ''-----'' @ NL # b @ ''-----END '' @ objtype @ ''-----''"

lemma read_object_pem:
  assumes b: "base64_encode m der True = Some b" "length b \<le> MAX_UNPARSED_OBJECT_SIZE"
    and key: "pk_asn1_decode pk der = Some k" "o_syn \<in> {NEED_KEY, NEED_KEY_1024, OBJ_OK}"
  shows "read_object pk o_syn tok (pem_text ''RSA PUBLIC KEY'' b @ NL # rest) =
    Inr (tok\<lparr>object_type := Some ''RSA PUBLIC KEY'', object_body := Some der, key := Some k\<rparr>, NL # rest)"
proof -
  let ?type = "''RSA PUBLIC KEY''" and ?start = "''-----BEGIN RSA PUBLIC KEY-----''"
  let ?stop = "''-----END RSA PUBLIC KEY-----''"
  define s where "s = pem_text ?type b @ NL # rest"
  define s1 where "s1 = b @ ?stop @ NL # rest"
  have s: "s = ?start @ NL # s1" by (simp add: s_def s1_def pem_text_def)
  have line: "takeWhile (\<lambda>c. c \<noteq> NL) s = ?start" by (simp add: s NL_def)
  have drop: "drop 31 s = s1" by (simp add: s)
  have "tor_memstr (b @ ''-----END '' @ ''RSA PUBLIC KEY-----'' @ NL # rest) ''-----END '' = Some (length b)"
    using base64_no_dash [OF b(1)] by (intro tor_memstr_hd) auto
  then have mem: "tor_memstr s1 ''-----END '' = Some (length b)" by (simp add: s1_def)
  have stop_line: "takeWhile (\<lambda>c. c \<noteq> NL) (drop (length b) s1) = ?stop" by (simp add: s1_def NL_def)
  have "int (base64_decode_maxsize (length b)) \<le> INT32_MAX"
    using b(2) by (simp add: base64_decode_maxsize_def ceil_div_def MAX_UNPARSED_OBJECT_SIZE_def INT32_MAX_def)
  then have dec: "base64_decode (base64_decode_maxsize (length b)) (take (length b) s1) = Some der"
    using base64_decode_encode [OF maxsize_enough [OF b(1)] _ disjI1 [OF b(1)]] by (simp add: s1_def)
  have rest: "drop (length b + 28) s1 = NL # rest" by (simp add: s1_def)
  have starts: "starts_with s ''-----BEGIN ''" by (simp add: s starts_with_def)
  have first: "NUL \<notin> set (take 14 (drop 11 s))" by (simp add: s)
  have longer: "30 \<noteq> length s" by (simp add: s)
  have "length ?start = 30" "length ?stop = 28" by simp_all
  note facts = this
  have tags: "last_is 5 ?start ''-----''" "last_is 5 ?stop ''-----''" "take 14 (drop 11 ?start) = ?type" "take 14 (drop 9 ?stop) = ?type"
    by (simp_all add: last_is_def)
  have "read_object pk o_syn tok s = Inr (tok\<lparr>object_type := Some ?type, object_body := Some der, key := Some k\<rparr>, NL # rest)"
    unfolding read_object_def Let_def line facts
    using longer first starts tags mem stop_line dec rest b(2) key drop
    by (simp add: MAX_UNPARSED_OBJECT_SIZE_def facts del: list.size)
  then show ?thesis by (simp add: s_def)
qed

end
