(* ===== verification/Bkem.thy ===== *)
theory Bkem
  imports Strings
begin

text \<open>
  The broadcast key encapsulation of \<^verbatim>\<open>src/BADNET/src/feature/relay/router.c\<close>: the functions
  \<^verbatim>\<open>setup_global_system\<close>, \<^verbatim>\<open>get_encryption_key\<close>, \<^verbatim>\<open>get_decryption_key\<close>,
  \<^verbatim>\<open>bkem_param\<close>, \<^verbatim>\<open>bkem_encryption\<close> and \<^verbatim>\<open>bkem_decryption\<close> with the types of
  \<^verbatim>\<open>bkem.h\<close>. The pairing library (PBC) is not part of the repository: its operations are the
  fields of the parameter record \<open>pbc\<close>, and the laws the code relies on are the named
  hypotheses \<open>pbc_laws\<close> and \<open>pbc_codec\<close>. The random exponent drawn by \<^verbatim>\<open>element_random\<close> is the
  argument \<open>t\<close>. The pairing is the one that \<^verbatim>\<open>pairing_init_set_str\<close> builds from the file
  \<^verbatim>\<open>lib/BEsystem/a.param\<close>; the field \<open>a_param\<close> is the content of this file, \<open>None\<close> when it is missing
  and \<^verbatim>\<open>bkem_param\<close> reads from a null stream.
\<close>

subsection \<open>The pairing library as a parameter\<close>

record ('g, 't) pbc =
  a_param :: "string option"
  g1_mul :: "'g \<Rightarrow> 'g \<Rightarrow> 'g"
  g1_pow :: "'g \<Rightarrow> int \<Rightarrow> 'g"
  gt_pow :: "'t \<Rightarrow> int \<Rightarrow> 't"
  gt_div :: "'t \<Rightarrow> 't \<Rightarrow> 't"
  pairing_apply :: "'g \<Rightarrow> 'g \<Rightarrow> 't"
  g1_set_str :: "string \<Rightarrow> 'g"
  gt_to_bytes :: "'t \<Rightarrow> byte list"
  g1_to_bytes_compressed :: "'g \<Rightarrow> byte list"
  g1_from_bytes_compressed :: "byte list \<Rightarrow> 'g"

text \<open>
  Documented behaviour of PBC: exponent laws of both groups and bilinearity of the pairing;
  the compressed encoding of a \<open>G1\<close> element has a fixed length and decodes to the element.
\<close>

definition pbc_laws :: "('g, 't) pbc \<Rightarrow> bool" where
  "pbc_laws P \<longleftrightarrow>
     (\<forall>x. g1_pow P x 1 = x) \<and>
     (\<forall>x m n. g1_mul P (g1_pow P x m) (g1_pow P x n) = g1_pow P x (m + n)) \<and>
     (\<forall>x m n. g1_pow P (g1_pow P x m) n = g1_pow P x (m * n)) \<and>
     (\<forall>z m n. gt_pow P (gt_pow P z m) n = gt_pow P z (m * n)) \<and>
     (\<forall>z m n. gt_div P (gt_pow P z m) (gt_pow P z n) = gt_pow P z (m - n)) \<and>
     (\<forall>x y m n. pairing_apply P (g1_pow P x m) (g1_pow P y n) =
        gt_pow P (pairing_apply P x y) (m * n))"

definition pbc_codec :: "('g, 't) pbc \<Rightarrow> nat \<Rightarrow> bool" where
  "pbc_codec P n \<longleftrightarrow>
     (\<forall>x. length (g1_to_bytes_compressed P x) = n) \<and>
     (\<forall>x. g1_from_bytes_compressed P (g1_to_bytes_compressed P x) = x)"

subsection \<open>Data of bkem.h\<close>

record bkem_global_params =
  gN :: int
  gB :: int
  gA :: int

record 'g pubkey =
  pk_g :: 'g
  g_i :: "'g list"
  v_i :: "'g list"

record ('g, 't) keypair =
  HDR :: "'g list"
  keyK :: 't

datatype bkem_error =
    ReceiverOutOfRange nat \<comment> \<open>the logged early return: the output is never written\<close>
  | OutOfBounds            \<comment> \<open>an array read or write outside the array\<close>
  | DivisionByZero
  | FileMissing            \<comment> \<open>\<^verbatim>\<open>fopen\<close> returned a null pointer that is then used\<close>

subsection \<open>System parameters\<close>

text \<open>\<^verbatim>\<open>(int) sqrt(N)\<close> of a non-negative integer: the integer square root.\<close>

fun isqrt_from :: "nat \<Rightarrow> nat \<Rightarrow> nat" where
  "isqrt_from 0 n = 0"
| "isqrt_from (Suc k) n = (if Suc k * Suc k \<le> n then Suc k else isqrt_from k n)"

definition isqrt :: "nat \<Rightarrow> nat" where
  "isqrt n = isqrt_from n n"

definition MAX_REALY_NUMBER :: nat where
  "MAX_REALY_NUMBER = 1000"

definition setup_global_system :: "nat \<Rightarrow> bkem_error + bkem_global_params" where
  "setup_global_system n =
     (let b = int (isqrt n)
      in if b = 0 then Inl DivisionByZero
         else let a = c_div (int n + b - 1) b
              in Inr \<lparr>gN = a * b, gB = b, gA = a\<rparr>)"

subsection \<open>Encapsulation and decapsulation\<close>

text \<open>The loop of \<^verbatim>\<open>get_encryption_key\<close> over the receivers.\<close>

fun mul_receivers ::
  "('g, 't) pbc \<Rightarrow> bkem_global_params \<Rightarrow> 'g pubkey \<Rightarrow> nat \<Rightarrow> int list \<Rightarrow> 'g list \<Rightarrow>
   bkem_error + 'g list" where
  "mul_receivers P gps PK i [] hdr = Inr hdr"
| "mul_receivers P gps PK i (s # S) hdr =
     (if s < 0 \<or> s \<ge> gN gps then Inl (ReceiverOutOfRange i)
      else let line = c_div s (gB gps); pos = c_mod s (gB gps)
           in case (arr_get hdr (line + 1), arr_get (g_i PK) (gB gps - 1 - pos)) of
                (Some h, Some g) \<Rightarrow>
                  (case arr_set hdr (line + 1) (g1_mul P h g) of
                     Some hdr' \<Rightarrow> mul_receivers P gps PK (Suc i) S hdr'
                   | None \<Rightarrow> Inl OutOfBounds)
              | _ \<Rightarrow> Inl OutOfBounds)"

definition get_encryption_key ::
  "('g, 't) pbc \<Rightarrow> int \<Rightarrow> int list \<Rightarrow> 'g pubkey \<Rightarrow> bkem_global_params \<Rightarrow>
   bkem_error + ('g, 't) keypair" where
  "get_encryption_key P t S PK gps =
     (case (arr_get (g_i PK) (gB gps - 1), arr_get (g_i PK) 0) of
        (Some gB', Some g0) \<Rightarrow>
          let K = gt_pow P (pairing_apply P gB' g0) t;
              hdr0 = g1_pow P (pk_g PK) t
          in if int (length (v_i PK)) < gA gps then Inl OutOfBounds
             else (case mul_receivers P gps PK 0 S (hdr0 # take (nat (gA gps)) (v_i PK)) of
                     Inl e \<Rightarrow> Inl e
                   | Inr hdr \<Rightarrow>
                       Inr \<lparr>HDR = hd hdr # map (\<lambda>h. g1_pow P h t) (tl hdr), keyK = K\<rparr>)
      | _ \<Rightarrow> Inl OutOfBounds)"

text \<open>The loop of \<^verbatim>\<open>get_decryption_key\<close>: its range test lets \<open>S[i] = N\<close> pass.\<close>

fun mul_others ::
  "('g, 't) pbc \<Rightarrow> bkem_global_params \<Rightarrow> 'g pubkey \<Rightarrow> int \<Rightarrow> int \<Rightarrow> nat \<Rightarrow> int list \<Rightarrow> 'g \<Rightarrow>
   bkem_error + 'g" where
  "mul_others P gps PK a b i [] temp = Inr temp"
| "mul_others P gps PK a b i (s # S) temp =
     (if s < 0 \<or> s > gN gps then Inl (ReceiverOutOfRange i)
      else let line = c_div s (gB gps); pos = c_mod s (gB gps)
           in if line = a \<and> pos \<noteq> b
              then (case arr_get (g_i PK) (gB gps - pos + b) of
                      Some g \<Rightarrow> mul_others P gps PK a b (Suc i) S (g1_mul P temp g)
                    | None \<Rightarrow> Inl OutOfBounds)
              else mul_others P gps PK a b (Suc i) S temp)"

definition get_decryption_key ::
  "('g, 't) pbc \<Rightarrow> bkem_global_params \<Rightarrow> int list \<Rightarrow> int \<Rightarrow> 'g \<Rightarrow> 'g list \<Rightarrow> 'g pubkey \<Rightarrow>
   bkem_error + 't" where
  "get_decryption_key P gps S index d_i hdr PK =
     (if gB gps = 0 then Inl DivisionByZero
      else let a = c_div index (gB gps); b = c_mod index (gB gps)
           in case (arr_get (g_i PK) b, arr_get hdr (a + 1), arr_get hdr 0) of
                (Some gb, Some h, Some h0) \<Rightarrow>
                  (case mul_others P gps PK a b 0 S d_i of
                     Inl e \<Rightarrow> Inl e
                   | Inr temp \<Rightarrow>
                       Inr (gt_div P (pairing_apply P gb h) (pairing_apply P temp h0)))
              | _ \<Rightarrow> Inl OutOfBounds)"

subsection \<open>Reading the public key file\<close>

text \<open>
  \<^verbatim>\<open>fgets(buf, n, f)\<close>: up to and including the first newline, at most \<open>n - 1\<close> characters;
  at the end of the file the buffer keeps its content (the code never looks at the result).
\<close>

fun fgets_chars :: "nat \<Rightarrow> string \<Rightarrow> string \<times> string" where
  "fgets_chars 0 s = ([], s)"
| "fgets_chars (Suc n) [] = ([], [])"
| "fgets_chars (Suc n) (c # s) =
     (if c = CHR 0x0A then ([c], s)
      else let (l, r) = fgets_chars n s in (c # l, r))"

definition fgets :: "nat \<Rightarrow> string \<Rightarrow> string \<Rightarrow> string \<times> string" where
  "fgets n buf s = (if s = [] then (buf, []) else fgets_chars (n - 1) s)"

fun read_elements ::
  "('g, 't) pbc \<Rightarrow> nat \<Rightarrow> string \<Rightarrow> string \<Rightarrow> 'g list \<times> string \<times> string" where
  "read_elements P 0 buf s = ([], buf, s)"
| "read_elements P (Suc n) buf s =
     (let (buf1, s1) = fgets 512 buf s;
          (es, buf2, s2) = read_elements P n buf1 s1
      in (g1_set_str P buf1 # es, buf2, s2))"

definition bkem_param ::
  "('g, 't) pbc \<Rightarrow> string \<Rightarrow> string option \<Rightarrow> bkem_error + (bkem_global_params \<times> 'g pubkey)" where
  "bkem_param P stale file =
     (if a_param P = None then Inl FileMissing
      else case setup_global_system MAX_REALY_NUMBER of
             Inl e \<Rightarrow> Inl e
           | Inr gps \<Rightarrow>
               (case file of
                  None \<Rightarrow> Inl FileMissing
                | Some s \<Rightarrow>
                    let (l0, s0) = fgets 512 stale s;
                        (gs, l1, s1) = read_elements P (nat (2 * gB gps)) l0 s0;
                        (vs, l2, s2) = read_elements P (nat (gA gps)) l1 s1
                    in Inr (gps, \<lparr>pk_g = g1_set_str P l0, g_i = gs, v_i = vs\<rparr>)))"

subsection \<open>Encoding the keys as text\<close>

text \<open>
  A buffer filled by a sequence of \<^verbatim>\<open>sprintf\<close> calls that each append at the running offset:
  the text, and the number of bytes written beyond the allocation (each call also writes the
  terminating NUL).
\<close>

record outbuf =
  text_of :: string
  overrun :: nat

definition sprintf_all :: "nat \<Rightarrow> byte list \<Rightarrow> outbuf" where
  "sprintf_all cap bs =
     (let s = concat (map hex_byte bs)
      in \<lparr>text_of = s, overrun = (length s + 1) - cap\<rparr>)"

text \<open>Writing \<open>bs\<close> at the start of an existing byte buffer.\<close>

definition overwrite :: "byte list \<Rightarrow> byte list \<Rightarrow> byte list" where
  "overwrite buf bs = take (length buf) bs @ drop (length bs) buf"

text \<open>The bytes the two nested loops over \<open>HDR\<close> and \<open>HdrData\<close> print.\<close>

fun hdr_bytes :: "('g, 't) pbc \<Rightarrow> byte list \<Rightarrow> 'g list \<Rightarrow> byte list" where
  "hdr_bytes P buf [] = []"
| "hdr_bytes P buf (h # hs) =
     (let buf' = overwrite buf (g1_to_bytes_compressed P h) in buf' @ hdr_bytes P buf' hs)"

definition bkem_encryption ::
  "('g, 't) pbc \<Rightarrow> int \<Rightarrow> string \<Rightarrow> string option \<Rightarrow> byte list \<Rightarrow> int list \<Rightarrow>
   bkem_error + (outbuf \<times> outbuf)" where
  "bkem_encryption P t stale file garbage S =
     (case bkem_param P stale file of
        Inl e \<Rightarrow> Inl e
      | Inr (gps, PK) \<Rightarrow>
          (case get_encryption_key P t S PK gps of
             Inl e \<Rightarrow> Inl e
           | Inr kp \<Rightarrow>
               let KeyStr = sprintf_all 512 (gt_to_bytes P (keyK kp));
                   HdrSize = length (g1_to_bytes_compressed P (hd (HDR kp)));
                   Hdr = sprintf_all (2 * HdrSize * nat (gA gps + 1))
                           (hdr_bytes P (take HdrSize (garbage @ replicate HdrSize 0)) (HDR kp))
               in Inr (KeyStr, Hdr)))"

text \<open>
  \<^verbatim>\<open>sscanf(s, "%2X", &v)\<close>: leading white space is skipped; then at most two characters, an
  optional sign followed by hexadecimal digits (a lone \<^verbatim>\<open>0x\<close> has no digits and fails).
\<close>

definition sscanf_2X :: "string \<Rightarrow> byte option" where
  "sscanf_2X s =
     (case dropWhile is_space s of
        [] \<Rightarrow> None
      | [c] \<Rightarrow> map_option of_nat (hex_value c)
      | c # d # _ \<Rightarrow>
          if c = CHR ''0'' \<and> d \<in> {CHR ''x'', CHR ''X''} then None
          else (case (hex_value c, hex_value d) of
                  (Some m, Some n) \<Rightarrow> Some (of_nat (16 * m + n))
                | (Some m, None) \<Rightarrow> Some (of_nat m)
                | (None, Some n) \<Rightarrow>
                    if c = CHR ''+'' then Some (of_nat n)
                    else if c = CHR ''-'' then Some (- of_nat n) else None
                | (None, None) \<Rightarrow> None))"

text \<open>
  The decoding loop advances two characters per byte. The C loop reads on at \<open>offset + 2\<close> even
  when fewer characters were left, so an odd tail ends outside the string: \<open>None\<close>.
\<close>

fun scan_hex :: "string \<Rightarrow> byte list option" where
  "scan_hex s =
     (case sscanf_2X s of
        None \<Rightarrow> Some []
      | Some v \<Rightarrow>
          (case s of
             c # d # r \<Rightarrow> map_option ((#) v) (scan_hex r)
           | _ \<Rightarrow> None))"

declare scan_hex.simps [simp del]

text \<open>
  Each conversion stores an \<^verbatim>\<open>unsigned int\<close> (four bytes, little endian) through a pointer to a
  single byte, so three zero bytes follow the last decoded one. The result is the content of the
  \<open>n\<close>-byte buffer and the number of bytes written beyond it.
\<close>

definition decode_hdr :: "nat \<Rightarrow> byte list \<Rightarrow> string \<Rightarrow> (byte list \<times> nat) option" where
  "decode_hdr n garbage s =
     (case scan_hex s of
        None \<Rightarrow> None
      | Some vs \<Rightarrow>
          let written = (if vs = [] then [] else vs @ [0, 0, 0])
          in Some (overwrite (take n (garbage @ replicate n 0)) written,
                   length written - n))"

definition bkem_decryption ::
  "('g, 't) pbc \<Rightarrow> string \<Rightarrow> string option \<Rightarrow> string option \<Rightarrow> byte list \<Rightarrow> int list \<Rightarrow> int \<Rightarrow>
   string list \<Rightarrow> bkem_error + outbuf" where
  "bkem_decryption P stale file skfile garbage S index Hdr =
     (case bkem_param P stale file of
        Inl e \<Rightarrow> Inl e
      | Inr (gps, PK) \<Rightarrow>
          (case skfile of
             None \<Rightarrow> Inl FileMissing
           | Some sk \<Rightarrow>
               let d_i = g1_set_str P (fst (fgets 512 stale sk));
                   HdrDataSize = length (hd Hdr) div 2;
                   n = nat (gA gps + 1)
               in if length Hdr < n then Inl OutOfBounds
                  else (case those (map (decode_hdr HdrDataSize garbage) (take n Hdr)) of
                          None \<Rightarrow> Inl OutOfBounds
                        | Some ds \<Rightarrow>
                            (case get_decryption_key P gps S index d_i
                                    (map (g1_from_bytes_compressed P \<circ> fst) ds) PK of
                               Inl e \<Rightarrow> Inl e
                             | Inr K \<Rightarrow> Inr (sprintf_all 512 (gt_to_bytes P K))))))"

subsection \<open>Exponent arithmetic of the scheme\<close>

text \<open>
  Well-formed key material of the scheme of Boneh, Gentry and Waters with \<open>A\<close> rows of \<open>B\<close>
  users: \<open>g_i[k]\<close> is the generator to the power \<open>\<alpha>^(k+1)\<close>, except for \<open>k = B\<close>, whose entry is
  not used, and \<open>v_i[l]\<close> is the generator to the row secret \<open>\<gamma> l\<close>.
\<close>

definition bkem_keys ::
  "('g, 't) pbc \<Rightarrow> int \<Rightarrow> (nat \<Rightarrow> int) \<Rightarrow> nat \<Rightarrow> nat \<Rightarrow> bkem_global_params \<Rightarrow> 'g pubkey \<Rightarrow> bool" where
  "bkem_keys P \<alpha> \<gamma> A B gps PK \<longleftrightarrow>
     gps = \<lparr>gN = int A * int B, gB = int B, gA = int A\<rparr> \<and> 0 < A \<and> 0 < B \<and>
     length (g_i PK) = 2 * B \<and> length (v_i PK) = A \<and>
     (\<forall>k < 2 * B. k \<noteq> B \<longrightarrow> g_i PK ! k = g1_pow P (pk_g PK) (\<alpha> ^ (k + 1))) \<and>
     (\<forall>l < A. v_i PK ! l = g1_pow P (pk_g PK) (\<gamma> l))"

text \<open>The private key of user \<open>i\<close>: its row secret applied to its own public element.\<close>

definition bkem_secret :: "('g, 't) pbc \<Rightarrow> int \<Rightarrow> (nat \<Rightarrow> int) \<Rightarrow> nat \<Rightarrow> 'g pubkey \<Rightarrow> nat \<Rightarrow> 'g" where
  "bkem_secret P \<alpha> \<gamma> B PK i = g1_pow P (pk_g PK) (\<alpha> ^ (i mod B + 1) * \<gamma> (i div B))"

text \<open>The exponent a row of the header gains from the receivers, and its decapsulation part.\<close>

definition row_exp :: "int \<Rightarrow> nat \<Rightarrow> int list \<Rightarrow> nat \<Rightarrow> int" where
  "row_exp \<alpha> B S l =
     (\<Sum>s\<leftarrow>S. if s div int B = int l then \<alpha> ^ (B - nat (s mod int B)) else 0)"

definition others_exp :: "int \<Rightarrow> nat \<Rightarrow> int list \<Rightarrow> nat \<Rightarrow> nat \<Rightarrow> int" where
  "others_exp \<alpha> B S a b =
     (\<Sum>s\<leftarrow>S. if s div int B = int a \<and> s mod int B \<noteq> int b
             then \<alpha> ^ (B - nat (s mod int B) + b + 1) else 0)"

lemma row_exp_Cons:
  "row_exp \<alpha> B (s # S) l =
     (if s div int B = int l then \<alpha> ^ (B - nat (s mod int B)) else 0) + row_exp \<alpha> B S l"
  by (simp add: row_exp_def)

text \<open>
  The algebra behind decapsulation: multiplying a row's exponent by \<open>\<alpha>^(b+1)\<close> and removing the
  other receivers leaves one \<open>\<alpha>^(B+1)\<close> for each occurrence of the user in the receiver list.
\<close>

lemma row_minus_others:
  assumes "b < B"
  shows "\<alpha> ^ (b + 1) * row_exp \<alpha> B S a - others_exp \<alpha> B S a b =
         int (count_list S (int (a * B + b))) * \<alpha> ^ (B + 1)"
proof (induction S)
  case Nil
  show ?case by (simp add: row_exp_def others_exp_def)
next
  case (Cons s S)
  have pos: "0 \<le> s mod int B" "s mod int B < int B" using assms by simp_all
  have here: "s = int (a * B + b) \<longleftrightarrow> s div int B = int a \<and> s mod int B = int b"
  proof
    assume "s div int B = int a \<and> s mod int B = int b"
    then show "s = int (a * B + b)"
      by (metis div_mult_mod_eq of_nat_add of_nat_mult)
  qed (use assms in auto)
  have shift: "\<alpha> ^ (b + 1) * \<alpha> ^ (B - nat (s mod int B)) = \<alpha> ^ (B - nat (s mod int B) + b + 1)"
    by (simp flip: power_add add: ac_simps)
  have own: "\<alpha> ^ b * \<alpha> ^ (B - b) = \<alpha> ^ B"
    using assms by (simp flip: power_add)
  show ?case
    using Cons.IH here shift own
    by (auto simp: row_exp_def others_exp_def algebra_simps power_add)
qed

lemma pbc_lawsD:
  assumes "pbc_laws P"
  shows "g1_pow P x 1 = x"
    and "g1_mul P (g1_pow P x m) (g1_pow P x n) = g1_pow P x (m + n)"
    and "g1_pow P (g1_pow P x m) n = g1_pow P x (m * n)"
    and "gt_pow P (gt_pow P z m) n = gt_pow P z (m * n)"
    and "gt_div P (gt_pow P z m) (gt_pow P z n) = gt_pow P z (m - n)"
    and "pairing_apply P (g1_pow P x m) (g1_pow P y n) = gt_pow P (pairing_apply P x y) (m * n)"
  using assms by (simp_all add: pbc_laws_def)

lemma update_upt_map:
  "k < n \<Longrightarrow> (map f [0..<n])[k := v] = map (f(k := v)) [0..<n]"
  by (rule nth_equalityI) (auto simp: nth_list_update)

lemma receiver_split:
  assumes "0 \<le> s" "s < int A * int B" "0 < B"
  obtains l k where "l < A" "k < B" "s div int B = int l" "s mod int B = int k"
proof -
  obtain m where m: "s = int m" using assms(1) nonneg_int_cases by blast
  have "int m < int (A * B)" using assms(2) m by simp
  then have "m div B < A" by (metis less_mult_imp_div_less of_nat_less_iff)
  then show ?thesis
    using that [of "m div B" "m mod B"] assms(3) m by (simp add: zdiv_int zmod_int)
qed

lemma mul_receivers_exp:
  assumes laws: "pbc_laws P" and keys: "bkem_keys P \<alpha> \<gamma> A B gps PK"
    and range: "\<forall>s \<in> set S. 0 \<le> s \<and> s < gN gps"
  shows "mul_receivers P gps PK i S (h0 # map (\<lambda>l. g1_pow P (pk_g PK) (x l)) [0..<A]) =
         Inr (h0 # map (\<lambda>l. g1_pow P (pk_g PK) (x l + row_exp \<alpha> B S l)) [0..<A])"
  using range
proof (induction S arbitrary: i x)
  case Nil
  show ?case by (simp add: row_exp_def)
next
  case (Cons s S)
  from keys have gps: "gN gps = int A * int B" "gB gps = int B" "gA gps = int A" "0 < B"
    and g: "\<And>k. k < B \<Longrightarrow> g_i PK ! k = g1_pow P (pk_g PK) (\<alpha> ^ (k + 1))"
    and len: "length (g_i PK) = 2 * B"
    by (auto simp: bkem_keys_def)
  obtain l k where lk: "l < A" "k < B" "s div int B = int l" "s mod int B = int k"
    using receiver_split [of s A B] Cons.prems gps by auto
  define x' where "x' = x(l := x l + \<alpha> ^ (B - k))"
  have ix: "int B - 1 - int k = int (B - 1 - k)" "int l + 1 = int (Suc l)"
    using lk(2) by simp_all
  have "mul_receivers P gps PK i (s # S) (h0 # map (\<lambda>l. g1_pow P (pk_g PK) (x l)) [0..<A]) =
        mul_receivers P gps PK (Suc i) S (h0 # map (\<lambda>l. g1_pow P (pk_g PK) (x' l)) [0..<A])"
    using Cons.prems gps lk len
    by (simp add: ix g pbc_lawsD [OF laws] update_upt_map x'_def Suc_diff_Suc fun_upd_def
        if_distrib cong: if_cong del: of_nat_Suc of_nat_diff)
  also have "\<dots> = Inr (h0 # map (\<lambda>l. g1_pow P (pk_g PK) (x' l + row_exp \<alpha> B S l)) [0..<A])"
    using Cons.prems by (intro Cons.IH) auto
  also have "(\<lambda>l. x' l + row_exp \<alpha> B S l) = (\<lambda>l. x l + row_exp \<alpha> B (s # S) l)"
    using lk by (auto simp: x'_def row_exp_Cons)
  finally show ?case using fun_cong by (metis (no_types, lifting))
qed

lemma get_encryption_key_exp:
  assumes laws: "pbc_laws P" and keys: "bkem_keys P \<alpha> \<gamma> A B gps PK"
    and range: "\<forall>s \<in> set S. 0 \<le> s \<and> s < gN gps"
  shows "get_encryption_key P t S PK gps =
         Inr \<lparr>HDR = g1_pow P (pk_g PK) t #
                   map (\<lambda>l. g1_pow P (pk_g PK) ((\<gamma> l + row_exp \<alpha> B S l) * t)) [0..<A],
              keyK = gt_pow P (pairing_apply P (pk_g PK) (pk_g PK)) (\<alpha> ^ (B + 1) * t)\<rparr>"
proof -
  from keys have gps: "gN gps = int A * int B" "gB gps = int B" "gA gps = int A" "0 < B" "0 < A"
    and g: "\<And>k. k < B \<Longrightarrow> g_i PK ! k = g1_pow P (pk_g PK) (\<alpha> ^ (k + 1))"
    and len: "length (g_i PK) = 2 * B" "length (v_i PK) = A"
    and v: "\<And>l. l < A \<Longrightarrow> v_i PK ! l = g1_pow P (pk_g PK) (\<gamma> l)"
    by (auto simp: bkem_keys_def)
  have vs: "v_i PK = map (\<lambda>l. g1_pow P (pk_g PK) (\<gamma> l)) [0..<A]"
    using len v by (intro nth_equalityI) auto
  have last: "arr_get (g_i PK) (int B - 1) = Some (g1_pow P (pk_g PK) (\<alpha> ^ B))"
    using gps len g [of "B - 1"] by (simp add: arr_get_def nat_diff_distrib')
  have first: "arr_get (g_i PK) 0 = Some (g1_pow P (pk_g PK) \<alpha>)"
    using gps len g [of 0] by (simp add: arr_get_def)
  have row: "mul_receivers P gps PK 0 S (g1_pow P (pk_g PK) t # v_i PK) =
      Inr (g1_pow P (pk_g PK) t #
           map (\<lambda>l. g1_pow P (pk_g PK) (\<gamma> l + row_exp \<alpha> B S l)) [0..<A])"
    using mul_receivers_exp [OF laws keys range] by (simp add: vs)
  show ?thesis
    using gps len by (simp add: get_encryption_key_def last first row pbc_lawsD [OF laws] ac_simps)
qed

lemma mul_others_exp:
  assumes laws: "pbc_laws P" and keys: "bkem_keys P \<alpha> \<gamma> A B gps PK"
    and range: "\<forall>s \<in> set S. 0 \<le> s \<and> s < gN gps" and b: "b < B"
  shows "mul_others P gps PK (int a) (int b) i S (g1_pow P (pk_g PK) x) =
         Inr (g1_pow P (pk_g PK) (x + others_exp \<alpha> B S a b))"
  using range
proof (induction S arbitrary: i x)
  case Nil
  show ?case by (simp add: others_exp_def)
next
  case (Cons s S)
  from keys have gps: "gN gps = int A * int B" "gB gps = int B" "0 < B"
    and g: "\<And>k. k < 2 * B \<Longrightarrow> k \<noteq> B \<Longrightarrow> g_i PK ! k = g1_pow P (pk_g PK) (\<alpha> ^ (k + 1))"
    and len: "length (g_i PK) = 2 * B"
    by (auto simp: bkem_keys_def)
  obtain l k where lk: "l < A" "k < B" "s div int B = int l" "s mod int B = int k"
    using receiver_split [of s A B] Cons.prems gps by auto
  define e where "e = B - k + b"
  have ix: "int B - int k + int b = int e" using lk(2) by (simp add: e_def)
  have own: "g_i PK ! e = g1_pow P (pk_g PK) (\<alpha> ^ (e + 1))" "e < 2 * B" if "k \<noteq> b"
    using g [of e] that lk(2) b by (simp_all add: e_def)
  have step: "others_exp \<alpha> B (s # S) a b =
      (if l = a \<and> k \<noteq> b then \<alpha> ^ (e + 1) else 0) + others_exp \<alpha> B S a b"
    using lk by (simp add: others_exp_def e_def)
  have IH: "mul_others P gps PK (int a) (int b) (Suc i) S (g1_pow P (pk_g PK) y) =
       Inr (g1_pow P (pk_g PK) (y + others_exp \<alpha> B S a b))" for y
    using Cons.prems by (intro Cons.IH) auto
  show ?case
    using Cons.prems gps lk b
    by (auto simp: ix own IH len pbc_lawsD [OF laws] step add.assoc)
qed

lemma get_decryption_key_exp:
  assumes laws: "pbc_laws P" and keys: "bkem_keys P \<alpha> \<gamma> A B gps PK"
    and range: "\<forall>s \<in> set S. 0 \<le> s \<and> s < gN gps" and i: "int i < gN gps"
    and enc: "get_encryption_key P t S PK gps = Inr kp"
  shows "get_decryption_key P gps S (int i) (bkem_secret P \<alpha> \<gamma> B PK i) (HDR kp) PK =
         Inr (gt_pow P (keyK kp) (int (count_list S (int i))))"
proof -
  from keys have gps: "gN gps = int A * int B" "gB gps = int B" "0 < B"
    and g: "\<And>k. k < B \<Longrightarrow> g_i PK ! k = g1_pow P (pk_g PK) (\<alpha> ^ (k + 1))"
    and len: "length (g_i PK) = 2 * B"
    by (auto simp: bkem_keys_def)
  define a b where "a = i div B" and "b = i mod B"
  have ab: "a < A" "b < B" "a * B + b = i"
    using i gps by (auto simp: a_def b_def less_mult_imp_div_less simp flip: of_nat_mult)
  let ?gg = "pairing_apply P (pk_g PK) (pk_g PK)"
  let ?o = "others_exp \<alpha> B S a b" and ?r = "row_exp \<alpha> B S a"
  have kp: "HDR kp = g1_pow P (pk_g PK) t #
        map (\<lambda>l. g1_pow P (pk_g PK) ((\<gamma> l + row_exp \<alpha> B S l) * t)) [0..<A]"
      "keyK kp = gt_pow P ?gg (\<alpha> ^ (B + 1) * t)"
    using enc get_encryption_key_exp [OF laws keys range, of t] by auto
  have others: "mul_others P gps PK (int a) (int b) 0 S (bkem_secret P \<alpha> \<gamma> B PK i) =
      Inr (g1_pow P (pk_g PK) (\<alpha> ^ (b + 1) * \<gamma> a + ?o))"
    using mul_others_exp [OF laws keys range ab(2)] by (simp add: bkem_secret_def a_def b_def)
  have ix: "int a + 1 = int (Suc a)" by simp
  have "get_decryption_key P gps S (int i) (bkem_secret P \<alpha> \<gamma> B PK i) (HDR kp) PK =
      Inr (gt_pow P ?gg (\<alpha> ^ (b + 1) * ((\<gamma> a + ?r) * t) - (\<alpha> ^ (b + 1) * \<gamma> a + ?o) * t))"
    using gps ab len others unfolding get_decryption_key_def a_def b_def
    by (simp add: kp ix g pbc_lawsD [OF laws] arr_get_def nat_add_distrib
        flip: zdiv_int zmod_int)
  also have "\<alpha> ^ (b + 1) * ((\<gamma> a + ?r) * t) - (\<alpha> ^ (b + 1) * \<gamma> a + ?o) * t =
      \<alpha> ^ (B + 1) * t * int (count_list S (int i))"
    using row_minus_others [OF ab(2), of \<alpha> S a, unfolded ab(3)] by (simp add: algebra_simps)
  finally show ?thesis by (simp add: kp pbc_lawsD [OF laws])
qed

subsection \<open>The text encoding\<close>

lemma scan_hex_Nil [simp]: "scan_hex [] = Some []"
  by (simp add: scan_hex.simps sscanf_2X_def)

lemma hex_byte_not_space: "dropWhile is_space (hex_byte b @ s) = hex_byte b @ s"
proof -
  have "\<not> is_space (hex_digit_upper n)" if "n < 16" for n
    using that by (auto simp: is_space_def of_char_hex_digit_upper intro!: char_neqI split: if_splits)
  then show ?thesis by (simp add: hex_byte_def)
qed

lemma hex_digit_upper_not_x: "n < 16 \<Longrightarrow> hex_digit_upper n \<noteq> CHR ''x'' \<and> hex_digit_upper n \<noteq> CHR ''X''"
  by (auto simp: of_char_hex_digit_upper intro!: char_neqI split: if_splits)

lemma sscanf_2X_hex_byte [simp]: "sscanf_2X (hex_byte b @ s) = Some b"
proof -
  have "sscanf_2X (hex_byte b @ s) = Some (of_nat (16 * (unat b div 16) + unat b mod 16))"
    unfolding sscanf_2X_def hex_byte_not_space
    using hex_digit_upper_not_x [of "unat b mod 16"] by (auto simp: hex_byte_def)
  then show ?thesis by simp
qed

lemma scan_hex_concat [simp]: "scan_hex (concat (map hex_byte bs)) = Some bs"
proof (induction bs)
  case (Cons b bs)
  obtain c d where cd: "hex_byte b = [c, d]" by (simp add: hex_byte_def)
  then have "sscanf_2X (c # d # concat (map hex_byte bs)) = Some b"
    using sscanf_2X_hex_byte [of b "concat (map hex_byte bs)"] by simp
  then show ?case using Cons by (simp add: cd scan_hex.simps [of "c # d # concat (map hex_byte bs)"])
qed simp

lemma decode_hdr_hex:
  assumes "length bs = n" "0 < n"
  shows "decode_hdr n garbage (concat (map hex_byte bs)) = Some (bs, 3)"
  using assms by (auto simp: decode_hdr_def overwrite_def Let_def)

lemma hdr_bytes_codec:
  assumes "pbc_codec P n" "length buf = n"
  shows "hdr_bytes P buf hs = concat (map (g1_to_bytes_compressed P) hs)"
  using assms(2)
  by (induction hs arbitrary: buf) (use assms(1) in \<open>auto simp: pbc_codec_def overwrite_def Let_def\<close>)

lemma length_hdr_concat:
  "pbc_codec P n \<Longrightarrow> length (concat (map (g1_to_bytes_compressed P) hs)) = n * length hs"
  by (rule length_concat_map_const) (simp add: pbc_codec_def)

lemma sprintf_all_text [simp]: "text_of (sprintf_all cap bs) = concat (map hex_byte bs)"
  by (simp add: sprintf_all_def Let_def)

lemma sprintf_all_overrun: "overrun (sprintf_all cap bs) = 2 * length bs + 1 - cap"
  by (simp add: sprintf_all_def Let_def length_concat_map_const [where n = 2])

subsection \<open>System parameters and the key file\<close>

lemma isqrt_from_bounds:
  "n < Suc k * Suc k \<Longrightarrow>
   isqrt_from k n * isqrt_from k n \<le> n \<and> n < Suc (isqrt_from k n) * Suc (isqrt_from k n)"
  by (induction k) auto

lemma isqrt_bounds: "isqrt n * isqrt n \<le> n" "n < Suc (isqrt n) * Suc (isqrt n)"
  using isqrt_from_bounds [of n n] by (auto simp: isqrt_def)

lemma isqrt_unique:
  assumes "b * b \<le> n" "n < Suc b * Suc b"
  shows "isqrt n = b"
proof (rule antisym)
  show "isqrt n \<le> b"
    using isqrt_bounds(1) [of n] assms(2) by (metis le_less_trans less_Suc_eq_le mult_le_mono not_less)
  show "b \<le> isqrt n"
    using isqrt_bounds(2) [of n] assms(1) by (metis le_less_trans less_Suc_eq_le mult_le_mono not_less)
qed

lemma setup_1000: "setup_global_system MAX_REALY_NUMBER = Inr \<lparr>gN = 1023, gB = 31, gA = 33\<rparr>"
proof -
  have "isqrt MAX_REALY_NUMBER = 31"
    by (rule isqrt_unique) (simp_all add: MAX_REALY_NUMBER_def)
  then show ?thesis by (simp add: setup_global_system_def MAX_REALY_NUMBER_def Let_def)
qed

text \<open>A line of the key file: no newline inside, and short enough for the 512-byte buffer.\<close>

definition key_line :: "string \<Rightarrow> bool" where
  "key_line l \<longleftrightarrow> CHR 0x0A \<notin> set l \<and> length l \<le> 510"

lemma fgets_chars_line:
  "CHR 0x0A \<notin> set l \<Longrightarrow> length l < n \<Longrightarrow>
   fgets_chars n (l @ CHR 0x0A # s) = (l @ [CHR 0x0A], s)"
proof (induction l arbitrary: n)
  case Nil
  then show ?case by (cases n) auto
next
  case (Cons c l)
  then show ?case by (cases n) auto
qed

lemma fgets_line [simp]:
  "key_line l \<Longrightarrow> fgets 512 buf (l @ CHR 0x0A # s) = (l @ [CHR 0x0A], s)"
  by (simp add: fgets_def key_line_def fgets_chars_line)

lemma read_elements_lines:
  "\<forall>l \<in> set ls. key_line l \<Longrightarrow> length ls = n \<Longrightarrow>
   \<exists>buf'. read_elements P n buf (concat (map (\<lambda>l. l @ [CHR 0x0A]) ls) @ s) =
     (map (\<lambda>l. g1_set_str P (l @ [CHR 0x0A])) ls, buf', s)"
proof (induction ls arbitrary: n buf)
  case (Cons l ls)
  then obtain m where m: "n = Suc m" "length ls = m" by (cases n) auto
  obtain buf' where
    "read_elements P m (l @ [CHR 0x0A]) (concat (map (\<lambda>l. l @ [CHR 0x0A]) ls) @ s) =
     (map (\<lambda>l. g1_set_str P (l @ [CHR 0x0A])) ls, buf', s)"
    using Cons.IH [of m "l @ [CHR 0x0A]"] Cons.prems m(2) by auto
  then show ?case using Cons.prems(1) m(1) by simp
qed simp

subsection \<open>A concrete pairing\<close>

text \<open>
  The ring of integers modulo 256 as a pairing: both groups additive, the pairing is
  multiplication, elements are encoded in 65 bytes, and every line of a key file denotes 1.
\<close>

definition demo_pbc :: "(byte, byte) pbc" where
  "demo_pbc = \<lparr>a_param = Some ''type a'', g1_mul = (+), g1_pow = (\<lambda>x n. x * of_int n), gt_pow = (\<lambda>x n. x * of_int n),
     gt_div = (-), pairing_apply = (*), g1_set_str = (\<lambda>_. 1), gt_to_bytes = (\<lambda>x. replicate 16 x),
     g1_to_bytes_compressed = (\<lambda>x. replicate 64 0 @ [x]),
     g1_from_bytes_compressed = (\<lambda>bs. bs ! 64)\<rparr>"

lemma demo_pbc_laws: "pbc_laws demo_pbc"
  by (simp add: pbc_laws_def demo_pbc_def algebra_simps)

lemma demo_pbc_codec: "pbc_codec demo_pbc 65"
  by (simp add: pbc_codec_def demo_pbc_def nth_append)

definition demo_pubkey :: "byte pubkey" where
  "demo_pubkey = \<lparr>pk_g = 1, g_i = replicate 62 1, v_i = replicate 33 1\<rparr>"

definition demo_gps :: bkem_global_params where
  "demo_gps = \<lparr>gN = 1023, gB = 31, gA = 33\<rparr>"

lemma demo_keys: "bkem_keys demo_pbc 1 (\<lambda>_. 1) 33 31 demo_gps demo_pubkey"
  by (simp add: bkem_keys_def demo_pbc_def demo_gps_def demo_pubkey_def)

lemma demo_read_elements:
  "\<exists>buf' s'. read_elements demo_pbc n buf s = (replicate n 1, buf', s')"
proof (induction n arbitrary: buf s)
  case (Suc n)
  obtain b1 s1 where "fgets 512 buf s = (b1, s1)" by fastforce
  moreover obtain b2 s2 where "read_elements demo_pbc n b1 s1 = (replicate n 1, b2, s2)"
    using Suc.IH by blast
  ultimately show ?case by (simp add: demo_pbc_def)
qed simp

lemma demo_param: "bkem_param demo_pbc stale (Some s) = Inr (demo_gps, demo_pubkey)"
proof -
  obtain l0 s0 where a: "fgets 512 stale s = (l0, s0)" by fastforce
  obtain l1 s1 where b: "read_elements demo_pbc 62 l0 s0 = (replicate 62 1, l1, s1)"
    using demo_read_elements by blast
  obtain l2 s2 where c: "read_elements demo_pbc 33 l1 s1 = (replicate 33 1, l2, s2)"
    using demo_read_elements by blast
  show ?thesis
    by (simp add: bkem_param_def setup_1000 a b c demo_gps_def demo_pubkey_def) (simp add: demo_pbc_def)
qed

subsection \<open>Properties\<close>

text \<open>
  C2. Correctness of decapsulation (\<^verbatim>\<open>get_decryption_key\<close> against \<^verbatim>\<open>get_encryption_key\<close>): with
  well-formed keys and receivers in range, encapsulation succeeds, and the user \<open>i\<close> with its own
  private key recovers the key raised to the number of times \<open>i\<close> occurs among the receivers: the
  session key itself for a receiver listed once, a power 0 (the neutral element, independent of
  the session key) for a user that is not a receiver.
\<close>

theorem bkem_decapsulation:
  assumes "pbc_laws P" "bkem_keys P \<alpha> \<gamma> A B gps PK"
    and "\<forall>s \<in> set S. 0 \<le> s \<and> s < gN gps" "int i < gN gps"
  shows "\<exists>kp. get_encryption_key P t S PK gps = Inr kp \<and>
     get_decryption_key P gps S (int i) (bkem_secret P \<alpha> \<gamma> B PK i) (HDR kp) PK =
       Inr (gt_pow P (keyK kp) (int (count_list S (int i))))"
  using get_encryption_key_exp [OF assms(1-3)] get_decryption_key_exp [OF assms] by blast

theorem bkem_decapsulation_witness:
  "\<exists>kp. get_encryption_key demo_pbc 7 [3, 40, 5] demo_pubkey demo_gps = Inr kp \<and>
     get_decryption_key demo_pbc demo_gps [3, 40, 5] (int 40)
       (bkem_secret demo_pbc 1 (\<lambda>_. 1) 31 demo_pubkey 40) (HDR kp) demo_pubkey =
       Inr (gt_pow demo_pbc (keyK kp) (int (count_list [3, 40, 5] (int 40))))"
  by (rule bkem_decapsulation [OF demo_pbc_laws demo_keys]) (simp_all add: demo_gps_def)

lemma length_HDR:
  assumes "pbc_laws P" "bkem_keys P \<alpha> \<gamma> A B gps PK" "\<forall>s \<in> set S. 0 \<le> s \<and> s < gN gps"
    and "get_encryption_key P t S PK gps = Inr kp"
  shows "length (HDR kp) = nat (gA gps + 1)" "HDR kp \<noteq> []"
  using assms get_encryption_key_exp [OF assms(1-3), of t] by (auto simp: bkem_keys_def nat_add_distrib)

lemma bkem_encryption_text:
  assumes "pbc_codec P n" "bkem_param P stale file = Inr (gps, PK)"
    and "get_encryption_key P t S PK gps = Inr kp"
  shows "bkem_encryption P t stale file garbage S =
           Inr (sprintf_all 512 (gt_to_bytes P (keyK kp)),
                sprintf_all (2 * n * nat (gA gps + 1))
                  (concat (map (g1_to_bytes_compressed P) (HDR kp))))"
proof -
  have len: "length (g1_to_bytes_compressed P h) = n" for h
    using assms(1) by (simp add: pbc_codec_def)
  show ?thesis
    by (simp add: bkem_encryption_def assms(2,3) len Let_def hdr_bytes_codec [OF assms(1)])
qed

text \<open>
  Decapsulation from a header in any text form \<open>enc\<close> of its elements that the decoding loop reads
  back.
\<close>

lemma bkem_decryption_enc:
  assumes laws: "pbc_laws P" and codec: "pbc_codec P n"
    and keys: "bkem_keys P \<alpha> \<gamma> A B gps PK"
    and S: "\<forall>s \<in> set S. 0 \<le> s \<and> s < gN gps" and i: "int i < gN gps"
    and param: "bkem_param P stale file = Inr (gps, PK)"
    and sk: "g1_set_str P (fst (fgets 512 stale sk)) = bkem_secret P \<alpha> \<gamma> B PK i"
    and kp: "get_encryption_key P t S PK gps = Inr kp"
    and enc: "\<And>h. length (enc h) = 2 * n"
      "\<And>h. decode_hdr n garbage (enc h) = Some (g1_to_bytes_compressed P h, 3)"
  shows "bkem_decryption P stale file (Some sk) garbage S (int i) (map enc (HDR kp)) =
    Inr (sprintf_all 512 (gt_to_bytes P (gt_pow P (keyK kp) (int (count_list S (int i))))))"
proof -
  note hlen = length_HDR [OF laws keys S kp]
  have "hd (map enc (HDR kp)) = enc (hd (HDR kp))" using hlen by (simp add: hd_map)
  moreover have "those (map (decode_hdr n garbage) (map enc hs)) =
      Some (map (\<lambda>h. (g1_to_bytes_compressed P h, 3)) hs)" for hs
    by (induction hs) (simp_all add: enc)
  ultimately show ?thesis
    using hlen codec get_decryption_key_exp [OF laws keys S i kp] enc(1)
    by (simp add: bkem_decryption_def param sk Let_def comp_def pbc_codec_def)
qed

lemma bkem_text_roundtrip_aux:
  assumes laws: "pbc_laws P" and codec: "pbc_codec P n" "0 < n"
    and param: "bkem_param P stale file = Inr (gps, PK)"
    and keys: "bkem_keys P \<alpha> \<gamma> A B gps PK"
    and S: "\<forall>s \<in> set S. 0 \<le> s \<and> s < gN gps" and i: "int i < gN gps"
    and sk: "g1_set_str P (fst (fgets 512 stale' sk)) = bkem_secret P \<alpha> \<gamma> B PK i"
    and param': "bkem_param P stale' file' = Inr (gps, PK)"
    and kp: "get_encryption_key P t S PK gps = Inr kp"
  shows "bkem_decryption P stale' file' (Some sk) garbage' S (int i)
           (chunks (2 * n) (concat (map hex_byte
              (concat (map (g1_to_bytes_compressed P) (HDR kp)))))) =
         Inr (sprintf_all 512 (gt_to_bytes P (gt_pow P (keyK kp) (int (count_list S (int i))))))"
proof -
  let ?enc = "\<lambda>h. concat (map hex_byte (g1_to_bytes_compressed P h))"
  have len: "length (g1_to_bytes_compressed P h) = n" for h
    using codec by (simp add: pbc_codec_def)
  have enclen: "length (?enc h) = 2 * n" for h
    using length_concat_map_const [of _ hex_byte 2] len by simp
  have "chunks (2 * n) (concat (map hex_byte
      (concat (map (g1_to_bytes_compressed P) (HDR kp))))) = map ?enc (HDR kp)"
    using chunks_concat [of "2 * n" "map ?enc (HDR kp)"] enclen codec(2)
    by (auto simp: concat_map_concat_map)
  then show ?thesis
    using bkem_decryption_enc [OF laws codec(1) keys S i param' sk kp enclen] decode_hdr_hex [OF len codec(2)]
    by simp
qed

text \<open>
  The text round trip of \<^verbatim>\<open>bkem_encryption\<close> and \<^verbatim>\<open>bkem_decryption\<close>: the header text that a relay
  publishes, cut into the pieces of one encoded element, lets every receiver that is listed once
  recompute exactly the text of the symmetric key, whatever the uninitialised buffers held.
\<close>

theorem bkem_text_roundtrip:
  assumes "pbc_laws P" "pbc_codec P n" "0 < n"
    and "bkem_param P stale file = Inr (gps, PK)" "bkem_param P stale' file' = Inr (gps, PK)"
    and "bkem_keys P \<alpha> \<gamma> A B gps PK"
    and "\<forall>s \<in> set S. 0 \<le> s \<and> s < gN gps" "int i < gN gps" "count_list S (int i) = 1"
    and "g1_set_str P (fst (fgets 512 stale' sk)) = bkem_secret P \<alpha> \<gamma> B PK i"
  shows "\<exists>KeyStr Hdr. bkem_encryption P t stale file garbage S = Inr (KeyStr, Hdr) \<and>
     bkem_decryption P stale' file' (Some sk) garbage' S (int i) (chunks (2 * n) (text_of Hdr)) =
       Inr KeyStr"
proof -
  obtain kp where kp: "get_encryption_key P t S PK gps = Inr kp"
    using get_encryption_key_exp [OF assms(1,6,7)] by blast
  have one: "gt_pow P (keyK kp) 1 = keyK kp"
    using kp get_encryption_key_exp [OF assms(1,6,7), of t]
    by (auto simp: pbc_lawsD [OF assms(1)])
  show ?thesis
    using bkem_text_roundtrip_aux [OF assms(1-4,6-8,10,5) kp] one assms(9)
      bkem_encryption_text [OF assms(2,4) kp] by auto
qed

theorem bkem_text_roundtrip_witness:
  "\<exists>KeyStr Hdr. bkem_encryption demo_pbc 7 [] (Some []) [] [3, 40, 5] = Inr (KeyStr, Hdr) \<and>
     bkem_decryption demo_pbc [] (Some []) (Some []) [9] [3, 40, 5] (int 40)
       (chunks (2 * 65) (text_of Hdr)) = Inr KeyStr"
  by (rule bkem_text_roundtrip [OF demo_pbc_laws demo_pbc_codec _ demo_param demo_param demo_keys])
     (simp_all add: demo_gps_def, simp add: demo_pbc_def bkem_secret_def demo_pubkey_def)

text \<open>
  C30. Memory safety of \<^verbatim>\<open>bkem_encryption\<close>'s output buffers: the header buffer is allocated for the
  hexadecimal digits alone, so the final \<^verbatim>\<open>sprintf\<close> always writes its terminating NUL exactly one
  byte beyond it; the key buffer of 512 bytes is overrun precisely for keys longer than 255 bytes.
\<close>

theorem bkem_encryption_overrun:
  assumes "pbc_laws P" "pbc_codec P n" "0 < n"
    and "bkem_param P stale file = Inr (gps, PK)" "bkem_keys P \<alpha> \<gamma> A B gps PK"
    and "\<forall>s \<in> set S. 0 \<le> s \<and> s < gN gps"
  shows "\<exists>kp KeyStr Hdr. get_encryption_key P t S PK gps = Inr kp \<and>
     bkem_encryption P t stale file garbage S = Inr (KeyStr, Hdr) \<and> overrun Hdr = 1 \<and>
     overrun KeyStr = 2 * length (gt_to_bytes P (keyK kp)) + 1 - 512"
proof -
  obtain kp where kp: "get_encryption_key P t S PK gps = Inr kp"
    using get_encryption_key_exp [OF assms(1,5,6)] by blast
  note hlen = length_HDR(1) [OF assms(1,5,6) kp]
  note bkem_encryption_text [OF assms(2,4) kp]
  then show ?thesis
    using kp by (auto simp: sprintf_all_overrun length_hdr_concat [OF assms(2)] hlen)
qed

theorem bkem_encryption_overrun_witness:
  "\<exists>kp KeyStr Hdr. get_encryption_key demo_pbc 7 [3, 40] demo_pubkey demo_gps = Inr kp \<and>
     bkem_encryption demo_pbc 7 [] (Some []) [] [3, 40] = Inr (KeyStr, Hdr) \<and> overrun Hdr = 1 \<and>
     overrun KeyStr = 2 * length (gt_to_bytes demo_pbc (keyK kp)) + 1 - 512"
  by (rule bkem_encryption_overrun [OF demo_pbc_laws demo_pbc_codec _ demo_param demo_keys])
     (simp_all add: demo_gps_def)

text \<open>
  \<^verbatim>\<open>setup_global_system\<close>: for every positive number of users the grid has room for all of
  them, the width is the integer square root, and fewer than one width of positions is wasted;
  with no users the computation divides by zero.
\<close>

theorem setup_global_system_grid:
  "(case setup_global_system n of
      Inl e \<Rightarrow> n = 0 \<and> e = DivisionByZero
    | Inr gps \<Rightarrow> gB gps * gB gps \<le> int n \<and> int n < (gB gps + 1) * (gB gps + 1) \<and>
        gN gps = gA gps * gB gps \<and> int n \<le> gN gps \<and> gN gps < int n + gB gps)"
proof (cases "isqrt n = 0")
  case True
  then have "n = 0" using isqrt_bounds(2) [of n] by simp
  then show ?thesis using True by (simp add: setup_global_system_def Let_def)
next
  case False
  define b where "b = int (isqrt n)"
  define q where "q = (int n + b - 1) div b"
  have b: "0 < b" using False by (simp add: b_def)
  have sq: "b * b \<le> int n" "int n < (b + 1) * (b + 1)"
    using isqrt_bounds [of n] unfolding b_def by (simp_all flip: of_nat_mult of_nat_add of_nat_Suc add: ac_simps)
  have "q * b + (int n + b - 1) mod b = int n + b - 1"
    unfolding q_def by (rule div_mult_mod_eq)
  moreover have "0 \<le> (int n + b - 1) mod b" "(int n + b - 1) mod b < b" using b by simp_all
  ultimately have "int n \<le> q * b" "q * b < int n + b" by linarith+
  then show ?thesis
    using b sq by (simp add: setup_global_system_def Let_def flip: b_def q_def)
qed

text \<open>
  \<^verbatim>\<open>bkem_param\<close> on a well-formed key file (one element per line, each line short enough for the
  512-byte buffer): the first line is the generator, the next 62 lines are \<open>g_i\<close>, the following
  33 lines are \<open>v_i\<close>, in file order; anything after them is ignored.
\<close>

theorem bkem_param_reads:
  assumes "length gs = 62" "length vs = 33" "\<forall>l \<in> set (l0 # gs @ vs). key_line l" "a_param P \<noteq> None"
  shows "bkem_param P stale
           (Some (concat (map (\<lambda>l. l @ [CHR 0x0A]) (l0 # gs @ vs)) @ rest)) =
         Inr (\<lparr>gN = 1023, gB = 31, gA = 33\<rparr>,
              \<lparr>pk_g = g1_set_str P (l0 @ [CHR 0x0A]),
               g_i = map (\<lambda>l. g1_set_str P (l @ [CHR 0x0A])) gs,
               v_i = map (\<lambda>l. g1_set_str P (l @ [CHR 0x0A])) vs\<rparr>)"
proof -
  let ?cat = "\<lambda>ls. concat (map (\<lambda>l. l @ [CHR 0x0A]) ls)"
  obtain b1 where 1: "read_elements P 62 (l0 @ [CHR 0x0A]) (?cat gs @ ?cat vs @ rest) =
      (map (\<lambda>l. g1_set_str P (l @ [CHR 0x0A])) gs, b1, ?cat vs @ rest)"
    using read_elements_lines [of gs 62 P "l0 @ [CHR 0x0A]" "?cat vs @ rest"] assms by auto
  obtain b2 where 2: "read_elements P 33 b1 (?cat vs @ rest) =
      (map (\<lambda>l. g1_set_str P (l @ [CHR 0x0A])) vs, b2, rest)"
    using read_elements_lines [of vs 33 P b1 rest] assms by auto
  show ?thesis using assms(3,4) 1 2 by (simp add: bkem_param_def setup_1000)
qed

theorem bkem_param_reads_witness:
  "bkem_param demo_pbc [] (Some (concat (map (\<lambda>l. l @ [CHR 0x0A])
       (''[1, 2]'' # replicate 62 ''[3, 4]'' @ replicate 33 ''[5, 6]'')) @ [])) =
     Inr (\<lparr>gN = 1023, gB = 31, gA = 33\<rparr>,
          \<lparr>pk_g = g1_set_str demo_pbc (''[1, 2]'' @ [CHR 0x0A]),
           g_i = map (\<lambda>l. g1_set_str demo_pbc (l @ [CHR 0x0A])) (replicate 62 ''[3, 4]''),
           v_i = map (\<lambda>l. g1_set_str demo_pbc (l @ [CHR 0x0A])) (replicate 33 ''[5, 6]'')\<rparr>)"
  by (rule bkem_param_reads) (auto simp: key_line_def demo_pbc_def)

end
