(* ===== verification/Scanf.thy ===== *)
theory Scanf
  imports Strings
begin

text \<open>
  The project's own \<^verbatim>\<open>sscanf\<close>, \<^verbatim>\<open>src/BADNET/src/lib/string/scanf.c\<close>, and the IPv4 address parser and
  printer of \<^verbatim>\<open>lib/net/inaddr.c\<close> that is built on it. The output arguments are a list of values in the
  order in which they are stored. A buffer is the list of characters before its NUL.
\<close>

subsection \<open>Scanning numbers and strings\<close>

definition MAX_SCANF_WIDTH :: int where "MAX_SCANF_WIDTH = 9999"

definition is_xdigit :: "char \<Rightarrow> bool" where
  "is_xdigit c \<longleftrightarrow> hex_decode_digit c \<ge> 0"

definition scan_digit :: "bool \<Rightarrow> char \<Rightarrow> bool" where
  "scan_digit hex c = (if hex then is_xdigit c else is_digit c)"

definition scan_value :: "bool \<Rightarrow> char \<Rightarrow> int" where
  "scan_value hex c = (if hex then hex_decode_digit c else int (digit_val c))"

text \<open>
  The digit loop: the remaining width, whether a digit was read and the value so far. An overflow
  of \<^verbatim>\<open>unsigned long\<close> fails (\<open>None\<close>).
\<close>

fun scan_digits :: "bool \<Rightarrow> nat \<Rightarrow> bool \<Rightarrow> int \<Rightarrow> string \<Rightarrow> (bool \<times> int \<times> string) option" where
  "scan_digits hex w seen result [] = Some (seen, result, [])"
| "scan_digits hex w seen result (c # buf) =
     (if \<not> scan_digit hex c \<or> w = 0 then Some (seen, result, c # buf)
      else let digit = scan_value hex c; base = (if hex then 16 else 10)
           in if result > (ULONG_MAX - digit) div base then None
              else scan_digits hex (w - 1) True (result * base + digit) buf)"

definition scan_unsigned :: "string \<Rightarrow> int \<Rightarrow> bool \<Rightarrow> (int \<times> string) option" where
  "scan_unsigned buf width hex =
     (case scan_digits hex (nat (if width < 0 then MAX_SCANF_WIDTH else width)) False 0 buf of
        Some (True, u, rest) \<Rightarrow> Some (u, rest)
      | _ \<Rightarrow> None)"

definition scan_signed :: "string \<Rightarrow> int \<Rightarrow> (int \<times> string) option" where
  "scan_signed buf width =
     (let w = (if width < 0 then MAX_SCANF_WIDTH else width);
          neg = (buf \<noteq> [] \<and> hd buf = CHR ''-'')
      in case scan_unsigned (if neg then tl buf else buf) (if neg then w - 1 else w) False of
           None \<Rightarrow> None
         | Some (result, rest) \<Rightarrow>
             if neg \<and> result > 0 then
               (if result > LONG_MAX + 1 then None else Some (- result, rest))
             else if result > LONG_MAX then None else Some (result, rest))"

definition scan_string :: "string \<Rightarrow> int \<Rightarrow> string \<times> string" where
  "scan_string buf width =
     (let n = min (nat width) (length (takeWhile (\<lambda>c. \<not> is_space c) buf))
      in (take n buf, drop n buf))"

subsection \<open>The pattern interpreter\<close>

datatype scan_val = UVal int | IVal int | SVal string | CVal char

definition UINT_MAX :: int where "UINT_MAX = 2 ^ 32 - 1"

text \<open>
  The width of a directive: \<open>None\<close> for a malformed one, \<open>-1\<close> for none.
\<close>

definition scan_width :: "string \<Rightarrow> (int \<times> string) option" where
  "scan_width pattern =
     (let ds = takeWhile is_digit pattern; rest = dropWhile is_digit pattern; w = int (digits_val ds)
      in if ds = [] then Some (-1, pattern)
         else if (\<exists>k < length ds. k \<ge> 1 \<and> int (digits_val (take (k + 1) ds)) > MAX_SCANF_WIDTH) then None
         else if w = 0 then None else Some (w, rest))"

lemma scan_width_le: "scan_width p = Some (w, r) \<Longrightarrow> length r \<le> length p"
  by (auto simp: scan_width_def Let_def length_dropWhile_le split: if_splits)

text \<open>
  \<^verbatim>\<open>tor_vsscanf\<close>: the number of directives matched, or -1 for a malformed pattern, and the stored
  values. The directive \<^verbatim>\<open>%lf\<close> is outside the model (\<open>None\<close>).
\<close>

function tor_vsscanf :: "string \<Rightarrow> string \<Rightarrow> scan_val list \<Rightarrow> (int \<times> scan_val list) option" where
  "tor_vsscanf buf pattern out =
     (let n_matched = int (length out)
      in if pattern = [] then Some (n_matched, out)
         else if hd pattern \<noteq> CHR ''%'' then
           (if buf \<noteq> [] \<and> hd buf = hd pattern then tor_vsscanf (tl buf) (tl pattern) out
            else Some (n_matched, out))
         else case scan_width (tl pattern) of
           None \<Rightarrow> Some (-1, out)
         | Some (width, p1) \<Rightarrow>
             let longmod = (p1 \<noteq> [] \<and> hd p1 = CHR ''l''); p2 = (if longmod then tl p1 else p1)
             in if p2 = [] then Some (-1, out)
                else if hd p2 \<in> {CHR ''u'', CHR ''x''} then
                  (if buf = [] then Some (n_matched, out)
                   else case scan_unsigned buf width (hd p2 = CHR ''x'') of
                          None \<Rightarrow> Some (n_matched, out)
                        | Some (u, rest) \<Rightarrow>
                            if \<not> longmod \<and> u > UINT_MAX then Some (n_matched, out)
                            else tor_vsscanf rest (tl p2) (out @ [UVal u]))
                else if hd p2 = CHR ''f'' then (if longmod then None else Some (-1, out))
                else if hd p2 = CHR ''d'' then
                  (case scan_signed buf width of
                     None \<Rightarrow> Some (n_matched, out)
                   | Some (i, rest) \<Rightarrow>
                       if \<not> longmod \<and> (i < - (2 ^ 31) \<or> i > INT32_MAX) then Some (n_matched, out)
                       else tor_vsscanf rest (tl p2) (out @ [IVal i]))
                else if hd p2 = CHR ''s'' then
                  (if longmod \<or> width < 0 then Some (-1, out)
                   else let (t, rest) = scan_string buf width
                        in tor_vsscanf rest (tl p2) (out @ [SVal t]))
                else if hd p2 = CHR ''c'' then
                  (if longmod \<or> width \<noteq> -1 then Some (-1, out)
                   else if buf = [] then Some (n_matched, out)
                   else tor_vsscanf (tl buf) (tl p2) (out @ [CVal (hd buf)]))
                else if hd p2 = CHR ''%'' then
                  (if buf = [] \<or> hd buf \<noteq> CHR ''%'' then Some (n_matched, out)
                   else if longmod then Some (-1, out)
                   else tor_vsscanf (tl buf) (tl p2) out)
                else Some (-1, out))"
  by pat_completeness auto
termination
  by (relation "measure (\<lambda>(b, p, out). length p)")
    (auto dest!: scan_width_le simp: neq_Nil_conv split: if_splits)

declare tor_vsscanf.simps [simp del]

definition tor_sscanf :: "string \<Rightarrow> string \<Rightarrow> (int \<times> scan_val list) option" where
  "tor_sscanf buf pattern = tor_vsscanf buf pattern []"

subsection \<open>IPv4 addresses\<close>

text \<open>Addresses are 32-bit words in host order.\<close>

definition tor_inet_ntoa :: "uint32 \<Rightarrow> string" where
  "tor_inet_ntoa a = (let octet = (\<lambda>k. show_nat (unat a div 2 ^ k mod 256))
     in octet 24 @ ''.'' @ octet 16 @ ''.'' @ octet 8 @ ''.'' @ octet 0)"

definition tor_inet_aton :: "string \<Rightarrow> uint32 option" where
  "tor_inet_aton str =
     (case tor_sscanf str ''%3u.%3u.%3u.%3u%c'' of
        Some (n, [UVal a, UVal b, UVal c, UVal d]) \<Rightarrow>
          if n \<noteq> 4 then None
          else if (\<exists>octet \<in> set (smartlist_split_string no_split_flags (Some ''.'') 0 str).
                     length octet > 1 \<and> hd octet = CHR ''0'') then None
          else if a > 255 \<or> b > 255 \<or> c > 255 \<or> d > 255 then None
          else Some (of_int (a * 2 ^ 24 + b * 2 ^ 16 + c * 2 ^ 8 + d))
      | _ \<Rightarrow> None)"

subsection \<open>Round trip of addresses\<close>

lemma digit_val_digit: "is_digit c \<Longrightarrow> digit_val c < 10"
  by (auto simp: is_digit_def digit_val_def)

lemma scan_digits_digits:
  assumes "list_all is_digit ds" "length ds \<le> w" "rest = [] \<or> \<not> is_digit (hd rest)"
    "foldl (\<lambda>a c. a * 10 + int (digit_val c)) r ds \<le> ULONG_MAX" "0 \<le> r"
  shows "scan_digits False w seen r (ds @ rest) =
     Some (seen \<or> ds \<noteq> [], foldl (\<lambda>a c. a * 10 + int (digit_val c)) r ds, rest)"
  using assms
proof (induction ds arbitrary: w seen r)
  case Nil
  then show ?case by (cases rest) (auto simp: scan_digit_def)
next
  case (Cons c ds)
  let ?r = "r * 10 + int (digit_val c)"
  have mono: "q \<le> foldl (\<lambda>a c. a * 10 + int (digit_val c)) q xs" if "0 \<le> q" for q xs
    using that
  proof (induction xs arbitrary: q)
    case (Cons x xs)
    have "q \<le> q * 10 + int (digit_val x)" using Cons.prems by simp
    also have "\<dots> \<le> foldl (\<lambda>a c. a * 10 + int (digit_val c)) (q * 10 + int (digit_val x)) xs"
      using Cons.prems by (intro Cons.IH) simp
    finally show ?case by simp
  qed simp
  have "?r \<le> ULONG_MAX" using mono [of ?r ds] Cons.prems(4,5) by simp
  then have "\<not> r > (ULONG_MAX - int (digit_val c)) div 10" by linarith
  then show ?case
    using Cons.IH [of "w - 1" ?r True] Cons.prems by (simp add: scan_digit_def scan_value_def)
qed

lemma foldl_digits: "foldl (\<lambda>a c. a * 10 + int (digit_val c)) (int n) ds = int (foldl (\<lambda>a c. 10 * a + digit_val c) n ds)"
proof (induction ds arbitrary: n)
  case (Cons c ds)
  show ?case using Cons.IH [of "10 * n + digit_val c"] by (simp add: mult.commute)
qed simp

lemma scan_unsigned_show_nat:
  assumes "rest = [] \<or> \<not> is_digit (hd rest)" "n < 1000"
  shows "scan_unsigned (show_nat n @ rest) 3 False = Some (int n, rest)"
proof -
  have val: "foldl (\<lambda>a c. a * 10 + int (digit_val c)) 0 (show_nat n) = int n"
    using foldl_digits [of 0 "show_nat n"] digits_val_show_nat [of n] by (simp add: digits_val_def)
  have "length (show_nat n) \<le> 3" using assms(2) by (intro length_show_nat) auto
  then have "scan_digits False 3 False 0 (show_nat n @ rest) = Some (True, int n, rest)"
    using scan_digits_digits [of "show_nat n" 3 rest 0 False] assms val
    by (simp add: list_all_iff ULONG_MAX_def)
  then show ?thesis by (simp add: scan_unsigned_def)
qed

lemma vsscanf_u3:
  assumes "rest = [] \<or> \<not> is_digit (hd rest)" "n < 1000"
  shows "tor_vsscanf (show_nat n @ rest) (CHR ''%'' # CHR ''3'' # CHR ''u'' # p) out = tor_vsscanf rest p (out @ [UVal (int n)])"
proof -
  have w: "scan_width (CHR ''3'' # CHR ''u'' # p) = Some (3, CHR ''u'' # p)"
    by (simp add: scan_width_def is_digit_def digits_val_def digit_val_def)
  show ?thesis
    using scan_unsigned_show_nat [OF assms] assms(2)
    by (simp add: tor_vsscanf.simps [of "show_nat n @ rest"] w UINT_MAX_def)
qed

lemma vsscanf_lit:
  assumes "c \<noteq> CHR ''%''"
  shows "tor_vsscanf (c # buf) (c # p) out = tor_vsscanf buf p out"
  using assms by (simp add: tor_vsscanf.simps [of "c # buf"])

lemma vsscanf_c_end: "tor_vsscanf [] ''%c'' out = Some (int (length out), out)"
proof -
  have "scan_width ''c'' = Some (-1, ''c'')" by (simp add: scan_width_def is_digit_def)
  then show ?thesis by (simp add: tor_vsscanf.simps [of "[]"])
qed

lemma show_nat_no_leading_zero:
  assumes "length (show_nat n) > 1"
  shows "hd (show_nat n) \<noteq> CHR ''0''"
  using assms
proof (induction n rule: show_nat.induct)
  case (1 n)
  show ?case
  proof (cases "n < 10")
    case False
    have "hd (show_nat (n div 10)) \<noteq> CHR ''0''"
    proof (cases "length (show_nat (n div 10)) > 1")
      case True
      then show ?thesis using 1(1) False by blast
    next
      case short: False
      then have "n div 10 < 10"
        using show_nat.simps [of "n div 10"] show_nat_nonempty [of "n div 10 div 10"] by (auto split: if_splits)
      moreover have "n div 10 \<noteq> 0" using False by simp
      ultimately show ?thesis
        by (subst show_nat.simps) (auto simp: digit_char_def of_char_eq_iff dest!: arg_cong [where f = "of_char :: char \<Rightarrow> nat"])
    qed
    then show ?thesis using False by (subst show_nat.simps) (simp add: hd_append)
  qed (use 1 in \<open>simp add: show_nat.simps\<close>)
qed

lemma octets_of_word:
  fixes a :: uint32
  defines "o4 \<equiv> \<lambda>k :: nat. unat a div 2 ^ k mod 256"
  shows "of_int (int (o4 24) * 2 ^ 24 + int (o4 16) * 2 ^ 16 + int (o4 8) * 2 ^ 8 + int (o4 0)) = a"
proof -
  have "unat a < 2 ^ 32" using unsigned_less [where ?'a = nat and w = a] by simp
  then have "o4 24 = unat a div 2 ^ 24" by (simp add: o4_def less_mult_imp_div_less)
  moreover have "unat a div 2 ^ (k + 8) * 256 + o4 k = unat a div 2 ^ k" for k
    using div_mult_mod_eq [of "unat a div 2 ^ k" 256] by (simp add: o4_def power_add div_mult2_eq)
  note this [of 0] this [of 8] this [of 16]
  ultimately have "o4 24 * 2 ^ 24 + o4 16 * 2 ^ 16 + o4 8 * 2 ^ 8 + o4 0 = unat a" by simp
  then have "of_nat (o4 24 * 2 ^ 24 + o4 16 * 2 ^ 16 + o4 8 * 2 ^ 8 + o4 0) = a" by (simp only: of_nat_unat word_of_nat_eq_iff) simp
  then show ?thesis by simp
qed

lemma inet_sscanf:
  assumes "a < 256" "b < 256" "c < 256" "d < 256"
  shows "tor_sscanf (show_nat a @ ''.'' @ show_nat b @ ''.'' @ show_nat c @ ''.'' @ show_nat d) ''%3u.%3u.%3u.%3u%c'' =
    Some (4, [UVal (int a), UVal (int b), UVal (int c), UVal (int d)])"
proof -
  have dot: "\<not> is_digit (CHR ''.'')" by (simp add: is_digit_def)
  have last: "tor_vsscanf (show_nat d) (CHR ''%'' # CHR ''3'' # CHR ''u'' # p) out = tor_vsscanf [] p (out @ [UVal (int d)])" for p out
    using vsscanf_u3 [of "[]" d] assms(4) by simp
  show ?thesis
    using assms dot by (simp add: tor_sscanf_def vsscanf_u3 vsscanf_lit last vsscanf_c_end)
qed

lemma inet_aton_ntoa: "tor_inet_aton (tor_inet_ntoa a) = Some a"
proof -
  define o4 where "o4 = (\<lambda>k :: nat. unat a div 2 ^ k mod 256)"
  have lt: "o4 k < 256" for k by (simp add: o4_def)
  have shape: "tor_inet_ntoa a = show_nat (o4 24) @ ''.'' @ show_nat (o4 16) @ ''.'' @ show_nat (o4 8) @ ''.'' @ show_nat (o4 0)"
    by (simp add: tor_inet_ntoa_def o4_def)
  have nodot: "CHR ''.'' \<notin> set (show_nat n)" for n using show_nat_digits [of "CHR ''.''" n] by (auto simp: is_digit_def)
  have "smartlist_split_string no_split_flags (Some ''.'') 0 (tor_inet_ntoa a) =
      [show_nat (o4 24), show_nat (o4 16), show_nat (o4 8), show_nat (o4 0)]"
    using smartlist_split_join [of "[show_nat (o4 24), show_nat (o4 16), show_nat (o4 8)]" "CHR ''.''" "show_nat (o4 0)"] nodot
    by (simp add: shape)
  moreover have "tor_sscanf (tor_inet_ntoa a) ''%3u.%3u.%3u.%3u%c'' =
      Some (4, [UVal (int (o4 24)), UVal (int (o4 16)), UVal (int (o4 8)), UVal (int (o4 0))])"
    unfolding shape by (rule inet_sscanf) (rule lt)+
  moreover have "\<not> (length (show_nat n) > 1 \<and> hd (show_nat n) = CHR ''0'')" for n
    using show_nat_no_leading_zero by blast
  moreover have "\<not> int (o4 k) > 255" for k using lt [of k] by linarith
  moreover have "of_int (int (o4 24) * 2 ^ 24 + int (o4 16) * 2 ^ 16 + int (o4 8) * 2 ^ 8 + int (o4 0)) = a"
    unfolding o4_def by (rule octets_of_word)
  ultimately show ?thesis by (simp add: tor_inet_aton_def del: of_int_add of_int_mult)
qed

end
