(* ===== verification/Contract.thy ===== *)
theory Contract
  imports Prelude
begin

text \<open>
  The directory contract \<^verbatim>\<open>src/DirectoryContract.sol\<close> (Solidity 0.7, so integer arithmetic wraps)
  as functions on its storage. A call that reverts (a failed \<^verbatim>\<open>require\<close> or an array index out of
  bounds) is \<open>None\<close>. \<open>msg.sender\<close> is the argument \<open>sender\<close>.
\<close>

type_synonym address = nat

record Relay =
  registered :: bool
  healthflag :: bool
  counter :: uint8
  relay_Hdr :: "byte list"
  encryptedSRI :: "byte list"
  relay_NSD :: "byte list"

definition empty_relay :: Relay where
  "empty_relay = \<lparr>registered = False, healthflag = False, counter = 0, relay_Hdr = [],
     encryptedSRI = [], relay_NSD = []\<rparr>"

record contract =
  owner :: address
  RelayUploadPeriod :: nat
  relayIndex :: uint16
  unhealthyRelaySet :: "uint16 list"
  CurrentCounter :: uint8
  CounterOP :: "uint8 \<Rightarrow> bool"
  CounterList :: "uint8 \<Rightarrow> uint16 list"
  relay_of :: "uint16 \<Rightarrow> Relay"
  relayaddr :: "address \<Rightarrow> uint16"

definition constructor :: "address \<Rightarrow> contract" where
  "constructor sender = \<lparr>owner = sender, RelayUploadPeriod = 60, relayIndex = 1,
     unhealthyRelaySet = [], CurrentCounter = 1, CounterOP = (\<lambda>_. False), CounterList = (\<lambda>_. []),
     relay_of = (\<lambda>_. empty_relay), relayaddr = (\<lambda>_. 0)\<rparr>"

definition is_registered :: "contract \<Rightarrow> address \<Rightarrow> bool" where
  "is_registered c sender \<longleftrightarrow> registered (relay_of c (relayaddr c sender))"

subsection \<open>Relay methods\<close>

definition relay_registration_check :: "contract \<Rightarrow> address \<Rightarrow> uint16" where
  "relay_registration_check c sender = (if is_registered c sender then relayaddr c sender else 0)"

definition sol_relay_register :: "contract \<Rightarrow> address \<Rightarrow> contract option" where
  "sol_relay_register c sender =
     (if is_registered c sender then None
      else let i = relayIndex c
           in Some (c\<lparr>relayaddr := (relayaddr c)(sender := i),
                      relay_of := (relay_of c)(i := (relay_of c i)\<lparr>registered := True, healthflag := True\<rparr>),
                      CounterOP := (CounterOP c)(CurrentCounter c := True),
                      CounterList := (CounterList c)(CurrentCounter c := [i]),
                      relayIndex := i + 1,
                      CurrentCounter := CurrentCounter c + 1\<rparr>))"

definition relay_get_upload_period :: "contract \<Rightarrow> address \<Rightarrow> nat option" where
  "relay_get_upload_period c sender = (if is_registered c sender then Some (RelayUploadPeriod c) else None)"

definition relay_get_index_set :: "contract \<Rightarrow> address \<Rightarrow> (uint16 \<times> uint16 list) option" where
  "relay_get_index_set c sender =
     (if is_registered c sender then Some (relayIndex c, unhealthyRelaySet c) else None)"

definition relay_get_current_counter :: "contract \<Rightarrow> address \<Rightarrow> uint8 option" where
  "relay_get_current_counter c sender = (if is_registered c sender then Some (CurrentCounter c) else None)"

definition relay_upload_SRI_and_NSD ::
  "contract \<Rightarrow> address \<Rightarrow> uint8 \<Rightarrow> byte list \<Rightarrow> byte list \<Rightarrow> byte list \<Rightarrow> contract option" where
  "relay_upload_SRI_and_NSD c sender cnt hdr sri nsd =
     (let i = relayaddr c sender
      in if \<not> healthflag (relay_of c i) then None
         else Some (c\<lparr>relay_of := (relay_of c)(i := (relay_of c i)
                \<lparr>counter := cnt, relay_Hdr := hdr, encryptedSRI := sri, relay_NSD := nsd\<rparr>)\<rparr>))"

definition relay_download_SRI ::
  "contract \<Rightarrow> address \<Rightarrow> uint16 \<Rightarrow> (uint8 \<times> byte list \<times> byte list) option" where
  "relay_download_SRI c sender i =
     (if is_registered c sender \<and> i < relayIndex c \<and> healthflag (relay_of c i)
      then Some (counter (relay_of c i), relay_Hdr (relay_of c i), encryptedSRI (relay_of c i))
      else None)"

text \<open>
  \<^verbatim>\<open>relay_get_counter_list\<close>: entry \<open>CurrentCounter - i - 1\<close> of the results is that of counter \<open>i\<close>, so
  the most recent operation comes first.
\<close>

definition relay_get_counter_list ::
  "contract \<Rightarrow> address \<Rightarrow> uint8 \<Rightarrow> (bool list \<times> uint16 list list) option" where
  "relay_get_counter_list c sender cnt =
     (if is_registered c sender \<and> cnt < CurrentCounter c
      then let is = rev [unat cnt ..< unat (CurrentCounter c)]
           in Some (map (\<lambda>i. CounterOP c (of_nat i)) is, map (\<lambda>i. CounterList c (of_nat i)) is)
      else None)"

definition relay_cancellation :: "contract \<Rightarrow> address \<Rightarrow> contract option" where
  "relay_cancellation c sender =
     (if is_registered c sender
      then Some (c\<lparr>relay_of := (relay_of c)(relayaddr c sender := empty_relay),
                   relayaddr := (relayaddr c)(sender := 0)\<rparr>)
      else None)"

subsection \<open>Client and manager methods\<close>

text \<open>
  The loop of \<^verbatim>\<open>client_download_NSD\<close> over the relay indices: a healthy relay sets entry \<open>i - 1\<close>, an
  unhealthy one writes entry \<open>i\<close>, which is out of bounds for the last relay.
\<close>

fun nsd_loop :: "contract \<Rightarrow> nat list \<Rightarrow> bool list \<Rightarrow> byte list \<Rightarrow> (bool list \<times> byte list) option" where
  "nsd_loop c [] ix bytes = Some (ix, bytes)"
| "nsd_loop c (i # is) ix bytes =
     (let r = relay_of c (of_nat i)
      in if healthflag r then
           (case arr_set ix (int i - 1) True of
              None \<Rightarrow> None
            | Some ix' \<Rightarrow> nsd_loop c is ix' (bytes @ relay_NSD r))
         else
           (case arr_set ix (int i) False of
              None \<Rightarrow> None
            | Some ix' \<Rightarrow> nsd_loop c is ix' bytes))"

definition client_download_NSD :: "contract \<Rightarrow> (bool list \<times> byte list) option" where
  "client_download_NSD c =
     nsd_loop c [1 ..< unat (relayIndex c)] (replicate (unat (relayIndex c - 1)) False) []"

definition setSRIperiod :: "contract \<Rightarrow> address \<Rightarrow> nat \<Rightarrow> contract option" where
  "setSRIperiod c sender period =
     (if sender = owner c then Some (c\<lparr>RelayUploadPeriod := period\<rparr>) else None)"

definition getrelayIndex :: "contract \<Rightarrow> address \<Rightarrow> uint16 option" where
  "getrelayIndex c sender = (if sender = owner c then Some (relayIndex c) else None)"

definition getinfo :: "contract \<Rightarrow> address \<Rightarrow> uint16 \<Rightarrow> (uint8 \<times> byte list \<times> byte list \<times> byte list) option" where
  "getinfo c sender i =
     (if sender = owner c
      then let r = relay_of c i in Some (counter r, relay_Hdr r, encryptedSRI r, relay_NSD r)
      else None)"

definition getHealthFlag :: "contract \<Rightarrow> address \<Rightarrow> uint16 \<Rightarrow> bool option" where
  "getHealthFlag c sender i = (if sender = owner c then Some (healthflag (relay_of c i)) else None)"

text \<open>The loop of \<^verbatim>\<open>modifyHealthFlag\<close>: every listed relay must still be healthy.\<close>

fun clear_health :: "contract \<Rightarrow> uint16 list \<Rightarrow> contract option" where
  "clear_health c [] = Some c"
| "clear_health c (i # is) =
     (if \<not> healthflag (relay_of c i) then None
      else clear_health (c\<lparr>relay_of := (relay_of c)(i := (relay_of c i)\<lparr>healthflag := False\<rparr>),
                           unhealthyRelaySet := unhealthyRelaySet c @ [i]\<rparr>) is)"

definition modifyHealthFlag :: "contract \<Rightarrow> address \<Rightarrow> uint16 \<Rightarrow> uint16 list \<Rightarrow> contract option" where
  "modifyHealthFlag c sender n is =
     (if sender \<noteq> owner c \<or> length is < unat n then None
      else case clear_health c (take (unat n) is) of
             None \<Rightarrow> None
           | Some c' \<Rightarrow>
               Some (c'\<lparr>CounterOP := (CounterOP c')(CurrentCounter c' := False),
                        CounterList := (CounterList c')(CurrentCounter c' := is),
                        CurrentCounter := CurrentCounter c' + 1\<rparr>))"

subsection \<open>Transactions\<close>

datatype tx =
    TxRegister address
  | TxUpload address uint8 "byte list" "byte list" "byte list"
  | TxCancel address
  | TxPeriod address nat
  | TxModify address uint16 "uint16 list"

fun exec_tx :: "contract \<Rightarrow> tx \<Rightarrow> contract option" where
  "exec_tx c (TxRegister a) = sol_relay_register c a"
| "exec_tx c (TxUpload a cnt hdr sri nsd) = relay_upload_SRI_and_NSD c a cnt hdr sri nsd"
| "exec_tx c (TxCancel a) = relay_cancellation c a"
| "exec_tx c (TxPeriod a p) = setSRIperiod c a p"
| "exec_tx c (TxModify a n is) = modifyHealthFlag c a n is"

fun registers :: "tx \<Rightarrow> bool" where
  "registers (TxRegister _) = True"
| "registers _ = False"

text \<open>
  The storage after a history of transactions; \<open>n\<close> counts the successful registrations. A
  transaction that reverts leaves the storage as it was.
\<close>

inductive ledger :: "nat \<Rightarrow> contract \<Rightarrow> bool" where
  ledger_init: "ledger 0 (constructor a)"
| ledger_tx: "ledger n c \<Longrightarrow> exec_tx c t = Some c' \<Longrightarrow>
    ledger (if registers t then Suc n else n) c'"

inductive_cases ledger_cases: "ledger n c"

subsection \<open>The storage invariant\<close>

text \<open>
  After \<open>n\<close> registrations the indices in use are 1 to \<open>n\<close>; an address that holds an index holds
  a registered one, alone; exactly the registered relays that were not reported are healthy.
\<close>

definition contract_inv :: "nat \<Rightarrow> contract \<Rightarrow> bool" where
  "contract_inv n c \<longleftrightarrow>
     relayIndex c = of_nat (Suc n) \<and>
     (\<forall>i. registered (relay_of c i) \<longrightarrow> 1 \<le> unat i \<and> unat i \<le> n) \<and>
     (\<forall>a. relayaddr c a \<noteq> 0 \<longrightarrow> registered (relay_of c (relayaddr c a))) \<and>
     (\<forall>a b. relayaddr c a = relayaddr c b \<longrightarrow> relayaddr c a \<noteq> 0 \<longrightarrow> a = b) \<and>
     (\<forall>i. healthflag (relay_of c i) \<longleftrightarrow> registered (relay_of c i) \<and> i \<notin> set (unhealthyRelaySet c)) \<and>
     (\<forall>i \<in> set (unhealthyRelaySet c). 1 \<le> unat i \<and> unat i \<le> n) \<and>
     distinct (unhealthyRelaySet c)"

lemma contract_invD:
  assumes "contract_inv n c"
  shows "relayIndex c = of_nat (Suc n)"
    and "registered (relay_of c i) \<Longrightarrow> 1 \<le> unat i \<and> unat i \<le> n"
    and "relayaddr c a \<noteq> 0 \<Longrightarrow> registered (relay_of c (relayaddr c a))"
    and "relayaddr c a = relayaddr c b \<Longrightarrow> relayaddr c a \<noteq> 0 \<Longrightarrow> a = b"
    and "healthflag (relay_of c i) \<longleftrightarrow> registered (relay_of c i) \<and> i \<notin> set (unhealthyRelaySet c)"
    and "i \<in> set (unhealthyRelaySet c) \<Longrightarrow> 1 \<le> unat i \<and> unat i \<le> n"
    and "distinct (unhealthyRelaySet c)"
  using assms by (auto simp: contract_inv_def)

lemma not_registered_0: "contract_inv n c \<Longrightarrow> \<not> registered (relay_of c 0)"
  using contract_invD(2) [of n c 0] by auto

lemma is_registered_iff: "contract_inv n c \<Longrightarrow> is_registered c a \<longleftrightarrow> relayaddr c a \<noteq> 0"
  unfolding is_registered_def by (metis contract_invD(3) not_registered_0)

lemma constructor_inv: "contract_inv 0 (constructor a)"
  by (simp add: contract_inv_def constructor_def empty_relay_def)

lemma unat_of_nat16: "n < 65536 \<Longrightarrow> unat (of_nat n :: uint16) = n"
  by (simp add: unsigned_of_nat take_bit_nat_eq_self)

lemma unat_Suc16: "n < 65535 \<Longrightarrow> unat (of_nat (Suc n) :: uint16) = Suc n"
  by (rule unat_of_nat16) simp

lemma register_inv:
  assumes inv: "contract_inv n c" and n: "n < 65535" and reg: "sol_relay_register c a = Some c'"
  shows "contract_inv (Suc n) c'"
proof -
  let ?i = "of_nat (Suc n) :: uint16"
  have i: "unat ?i = Suc n" by (rule unat_Suc16 [OF n])
  have new: "\<not> registered (relay_of c ?i)" "?i \<notin> set (unhealthyRelaySet c)" "?i \<noteq> 0"
    using contract_invD(2) [OF inv, of ?i] contract_invD(6) [OF inv, of ?i] i by auto
  have fresh: "relayaddr c b \<noteq> ?i" for b
    using contract_invD(3) [OF inv, of b] new by auto
  have c': "c' = c\<lparr>relayaddr := (relayaddr c)(a := ?i),
      relay_of := (relay_of c)(?i := (relay_of c ?i)\<lparr>registered := True, healthflag := True\<rparr>),
      CounterOP := (CounterOP c)(CurrentCounter c := True),
      CounterList := (CounterList c)(CurrentCounter c := [?i]),
      relayIndex := ?i + 1, CurrentCounter := CurrentCounter c + 1\<rparr>"
    using reg contract_invD(1) [OF inv] by (simp add: sol_relay_register_def Let_def split: if_splits)
  show ?thesis
    unfolding contract_inv_def c'
    by (intro conjI) (use new fresh i contract_invD [OF inv] in \<open>auto intro: le_SucI\<close>)
qed

lemma upload_inv:
  assumes "contract_inv n c" "relay_upload_SRI_and_NSD c a cnt hdr sri nsd = Some c'"
  shows "contract_inv n c'"
proof -
  have "c' = c\<lparr>relay_of := (relay_of c)(relayaddr c a := (relay_of c (relayaddr c a))
      \<lparr>counter := cnt, relay_Hdr := hdr, encryptedSRI := sri, relay_NSD := nsd\<rparr>)\<rparr>"
    using assms(2) by (simp add: relay_upload_SRI_and_NSD_def Let_def split: if_splits)
  then show ?thesis using assms(1) by (auto simp: contract_inv_def)
qed

lemma cancel_inv:
  assumes inv: "contract_inv n c" and cancel: "relay_cancellation c a = Some c'"
  shows "contract_inv n c'"
proof -
  have c': "c' = c\<lparr>relay_of := (relay_of c)(relayaddr c a := empty_relay), relayaddr := (relayaddr c)(a := 0)\<rparr>"
    and reg: "is_registered c a"
    using cancel by (auto simp: relay_cancellation_def split: if_splits)
  have nz: "relayaddr c a \<noteq> 0" using reg is_registered_iff [OF inv] by blast
  have other: "relayaddr c b \<noteq> relayaddr c a" if "b \<noteq> a" for b
    using that contract_invD(4) [OF inv, of b a] nz by auto
  show ?thesis
    unfolding contract_inv_def c' using inv other
    by (auto simp: contract_inv_def empty_relay_def)
qed

lemma clear_health_inv: "contract_inv n c \<Longrightarrow> clear_health c is = Some c' \<Longrightarrow> contract_inv n c'"
proof (induction c "is" rule: clear_health.induct)
  case (2 c i "is")
  have h: "healthflag (relay_of c i)" using 2(3) by (auto split: if_splits)
  let ?d = "c\<lparr>relay_of := (relay_of c)(i := (relay_of c i)\<lparr>healthflag := False\<rparr>),
     unhealthyRelaySet := unhealthyRelaySet c @ [i]\<rparr>"
  have "registered (relay_of c i)" "i \<notin> set (unhealthyRelaySet c)"
    using h contract_invD(5) [OF 2(2)] by auto
  then have "contract_inv n ?d"
    unfolding contract_inv_def by (intro conjI) (use contract_invD [OF 2(2)] in auto)
  then show ?case using 2 h by simp
qed simp

lemma clear_health_other:
  "clear_health c is = Some c' \<Longrightarrow>
   CurrentCounter c' = CurrentCounter c \<and> relayaddr c' = relayaddr c \<and> relayIndex c' = relayIndex c \<and>
   CounterOP c' = CounterOP c \<and> CounterList c' = CounterList c \<and> owner c' = owner c \<and>
   unhealthyRelaySet c' = unhealthyRelaySet c @ is"
  by (induction c "is" rule: clear_health.induct) (auto split: if_splits)

lemma modify_inv:
  assumes "contract_inv n c" "modifyHealthFlag c a m is = Some c'"
  shows "contract_inv n c'"
proof -
  obtain d where d: "clear_health c (take (unat m) is) = Some d"
    and c': "c' = d\<lparr>CounterOP := (CounterOP d)(CurrentCounter d := False),
      CounterList := (CounterList d)(CurrentCounter d := is), CurrentCounter := CurrentCounter d + 1\<rparr>"
    using assms(2) by (auto simp: modifyHealthFlag_def split: if_splits option.splits)
  show ?thesis using clear_health_inv [OF assms(1) d] by (simp add: contract_inv_def c')
qed

lemma exec_tx_inv:
  assumes "contract_inv n c" "exec_tx c t = Some c'" "registers t \<Longrightarrow> n < 65535"
  shows "contract_inv (if registers t then Suc n else n) c'"
proof (cases t)
  case (TxRegister a)
  then show ?thesis using assms register_inv by simp
next
  case (TxPeriod a p)
  then have "c' = c\<lparr>RelayUploadPeriod := p\<rparr>" using assms(2) by (auto simp: setSRIperiod_def split: if_splits)
  then show ?thesis using assms(1) TxPeriod by (simp add: contract_inv_def)
next
  case (TxUpload a cnt hdr sri nsd)
  then show ?thesis using upload_inv [OF assms(1)] assms(2) by simp
next
  case (TxCancel a)
  then show ?thesis using cancel_inv [OF assms(1)] assms(2) by simp
next
  case (TxModify a m "is")
  then show ?thesis using modify_inv [OF assms(1)] assms(2) by simp
qed

lemma ledger_inv: "ledger n c \<Longrightarrow> n < 65536 \<Longrightarrow> contract_inv n c"
proof (induction rule: ledger.induct)
  case (ledger_tx n c t c')
  then show ?case using exec_tx_inv [of n c t c'] by (auto split: if_splits)
qed (rule constructor_inv)

subsection \<open>The registration interface\<close>

text \<open>
  What a relay relies on when it registers: a lookup that is 0 for an unknown address, a
  registration that succeeds exactly for unknown addresses and disturbs nobody else, and indices
  that identify their holder.
\<close>

locale index_directory =
  fixes inv :: "'c \<Rightarrow> bool"
    and check :: "'c \<Rightarrow> 'a \<Rightarrow> 'i :: zero"
    and enrol :: "'c \<Rightarrow> 'a \<Rightarrow> 'c option"
  assumes enrol_new: "inv c \<Longrightarrow> check c a = 0 \<Longrightarrow> \<exists>c'. enrol c a = Some c'"
    and enrol_known: "inv c \<Longrightarrow> check c a \<noteq> 0 \<Longrightarrow> enrol c a = None"
    and check_enrol: "inv c \<Longrightarrow> enrol c a = Some c' \<Longrightarrow> check c' a \<noteq> 0"
    and check_other: "inv c \<Longrightarrow> enrol c a = Some c' \<Longrightarrow> b \<noteq> a \<Longrightarrow> check c' b = check c b"
    and check_inj: "inv c \<Longrightarrow> check c a = check c b \<Longrightarrow> check c a \<noteq> 0 \<Longrightarrow> a = b"
begin

lemma enrol_iff: "inv c \<Longrightarrow> (\<exists>c'. enrol c a = Some c') \<longleftrightarrow> check c a = 0"
  using enrol_new enrol_known by (metis option.distinct(1))

lemma enrol_keeps: "inv c \<Longrightarrow> enrol c a = Some c' \<Longrightarrow> check c b \<noteq> 0 \<Longrightarrow> check c' b = check c b"
  using check_other enrol_known by (metis option.distinct(1))

lemma enrol_fresh:
  assumes "inv c" "inv c'" "enrol c a = Some c'" "b \<noteq> a"
  shows "check c' b \<noteq> check c' a"
  using check_inj [OF assms(2)] check_enrol [OF assms(1,3)] assms(4) by metis

end

definition open_ledger :: "contract \<Rightarrow> bool" where
  "open_ledger c \<longleftrightarrow> (\<exists>n < 65535. contract_inv n c)"

lemma registration_check_eq: "contract_inv n c \<Longrightarrow> relay_registration_check c a = relayaddr c a"
  using is_registered_iff [of n c a] by (auto simp: relay_registration_check_def)

lemma register_effect:
  assumes "contract_inv n c" "n < 65535" "sol_relay_register c a = Some c'"
  shows "relayaddr c' = (relayaddr c)(a := of_nat (Suc n))" "contract_inv (Suc n) c'"
  using register_inv [OF assms] assms(3) contract_invD(1) [OF assms(1)]
  by (auto simp: sol_relay_register_def Let_def split: if_splits)

interpretation contract: index_directory open_ledger relay_registration_check sol_relay_register
proof
  fix c :: contract and c' :: contract and a b :: address
  assume "open_ledger c"
  then obtain n where inv: "contract_inv n c" and n: "n < 65535" by (auto simp: open_ledger_def)
  have Suc: "of_nat (Suc n) \<noteq> (0 :: uint16)" using unat_Suc16 [OF n] by (metis nat.distinct(1) unsigned_0)
  show "relay_registration_check c a = 0 \<Longrightarrow> \<exists>c'. sol_relay_register c a = Some c'"
    by (simp add: registration_check_eq [OF inv] sol_relay_register_def is_registered_iff [OF inv] Let_def)
  show "relay_registration_check c a \<noteq> 0 \<Longrightarrow> sol_relay_register c a = None"
    by (simp add: registration_check_eq [OF inv] sol_relay_register_def is_registered_iff [OF inv])
  show "relay_registration_check c a = relay_registration_check c b \<Longrightarrow>
      relay_registration_check c a \<noteq> 0 \<Longrightarrow> a = b"
    using contract_invD(4) [OF inv] by (simp add: registration_check_eq [OF inv])
  assume reg: "sol_relay_register c a = Some c'"
  note eff = register_effect [OF inv n reg]
  show "relay_registration_check c' a \<noteq> 0"
    using Suc by (simp add: registration_check_eq [OF eff(2)] eff(1))
  show "b \<noteq> a \<Longrightarrow> relay_registration_check c' b = relay_registration_check c b"
    by (simp add: registration_check_eq [OF eff(2)] registration_check_eq [OF inv] eff(1))
qed

subsection \<open>The client's download\<close>

lemma nsd_loop_spec:
  assumes "length ix = n" "1 \<le> k" "k \<le> Suc n" "\<And>j. k - 1 \<le> j \<Longrightarrow> j < n \<Longrightarrow> \<not> ix ! j"
  shows "nsd_loop c [k ..< Suc n] ix bytes =
    (if k = Suc n \<or> healthflag (relay_of c (of_nat n)) then
       Some (take (k - 1) ix @ map (\<lambda>i. healthflag (relay_of c (of_nat i))) [k ..< Suc n],
             bytes @ concat (map (\<lambda>i. relay_NSD (relay_of c (of_nat i)))
               (filter (\<lambda>i. healthflag (relay_of c (of_nat i))) [k ..< Suc n])))
     else None)"
  using assms
proof (induction "Suc n - k" arbitrary: k ix bytes)
  case 0
  then show ?case by simp
next
  case (Suc d)
  then have k: "k \<le> n" by simp
  then have upt: "[k ..< Suc n] = k # [Suc k ..< Suc n]" by (simp add: upt_rec)
  show ?case
  proof (cases "healthflag (relay_of c (of_nat k))")
    case True
    have set: "arr_set ix (int k - 1) True = Some (ix[k - 1 := True])"
      using Suc.prems k by (simp add: arr_set_def nat_diff_distrib)
    have tk: "take k (ix[k - 1 := True]) = take (k - 1) ix @ [True]"
      using Suc.prems k take_Suc_conv_app_nth [of "k - 1" "ix[k - 1 := True]"] by simp
    have "nsd_loop c [Suc k ..< Suc n] (ix[k - 1 := True]) (bytes @ relay_NSD (relay_of c (of_nat k))) =
      (if Suc k = Suc n \<or> healthflag (relay_of c (of_nat n)) then
       Some (take (Suc k - 1) (ix[k - 1 := True]) @ map (\<lambda>i. healthflag (relay_of c (of_nat i))) [Suc k ..< Suc n],
             (bytes @ relay_NSD (relay_of c (of_nat k))) @ concat (map (\<lambda>i. relay_NSD (relay_of c (of_nat i)))
               (filter (\<lambda>i. healthflag (relay_of c (of_nat i))) [Suc k ..< Suc n])))
       else None)"
      using Suc.prems k Suc.hyps(2) by (intro Suc.hyps(1)) auto
    then show ?thesis using True k tk by (auto simp: upt set Let_def simp del: upt_Suc)
  next
    case False
    show ?thesis
    proof (cases "k = n")
      case True
      then show ?thesis using False Suc.prems(1) by (simp add: arr_set_def Let_def)
    next
      case kn: False
      then have set: "arr_set ix (int k) False = Some ix"
        using Suc.prems k by (simp add: list_update_same_conv)
      have tk: "take k ix = take (k - 1) ix @ [False]"
        using Suc.prems(1,2) Suc.prems(4) [of "k - 1"] k take_Suc_conv_app_nth [of "k - 1" ix] by simp
      have "nsd_loop c [Suc k ..< Suc n] ix bytes =
        (if Suc k = Suc n \<or> healthflag (relay_of c (of_nat n)) then
         Some (take (Suc k - 1) ix @ map (\<lambda>i. healthflag (relay_of c (of_nat i))) [Suc k ..< Suc n],
             bytes @ concat (map (\<lambda>i. relay_NSD (relay_of c (of_nat i)))
               (filter (\<lambda>i. healthflag (relay_of c (of_nat i))) [Suc k ..< Suc n])))
         else None)"
        using Suc.prems k Suc.hyps(2) by (intro Suc.hyps(1)) auto
      then show ?thesis using False kn k tk by (auto simp: upt set Let_def simp del: upt_Suc)
    qed
  qed
qed

subsection \<open>Properties\<close>

text \<open>
  C11. Registration on the ledger. In every storage the contract can reach with fewer than 65535
  registrations, registering an unknown address succeeds with the next index, which the lookup
  then returns, no other address's index changes, and no two addresses share an index.
\<close>

theorem ledger_registration:
  assumes "ledger n c" "n < 65535" "relay_registration_check c a = 0"
  shows "\<exists>c'. sol_relay_register c a = Some c' \<and> relay_registration_check c' a = of_nat (Suc n) \<and>
     (\<forall>b. b \<noteq> a \<longrightarrow> relay_registration_check c' b = relay_registration_check c b \<and>
        relay_registration_check c' b \<noteq> relay_registration_check c' a)"
proof -
  have inv: "contract_inv n c" using ledger_inv assms(1,2) by simp
  then have oc: "open_ledger c" using assms(2) by (auto simp: open_ledger_def)
  obtain c' where reg: "sol_relay_register c a = Some c'"
    using contract.enrol_new [OF oc assms(3)] by blast
  note eff = register_effect [OF inv assms(2) reg]
  have chk: "relay_registration_check c' a = of_nat (Suc n)"
    using eff by (simp add: registration_check_eq)
  have "relayaddr c b \<noteq> of_nat (Suc n)" for b
    using contract_invD(2,3) [OF inv] unat_Suc16 [OF assms(2)]
    by (metis Suc_n_not_le_n unsigned_0 nat.distinct(1))
  then have "relay_registration_check c' b \<noteq> relay_registration_check c' a" if "b \<noteq> a" for b
    using that eff by (simp add: registration_check_eq)
  then show ?thesis using reg chk contract.check_other [OF oc reg] by blast
qed

theorem ledger_registration_witness:
  "\<exists>c'. sol_relay_register (constructor 5) 9 = Some c' \<and> relay_registration_check c' 9 = of_nat (Suc 0) \<and>
     (\<forall>b. b \<noteq> 9 \<longrightarrow> relay_registration_check c' b = relay_registration_check (constructor 5) b \<and>
        relay_registration_check c' b \<noteq> relay_registration_check c' 9)"
  by (rule ledger_registration [OF ledger_init])
     (simp_all add: relay_registration_check_def is_registered_def constructor_def empty_relay_def)

lemma client_download_NSD_value:
  assumes "ledger n c" "n < 65535"
  shows "client_download_NSD c =
    (if n = 0 \<or> healthflag (relay_of c (of_nat n)) then
       Some (map (\<lambda>i. healthflag (relay_of c (of_nat i))) [1 ..< Suc n],
             concat (map (\<lambda>i. relay_NSD (relay_of c (of_nat i)))
               (filter (\<lambda>i. healthflag (relay_of c (of_nat i))) [1 ..< Suc n])))
     else None)"
proof -
  have ix: "relayIndex c = of_nat (Suc n)" using contract_invD(1) ledger_inv assms by simp
  have "unat (of_nat n :: uint16) = n" using assms(2) by (intro unat_of_nat16) simp
  then show ?thesis
    using nsd_loop_spec [of "replicate n False" n 1 c "[]"] unat_Suc16 [OF assms(2)]
    by (simp add: client_download_NSD_def ix del: upt_Suc of_nat_Suc) (simp add: del: upt_Suc)
qed

text \<open>
  C22. The client's download. It reverts exactly when the relay with the highest index is not
  healthy, because that entry is written one position too far; otherwise it returns the health
  of every relay and the descriptor digests of the healthy ones, in index order.
\<close>

theorem client_download_NSD_exact:
  assumes "ledger n c" "n < 65535"
  shows "client_download_NSD c =
    (if n = 0 \<or> healthflag (relay_of c (of_nat n)) then
       Some (map (\<lambda>i. healthflag (relay_of c (of_nat i))) [1 ..< Suc n],
             concat (map (\<lambda>i. relay_NSD (relay_of c (of_nat i)))
               (filter (\<lambda>i. healthflag (relay_of c (of_nat i))) [1 ..< Suc n])))
     else None)"
  using assms by (rule client_download_NSD_value)

text \<open>A ledger whose only relay was reported as unhealthy.\<close>

definition demo_ledger :: contract where
  "demo_ledger = (case sol_relay_register (constructor 5) 9 of
     None \<Rightarrow> constructor 5
   | Some c \<Rightarrow> (case modifyHealthFlag c 5 1 [1] of None \<Rightarrow> c | Some c' \<Rightarrow> c'))"

lemma demo_ledger: "ledger 1 demo_ledger" "\<not> healthflag (relay_of demo_ledger 1)"
proof -
  obtain c where c: "sol_relay_register (constructor 5) 9 = Some c"
    "owner c = 5" "healthflag (relay_of c 1)" "relay_of c 1 = empty_relay\<lparr>registered := True, healthflag := True\<rparr>"
    by (simp add: sol_relay_register_def is_registered_def constructor_def empty_relay_def Let_def)
  then have l: "ledger 1 c" using ledger_tx [OF ledger_init, of 5 "TxRegister 9" c] by simp
  obtain c' where c': "modifyHealthFlag c 5 1 [1] = Some c'" "\<not> healthflag (relay_of c' 1)"
    using c by (simp add: modifyHealthFlag_def)
  have "demo_ledger = c'" using c c' by (simp add: demo_ledger_def)
  then show "ledger 1 demo_ledger" "\<not> healthflag (relay_of demo_ledger 1)"
    using ledger_tx [OF l, of "TxModify 5 1 [1]" c'] c' by simp_all
qed

theorem client_download_NSD_exact_witness: "client_download_NSD demo_ledger = None"
  using client_download_NSD_exact [OF demo_ledger(1)] demo_ledger(2) by simp

end
