(* ===== verification/Relay_Py.thy ===== *)
theory Relay_Py
  imports Contract Strings
begin

text \<open>
  The Python layer between the relay and the chain, \<^verbatim>\<open>src/BADNET/src/SC/Relay.py\<close> and
  \<^verbatim>\<open>Client.py\<close>: module variables and files are the record \<open>relay_world\<close>, an uncaught exception is
  \<open>None\<close>. The web3 package and the AES and SHA-256 packages are parameters: \<open>up\<close> says which calls
  reach the chain, and \<open>aes\<close> holds the block cipher in CBC mode. Python strings are lists of the
  bytes of their UTF-8 encoding.
\<close>

subsection \<open>Parameters\<close>

record aes =
  cbc_encrypt :: "byte list \<Rightarrow> byte list \<Rightarrow> byte list"
  cbc_decrypt :: "byte list \<Rightarrow> byte list \<Rightarrow> byte list"

definition aes_laws :: "aes \<Rightarrow> bool" where
  "aes_laws A \<longleftrightarrow> (\<forall>k x. length k \<in> {16, 24, 32} \<and> 16 dvd length x \<longrightarrow>
     cbc_decrypt A k (cbc_encrypt A k x) = x \<and> length (cbc_encrypt A k x) = length x)"

datatype py_call = CallCheck | CallRegister | CallIndexSet | CallCounter | CallUpload
  | CallDownload int | CallCounterList

record relay_world =
  chain :: contract
  Counter :: int
  relaySet :: "int list"
  NIME_cached :: "string option"
  NIME :: "string option"

subsection \<open>Text\<close>

definition bytes_of :: "string \<Rightarrow> byte list" where
  "bytes_of s = map (\<lambda>c. of_nat (of_char c)) s"

definition string_of :: "byte list \<Rightarrow> string" where
  "string_of bs = map (\<lambda>b. char_of (unat b)) bs"

definition hex_digit_lower :: "nat \<Rightarrow> char" where
  "hex_digit_lower n = (if n < 10 then char_of (48 + n) else char_of (87 + n))"

text \<open>\<^verbatim>\<open>binascii.hexlify\<close> and \<^verbatim>\<open>bytes.hex\<close>; \<^verbatim>\<open>a2b_hex\<close> accepts both cases.\<close>

definition hexlify :: "byte list \<Rightarrow> string" where
  "hexlify bs = concat (map (\<lambda>b. [hex_digit_lower (unat b div 16), hex_digit_lower (unat b mod 16)]) bs)"

definition a2b_hex :: "string \<Rightarrow> byte list option" where
  "a2b_hex s = base16_pairs s"

text \<open>Strict UTF-8, as \<^verbatim>\<open>bytes.decode\<close> accepts it.\<close>

definition utf8_tail :: "nat \<Rightarrow> nat option" where
  "utf8_tail a =
     (if a < 128 then Some 0 else if a < 194 then None else if a < 224 then Some 1
      else if a < 240 then Some 2 else if a < 245 then Some 3 else None)"

definition utf8_second :: "nat \<Rightarrow> nat \<Rightarrow> bool" where
  "utf8_second a b \<longleftrightarrow> (a = 224 \<longrightarrow> 160 \<le> b) \<and> (a = 237 \<longrightarrow> b < 160) \<and> (a = 240 \<longrightarrow> 144 \<le> b) \<and> (a = 244 \<longrightarrow> b < 144)"

function utf8_valid :: "nat list \<Rightarrow> bool" where
  "utf8_valid [] = True"
| "utf8_valid (a # r) =
     (case utf8_tail a of
        None \<Rightarrow> False
      | Some k \<Rightarrow> k \<le> length r \<and> (\<forall>b \<in> set (take k r). 128 \<le> b \<and> b < 192) \<and>
          (0 < k \<longrightarrow> utf8_second a (hd r)) \<and> utf8_valid (drop k r))"
  by pat_completeness auto
termination
  by (relation "measure length") auto

definition utf8_decode :: "byte list \<Rightarrow> string option" where
  "utf8_decode bs = (if utf8_valid (map unat bs) then Some (string_of bs) else None)"

definition rstrip_nul :: "string \<Rightarrow> string" where
  "rstrip_nul s = rev (dropWhile (\<lambda>c. c = CHR 0x00) (rev s))"

text \<open>\<^verbatim>\<open>re.findall\<close> of 130 characters: consecutive pieces, a shorter rest is dropped.\<close>

definition findall_130 :: "string \<Rightarrow> string list" where
  "findall_130 s = chunks 130 s"

subsection \<open>Registration and the receiver set\<close>

definition relayRegistrationCheck :: "(py_call \<Rightarrow> bool) \<Rightarrow> address \<Rightarrow> relay_world \<Rightarrow> int option" where
  "relayRegistrationCheck up a w =
     (if up CallCheck then Some (int (unat (relay_registration_check (chain w) a))) else None)"

text \<open>A transaction that reverts is still mined: the storage stays, no exception is raised.\<close>

definition send_tx :: "relay_world \<Rightarrow> contract option \<Rightarrow> relay_world" where
  "send_tx w r = (case r of None \<Rightarrow> w | Some c \<Rightarrow> w\<lparr>chain := c\<rparr>)"

definition relayRegister :: "(py_call \<Rightarrow> bool) \<Rightarrow> address \<Rightarrow> relay_world \<Rightarrow> relay_world option" where
  "relayRegister up a w =
     (if up CallRegister then Some (send_tx w (sol_relay_register (chain w) a)) else None)"

definition relayGetSet :: "(py_call \<Rightarrow> bool) \<Rightarrow> address \<Rightarrow> relay_world \<Rightarrow> (int \<times> int list \<times> relay_world) option" where
  "relayGetSet up a w =
     (if \<not> up CallIndexSet then None
      else case relay_get_index_set (chain w) a of
        None \<Rightarrow> None
      | Some (relayTotalNum, UnhealthySet) \<Rightarrow>
          let S = map int (filter (\<lambda>i. i \<notin> unat ` set UnhealthySet) [1 ..< unat relayTotalNum])
          in if \<not> up CallCounter then None
             else case relay_get_current_counter (chain w) a of
                    None \<Rightarrow> None
                  | Some cnt \<Rightarrow>
                      let n = int (unat cnt)
                      in Some (n, S, w\<lparr>relaySet := S, Counter := n\<rparr>))"

subsection \<open>Upload\<close>

definition padding :: "string \<Rightarrow> byte list" where
  "padding t =
     (let remainder = length t mod 16;
          padding_needed = (if remainder \<noteq> 0 then 16 - remainder else 0)
      in bytes_of (t @ replicate padding_needed (CHR 0x00)))"

definition AES_encrypt :: "aes \<Rightarrow> string \<Rightarrow> byte list \<Rightarrow> string option" where
  "AES_encrypt A plain_text key =
     (if length key \<notin> {16, 24, 32} then None
      else Some (hexlify (cbc_encrypt A key (padding plain_text))))"

definition relayUploadSRIAndNSD ::
  "(py_call \<Rightarrow> bool) \<Rightarrow> aes \<Rightarrow> (byte list \<Rightarrow> byte list) \<Rightarrow> address \<Rightarrow> int \<Rightarrow> string \<Rightarrow> string \<Rightarrow> string \<Rightarrow>
   relay_world \<Rightarrow> relay_world option" where
  "relayUploadSRIAndNSD up A sha256 a cnt Hdr SRI Key w =
     (case AES_encrypt A SRI (bytes_of (take 32 Key)) of
        None \<Rightarrow> None
      | Some enSRI \<Rightarrow>
          (case (a2b_hex Hdr, a2b_hex enSRI) of
             (Some hdr, Some sri) \<Rightarrow>
               if \<not> up CallUpload \<or> cnt < 0 \<or> cnt > 255 then None
               else Some (send_tx w (relay_upload_SRI_and_NSD (chain w) a (of_int cnt) hdr sri
                            (sha256 (bytes_of SRI))))
           | _ \<Rightarrow> None))"

subsection \<open>Download\<close>

text \<open>
  \<^verbatim>\<open>relayGetCounterList\<close>: registrations since the given counter are to be deleted from the current
  set, reported relays to be added.
\<close>

definition relayGetCounterList ::
  "(py_call \<Rightarrow> bool) \<Rightarrow> address \<Rightarrow> uint8 \<Rightarrow> relay_world \<Rightarrow> (int list \<times> int list) option" where
  "relayGetCounterList up a cnt w =
     (if \<not> up CallCounterList then None
      else case relay_get_counter_list (chain w) a cnt of
        None \<Rightarrow> None
      | Some (operation, alterSet) \<Rightarrow>
          let pairs = zip operation alterSet; ints = map (\<lambda>i. int (unat i))
          in Some (concat (map (\<lambda>(op, s). if op then [] else ints s) pairs),
                   concat (map (\<lambda>(op, s). if op then ints s else []) pairs)))"

text \<open>\<^verbatim>\<open>S.remove(x)\<close> for each element, a \<^verbatim>\<open>ValueError\<close> when it is missing.\<close>

fun remove_all :: "int list \<Rightarrow> int list \<Rightarrow> int list option" where
  "remove_all S [] = Some S"
| "remove_all S (x # xs) = (if x \<in> set S then remove_all (remove1 x S) xs else None)"

text \<open>
  \<^verbatim>\<open>relayDownloadSRI\<close>: \<^verbatim>\<open>S += addSet[i]\<close> extends a list by an integer, a \<^verbatim>\<open>TypeError\<close> as soon as
  \<open>addSet\<close> is not empty.
\<close>

definition relayDownloadSRI ::
  "(py_call \<Rightarrow> bool) \<Rightarrow> address \<Rightarrow> int \<Rightarrow> relay_world \<Rightarrow> (int list \<times> string list \<times> string) option" where
  "relayDownloadSRI up a relayID w =
     (if \<not> up (CallDownload relayID) \<or> relayID < 0 \<or> relayID > 65535 then None
      else case relay_download_SRI (chain w) a (of_int relayID) of
        None \<Rightarrow> None
      | Some (relayCounter, hdr, sri) \<Rightarrow>
          (case (if int (unat relayCounter) < Counter w
                 then (case relayGetCounterList up a relayCounter w of
                         None \<Rightarrow> None
                       | Some (addSet, deleteSet) \<Rightarrow>
                           if addSet \<noteq> [] then None else remove_all (relaySet w) deleteSet)
                 else Some (relaySet w)) of
             None \<Rightarrow> None
           | Some S \<Rightarrow> Some (S, findall_130 (hexlify hdr), hexlify sri)))"

datatype aes_result = PlainText string | NotUtf8 | AesError

definition AES_decrypt :: "aes \<Rightarrow> string \<Rightarrow> byte list \<Rightarrow> aes_result" where
  "AES_decrypt A cipher_text key =
     (case a2b_hex cipher_text of
        None \<Rightarrow> AesError
      | Some ct \<Rightarrow>
          if length key \<notin> {16, 24, 32} \<or> length ct mod 16 \<noteq> 0 then AesError
          else case utf8_decode (cbc_decrypt A key ct) of
                 None \<Rightarrow> NotUtf8
               | Some t \<Rightarrow> PlainText (rstrip_nul t))"

text \<open>
  \<^verbatim>\<open>relayDecryptSRIs\<close>: appends to the file \<^verbatim>\<open>NIME-cached\<close>, and renames it to \<^verbatim>\<open>NIME\<close> after the last
  relay. A text that is not UTF-8 returns before the renaming.
\<close>

definition relayDecryptSRIs ::
  "aes \<Rightarrow> int \<Rightarrow> string \<Rightarrow> string \<Rightarrow> bool \<Rightarrow> relay_world \<Rightarrow> relay_world option" where
  "relayDecryptSRIs A relayID enSRI decKey fileEnd w =
     (case AES_decrypt A enSRI (bytes_of (take 32 decKey)) of
        AesError \<Rightarrow> None
      | NotUtf8 \<Rightarrow> Some w
      | PlainText SRI \<Rightarrow>
          let old = (case NIME_cached w of None \<Rightarrow> [] | Some s \<Rightarrow> s);
              cached = old @ ''index '' @ show_nat (nat relayID) @ [NL] @ SRI
          in Some (if fileEnd then w\<lparr>NIME := Some cached, NIME_cached := None\<rparr>
                   else w\<lparr>NIME_cached := Some cached\<rparr>))"

subsection \<open>Text lemmas\<close>

lemma string_of_bytes_of [simp]: "string_of (bytes_of s) = s"
proof -
  have "char_of (unat (of_nat (of_char c) :: byte)) = c" for c
  proof -
    have "(of_char c :: nat) < 256" by simp
    then show ?thesis by (simp add: unsigned_of_nat take_bit_nat_eq_self)
  qed
  then show ?thesis by (simp add: string_of_def bytes_of_def comp_def)
qed

lemma length_bytes_of [simp]: "length (bytes_of s) = length s"
  by (simp add: bytes_of_def)

lemma hex_decode_digit_lower: "n < 16 \<Longrightarrow> hex_decode_digit (hex_digit_lower n) = int n"
  by (simp add: hex_decode_digit_def hex_digit_lower_def hex_value_def)

lemma a2b_hex_hexlify [simp]: "a2b_hex (hexlify bs) = Some bs"
proof (induction bs)
  case (Cons b bs)
  have "int (unat b div 16) * 16 + int (unat b mod 16) = int (unat b)"
    by (metis div_mult_mod_eq of_nat_add of_nat_mult of_nat_numeral)
  then show ?case using Cons by (simp add: a2b_hex_def hexlify_def hex_decode_digit_lower)
qed (simp add: a2b_hex_def hexlify_def)

lemma utf8_valid_nuls: "utf8_valid (replicate n 0)"
  by (induction n) (simp_all add: utf8_tail_def)

lemma utf8_valid_append: "utf8_valid xs \<Longrightarrow> utf8_valid ys \<Longrightarrow> utf8_valid (xs @ ys)"
proof (induction xs rule: utf8_valid.induct)
  case (2 a r)
  then obtain k where k: "utf8_tail a = Some k" "k \<le> length r" "utf8_valid (drop k r)"
    "\<forall>b \<in> set (take k r). 128 \<le> b \<and> b < 192" "0 < k \<longrightarrow> utf8_second a (hd r)"
    by (auto split: option.splits)
  then have "utf8_valid (drop k r @ ys)" using 2 by blast
  moreover have "0 < k \<longrightarrow> hd (r @ ys) = hd r" using k(2) by (cases r) auto
  ultimately show ?case using k by simp
qed simp

lemma rstrip_nul_pad:
  assumes "CHR 0x00 \<notin> set s"
  shows "rstrip_nul (s @ replicate n (CHR 0x00)) = s"
proof -
  have "dropWhile (\<lambda>c. c = CHR 0x00) (replicate n (CHR 0x00) @ xs) = xs" if "\<forall>x \<in> set xs. x \<noteq> CHR 0x00" for xs
    using that by (induction n) (cases xs, auto)
  moreover have "\<forall>x \<in> set (rev s). x \<noteq> CHR 0x00" using assms by (metis set_rev)
  ultimately show ?thesis by (simp add: rstrip_nul_def)
qed

text \<open>The bytes of a C string that is valid UTF-8.\<close>

definition utf8_text :: "string \<Rightarrow> bool" where
  "utf8_text s \<longleftrightarrow> CHR 0x00 \<notin> set s \<and> utf8_valid (map unat (bytes_of s))"

lemma AES_roundtrip:
  assumes laws: "aes_laws A" and key: "length key \<in> {16, 24, 32}" and utf: "utf8_text t"
  shows "\<exists>ct. AES_encrypt A t key = Some ct \<and> ct = hexlify (cbc_encrypt A key (padding t)) \<and>
     AES_decrypt A ct key = PlainText t"
proof -
  define n where "n = (if length t mod 16 \<noteq> 0 then 16 - length t mod 16 else 0)"
  have pad: "padding t = bytes_of (t @ replicate n (CHR 0x00))" by (simp add: padding_def n_def Let_def)
  have "(length t + n) mod 16 = (length t mod 16 + n) mod 16" by (simp add: mod_add_left_eq)
  moreover have "length t mod 16 + n = (if length t mod 16 = 0 then 0 else 16)"
    using mod_less_divisor [of 16 "length t"] unfolding n_def by simp
  ultimately have "(length t + n) mod 16 = 0" by (cases "length t mod 16 = 0") simp_all
  then have "16 dvd length t + n" by (rule mod_0_imp_dvd)
  then have cbc: "cbc_decrypt A key (cbc_encrypt A key (padding t)) = padding t"
    "length (cbc_encrypt A key (padding t)) mod 16 = 0"
    using laws key by (auto simp: aes_laws_def pad)
  have "map unat (padding t) = map unat (bytes_of t) @ replicate n 0"
    by (simp add: pad bytes_of_def)
  then have "utf8_decode (padding t) = Some (t @ replicate n (CHR 0x00))"
    using utf utf8_valid_append utf8_valid_nuls [of n]
    by (simp add: utf8_decode_def utf8_text_def) (simp add: pad)
  then show ?thesis
    using key cbc utf
    by (auto simp: AES_encrypt_def AES_decrypt_def rstrip_nul_pad utf8_text_def)
qed

subsection \<open>The receiver set of an earlier upload\<close>

text \<open>The set of relays that \<^verbatim>\<open>relayGetSet\<close> computes from the storage.\<close>

definition receivers :: "contract \<Rightarrow> int list" where
  "receivers c = map int (filter (\<lambda>i. i \<notin> unat ` set (unhealthyRelaySet c)) [1 ..< unat (relayIndex c)])"

lemma relayGetSet_eq:
  "relayGetSet up a w =
     (if up CallIndexSet \<and> up CallCounter \<and> is_registered (chain w) a
      then Some (int (unat (CurrentCounter (chain w))), receivers (chain w),
             w\<lparr>relaySet := receivers (chain w), Counter := int (unat (CurrentCounter (chain w)))\<rparr>)
      else None)"
  by (simp add: relayGetSet_def relay_get_index_set_def relay_get_current_counter_def receivers_def Let_def)

text \<open>
  \<open>later i c k d\<close>: storage \<open>d\<close> is reached from \<open>c\<close> by \<open>k\<close> registrations and by uploads of relays
  other than \<open>i\<close>. Reports of unhealthy relays and cancellations are not among them; the relation
  \<open>history\<close> below has all transactions.
\<close>

inductive later :: "uint16 \<Rightarrow> contract \<Rightarrow> nat \<Rightarrow> contract \<Rightarrow> bool" for i c where
  later_refl: "later i c 0 c"
| later_register: "later i c k d \<Longrightarrow> sol_relay_register d a = Some d' \<Longrightarrow> later i c (Suc k) d'"
| later_upload: "later i c k d \<Longrightarrow> relay_upload_SRI_and_NSD d a cnt hdr sri nsd = Some d' \<Longrightarrow>
    relayaddr d a \<noteq> i \<Longrightarrow> later i c k d'"

text \<open>What such a history keeps, and the entries of the operation log it adds.\<close>

definition extends :: "uint16 \<Rightarrow> nat \<Rightarrow> nat \<Rightarrow> contract \<Rightarrow> contract \<Rightarrow> bool" where
  "extends i n k c d \<longleftrightarrow> contract_inv (n + k) d \<and>
     CurrentCounter d = CurrentCounter c + of_nat k \<and>
     unhealthyRelaySet d = unhealthyRelaySet c \<and> relay_of d i = relay_of c i \<and>
     (\<forall>a. relayaddr c a \<noteq> 0 \<longrightarrow> relayaddr d a = relayaddr c a) \<and>
     (\<forall>j < k. CounterOP d (CurrentCounter c + of_nat j) \<and>
        CounterList d (CurrentCounter c + of_nat j) = [of_nat (Suc (n + j))])"

lemma extends_refl: "contract_inv n c \<Longrightarrow> extends i n 0 c c"
  by (simp add: extends_def)

lemma counter_neq:
  assumes "j < k" "k < 256"
  shows "(x :: uint8) + of_nat j \<noteq> x + of_nat k"
proof
  assume "x + of_nat j = x + of_nat k"
  then have "(of_nat j :: uint8) = of_nat k" by simp
  then have "unat (of_nat j :: uint8) = unat (of_nat k :: uint8)" by simp
  then show False using assms by (simp add: unsigned_of_nat take_bit_nat_eq_self)
qed

lemma extends_register:
  assumes ext: "extends i n k c d" and reg: "sol_relay_register d a = Some d'"
    and n: "n + k < 65535" and k: "k < 256" and i: "unat i \<le> n"
  shows "extends i n (Suc k) c d'"
proof -
  have inv: "contract_inv (n + k) d" using ext by (simp add: extends_def)
  let ?i = "of_nat (Suc (n + k)) :: uint16"
  have ne: "i \<noteq> ?i" using unat_Suc16 [OF n] i by auto
  have a0: "relayaddr d a = 0"
    using reg is_registered_iff [OF inv, of a] by (auto simp: sol_relay_register_def split: if_splits)
  have d': "d' = d\<lparr>relayaddr := (relayaddr d)(a := ?i),
      relay_of := (relay_of d)(?i := (relay_of d ?i)\<lparr>registered := True, healthflag := True\<rparr>),
      CounterOP := (CounterOP d)(CurrentCounter d := True),
      CounterList := (CounterList d)(CurrentCounter d := [?i]),
      relayIndex := ?i + 1, CurrentCounter := CurrentCounter d + 1\<rparr>"
    using reg contract_invD(1) [OF inv] by (simp add: sol_relay_register_def Let_def split: if_splits)
  show ?thesis
    using ext register_inv [OF inv n reg] ne a0 counter_neq [OF _ k]
    unfolding extends_def d' by (auto simp: less_Suc_eq)
qed

lemma extends_upload:
  assumes "extends i n k c d" "relay_upload_SRI_and_NSD d a cnt hdr sri nsd = Some d'" "relayaddr d a \<noteq> i"
  shows "extends i n k c d'"
proof -
  have "contract_inv (n + k) d'" using upload_inv assms by (auto simp: extends_def)
  then show ?thesis
    using assms by (auto simp: extends_def relay_upload_SRI_and_NSD_def Let_def split: if_splits)
qed

lemma later_extends:
  assumes "later i c k d" "contract_inv n c" "unat i \<le> n"
  shows "n + k < 65536 \<Longrightarrow> k \<le> 256 \<Longrightarrow> extends i n k c d"
  using assms(1)
proof (induction rule: later.induct)
  case later_refl
  then show ?case using extends_refl assms(2) by blast
next
  case (later_register k d a d')
  then show ?case using extends_register [of i n k c d a d'] assms(3) by simp
next
  case (later_upload k d a cnt hdr sri nsd d')
  then show ?case using extends_upload by blast
qed

lemma remove_all_suffix: "distinct (xs @ ys) \<Longrightarrow> remove_all (xs @ ys) (rev ys) = Some xs"
proof (induction ys rule: rev_induct)
  case (snoc y ys)
  then have "remove1 y (xs @ ys @ [y]) = xs @ ys" by (simp add: remove1_append remove1_idem)
  then show ?case using snoc by simp
qed simp

lemma receivers_grow:
  assumes "contract_inv n c" "contract_inv (n + k) d" "unhealthyRelaySet d = unhealthyRelaySet c" "n + k < 65535"
  shows "receivers d = receivers c @ map int [Suc n ..< Suc (n + k)]"
proof -
  have ix: "unat (relayIndex c) = Suc n" "unat (relayIndex d) = Suc (n + k)"
    using assms contract_invD(1) unat_Suc16 by (auto simp del: of_nat_Suc)
  have "\<forall>j \<in> set [Suc n ..< Suc (n + k)]. j \<notin> unat ` set (unhealthyRelaySet c)"
    using contract_invD(6) [OF assms(1)] by fastforce
  then have "filter (\<lambda>i. i \<notin> unat ` set (unhealthyRelaySet c)) [Suc n ..< Suc (n + k)] = [Suc n ..< Suc (n + k)]"
    by (rule filter_True)
  moreover have "[1 ..< Suc (n + k)] = [1 ..< Suc n] @ [Suc n ..< Suc (n + k)]"
    using upt_add_eq_append [of 1 "Suc n" k] by simp
  ultimately show ?thesis
    using assms(3) by (simp add: receivers_def ix del: upt_Suc)
qed

lemma receivers_later:
  assumes "extends i n k c d" "contract_inv n c" "n + k < 65535"
  shows "receivers d = receivers c @ map int [Suc n ..< Suc (n + k)]"
  using assms by (intro receivers_grow) (simp_all add: extends_def)

lemma receivers_distinct: "distinct (receivers c)"
  by (simp add: receivers_def distinct_map)

lemma counter_list_value:
  assumes "chain w = d" "is_registered d a" "up CallCounterList" "unat (CurrentCounter d) = unat C + k" "0 < k"
  shows "relayGetCounterList up a C w =
     Some (concat (map (\<lambda>i. if CounterOP d (of_nat i) then [] else map (\<lambda>i. int (unat i)) (CounterList d (of_nat i)))
             (rev [unat C ..< unat C + k])),
           concat (map (\<lambda>i. if CounterOP d (of_nat i) then map (\<lambda>i. int (unat i)) (CounterList d (of_nat i)) else [])
             (rev [unat C ..< unat C + k])))"
proof -
  have zip: "zip (map f xs) (map g xs) = map (\<lambda>x. (f x, g x)) xs" for f g and xs :: "nat list"
    by (induction xs) auto
  have "C < CurrentCounter d" unfolding word_less_nat_alt assms(4) using assms(5) by simp
  then show ?thesis
    using assms unfolding relayGetCounterList_def relay_get_counter_list_def assms(1,4) Let_def
    by (simp add: zip comp_def del: of_nat_unat)
qed

lemma counter_list_later:
  assumes ext: "extends i n k c d" and k: "0 < k" "unat (CurrentCounter c) + k < 256"
    and w: "chain w = d" "is_registered d a" and up: "up CallCounterList" and n: "n + k < 65535"
  shows "relayGetCounterList up a (CurrentCounter c) w = Some ([], rev (map int [Suc n ..< Suc (n + k)]))"
proof -
  let ?c = "CurrentCounter c"
  have cur: "unat (CurrentCounter d) = unat ?c + k"
    using ext k by (simp add: extends_def unat_word_ariths unsigned_of_nat take_bit_nat_eq_self)
  have log: "CounterOP d (of_nat i) \<and> map (\<lambda>i. int (unat i)) (CounterList d (of_nat i)) = [int (Suc n + (i - unat ?c))]"
    if "i \<in> set (rev [unat ?c ..< unat ?c + k])" for i
  proof -
    from that obtain j where j: "i = unat ?c + j" "j < k" by (auto simp: le_iff_add)
    have "unat (of_nat (Suc (n + j)) :: uint16) = Suc (n + j)" using n j(2) by (intro unat_Suc16) simp
    then have "uint (of_nat (Suc (n + j)) :: uint16) = int (Suc (n + j))" by (metis uint_nat)
    then show ?thesis using ext j by (simp add: extends_def del: of_nat_Suc)
  qed
  have sets: "map (\<lambda>i. if CounterOP d (of_nat i) then [] else map (\<lambda>i. int (unat i)) (CounterList d (of_nat i)))
        (rev [unat ?c ..< unat ?c + k]) = map (\<lambda>_. []) (rev [unat ?c ..< unat ?c + k])"
    "map (\<lambda>i. if CounterOP d (of_nat i) then map (\<lambda>i. int (unat i)) (CounterList d (of_nat i)) else [])
        (rev [unat ?c ..< unat ?c + k]) = map (\<lambda>i. [int (Suc n + (i - unat ?c))]) (rev [unat ?c ..< unat ?c + k])"
    using log by (auto simp del: of_nat_Suc)
  have shift: "map (\<lambda>i. int (Suc n + (i - unat ?c))) [unat ?c ..< unat ?c + k] = map int [Suc n ..< Suc (n + k)]"
    by (intro nth_equalityI) (auto simp del: upt_Suc)
  show ?thesis
    unfolding counter_list_value [where up = up, OF w up cur k(1)] sets shift [symmetric]
    by (simp add: concat_map_singleton rev_map)
qed

lemma download_later:
  assumes inv: "contract_inv n c" and i: "unat i \<le> n" "healthflag (relay_of c i)"
    and cnt: "counter (relay_of c i) = CurrentCounter c"
    and later: "later i c k d" and nk: "n + k < 65535" "unat (CurrentCounter c) + k < 256"
    and w: "chain w = d" "relaySet w = receivers d" "Counter w = int (unat (CurrentCounter d))"
    and reg: "is_registered d a" and up: "\<And>x. up x"
  shows "relayDownloadSRI up a (int (unat i)) w =
    Some (receivers c, findall_130 (hexlify (relay_Hdr (relay_of c i))), hexlify (encryptedSRI (relay_of c i)))"
proof -
  have ext: "extends i n k c d" using later_extends [OF later inv i(1)] nk by simp
  have same: "relay_of d i = relay_of c i" and ixd: "relayIndex d = of_nat (Suc (n + k))"
    using ext contract_invD(1) by (auto simp: extends_def)
  have cur: "unat (CurrentCounter d) = unat (CurrentCounter c) + k"
    using ext nk by (simp add: extends_def unat_word_ariths unsigned_of_nat take_bit_nat_eq_self)
  have "unat i < 65536" using i(1) nk by simp
  then have range: "int (unat i) \<le> 65535" "0 \<le> int (unat i)" by linarith+
  have "i < relayIndex d" unfolding word_less_nat_alt ixd unat_Suc16 [OF nk(1)] using i(1) by simp
  then have dl: "relay_download_SRI d a i =
      Some (CurrentCounter c, relay_Hdr (relay_of c i), encryptedSRI (relay_of c i))"
    using reg i(2) by (simp add: relay_download_SRI_def same cnt)
  have S: "(if int (unat (CurrentCounter c)) < Counter w
      then (case relayGetCounterList up a (CurrentCounter c) w of
              None \<Rightarrow> None
            | Some (addSet, deleteSet) \<Rightarrow> if addSet \<noteq> [] then None else remove_all (relaySet w) deleteSet)
      else Some (relaySet w)) = Some (receivers c)"
  proof (cases "k = 0")
    case True
    then show ?thesis using cur w receivers_later [OF ext inv nk(1)] by simp
  next
    case False
    then have "relayGetCounterList up a (CurrentCounter c) w = Some ([], rev (map int [Suc n ..< Suc (n + k)]))"
      using counter_list_later [OF ext _ nk(2) w(1) reg] up nk(1) by simp
    moreover have "remove_all (receivers d) (rev (map int [Suc n ..< Suc (n + k)])) = Some (receivers c)"
      using remove_all_suffix receivers_distinct [of d] receivers_later [OF ext inv nk(1)] by simp
    ultimately show ?thesis using w cur False by simp
  qed
  show ?thesis
    using up range dl S w(1) unfolding relayDownloadSRI_def by (simp add: not_less)
qed

subsection \<open>A concrete history\<close>

text \<open>
  Addresses 9 and 8 register, 9 uploads, 7 registers (storage \<open>demo_c4\<close>); then the owner reports
  relay 2 (storage \<open>demo_c5\<close>).
\<close>

definition demo_c1 :: contract where "demo_c1 = the (exec_tx (constructor 5) (TxRegister 9))"
definition demo_c2 :: contract where "demo_c2 = the (exec_tx demo_c1 (TxRegister 8))"
definition demo_c3 :: contract where "demo_c3 = the (exec_tx demo_c2 (TxUpload 9 3 [1] [2] [3]))"
definition demo_c4 :: contract where "demo_c4 = the (exec_tx demo_c3 (TxRegister 7))"
definition demo_c5 :: contract where "demo_c5 = the (exec_tx demo_c4 (TxModify 5 1 [2]))"

lemmas demo_defs = constructor_def empty_relay_def is_registered_def sol_relay_register_def
  relay_upload_SRI_and_NSD_def modifyHealthFlag_def Let_def

lemma demo_c1: "exec_tx (constructor 5) (TxRegister 9) = Some demo_c1"
  by (simp add: demo_c1_def demo_defs)

lemma demo_c2: "exec_tx demo_c1 (TxRegister 8) = Some demo_c2"
  by (simp add: demo_c2_def demo_c1_def demo_defs)

lemma demo_c3: "exec_tx demo_c2 (TxUpload 9 3 [1] [2] [3]) = Some demo_c3"
  by (simp add: demo_c3_def demo_c2_def demo_c1_def demo_defs)

lemma demo_c4: "exec_tx demo_c3 (TxRegister 7) = Some demo_c4"
  by (simp add: demo_c4_def demo_c3_def demo_c2_def demo_c1_def demo_defs)

lemma demo_c5: "exec_tx demo_c4 (TxModify 5 1 [2]) = Some demo_c5"
  by (simp add: demo_c5_def demo_c4_def demo_c3_def demo_c2_def demo_c1_def demo_defs)

lemma demo_c3_ledger: "ledger 2 demo_c3"
  using ledger_tx [OF ledger_tx [OF ledger_tx [OF ledger_init demo_c1] demo_c2] demo_c3]
  by (simp add: numeral_2_eq_2)

definition demo_world :: "contract \<Rightarrow> relay_world" where
  "demo_world c = \<lparr>chain = c, Counter = int (unat (CurrentCounter c)), relaySet = receivers c,
     NIME_cached = None, NIME = None\<rparr>"

subsection \<open>All histories\<close>

text \<open>
  The transactions that write the entry of relay \<open>i\<close>, those that advance the operation counter, and
  reports of unhealthy relays, which put a list of relays into the operation log.
\<close>

fun writes :: "contract \<Rightarrow> uint16 \<Rightarrow> tx \<Rightarrow> bool" where
  "writes d i (TxUpload a cnt hdr sri nsd) \<longleftrightarrow> relayaddr d a = i"
| "writes d i (TxCancel a) \<longleftrightarrow> relayaddr d a = i"
| "writes d i _ \<longleftrightarrow> False"

fun counted :: "tx \<Rightarrow> bool" where
  "counted (TxRegister _) = True"
| "counted (TxModify _ _ _) = True"
| "counted _ = False"

fun reports :: "tx \<Rightarrow> bool" where
  "reports (TxModify _ _ is) \<longleftrightarrow> is \<noteq> []"
| "reports _ \<longleftrightarrow> False"

text \<open>
  \<open>history i c m k r d\<close>: storage \<open>d\<close> is reached from \<open>c\<close> by transactions of any kind that do not write the
  entry of relay \<open>i\<close>; \<open>m\<close> of them are registrations, \<open>k\<close> advance the counter, and \<open>r\<close> tells whether a report
  is among them.
\<close>

inductive history :: "uint16 \<Rightarrow> contract \<Rightarrow> nat \<Rightarrow> nat \<Rightarrow> bool \<Rightarrow> contract \<Rightarrow> bool" for i c where
  history_refl: "history i c 0 0 False c"
| history_tx: "history i c m k r d \<Longrightarrow> exec_tx d t = Some d' \<Longrightarrow> \<not> writes d i t \<Longrightarrow>
    history i c (if registers t then Suc m else m) (if counted t then Suc k else k) (r \<or> reports t) d'"

text \<open>What a history leaves in the operation log, and what it keeps as long as there is no report.\<close>

definition traced :: "uint16 \<Rightarrow> nat \<Rightarrow> contract \<Rightarrow> nat \<Rightarrow> nat \<Rightarrow> bool \<Rightarrow> contract \<Rightarrow> bool" where
  "traced i n c m k r d \<longleftrightarrow> contract_inv (n + m) d \<and> CurrentCounter d = CurrentCounter c + of_nat k \<and>
     Contract.counter (relay_of d i) = Contract.counter (relay_of c i) \<and>
     (if r then \<exists>j < k. \<not> CounterOP d (CurrentCounter c + of_nat j) \<and> CounterList d (CurrentCounter c + of_nat j) \<noteq> []
      else unhealthyRelaySet d = unhealthyRelaySet c \<and> relay_of d i = relay_of c i \<and>
        (\<forall>j < k. length (CounterList d (CurrentCounter c + of_nat j)) \<le> 1 \<and>
           (\<not> CounterOP d (CurrentCounter c + of_nat j) \<longrightarrow> CounterList d (CurrentCounter c + of_nat j) = [])) \<and>
        concat (map (\<lambda>j. CounterList d (CurrentCounter c + of_nat j)) [0 ..< k]) = map of_nat [Suc n ..< Suc (n + m)])"

lemma traced_keep:
  assumes "traced i n c m k r d" "contract_inv (n + m) d'" "CurrentCounter d' = CurrentCounter d"
    "unhealthyRelaySet d' = unhealthyRelaySet d" "relay_of d' i = relay_of d i"
    "CounterOP d' = CounterOP d" "CounterList d' = CounterList d"
  shows "traced i n c m k r d'"
  using assms unfolding traced_def by (simp only: if_cancel split: if_split) metis

text \<open>A transaction that writes the next entry of the log.\<close>

lemma traced_log:
  assumes tr: "traced i n c m k r d" and k: "k < 256" and inv: "contract_inv (n + m') d'"
    and log: "CounterOP d' = (CounterOP d)(CurrentCounter d := add)" "CounterList d' = (CounterList d)(CurrentCounter d := ids)"
      "CurrentCounter d' = CurrentCounter d + 1"
    and cnt: "Contract.counter (relay_of d' i) = Contract.counter (relay_of d i)"
    and r: "r' = (r \<or> \<not> add \<and> ids \<noteq> [])"
    and quiet: "\<not> r' \<Longrightarrow> unhealthyRelaySet d' = unhealthyRelaySet d \<and> relay_of d' i = relay_of d i \<and> length ids \<le> 1 \<and>
      map of_nat [Suc n ..< Suc (n + m)] @ ids = map of_nat [Suc n ..< Suc (n + m')]"
  shows "traced i n c m' (Suc k) r' d'"
proof -
  let ?C = "CurrentCounter c"
  have cur: "CurrentCounter d = ?C + of_nat k" using tr by (simp add: traced_def)
  have old: "CounterOP d' (?C + of_nat j) = CounterOP d (?C + of_nat j)" "CounterList d' (?C + of_nat j) = CounterList d (?C + of_nat j)"
    if "j < k" for j
    using counter_neq [OF that k, of ?C] by (simp_all add: log cur)
  have new: "CounterOP d' (?C + of_nat k) = add" "CounterList d' (?C + of_nat k) = ids" by (simp_all add: log cur)
  have common: "CurrentCounter d' = ?C + of_nat (Suc k)" "Contract.counter (relay_of d' i) = Contract.counter (relay_of c i)"
    using tr cnt by (simp_all add: log cur traced_def)
  show ?thesis
  proof (cases r')
    case True
    have "\<exists>j < Suc k. \<not> CounterOP d' (?C + of_nat j) \<and> CounterList d' (?C + of_nat j) \<noteq> []"
    proof (cases r)
      case True
      then obtain j where "j < k" "\<not> CounterOP d (?C + of_nat j)" "CounterList d (?C + of_nat j) \<noteq> []"
        using tr by (auto simp: traced_def)
      then show ?thesis using old [of j] by (intro exI [of _ j]) simp
    next
      case False
      then show ?thesis using \<open>r'\<close> r new by (intro exI [of _ k]) simp
    qed
    then show ?thesis using True inv common by (simp add: traced_def)
  next
    case False
    then have nr: "\<not> r" "add \<or> ids = []" using r by auto
    have before: "unhealthyRelaySet d = unhealthyRelaySet c" "relay_of d i = relay_of c i"
      "\<forall>j < k. length (CounterList d (?C + of_nat j)) \<le> 1 \<and> (\<not> CounterOP d (?C + of_nat j) \<longrightarrow> CounterList d (?C + of_nat j) = [])"
      "concat (map (\<lambda>j. CounterList d (?C + of_nat j)) [0 ..< k]) = map of_nat [Suc n ..< Suc (n + m)]"
      using tr unfolding traced_def if_not_P [OF nr(1)] by blast+
    have "map (\<lambda>j. CounterList d' (?C + of_nat j)) [0 ..< k] = map (\<lambda>j. CounterList d (?C + of_nat j)) [0 ..< k]"
      using old by simp
    from arg_cong [OF this, of concat] have "concat (map (\<lambda>j. CounterList d' (?C + of_nat j)) [0 ..< Suc k]) =
        concat (map (\<lambda>j. CounterList d (?C + of_nat j)) [0 ..< k]) @ ids"
      using new by simp
    also have "\<dots> = map of_nat [Suc n ..< Suc (n + m')]" unfolding before(4) using quiet [OF False] by blast
    finally have after: "concat (map (\<lambda>j. CounterList d' (?C + of_nat j)) [0 ..< Suc k]) = map of_nat [Suc n ..< Suc (n + m')]" .
    have "\<forall>j < Suc k. length (CounterList d' (?C + of_nat j)) \<le> 1 \<and> (\<not> CounterOP d' (?C + of_nat j) \<longrightarrow> CounterList d' (?C + of_nat j) = [])"
      using before(3) quiet [OF False] nr(2) old new by (metis less_SucE)
    then show ?thesis
      using False inv common after before(1,2) quiet [OF False] by (simp only: traced_def if_False)
  qed
qed

lemma clear_health_frame:
  "clear_health c is = Some c' \<Longrightarrow> CurrentCounter c' = CurrentCounter c \<and> CounterOP c' = CounterOP c \<and>
     CounterList c' = CounterList c \<and> Contract.counter (relay_of c' i) = Contract.counter (relay_of c i)"
  by (induction c "is" rule: clear_health.induct) (auto split: if_splits)

lemma history_traced:
  assumes "history i c m k r d" "contract_inv n c" "unat i \<le> n"
  shows "n + m < 65536 \<Longrightarrow> k \<le> 256 \<Longrightarrow> traced i n c m k r d"
  using assms(1)
proof (induction rule: history.induct)
  case history_refl
  then show ?case using assms(2) by (simp add: traced_def)
next
  case (history_tx m k r d t d')
  have tr: "traced i n c m k r d" using history_tx by (auto split: if_splits)
  have inv: "contract_inv (n + m) d" using tr by (simp add: traced_def)
  have inv': "contract_inv (n + (if registers t then Suc m else m)) d'"
    using exec_tx_inv [OF inv history_tx.hyps(2)] history_tx.prems(1) by (auto split: if_splits)
  show ?case
  proof (cases t)
    case (TxRegister a)
    let ?i = "of_nat (Suc (n + m)) :: uint16"
    have m: "n + m < 65535" "k < 256" using history_tx.prems TxRegister by simp_all
    have d': "d' = d\<lparr>relayaddr := (relayaddr d)(a := ?i),
        relay_of := (relay_of d)(?i := (relay_of d ?i)\<lparr>registered := True, healthflag := True\<rparr>),
        CounterOP := (CounterOP d)(CurrentCounter d := True),
        CounterList := (CounterList d)(CurrentCounter d := [?i]),
        relayIndex := ?i + 1, CurrentCounter := CurrentCounter d + 1\<rparr>"
      using history_tx.hyps(2) TxRegister contract_invD(1) [OF inv] by (simp add: sol_relay_register_def Let_def split: if_splits)
    have "i \<noteq> ?i" using unat_Suc16 [OF m(1)] assms(3) by auto
    then have "traced i n c (Suc m) (Suc k) r d'"
      using inv' TxRegister by (intro traced_log [OF tr m(2), where add = True and ids = "[?i]"]) (simp_all add: d')
    then show ?thesis using TxRegister by simp
  next
    case (TxModify a q "is")
    obtain e where e: "clear_health d (take (unat q) is) = Some e"
      and d': "d' = e\<lparr>CounterOP := (CounterOP e)(CurrentCounter e := False),
        CounterList := (CounterList e)(CurrentCounter e := is), CurrentCounter := CurrentCounter e + 1\<rparr>"
      using history_tx.hyps(2) TxModify by (auto simp: modifyHealthFlag_def split: if_splits option.splits)
    have k: "k < 256" and invm: "contract_inv (n + m) d'" using history_tx.prems inv' TxModify by simp_all
    note frame = clear_health_frame [OF e, of i]
    have log: "CounterOP d' = (CounterOP d)(CurrentCounter d := False)" "CounterList d' = (CounterList d)(CurrentCounter d := is)"
      "CurrentCounter d' = CurrentCounter d + 1" "Contract.counter (relay_of d' i) = Contract.counter (relay_of d i)"
      using frame by (simp_all add: d')
    have "unhealthyRelaySet d' = unhealthyRelaySet d \<and> relay_of d' i = relay_of d i" if "is = []"
      using e that by (simp add: d')
    then have "traced i n c m (Suc k) (r \<or> is \<noteq> []) d'"
      by (intro traced_log [OF tr k invm log]) simp_all
    then show ?thesis using TxModify by simp
  next
    case (TxUpload a cnt hdr sri nsd)
    then show ?thesis
      using history_tx.hyps inv' by (auto simp: relay_upload_SRI_and_NSD_def Let_def split: if_splits intro!: traced_keep [OF tr])
  next
    case (TxCancel a)
    then show ?thesis
      using history_tx.hyps inv' by (auto simp: relay_cancellation_def split: if_splits intro!: traced_keep [OF tr])
  next
    case (TxPeriod a p)
    then show ?thesis
      using history_tx.hyps inv' by (auto simp: setSRIperiod_def split: if_splits intro!: traced_keep [OF tr])
  qed
qed

lemma concat_rev_short: "\<forall>x \<in> set xs. length (f x) \<le> 1 \<Longrightarrow> concat (map f (rev xs)) = rev (concat (map f xs))"
proof (induction xs)
  case (Cons x xs)
  then show ?case by (cases "f x") auto
qed simp

lemma counter_list_traced:
  assumes tr: "traced i n c m k False d" and k: "0 < k" "unat (CurrentCounter c) + k < 256" and n: "n + m < 65535"
    and w: "chain w = d" "is_registered d a" and up: "up CallCounterList"
  shows "relayGetCounterList up a (CurrentCounter c) w = Some ([], rev (map int [Suc n ..< Suc (n + m)]))"
proof -
  let ?C = "CurrentCounter c" and ?L = "\<lambda>x. CounterList d (of_nat x)"
  let ?xs = "[unat ?C ..< unat ?C + k]" and ?I = "map (\<lambda>i :: uint16. int (unat i))"
  have cur: "unat (CurrentCounter d) = unat ?C + k"
    using tr k by (simp add: traced_def unat_word_ariths unsigned_of_nat take_bit_nat_eq_self)
  have entries: "\<forall>j < k. length (?L (unat ?C + j)) \<le> 1 \<and> (\<not> CounterOP d (of_nat (unat ?C + j)) \<longrightarrow> ?L (unat ?C + j) = [])"
    "concat (map (\<lambda>j. ?L (unat ?C + j)) [0 ..< k]) = map of_nat [Suc n ..< Suc (n + m)]"
    using tr by (simp_all add: traced_def del: upt_Suc)
  have entry: "length (?L x) \<le> 1 \<and> (\<not> CounterOP d (of_nat x) \<longrightarrow> ?L x = [])" if "x \<in> set ?xs" for x
    using entries(1) that by (auto simp: le_iff_add)
  have added: "concat (map (\<lambda>x. if CounterOP d (of_nat x) then [] else ?I (?L x)) (rev ?xs)) = []"
    using entry by auto
  have only: "map (\<lambda>x. if CounterOP d (of_nat x) then ?I (?L x) else []) (rev ?xs) = map (\<lambda>x. ?I (?L x)) (rev ?xs)"
    using entry by auto
  have "concat (map (\<lambda>x. ?I (?L x)) (rev ?xs)) = rev (concat (map (\<lambda>x. ?I (?L x)) ?xs))"
    using entry by (intro concat_rev_short) simp
  also have "map (\<lambda>x. ?I (?L x)) ?xs = map ?I (map (\<lambda>j. ?L (unat ?C + j)) [0 ..< k])"
    by (intro nth_equalityI) auto
  also have "concat (map ?I (map (\<lambda>j. ?L (unat ?C + j)) [0 ..< k])) = ?I (map of_nat [Suc n ..< Suc (n + m)])"
    by (simp only: map_concat [symmetric] entries(2))
  also have "\<dots> = map int [Suc n ..< Suc (n + m)]"
    using n by (auto simp: unsigned_of_nat take_bit_nat_eq_self simp del: upt_Suc)
  finally show ?thesis
    by (simp only: counter_list_value [where up = up, OF w up cur k(1)] added only)
qed

text \<open>
  After a relay was reported as unhealthy, every entry that was uploaded before that report
  raises an exception on download: the integers to add back are added as if they were lists.
\<close>

lemma download_fails_after_report:
  assumes "counter (relay_of (chain w) (of_int relayID)) = cnt"
    and "unat cnt \<le> j" "j < unat (CurrentCounter (chain w))"
    and "\<not> CounterOP (chain w) (of_nat j)" "CounterList (chain w) (of_nat j) \<noteq> []"
    and "Counter w = int (unat (CurrentCounter (chain w)))"
  shows "relayDownloadSRI up a relayID w = None"
proof (cases "relay_download_SRI (chain w) a (of_int relayID)")
  case (Some r)
  then obtain hdr sri where r: "r = (cnt, hdr, sri)" and reg: "is_registered (chain w) a"
    using assms(1) by (auto simp: relay_download_SRI_def split: if_splits)
  have less: "int (unat cnt) < Counter w" unfolding assms(6) using assms(2,3) by linarith
  define xs where "xs = rev [unat cnt ..< unat (CurrentCounter (chain w))]"
  have j: "j \<in> set xs" using assms(2,3) by (simp add: xs_def)
  have zip: "zip (map f xs) (map g xs) = map (\<lambda>x. (f x, g x)) xs" for f g and xs :: "nat list"
    by (induction xs) auto
  have "relayGetCounterList up a cnt w = None \<or> (\<exists>add del. relayGetCounterList up a cnt w = Some (add, del) \<and> add \<noteq> [])"
    using j assms(4,5) reg
    by (auto simp: relayGetCounterList_def relay_get_counter_list_def zip comp_def Let_def
        simp flip: xs_def split: if_splits)
  then show ?thesis using less by (auto simp: relayDownloadSRI_def Some r)
qed (simp add: relayDownloadSRI_def)

lemma traced_download:
  assumes tr: "traced i n c m k reported d" and inv: "contract_inv n c" and i: "healthflag (relay_of c i)"
    "Contract.counter (relay_of c i) = CurrentCounter c" "unat i \<le> n"
    and bounds: "n + m < 65535" "unat (CurrentCounter c) + k < 256"
    and w: "chain w = d" "relaySet w = receivers d" "Counter w = int (unat (CurrentCounter d))"
    and reg: "is_registered d a" and up: "\<And>x. up x"
  shows "relayDownloadSRI up a (int (unat i)) w =
    (if reported then None
     else Some (receivers c, findall_130 (hexlify (relay_Hdr (relay_of c i))), hexlify (encryptedSRI (relay_of c i))))"
proof -
  let ?C = "CurrentCounter c"
  have cur: "unat (CurrentCounter d) = unat ?C + k"
    using tr bounds by (simp add: traced_def unat_word_ariths unsigned_of_nat take_bit_nat_eq_self)
  have range: "int (unat i) \<le> 65535" "0 \<le> int (unat i)" using i(3) bounds by linarith+
  show ?thesis
  proof (cases reported)
    case True
    then obtain j where j: "j < k" "\<not> CounterOP d (?C + of_nat j)" "CounterList d (?C + of_nat j) \<noteq> []"
      using tr by (auto simp: traced_def)
    have cnt: "Contract.counter (relay_of (chain w) (of_int (int (unat i)))) = ?C"
      using tr i(2) by (simp add: traced_def w)
    have "relayDownloadSRI up a (int (unat i)) w = None"
      using j cur w by (intro download_fails_after_report [OF cnt, of "unat ?C + j"]) simp_all
    then show ?thesis using True by simp
  next
    case False
    then have quiet: "traced i n c m k False d" using tr by simp
    then have same: "relay_of d i = relay_of c i" "contract_inv (n + m) d" "unhealthyRelaySet d = unhealthyRelaySet c"
      by (simp_all add: traced_def)
    have rcv: "receivers d = receivers c @ map int [Suc n ..< Suc (n + m)]"
      using receivers_grow [OF inv same(2,3) bounds(1)] .
    have "i < relayIndex d"
      unfolding word_less_nat_alt contract_invD(1) [OF same(2)] unat_Suc16 [OF bounds(1)] using i(3) by simp
    then have dl: "relay_download_SRI d a i = Some (?C, relay_Hdr (relay_of c i), encryptedSRI (relay_of c i))"
      using reg i(1,2) by (simp add: relay_download_SRI_def same(1))
    have S: "(if int (unat ?C) < Counter w
        then (case relayGetCounterList up a ?C w of
                None \<Rightarrow> None
              | Some (addSet, deleteSet) \<Rightarrow> if addSet \<noteq> [] then None else remove_all (relaySet w) deleteSet)
        else Some (relaySet w)) = Some (receivers c)"
    proof (cases "k = 0")
      case True
      then have "map (of_nat :: nat \<Rightarrow> uint16) [Suc n ..< Suc (n + m)] = []" using quiet by (simp add: traced_def del: upt_Suc)
      then have "m = 0" by (simp del: upt_Suc)
      then show ?thesis using cur w rcv True by simp
    next
      case False
      then have "relayGetCounterList up a ?C w = Some ([], rev (map int [Suc n ..< Suc (n + m)]))"
        using counter_list_traced [OF quiet _ bounds(2,1) w(1) reg] up by simp
      moreover have "remove_all (receivers d) (rev (map int [Suc n ..< Suc (n + m)])) = Some (receivers c)"
        using remove_all_suffix receivers_distinct [of d] rcv by simp
      ultimately show ?thesis using w cur False by simp
    qed
    show ?thesis
      using up range dl S w(1) False unfolding relayDownloadSRI_def by (simp add: not_less)
  qed
qed

subsection \<open>Properties\<close>

text \<open>
  C10. What a download makes of an entry, after any history. Relay \<open>i\<close> is healthy and has uploaded under
  the current counter of storage \<open>c\<close>. Then transactions of any kind are executed except new uploads
  and the cancellation of relay \<open>i\<close> itself: registrations (\<open>m\<close> of them), uploads and cancellations of others,
  changes of the period, and reports of unhealthy relays; \<open>k\<close> of them advance the counter. As long as the
  \<^verbatim>\<open>uint8\<close> counter does not wrap around and the \<^verbatim>\<open>uint16\<close> indices suffice, a registered relay that fetches
  the current receiver set and then downloads the entry reconstructs exactly the receiver set of
  storage \<open>c\<close>, the one the entry was encrypted for, if no report was executed; after a report the download
  raises an exception.
\<close>

theorem download_recovers_receivers:
  assumes "ledger n c" "healthflag (relay_of c i)" "Contract.counter (relay_of c i) = CurrentCounter c"
    and "history i c m k reported d" "n + m < 65535" "unat (CurrentCounter c) + k < 256"
    and "chain w = d" "is_registered d a" "\<And>x. up x"
  shows "\<exists>w'. relayGetSet up a w = Some (int (unat (CurrentCounter d)), receivers d, w') \<and>
     relayDownloadSRI up a (int (unat i)) w' =
       (if reported then None
        else Some (receivers c, findall_130 (hexlify (relay_Hdr (relay_of c i))), hexlify (encryptedSRI (relay_of c i))))"
proof -
  have inv: "contract_inv n c" using ledger_inv assms(1,5) by simp
  have i: "unat i \<le> n" using contract_invD(2,5) [OF inv] assms(2) by blast
  have tr: "traced i n c m k reported d" using history_traced [OF assms(4) inv i] assms(5,6) by simp
  let ?w = "w\<lparr>relaySet := receivers d, Counter := int (unat (CurrentCounter d))\<rparr>"
  have "relayGetSet up a w = Some (int (unat (CurrentCounter d)), receivers d, ?w)"
    using assms(7-9) by (simp add: relayGetSet_eq)
  moreover have "relayDownloadSRI up a (int (unat i)) ?w =
      (if reported then None
       else Some (receivers c, findall_130 (hexlify (relay_Hdr (relay_of c i))), hexlify (encryptedSRI (relay_of c i))))"
    using traced_download [OF tr inv assms(2,3) i assms(5,6), of ?w a up] assms(7-9) by simp
  ultimately show ?thesis by blast
qed

lemma demo_history: "history 1 demo_c3 1 1 False demo_c4" "history 1 demo_c3 1 2 True demo_c5"
proof -
  show one: "history 1 demo_c3 1 1 False demo_c4"
    using history_tx [OF history_refl demo_c4, of 1] by simp
  show "history 1 demo_c3 1 2 True demo_c5"
    using history_tx [OF one demo_c5] by (simp add: numeral_2_eq_2)
qed

theorem download_recovers_receivers_witness:
  "(\<exists>w'. relayGetSet (\<lambda>_. True) 8 (demo_world demo_c4) = Some (int (unat (CurrentCounter demo_c4)), receivers demo_c4, w') \<and>
     relayDownloadSRI (\<lambda>_. True) 8 (int (unat (1 :: uint16))) w' =
       Some (receivers demo_c3, findall_130 (hexlify (relay_Hdr (relay_of demo_c3 1))),
         hexlify (encryptedSRI (relay_of demo_c3 1)))) \<and>
   (\<exists>w'. relayGetSet (\<lambda>_. True) 8 (demo_world demo_c5) = Some (int (unat (CurrentCounter demo_c5)), receivers demo_c5, w') \<and>
     relayDownloadSRI (\<lambda>_. True) 8 (int (unat (1 :: uint16))) w' = None)"
proof -
  note defs = demo_world_def demo_c5_def demo_c4_def demo_c3_def demo_c2_def demo_c1_def demo_defs
  have c3: "healthflag (relay_of demo_c3 1)" "Contract.counter (relay_of demo_c3 1) = CurrentCounter demo_c3"
    "unat (CurrentCounter demo_c3) + 2 < 256" by (simp_all add: defs)
  have reg: "is_registered demo_c4 8" "is_registered demo_c5 8" by (simp_all add: defs)
  show ?thesis
    using download_recovers_receivers [OF demo_c3_ledger c3(1,2) demo_history(1), of "demo_world demo_c4" 8 "\<lambda>_. True"]
      download_recovers_receivers [OF demo_c3_ledger c3(1,2) demo_history(2), of "demo_world demo_c5" 8 "\<lambda>_. True"] c3(3) reg
    by (simp add: demo_world_def)
qed

text \<open>
  Beyond the bound. An entry uploaded under counter 255 survives the registration that takes the counter
  to 0: its counter is then not below the current one, no entry of the log is undone, and the download
  returns the current receiver set, with the new relay in it, instead of the set the entry was encrypted for.
\<close>

lemma download_after_wrap:
  assumes inv: "contract_inv n c" "n < 65534" and i: "healthflag (relay_of c i)" "Contract.counter (relay_of c i) = 255"
    and wrap: "CurrentCounter c = 255" "sol_relay_register c b = Some d"
    and w: "chain w = d" and reg: "is_registered d a" and up: "\<And>x. up x"
  shows "\<exists>w'. relayGetSet up a w = Some (0, receivers d, w') \<and>
     relayDownloadSRI up a (int (unat i)) w' =
       Some (receivers d, findall_130 (hexlify (relay_Hdr (relay_of c i))), hexlify (encryptedSRI (relay_of c i))) \<and>
     receivers d = receivers c @ [int (Suc n)]"
proof -
  let ?i = "of_nat (Suc n) :: uint16"
  have d: "CurrentCounter d = 0" "unhealthyRelaySet d = unhealthyRelaySet c"
    "relay_of d = (relay_of c)(?i := (relay_of c ?i)\<lparr>registered := True, healthflag := True\<rparr>)"
    using wrap contract_invD(1) [OF inv(1)] by (auto simp: sol_relay_register_def Let_def split: if_splits)
  have le: "unat i \<le> n" using contract_invD(2,5) [OF inv(1)] i(1) by blast
  then have "i \<noteq> ?i" using unat_Suc16 [of n] inv(2) by auto
  then have same: "relay_of d i = relay_of c i" by (simp add: d(3))
  have inv': "contract_inv (Suc n) d" using register_inv [OF inv(1) _ wrap(2)] inv(2) by simp
  then have rcv: "receivers d = receivers c @ [int (Suc n)]"
    using receivers_grow [of n c 1 d] inv d(2) by simp
  have "i < relayIndex d"
    unfolding word_less_nat_alt contract_invD(1) [OF inv'] using unat_Suc16 [of "Suc n"] inv(2) le by simp
  then have dl: "relay_download_SRI d a i = Some (255, relay_Hdr (relay_of c i), encryptedSRI (relay_of c i))"
    using reg i by (simp add: relay_download_SRI_def same)
  have range: "int (unat i) \<le> 65535" "0 \<le> int (unat i)" using le inv(2) by linarith+
  let ?w = "w\<lparr>relaySet := receivers d, Counter := 0\<rparr>"
  have "relayGetSet up a w = Some (0, receivers d, ?w)" using w reg up by (simp add: relayGetSet_eq d(1))
  moreover have "relayDownloadSRI up a (int (unat i)) ?w =
      Some (receivers d, findall_130 (hexlify (relay_Hdr (relay_of c i))), hexlify (encryptedSRI (relay_of c i)))"
    using up range dl w unfolding relayDownloadSRI_def by (simp add: not_less)
  ultimately show ?thesis using rcv by blast
qed

lemma download_fails_after_report_demo:
  "relayDownloadSRI (\<lambda>_. True) 8 1 (demo_world demo_c5) = None"
proof (rule download_fails_after_report [where j = 4])
  show "counter (relay_of (chain (demo_world demo_c5)) (of_int 1)) = 3"
    by (simp add: demo_world_def demo_c5_def demo_c4_def demo_c3_def demo_c2_def demo_c1_def demo_defs)
qed (simp_all add: demo_world_def, simp_all add: demo_c5_def demo_c4_def demo_c3_def demo_c2_def demo_c1_def demo_defs)

end
