(* ===== verification/Directory.thy ===== *)
theory Directory
  imports Bkem Binascii Scanf Relay_Py
begin

text \<open>
  The relay's directory client in \<^verbatim>\<open>src/BADNET/src/feature/relay/router.c\<close>: registration, upload and
  download of descriptors through the embedded Python interpreter, the rebuilding of the
  descriptor and the periodic callbacks of \<^verbatim>\<open>relay_periodic.c\<close> that drive it. The static variables
  of \<^verbatim>\<open>router.c\<close> are the record \<open>relay_state\<close>; what the environment provides (files, the pairing
  library, the interpreter) is the record \<open>relay_env\<close>. A result \<open>None\<close> is a run that uses a null or
  unset pointer: the results of Python calls are used without a test.
\<close>

subsection \<open>State and environment\<close>

record routerinfo =
  nickname :: string
  identity_digest :: "byte list"
  ipv4_addr :: uint32
  ipv4_orport :: uint16
  onion_pkey_pem :: string
  onion_curve25519_pkey :: "byte list"
  ed_signing_key :: "byte list"

record relay_state =
  python_is_initialized :: bool
  relay_is_registered :: bool
  myIndex :: int
  desc_clean_since :: int
  desc_needs_upload :: bool
  desc_routerinfo :: "routerinfo option"
  desc_gen_reason :: "string option"
  desc_dirty_reason :: "string option"

record ('g, 't) relay_env =
  env_addr :: address
  env_pbc :: "('g, 't) pbc"
  env_aes :: aes
  env_sha256 :: "byte list \<Rightarrow> byte list"
  env_pk_file :: "string option"
  env_sk_file :: "string option"
  env_exponent :: int
  env_stale :: string
  env_garbage :: "byte list"
  env_py_init :: bool
  env_import :: bool
  env_up :: "py_call \<Rightarrow> bool"

text \<open>The opening of every function that calls Python: start the interpreter once, load the module.\<close>

definition start_python :: "('g, 't) relay_env \<Rightarrow> relay_state \<Rightarrow> bool \<times> relay_state" where
  "start_python env st =
     (if python_is_initialized st then (env_import env, st)
      else if env_py_init env then (env_import env, st\<lparr>python_is_initialized := True\<rparr>)
      else (False, st))"

subsection \<open>Registration\<close>

text \<open>\<^verbatim>\<open>PyLong_AsLong\<close> of a null result is -1.\<close>

definition PyLong_AsLong :: "int option \<Rightarrow> int" where
  "PyLong_AsLong r = (case r of None \<Rightarrow> -1 | Some n \<Rightarrow> n)"

definition relay_register ::
  "('g, 't) relay_env \<Rightarrow> relay_state \<Rightarrow> relay_world \<Rightarrow> int \<times> relay_state \<times> relay_world" where
  "relay_register env st w =
     (let (ok, st1) = start_python env st
      in if \<not> ok then (0, st1, w)
         else let index = PyLong_AsLong (relayRegistrationCheck (env_up env) (env_addr env) w)
              in if index = 0 then
                   (let w1 = (case relayRegister (env_up env) (env_addr env) w of None \<Rightarrow> w | Some w1 \<Rightarrow> w1);
                        i = PyLong_AsLong (relayRegistrationCheck (env_up env) (env_addr env) w1)
                    in (1, st1\<lparr>myIndex := i, relay_is_registered := True\<rparr>, w1))
                 else (1, st1\<lparr>myIndex := index, relay_is_registered := True\<rparr>, w))"

subsection \<open>Upload\<close>

text \<open>
  The text that \<^verbatim>\<open>sprintf\<close> assembles in the buffer \<^verbatim>\<open>str\<close>; \<open>None\<close> when an encoder fails and the
  buffer is used uninitialised.
\<close>

definition sri_text :: "routerinfo \<Rightarrow> string option" where
  "sri_text ri =
     (case (Option.bind (base64_encode_size 20 False) (\<lambda>n. base64_encode_nopad (n + 1) (identity_digest ri)),
            base64_encode 128 (onion_curve25519_pkey ri) True,
            ed25519_public_to_base64 (ed_signing_key ri)) of
        (Some result, Some kbuf, Some ed_fp_base64) \<Rightarrow>
          Some (''r '' @ nickname ri @ '' '' @ result @ '' '' @ tor_inet_ntoa (ipv4_addr ri) @ '' '' @
                show_nat (unat (ipv4_orport ri)) @ [NL] @
                ''onion-key'' @ [NL] @ onion_pkey_pem ri @
                ''ntor-onion-key '' @ kbuf @
                ''id ed25519 '' @ ed_fp_base64 @ [NL])
      | _ \<Rightarrow> None)"

definition SRI_BUFFER_LEN :: nat where "SRI_BUFFER_LEN = 1024"

definition router_upload_descriptor_to_blockchain ::
  "('g, 't) relay_env \<Rightarrow> routerinfo \<Rightarrow> relay_state \<Rightarrow> relay_world \<Rightarrow>
   (int \<times> relay_state \<times> relay_world) option" where
  "router_upload_descriptor_to_blockchain env ri st w =
     (case sri_text ri of
        None \<Rightarrow> None
      | Some str \<Rightarrow>
          if length str + 1 > SRI_BUFFER_LEN then None
          else let (ok, st1) = start_python env st
               in if \<not> ok then Some (0, st1, w)
                  else case relayGetSet (env_up env) (env_addr env) w of
                    None \<Rightarrow> None
                  | Some (cnt, S, w1) \<Rightarrow>
                      (case bkem_encryption (env_pbc env) (env_exponent env) (env_stale env)
                              (env_pk_file env) (env_garbage env) S of
                         Inl _ \<Rightarrow> None
                       | Inr (Key, Hdr) \<Rightarrow>
                           (case relayUploadSRIAndNSD (env_up env) (env_aes env) (env_sha256 env)
                                   (env_addr env) cnt (text_of Hdr) str (text_of Key) w1 of
                              None \<Rightarrow> Some (1, st1, w1)
                            | Some w2 \<Rightarrow> Some (1, st1, w2))))"

subsection \<open>Download\<close>

text \<open>
  The loop over the receiver set; \<open>fileEnd\<close> is set for the last relay. A relay that has not
  uploaded anything is skipped; an exception of \<^verbatim>\<open>relayDecryptSRIs\<close> is ignored.
\<close>

fun download_loop ::
  "('g, 't) relay_env \<Rightarrow> int \<Rightarrow> int list \<Rightarrow> relay_world \<Rightarrow> relay_world option" where
  "download_loop env index [] w = Some w"
| "download_loop env index (relayID # ids) w =
     (let fileEnd = (ids = [])
      in case relayDownloadSRI (env_up env) (env_addr env) relayID w of
           None \<Rightarrow> None
         | Some (S, Hdr, enSRI) \<Rightarrow>
             if length enSRI = 0 then download_loop env index ids w
             else (case bkem_decryption (env_pbc env) (env_stale env) (env_pk_file env) (env_sk_file env)
                          (env_garbage env) S index Hdr of
                     Inl _ \<Rightarrow> None
                   | Inr decKey \<Rightarrow>
                       (case relayDecryptSRIs (env_aes env) relayID enSRI (text_of decKey) fileEnd w of
                          None \<Rightarrow> download_loop env index ids w
                        | Some w1 \<Rightarrow> download_loop env index ids w1)))"

definition router_download_descriptor_from_blockchain ::
  "('g, 't) relay_env \<Rightarrow> relay_state \<Rightarrow> relay_world \<Rightarrow> (int \<times> relay_state \<times> relay_world) option" where
  "router_download_descriptor_from_blockchain env st w =
     (let (ok, st1) = start_python env st
      in if \<not> ok then Some (0, st1, w)
         else case relayGetSet (env_up env) (env_addr env) w of
                None \<Rightarrow> None
              | Some (cnt, S, w1) \<Rightarrow>
                  (case download_loop env (myIndex st1) S w1 of
                     None \<Rightarrow> None
                   | Some w2 \<Rightarrow> Some (1, st1, w2)))"

subsection \<open>Rebuilding the descriptor\<close>

text \<open>
  \<^verbatim>\<open>router_rebuild_descriptor\<close>: \<open>fresh\<close> is the result of \<^verbatim>\<open>router_build_fresh_descriptor\<close> (\<open>None\<close> for a
  negative return value) and \<open>now\<close> the time.
\<close>

definition router_rebuild_descriptor ::
  "('g, 't) relay_env \<Rightarrow> routerinfo option \<Rightarrow> int \<Rightarrow> bool \<Rightarrow> bool \<Rightarrow> relay_state \<Rightarrow> relay_world \<Rightarrow>
   (bool \<times> relay_state \<times> relay_world) option" where
  "router_rebuild_descriptor env fresh now force flag st w =
     (if desc_clean_since st \<noteq> 0 \<and> \<not> force then Some (True, st, w)
      else case fresh of
             None \<Rightarrow> Some (False, st, w)
           | Some ri \<Rightarrow>
               let publish = (\<lambda>st. st\<lparr>desc_routerinfo := Some ri, desc_clean_since := now,
                      desc_needs_upload := True, desc_gen_reason := desc_dirty_reason st,
                      desc_dirty_reason := None\<rparr>)
               in if \<not> flag then Some (True, publish st, w)
                  else
                    let (r1, st1, w1) = (if relay_is_registered st then (1, st, w) else relay_register env st w)
                    in if r1 = 0 then Some (False, st1, w1)
                       else (case router_download_descriptor_from_blockchain env st1 w1 of
                               None \<Rightarrow> None
                             | Some (r2, st2, w2) \<Rightarrow>
                                 if r2 = 0 then Some (False, st2, w2)
                                 else (case router_upload_descriptor_to_blockchain env ri st2 w2 of
                                         None \<Rightarrow> None
                                       | Some (r3, st3, w3) \<Rightarrow>
                                           if r3 = 0 then Some (False, st3, w3)
                                           else Some (True, publish st3, w3))))"

definition CHECK_DESCRIPTOR_INTERVAL :: int where "CHECK_DESCRIPTOR_INTERVAL = 60 * 60"

definition check_descriptor_callback ::
  "('g, 't) relay_env \<Rightarrow> routerinfo option \<Rightarrow> int \<Rightarrow> relay_state \<Rightarrow> relay_world \<Rightarrow>
   (int \<times> relay_state \<times> relay_world) option" where
  "check_descriptor_callback env fresh now st w =
     (case router_rebuild_descriptor env fresh now True True st w of
        None \<Rightarrow> None
      | Some (_, st', w') \<Rightarrow> Some (CHECK_DESCRIPTOR_INTERVAL, st', w'))"

text \<open>
  \<^verbatim>\<open>mark_my_descriptor_dirty\<close>, and \<^verbatim>\<open>mark_my_descriptor_dirty_if_too_old\<close> with what the live consensus
  says about the relay: no consensus, not listed, or its publication time, stale flag and the
  consensus time.
\<close>

definition mark_my_descriptor_dirty :: "string option \<Rightarrow> relay_state \<Rightarrow> relay_state" where
  "mark_my_descriptor_dirty reason st =
     (let r = (case reason of None \<Rightarrow> ''marked descriptor dirty for unspecified reason'' | Some r \<Rightarrow> r)
      in st\<lparr>desc_clean_since := 0,
            desc_dirty_reason := (case desc_dirty_reason st of None \<Rightarrow> Some r | Some q \<Rightarrow> Some q)\<rparr>)"

datatype live_status = NoConsensus | NotListed | Listed int bool int

definition FORCE_REGENERATE_DESCRIPTOR_INTERVAL :: int where
  "FORCE_REGENERATE_DESCRIPTOR_INTERVAL = 18 * 60 * 60"
definition FAST_RETRY_DESCRIPTOR_INTERVAL :: int where
  "FAST_RETRY_DESCRIPTOR_INTERVAL = 90 * 60"

definition mark_my_descriptor_dirty_if_too_old :: "live_status \<Rightarrow> int \<Rightarrow> relay_state \<Rightarrow> relay_state" where
  "mark_my_descriptor_dirty_if_too_old ns now st =
     (let slow_cutoff = now - FORCE_REGENERATE_DESCRIPTOR_INTERVAL;
          fast_cutoff = now - FAST_RETRY_DESCRIPTOR_INTERVAL
      in if desc_clean_since st = 0 then st
         else if desc_clean_since st < slow_cutoff
         then mark_my_descriptor_dirty (Some ''time for new descriptor'') st
         else
           let retry_fast_reason =
             (case ns of
                NoConsensus \<Rightarrow> None
              | NotListed \<Rightarrow> Some ''not listed in consensus''
              | Listed published_on is_staledesc valid_after \<Rightarrow>
                  if published_on < slow_cutoff then Some ''version listed in consensus is quite old''
                  else if is_staledesc \<and> valid_after > desc_clean_since st
                  then Some ''listed as stale in consensus'' else None)
           in if retry_fast_reason \<noteq> None \<and> desc_clean_since st < fast_cutoff
              then mark_my_descriptor_dirty retry_fast_reason st else st)"

subsection \<open>Headers as the chain returns them\<close>

lemma length_hexlify [simp]: "length (hexlify bs) = 2 * length bs"
  by (simp add: hexlify_def length_concat_map_const [where n = 2])

lemma hex_value_lower [simp]: "n < 16 \<Longrightarrow> hex_value (hex_digit_lower n) = Some n"
  by (simp add: hex_value_def hex_digit_lower_def)

lemma hex_digit_lower_plain:
  "n < 16 \<Longrightarrow> \<not> is_space (hex_digit_lower n) \<and> hex_digit_lower n \<noteq> CHR ''x'' \<and> hex_digit_lower n \<noteq> CHR ''X''"
  by (auto simp: is_space_def hex_digit_lower_def intro!: char_neqI split: if_splits)

lemma scan_hex_hexlify: "scan_hex (hexlify bs) = Some bs"
proof (induction bs)
  case Nil
  show ?case by (simp add: hexlify_def)
next
  case (Cons b bs)
  let ?c = "hex_digit_lower (unat b div 16)" and ?d = "hex_digit_lower (unat b mod 16)"
  have h: "hexlify (b # bs) = ?c # ?d # hexlify bs" by (simp add: hexlify_def)
  have "sscanf_2X (?c # ?d # hexlify bs) = Some (of_nat (16 * (unat b div 16) + unat b mod 16))"
    using hex_digit_lower_plain [of "unat b div 16"] hex_digit_lower_plain [of "unat b mod 16"]
    by (simp add: sscanf_2X_def)
  then have "sscanf_2X (?c # ?d # hexlify bs) = Some b" by simp
  then show ?case unfolding h using Cons by (simp add: scan_hex.simps [of "?c # ?d # hexlify bs"])
qed

lemma decode_hdr_hexlify:
  assumes "length bs = n" "0 < n"
  shows "decode_hdr n garbage (hexlify bs) = Some (bs, 3)"
  using assms by (auto simp: decode_hdr_def scan_hex_hexlify overwrite_def Let_def)

lemma hexlify_concat: "hexlify (concat bss) = concat (map hexlify bss)"
  by (induction bss) (simp_all add: hexlify_def)

lemma findall_130_header:
  assumes "pbc_codec P 65"
  shows "findall_130 (hexlify (concat (map (g1_to_bytes_compressed P) hs))) =
    map (\<lambda>h. hexlify (g1_to_bytes_compressed P h)) hs"
proof -
  have "length (hexlify (g1_to_bytes_compressed P h)) = 130" for h
    using assms by (simp add: pbc_codec_def)
  then have "chunks 130 (concat (map (\<lambda>h. hexlify (g1_to_bytes_compressed P h)) hs)) =
      map (\<lambda>h. hexlify (g1_to_bytes_compressed P h)) hs"
    by (intro chunks_concat) auto
  then show ?thesis by (simp add: findall_130_def hexlify_concat comp_def)
qed

lemma a2b_hex_upper: "a2b_hex (concat (map hex_byte bs)) = Some bs"
  using base16_pairs_encode [of bs] by (simp add: a2b_hex_def base16_encode_def)

subsection \<open>Publishing and recovering a descriptor\<close>

text \<open>
  A group of relays that share the public key file: the pairing obeys its laws, elements take 65
  bytes compressed, the keys are well formed, and a session key has at least 16 bytes.
\<close>

definition shared_keys ::
  "('g, 't) pbc \<Rightarrow> int \<Rightarrow> (nat \<Rightarrow> int) \<Rightarrow> nat \<Rightarrow> nat \<Rightarrow> bkem_global_params \<Rightarrow> 'g pubkey \<Rightarrow> bool" where
  "shared_keys P \<alpha> \<gamma> A B gps PK \<longleftrightarrow> pbc_laws P \<and> pbc_codec P 65 \<and> bkem_keys P \<alpha> \<gamma> A B gps PK \<and>
     (\<forall>x. 16 \<le> length (gt_to_bytes P x))"

text \<open>A relay of the group whose private key is that of index \<open>j\<close>.\<close>

definition member ::
  "('g, 't) relay_env \<Rightarrow> ('g, 't) pbc \<Rightarrow> bkem_global_params \<Rightarrow> 'g pubkey \<Rightarrow> bool" where
  "member env P gps PK \<longleftrightarrow> env_pbc env = P \<and> aes_laws (env_aes env) \<and>
     bkem_param P (env_stale env) (env_pk_file env) = Inr (gps, PK)"

definition holds_secret ::
  "('g, 't) relay_env \<Rightarrow> int \<Rightarrow> (nat \<Rightarrow> int) \<Rightarrow> nat \<Rightarrow> 'g pubkey \<Rightarrow> nat \<Rightarrow> bool" where
  "holds_secret env \<alpha> \<gamma> B PK j \<longleftrightarrow> (\<exists>sk. env_sk_file env = Some sk \<and>
     g1_set_str (env_pbc env) (fst (fgets 512 (env_stale env) sk)) = bkem_secret (env_pbc env) \<alpha> \<gamma> B PK j)"

text \<open>The file content after one more descriptor.\<close>

definition store_descriptor :: "int \<Rightarrow> string \<Rightarrow> bool \<Rightarrow> relay_world \<Rightarrow> relay_world" where
  "store_descriptor relayID str fileEnd w =
     (let cached = (case NIME_cached w of None \<Rightarrow> [] | Some s \<Rightarrow> s) @
            ''index '' @ show_nat (nat relayID) @ [NL] @ str
      in if fileEnd then w\<lparr>NIME := Some cached, NIME_cached := None\<rparr>
         else w\<lparr>NIME_cached := Some cached\<rparr>)"

lemma key_text_length:
  "shared_keys P \<alpha> \<gamma> A B gps PK \<Longrightarrow> length (bytes_of (take 32 (text_of (sprintf_all 512 (gt_to_bytes P x))))) = 32"
  using length_concat_map_const [of _ hex_byte 2] by (auto simp: shared_keys_def)

lemma receivers_range:
  assumes "contract_inv n c" "n < 65535" "int n < gN gps"
  shows "\<forall>s \<in> set (receivers c). 0 \<le> s \<and> s < gN gps"
  using assms contract_invD(1) [OF assms(1)] unat_Suc16 [OF assms(2)] by (auto simp: receivers_def)

text \<open>What an upload leaves on the chain.\<close>

lemma upload_effect:
  assumes keys: "shared_keys P \<alpha> \<gamma> A B gps PK" and mem: "member env P gps PK" and up: "\<And>x. env_up env x"
    and str: "sri_text ri = Some str" "length str < SRI_BUFFER_LEN" "utf8_text str"
    and py: "start_python env st = (True, st1)"
    and inv: "contract_inv n (chain w)" "n < 65535" "int n < gN gps"
    and reg: "is_registered (chain w) (env_addr env)"
      "healthflag (relay_of (chain w) (relayaddr (chain w) (env_addr env)))"
  shows "\<exists>kp w' c. get_encryption_key P (env_exponent env) (receivers (chain w)) PK gps = Inr kp \<and>
     router_upload_descriptor_to_blockchain env ri st w = Some (1, st1, w') \<and> chain w' = c \<and>
     relay_upload_SRI_and_NSD (chain w) (env_addr env) (CurrentCounter (chain w))
       (concat (map (g1_to_bytes_compressed P) (HDR kp)))
       (cbc_encrypt (env_aes env) (bytes_of (take 32 (text_of (sprintf_all 512 (gt_to_bytes P (keyK kp)))))) (padding str))
       (env_sha256 env (bytes_of str)) = Some c"
proof -
  let ?S = "receivers (chain w)" and ?cnt = "CurrentCounter (chain w)"
  have S: "\<forall>s \<in> set ?S. 0 \<le> s \<and> s < gN gps" by (rule receivers_range [OF inv])
  have laws: "pbc_laws P" "pbc_codec P 65" "bkem_keys P \<alpha> \<gamma> A B gps PK"
    using keys by (auto simp: shared_keys_def)
  obtain kp where kp: "get_encryption_key P (env_exponent env) ?S PK gps = Inr kp"
    using get_encryption_key_exp [OF laws(1,3) S] by blast
  let ?K = "text_of (sprintf_all 512 (gt_to_bytes P (keyK kp)))"
  let ?hdr = "concat (map (g1_to_bytes_compressed P) (HDR kp))"
  have enc: "bkem_encryption (env_pbc env) (env_exponent env) (env_stale env) (env_pk_file env) (env_garbage env) ?S =
      Inr (sprintf_all 512 (gt_to_bytes P (keyK kp)), sprintf_all (2 * 65 * nat (gA gps + 1)) ?hdr)"
    using bkem_encryption_text [OF laws(2) _ kp] mem by (simp add: member_def)
  have klen: "length (bytes_of (take 32 ?K)) \<in> {16, 24, 32}" using key_text_length [OF keys] by blast
  have "aes_laws (env_aes env)" using mem by (simp add: member_def)
  then have aes: "AES_encrypt (env_aes env) str (bytes_of (take 32 ?K)) =
      Some (hexlify (cbc_encrypt (env_aes env) (bytes_of (take 32 ?K)) (padding str)))"
    using AES_roundtrip [OF _ klen str(3)] by blast
  have cnt: "0 \<le> int (unat ?cnt)" "int (unat ?cnt) \<le> 255" "(of_int (int (unat ?cnt)) :: uint8) = ?cnt"
    using unat_byte_le [of ?cnt] by (linarith, linarith, simp)
  obtain c where c: "relay_upload_SRI_and_NSD (chain w) (env_addr env) ?cnt ?hdr
       (cbc_encrypt (env_aes env) (bytes_of (take 32 ?K)) (padding str)) (env_sha256 env (bytes_of str)) = Some c"
    using reg by (simp add: relay_upload_SRI_and_NSD_def Let_def)
  let ?w1 = "w\<lparr>relaySet := ?S, Counter := int (unat ?cnt)\<rparr>"
  have get: "relayGetSet (env_up env) (env_addr env) w = Some (int (unat ?cnt), ?S, ?w1)"
    using up reg(1) by (simp add: relayGetSet_eq)
  have put: "relayUploadSRIAndNSD (env_up env) (env_aes env) (env_sha256 env) (env_addr env) (int (unat ?cnt))
      (concat (map hex_byte ?hdr)) str ?K ?w1 = Some (?w1\<lparr>chain := c\<rparr>)"
    unfolding relayUploadSRIAndNSD_def aes option.case a2b_hex_upper a2b_hex_hexlify
    using up c cnt by (simp add: send_tx_def not_less)
  have "router_upload_descriptor_to_blockchain env ri st w = Some (1, st1, ?w1\<lparr>chain := c\<rparr>)"
    using str py put unfolding router_upload_descriptor_to_blockchain_def str(1) option.case py get enc sum.case prod.case
    by (simp add: Let_def del: of_nat_unat)
  then show ?thesis using kp c by auto
qed

lemma sri_text_nonempty: "sri_text ri = Some str \<Longrightarrow> str \<noteq> []"
  by (auto simp: sri_text_def split: option.splits)

lemma padding_length: "16 dvd length (padding t) \<and> length t \<le> length (padding t)"
proof -
  have "(length t + (16 - length t mod 16)) mod 16 = 0" if "length t mod 16 \<noteq> 0"
    using mod_add_left_eq [of "length t" 16 "16 - length t mod 16"] mod_less_divisor [of 16 "length t"]
    by simp
  then show ?thesis by (auto simp: padding_def Let_def dvd_eq_mod_eq_0)
qed

lemma upload_frame:
  assumes "relay_upload_SRI_and_NSD c a cnt hdr sri nsd = Some c'"
  shows "relay_of c' (relayaddr c a) = (relay_of c (relayaddr c a))
      \<lparr>counter := cnt, relay_Hdr := hdr, encryptedSRI := sri, relay_NSD := nsd\<rparr>"
    "CurrentCounter c' = CurrentCounter c" "receivers c' = receivers c" "healthflag (relay_of c (relayaddr c a))"
  using assms by (auto simp: relay_upload_SRI_and_NSD_def receivers_def Let_def split: if_splits)

lemma upload_registered:
  "router_upload_descriptor_to_blockchain env ri st w = Some (r, st', w') \<Longrightarrow>
   is_registered (chain w') a = is_registered (chain w) a"
  by (auto simp: router_upload_descriptor_to_blockchain_def relayUploadSRIAndNSD_def relayGetSet_eq send_tx_def
      relay_upload_SRI_and_NSD_def is_registered_def Let_def
      split: option.splits if_splits prod.splits sum.splits)

lemma count_list_distinct: "distinct xs \<Longrightarrow> x \<in> set xs \<Longrightarrow> count_list xs x = 1"
  by (induction xs) (auto simp: count_list_0_iff)

text \<open>One round of the download loop on an entry encrypted for the receivers of storage \<open>c\<close>.\<close>

lemma download_round:
  assumes keys: "shared_keys P \<alpha> \<gamma> A B gps PK" and mem: "member env P gps PK"
    and sk: "holds_secret env \<alpha> \<gamma> B PK j"
    and S: "\<forall>s \<in> set S. 0 \<le> s \<and> s < gN gps" "distinct S" "int j \<in> set S"
    and kp: "get_encryption_key P t S PK gps = Inr kp"
    and utf: "utf8_text str" "str \<noteq> []"
    and dl: "relayDownloadSRI (env_up env) (env_addr env) relayID v =
      Some (S, findall_130 (hexlify (concat (map (g1_to_bytes_compressed P) (HDR kp)))),
        hexlify (cbc_encrypt (env_aes env)
          (bytes_of (take 32 (text_of (sprintf_all 512 (gt_to_bytes P (keyK kp)))))) (padding str)))"
  shows "download_loop env (int j) (relayID # ids) v =
    download_loop env (int j) ids (store_descriptor relayID str (ids = []) v)"
proof -
  let ?key = "bytes_of (take 32 (text_of (sprintf_all 512 (gt_to_bytes P (keyK kp)))))"
  let ?ct = "cbc_encrypt (env_aes env) ?key (padding str)"
  have laws: "pbc_laws P" "pbc_codec P 65" "bkem_keys P \<alpha> \<gamma> A B gps PK"
    using keys by (auto simp: shared_keys_def)
  obtain sk' where sk': "env_sk_file env = Some sk'"
    "g1_set_str P (fst (fgets 512 (env_stale env) sk')) = bkem_secret P \<alpha> \<gamma> B PK j"
    using sk mem by (auto simp: holds_secret_def member_def)
  have klen: "length ?key \<in> {16, 24, 32}" using key_text_length [OF keys] by blast
  have aes: "aes_laws (env_aes env)" using mem by (simp add: member_def)
  have dec: "AES_decrypt (env_aes env) (hexlify ?ct) ?key = PlainText str"
    using AES_roundtrip [OF aes klen utf(1)] by auto
  have "length ?ct = length (padding str)"
    using aes klen padding_length [of str] by (simp add: aes_laws_def)
  then have ne: "length (hexlify ?ct) \<noteq> 0"
    using padding_length [of str] utf(2) by auto
  have "int j < gN gps" using S by blast
  then have "bkem_decryption P (env_stale env) (env_pk_file env) (Some sk') (env_garbage env) S (int j)
      (map (\<lambda>h. hexlify (g1_to_bytes_compressed P h)) (HDR kp)) =
      Inr (sprintf_all 512 (gt_to_bytes P (gt_pow P (keyK kp) (int (count_list S (int j))))))"
    using mem laws sk'(2)
    by (intro bkem_decryption_enc [OF laws S(1) _ _ _ kp]) (auto simp: member_def pbc_codec_def intro!: decode_hdr_hexlify)
  moreover have "gt_pow P (keyK kp) (int (count_list S (int j))) = keyK kp"
    using kp get_encryption_key_exp [OF laws(1,3) S(1), of t] count_list_distinct [OF S(2,3)]
    by (auto simp: pbc_lawsD [OF laws(1)])
  ultimately show ?thesis
    using mem sk'(1) dec ne
    by (simp add: dl findall_130_header [OF laws(2)] member_def relayDecryptSRIs_def store_descriptor_def Let_def
        del: length_hexlify)
qed

subsection \<open>The text of a descriptor\<close>

definition ascii :: "string \<Rightarrow> bool" where
  "ascii s \<longleftrightarrow> (\<forall>c \<in> set s. 0 < (of_char c :: nat) \<and> (of_char c :: nat) < 128)"

lemma ascii_simps [simp]:
  "ascii []" "ascii (c # s) \<longleftrightarrow> 0 < (of_char c :: nat) \<and> (of_char c :: nat) < 128 \<and> ascii s"
  "ascii (s @ t) \<longleftrightarrow> ascii s \<and> ascii t"
  by (auto simp: ascii_def)

lemma ascii_filter: "ascii s \<Longrightarrow> ascii (filter p s)"
  by (auto simp: ascii_def)

lemma ascii_utf8: "ascii s \<Longrightarrow> utf8_text s"
proof -
  assume s: "ascii s"
  have "utf8_valid (map unat (bytes_of s))"
    using s
  proof (induction s)
    case (Cons c s)
    then have "utf8_tail (unat (of_nat (of_char c) :: byte)) = Some 0"
      by (simp add: utf8_tail_def unsigned_of_nat take_bit_nat_eq_self)
    then show ?case using Cons by (simp add: bytes_of_def)
  qed (simp add: bytes_of_def)
  moreover have "CHR 0x00 \<notin> set s" using s by (fastforce simp: ascii_def)
  ultimately show ?thesis by (simp add: utf8_text_def)
qed

lemma ascii_table: "ascii base64_encode_table"
  by (simp add: base64_encode_table_def)

lemma ascii_encode_n [simp]: "0 < (of_char (encode_n n idx) :: nat)" "(of_char (encode_n n idx) :: nat) < 128"
proof -
  have "unat n div 2 ^ ((3 - idx) * 6) mod 64 < length base64_encode_table"
    by (simp add: base64_encode_table_def)
  then have "encode_n n idx \<in> set base64_encode_table" unfolding encode_n_nat by (rule nth_mem)
  then show "0 < (of_char (encode_n n idx) :: nat)" "(of_char (encode_n n idx) :: nat) < 128"
    using ascii_table by (auto simp: ascii_def)
qed

lemma ascii_encode_loop: "ascii (encode_loop n k bs)"
  by (induction n k bs rule: encode_loop.induct) (auto simp: Let_def)

lemma ascii_encode_chars: "ascii cs \<Longrightarrow> ascii (encode_chars l cs)"
  by (induction l cs rule: encode_chars.induct) (auto simp: NL_def)

lemma ascii_show_nat: "ascii (show_nat n)"
  unfolding ascii_def
proof
  fix c assume "c \<in> set (show_nat n)"
  then have "is_digit c" by (rule show_nat_digits)
  then show "0 < (of_char c :: nat) \<and> (of_char c :: nat) < 128" by (auto simp: is_digit_def)
qed

text \<open>What every relay's own router information satisfies.\<close>

definition wf_router :: "routerinfo \<Rightarrow> bool" where
  "wf_router ri \<longleftrightarrow> ascii (nickname ri) \<and> length (nickname ri) \<le> 19 \<and> length (identity_digest ri) = 20 \<and>
     ascii (onion_pkey_pem ri) \<and> length (onion_pkey_pem ri) \<le> 800 \<and>
     length (onion_curve25519_pkey ri) = 32 \<and> length (ed_signing_key ri) = 32"

lemma tor_inet_ntoa_short: "length (tor_inet_ntoa a) \<le> 15" "ascii (tor_inet_ntoa a)"
proof -
  have "length (show_nat (unat a div 2 ^ k mod 256)) \<le> 3" for k
    using length_show_nat [of "unat a div 2 ^ k mod 256" 3] by simp
  from this [of 24] this [of 16] this [of 8] this [of 0] show "length (tor_inet_ntoa a) \<le> 15"
    unfolding tor_inet_ntoa_def Let_def length_append by simp
  show "ascii (tor_inet_ntoa a)" by (simp add: tor_inet_ntoa_def Let_def ascii_show_nat)
qed

lemma sri_text_wf:
  assumes "wf_router ri"
  shows "\<exists>str. sri_text ri = Some str \<and> length str < SRI_BUFFER_LEN \<and> ascii str"
proof -
  let ?d = "filter (\<lambda>c. \<not> (c = CHR ''='' \<or> c = NL)) (encode_loop 0 0 (identity_digest ri))"
  let ?e = "filter (\<lambda>c. \<not> (c = CHR ''='' \<or> c = NL)) (encode_loop 0 0 (ed_signing_key ri))"
  let ?k = "encode_chars 0 (encode_loop 0 0 (onion_curve25519_pkey ri))"
  have len: "length (encode_loop 0 0 (identity_digest ri)) = 28" "length (encode_loop 0 0 (ed_signing_key ri)) = 44"
    "length (encode_loop 0 0 (onion_curve25519_pkey ri)) = 44"
    using assms by (simp_all add: length_encode_loop wf_router_def ceil_div_def)
  then have short: "length ?d \<le> 28" "length ?e \<le> 44" "length ?k \<le> 45"
    using length_filter_le [of _ "encode_loop 0 0 (identity_digest ri)"]
      length_filter_le [of _ "encode_loop 0 0 (ed_signing_key ri)"] length_encode_chars [of 0]
    by (metis, metis, simp add: ceil_div_def)
  have enc: "Option.bind (base64_encode_size 20 False) (\<lambda>n. base64_encode_nopad (n + 1) (identity_digest ri)) = Some ?d"
    "base64_encode 128 (onion_curve25519_pkey ri) True = Some ?k"
    "ed25519_public_to_base64 (ed_signing_key ri) = Some ?e"
    using assms digest256_to_base64_text [of "ed_signing_key ri"]
    by (simp_all add: base64_encode_nopad_def base64_encode_def base64_encode_size_def ceil_div_def
        wf_router_def BASE64_OPENSSL_LINELEN_def ed25519_public_to_base64_def kept_char_def INT32_MAX_def SIZE_T_CEILING_def)
  have "unat (ipv4_orport ri) < 2 ^ LENGTH(16)" by (rule unsigned_less)
  then have port: "length (show_nat (unat (ipv4_orport ri))) \<le> 5"
    by (intro length_show_nat) simp_all
  have bits: "ascii ?d" "ascii ?e" "ascii ?k"
    by (intro ascii_filter ascii_encode_chars ascii_encode_loop)+
  show ?thesis
    using assms short port tor_inet_ntoa_short [of "ipv4_addr ri"] bits ascii_show_nat [of "unat (ipv4_orport ri)"]
    unfolding sri_text_def enc by (simp add: wf_router_def SRI_BUFFER_LEN_def NL_def)
qed

subsection \<open>What each operation leaves alone\<close>

definition same_descriptor :: "relay_state \<Rightarrow> relay_state \<Rightarrow> bool" where
  "same_descriptor st st' \<longleftrightarrow> desc_clean_since st' = desc_clean_since st \<and>
     desc_needs_upload st' = desc_needs_upload st \<and> desc_routerinfo st' = desc_routerinfo st \<and>
     desc_gen_reason st' = desc_gen_reason st \<and> desc_dirty_reason st' = desc_dirty_reason st"

lemma same_descriptor_refl [simp]: "same_descriptor st st"
  by (simp add: same_descriptor_def)

lemma start_python_frame:
  "start_python env st = (ok, st') \<Longrightarrow>
   same_descriptor st st' \<and> relay_is_registered st' = relay_is_registered st \<and> myIndex st' = myIndex st"
  by (auto simp: start_python_def same_descriptor_def split: if_splits)

lemma relay_register_frame:
  "relay_register env st w = (r, st', w') \<Longrightarrow> same_descriptor st st' \<and> (r \<noteq> 0 \<longrightarrow> relay_is_registered st')"
  by (auto simp: relay_register_def Let_def same_descriptor_def
      split: prod.splits if_splits dest!: start_python_frame)

lemma router_download_frame:
  "router_download_descriptor_from_blockchain env st w = Some (r, st', w') \<Longrightarrow>
   same_descriptor st st' \<and> relay_is_registered st' = relay_is_registered st"
  by (auto simp: router_download_descriptor_from_blockchain_def Let_def
      split: prod.splits if_splits option.splits dest: start_python_frame)

lemma router_upload_frame:
  "router_upload_descriptor_to_blockchain env ri st w = Some (r, st', w') \<Longrightarrow>
   same_descriptor st st' \<and> relay_is_registered st' = relay_is_registered st"
  by (auto simp: router_upload_descriptor_to_blockchain_def Let_def
      split: prod.splits if_splits option.splits sum.splits dest: start_python_frame)

lemma send_tx_NIME [simp]: "NIME (send_tx w r) = NIME w"
  by (simp add: send_tx_def split: option.splits)

lemma relayDecryptSRIs_frame:
  "relayDecryptSRIs A i sri k fe w = Some w' \<Longrightarrow> chain w' = chain w \<and> (\<not> fe \<longrightarrow> NIME w' = NIME w)"
  by (auto simp: relayDecryptSRIs_def Let_def split: aes_result.splits if_splits)

lemma download_loop_NIME:
  assumes "download_loop env index (ids @ [i]) w = Some w'"
    and "encryptedSRI (relay_of (chain w) (of_int i)) = []"
  shows "NIME w' = NIME w"
  using assms
proof (induction ids arbitrary: w)
  case Nil
  then show ?case
    by (auto simp: relayDownloadSRI_def relay_download_SRI_def hexlify_def Let_def split: option.splits if_splits)
next
  case (Cons j ids)
  obtain S Hdr sri where dl: "relayDownloadSRI (env_up env) (env_addr env) j w = Some (S, Hdr, sri)"
    using Cons.prems(1) by (auto simp: Let_def split: option.splits)
  consider (same) "download_loop env index (ids @ [i]) w = Some w'"
    | (dec) k v where "relayDecryptSRIs (env_aes env) j sri k False w = Some v"
        "download_loop env index (ids @ [i]) v = Some w'"
    using Cons.prems(1) dl by (auto simp: Let_def split: if_splits sum.splits option.splits)
  then show ?case
  proof cases
    case same
    then show ?thesis using Cons by blast
  next
    case dec
    then show ?thesis using Cons relayDecryptSRIs_frame [OF dec(1)] by metis
  qed
qed

subsection \<open>A concrete relay\<close>

definition demo_aes :: aes where
  "demo_aes = \<lparr>cbc_encrypt = (\<lambda>_ x. x), cbc_decrypt = (\<lambda>_ x. x)\<rparr>"

definition demo_env :: "address \<Rightarrow> (byte, byte) relay_env" where
  "demo_env a = \<lparr>env_addr = a, env_pbc = demo_pbc, env_aes = demo_aes, env_sha256 = (\<lambda>_. []),
     env_pk_file = Some [], env_sk_file = Some [], env_exponent = 7, env_stale = [], env_garbage = [],
     env_py_init = True, env_import = True, env_up = (\<lambda>_. True)\<rparr>"

definition demo_state :: relay_state where
  "demo_state = \<lparr>python_is_initialized = True, relay_is_registered = False, myIndex = 0, desc_clean_since = 0,
     desc_needs_upload = False, desc_routerinfo = None, desc_gen_reason = None,
     desc_dirty_reason = Some ''Tor just started''\<rparr>"

definition demo_router :: routerinfo where
  "demo_router = \<lparr>nickname = ''relay'', identity_digest = replicate 20 1, ipv4_addr = 0x7f000001,
     ipv4_orport = 9001, onion_pkey_pem = ''KEY'', onion_curve25519_pkey = replicate 32 2,
     ed_signing_key = replicate 32 3\<rparr>"

lemma demo_python: "start_python (demo_env a) demo_state = (True, demo_state)"
  by (simp add: start_python_def demo_env_def demo_state_def)

lemma demo_member: "member (demo_env a) demo_pbc demo_gps demo_pubkey"
  by (simp add: member_def demo_env_def demo_param aes_laws_def demo_aes_def)

lemma demo_shared: "shared_keys demo_pbc 1 (\<lambda>_. 1) 33 31 demo_gps demo_pubkey"
  by (simp add: shared_keys_def demo_pbc_laws demo_pbc_codec demo_keys) (simp add: demo_pbc_def)

lemma demo_secret: "holds_secret (demo_env a) 1 (\<lambda>_. 1) 31 demo_pubkey j"
  by (simp add: holds_secret_def demo_env_def bkem_secret_def demo_pubkey_def) (simp add: demo_pbc_def)

lemma demo_router: "wf_router demo_router"
  by (simp add: wf_router_def demo_router_def)

subsection \<open>Properties\<close>

text \<open>
  Registration. When the chain answers, \<^verbatim>\<open>relay_register\<close> returns 1 and leaves the relay with a
  non-zero index that the contract has on record for its address; an address that was already
  registered keeps its index and sends no transaction.
\<close>

theorem relay_register_ok:
  assumes "ledger n (chain w)" "n < 65535" "\<And>x. env_up env x" "start_python env st = (True, st1)"
  shows "\<exists>st' w'. relay_register env st w = (1, st', w') \<and> relay_is_registered st' \<and> myIndex st' \<noteq> 0 \<and>
     myIndex st' = int (unat (relay_registration_check (chain w') (env_addr env))) \<and>
     (if relay_registration_check (chain w) (env_addr env) \<noteq> 0 then w' = w
      else sol_relay_register (chain w) (env_addr env) = Some (chain w'))"
proof -
  let ?a = "env_addr env"
  have oc: "open_ledger (chain w)" using assms(1,2) ledger_inv by (auto simp: open_ledger_def)
  have chk: "relayRegistrationCheck (env_up env) ?a v = Some (int (unat (relay_registration_check (chain v) ?a)))" for v
    using assms(3) by (simp add: relayRegistrationCheck_def)
  show ?thesis
  proof (cases "relay_registration_check (chain w) ?a = 0")
    case True
    obtain c where c: "sol_relay_register (chain w) ?a = Some c" using contract.enrol_new [OF oc True] by blast
    then have reg: "relayRegister (env_up env) ?a w = Some (w\<lparr>chain := c\<rparr>)"
      using assms(3) by (simp add: relayRegister_def send_tx_def)
    have "relay_registration_check c ?a \<noteq> 0" by (rule contract.check_enrol [OF oc c])
    then show ?thesis using True c reg assms(4)
      by (simp add: relay_register_def chk PyLong_AsLong_def Let_def unsigned_eq_0_iff)
  next
    case False
    then show ?thesis using assms(4) by (simp add: relay_register_def chk PyLong_AsLong_def Let_def unsigned_eq_0_iff)
  qed
qed

theorem relay_register_ok_witness:
  "\<exists>st' w'. relay_register (demo_env 4) demo_state (demo_world demo_c3) = (1, st', w') \<and> relay_is_registered st' \<and>
     myIndex st' \<noteq> 0"
proof -
  have "\<exists>st' w'. relay_register (demo_env 4) demo_state (demo_world demo_c3) = (1, st', w') \<and>
     relay_is_registered st' \<and> myIndex st' \<noteq> 0 \<and>
     myIndex st' = int (unat (relay_registration_check (chain w') (env_addr (demo_env 4)))) \<and>
     (if relay_registration_check (chain (demo_world demo_c3)) (env_addr (demo_env 4)) \<noteq> 0 then w' = demo_world demo_c3
      else sol_relay_register (chain (demo_world demo_c3)) (env_addr (demo_env 4)) = Some (chain w'))"
  proof (rule relay_register_ok)
    show "ledger 2 (chain (demo_world demo_c3))" using demo_c3_ledger by (simp add: demo_world_def)
  qed (simp_all add: demo_python, simp add: demo_env_def)
  then show ?thesis by blast
qed

text \<open>
  Registration without the chain. When the lookup raises an exception, \<^verbatim>\<open>relay_register\<close> still
  returns 1 and records the relay as registered, with index -1; nothing reached the chain, and
  no later call of \<^verbatim>\<open>router_rebuild_descriptor\<close> registers again.
\<close>

theorem relay_register_offline:
  assumes "\<not> env_up env CallCheck" "start_python env st = (True, st1)"
  shows "relay_register env st w = (1, st1\<lparr>myIndex := -1, relay_is_registered := True\<rparr>, w) \<and>
     (\<forall>env' fresh now force flag ok st' w' v. 
        router_rebuild_descriptor env' fresh now force flag (st1\<lparr>myIndex := -1, relay_is_registered := True\<rparr>) v =
          Some (ok, st', w') \<longrightarrow> myIndex st' = -1 \<and> relay_is_registered st')"
proof (intro conjI allI impI)
  show "relay_register env st w = (1, st1\<lparr>myIndex := -1, relay_is_registered := True\<rparr>, w)"
    using assms by (simp add: relay_register_def relayRegistrationCheck_def PyLong_AsLong_def Let_def)
  fix env' :: "('c, 'd) relay_env" and fresh now force flag ok st' w' v
  assume r: "router_rebuild_descriptor env' fresh now force flag (st1\<lparr>myIndex := -1, relay_is_registered := True\<rparr>) v =
      Some (ok, st', w')"
  have dl: "router_download_descriptor_from_blockchain env' s v = Some (r, s', v') \<Longrightarrow>
      myIndex s' = myIndex s \<and> relay_is_registered s' = relay_is_registered s" for s r s' v v'
    by (auto simp: router_download_descriptor_from_blockchain_def Let_def
        split: prod.splits if_splits option.splits dest: start_python_frame)
  have ul: "router_upload_descriptor_to_blockchain env' ri s v = Some (r, s', v') \<Longrightarrow>
      myIndex s' = myIndex s \<and> relay_is_registered s' = relay_is_registered s" for ri s r s' v v'
    by (auto simp: router_upload_descriptor_to_blockchain_def Let_def
        split: prod.splits if_splits option.splits sum.splits dest: start_python_frame)
  show "myIndex st' = -1" "relay_is_registered st'"
    using r by (auto simp: router_rebuild_descriptor_def Let_def
        split: if_splits option.splits prod.splits dest!: dl ul)
qed

theorem relay_register_offline_witness:
  "relay_register (demo_env 4\<lparr>env_up := \<lambda>_. False\<rparr>) demo_state (demo_world demo_c3) =
     (1, demo_state\<lparr>myIndex := -1, relay_is_registered := True\<rparr>, demo_world demo_c3)"
proof (rule relay_register_offline [THEN conjunct1])
  show "start_python (demo_env 4\<lparr>env_up := \<lambda>_. False\<rparr>) demo_state = (True, demo_state)"
    by (simp add: start_python_def demo_env_def demo_state_def)
qed simp

lemma rebuild_with_blockchain:
  assumes "router_rebuild_descriptor env (Some ri) now force True st w = Some (ok, st', w')"
    "\<not> (desc_clean_since st \<noteq> 0 \<and> \<not> force)"
  shows "if ok then desc_routerinfo st' = Some ri \<and> desc_clean_since st' = now \<and> desc_needs_upload st' \<and>
      desc_gen_reason st' = desc_dirty_reason st \<and> desc_dirty_reason st' = None \<and> relay_is_registered st'
    else same_descriptor st st'"
proof -
  obtain r1 st1 w1 where r1: "(if relay_is_registered st then (1, st, w) else relay_register env st w) = (r1, st1, w1)"
    by (metis prod_cases3)
  have f1: "same_descriptor st st1" "r1 \<noteq> 0 \<Longrightarrow> relay_is_registered st1"
    using r1 relay_register_frame [of env st w r1 st1 w1] by (auto split: if_splits)
  consider (reg) "r1 = 0" "ok = False" "st' = st1"
    | (down) st2 w2 where "r1 \<noteq> 0" "ok = False" "st' = st2"
        "router_download_descriptor_from_blockchain env st1 w1 = Some (0, st2, w2)"
    | (up) r2 st2 w2 r3 st3 w3 where "r1 \<noteq> 0"
        "router_download_descriptor_from_blockchain env st1 w1 = Some (r2, st2, w2)"
        "router_upload_descriptor_to_blockchain env ri st2 w2 = Some (r3, st3, w3)"
        "if r3 = 0 then ok = False \<and> st' = st3
         else ok \<and> st' = st3\<lparr>desc_routerinfo := Some ri, desc_clean_since := now, desc_needs_upload := True,
           desc_gen_reason := desc_dirty_reason st3, desc_dirty_reason := None\<rparr>"
    using assms unfolding router_rebuild_descriptor_def
    by (simp add: r1 Let_def split: if_splits option.splits prod.splits)
  then show ?thesis
  proof cases
    case reg
    then show ?thesis using f1 by simp
  next
    case down
    then show ?thesis using f1 router_download_frame [OF down(4)] by (simp add: same_descriptor_def)
  next
    case up
    have "same_descriptor st st3 \<and> relay_is_registered st3"
      using f1 up(1) router_download_frame [OF up(2)] router_upload_frame [OF up(3)]
      by (simp add: same_descriptor_def)
    then show ?thesis using up(4) by (auto simp: same_descriptor_def split: if_splits)
  qed
qed

text \<open>
  C23. Rebuilding is all or nothing for the descriptor. When \<^verbatim>\<open>router_rebuild_descriptor\<close> reports
  failure, the published descriptor, its age and its reasons are what they were; when a due
  rebuild reports success, the fresh descriptor is in place and marked for upload, and if the
  blockchain was involved the relay is registered.
\<close>

theorem router_rebuild_atomic:
  assumes "router_rebuild_descriptor env fresh now force flag st w = Some (ok, st', w')"
  shows "if ok then
           (if desc_clean_since st \<noteq> 0 \<and> \<not> force then st' = st \<and> w' = w
            else fresh \<noteq> None \<and> desc_routerinfo st' = fresh \<and> desc_clean_since st' = now \<and> desc_needs_upload st' \<and>
              desc_gen_reason st' = desc_dirty_reason st \<and> desc_dirty_reason st' = None \<and>
              (flag \<longrightarrow> relay_is_registered st'))
         else same_descriptor st st'"
proof (cases "desc_clean_since st \<noteq> 0 \<and> \<not> force")
  case True
  then show ?thesis using assms by (auto simp: router_rebuild_descriptor_def)
next
  case False
  show ?thesis
  proof (cases fresh)
    case None
    then show ?thesis using assms False by (auto simp: router_rebuild_descriptor_def)
  next
    case (Some ri)
    then show ?thesis
      using assms False rebuild_with_blockchain [of env ri now force st w ok st' w']
      by (cases flag) (auto simp: router_rebuild_descriptor_def Let_def)
  qed
qed

theorem router_rebuild_atomic_witness:
  "router_rebuild_descriptor (demo_env 4) None 50 True True demo_state (demo_world demo_c3) =
     Some (False, demo_state, demo_world demo_c3) \<and> same_descriptor demo_state demo_state \<and>
   (\<exists>st'. router_rebuild_descriptor (demo_env 4) (Some demo_router) 50 True False demo_state (demo_world demo_c3) =
        Some (True, st', demo_world demo_c3) \<and>
      desc_routerinfo st' = Some demo_router \<and> desc_clean_since st' = 50 \<and> desc_needs_upload st' \<and>
      desc_gen_reason st' = Some ''Tor just started'')"
proof -
  have fails: "router_rebuild_descriptor (demo_env 4) None 50 True True demo_state (demo_world demo_c3) =
     Some (False, demo_state, demo_world demo_c3)"
    by (simp add: router_rebuild_descriptor_def)
  obtain st' where succeeds: "router_rebuild_descriptor (demo_env 4) (Some demo_router) 50 True False demo_state (demo_world demo_c3) =
      Some (True, st', demo_world demo_c3)"
    by (simp add: router_rebuild_descriptor_def)
  show ?thesis
    using fails router_rebuild_atomic [OF fails] succeeds router_rebuild_atomic [OF succeeds]
    by (simp add: demo_state_def)
qed

text \<open>
  The unfinished download. The file \<^verbatim>\<open>NIME\<close> is replaced only while the entry of the last relay
  is processed, and a relay that has not uploaded yet is skipped: if the newest relay (the usual
  case: the relay itself, which uploads after it downloads) has no entry, the file stays as it was.
\<close>

theorem download_unfinished:
  assumes "router_download_descriptor_from_blockchain env st w = Some (r, st', w')"
    and "receivers (chain w) \<noteq> []"
    and "encryptedSRI (relay_of (chain w) (of_int (last (receivers (chain w))))) = []"
  shows "NIME w' = NIME w"
proof (cases "r = 0 \<and> w' = w")
  case False
  let ?w1 = "w\<lparr>relaySet := receivers (chain w), Counter := int (unat (CurrentCounter (chain w)))\<rparr>"
  obtain st1 :: relay_state where loop: "download_loop env (myIndex st1) (receivers (chain w)) ?w1 = Some w'"
    using assms(1) False
    by (auto simp: router_download_descriptor_from_blockchain_def relayGetSet_eq Let_def
        split: prod.splits if_splits option.splits)
  have "download_loop env (myIndex st1) (butlast (receivers (chain w)) @ [last (receivers (chain w))]) ?w1 = Some w'"
    using loop assms(2) by simp
  from download_loop_NIME [OF this] assms(3) show ?thesis by simp
qed simp

theorem download_unfinished_witness:
  "\<exists>r st' w'. router_download_descriptor_from_blockchain (demo_env 8) demo_state (demo_world demo_c2) =
     Some (r, st', w') \<and> NIME w' = None"
proof -
  have "case router_download_descriptor_from_blockchain (demo_env 8) demo_state (demo_world demo_c2) of
      None \<Rightarrow> False | Some _ \<Rightarrow> True" by code_simp
  then obtain r st' w' where d: "router_download_descriptor_from_blockchain (demo_env 8) demo_state
      (demo_world demo_c2) = Some (r, st', w')" by (auto split: option.splits)
  have "receivers (chain (demo_world demo_c2)) \<noteq> []"
    "encryptedSRI (relay_of (chain (demo_world demo_c2)) (of_int (last (receivers (chain (demo_world demo_c2)))))) = []"
    by code_simp+
  from download_unfinished [OF d this] d show ?thesis by (auto simp: demo_world_def)
qed

text \<open>
  The descriptor text always fits the buffer of 1024 bytes that \<^verbatim>\<open>sprintf\<close> writes it to, for a
  nickname of at most 19 characters and an onion key of at most 800, and it is plain ASCII.
\<close>

theorem sri_text_fits:
  assumes "wf_router ri"
  shows "\<exists>str. sri_text ri = Some str \<and> length str + 1 \<le> SRI_BUFFER_LEN \<and> ascii str"
  using sri_text_wf [OF assms] by auto

theorem sri_text_fits_witness:
  "\<exists>str. sri_text demo_router = Some str \<and> length str + 1 \<le> SRI_BUFFER_LEN \<and> ascii str"
  by (rule sri_text_fits [OF demo_router])

text \<open>
  When a descriptor is regenerated. A descriptor older than 18 hours is always marked dirty,
  one younger than 90 minutes never, and marking keeps the first reason and never loses it.
\<close>

theorem mark_dirty_timing:
  assumes "desc_clean_since st \<noteq> 0" "mark_my_descriptor_dirty_if_too_old ns now st = st'"
  shows "(desc_clean_since st < now - 64800 \<longrightarrow> desc_clean_since st' = 0) \<and>
    (desc_clean_since st \<ge> now - 5400 \<longrightarrow> st' = st) \<and>
    (desc_clean_since st' = 0 \<longrightarrow> desc_dirty_reason st' \<noteq> None) \<and>
    (desc_dirty_reason st \<noteq> None \<longrightarrow> desc_dirty_reason st' = desc_dirty_reason st)"
proof -
  have dirty: "desc_clean_since (mark_my_descriptor_dirty r st) = 0 \<and>
      desc_dirty_reason (mark_my_descriptor_dirty r st) \<noteq> None \<and>
      (desc_dirty_reason st \<noteq> None \<longrightarrow> desc_dirty_reason (mark_my_descriptor_dirty r st) = desc_dirty_reason st)" for r
    by (auto simp: mark_my_descriptor_dirty_def Let_def split: option.splits)
  consider r where "st' = mark_my_descriptor_dirty r st" "desc_clean_since st < now - 5400"
    | "st' = st" "\<not> desc_clean_since st < now - 64800"
    using assms unfolding mark_my_descriptor_dirty_if_too_old_def FORCE_REGENERATE_DESCRIPTOR_INTERVAL_def
      FAST_RETRY_DESCRIPTOR_INTERVAL_def Let_def by (auto split: if_splits)
  then show ?thesis using dirty assms(1) by cases auto
qed

theorem mark_dirty_timing_witness:
  "desc_clean_since (mark_my_descriptor_dirty_if_too_old NoConsensus 70000 (demo_state\<lparr>desc_clean_since := 100\<rparr>)) = 0 \<and>
   desc_dirty_reason (mark_my_descriptor_dirty_if_too_old NoConsensus 70000 (demo_state\<lparr>desc_clean_since := 100\<rparr>)) =
     Some ''Tor just started''"
  using mark_dirty_timing [of "demo_state\<lparr>desc_clean_since := 100\<rparr>" NoConsensus 70000, OF _ refl]
  by (simp add: demo_state_def)

end
