(* ===== verification/Protover.thy ===== *)
theory Protover
  imports Strings
begin

text \<open>
  Subprotocol versions, \<^verbatim>\<open>src/BADNET/src/core/or/protover.c\<close>: parsing and printing of protocol lists,
  support queries and voting. A set of versions is the 64-bit mask of the code. A pointer range in
  a string is the suffix it starts at and the number of characters up to its end.
\<close>

unbundle bit_operations_syntax

subsection \<open>Names and entries\<close>

datatype protocol_type = PRT_LINK | PRT_LINKAUTH | PRT_RELAY | PRT_DIRCACHE | PRT_HSDIR | PRT_HSINTRO
  | PRT_HSREND | PRT_DESC | PRT_MICRODESC | PRT_CONS | PRT_PADDING | PRT_FLOWCTRL

fun protocol_type_to_str :: "protocol_type \<Rightarrow> string" where
  "protocol_type_to_str PRT_LINK = ''Link''"
| "protocol_type_to_str PRT_LINKAUTH = ''LinkAuth''"
| "protocol_type_to_str PRT_RELAY = ''Relay''"
| "protocol_type_to_str PRT_DIRCACHE = ''DirCache''"
| "protocol_type_to_str PRT_HSDIR = ''HSDir''"
| "protocol_type_to_str PRT_HSINTRO = ''HSIntro''"
| "protocol_type_to_str PRT_HSREND = ''HSRend''"
| "protocol_type_to_str PRT_DESC = ''Desc''"
| "protocol_type_to_str PRT_MICRODESC = ''Microdesc''"
| "protocol_type_to_str PRT_PADDING = ''Padding''"
| "protocol_type_to_str PRT_CONS = ''Cons''"
| "protocol_type_to_str PRT_FLOWCTRL = ''FlowCtrl''"

record proto_entry =
  pe_name :: string
  bitmask :: uint64

definition MAX_PROTOCOL_VERSION :: int where "MAX_PROTOCOL_VERSION = 63"
definition MAX_PROTOCOL_NAME_LENGTH :: nat where "MAX_PROTOCOL_NAME_LENGTH = 100"

subsection \<open>Parsing\<close>

definition parse_version_range :: "string \<Rightarrow> nat \<Rightarrow> (nat \<times> nat) option" where
  "parse_version_range s end_of_range =
     (if s = [] \<or> \<not> is_digit (hd s) then None
      else let (low, ok, nxt) = tor_parse_ulong s 0 MAX_PROTOCOL_VERSION True;
               used = length s - length nxt
           in if \<not> ok then None
              else if used > end_of_range then None
              else if used = end_of_range then Some (nat low, nat low)
              else if nxt = [] \<or> hd nxt \<noteq> CHR ''-'' then None
              else let s2 = tl nxt
                   in if s2 = [] \<or> \<not> is_digit (hd s2) then None
                      else let (high, ok2, nxt2) = tor_parse_ulong s2 0 MAX_PROTOCOL_VERSION True
                           in if \<not> ok2 then None
                              else if length s - length nxt2 \<noteq> end_of_range then None
                              else if low > high then None
                              else Some (nat low, nat high))"

definition is_alnum :: "char \<Rightarrow> bool" where
  "is_alnum c \<longleftrightarrow> is_digit c \<or> (65 \<le> (of_char c :: nat) \<and> (of_char c :: nat) \<le> 90) \<or>
     (97 \<le> (of_char c :: nat) \<and> (of_char c :: nat) \<le> 122)"

definition is_valid_keyword :: "string \<Rightarrow> nat \<Rightarrow> bool" where
  "is_valid_keyword s n \<longleftrightarrow> list_all (\<lambda>c. is_alnum c \<or> c = CHR ''-'') (take n s)"

definition bitmask_for_range :: "nat \<Rightarrow> nat \<Rightarrow> uint64" where
  "bitmask_for_range low high =
     push_bit low (drop_bit (63 - high + low) (push_bit (63 - high) (NOT 0)))"

text \<open>\<^verbatim>\<open>memchr\<close>: the position of a character among the first \<open>n\<close>.\<close>

definition memchr_pos :: "char \<Rightarrow> string \<Rightarrow> nat \<Rightarrow> nat option" where
  "memchr_pos c s n =
     (let k = length (takeWhile (\<lambda>x. x \<noteq> c) (take n s)) in if k < length (take n s) then Some k else None)"

lemma strtoul10_shorter:
  assumes "is_digit c" "strtoul10 (c # r) = (v, e, nxt)"
  shows "length nxt \<le> length r"
proof -
  have "length (dropWhile is_digit r) \<le> length r" by (rule length_dropWhile_le)
  then show ?thesis
    using assms by (auto simp: strtoul10_def strto_sign_digit Let_def split: if_splits)
qed

lemma parse_version_range_pos:
  assumes "parse_version_range s n = Some p"
  shows "0 < n"
proof -
  obtain c r where s: "s = c # r" "is_digit c"
    using assms by (cases s) (auto simp: parse_version_range_def split: if_splits)
  obtain low ok nxt where p: "tor_parse_ulong s 0 MAX_PROTOCOL_VERSION True = (low, ok, nxt)" by (metis prod_cases3)
  obtain v e where "strtoul10 s = (v, e, nxt)"
    using p by (auto simp: tor_parse_ulong_def check_strtox_def Let_def split: prod.splits if_splits)
  then have "length nxt \<le> length r" using strtoul10_shorter s by blast
  then show ?thesis using assms s p by (auto simp: parse_version_range_def Let_def split: if_splits)
qed

text \<open>The loop over the ranges of an entry: \<open>n\<close> characters are left before the end of the entry.\<close>

function parse_ranges :: "string \<Rightarrow> nat \<Rightarrow> uint64 \<Rightarrow> uint64 option" where
  "parse_ranges s n acc =
     (if n = 0 then Some acc
      else let comma = (case memchr_pos (CHR '','') s n of None \<Rightarrow> n | Some k \<Rightarrow> k)
           in case parse_version_range s comma of
                None \<Rightarrow> None
              | Some (low, high) \<Rightarrow>
                  let acc' = acc OR bitmask_for_range low high;
                      adv = (if comma + 1 < n then comma + 1 else comma)
                  in parse_ranges (drop adv s) (n - adv) acc')"
  by pat_completeness auto
termination
  by (relation "measure (\<lambda>(s, n, m). n)") (auto dest: parse_version_range_pos split: if_splits)

declare parse_ranges.simps [simp del]

definition parse_single_entry :: "string \<Rightarrow> nat \<Rightarrow> proto_entry option" where
  "parse_single_entry s n =
     (case memchr_pos (CHR ''='') s n of
        None \<Rightarrow> None
      | Some equals \<Rightarrow>
          if equals = 0 then None
          else if equals > MAX_PROTOCOL_NAME_LENGTH then None
          else if \<not> is_valid_keyword s equals then None
          else (case parse_ranges (drop (equals + 1) s) (n - (equals + 1)) 0 of
                  None \<Rightarrow> None
                | Some m \<Rightarrow> Some \<lparr>pe_name = take equals s, bitmask = m\<rparr>))"

lemma parse_single_entry_pos: "parse_single_entry s n = Some e \<Longrightarrow> 0 < n"
  by (auto simp: parse_single_entry_def memchr_pos_def Let_def split: option.splits if_splits)

function parse_protocol_list :: "string \<Rightarrow> proto_entry list option" where
  "parse_protocol_list s =
     (if s = [] then Some []
      else let n = length (takeWhile (\<lambda>c. c \<noteq> CHR '' '') s)
           in case parse_single_entry s n of
                None \<Rightarrow> None
              | Some entry \<Rightarrow>
                  map_option ((#) entry) (parse_protocol_list (dropWhile (\<lambda>c. c = CHR '' '') (drop n s))))"
  by pat_completeness auto
termination
proof (relation "measure length", goal_cases)
  case (2 s n entry)
  then have "length (drop n s) < length s" using parse_single_entry_pos by (metis drop_eq_Nil length_drop
        diff_less length_greater_0_conv)
  moreover have "length (dropWhile (\<lambda>c. c = CHR '' '') (drop n s)) \<le> length (drop n s)" by (rule length_dropWhile_le)
  ultimately show ?case by simp
qed simp

declare parse_protocol_list.simps [simp del]

subsection \<open>Queries\<close>

definition protover_list_is_invalid :: "string \<Rightarrow> bool" where
  "protover_list_is_invalid s \<longleftrightarrow> parse_protocol_list s = None"

definition find_entry_by_name :: "proto_entry list \<Rightarrow> string \<Rightarrow> proto_entry option" where
  "find_entry_by_name protos name = find (\<lambda>ent. pe_name ent = name) protos"

definition protocol_list_contains :: "proto_entry list \<Rightarrow> protocol_type \<Rightarrow> nat \<Rightarrow> bool" where
  "protocol_list_contains protos pr ver \<longleftrightarrow>
     int ver \<le> MAX_PROTOCOL_VERSION \<and>
     (case find_entry_by_name protos (protocol_type_to_str pr) of
        None \<Rightarrow> False
      | Some ent \<Rightarrow> bitmask ent AND push_bit ver 1 \<noteq> 0)"

definition protocol_list_supports_protocol :: "string \<Rightarrow> protocol_type \<Rightarrow> nat \<Rightarrow> bool" where
  "protocol_list_supports_protocol s tp version =
     (case parse_protocol_list s of
        None \<Rightarrow> False
      | Some protocols \<Rightarrow> protocol_list_contains protocols tp version)"

definition to_lower :: "char \<Rightarrow> char" where
  "to_lower c = (let n = (of_char c :: nat) in if 65 \<le> n \<and> n \<le> 90 then char_of (n + 32) else c)"

definition protocol_list_supports_protocol_or_later :: "string \<Rightarrow> protocol_type \<Rightarrow> nat \<Rightarrow> bool" where
  "protocol_list_supports_protocol_or_later s tp version =
     (case parse_protocol_list s of
        None \<Rightarrow> False
      | Some protocols \<Rightarrow>
          (let pr_name = protocol_type_to_str tp; later = bitmask_for_range version 63
           in \<exists>proto \<in> set protocols.
                map to_lower (pe_name proto) = map to_lower pr_name \<and> bitmask proto AND later \<noteq> 0))"

text \<open>With \<^verbatim>\<open>HAVE_WORKING_TOR_TLS_GET_TLSSECRETS\<close>.\<close>

definition protover_get_supported_protocols :: string where
  "protover_get_supported_protocols =
     ''Cons=1-2 Desc=1-2 DirCache=2 FlowCtrl=1 HSDir=1-2 HSIntro=3-5 HSRend=1-2 Link=1-5 '' @
     ''LinkAuth=1,3 Microdesc=1-2 Padding=2 Relay=1-3''"

definition get_supported_protocol_list :: "proto_entry list" where
  "get_supported_protocol_list =
     (case parse_protocol_list protover_get_supported_protocols of None \<Rightarrow> [] | Some l \<Rightarrow> l)"

definition protover_is_supported_here :: "protocol_type \<Rightarrow> nat \<Rightarrow> bool" where
  "protover_is_supported_here pr ver = protocol_list_contains get_supported_protocol_list pr ver"

subsection \<open>Printing\<close>

text \<open>\<^verbatim>\<open>__builtin_ctzll\<close> is undefined on 0.\<close>

definition ctz :: "uint64 \<Rightarrow> nat" where
  "ctz x = length (takeWhile (\<lambda>i. \<not> bit x i) [0 ..< 64])"

definition trailing_zeros :: "uint64 \<Rightarrow> nat option" where
  "trailing_zeros x = (if x = 0 then None else Some (ctz x))"

lemma ctz_spec:
  assumes "x \<noteq> 0"
  shows "ctz x < 64" "bit x (ctz x)" "i < ctz x \<Longrightarrow> \<not> bit x i"
proof -
  let ?P = "\<lambda>i. \<not> bit x i"
  obtain j where j: "bit x j" using assms by (metis bit_0_eq bit_eqI bot_apply bot_bool_def)
  then have "j < 64" using bit_imp_le_length by fastforce
  then have "takeWhile ?P [0 ..< 64] \<noteq> [0 ..< 64]"
    using j by (auto simp: takeWhile_eq_all_conv)
  then have less: "length (takeWhile ?P [0 ..< 64]) < length [0 ..< 64]"
    by (metis length_takeWhile_le le_neq_implies_less takeWhile_eq_take take_all order_refl)
  then show "ctz x < 64" by (simp add: ctz_def)
  show "bit x (ctz x)" using nth_length_takeWhile [OF less] less by (simp add: ctz_def)
  show "\<not> bit x i" if "i < ctz x"
  proof -
    have "takeWhile ?P [0 ..< 64] ! i \<in> set (takeWhile ?P [0 ..< 64])" using that by (intro nth_mem) (simp add: ctz_def)
    moreover have "takeWhile ?P [0 ..< 64] ! i = i"
      using that less by (simp add: takeWhile_nth ctz_def)
    ultimately show ?thesis using set_takeWhileD by metis
  qed
qed

lemma drop_bit_less:
  assumes "m \<noteq> 0" "0 < k"
  shows "unat (drop_bit k m) < unat (m :: uint64)"
proof -
  have "unat (drop_bit k m) = unat m div 2 ^ k"
    by (rule unat_drop_bit)
  moreover have "unat m div 2 ^ k < unat m"
    using assms by (intro div_less_dividend) (auto simp: unat_gt_0 one_less_power [of "2::nat" k, simplified])
  ultimately show ?thesis by simp
qed

text \<open>
  The loop of \<^verbatim>\<open>proto_entry_encode_into\<close>. The number of ones is computed with \<^verbatim>\<open>trailing_zeros(~mask)\<close>,
  which is undefined (\<open>None\<close>) when all 64 bits are set: the guard tests \<^verbatim>\<open>!mask\<close>.
\<close>

function encode_ranges :: "uint64 \<Rightarrow> nat \<Rightarrow> bool \<Rightarrow> string option" where
  "encode_ranges m shift first =
     (if m = 0 then Some []
      else case trailing_zeros m of
             None \<Rightarrow> None
           | Some zeros \<Rightarrow>
               let m1 = drop_bit zeros m; shift1 = shift + zeros
               in case (if m1 = 0 then Some 64 else trailing_zeros (NOT m1)) of
                    None \<Rightarrow> None
                  | Some ones \<Rightarrow>
                      let piece = (if first then [] else '','') @
                            (if ones = 1 then show_nat shift1
                             else show_nat shift1 @ ''-'' @ show_nat (shift1 + ones - 1))
                      in if ones = 64 then Some piece
                         else map_option ((@) piece) (encode_ranges (drop_bit ones m1) (shift1 + ones) False))"
  by pat_completeness auto
termination
proof (relation "measure (\<lambda>(m, s, f). unat m)", goal_cases)
  case (2 m shift first zeros m1 shift1 ones piece)
  then have z: "zeros = ctz m" by (simp add: trailing_zeros_def)
  have b: "bit m1 0" using ctz_spec(2) [OF 2(1)] 2(3) z by (simp add: bit_drop_bit_eq)
  then have "m1 \<noteq> 0" by auto
  then have o: "NOT m1 \<noteq> 0" "ones = ctz (NOT m1)"
    using 2(5) by (auto simp: trailing_zeros_def split: if_splits)
  have "ones \<noteq> 0"
  proof
    assume "ones = 0"
    then have "bit (NOT m1) 0" using ctz_spec(2) [OF o(1)] o(2) by simp
    then show False using b by (simp add: bit_not_iff)
  qed
  then have "unat (drop_bit ones m1) < unat m1" using drop_bit_less \<open>m1 \<noteq> 0\<close> by simp
  moreover have "unat m1 \<le> unat m" using drop_bit_less [OF 2(1), of zeros] 2(3) by (cases "zeros = 0") auto
  ultimately show ?case by simp
qed simp

declare encode_ranges.simps [simp del]

definition proto_entry_encode :: "proto_entry \<Rightarrow> string option" where
  "proto_entry_encode entry =
     map_option (\<lambda>r. pe_name entry @ ''='' @ r) (encode_ranges (bitmask entry) 0 True)"

fun encode_entries :: "string \<Rightarrow> proto_entry list \<Rightarrow> string option" where
  "encode_entries separator [] = Some []"
| "encode_entries separator (ent # sl) =
     (case proto_entry_encode ent of
        None \<Rightarrow> None
      | Some t \<Rightarrow> map_option (\<lambda>r. separator @ t @ r) (encode_entries '' '' sl))"

definition encode_protocol_list :: "proto_entry list \<Rightarrow> string option" where
  "encode_protocol_list sl = encode_entries [] sl"

subsection \<open>Voting and required protocols\<close>

definition add_names :: "string list \<Rightarrow> proto_entry list \<Rightarrow> string list" where
  "add_names names ents = foldl (\<lambda>ns ent. if pe_name ent \<in> set ns then ns else ns @ [pe_name ent]) names ents"

definition str_key :: "string \<Rightarrow> nat list" where
  "str_key s = map of_char s"

text \<open>\<^verbatim>\<open>smartlist_sort_strings\<close>: insertion by \<^verbatim>\<open>strcmp\<close>.\<close>

fun key_le :: "nat list \<Rightarrow> nat list \<Rightarrow> bool" where
  "key_le [] _ = True"
| "key_le (_ # _) [] = False"
| "key_le (x # xs) (y # ys) = (x < y \<or> (x = y \<and> key_le xs ys))"

fun insert_string :: "string \<Rightarrow> string list \<Rightarrow> string list" where
  "insert_string x [] = [x]"
| "insert_string x (y # ys) = (if key_le (str_key x) (str_key y) then x # y # ys else y # insert_string x ys)"

definition sort_strings :: "string list \<Rightarrow> string list" where
  "sort_strings xs = foldr insert_string xs []"

text \<open>The eight bit counter of version \<open>i\<close>, and the mask of the versions with enough votes.\<close>

definition count_bit :: "proto_entry list list \<Rightarrow> string \<Rightarrow> nat \<Rightarrow> uint8" where
  "count_bit parsed name i =
     foldl (\<lambda>n vote. case find_entry_by_name vote name of
              None \<Rightarrow> n
            | Some ent \<Rightarrow> if bitmask ent AND push_bit i 1 \<noteq> 0 then n + 1 else n) 0 parsed"

definition result_mask :: "proto_entry list list \<Rightarrow> int \<Rightarrow> string \<Rightarrow> uint64" where
  "result_mask parsed threshold name =
     foldl (\<lambda>m i. if int (unat (count_bit parsed name i)) \<ge> threshold then m OR push_bit i 1 else m) 0 [0 ..< 64]"

definition vote_entries :: "string list \<Rightarrow> int \<Rightarrow> proto_entry list" where
  "vote_entries strings threshold =
     (let parsed = map the (filter (\<lambda>p. p \<noteq> None) (map parse_protocol_list strings));
          proto_names = sort_strings (foldl add_names [] parsed)
      in filter (\<lambda>ent. bitmask ent \<noteq> 0)
           (map (\<lambda>name. \<lparr>pe_name = name, bitmask = result_mask parsed threshold name\<rparr>) proto_names))"

text \<open>\<open>None\<close> is the failed assertion on the number of inputs, or the undefined encoding.\<close>

definition protover_compute_vote :: "string list \<Rightarrow> int \<Rightarrow> string option" where
  "protover_compute_vote strings threshold =
     (if \<not> length strings < 256 then None
      else if length strings = 0 then Some []
      else encode_protocol_list (vote_entries strings threshold))"

definition missing_entries :: "proto_entry list \<Rightarrow> proto_entry list \<Rightarrow> proto_entry list" where
  "missing_entries supported entries =
     concat (map (\<lambda>ent.
       (case find_entry_by_name supported (pe_name ent) of
          None \<Rightarrow> if bitmask ent \<noteq> 0 then [ent] else []
        | Some mine \<Rightarrow>
            let missing_mask = bitmask ent AND NOT (bitmask mine)
            in if missing_mask \<noteq> 0 then [\<lparr>pe_name = pe_name ent, bitmask = missing_mask\<rparr>] else [])) entries)"

text \<open>The result and the text of the missing protocols, when it is computed.\<close>

definition protover_all_supported :: "string option \<Rightarrow> bool \<times> string option" where
  "protover_all_supported s =
     (case s of
        None \<Rightarrow> (True, None)
      | Some t \<Rightarrow>
          (case parse_protocol_list t of
             None \<Rightarrow> (True, None)
           | Some entries \<Rightarrow>
               let missing = missing_entries get_supported_protocol_list entries
               in if missing = [] then (True, None) else (False, encode_protocol_list missing)))"

end
