(* ===== verification/Protover_Correct.thy ===== *)
theory Protover_Correct
  imports Protover
begin

text \<open>
  Correctness of the subprotocol lists: printing and parsing are inverse on every mask that can be
  printed, the vote keeps exactly the versions that enough authorities list, and the check of the
  required protocols reports exactly the versions that are missing.
\<close>

unbundle bit_operations_syntax

subsection \<open>Masks\<close>

lemma bit_bitmask_for_range:
  assumes "low \<le> high" "high < 64"
  shows "bit (bitmask_for_range low high) i \<longleftrightarrow> low \<le> i \<and> i \<le> high"
  using assms by (auto simp: bitmask_for_range_def bit_simps)

lemma uint64_eq_iff: "(m :: uint64) = n \<longleftrightarrow> (\<forall>i<64. bit m i = bit n i)"
  using bit_word_eqI [of m n] by auto

lemma full_mask: "(m :: uint64) = - 1 \<longleftrightarrow> (\<forall>i<64. bit m i)"
  by (simp add: uint64_eq_iff)

lemma NOT_eq_0: "NOT m = (0 :: uint64) \<longleftrightarrow> m = - 1"
  by (metis bit.compl_zero bit.double_compl)

subsection \<open>One range\<close>

definition range_text :: "nat \<Rightarrow> nat \<Rightarrow> string" where
  "range_text low n = (if n = 1 then show_nat low else show_nat low @ ''-'' @ show_nat (low + n - 1))"

lemma range_text_chars: "c \<in> set (range_text low n) \<Longrightarrow> is_digit c \<or> c = CHR ''-''"
  by (auto simp: range_text_def split: if_splits)

lemma range_text_nonempty [simp]: "range_text low n \<noteq> []"
  by (simp add: range_text_def)

lemma hd_show_nat [simp]: "is_digit (hd (show_nat n))"
  by (simp add: show_nat_digits [of _ n])

lemma parse_ulong_version:
  assumes "rest = [] \<or> \<not> is_digit (hd rest)" "n < 64"
  shows "tor_parse_ulong (show_nat n @ rest) 0 MAX_PROTOCOL_VERSION True = (int n, True, rest)"
  using assms by (intro tor_parse_ulong_show_nat) (auto simp: MAX_PROTOCOL_VERSION_def ULONG_MAX_def)

lemma parse_range_text:
  assumes rest: "rest = [] \<or> \<not> is_digit (hd rest)" and n: "0 < n" "low + n \<le> 64"
  shows "parse_version_range (range_text low n @ rest) (length (range_text low n)) = Some (low, low + n - 1)"
proof (cases "n = 1")
  case True
  then show ?thesis
    using parse_ulong_version [OF rest, of low] n by (simp add: parse_version_range_def range_text_def)
next
  case False
  have "\<not> is_digit (CHR ''-'')" by (simp add: is_digit_def)
  then have "tor_parse_ulong (show_nat low @ ''-'' @ show_nat (low + n - 1) @ rest) 0 MAX_PROTOCOL_VERSION True
      = (int low, True, ''-'' @ show_nat (low + n - 1) @ rest)"
    using n by (intro parse_ulong_version) auto
  moreover have "tor_parse_ulong (show_nat (low + n - 1) @ rest) 0 MAX_PROTOCOL_VERSION True
      = (int (low + n - 1), True, rest)"
    using n by (intro parse_ulong_version [OF rest]) auto
  ultimately show ?thesis
    using False n by (simp add: parse_version_range_def range_text_def)
qed

subsection \<open>Printing and parsing the ranges\<close>

lemma encode_ranges_unfold:
  assumes "m \<noteq> 0" "m \<noteq> - 1"
  obtains z n where "0 < n" "z + n \<le> 64" "\<forall>i<z. \<not> bit m i" "\<forall>i. z \<le> i \<and> i < z + n \<longrightarrow> bit m i"
    "drop_bit n (drop_bit z m) \<noteq> - 1"
    "encode_ranges m shift first =
       map_option ((@) ((if first then [] else '','') @ range_text (shift + z) n))
         (encode_ranges (drop_bit n (drop_bit z m)) (shift + z + n) False)"
proof -
  define z where "z = ctz m"
  define m1 where "m1 = drop_bit z m"
  have z: "z < 64" "bit m z" "\<And>i. i < z \<Longrightarrow> \<not> bit m i"
    using ctz_spec [OF assms(1)] by (auto simp: z_def)
  have b: "bit m1 0" using z by (simp add: m1_def bit_drop_bit_eq)
  have m1: "m1 \<noteq> 0" using b by auto
  have full: "m1 \<noteq> - 1"
  proof
    assume "m1 = - 1"
    then have "bit m (z + 63)" using bit_drop_bit_eq [of z m] by (simp add: m1_def full_mask fun_eq_iff)
    then have "z = 0" using bit_imp_le_length by fastforce
    then show False using assms(2) \<open>m1 = - 1\<close> by (simp add: m1_def)
  qed
  then have nz: "NOT m1 \<noteq> 0" by (simp add: NOT_eq_0)
  define n where "n = ctz (NOT m1)"
  have n: "n < 64" "\<not> bit m1 n" "\<And>i. i < n \<Longrightarrow> bit m1 i"
    using ctz_spec [OF nz] by (auto simp: n_def bit_not_iff)
  show ?thesis
  proof
    show "0 < n" using n(2) b by (cases n) auto
    show "\<forall>i<z. \<not> bit m i" using z by blast
    show ones: "\<forall>i. z \<le> i \<and> i < z + n \<longrightarrow> bit m i"
    proof (intro allI impI)
      fix i assume "z \<le> i \<and> i < z + n"
      then have "bit m1 (i - z)" using n(3) [of "i - z"] by auto
      then show "bit m i" using \<open>z \<le> i \<and> i < z + n\<close> by (simp add: m1_def bit_drop_bit_eq)
    qed
    show "z + n \<le> 64"
    proof -
      have "bit m (z + n - 1)" using ones \<open>0 < n\<close> by simp
      then have "z + n - 1 < 64" using bit_imp_le_length by fastforce
      then show ?thesis by simp
    qed
    show "drop_bit n (drop_bit z m) \<noteq> - 1"
    proof
      assume "drop_bit n (drop_bit z m) = - 1"
      then have "drop_bit n m1 = - 1" by (simp add: m1_def)
      then have "bit (drop_bit n m1) 0" by simp
      then have "bit m1 n" by (simp add: bit_drop_bit_eq)
      then show False using n(2) by simp
    qed
    show "encode_ranges m shift first =
       map_option ((@) ((if first then [] else '','') @ range_text (shift + z) n))
         (encode_ranges (drop_bit n (drop_bit z m)) (shift + z + n) False)"
      using assms(1) m1 nz n(1) z_def m1_def n_def
      by (simp add: encode_ranges.simps [of m] trailing_zeros_def range_text_def Let_def)
  qed
qed

lemma encode_ranges_defined: "encode_ranges m shift first = None \<longleftrightarrow> m = - 1"
proof (cases "m = - 1")
  case True
  have "ctz (- 1) = 0" by (simp add: ctz_def upt_conv_Cons)
  then show ?thesis using True by (simp add: encode_ranges.simps [of "- 1"] trailing_zeros_def)
next
  case False
  then show ?thesis
  proof (induction "unat m" arbitrary: m shift first rule: less_induct)
    case less
    show ?case
    proof (cases "m = 0")
      case True
      then show ?thesis by (simp add: encode_ranges.simps)
    next
      case nz: False
      obtain z n where st: "0 < n" "drop_bit n (drop_bit z m) \<noteq> - 1"
        "encode_ranges m shift first = map_option ((@) ((if first then [] else '','') @ range_text (shift + z) n))
         (encode_ranges (drop_bit n (drop_bit z m)) (shift + z + n) False)"
        using encode_ranges_unfold [OF nz less(2)] by metis
      have "unat (drop_bit n (drop_bit z m)) < unat m"
        using drop_bit_less [OF nz, of "n + z"] st(1) by (simp add: add.commute)
      then show ?thesis using less(1) st less(2) by simp
    qed
  qed
qed

lemma memchr_pos_piece:
  assumes "c \<notin> set p"
  shows "memchr_pos c (p @ rest) (length p) = None"
    and "memchr_pos c (p @ c # rest) (length p + Suc k) = Some (length p)"
proof -
  show "memchr_pos c (p @ rest) (length p) = None" using assms by (simp add: memchr_pos_def)
  show "memchr_pos c (p @ c # rest) (length p + Suc k) = Some (length p)"
    using assms by (simp add: memchr_pos_def takeWhile_append2)
qed

text \<open>One turn of the loop over ranges, on the text of a range that ends the entry or is followed by a comma.\<close>

lemma parse_ranges_last:
  assumes "rest = [] \<or> \<not> is_digit (hd rest)" "0 < n" "low + n \<le> 64"
  shows "parse_ranges (range_text low n @ rest) (length (range_text low n)) acc =
           Some (acc OR bitmask_for_range low (low + n - 1))"
proof -
  have "CHR '','' \<notin> set (range_text low n)" using range_text_chars by (fastforce simp: is_digit_def)
  then have "memchr_pos (CHR '','') (range_text low n @ rest) (length (range_text low n)) = None"
    by (rule memchr_pos_piece)
  moreover have "parse_ranges rest 0 x = Some x" for x by (simp add: parse_ranges.simps)
  ultimately show ?thesis
    using parse_range_text [OF assms]
    by (simp add: parse_ranges.simps [of "range_text low n @ rest"])
qed

lemma parse_ranges_comma:
  assumes "0 < n" "low + n \<le> 64" "t \<noteq> []"
  shows "parse_ranges (range_text low n @ CHR '','' # t @ rest) (length (range_text low n) + Suc (length t)) acc =
           parse_ranges (t @ rest) (length t) (acc OR bitmask_for_range low (low + n - 1))"
proof -
  have "CHR '','' \<notin> set (range_text low n)" using range_text_chars by (fastforce simp: is_digit_def)
  then have "memchr_pos (CHR '','') (range_text low n @ CHR '','' # t @ rest) (length (range_text low n) + Suc (length t))
      = Some (length (range_text low n))"
    by (rule memchr_pos_piece)
  moreover have "parse_version_range (range_text low n @ CHR '','' # t @ rest) (length (range_text low n))
      = Some (low, low + n - 1)"
    using assms by (intro parse_range_text) (auto simp: is_digit_def)
  ultimately show ?thesis
    using assms(3) by (simp add: parse_ranges.simps [of "range_text low n @ CHR '','' # t @ rest"])
qed

lemma mask_split:
  assumes "\<forall>i<z. \<not> bit m i" "\<forall>i. z \<le> i \<and> i < z + n \<longrightarrow> bit m i" "0 < n" "shift + z + n \<le> 64"
  shows "push_bit shift m = bitmask_for_range (shift + z) (shift + z + n - 1) OR
           push_bit (shift + z + n) (drop_bit n (drop_bit z m))"
proof (unfold uint64_eq_iff, intro allI impI)
  fix i :: nat assume i: "i < 64"
  show "bit (push_bit shift m) i =
        bit (bitmask_for_range (shift + z) (shift + z + n - 1) OR
           push_bit (shift + z + n) (drop_bit n (drop_bit z m))) i"
  proof -
    consider "i < shift + z" | "shift + z \<le> i" "i < shift + z + n" | "shift + z + n \<le> i" by linarith
    then show ?thesis
    proof cases
      case 1
      then show ?thesis using assms i by (auto simp: bit_or_iff bit_bitmask_for_range bit_push_bit_iff)
    next
      case 2
      then have "bit m (i - shift)" using assms(2) by (metis add_diff_inverse_nat add_le_imp_le_diff
            le_add1 le_trans less_diff_conv2 not_less add.assoc add.commute)
      then show ?thesis using 2 assms i by (auto simp: bit_or_iff bit_bitmask_for_range bit_push_bit_iff)
    next
      case 3
      then have "n + z + (i - (shift + z + n)) = i - shift" by simp
      then show ?thesis
        using 3 assms i by (auto simp: bit_or_iff bit_bitmask_for_range bit_push_bit_iff bit_drop_bit_eq)
    qed
  qed
qed

lemma parse_encode_ranges:
  assumes "encode_ranges m shift first = Some t" "\<forall>i. bit m i \<longrightarrow> shift + i < 64"
    "rest = [] \<or> \<not> is_digit (hd rest)" "m \<noteq> 0"
  shows "\<exists>u. t = (if first then u else CHR '','' # u) \<and> u \<noteq> [] \<and>
           parse_ranges (u @ rest) (length u) acc = Some (acc OR push_bit shift m)"
  using assms
proof (induction "unat m" arbitrary: m shift first t acc rule: less_induct)
  case less
  have "m \<noteq> - 1" using less.prems(1) encode_ranges_defined by (metis option.distinct(1))
  then obtain z n where st: "0 < n" "z + n \<le> 64" "\<forall>i<z. \<not> bit m i" "\<forall>i. z \<le> i \<and> i < z + n \<longrightarrow> bit m i"
    "encode_ranges m shift first =
       map_option ((@) ((if first then [] else '','') @ range_text (shift + z) n))
         (encode_ranges (drop_bit n (drop_bit z m)) (shift + z + n) False)"
    using encode_ranges_unfold [OF less.prems(4)] by metis
  let ?m2 = "drop_bit n (drop_bit z m)" and ?p = "range_text (shift + z) n"
  obtain t2 where t2: "encode_ranges ?m2 (shift + z + n) False = Some t2"
    "t = (if first then [] else '','') @ ?p @ t2" using less.prems(1) st(5) by auto
  have bound: "shift + z + n \<le> 64"
  proof -
    have "bit m (z + n - 1)" using st(1,4) by simp
    then have "shift + (z + n - 1) < 64" using less.prems(2) by blast
    then show ?thesis by simp
  qed
  have split: "push_bit shift m = bitmask_for_range (shift + z) (shift + z + n - 1) OR
      push_bit (shift + z + n) ?m2"
    using mask_split st bound by blast
  show ?case
  proof (cases "?m2 = 0")
    case True
    then have "t2 = []" using t2(1) by (simp add: encode_ranges.simps)
    then show ?thesis
      using parse_ranges_last [OF less.prems(3) st(1) bound] t2(2) True split by (cases first) auto
  next
    case False
    have "unat ?m2 < unat m" using drop_bit_less [OF less.prems(4), of "n + z"] st(1) by (simp add: add.commute)
    moreover have "\<forall>i. bit ?m2 i \<longrightarrow> shift + z + n + i < 64"
    proof (intro allI impI)
      fix i assume "bit ?m2 i"
      then have "bit m (n + z + i)" by (simp add: bit_drop_bit_eq)
      then have "shift + (n + z + i) < 64" using less.prems(2) by blast
      then show "shift + z + n + i < 64" by simp
    qed
    ultimately obtain u where u: "t2 = CHR '','' # u" "u \<noteq> []"
      "parse_ranges (u @ rest) (length u) (acc OR bitmask_for_range (shift + z) (shift + z + n - 1)) =
         Some ((acc OR bitmask_for_range (shift + z) (shift + z + n - 1)) OR push_bit (shift + z + n) ?m2)"
      using less.hyps [OF _ t2(1) _ less.prems(3) False] by fastforce
    show ?thesis
      using parse_ranges_comma [OF st(1) bound u(2), of rest acc] u t2(2) split
      by (intro exI [of _ "?p @ CHR '','' # u"]) (simp add: or.assoc)
  qed
qed

subsection \<open>Printing and parsing lists\<close>

definition valid_name :: "string \<Rightarrow> bool" where
  "valid_name s \<longleftrightarrow> s \<noteq> [] \<and> length s \<le> MAX_PROTOCOL_NAME_LENGTH \<and> is_valid_keyword s (length s)"

lemma valid_name_chars:
  assumes "valid_name s" "c \<in> set s"
  shows "c \<noteq> CHR ''=''" "c \<noteq> CHR '' ''"
  using assms by (auto simp: valid_name_def is_valid_keyword_def is_alnum_def is_digit_def list_all_iff)

lemma is_valid_keyword_prefix: "is_valid_keyword (s @ r) (length s) = is_valid_keyword s (length s)"
  by (simp add: is_valid_keyword_def)

lemma encode_ranges_chars:
  assumes "encode_ranges m shift first = Some t" "c \<in> set t"
  shows "is_digit c \<or> c = CHR ''-'' \<or> c = CHR '',''"
  using assms
proof (induction "unat m" arbitrary: m shift first t rule: less_induct)
  case less
  show ?case
  proof (cases "m = 0")
    case True
    then show ?thesis using less.prems by (simp add: encode_ranges.simps)
  next
    case False
    have "m \<noteq> - 1" using less.prems(1) encode_ranges_defined by (metis option.distinct(1))
    then obtain z n where zn: "0 < n"
      "encode_ranges m shift first =
         map_option ((@) ((if first then [] else '','') @ range_text (shift + z) n))
           (encode_ranges (drop_bit n (drop_bit z m)) (shift + z + n) False)"
      using encode_ranges_unfold [OF False, of shift first] by metis
    then obtain t2 where st: "encode_ranges (drop_bit n (drop_bit z m)) (shift + z + n) False = Some t2"
      "t = (if first then [] else '','') @ range_text (shift + z) n @ t2"
      using less.prems(1) by (cases "encode_ranges (drop_bit n (drop_bit z m)) (shift + z + n) False") auto
    have "unat (drop_bit n (drop_bit z m)) < unat m"
      using drop_bit_less [OF False, of "n + z"] zn(1) by (simp add: add.commute)
    note ih = less.hyps [OF this st(1)]
    show ?thesis
      using ih less.prems(2) st(2) range_text_chars by (auto split: if_splits)
  qed
qed

lemma entry_roundtrip:
  assumes "valid_name (pe_name e)" "proto_entry_encode e = Some t" "rest = [] \<or> \<not> is_digit (hd rest)"
  shows "parse_single_entry (t @ rest) (length t) = Some (e :: proto_entry)"
    and "CHR '' '' \<notin> set t" and "t \<noteq> []"
proof -
  let ?n = "pe_name e"
  obtain r where r: "encode_ranges (bitmask e) 0 True = Some r" "t = ?n @ CHR ''='' # r"
    using assms(2) by (auto simp: proto_entry_encode_def)
  show "t \<noteq> []" using r by simp
  have "CHR '' '' \<notin> set r" using encode_ranges_chars [OF r(1), of "CHR '' ''"] by (auto simp: is_digit_def)
  then show "CHR '' '' \<notin> set t" using r valid_name_chars(2) [OF assms(1)] by auto
  have eq: "CHR ''='' \<notin> set ?n" using valid_name_chars(1) [OF assms(1)] by blast
  have mem: "memchr_pos (CHR ''='') (t @ rest) (length t) = Some (length ?n)"
    using memchr_pos_piece(2) [OF eq, of "r @ rest" "length r"] r(2) by simp
  have "parse_ranges (r @ rest) (length r) 0 = Some (bitmask e)"
  proof (cases "bitmask e = 0")
    case True
    then show ?thesis using r(1) by (simp add: encode_ranges.simps parse_ranges.simps)
  next
    case False
    then show ?thesis
      using parse_encode_ranges [OF r(1) _ assms(3), of 0] bit_imp_le_length [of "bitmask e"] by fastforce
  qed
  then show "parse_single_entry (t @ rest) (length t) = Some e"
    using mem assms(1) r(2) by (simp add: parse_single_entry_def valid_name_def is_valid_keyword_prefix)
qed

lemma parse_protocol_list_Nil [simp]: "parse_protocol_list [] = Some []"
  by (simp add: parse_protocol_list.simps)

lemma parse_protocol_list_entry:
  assumes "valid_name (pe_name e)" "proto_entry_encode e = Some t"
  shows "parse_protocol_list t = Some [e]"
    and "r \<noteq> [] \<Longrightarrow> hd r \<noteq> CHR '' '' \<Longrightarrow>
      parse_protocol_list (t @ CHR '' '' # r) = map_option ((#) (e :: proto_entry)) (parse_protocol_list r)"
proof -
  note e = entry_roundtrip [OF assms]
  show "parse_protocol_list t = Some [e]"
    using e(1) [of "[]"] e(2,3) [of "[]"] by (simp add: parse_protocol_list.simps [of t])
  assume r: "r \<noteq> []" "hd r \<noteq> CHR '' ''"
  have "takeWhile (\<lambda>c. c \<noteq> CHR '' '') (t @ CHR '' '' # r) = t" using e(2) [of "[]"] by simp
  moreover have "dropWhile (\<lambda>c. c = CHR '' '') (CHR '' '' # r) = r" using r by (cases r) auto
  moreover have "parse_single_entry (t @ CHR '' '' # r) (length t) = Some e"
    by (rule e(1)) (simp add: is_digit_def)
  ultimately show "parse_protocol_list (t @ CHR '' '' # r) = map_option ((#) e) (parse_protocol_list r)"
    by (simp add: parse_protocol_list.simps [of "t @ CHR '' '' # r"])
qed

lemma encode_entries_sep:
  assumes "encode_entries sep es = Some t" "\<forall>e \<in> set es. valid_name (pe_name e)" "es \<noteq> []"
  shows "\<exists>u. t = sep @ u \<and> u \<noteq> [] \<and> hd u \<noteq> CHR '' '' \<and> parse_protocol_list u = Some es"
  using assms
proof (induction es arbitrary: sep t)
  case (Cons e es)
  obtain a b where ab: "proto_entry_encode e = Some a" "encode_entries '' '' es = Some b" "t = sep @ a @ b"
    using Cons.prems(1) by (auto split: option.splits)
  have v: "valid_name (pe_name e)" using Cons.prems(2) by simp
  note e = entry_roundtrip [OF v ab(1)]
  have hd: "a \<noteq> []" "hd a \<noteq> CHR '' ''" using e(2,3) [of "[]"] by (auto simp: neq_Nil_conv)
  show ?case
  proof (cases "es = []")
    case True
    then show ?thesis using ab hd parse_protocol_list_entry(1) [OF v ab(1)] by simp
  next
    case False
    then obtain u where "b = '' '' @ u" "u \<noteq> []" "hd u \<noteq> CHR '' ''" "parse_protocol_list u = Some es"
      using Cons.IH [OF ab(2)] Cons.prems(2) by auto
    then show ?thesis
      using ab(3) hd parse_protocol_list_entry(2) [OF v ab(1), of u] by (intro exI [of _ "a @ b"]) (simp add: hd_append)
  qed
qed simp

lemma parse_encode_list:
  assumes "encode_protocol_list es = Some t" "\<forall>e \<in> set es. valid_name (pe_name e)"
  shows "parse_protocol_list t = Some es"
proof (cases "es = []")
  case True
  then show ?thesis using assms by (simp add: encode_protocol_list_def)
next
  case False
  then show ?thesis
    using encode_entries_sep [of "[]" es t] assms by (simp add: encode_protocol_list_def)
qed

lemma encode_list_None: "encode_entries sep es = None \<longleftrightarrow> (\<exists>e \<in> set es. bitmask e = - 1)"
proof (induction es arbitrary: sep)
  case (Cons e es)
  then show ?case
    using encode_ranges_defined [of "bitmask e" 0 True]
    by (auto simp: proto_entry_encode_def split: option.splits)
qed simp

text \<open>
  C19. A list of entries with valid names and with no entry for all of the versions 0 to 63 is
  printed by \<open>encode_protocol_list\<close> to a text that \<open>parse_protocol_list\<close> reads back to the same list.
\<close>

theorem protocol_list_roundtrip:
  assumes "\<forall>e \<in> set es. valid_name (pe_name e)" "\<forall>e \<in> set es. bitmask e \<noteq> - 1"
  shows "\<exists>t. encode_protocol_list es = Some t \<and> parse_protocol_list t = Some es"
proof -
  obtain t where "encode_protocol_list es = Some t"
    using encode_list_None [of "[]" es] assms(2) by (auto simp: encode_protocol_list_def)
  then show ?thesis using parse_encode_list assms(1) by blast
qed

definition demo_entries :: "proto_entry list" where
  "demo_entries = [\<lparr>pe_name = ''Link'', bitmask = 0x3E\<rparr>, \<lparr>pe_name = ''X-y'', bitmask = 0x800000000000000D\<rparr>]"

theorem protocol_list_roundtrip_witness:
  "\<exists>t. encode_protocol_list demo_entries = Some t \<and> parse_protocol_list t = Some demo_entries"
  by (rule protocol_list_roundtrip)
    (simp_all add: demo_entries_def valid_name_def is_valid_keyword_def is_alnum_def is_digit_def
      MAX_PROTOCOL_NAME_LENGTH_def)

text \<open>
  The encoding is undefined exactly when some entry lists every version from 0 to 63: the code
  then computes \<^verbatim>\<open>trailing_zeros(~mask)\<close> of 0, although \<open>Name=0-63\<close> is a text that it parses.
\<close>

theorem encode_undefined:
  "(encode_protocol_list es = None \<longleftrightarrow> (\<exists>e \<in> set es. bitmask e = - 1)) \<and>
   parse_protocol_list ''X=0-63'' = Some [\<lparr>pe_name = ''X'', bitmask = - 1\<rparr>]"
proof
  show "encode_protocol_list es = None \<longleftrightarrow> (\<exists>e \<in> set es. bitmask e = - 1)"
    by (simp add: encode_protocol_list_def encode_list_None)
  show "parse_protocol_list ''X=0-63'' = Some [\<lparr>pe_name = ''X'', bitmask = - 1\<rparr>]"
    by code_simp
qed

subsection \<open>Voting\<close>

text \<open>The number of inputs that list a version: an input that does not parse lists nothing.\<close>

definition lists_version :: "string \<Rightarrow> nat \<Rightarrow> string \<Rightarrow> bool" where
  "lists_version name v s \<longleftrightarrow>
     (case parse_protocol_list s of
        None \<Rightarrow> False
      | Some ents \<Rightarrow> (case find_entry_by_name ents name of None \<Rightarrow> False | Some e \<Rightarrow> bit (bitmask e) v))"

definition votes_for :: "string list \<Rightarrow> string \<Rightarrow> nat \<Rightarrow> nat" where
  "votes_for strings name v = length (filter (lists_version name v) strings)"

definition parsed_votes :: "string list \<Rightarrow> proto_entry list list" where
  "parsed_votes strings = map the (filter (\<lambda>p. p \<noteq> None) (map parse_protocol_list strings))"

definition entry_has :: "string \<Rightarrow> nat \<Rightarrow> proto_entry list \<Rightarrow> bool" where
  "entry_has name v ents = (case find_entry_by_name ents name of None \<Rightarrow> False | Some e \<Rightarrow> bit (bitmask e) v)"

lemma count_bit_fold:
  "foldl (\<lambda>n vote. case find_entry_by_name vote name of
              None \<Rightarrow> n
            | Some ent \<Rightarrow> if bitmask ent AND push_bit v 1 \<noteq> 0 then n + 1 else n) n parsed
         = n + (of_nat (length (filter (entry_has name v) parsed)) :: uint8)"
  by (induction parsed arbitrary: n) (simp_all add: entry_has_def push_bit_of_1 and_exp_eq_0_iff_not_bit split: option.splits)

lemma votes_for_parsed: "votes_for strings name v = length (filter (entry_has name v) (parsed_votes strings))"
  by (induction strings)
    (auto simp: votes_for_def parsed_votes_def lists_version_def entry_has_def split: option.splits)

lemma count_bit_votes:
  assumes "length strings < 256"
  shows "uint (count_bit (parsed_votes strings) name v) = int (votes_for strings name v)"
proof -
  have "votes_for strings name v < 256"
    unfolding votes_for_def using length_filter_le assms(1) by (rule le_less_trans)
  then show ?thesis
    using count_bit_fold [of v name 0 "parsed_votes strings"]
    by (simp add: count_bit_def votes_for_parsed [symmetric] uint_nat unat_of_nat)
qed

lemma result_mask_fold:
  "bit (foldl (\<lambda>m i. if P i then m OR push_bit i 1 else m) m0 is) v \<longleftrightarrow> bit (m0 :: uint64) v \<or> (v < 64 \<and> v \<in> set is \<and> P v)"
  by (induction "is" arbitrary: m0) (auto simp: bit_or_iff push_bit_of_1 bit_exp_iff)

lemma bit_result_mask:
  assumes "length strings < 256"
  shows "bit (result_mask (parsed_votes strings) threshold name) v \<longleftrightarrow>
           v < 64 \<and> threshold \<le> int (votes_for strings name v)"
  using count_bit_votes [OF assms]
  by (auto simp: result_mask_def result_mask_fold)

text \<open>Names are collected without duplicates, sorted, and all valid.\<close>

lemma add_names_set:
  "set (add_names ns ents) = set ns \<union> pe_name ` set ents"
  "distinct ns \<Longrightarrow> distinct (add_names ns ents)"
proof -
  show "set (add_names ns ents) = set ns \<union> pe_name ` set ents"
    by (induction ents arbitrary: ns) (auto simp: add_names_def)
  show "distinct ns \<Longrightarrow> distinct (add_names ns ents)"
    by (induction ents arbitrary: ns) (simp_all add: add_names_def)
qed

lemma foldl_add_names:
  "set (foldl add_names ns votes) = set ns \<union> (\<Union>v \<in> set votes. pe_name ` set v)"
  "distinct ns \<Longrightarrow> distinct (foldl add_names ns votes)"
proof -
  show "set (foldl add_names ns votes) = set ns \<union> (\<Union>v \<in> set votes. pe_name ` set v)"
    by (induction votes arbitrary: ns) (auto simp: add_names_set)
  show "distinct ns \<Longrightarrow> distinct (foldl add_names ns votes)"
    by (induction votes arbitrary: ns) (simp_all add: add_names_set)
qed

lemma key_le_total: "key_le x y \<or> key_le y x"
  by (induction x y rule: key_le.induct) auto

lemma key_le_trans: "key_le x y \<Longrightarrow> key_le y z \<Longrightarrow> key_le x z"
proof (induction x y arbitrary: z rule: key_le.induct)
  case (3 x xs y ys)
  then show ?case by (cases z) auto
qed auto

abbreviation sorted_strings :: "string list \<Rightarrow> bool" where
  "sorted_strings \<equiv> sorted_wrt (\<lambda>a b. key_le (str_key a) (str_key b))"

lemma set_insert_string [simp]: "set (insert_string x ys) = insert x (set ys)"
  by (induction ys) auto

lemma distinct_insert_string: "distinct (insert_string x ys) \<longleftrightarrow> x \<notin> set ys \<and> distinct ys"
  by (induction ys) auto

lemma sorted_insert_string:
  assumes "sorted_strings ys"
  shows "sorted_strings (insert_string x ys)"
  using assms
proof (induction ys)
  case (Cons y ys)
  then show ?case using key_le_total [of "str_key x" "str_key y"] key_le_trans by auto
qed simp

lemma sort_strings_spec:
  "set (sort_strings xs) = set xs" "distinct xs \<Longrightarrow> distinct (sort_strings xs)" "sorted_strings (sort_strings xs)"
proof -
  show s: "set (sort_strings xs) = set xs" for xs by (induction xs) (simp_all add: sort_strings_def)
  show "distinct xs \<Longrightarrow> distinct (sort_strings xs)"
  proof (induction xs)
    case (Cons x xs)
    then show ?case using s [of xs] by (simp add: sort_strings_def distinct_insert_string)
  qed (simp add: sort_strings_def)
  show "sorted_strings (sort_strings xs)"
    by (induction xs) (simp_all add: sort_strings_def sorted_insert_string)
qed

lemma parse_single_entry_valid:
  assumes "parse_single_entry s n = Some e"
  shows "valid_name (pe_name e)"
proof -
  obtain k where k: "memchr_pos (CHR ''='') s n = Some k" "k \<noteq> 0" "k \<le> MAX_PROTOCOL_NAME_LENGTH"
    "is_valid_keyword s k" "pe_name e = take k s"
    using assms by (auto simp: parse_single_entry_def split: option.splits if_splits)
  have "k < length s" using k(1) by (auto simp: memchr_pos_def Let_def split: if_splits)
  then show ?thesis using k by (auto simp: valid_name_def is_valid_keyword_def)
qed

lemma parse_protocol_list_valid: "parse_protocol_list s = Some es \<Longrightarrow> e \<in> set es \<Longrightarrow> valid_name (pe_name e)"
proof (induction s arbitrary: es rule: parse_protocol_list.induct)
  case (1 s)
  then show ?case
    by (subst (asm) parse_protocol_list.simps)
      (auto simp: Let_def dest: parse_single_entry_valid split: if_splits option.splits)
qed

lemma vote_entries_parsed:
  "vote_entries strings threshold =
     filter (\<lambda>ent. bitmask ent \<noteq> 0)
       (map (\<lambda>name. \<lparr>pe_name = name, bitmask = result_mask (parsed_votes strings) threshold name\<rparr>)
         (sort_strings (foldl add_names [] (parsed_votes strings))))"
  by (simp only: vote_entries_def parsed_votes_def Let_def)

lemma vote_entries_spec:
  assumes "length strings < 256" "1 \<le> threshold" "v < 64"
  shows "(\<exists>e \<in> set (vote_entries strings threshold). pe_name e = name \<and> bit (bitmask e) v) \<longleftrightarrow>
           threshold \<le> int (votes_for strings name v)"
proof -
  let ?names = "sort_strings (foldl add_names [] (parsed_votes strings))"
  have in_names: "name \<in> set ?names" if "threshold \<le> int (votes_for strings name v)"
  proof -
    have "filter (entry_has name v) (parsed_votes strings) \<noteq> []"
      using that assms(2) votes_for_parsed [of strings name v] by auto
    then obtain vote where vote: "vote \<in> set (parsed_votes strings)" "entry_has name v vote"
      by (auto simp: filter_empty_conv)
    then have "name \<in> pe_name ` set vote"
      by (auto simp: entry_has_def find_entry_by_name_def find_Some_iff split: option.splits)
    then show ?thesis using vote(1) by (auto simp: sort_strings_spec foldl_add_names)
  qed
  have "(\<exists>e \<in> set (vote_entries strings threshold). pe_name e = name \<and> bit (bitmask e) v) \<longleftrightarrow>
        name \<in> set ?names \<and> bit (result_mask (parsed_votes strings) threshold name) v"
    by (auto simp: vote_entries_parsed)
  then show ?thesis using in_names bit_result_mask [OF assms(1)] assms(3) by blast
qed

lemma vote_entries_names:
  "distinct (map pe_name (vote_entries strings threshold))"
  "sorted_strings (map pe_name (vote_entries strings threshold))"
  "e \<in> set (vote_entries strings threshold) \<Longrightarrow> valid_name (pe_name e) \<and> bitmask e \<noteq> 0"
proof -
  let ?names = "sort_strings (foldl add_names [] (parsed_votes strings))"
  let ?P = "\<lambda>name. result_mask (parsed_votes strings) threshold name \<noteq> 0"
  have names: "map pe_name (vote_entries strings threshold) = filter ?P ?names"
    by (simp add: vote_entries_parsed filter_map comp_def)
  show "distinct (map pe_name (vote_entries strings threshold))"
    unfolding names by (intro distinct_filter sort_strings_spec foldl_add_names) simp
  show "sorted_strings (map pe_name (vote_entries strings threshold))"
    unfolding names by (intro sorted_wrt_filter sort_strings_spec)
  assume e: "e \<in> set (vote_entries strings threshold)"
  then have "pe_name e \<in> set ?names" using names by (metis filter_is_subset image_eqI set_map subsetD)
  then obtain vote x where "vote \<in> set (parsed_votes strings)" "x \<in> set vote" "pe_name x = pe_name e"
    by (auto simp: sort_strings_spec foldl_add_names)
  then have "valid_name (pe_name e)" using parse_protocol_list_valid by (fastforce simp: parsed_votes_def)
  then show "valid_name (pe_name e) \<and> bitmask e \<noteq> 0" using e by (auto simp: vote_entries_def Let_def)
qed

text \<open>
  C18. With fewer than 256 inputs and a threshold of at least one, \<open>protover_compute_vote\<close> gives a text
  that parses to a list, sorted by name and without duplicates, in which a version of a protocol is
  listed exactly when at least \<open>threshold\<close> of the inputs list it; it gives no text only when all of
  the versions 0 to 63 of one protocol reach the threshold.
\<close>

theorem protover_compute_vote_exact:
  assumes "length strings < 256" "1 \<le> threshold"
  shows "case protover_compute_vote strings threshold of
      None \<Rightarrow> \<exists>name. \<forall>v \<in> {..<64}. threshold \<le> int (votes_for strings name v)
    | Some out \<Rightarrow>
        \<exists>es. parse_protocol_list out = Some es \<and>
             distinct (map pe_name es) \<and> sorted_strings (map pe_name es) \<and>
             (\<forall>name. \<forall>v \<in> {..<64}.
                (\<exists>e \<in> set es. pe_name e = name \<and> bit (bitmask e) v) \<longleftrightarrow>
                threshold \<le> int (votes_for strings name v))"
proof -
  let ?es = "vote_entries strings threshold"
  have enc: "protover_compute_vote strings threshold = encode_protocol_list ?es"
    using assms(1) by (auto simp: protover_compute_vote_def vote_entries_def encode_protocol_list_def sort_strings_def)
  show ?thesis
  proof (cases "encode_protocol_list ?es")
    case None
    then obtain e where "e \<in> set ?es" "bitmask e = - 1"
      by (auto simp: encode_protocol_list_def encode_list_None)
    then have "threshold \<le> int (votes_for strings (pe_name e) v)" if "v < 64" for v
      using vote_entries_spec [OF assms that, of "pe_name e"] that full_mask [of "bitmask e"] by blast
    then show ?thesis using None enc by auto
  next
    case (Some out)
    then have "parse_protocol_list out = Some ?es" using parse_encode_list vote_entries_names(3) by blast
    then show ?thesis using Some enc vote_entries_names(1,2) vote_entries_spec [OF assms] by auto
  qed
qed

theorem protover_compute_vote_exact_witness:
  "\<exists>out es e. protover_compute_vote [''Link=1-3 A=1'', ''Link=2-4'', ''=''] 2 = Some out \<and>
     parse_protocol_list out = Some es \<and> e \<in> set es \<and> pe_name e = ''Link'' \<and>
     bit (bitmask e) 2 \<and> \<not> bit (bitmask e) 1"
proof -
  let ?in = "[''Link=1-3 A=1'', ''Link=2-4'', ''='']"
  have parse: "parse_protocol_list ''Link=1-3 A=1'' = Some [\<lparr>pe_name = ''Link'', bitmask = 0xE\<rparr>, \<lparr>pe_name = ''A'', bitmask = 2\<rparr>]"
    "parse_protocol_list ''Link=2-4'' = Some [\<lparr>pe_name = ''Link'', bitmask = 0x1C\<rparr>]"
    "parse_protocol_list ''='' = None" by code_simp+
  note votes = votes_for_def lists_version_def find_entry_by_name_def
  have v63: "\<not> 2 \<le> int (votes_for ?in name 63)" for name
    using parse by (simp add: votes)
  have v: "2 \<le> int (votes_for ?in ''Link'' 2)" "\<not> 2 \<le> int (votes_for ?in ''Link'' 1)"
    using parse by (simp_all add: votes)
  obtain out es where out: "protover_compute_vote ?in 2 = Some out" "parse_protocol_list out = Some es"
      "distinct (map pe_name es)"
      "\<forall>name. \<forall>v\<in>{..<64}. (\<exists>e \<in> set es. pe_name e = name \<and> bit (bitmask e) v) \<longleftrightarrow> 2 \<le> int (votes_for ?in name v)"
  proof (cases "protover_compute_vote ?in 2")
    case None
    then have "\<exists>name. \<forall>v \<in> {..<64}. 2 \<le> int (votes_for ?in name v)"
      using protover_compute_vote_exact [of ?in 2] by simp
    then obtain name where "\<forall>v \<in> {..<64}. 2 \<le> int (votes_for ?in name v)" ..
    then have "2 \<le> int (votes_for ?in name 63)" by (rule bspec) simp
    then show ?thesis using v63 by blast
  next
    case (Some out)
    then show ?thesis using that protover_compute_vote_exact [of ?in 2] by auto
  qed
  then obtain e where "e \<in> set es" "pe_name e = ''Link''" "bit (bitmask e) 2" using v(1) by force
  moreover have "\<not> bit (bitmask e) 1" using out(4) v(2) calculation(1,2) by force
  ultimately show ?thesis using out(1,2) by blast
qed

subsection \<open>Required protocols\<close>

lemma missing_entries_bits:
  "(\<exists>m \<in> set (missing_entries ours es). pe_name m = name \<and> bit (bitmask m) v) \<longleftrightarrow>
   (\<exists>e \<in> set es. pe_name e = name \<and> bit (bitmask e) v \<and> \<not> entry_has name v ours)"
proof (induction es)
  case (Cons e es)
  have split: "missing_entries ours (e # es) = missing_entries ours [e] @ missing_entries ours es"
    by (simp add: missing_entries_def)
  have zero: "bitmask a AND NOT (bitmask b) = 0 \<Longrightarrow> bit (bitmask a) v \<Longrightarrow> bit (bitmask b) v" for a b :: proto_entry
    by (metis bit_0_eq bit_and_iff bit_imp_le_length bit_not_iff bot_apply bot_bool_def impossible_bit
        possible_bit_word not_le)
  have "(\<exists>m \<in> set (missing_entries ours [e]). pe_name m = name \<and> bit (bitmask m) v) \<longleftrightarrow>
        pe_name e = name \<and> bit (bitmask e) v \<and> \<not> entry_has name v ours"
    by (cases "find_entry_by_name ours (pe_name e)")
      (auto simp: missing_entries_def entry_has_def Let_def bit_and_iff bit_not_iff dest: zero bit_imp_le_length split: option.splits)
  then show ?case unfolding split using Cons.IH by auto
qed (simp add: missing_entries_def)

lemma missing_entries_nonzero: "m \<in> set (missing_entries ours es) \<Longrightarrow> bitmask m \<noteq> 0 \<and> pe_name m \<in> pe_name ` set es"
  by (auto simp: missing_entries_def Let_def split: option.splits if_splits)

lemma mask_has_bit: "(m :: uint64) \<noteq> 0 \<longleftrightarrow> (\<exists>v. bit m v)"
  by (metis bit_0_eq bit_eqI bot_apply bot_bool_def)

text \<open>
  On a list that parses, \<open>protover_all_supported\<close> answers yes exactly when every listed version is
  one that this relay supports; the text that it reports otherwise parses to exactly the listed
  versions that are not supported.
\<close>

theorem protover_all_supported_exact:
  assumes "parse_protocol_list t = Some es"
  shows "(fst (protover_all_supported (Some t)) \<longleftrightarrow>
           (\<forall>e \<in> set es. \<forall>v. bit (bitmask e) v \<longrightarrow> entry_has (pe_name e) v get_supported_protocol_list)) \<and>
         (\<forall>out. snd (protover_all_supported (Some t)) = Some out \<longrightarrow>
           (\<exists>ms. parse_protocol_list out = Some ms \<and>
             (\<forall>name v. (\<exists>m \<in> set ms. pe_name m = name \<and> bit (bitmask m) v) \<longleftrightarrow>
               (\<exists>e \<in> set es. pe_name e = name \<and> bit (bitmask e) v \<and>
                 \<not> entry_has name v get_supported_protocol_list))))"
proof -
  let ?ms = "missing_entries get_supported_protocol_list es"
  have res: "protover_all_supported (Some t) = (if ?ms = [] then (True, None) else (False, encode_protocol_list ?ms))"
    using assms by (simp add: protover_all_supported_def Let_def)
  have "?ms = [] \<longleftrightarrow> \<not> (\<exists>m \<in> set ?ms. \<exists>v. bit (bitmask m) v)"
  proof -
    have "?ms \<noteq> [] \<Longrightarrow> hd ?ms \<in> set ?ms" by simp
    then show ?thesis using missing_entries_nonzero mask_has_bit by (metis empty_iff empty_set)
  qed
  also have "\<dots> \<longleftrightarrow> (\<forall>e \<in> set es. \<forall>v. bit (bitmask e) v \<longrightarrow> entry_has (pe_name e) v get_supported_protocol_list)"
  proof -
    have "(\<exists>m \<in> set ?ms. \<exists>v. bit (bitmask m) v) \<longleftrightarrow>
        (\<exists>name v. \<exists>m \<in> set ?ms. pe_name m = name \<and> bit (bitmask m) v)" by auto
    then show ?thesis unfolding missing_entries_bits by auto
  qed
  finally have yes: "?ms = [] \<longleftrightarrow>
    (\<forall>e \<in> set es. \<forall>v. bit (bitmask e) v \<longrightarrow> entry_has (pe_name e) v get_supported_protocol_list)" .
  have "\<forall>m \<in> set ?ms. valid_name (pe_name m)"
    using missing_entries_nonzero parse_protocol_list_valid [OF assms] by fastforce
  then have "parse_protocol_list out = Some ?ms" if "encode_protocol_list ?ms = Some out" for out
    using parse_encode_list that by blast
  then show ?thesis using res yes missing_entries_bits by auto
qed

text \<open>The supported protocols, parsed: the list prints to the canonical text.\<close>

definition supported_entries :: "proto_entry list" where
  "supported_entries =
     [\<lparr>pe_name = ''Cons'', bitmask = 6\<rparr>, \<lparr>pe_name = ''Desc'', bitmask = 6\<rparr>, \<lparr>pe_name = ''DirCache'', bitmask = 4\<rparr>,
      \<lparr>pe_name = ''FlowCtrl'', bitmask = 2\<rparr>, \<lparr>pe_name = ''HSDir'', bitmask = 6\<rparr>, \<lparr>pe_name = ''HSIntro'', bitmask = 0x38\<rparr>,
      \<lparr>pe_name = ''HSRend'', bitmask = 6\<rparr>, \<lparr>pe_name = ''Link'', bitmask = 0x3E\<rparr>, \<lparr>pe_name = ''LinkAuth'', bitmask = 0xA\<rparr>,
      \<lparr>pe_name = ''Microdesc'', bitmask = 6\<rparr>, \<lparr>pe_name = ''Padding'', bitmask = 4\<rparr>, \<lparr>pe_name = ''Relay'', bitmask = 0xE\<rparr>]"

lemma encode_supported_ranges:
  "encode_ranges 6 0 True = Some ''1-2''"
  "encode_ranges 4 0 True = Some ''2''"
  "encode_ranges 2 0 True = Some ''1''"
  "encode_ranges 0x38 0 True = Some ''3-5''"
  "encode_ranges 0x3E 0 True = Some ''1-5''"
  "encode_ranges 0xA 0 True = Some ''1,3''"
  "encode_ranges 0xE 0 True = Some ''1-3''"
  by code_simp+

lemma encode_supported: "encode_protocol_list supported_entries = Some protover_get_supported_protocols"
  by (simp add: encode_protocol_list_def supported_entries_def proto_entry_encode_def encode_supported_ranges
      protover_get_supported_protocols_def)

lemma supported_list: "get_supported_protocol_list = supported_entries"
proof -
  have "\<forall>e \<in> set supported_entries. valid_name (pe_name e)"
    by (simp add: supported_entries_def valid_name_def is_valid_keyword_def is_alnum_def is_digit_def
        MAX_PROTOCOL_NAME_LENGTH_def)
  then show ?thesis using parse_encode_list [OF encode_supported] by (simp add: get_supported_protocol_list_def)
qed

theorem protover_all_supported_exact_witness:
  "\<not> fst (protover_all_supported (Some ''Link=4-7''))"
proof -
  have parse: "parse_protocol_list ''Link=4-7'' = Some [\<lparr>pe_name = ''Link'', bitmask = 0xF0\<rparr>]" by code_simp
  have "\<not> entry_has ''Link'' 7 get_supported_protocol_list"
    by (simp add: entry_has_def supported_list supported_entries_def find_entry_by_name_def)
  moreover have "bit (0xF0 :: uint64) 7" by simp
  ultimately show ?thesis using protover_all_supported_exact [OF parse] by auto
qed

end
