(* ===== verification/Versions.thy ===== *)
theory Versions
  imports Parsecommon Protover_Correct "HOL-Library.Monad_Syntax" "HOL-Library.Product_Lexorder"
    "HOL-Library.List_Lexorder"
begin

text \<open>
  Release versions, \<^verbatim>\<open>src/BADNET/src/core/or/versions.c\<close>: parsing, comparison, the check against a list of
  recommended versions, the memoised summary of a relay's protocols, and the protocols of releases
  that do not declare them (\<^verbatim>\<open>protover.c\<close>). A failed assertion is \<open>None\<close>.
\<close>

subsection \<open>Parsing\<close>

datatype version_release = VER_PRE | VER_RC | VER_RELEASE

record tor_version =
  major :: int
  minor :: int
  micro :: int
  status :: version_release
  patchlevel :: int
  status_tag :: string
  svn_revision :: int
  git_tag_len :: int
  git_tag :: "byte list"

definition MAX_STATUS_TAG_LEN :: nat where "MAX_STATUS_TAG_LEN = 32"
definition DIGEST_LEN :: nat where "DIGEST_LEN = 20"

definition empty_version :: tor_version where
  "empty_version = \<lparr>major = 0, minor = 0, micro = 0, status = VER_RELEASE, patchlevel = 0, status_tag = [],
     svn_revision = 0, git_tag_len = 0, git_tag = replicate DIGEST_LEN 0\<rparr>"

definition tor_parse_uint64 :: "string \<Rightarrow> int \<Rightarrow> int \<Rightarrow> bool \<Rightarrow> int \<times> bool \<times> string" where
  "tor_parse_uint64 s mn mx want_next = check_strtox s (strtoul10 s) mn mx want_next"

definition strcasecmpstart_eq :: "string \<Rightarrow> string \<Rightarrow> bool" where
  "strcasecmpstart_eq s1 s2 \<longleftrightarrow> map to_lower (take (length s2) s1) = map to_lower s2"

definition NUMBER :: "string \<Rightarrow> (int \<times> string) option" where
  "NUMBER cp =
     (if cp = [] \<or> \<not> is_digit (hd cp) then None
      else let (m, ok, eos) = tor_parse_uint64 cp 0 INT32_MAX True
           in if \<not> ok then None else if eos = cp then None else Some (m, eos))"

definition DOT :: "string \<Rightarrow> string option" where
  "DOT cp = (if cp = [] \<or> hd cp \<noteq> CHR ''.'' then None else Some (tl cp))"

text \<open>A value converted to the 32-bit type \<^verbatim>\<open>int\<close>.\<close>

definition to_int32 :: "int \<Rightarrow> int" where
  "to_int32 n = sint (word_of_int n :: 32 word)"

text \<open>From the label \<^verbatim>\<open>status_tag\<close> to the end.\<close>

definition version_tag :: "tor_version \<Rightarrow> string \<Rightarrow> tor_version option" where
  "version_tag v cp0 =
     (let cp = (if cp0 \<noteq> [] \<and> (hd cp0 = CHR ''-'' \<or> hd cp0 = CHR ''.'') then tl cp0 else cp0);
          w = takeWhile (\<lambda>c. \<not> ends_word c) cp;
          v1 = v\<lparr>status_tag := (if length w \<ge> MAX_STATUS_TAG_LEN then take (MAX_STATUS_TAG_LEN - 1) cp else w)\<rparr>;
          cp1 = eat_whitespace (find_whitespace_eos cp)
      in if starts_with cp1 ''(r'' then Some (v1\<lparr>svn_revision := to_int32 (fst (strtol10 (drop 2 cp1)))\<rparr>)
         else if starts_with cp1 ''(git-'' then
           (if CHR '')'' \<notin> set cp1 then None
            else let hex = takeWhile (\<lambda>c. c \<noteq> CHR '')'') (drop 5 cp1); hexlen = length hex
                 in if hexlen > 2 * DIGEST_LEN then None
                    else if hexlen = 0 \<or> hexlen mod 2 = 1 then None
                    else case base16_decode (hexlen div 2) hex of
                           None \<Rightarrow> None
                         | Some d \<Rightarrow>
                             if length d \<noteq> hexlen div 2 then None
                             else Some (v1\<lparr>git_tag := d @ replicate (DIGEST_LEN - hexlen div 2) 0,
                                           git_tag_len := int (hexlen div 2)\<rparr>))
         else Some v1)"

definition version_status :: "string \<Rightarrow> (version_release \<times> string) option" where
  "version_status cp =
     (if hd cp = CHR ''.'' then Some (VER_RELEASE, tl cp)
      else if starts_with cp ''pre'' then Some (VER_PRE, drop 3 cp)
      else if starts_with cp ''rc'' then Some (VER_RC, drop 2 cp)
      else None)"

text \<open>What follows the micro version, and what follows the minor version.\<close>

definition version_patch :: "tor_version \<Rightarrow> string \<Rightarrow> tor_version option" where
  "version_patch v cp =
     (if cp = [] then Some v
      else if hd cp = CHR ''-'' then version_tag v cp
      else do {
        (st, cp) \<leftarrow> version_status cp;
        (pl, cp) \<leftarrow> NUMBER cp;
        version_tag (v\<lparr>status := st, patchlevel := pl\<rparr>) cp
      })"

definition version_micro :: "tor_version \<Rightarrow> string \<Rightarrow> tor_version option" where
  "version_micro v cp =
     (if cp = [] then Some v
      else if hd cp = CHR ''-'' then version_tag v cp
      else do {
        cp \<leftarrow> DOT cp;
        (mc, cp) \<leftarrow> NUMBER cp;
        version_patch (v\<lparr>micro := mc\<rparr>) cp
      })"

definition tor_version_parse :: "string \<Rightarrow> tor_version option" where
  "tor_version_parse s =
     do {
       (mj, cp) \<leftarrow> NUMBER (if strcasecmpstart_eq s ''Tor '' then drop 4 s else s);
       cp \<leftarrow> DOT cp;
       (mn, cp) \<leftarrow> NUMBER cp;
       version_micro (empty_version\<lparr>major := mj, minor := mn\<rparr>) cp
     }"

text \<open>The sum type of the three results 1, 0 and -1.\<close>

datatype platform_version = Version tor_version | Nonstandard | Unparseable

definition tor_version_parse_platform :: "string \<Rightarrow> bool \<Rightarrow> platform_version" where
  "tor_version_parse_platform platform strict =
     (if \<not> starts_with platform ''Tor '' then Nonstandard
      else let start = eat_whitespace (drop 3 platform)
           in if start = [] then Unparseable
              else let s = find_whitespace_eos start; s2 = eat_whitespace s;
                       s = (if starts_with s2 ''(r'' \<or> starts_with s2 ''(git-'' then find_whitespace_eos s2 else s);
                       n = length start - length s
                   in if n + 1 \<ge> 128 then Unparseable
                      else case tor_version_parse (take n start) of
                             None \<Rightarrow> Unparseable
                           | Some v \<Rightarrow>
                               if strict \<and> (major v < 0 \<or> minor v < 0 \<or> micro v < 0 \<or> patchlevel v < 0 \<or>
                                   svn_revision v < 0) then Unparseable
                               else Version v)"

subsection \<open>Comparison\<close>

fun version_status_num :: "version_release \<Rightarrow> int" where
  "version_status_num VER_PRE = 0"
| "version_status_num VER_RC = 1"
| "version_status_num VER_RELEASE = 2"

definition CMP :: "int \<Rightarrow> int \<Rightarrow> int" where
  "CMP a b = sgn (sint (word_of_int a - word_of_int b :: 32 word))"

text \<open>The sign of \<^verbatim>\<open>strcmp\<close> and \<^verbatim>\<open>memcmp\<close>: the first difference, as unsigned bytes, decides.\<close>

fun cmp_keys :: "nat list \<Rightarrow> nat list \<Rightarrow> int" where
  "cmp_keys [] [] = 0"
| "cmp_keys [] (_ # _) = -1"
| "cmp_keys (_ # _) [] = 1"
| "cmp_keys (x # xs) (y # ys) = (if x < y then -1 else if x > y then 1 else cmp_keys xs ys)"

fun first_nonzero :: "int list \<Rightarrow> int" where
  "first_nonzero [] = 0"
| "first_nonzero (x # xs) = (if x \<noteq> 0 then x else first_nonzero xs)"

definition git_bytes :: "tor_version \<Rightarrow> nat list" where
  "git_bytes v = map unat (take (nat (git_tag_len v)) (git_tag v))"

definition tor_version_compare :: "tor_version \<Rightarrow> tor_version \<Rightarrow> int" where
  "tor_version_compare a b =
     first_nonzero
       [CMP (major a) (major b), CMP (minor a) (minor b), CMP (micro a) (micro b),
        CMP (version_status_num (status a)) (version_status_num (status b)),
        CMP (patchlevel a) (patchlevel b),
        cmp_keys (str_key (status_tag a)) (str_key (status_tag b)),
        CMP (svn_revision a) (svn_revision b),
        CMP (git_tag_len a) (git_tag_len b),
        if git_tag_len a \<noteq> 0 then cmp_keys (git_bytes a) (map unat (take (nat (git_tag_len a)) (git_tag b))) else 0]"

definition tor_version_same_series :: "tor_version \<Rightarrow> tor_version \<Rightarrow> bool" where
  "tor_version_same_series a b \<longleftrightarrow> major a = major b \<and> minor a = minor b \<and> micro a = micro b"

definition compare_tor_version_str :: "string \<Rightarrow> string \<Rightarrow> int" where
  "compare_tor_version_str a b =
     (case (tor_version_parse a, tor_version_parse b) of
        (Some va, Some vb) \<Rightarrow> tor_version_compare va vb
      | (Some _, None) \<Rightarrow> -1
      | (None, Some _) \<Rightarrow> 1
      | (None, None) \<Rightarrow> cmp_keys (str_key a) (str_key b))"

definition tor_version_as_new_as :: "string \<Rightarrow> string \<Rightarrow> bool" where
  "tor_version_as_new_as platform cutoff =
     (case tor_version_parse cutoff of
        None \<Rightarrow> False
      | Some cutoff_version \<Rightarrow>
          (case tor_version_parse_platform platform False of
             Nonstandard \<Rightarrow> True
           | Unparseable \<Rightarrow> True
           | Version router_version \<Rightarrow> tor_version_compare router_version cutoff_version \<ge> 0))"

subsection \<open>Recommended versions\<close>

datatype version_status_t = VS_RECOMMENDED | VS_OLD | VS_NEW | VS_NEW_IN_SERIES | VS_UNRECOMMENDED | VS_EMPTY

record found =
  found_newer :: bool
  found_older :: bool
  found_newer_in_series :: bool
  found_any_in_series :: bool

text \<open>The loop over the list: \<open>None\<close> when it stops at the version itself.\<close>

fun scan_versions :: "tor_version \<Rightarrow> string list \<Rightarrow> found \<Rightarrow> found option" where
  "scan_versions mine [] f = Some f"
| "scan_versions mine (cp # sl) f =
     (case tor_version_parse (if starts_with cp ''Tor '' then drop 4 cp else cp) of
        None \<Rightarrow> scan_versions mine sl f
      | Some other \<Rightarrow>
          let same = tor_version_same_series mine other;
              f1 = (if same then f\<lparr>found_any_in_series := True\<rparr> else f);
              r = tor_version_compare mine other
          in if r = 0 then None
             else if r < 0 then
               scan_versions mine sl (if same then f1\<lparr>found_newer := True, found_newer_in_series := True\<rparr>
                                      else f1\<lparr>found_newer := True\<rparr>)
             else scan_versions mine sl (f1\<lparr>found_older := True\<rparr>))"

definition tor_version_is_obsolete :: "string \<Rightarrow> string \<Rightarrow> version_status_t option" where
  "tor_version_is_obsolete myversion versionlist =
     (case tor_version_parse myversion of
        None \<Rightarrow> None
      | Some mine \<Rightarrow>
          let version_sl = smartlist_split_string (no_split_flags\<lparr>SPLIT_SKIP_SPACE := True\<rparr>) (Some '','') 0 versionlist
          in if versionlist = [] then Some VS_EMPTY
             else case scan_versions mine version_sl
                    \<lparr>found_newer = False, found_older = False, found_newer_in_series = False,
                     found_any_in_series = False\<rparr> of
                    None \<Rightarrow> Some VS_RECOMMENDED
                  | Some f \<Rightarrow>
                      Some (if found_any_in_series f \<and> \<not> found_newer_in_series f \<and> found_newer f
                              then VS_NEW_IN_SERIES
                            else if found_newer f \<and> \<not> found_older f then VS_OLD
                            else if found_older f \<and> \<not> found_newer f then VS_NEW
                            else VS_UNRECOMMENDED))"

subsection \<open>Protocols of old releases\<close>

definition protover_compute_for_old_tor :: "string option \<Rightarrow> string" where
  "protover_compute_for_old_tor version0 =
     (let version = (case version0 of None \<Rightarrow> ''0.2.5.15'' | Some v \<Rightarrow> v)
      in if tor_version_as_new_as version ''0.2.9.3-alpha'' then []
         else if tor_version_as_new_as version ''0.2.9.1-alpha'' then
           ''Cons=1-2 Desc=1-2 DirCache=1 HSDir=1 HSIntro=3 HSRend=1-2 Link=1-4 LinkAuth=1 Microdesc=1-2 Relay=1-2''
         else if tor_version_as_new_as version ''0.2.7.5'' then
           ''Cons=1-2 Desc=1-2 DirCache=1 HSDir=1 HSIntro=3 HSRend=1 Link=1-4 LinkAuth=1 Microdesc=1-2 Relay=1-2''
         else if tor_version_as_new_as version ''0.2.4.19'' then
           ''Cons=1 Desc=1 DirCache=1 HSDir=1 HSIntro=3 HSRend=1 Link=1-4 LinkAuth=1 Microdesc=1 Relay=1-2''
         else [])"

subsection \<open>Comparison is a lexicographic order\<close>

definition version_key ::
  "tor_version \<Rightarrow> int \<times> int \<times> int \<times> int \<times> int \<times> nat list \<times> int \<times> int \<times> nat list" where
  "version_key v = (major v, minor v, micro v, version_status_num (status v), patchlevel v,
     str_key (status_tag v), svn_revision v, git_tag_len v, git_bytes v)"

text \<open>No field is negative; all fit the type \<^verbatim>\<open>int\<close>.\<close>

definition int32_nonneg :: "int \<Rightarrow> bool" where
  "int32_nonneg n \<longleftrightarrow> 0 \<le> n \<and> n \<le> INT32_MAX"

definition version_ok :: "tor_version \<Rightarrow> bool" where
  "version_ok v \<longleftrightarrow> int32_nonneg (major v) \<and> int32_nonneg (minor v) \<and> int32_nonneg (micro v) \<and>
     int32_nonneg (patchlevel v) \<and> int32_nonneg (svn_revision v) \<and>
     0 \<le> git_tag_len v \<and> git_tag_len v \<le> 20"

lemma CMP_nonneg:
  assumes "int32_nonneg a" "int32_nonneg b"
  shows "CMP a b = sgn (a - b)"
proof -
  have "- (2 ^ 31) \<le> a - b" "a - b < 2 ^ 31" using assms by (auto simp: int32_nonneg_def INT32_MAX_def)
  then have "signed_take_bit 31 (a - b) = a - b" by (intro signed_take_bit_int_eq_self) auto
  then have "sint (word_of_int (a - b) :: 32 word) = a - b" by (subst sint_sbintrunc') simp
  then show ?thesis by (simp add: CMP_def)
qed

lemma cmp_keys_less: "cmp_keys xs ys < 0 \<longleftrightarrow> xs < ys"
  by (induction xs ys rule: cmp_keys.induct) auto

lemma cmp_keys_eq: "cmp_keys xs ys = 0 \<longleftrightarrow> xs = ys"
  by (induction xs ys rule: cmp_keys.induct) auto

lemma status_num_ok: "int32_nonneg (version_status_num st)"
  by (cases st) (simp_all add: int32_nonneg_def INT32_MAX_def)

lemma sgn_diff: "sgn (a - b :: int) < 0 \<longleftrightarrow> a < b" "sgn (a - b) = 0 \<longleftrightarrow> a = b"
  by (auto simp: sgn_if)

lemma first_nonzero_lex:
  assumes "x < 0 \<longleftrightarrow> a < b" "x = 0 \<longleftrightarrow> a = (b :: 'a :: linorder)"
    "a = b \<Longrightarrow> (first_nonzero xs < 0 \<longleftrightarrow> k < k') \<and> (first_nonzero xs = 0 \<longleftrightarrow> k = (k' :: 'b :: linorder))"
  shows "(first_nonzero (x # xs) < 0 \<longleftrightarrow> (a, k) < (b, k')) \<and> (first_nonzero (x # xs) = 0 \<longleftrightarrow> (a, k) = (b, k'))"
  using assms by (cases "a = b") (auto simp: less_prod_def)

lemma version_compare_key:
  assumes "version_ok a" "version_ok b"
  shows "(tor_version_compare a b < 0 \<longleftrightarrow> version_key a < version_key b) \<and>
    (tor_version_compare a b = 0 \<longleftrightarrow> version_key a = version_key b)"
proof -
  have len: "int32_nonneg (git_tag_len v)" if "version_ok v" for v
    using that by (simp add: version_ok_def int32_nonneg_def INT32_MAX_def)
  have cmp: "CMP (f a) (f b) < 0 \<longleftrightarrow> f a < f b" "CMP (f a) (f b) = 0 \<longleftrightarrow> f a = f b"
    if "f \<in> {major, minor, micro, patchlevel, svn_revision, git_tag_len, \<lambda>v. version_status_num (status v)}" for f
  proof -
    have "CMP (f a) (f b) = sgn (f a - f b)"
      using that assms len status_num_ok by (intro CMP_nonneg) (auto simp: version_ok_def)
    then show "CMP (f a) (f b) < 0 \<longleftrightarrow> f a < f b" "CMP (f a) (f b) = 0 \<longleftrightarrow> f a = f b"
      by (simp_all only: sgn_diff)
  qed
  have git: "(first_nonzero [if git_tag_len a \<noteq> 0
        then cmp_keys (git_bytes a) (map unat (take (nat (git_tag_len a)) (git_tag b))) else 0] < 0 \<longleftrightarrow>
      git_bytes a < git_bytes b) \<and>
      (first_nonzero [if git_tag_len a \<noteq> 0
        then cmp_keys (git_bytes a) (map unat (take (nat (git_tag_len a)) (git_tag b))) else 0] = 0 \<longleftrightarrow>
      git_bytes a = git_bytes b)" if "git_tag_len a = git_tag_len b"
    using that cmp_keys_less [of "git_bytes a" "git_bytes b"] cmp_keys_eq [of "git_bytes a" "git_bytes b"]
    by (simp add: git_bytes_def)
  show ?thesis
    unfolding tor_version_compare_def version_key_def
    by (intro first_nonzero_lex cmp [of major] cmp [of minor] cmp [of micro] cmp [of patchlevel]
        cmp [of svn_revision] cmp [of git_tag_len] cmp [of "\<lambda>v. version_status_num (status v)"]
        cmp_keys_less cmp_keys_eq git) simp_all
qed

lemma strtoul10_nonneg: "strtoul10 s = (v, e, r) \<Longrightarrow> 0 \<le> v"
  by (auto simp: strtoul10_def ULONG_MAX_def Let_def split: if_splits prod.splits)

lemma NUMBER_range: "NUMBER cp = Some (n, r) \<Longrightarrow> int32_nonneg n"
  by (auto simp: NUMBER_def tor_parse_uint64_def check_strtox_def int32_nonneg_def Let_def
      split: if_splits prod.splits)

text \<open>The version before its tag is read.\<close>

definition numbers_ok :: "tor_version \<Rightarrow> bool" where
  "numbers_ok v \<longleftrightarrow> int32_nonneg (major v) \<and> int32_nonneg (minor v) \<and> int32_nonneg (micro v) \<and>
     int32_nonneg (patchlevel v) \<and> svn_revision v = 0 \<and> git_tag_len v = 0"

lemma numbers_ok_version: "numbers_ok v \<Longrightarrow> version_ok v"
  by (auto simp: numbers_ok_def version_ok_def int32_nonneg_def INT32_MAX_def)

lemma version_tag_ok:
  assumes "version_tag v cp = Some v'" "numbers_ok v" "0 \<le> svn_revision v'"
  shows "version_ok v'"
proof -
  obtain tag w where "v' = v\<lparr>status_tag := tag\<rparr> \<or> v' = v\<lparr>status_tag := tag, svn_revision := sint (w :: 32 word)\<rparr> \<or>
    (\<exists>d k. k \<le> 20 \<and> v' = v\<lparr>status_tag := tag, git_tag := d, git_tag_len := int k\<rparr>)"
  proof -
    define cp1 where "cp1 = (if cp \<noteq> [] \<and> (hd cp = CHR ''-'' \<or> hd cp = CHR ''.'') then tl cp else cp)"
    define tag where "tag = (if length (takeWhile (\<lambda>c. \<not> ends_word c) cp1) \<ge> MAX_STATUS_TAG_LEN
      then take (MAX_STATUS_TAG_LEN - 1) cp1 else takeWhile (\<lambda>c. \<not> ends_word c) cp1)"
    define cp2 where "cp2 = eat_whitespace (find_whitespace_eos cp1)"
    define hex where "hex = takeWhile (\<lambda>c. c \<noteq> CHR '')'') (drop 5 cp2)"
    have eq: "version_tag v cp =
      (if starts_with cp2 ''(r'' then Some (v\<lparr>status_tag := tag, svn_revision := to_int32 (fst (strtol10 (drop 2 cp2)))\<rparr>)
       else if starts_with cp2 ''(git-'' then
         (if CHR '')'' \<notin> set cp2 then None
          else if length hex > 2 * DIGEST_LEN then None
          else if length hex = 0 \<or> length hex mod 2 = 1 then None
          else case base16_decode (length hex div 2) hex of
                 None \<Rightarrow> None
               | Some d \<Rightarrow> if length d \<noteq> length hex div 2 then None
                           else Some (v\<lparr>status_tag := tag, git_tag := d @ replicate (DIGEST_LEN - length hex div 2) 0,
                                        git_tag_len := int (length hex div 2)\<rparr>))
       else Some (v\<lparr>status_tag := tag\<rparr>))"
      unfolding version_tag_def Let_def cp1_def [symmetric] cp2_def [symmetric] hex_def [symmetric] tag_def [symmetric]
      by simp
    consider "starts_with cp2 ''(r''" | "\<not> starts_with cp2 ''(r''" "starts_with cp2 ''(git-''"
      | "\<not> starts_with cp2 ''(r''" "\<not> starts_with cp2 ''(git-''" by blast
    then show ?thesis
    proof cases
      case 1
      then show ?thesis
        using assms(1) that [of tag "word_of_int (fst (strtol10 (drop 2 cp2)))"] by (simp add: eq to_int32_def)
    next
      case 2
      then have "\<exists>d k. k \<le> 20 \<and> v' = v\<lparr>status_tag := tag, git_tag := d, git_tag_len := int k\<rparr>"
        using assms(1) unfolding eq
        by (intro exI [of _ "git_tag v'"] exI [of _ "length hex div 2"])
          (auto simp: DIGEST_LEN_def split: if_splits option.splits)
      then show ?thesis using that [of tag 0] by blast
    qed (use assms(1) that [of tag 0] eq in simp)
  qed
  then show ?thesis
    using assms(2,3) sint_lt [of w] by (auto simp: version_ok_def numbers_ok_def int32_nonneg_def INT32_MAX_def)
qed

lemma version_patch_ok:
  assumes "version_patch v cp = Some v'" "numbers_ok v" "0 \<le> svn_revision v'"
  shows "version_ok v'"
proof (cases "cp = [] \<or> hd cp = CHR ''-''")
  case True
  then have "v' = v \<or> version_tag v cp = Some v'" using assms(1) by (simp add: version_patch_def split: if_splits)
  then show ?thesis using assms version_tag_ok numbers_ok_version by blast
next
  case False
  then obtain st pl cp1 cp2 where "NUMBER cp1 = Some (pl, cp2)" "version_tag (v\<lparr>status := st, patchlevel := pl\<rparr>) cp2 = Some v'"
    using assms(1) by (auto simp: version_patch_def bind_eq_Some_conv)
  moreover from this have "numbers_ok (v\<lparr>status := st, patchlevel := pl\<rparr>)"
    using assms(2) NUMBER_range by (simp add: numbers_ok_def)
  ultimately show ?thesis using version_tag_ok assms(3) by blast
qed

lemma version_micro_ok:
  assumes "version_micro v cp = Some v'" "numbers_ok v" "0 \<le> svn_revision v'"
  shows "version_ok v'"
proof (cases "cp = [] \<or> hd cp = CHR ''-''")
  case True
  then have "v' = v \<or> version_tag v cp = Some v'" using assms(1) by (simp add: version_micro_def split: if_splits)
  then show ?thesis using assms version_tag_ok numbers_ok_version by blast
next
  case False
  then obtain mc cp1 cp2 where "NUMBER cp1 = Some (mc, cp2)" "version_patch (v\<lparr>micro := mc\<rparr>) cp2 = Some v'"
    using assms(1) by (auto simp: version_micro_def bind_eq_Some_conv)
  moreover from this have "numbers_ok (v\<lparr>micro := mc\<rparr>)" using assms(2) NUMBER_range by (simp add: numbers_ok_def)
  ultimately show ?thesis using version_patch_ok assms(3) by blast
qed

lemma tor_version_parse_ok:
  assumes "tor_version_parse s = Some v" "0 \<le> svn_revision v"
  shows "version_ok v"
proof -
  obtain mj mn cp1 cp2 cp3 cp4 where "NUMBER cp1 = Some (mj, cp2)" "NUMBER cp3 = Some (mn, cp4)"
    "version_micro (empty_version\<lparr>major := mj, minor := mn\<rparr>) cp4 = Some v"
    using assms(1) by (auto simp: tor_version_parse_def bind_eq_Some_conv)
  moreover from this have "numbers_ok (empty_version\<lparr>major := mj, minor := mn\<rparr>)"
    using NUMBER_range by (auto simp: numbers_ok_def empty_version_def int32_nonneg_def INT32_MAX_def)
  ultimately show ?thesis using version_micro_ok assms(2) by blast
qed

text \<open>
  C24. The comparison of parsed versions, with its wrapping subtraction, is the lexicographic order on
  major, minor, micro, release status, patch level, status tag, revision and commit: for versions
  whose revision is not negative, the sign of \<^verbatim>\<open>tor_version_compare\<close> tells which key is smaller.
\<close>

theorem tor_version_compare_lex:
  assumes "tor_version_parse s = Some a" "tor_version_parse t = Some b" "0 \<le> svn_revision a" "0 \<le> svn_revision b"
  shows "(tor_version_compare a b < 0 \<longleftrightarrow> version_key a < version_key b) \<and>
    (tor_version_compare a b = 0 \<longleftrightarrow> version_key a = version_key b) \<and>
    (tor_version_compare a b > 0 \<longleftrightarrow> version_key b < version_key a)"
proof -
  have "version_ok a" "version_ok b" using tor_version_parse_ok assms by blast+
  then have "(tor_version_compare a b < 0 \<longleftrightarrow> version_key a < version_key b)"
    "(tor_version_compare a b = 0 \<longleftrightarrow> version_key a = version_key b)" using version_compare_key by blast+
  then show ?thesis by (metis less_linear not_less_iff_gr_or_eq)
qed

subsection \<open>Printed versions parse back\<close>

definition version_text :: "nat \<Rightarrow> nat \<Rightarrow> nat \<Rightarrow> nat \<Rightarrow> string \<Rightarrow> string" where
  "version_text mj mn mc pl tag =
     show_nat mj @ CHR ''.'' # show_nat mn @ CHR ''.'' # show_nat mc @ CHR ''.'' # show_nat pl @
     (if tag = [] then [] else CHR ''-'' # tag)"

lemma not_digits [simp]: "\<not> is_digit (CHR ''.'')" "\<not> is_digit (CHR ''-'')" "\<not> is_digit (CHR ''T'')" "\<not> is_digit (CHR ''t'')"
  by (simp_all add: is_digit_def)

lemma hd_show_nat_append [simp]: "is_digit (hd (show_nat n @ r))"
proof -
  have "show_nat n \<noteq> []" "\<forall>c \<in> set (show_nat n). is_digit c" by auto
  then show ?thesis by (cases "show_nat n") auto
qed

lemma NUMBER_show_nat:
  assumes "int n \<le> INT32_MAX" "rest = [] \<or> \<not> is_digit (hd rest)"
  shows "NUMBER (show_nat n @ rest) = Some (int n, rest)"
proof -
  have "tor_parse_uint64 (show_nat n @ rest) 0 INT32_MAX True = (int n, True, rest)"
    using tor_parse_ulong_show_nat [of rest 0 n INT32_MAX] assms
    by (simp add: tor_parse_uint64_def tor_parse_ulong_def INT32_MAX_def ULONG_MAX_def)
  then show ?thesis by (simp add: NUMBER_def)
qed

lemma version_tag_word:
  assumes "word tag" "length tag < MAX_STATUS_TAG_LEN"
  shows "version_tag v (CHR ''-'' # tag) = Some (v\<lparr>status_tag := tag\<rparr>)"
  using assms word_split(3,4) [OF assms(1)]
  by (simp add: version_tag_def find_whitespace_eos_def starts_with_def Let_def
      del: dropWhile_eq_Nil_conv takeWhile_eq_all_conv)

lemma version_tag_none: "version_tag v [] = Some (v\<lparr>status_tag := []\<rparr>)"
  by (simp add: version_tag_def find_whitespace_eos_def starts_with_def MAX_STATUS_TAG_LEN_def)

lemma version_text_no_prefix: "\<not> strcasecmpstart_eq (version_text mj mn mc pl tag) ''Tor ''"
proof -
  let ?t = "version_text mj mn mc pl tag"
  have "is_digit (hd ?t)" "?t \<noteq> []" unfolding version_text_def by (rule hd_show_nat_append) simp
  then obtain c r where c: "?t = c # r" "is_digit c" by (cases ?t) auto
  then have "to_lower c \<noteq> CHR ''t''"
    by (auto simp: to_lower_def is_digit_def Let_def)
  moreover have "to_lower (CHR ''T'') = CHR ''t''" by code_simp
  ultimately show ?thesis using c(1) by (simp add: strcasecmpstart_eq_def)
qed

lemma demo_digits: "show_nat 0 = ''0''" "show_nat 4 = ''4''" "show_nat 5 = ''5''" "show_nat 6 = ''6''"
  by code_simp+

lemma tor_version_parse_text:
  assumes "int mj \<le> INT32_MAX" "int mn \<le> INT32_MAX" "int mc \<le> INT32_MAX" "int pl \<le> INT32_MAX"
    "tag = [] \<or> word tag" "length tag < MAX_STATUS_TAG_LEN"
  shows "tor_version_parse (version_text mj mn mc pl tag) =
    Some (empty_version\<lparr>major := int mj, minor := int mn, micro := int mc, patchlevel := int pl, status_tag := tag\<rparr>)"
proof -
  let ?t = "version_text mj mn mc pl tag"
  have no_prefix: "\<not> strcasecmpstart_eq ?t ''Tor ''" by (rule version_text_no_prefix)
  define tail where "tail = (if tag = [] then [] else CHR ''-'' # tag)"
  have tail: "tail = [] \<or> \<not> is_digit (hd tail)" by (simp add: tail_def)
  have tag: "version_tag v tail = Some (v\<lparr>status_tag := tag\<rparr>)" for v
    using assms(5,6) version_tag_word version_tag_none by (auto simp: tail_def)
  have patch: "version_patch v (CHR ''.'' # show_nat pl @ tail) = Some (v\<lparr>status := VER_RELEASE, patchlevel := int pl, status_tag := tag\<rparr>)"
    for v using tag tail assms(4) by (simp add: version_patch_def version_status_def NUMBER_show_nat)
  have mic: "version_micro v (CHR ''.'' # show_nat mc @ CHR ''.'' # show_nat pl @ tail) =
      Some (v\<lparr>micro := int mc, status := VER_RELEASE, patchlevel := int pl, status_tag := tag\<rparr>)" for v
    using patch assms(3) by (simp add: version_micro_def DOT_def NUMBER_show_nat)
  show ?thesis
    using no_prefix assms(1,2) mic
    by (simp add: tor_version_parse_def version_text_def tail_def [symmetric] NUMBER_show_nat DOT_def empty_version_def)
qed

text \<open>
  Version round trip: the text of a release version (four numbers and an optional tag, with or
  without the prefix that platform lines have) parses to exactly these parts.
\<close>

theorem tor_version_roundtrip:
  assumes "int mj \<le> INT32_MAX" "int mn \<le> INT32_MAX" "int mc \<le> INT32_MAX" "int pl \<le> INT32_MAX"
    "tag = [] \<or> word tag" "length tag < MAX_STATUS_TAG_LEN"
  shows "\<exists>v. tor_version_parse (version_text mj mn mc pl tag) = Some v \<and>
    tor_version_parse (''Tor '' @ version_text mj mn mc pl tag) = Some v \<and>
    major v = int mj \<and> minor v = int mn \<and> micro v = int mc \<and> patchlevel v = int pl \<and> status_tag v = tag \<and>
    status v = VER_RELEASE \<and> svn_revision v = 0 \<and> git_tag_len v = 0"
proof -
  let ?t = "version_text mj mn mc pl tag"
  have "\<not> strcasecmpstart_eq ?t ''Tor ''" using version_text_no_prefix by blast
  then have "tor_version_parse (''Tor '' @ ?t) = tor_version_parse ?t"
    by (simp add: tor_version_parse_def strcasecmpstart_eq_def)
  then show ?thesis using tor_version_parse_text [OF assms] by (simp add: empty_version_def)
qed

theorem tor_version_roundtrip_witness:
  "\<exists>v. tor_version_parse ''0.4.6.5-alpha'' = Some v \<and> micro v = 6 \<and> status_tag v = ''alpha''"
  using tor_version_roundtrip [of 0 4 6 5 "''alpha''"]
  by (auto simp: version_text_def word_def ends_word_def is_blank_def NL_def INT32_MAX_def MAX_STATUS_TAG_LEN_def
      demo_digits)

theorem tor_version_compare_lex_witness:
  "\<exists>a b. tor_version_parse ''0.4.6.5'' = Some a \<and> tor_version_parse ''0.4.6.5-alpha'' = Some b \<and>
     tor_version_compare a b < 0"
proof -
  define a where "a = empty_version\<lparr>major := 0, minor := 4, micro := 6, patchlevel := 5, status_tag := []\<rparr>"
  define b where "b = empty_version\<lparr>major := 0, minor := 4, micro := 6, patchlevel := 5, status_tag := ''alpha''\<rparr>"
  have a: "tor_version_parse ''0.4.6.5'' = Some a"
    using tor_version_parse_text [of 0 4 6 5 "[]"]
    by (simp add: version_text_def INT32_MAX_def MAX_STATUS_TAG_LEN_def demo_digits a_def)
  have b: "tor_version_parse ''0.4.6.5-alpha'' = Some b"
    using tor_version_parse_text [of 0 4 6 5 "''alpha''"]
    by (simp add: version_text_def word_def ends_word_def is_blank_def NL_def INT32_MAX_def MAX_STATUS_TAG_LEN_def
        demo_digits b_def)
  have z: "0 \<le> svn_revision a" "0 \<le> svn_revision b" by (simp_all add: a_def b_def empty_version_def)
  have "version_key a < version_key b"
    by (simp add: version_key_def a_def b_def empty_version_def str_key_def git_bytes_def less_prod_def)
  then show ?thesis using tor_version_compare_lex [OF a b z] a b by blast
qed

subsection \<open>The status of a version among the recommended ones\<close>

definition listed_versions :: "string \<Rightarrow> tor_version list" where
  "listed_versions versionlist =
     List.map_filter (\<lambda>cp. tor_version_parse (if starts_with cp ''Tor '' then drop 4 cp else cp))
       (smartlist_split_string (no_split_flags\<lparr>SPLIT_SKIP_SPACE := True\<rparr>) (Some '','') 0 versionlist)"

lemma scan_versions_exact:
  "scan_versions mine sl f =
     (let vs = List.map_filter (\<lambda>cp. tor_version_parse (if starts_with cp ''Tor '' then drop 4 cp else cp)) sl
      in if \<exists>v \<in> set vs. tor_version_compare mine v = 0 then None
         else Some \<lparr>found_newer = (found_newer f \<or> (\<exists>v \<in> set vs. tor_version_compare mine v < 0)),
                 found_older = (found_older f \<or> (\<exists>v \<in> set vs. tor_version_compare mine v > 0)),
                 found_newer_in_series = (found_newer_in_series f \<or>
                   (\<exists>v \<in> set vs. tor_version_same_series mine v \<and> tor_version_compare mine v < 0)),
                 found_any_in_series = (found_any_in_series f \<or> (\<exists>v \<in> set vs. tor_version_same_series mine v))\<rparr>)"
proof (induction mine sl f rule: scan_versions.induct)
  case (2 mine cp sl f)
  show ?case
  proof (cases "tor_version_parse (if starts_with cp ''Tor '' then drop 4 cp else cp)")
    case None
    then show ?thesis using 2(1) by (simp add: map_filter_simps)
  next
    case (Some other)
    consider "tor_version_compare mine other = 0" | "tor_version_compare mine other < 0"
      | "tor_version_compare mine other > 0" by linarith
    then show ?thesis
    proof cases
      case 1
      then show ?thesis using Some by (simp add: map_filter_simps Let_def)
    next
      case n: 2
      then show ?thesis using Some 2(2) [OF Some] by (auto simp: map_filter_simps Let_def)
    next
      case o: 3
      then show ?thesis using Some 2(3) [OF Some] by (auto simp: map_filter_simps Let_def)
    qed
  qed
qed (simp add: map_filter_simps)

text \<open>
  The status of a version in a list of recommended ones: it is recommended when an entry compares
  equal; old when every entry that parses is newer, and new when every one is older; new in its
  series when some entry is newer, the series is listed, and every entry of the series is older.
\<close>

theorem tor_version_is_obsolete_exact:
  assumes "tor_version_parse myversion = Some mine" "versionlist \<noteq> []"
  shows "\<exists>st. tor_version_is_obsolete myversion versionlist = Some st \<and>
    (let vs = set (listed_versions versionlist); newer = \<lambda>v. tor_version_compare mine v < 0;
         older = \<lambda>v. tor_version_compare mine v > 0; same = tor_version_same_series mine
     in (st = VS_RECOMMENDED \<longleftrightarrow> (\<exists>v \<in> vs. tor_version_compare mine v = 0)) \<and>
        (st = VS_OLD \<longleftrightarrow> vs \<noteq> {} \<and> (\<forall>v \<in> vs. newer v)) \<and>
        (st = VS_NEW \<longleftrightarrow> vs \<noteq> {} \<and> (\<forall>v \<in> vs. older v)) \<and>
        (st = VS_NEW_IN_SERIES \<longleftrightarrow>
           (\<forall>v \<in> vs. newer v \<or> older v) \<and> (\<exists>v \<in> vs. newer v) \<and> (\<exists>v \<in> vs. same v) \<and>
           (\<forall>v \<in> vs. same v \<longrightarrow> older v)) \<and>
        st \<noteq> VS_EMPTY)"
proof -
  define vs where "vs = set (listed_versions versionlist)"
  let ?c = "tor_version_compare mine"
  show ?thesis
  proof (cases "\<exists>v \<in> vs. ?c v = 0")
    case True
    then have "tor_version_is_obsolete myversion versionlist = Some VS_RECOMMENDED"
      using assms unfolding vs_def listed_versions_def
      by (simp add: tor_version_is_obsolete_def scan_versions_exact)
    then show ?thesis using True unfolding vs_def [symmetric] Let_def by fastforce
  next
    case False
    then have nz: "?c v < 0 \<or> ?c v > 0" if "v \<in> vs" for v using that by (metis less_linear)
    define st where "st = (if (\<exists>v \<in> vs. tor_version_same_series mine v) \<and>
        \<not> (\<exists>v \<in> vs. tor_version_same_series mine v \<and> ?c v < 0) \<and> (\<exists>v \<in> vs. ?c v < 0) then VS_NEW_IN_SERIES
      else if (\<exists>v \<in> vs. ?c v < 0) \<and> \<not> (\<exists>v \<in> vs. ?c v > 0) then VS_OLD
      else if (\<exists>v \<in> vs. ?c v > 0) \<and> \<not> (\<exists>v \<in> vs. ?c v < 0) then VS_NEW
      else VS_UNRECOMMENDED)"
    have "tor_version_is_obsolete myversion versionlist = Some st"
      using assms False unfolding vs_def listed_versions_def st_def
      by (simp add: tor_version_is_obsolete_def scan_versions_exact)
    moreover have "st = VS_NEW_IN_SERIES \<longleftrightarrow> (\<forall>v \<in> vs. ?c v < 0 \<or> ?c v > 0) \<and> (\<exists>v \<in> vs. ?c v < 0) \<and>
        (\<exists>v \<in> vs. tor_version_same_series mine v) \<and> (\<forall>v \<in> vs. tor_version_same_series mine v \<longrightarrow> ?c v > 0)"
      using nz unfolding st_def by (auto split: if_splits)
    moreover have "st = VS_OLD \<longleftrightarrow> vs \<noteq> {} \<and> (\<forall>v \<in> vs. ?c v < 0)"
      "st = VS_NEW \<longleftrightarrow> vs \<noteq> {} \<and> (\<forall>v \<in> vs. ?c v > 0)" "st \<noteq> VS_RECOMMENDED" "st \<noteq> VS_EMPTY"
      using nz unfolding st_def by (auto split: if_splits) (metis less_asym)+
    ultimately show ?thesis using False unfolding vs_def [symmetric] Let_def by blast
  qed
qed

theorem tor_version_is_obsolete_witness:
  "tor_version_is_obsolete ''0.4.6.5'' ''0.4.5.9,Tor 0.4.6.6,x'' \<noteq> Some VS_RECOMMENDED"
proof -
  obtain mine where m: "tor_version_parse ''0.4.6.5'' = Some mine"
    using tor_version_parse_text [of 0 4 6 5 "[]"]
    by (simp add: version_text_def INT32_MAX_def MAX_STATUS_TAG_LEN_def demo_digits)
  have "list_all (\<lambda>v. tor_version_compare (the (tor_version_parse ''0.4.6.5'')) v \<noteq> 0)
      (listed_versions ''0.4.5.9,Tor 0.4.6.6,x'')" by code_simp
  then have "\<not> (\<exists>v \<in> set (listed_versions ''0.4.5.9,Tor 0.4.6.6,x''). tor_version_compare mine v = 0)"
    by (auto simp: m list_all_iff)
  moreover obtain st where "tor_version_is_obsolete ''0.4.6.5'' ''0.4.5.9,Tor 0.4.6.6,x'' = Some st"
    "st = VS_RECOMMENDED \<longleftrightarrow> (\<exists>v \<in> set (listed_versions ''0.4.5.9,Tor 0.4.6.6,x''). tor_version_compare mine v = 0)"
    using tor_version_is_obsolete_exact [OF m, of "''0.4.5.9,Tor 0.4.6.6,x''"] unfolding Let_def by blast
  ultimately show ?thesis by simp
qed

subsection \<open>Releases that do not declare their protocols\<close>

text \<open>
  Without a version, \<^verbatim>\<open>protover_compute_for_old_tor\<close> means to answer for release 0.2.5.15, but its
  default text lacks the prefix of a platform line, counts as a nonstandard and therefore new
  version, and the answer is the empty list; with the prefix the answer is the list of that release.
\<close>

theorem old_tor_default:
  "protover_compute_for_old_tor None = [] \<and>
   protover_compute_for_old_tor (Some ''Tor 0.2.5.15'') =
     ''Cons=1 Desc=1 DirCache=1 HSDir=1 HSIntro=3 HSRend=1 Link=1-4 LinkAuth=1 Microdesc=1 Relay=1-2''"
  by code_simp

subsection \<open>Summaries of protocol lists\<close>

record protover_summary_flags =
  protocols_known :: bool
  supports_extend2_cells :: bool
  supports_accepting_ipv6_extends :: bool
  supports_initiating_ipv6_extends :: bool
  supports_canonical_ipv6_conns :: bool
  supports_ed25519_link_handshake_compat :: bool
  supports_ed25519_link_handshake_any :: bool
  supports_ed25519_hs_intro :: bool
  supports_establish_intro_dos_extension :: bool
  supports_v3_hsdir :: bool
  supports_v3_rendezvous_point :: bool
  supports_hs_setup_padding :: bool

definition no_summary :: protover_summary_flags where
  "no_summary = \<lparr>protocols_known = False, supports_extend2_cells = False, supports_accepting_ipv6_extends = False,
     supports_initiating_ipv6_extends = False, supports_canonical_ipv6_conns = False,
     supports_ed25519_link_handshake_compat = False, supports_ed25519_link_handshake_any = False,
     supports_ed25519_hs_intro = False, supports_establish_intro_dos_extension = False,
     supports_v3_hsdir = False, supports_v3_rendezvous_point = False, supports_hs_setup_padding = False\<rparr>"

text \<open>The part of \<^verbatim>\<open>memoize_protover_summary\<close> that computes a summary.\<close>

definition protover_summary :: "string \<Rightarrow> protover_summary_flags" where
  "protover_summary protocols =
     (let sup = protocol_list_supports_protocol protocols
      in \<lparr>protocols_known = True,
          supports_extend2_cells = sup PRT_RELAY 2,
          supports_accepting_ipv6_extends = (sup PRT_RELAY 2 \<or> sup PRT_RELAY 3),
          supports_initiating_ipv6_extends = sup PRT_RELAY 3,
          supports_canonical_ipv6_conns = sup PRT_RELAY 3,
          supports_ed25519_link_handshake_compat = sup PRT_LINKAUTH 3,
          supports_ed25519_link_handshake_any = protocol_list_supports_protocol_or_later protocols PRT_LINKAUTH 3,
          supports_ed25519_hs_intro = sup PRT_HSINTRO 4,
          supports_establish_intro_dos_extension = sup PRT_HSINTRO 5,
          supports_v3_hsdir = sup PRT_HSDIR 2,
          supports_v3_rendezvous_point = sup PRT_HSREND 2,
          supports_hs_setup_padding = sup PRT_PADDING 2\<rparr>)"

type_synonym summary_map = "(string \<times> protover_summary_flags) list option"

definition MAX_PROTOVER_SUMMARY_MAP_LEN :: nat where "MAX_PROTOVER_SUMMARY_MAP_LEN = 1024"

definition protover_summary_cache_free_all :: "summary_map \<Rightarrow> summary_map" where
  "protover_summary_cache_free_all m = None"

text \<open>The summary and the new map; \<open>None\<close> when the assertion on a cached entry fails.\<close>

definition memoize_protover_summary ::
  "string \<Rightarrow> summary_map \<Rightarrow> (protover_summary_flags \<times> summary_map) option" where
  "memoize_protover_summary protocols m0 =
     (let m1 = (case m0 of None \<Rightarrow> [] | Some m \<Rightarrow> m);
          m = (if length m1 \<ge> MAX_PROTOVER_SUMMARY_MAP_LEN
               then (case protover_summary_cache_free_all (Some m1) of None \<Rightarrow> [] | Some m \<Rightarrow> m) else m1)
      in case map_of m protocols of
           Some cached \<Rightarrow> if protocols_known cached then Some (cached, Some m) else None
         | None \<Rightarrow> let r = protover_summary protocols in Some (r, Some ((protocols, r) # m)))"

definition summarize_protover_flags ::
  "string option \<Rightarrow> string option \<Rightarrow> summary_map \<Rightarrow> (protover_summary_flags \<times> summary_map) option" where
  "summarize_protover_flags protocols version m0 =
     (case (case protocols of
              None \<Rightarrow> Some (no_summary, m0)
            | Some p \<Rightarrow> if p = [] then Some (no_summary, m0) else memoize_protover_summary p m0) of
        None \<Rightarrow> None
      | Some (r, m1) \<Rightarrow>
          (case version of
             None \<Rightarrow> Some (r, m1)
           | Some v \<Rightarrow>
               if v = [] \<or> \<not> starts_with v ''Tor '' then Some (r, m1)
               else if \<not> protocols_known r then
                 Some (r\<lparr>supports_extend2_cells := tor_version_as_new_as v ''0.2.4.8-alpha'',
                         protocols_known := True\<rparr>, m1)
               else if \<not> tor_version_as_new_as v ''0.3.0.8'' then Some (r\<lparr>supports_v3_hsdir := False\<rparr>, m1)
               else Some (r, m1)))"

text \<open>
  A memoised function: a table that always answers with the value of the function it caches and
  keeps its invariant. Any sequence of requests then gives the function's values.
\<close>

locale memoised =
  fixes inv :: "'c \<Rightarrow> bool" and ask :: "'k \<Rightarrow> 'c \<Rightarrow> ('v \<times> 'c) option" and f :: "'k \<Rightarrow> 'v"
  assumes ask_value: "inv c \<Longrightarrow> \<exists>c'. ask k c = Some (f k, c') \<and> inv c'"
begin

primrec ask_all :: "'k list \<Rightarrow> 'c \<Rightarrow> ('v list \<times> 'c) option" where
  "ask_all [] c = Some ([], c)"
| "ask_all (k # ks) c =
     (case ask k c of None \<Rightarrow> None
      | Some (v, c1) \<Rightarrow> (case ask_all ks c1 of None \<Rightarrow> None | Some (vs, c2) \<Rightarrow> Some (v # vs, c2)))"

lemma ask_all_values: "inv c \<Longrightarrow> \<exists>c'. ask_all ks c = Some (map f ks, c') \<and> inv c'"
proof (induction ks arbitrary: c)
  case (Cons k ks)
  obtain c1 where c1: "ask k c = Some (f k, c1)" "inv c1" using ask_value [OF Cons.prems] by blast
  then show ?case using Cons.IH [OF c1(2)] by auto
qed simp

end

definition summary_map_ok :: "summary_map \<Rightarrow> bool" where
  "summary_map_ok m \<longleftrightarrow> (case m of
     None \<Rightarrow> True
   | Some l \<Rightarrow> length l \<le> MAX_PROTOVER_SUMMARY_MAP_LEN \<and> distinct (map fst l) \<and>
       (\<forall>(p, r) \<in> set l. r = protover_summary p))"

lemma protocols_known_summary [simp]: "protocols_known (protover_summary p)"
  by (simp add: protover_summary_def Let_def)

lemma memoize_protover_summary_ok:
  assumes "summary_map_ok m"
  shows "\<exists>m'. memoize_protover_summary p m = Some (protover_summary p, m') \<and> summary_map_ok m'"
proof -
  define m1 where "m1 = (let l = (case m of None \<Rightarrow> [] | Some l \<Rightarrow> l)
    in if length l \<ge> MAX_PROTOVER_SUMMARY_MAP_LEN then [] else l)"
  have ok: "length m1 < MAX_PROTOVER_SUMMARY_MAP_LEN" "distinct (map fst m1)" "\<forall>(p, r) \<in> set m1. r = protover_summary p"
    using assms by (auto simp: m1_def summary_map_ok_def MAX_PROTOVER_SUMMARY_MAP_LEN_def split: option.splits)
  have eq: "memoize_protover_summary p m = (case map_of m1 p of
      Some cached \<Rightarrow> if protocols_known cached then Some (cached, Some m1) else None
    | None \<Rightarrow> Some (protover_summary p, Some ((p, protover_summary p) # m1)))"
    unfolding memoize_protover_summary_def m1_def protover_summary_cache_free_all_def Let_def by simp
  show ?thesis
  proof (cases "map_of m1 p")
    case None
    then have "p \<notin> fst ` set m1" by (simp add: map_of_eq_None_iff)
    then have "summary_map_ok (Some ((p, protover_summary p) # m1))" using ok by (simp add: summary_map_ok_def)
    then show ?thesis using None eq by simp
  next
    case (Some r)
    then have "r = protover_summary p" using ok(3) map_of_SomeD by fastforce
    then show ?thesis using Some ok eq by (auto simp: summary_map_ok_def)
  qed
qed

interpretation summaries: memoised summary_map_ok memoize_protover_summary protover_summary
  by unfold_locales (rule memoize_protover_summary_ok)

text \<open>The summary of a relay computed without a cache.\<close>

definition protover_flags_of :: "string option \<times> string option \<Rightarrow> protover_summary_flags" where
  "protover_flags_of pv =
     (let r = (case fst pv of None \<Rightarrow> no_summary | Some p \<Rightarrow> if p = [] then no_summary else protover_summary p)
      in case snd pv of
           None \<Rightarrow> r
         | Some v \<Rightarrow>
             if v = [] \<or> \<not> starts_with v ''Tor '' then r
             else if \<not> protocols_known r then
               r\<lparr>supports_extend2_cells := tor_version_as_new_as v ''0.2.4.8-alpha'', protocols_known := True\<rparr>
             else if \<not> tor_version_as_new_as v ''0.3.0.8'' then r\<lparr>supports_v3_hsdir := False\<rparr>
             else r)"

lemma summarize_protover_flags_ok:
  assumes "summary_map_ok m"
  shows "\<exists>m'. summarize_protover_flags p v m = Some (protover_flags_of (p, v), m') \<and> summary_map_ok m'"
proof -
  define r where "r = (case p of None \<Rightarrow> no_summary | Some p \<Rightarrow> if p = [] then no_summary else protover_summary p)"
  obtain m1 where m1: "(case p of None \<Rightarrow> Some (no_summary, m)
      | Some p \<Rightarrow> if p = [] then Some (no_summary, m) else memoize_protover_summary p m) = Some (r, m1)" "summary_map_ok m1"
  proof (cases "p = None \<or> p = Some []")
    case True
    then show ?thesis using that [of m] assms by (auto simp: r_def)
  next
    case False
    then obtain q where "p = Some q" "q \<noteq> []" by auto
    then show ?thesis using summaries.ask_value [OF assms, of q] that by (auto simp: r_def)
  qed
  have "summarize_protover_flags p v m = Some (protover_flags_of (p, v), m1)"
    unfolding summarize_protover_flags_def m1(1) protover_flags_of_def by (simp add: r_def Let_def split: option.split)
  then show ?thesis using m1(2) by blast
qed

interpretation flags: memoised summary_map_ok "\<lambda>(p, v). summarize_protover_flags p v" protover_flags_of
  using summarize_protover_flags_ok by unfold_locales (simp split: prod.split)

text \<open>
  C25. The cache of protocol summaries is transparent: from any map that earlier calls left, a summary
  succeeds, is the one computed afresh, and the map keeps its bound of 1024 distinct and correct
  entries.
\<close>

theorem summarize_protover_flags_exact:
  assumes "summary_map_ok m"
  shows "\<exists>m'. summarize_protover_flags p v m = Some (protover_flags_of (p, v), m') \<and> summary_map_ok m'"
  using flags.ask_value [OF assms, of "(p, v)"] by simp

theorem summarize_protover_flags_exact_witness:
  "\<exists>m'. summarize_protover_flags (Some ''Relay=1-2'') None None =
     Some (protover_flags_of (Some ''Relay=1-2'', None), m') \<and> summary_map_ok m'"
  using summarize_protover_flags_exact [of None] by (simp add: summary_map_ok_def)

end
