(* ===== verification/Smartlist.thy ===== *)
theory Smartlist
  imports Prelude "HOL-Library.Multiset"
begin

text \<open>
  Searching and priority queues on smartlists, \<^verbatim>\<open>src/BADNET/src/lib/container/smartlist.c\<close>. A smartlist is
  the list of its used entries; the comparison function is an argument. A failed assertion or an
  access outside the list is \<open>None\<close>.
\<close>

subsection \<open>Binary search\<close>

definition bsearch_finish ::
  "('k \<Rightarrow> 'a \<Rightarrow> int) \<Rightarrow> 'k \<Rightarrow> 'a list \<Rightarrow> int \<Rightarrow> int \<Rightarrow> (bool \<times> int) option" where
  "bsearch_finish compare key sl lo hi =
     (let len = int (length sl)
      in if lo \<noteq> hi + 1 \<or> lo < 0 \<or> lo > len \<or> hi < 0 \<or> hi > len then None
         else if lo < len then
           (case arr_get sl lo of
              None \<Rightarrow> None
            | Some x \<Rightarrow> if compare key x < 0 then Some (False, lo) else None)
         else
           (case arr_get sl (len - 1) of
              None \<Rightarrow> None
            | Some x \<Rightarrow> if compare key x > 0 then Some (False, lo) else None))"

function bsearch_loop ::
  "('k \<Rightarrow> 'a \<Rightarrow> int) \<Rightarrow> 'k \<Rightarrow> 'a list \<Rightarrow> int \<Rightarrow> int \<Rightarrow> (bool \<times> int) option" where
  "bsearch_loop compare key sl lo hi =
     (if lo \<le> hi then
        (let mid = lo + c_div (hi - lo) 2
         in case arr_get sl mid of
              None \<Rightarrow> None
            | Some x \<Rightarrow>
                let cmp = compare key x
                in if cmp = 0 then Some (True, mid)
                   else if cmp > 0 then
                     (if mid < int (length sl) then bsearch_loop compare key sl (mid + 1) hi else None)
                   else if mid > 0 then bsearch_loop compare key sl lo (mid - 1)
                   else if mid = lo \<and> mid = 0 then Some (False, 0) else None)
      else bsearch_finish compare key sl lo hi)"
  by pat_completeness auto
termination
  by (relation "measure (\<lambda>(c, k, sl, lo, hi). nat (hi - lo + 1))") auto

declare bsearch_loop.simps [simp del]

definition smartlist_bsearch_idx :: "('k \<Rightarrow> 'a \<Rightarrow> int) \<Rightarrow> 'k \<Rightarrow> 'a list \<Rightarrow> (bool \<times> int) option" where
  "smartlist_bsearch_idx compare key sl =
     (if length sl = 0 then Some (False, 0) else bsearch_loop compare key sl 0 (int (length sl) - 1))"

text \<open>The entry that is found, if any.\<close>

definition smartlist_bsearch :: "('k \<Rightarrow> 'a \<Rightarrow> int) \<Rightarrow> 'k \<Rightarrow> 'a list \<Rightarrow> 'a option option" where
  "smartlist_bsearch compare key sl =
     (case smartlist_bsearch_idx compare key sl of
        None \<Rightarrow> None
      | Some (found, idx) \<Rightarrow>
          if found then (case arr_get sl idx of None \<Rightarrow> None | Some x \<Rightarrow> Some (Some x)) else Some None)"

text \<open>
  What the search knows: the entry before \<open>lo\<close>, if \<open>lo\<close> has moved, is below the key, and the one after
  \<open>hi\<close>, if \<open>hi\<close> has moved, is above it. This holds for any list, sorted or not.
\<close>

definition bsearch_inv :: "('k \<Rightarrow> 'a \<Rightarrow> int) \<Rightarrow> 'k \<Rightarrow> 'a list \<Rightarrow> int \<Rightarrow> int \<Rightarrow> bool" where
  "bsearch_inv compare key sl lo hi \<longleftrightarrow>
     0 \<le> lo \<and> lo \<le> hi + 1 \<and> 0 \<le> hi \<and> hi < int (length sl) \<and>
     (lo > 0 \<longrightarrow> compare key (sl ! nat (lo - 1)) > 0) \<and>
     (hi < int (length sl) - 1 \<longrightarrow> compare key (sl ! nat (hi + 1)) < 0)"

lemma bsearch_loop_total:
  "bsearch_inv compare key sl lo hi \<Longrightarrow>
   \<exists>found idx. bsearch_loop compare key sl lo hi = Some (found, idx) \<and> 0 \<le> idx \<and> idx \<le> int (length sl) \<and>
     (found \<longrightarrow> idx < int (length sl) \<and> compare key (sl ! nat idx) = 0) \<and>
     (\<not> found \<longrightarrow> (idx > 0 \<longrightarrow> compare key (sl ! nat (idx - 1)) > 0) \<and>
        (idx < int (length sl) \<longrightarrow> compare key (sl ! nat idx) < 0))"
proof (induction compare key sl lo hi rule: bsearch_loop.induct)
  case (1 compare key sl lo hi)
  note inv = 1(3)
  show ?case
  proof (cases "lo \<le> hi")
    case True
    define mid where "mid = lo + (hi - lo) div 2"
    have mid: "lo + c_div (hi - lo) 2 = mid" "lo \<le> mid" "mid \<le> hi" "0 \<le> mid" "mid < int (length sl)"
      using True inv by (auto simp: mid_def bsearch_inv_def)
    then have x: "arr_get sl mid = Some (sl ! nat mid)" by (simp add: arr_get_def)
    consider "compare key (sl ! nat mid) = 0" | "compare key (sl ! nat mid) > 0" | "compare key (sl ! nat mid) < 0" by linarith
    then show ?thesis
    proof cases
      case eq: 1
      then show ?thesis using True mid x by (auto simp: bsearch_loop.simps [of compare key sl lo hi])
    next
      case 2
      then have step: "bsearch_loop compare key sl lo hi = bsearch_loop compare key sl (mid + 1) hi"
        using True mid x by (simp add: bsearch_loop.simps [of compare key sl lo hi])
      have "bsearch_inv compare key sl (mid + 1) hi" using inv mid 2 by (auto simp: bsearch_inv_def)
      then show ?thesis using 1(1) [OF True mid(1) [symmetric] x refl] 2 mid unfolding step by auto
    next
      case 3
      show ?thesis
      proof (cases "mid > 0")
        case pos: True
        then have step: "bsearch_loop compare key sl lo hi = bsearch_loop compare key sl lo (mid - 1)"
          using True mid x 3 by (simp add: bsearch_loop.simps [of compare key sl lo hi])
        have "bsearch_inv compare key sl lo (mid - 1)" using inv mid 3 pos by (auto simp: bsearch_inv_def)
        then show ?thesis using 1(2) [OF True mid(1) [symmetric] x refl] 3 pos unfolding step by auto
      next
        case False
        then have z: "mid = 0" "mid = lo" using mid inv by (auto simp: bsearch_inv_def)
        have "bsearch_loop compare key sl lo hi = Some (False, 0)"
          using True mid(1) x 3 z by (subst bsearch_loop.simps) (simp add: Let_def)
        then show ?thesis using 3 z by auto
      qed
    qed
  next
    case False
    then have eq: "lo = hi + 1" "bsearch_loop compare key sl lo hi = bsearch_finish compare key sl lo hi"
      using inv by (auto simp: bsearch_loop.simps [of compare key sl lo hi] bsearch_inv_def)
    show ?thesis
    proof (cases "lo < int (length sl)")
      case True
      then show ?thesis using eq inv unfolding eq(2) by (auto simp: bsearch_finish_def bsearch_inv_def arr_get_def)
    next
      case False
      then have lo: "lo = int (length sl)" "0 < length sl" "compare key (sl ! nat (lo - 1)) > 0"
        using eq inv by (auto simp: bsearch_inv_def)
      then have "bsearch_finish compare key sl lo hi = Some (False, lo)"
        using eq(1) inv by (auto simp: bsearch_finish_def bsearch_inv_def arr_get_def Let_def)
      then show ?thesis using lo unfolding eq(2) by auto
    qed
  qed
qed

lemma smartlist_bsearch_idx_total:
  "\<exists>found idx. smartlist_bsearch_idx compare key sl = Some (found, idx) \<and> 0 \<le> idx \<and> idx \<le> int (length sl) \<and>
     (found \<longrightarrow> idx < int (length sl) \<and> compare key (sl ! nat idx) = 0) \<and>
     (\<not> found \<longrightarrow> (idx > 0 \<longrightarrow> compare key (sl ! nat (idx - 1)) > 0) \<and>
        (idx < int (length sl) \<longrightarrow> compare key (sl ! nat idx) < 0))"
proof (cases "sl = []")
  case False
  then have "bsearch_inv compare key sl 0 (int (length sl) - 1)" by (cases sl) (auto simp: bsearch_inv_def)
  then show ?thesis using bsearch_loop_total False by (fastforce simp: smartlist_bsearch_idx_def)
qed (auto simp: smartlist_bsearch_idx_def)

text \<open>The list is sorted for the key: entries below it, then equal ones, then those above.\<close>

definition sorted_for :: "('k \<Rightarrow> 'a \<Rightarrow> int) \<Rightarrow> 'k \<Rightarrow> 'a list \<Rightarrow> bool" where
  "sorted_for compare key sl \<longleftrightarrow> sorted_wrt (\<lambda>a b. sgn (compare key b) \<le> sgn (compare key a)) sl"

lemma sorted_for_nth:
  assumes "sorted_for compare key sl" "i < j" "j < length sl"
  shows "compare key (sl ! i) < 0 \<Longrightarrow> compare key (sl ! j) < 0"
    "compare key (sl ! j) > 0 \<Longrightarrow> compare key (sl ! i) > 0"
  using assms by (auto simp: sorted_for_def sorted_wrt_iff_nth_less sgn_if split: if_splits)
    (smt (verit))+

lemma bsearch_sorted:
  assumes "sorted_for compare key sl" "smartlist_bsearch_idx compare key sl = Some (found, idx)"
  shows "found \<longleftrightarrow> (\<exists>x \<in> set sl. compare key x = 0)"
    "\<not> found \<Longrightarrow> (\<forall>i < nat idx. compare key (sl ! i) > 0) \<and> (\<forall>i. nat idx \<le> i \<and> i < length sl \<longrightarrow> compare key (sl ! i) < 0)"
proof -
  have r: "0 \<le> idx" "idx \<le> int (length sl)" "found \<Longrightarrow> idx < int (length sl) \<and> compare key (sl ! nat idx) = 0"
    "\<not> found \<Longrightarrow> idx > 0 \<Longrightarrow> compare key (sl ! nat (idx - 1)) > 0"
    "\<not> found \<Longrightarrow> idx < int (length sl) \<Longrightarrow> compare key (sl ! nat idx) < 0"
    using smartlist_bsearch_idx_total [of compare key sl] assms(2) by auto
  show split: "(\<forall>i < nat idx. compare key (sl ! i) > 0) \<and> (\<forall>i. nat idx \<le> i \<and> i < length sl \<longrightarrow> compare key (sl ! i) < 0)"
    if nf: "\<not> found"
  proof (intro conjI allI impI; (elim conjE)?)
    fix i assume i: "i < nat idx"
    then have "nat (idx - 1) < length sl" "i < nat (idx - 1) \<or> i = nat (idx - 1)" using r(2) by auto
    then show "compare key (sl ! i) > 0" using r(4) [OF nf] i sorted_for_nth(2) [OF assms(1)] by (metis nat_0_iff not_less0 not_le)
  next
    fix i assume i: "nat idx \<le> i" "i < length sl"
    then have "i = nat idx \<or> nat idx < i" "idx < int (length sl)" using r(1) by auto
    then show "compare key (sl ! i) < 0" using r(5) [OF nf] i sorted_for_nth(1) [OF assms(1)] by metis
  qed
  show "found \<longleftrightarrow> (\<exists>x \<in> set sl. compare key x = 0)"
  proof
    assume found
    then have "nat idx < length sl" "compare key (sl ! nat idx) = 0" using r(1,3) by auto
    then show "\<exists>x \<in> set sl. compare key x = 0" using nth_mem by blast
  next
    assume "\<exists>x \<in> set sl. compare key x = 0"
    then obtain i where "i < length sl" "compare key (sl ! i) = 0" by (auto simp: in_set_conv_nth)
    then show found using split by (metis less_irrefl linorder_not_le)
  qed
qed

text \<open>
  C16. Binary search. For any list and comparison function the search returns: no assertion fails and
  no entry outside the list is read. On a list sorted for the key it finds an equal entry exactly
  when there is one; otherwise the index it returns is where the key belongs.
\<close>

theorem smartlist_bsearch_correct:
  "\<exists>found idx. smartlist_bsearch_idx compare key sl = Some (found, idx) \<and>
     (found \<longrightarrow> 0 \<le> idx \<and> idx < int (length sl) \<and> compare key (sl ! nat idx) = 0) \<and>
     (sorted_for compare key sl \<longrightarrow>
        (found \<longleftrightarrow> (\<exists>x \<in> set sl. compare key x = 0)) \<and>
        (\<not> found \<longrightarrow> (\<forall>i < nat idx. compare key (sl ! i) > 0) \<and>
           (\<forall>i. nat idx \<le> i \<and> i < length sl \<longrightarrow> compare key (sl ! i) < 0)))"
  using smartlist_bsearch_idx_total [of compare key sl] bsearch_sorted [of compare key sl] by blast

theorem smartlist_bsearch_correct_witness:
  "\<exists>idx. smartlist_bsearch_idx (\<lambda>k x. k - x) 7 [1, 3, 7, 9 :: int] = Some (True, idx) \<and>
     [1, 3, 7, 9 :: int] ! nat idx = 7"
proof -
  have s: "sorted_for (\<lambda>k x. k - x) 7 [1, 3, 7, 9 :: int]" by (simp add: sorted_for_def)
  show ?thesis
    using smartlist_bsearch_correct [of "\<lambda>k x. k - x" 7 "[1, 3, 7, 9 :: int]"] s by fastforce
qed

subsection \<open>Priority queues\<close>

text \<open>
  A heap in a smartlist; every item stores its own position, which is the function \<open>idx_of\<close>. Positions
  are natural numbers; the position -1 of an item that is not in the queue is an integer.
\<close>

record 'a pqueue =
  items :: "'a list"
  idx_of :: "'a \<Rightarrow> int"

definition MAX_PARENT_IDX :: nat where "MAX_PARENT_IDX = (2147483647 - 2) div 2"

abbreviation PARENT :: "nat \<Rightarrow> nat" where "PARENT i \<equiv> (i - 1) div 2"

definition UPDATE_IDX :: "nat \<Rightarrow> 'a pqueue \<Rightarrow> 'a pqueue" where
  "UPDATE_IDX i q = q\<lparr>idx_of := (idx_of q)(items q ! i := int i)\<rparr>"

definition swap_items :: "nat \<Rightarrow> nat \<Rightarrow> 'a pqueue \<Rightarrow> 'a pqueue" where
  "swap_items i j q =
     UPDATE_IDX j (UPDATE_IDX i (q\<lparr>items := (items q)[i := items q ! j, j := items q ! i]\<rparr>))"

text \<open>The better of an entry and its children.\<close>

definition best_idx :: "('a \<Rightarrow> 'a \<Rightarrow> int) \<Rightarrow> 'a list \<Rightarrow> nat \<Rightarrow> nat" where
  "best_idx compare sl idx =
     (let left_idx = 2 * idx + 1;
          best = (if compare (sl ! idx) (sl ! left_idx) < 0 then idx else left_idx)
      in if left_idx + 1 < length sl \<and> compare (sl ! (left_idx + 1)) (sl ! best) < 0 then left_idx + 1 else best)"

lemma best_idx_cases: "best_idx compare sl idx \<in> {idx, 2 * idx + 1, 2 * idx + 2}"
  by (simp add: best_idx_def Let_def)

lemma length_swap_items [simp]: "length (items (swap_items i j q)) = length (items q)"
  by (simp add: swap_items_def UPDATE_IDX_def)

function smartlist_heapify :: "('a \<Rightarrow> 'a \<Rightarrow> int) \<Rightarrow> nat \<Rightarrow> 'a pqueue \<Rightarrow> 'a pqueue" where
  "smartlist_heapify compare idx q =
     (if \<not> idx \<le> MAX_PARENT_IDX then q
      else if 2 * idx + 1 \<ge> length (items q) then q
      else let best = best_idx compare (items q) idx
           in if best = idx then q else smartlist_heapify compare best (swap_items idx best q))"
  by pat_completeness auto
termination
proof (relation "measure (\<lambda>(c, idx, q). length (items q) - idx)", goal_cases)
  case (2 compare idx q best)
  then show ?case using best_idx_cases [of compare "items q" idx] by auto
qed simp

declare smartlist_heapify.simps [simp del]

function pqueue_up :: "('a \<Rightarrow> 'a \<Rightarrow> int) \<Rightarrow> nat \<Rightarrow> 'a pqueue \<Rightarrow> 'a pqueue" where
  "pqueue_up compare idx q =
     (if idx = 0 then q
      else if compare (items q ! idx) (items q ! PARENT idx) < 0
           then pqueue_up compare (PARENT idx) (swap_items (PARENT idx) idx q)
      else q)"
  by pat_completeness auto
termination
  by (relation "measure (\<lambda>(c, idx, q). idx)") auto

declare pqueue_up.simps [simp del]

definition smartlist_pqueue_add :: "('a \<Rightarrow> 'a \<Rightarrow> int) \<Rightarrow> 'a \<Rightarrow> 'a pqueue \<Rightarrow> 'a pqueue" where
  "smartlist_pqueue_add compare item q =
     (let n = length (items q)
      in pqueue_up compare n (UPDATE_IDX n (q\<lparr>items := items q @ [item]\<rparr>)))"

definition smartlist_pqueue_pop :: "('a \<Rightarrow> 'a \<Rightarrow> int) \<Rightarrow> 'a pqueue \<Rightarrow> ('a \<times> 'a pqueue) option" where
  "smartlist_pqueue_pop compare q =
     (if items q = [] then None
      else let t = items q ! 0;
               q1 = q\<lparr>idx_of := (idx_of q)(t := -1)\<rparr>;
               n = length (items q) - 1
           in Some (t, if n \<noteq> 0 then
                         smartlist_heapify compare 0 (UPDATE_IDX 0 (q1\<lparr>items := (take n (items q))[0 := items q ! n]\<rparr>))
                       else q1\<lparr>items := []\<rparr>))"

definition smartlist_pqueue_remove :: "('a \<Rightarrow> 'a \<Rightarrow> int) \<Rightarrow> 'a \<Rightarrow> 'a pqueue \<Rightarrow> 'a pqueue option" where
  "smartlist_pqueue_remove compare item q =
     (if idx_of q item < 0 \<or> arr_get (items q) (idx_of q item) \<noteq> Some item then None
      else let idx = nat (idx_of q item);
               n = length (items q) - 1;
               q1 = q\<lparr>idx_of := (idx_of q)(item := -1)\<rparr>
           in Some (if idx = n then q1\<lparr>items := take n (items q)\<rparr>
                    else smartlist_heapify compare idx
                           (UPDATE_IDX idx (q1\<lparr>items := (take n (items q))[idx := items q ! n]\<rparr>))))"

text \<open>\<^verbatim>\<open>smartlist_pqueue_assert_ok\<close>: that no assertion fails.\<close>

definition smartlist_pqueue_assert_ok :: "('a \<Rightarrow> 'a \<Rightarrow> int) \<Rightarrow> 'a pqueue \<Rightarrow> bool" where
  "smartlist_pqueue_assert_ok compare q \<longleftrightarrow>
     list_all (\<lambda>i. (i > 0 \<longrightarrow> compare (items q ! PARENT i) (items q ! i) \<le> 0) \<and> idx_of q (items q ! i) = int i)
       (rev [0 ..< length (items q)])"

subsection \<open>Comparison functions\<close>

text \<open>What a queue or a sorted list relies on: the signs of the comparison are those of a total preorder.\<close>

locale comparison =
  fixes compare :: "'a \<Rightarrow> 'a \<Rightarrow> int"
  assumes compare_swap: "compare a b < 0 \<longleftrightarrow> compare b a > 0"
    and compare_trans: "compare a b \<le> 0 \<Longrightarrow> compare b c \<le> 0 \<Longrightarrow> compare a c \<le> 0"
begin

lemma compare_refl: "compare a a \<le> 0"
  using compare_swap [of a a] by linarith

lemma not_less: "\<not> compare a b < 0 \<longleftrightarrow> compare b a \<le> 0"
  using compare_swap [of a b] by linarith

lemma best_idx_least:
  assumes "2 * idx + 1 < length xs" "b = best_idx compare xs idx"
  shows "b < length xs" "compare (xs ! b) (xs ! idx) \<le> 0"
    "\<And>i. 0 < i \<Longrightarrow> i < length xs \<Longrightarrow> PARENT i = idx \<Longrightarrow> compare (xs ! b) (xs ! i) \<le> 0"
proof -
  define b0 where "b0 = (if compare (xs ! idx) (xs ! (2 * idx + 1)) < 0 then idx else 2 * idx + 1)"
  have b0: "b0 < length xs" "compare (xs ! b0) (xs ! idx) \<le> 0" "compare (xs ! b0) (xs ! (2 * idx + 1)) \<le> 0"
    using assms(1) not_less compare_refl by (auto simp: b0_def)
  have b: "b = (if 2 * idx + 2 < length xs \<and> compare (xs ! (2 * idx + 2)) (xs ! b0) < 0 then 2 * idx + 2 else b0)"
    using assms(2) by (simp add: best_idx_def b0_def Let_def)
  have le: "compare (xs ! b) (xs ! b0) \<le> 0" using b compare_refl by auto
  show "b < length xs" using b b0 by auto
  show "compare (xs ! b) (xs ! idx) \<le> 0" using compare_trans le b0(2) by blast
  have left: "compare (xs ! b) (xs ! (2 * idx + 1)) \<le> 0" using compare_trans le b0(3) by blast
  have right: "2 * idx + 2 < length xs \<Longrightarrow> compare (xs ! b) (xs ! (2 * idx + 2)) \<le> 0"
    using b not_less compare_refl by auto
  show "compare (xs ! b) (xs ! i) \<le> 0" if "0 < i" "i < length xs" "PARENT i = idx" for i
  proof -
    have "i = 2 * idx + 1 \<or> i = 2 * idx + 2" using that by auto
    then show ?thesis using left right that(2) by auto
  qed
qed

definition is_heap :: "'a list \<Rightarrow> bool" where
  "is_heap xs \<longleftrightarrow> (\<forall>i. 0 < i \<and> i < length xs \<longrightarrow> compare (xs ! PARENT i) (xs ! i) \<le> 0)"

text \<open>A heap but for the children of \<open>k\<close>, and a heap but for \<open>k\<close> and its parent.\<close>

definition heap_below :: "nat \<Rightarrow> 'a list \<Rightarrow> bool" where
  "heap_below k xs \<longleftrightarrow>
     (\<forall>i. 0 < i \<and> i < length xs \<and> PARENT i \<noteq> k \<longrightarrow> compare (xs ! PARENT i) (xs ! i) \<le> 0) \<and>
     (\<forall>i. 0 < k \<and> 0 < i \<and> i < length xs \<and> PARENT i = k \<longrightarrow> compare (xs ! PARENT k) (xs ! i) \<le> 0)"

definition heap_above :: "nat \<Rightarrow> 'a list \<Rightarrow> bool" where
  "heap_above k xs \<longleftrightarrow>
     (\<forall>i. 0 < i \<and> i < length xs \<and> i \<noteq> k \<longrightarrow> compare (xs ! PARENT i) (xs ! i) \<le> 0) \<and>
     (\<forall>i. 0 < k \<and> 0 < i \<and> i < length xs \<and> PARENT i = k \<longrightarrow> compare (xs ! PARENT k) (xs ! i) \<le> 0)"

lemma heap_below_swap:
  assumes "heap_below k xs" "2 * k + 1 < length xs" "b = best_idx compare xs k" "b \<noteq> k"
  shows "heap_below b (xs[k := xs ! b, b := xs ! k])"
proof -
  note best = best_idx_least [OF assms(2,3)]
  have b: "b = 2 * k + 1 \<or> b = 2 * k + 2" "PARENT b = k" "k < length xs" "k < b"
    using best_idx_cases [of compare xs k] assms(2-4) by auto
  let ?ys = "xs[k := xs ! b, b := xs ! k]"
  have ys: "?ys ! k = xs ! b" "?ys ! b = xs ! k" "\<And>i. i \<noteq> k \<Longrightarrow> i \<noteq> b \<Longrightarrow> ?ys ! i = xs ! i"
    using b best(1) by auto
  have below: "compare (xs ! PARENT i) (xs ! i) \<le> 0" if "0 < i" "i < length xs" "PARENT i \<noteq> k" for i
    using assms(1) that by (simp add: heap_below_def)
  show ?thesis
    unfolding heap_below_def
  proof (intro conjI allI impI; elim conjE)
    fix i assume i: "0 < i" "i < length ?ys" "PARENT i \<noteq> b"
    consider "i = k" | "i = b" | "i \<noteq> k" "i \<noteq> b" "PARENT i = k" | "i \<noteq> k" "i \<noteq> b" "PARENT i \<noteq> k" by blast
    then show "compare (?ys ! PARENT i) (?ys ! i) \<le> 0"
    proof cases
      case 1
      then have "PARENT i \<noteq> k" "PARENT i \<noteq> b" using i b(4) by auto
      then show ?thesis using 1 i ys assms(1) best(1) b(1,2) by (auto simp: heap_below_def)
    next
      case 2
      then show ?thesis using ys b(2) best(2) by simp
    next
      case 3
      then show ?thesis using ys best(3) [of i] i by simp
    next
      case 4
      then show ?thesis using ys below [of i] i by simp
    qed
  next
    fix i assume i: "0 < b" "0 < i" "i < length ?ys" "PARENT i = b"
    then have "i \<noteq> k" "i \<noteq> b" "PARENT i \<noteq> k" using b(4) by auto
    then show "compare (?ys ! PARENT b) (?ys ! i) \<le> 0" using ys b(2) below [of i] i by simp
  qed
qed

lemma heap_above_swap:
  assumes "heap_above k xs" "0 < k" "k < length xs" "compare (xs ! k) (xs ! PARENT k) < 0"
  shows "heap_above (PARENT k) (xs[PARENT k := xs ! k, k := xs ! PARENT k])"
proof -
  let ?p = "PARENT k" and ?ys = "xs[PARENT k := xs ! k, k := xs ! PARENT k]"
  have p: "?p < k" using assms(2) by auto
  have ys: "?ys ! ?p = xs ! k" "?ys ! k = xs ! ?p" "\<And>i. i \<noteq> k \<Longrightarrow> i \<noteq> ?p \<Longrightarrow> ?ys ! i = xs ! i"
    using p assms(3) by auto
  have le: "compare (xs ! k) (xs ! ?p) \<le> 0" using assms(4) by simp
  have old: "compare (xs ! PARENT i) (xs ! i) \<le> 0" if "0 < i" "i < length xs" "i \<noteq> k" for i
    using assms(1) that by (simp add: heap_above_def)
  have grand: "compare (xs ! ?p) (xs ! i) \<le> 0" if "0 < i" "i < length xs" "PARENT i = k" for i
    using assms(1,2) that by (simp add: heap_above_def)
  show ?thesis
    unfolding heap_above_def
  proof (intro conjI allI impI; elim conjE)
    fix i assume i: "0 < i" "i < length ?ys" "i \<noteq> ?p"
    consider "i = k" | "i \<noteq> k" "PARENT i = k" | "i \<noteq> k" "PARENT i = ?p" | "i \<noteq> k" "PARENT i \<noteq> k" "PARENT i \<noteq> ?p" by blast
    then show "compare (?ys ! PARENT i) (?ys ! i) \<le> 0"
    proof cases
      case 1
      then show ?thesis using ys le by simp
    next
      case 2
      then show ?thesis using ys grand [of i] i by simp
    next
      case 3
      then show ?thesis using ys old [of i] i compare_trans [OF le] by simp
    next
      case 4
      then show ?thesis using ys old [of i] i by simp
    qed
  next
    fix i assume i: "0 < ?p" "0 < i" "i < length ?ys" "PARENT i = ?p"
    have pp: "PARENT ?p \<noteq> k" "PARENT ?p \<noteq> ?p" using p i(1) by auto
    have up: "compare (xs ! PARENT ?p) (xs ! ?p) \<le> 0" using old [of ?p] i(1) p assms(3) by simp
    show "compare (?ys ! PARENT ?p) (?ys ! i) \<le> 0"
    proof (cases "i = k")
      case True
      then show ?thesis using ys pp up by simp
    next
      case False
      have "i \<noteq> ?p" using pp(2) i(4) by metis
      then have "?ys ! i = xs ! i" "?ys ! PARENT ?p = xs ! PARENT ?p" using ys(3) False pp by blast+
      moreover have "compare (xs ! ?p) (xs ! i) \<le> 0" using old [of i] False i by (metis length_list_update)
      ultimately show ?thesis using compare_trans [OF up] by metis
    qed
  qed
qed

end

subsection \<open>Positions\<close>

definition idx_ok :: "'a pqueue \<Rightarrow> bool" where
  "idx_ok q \<longleftrightarrow> (\<forall>i < length (items q). idx_of q (items q ! i) = int i)"

lemma idx_ok_inj: "idx_ok q \<Longrightarrow> i < length (items q) \<Longrightarrow> j < length (items q) \<Longrightarrow> items q ! i = items q ! j \<Longrightarrow> i = j"
  by (metis idx_ok_def of_nat_eq_iff)

lemma idx_ok_distinct: "idx_ok q \<Longrightarrow> distinct (items q)"
  using idx_ok_inj by (metis distinct_conv_nth)

lemma items_swap: "items (swap_items i j q) = (items q)[i := items q ! j, j := items q ! i]"
  by (simp add: swap_items_def UPDATE_IDX_def)

lemma idx_ok_swap:
  assumes "idx_ok q" "i < length (items q)" "j < length (items q)" "i \<noteq> j"
  shows "idx_ok (swap_items i j q)"
    "x \<notin> set (items q) \<Longrightarrow> idx_of (swap_items i j q) x = idx_of q x"
proof -
  have idx: "idx_of (swap_items i j q) = (idx_of q)(items q ! j := int i, items q ! i := int j)"
    using assms by (simp add: swap_items_def UPDATE_IDX_def)
  show "idx_of (swap_items i j q) x = idx_of q x" if "x \<notin> set (items q)"
    using that assms by (auto simp: idx)
  show "idx_ok (swap_items i j q)"
    unfolding idx_ok_def
  proof (intro allI impI)
    fix k assume k: "k < length (items (swap_items i j q))"
    then have k': "k < length (items q)" by simp
    consider "k = i" | "k = j" | "k \<noteq> i" "k \<noteq> j" by blast
    then show "idx_of (swap_items i j q) (items (swap_items i j q) ! k) = int k"
    proof cases
      case 1
      then show ?thesis using assms idx_ok_inj [OF assms(1-3)] by (auto simp: items_swap idx nth_list_update)
    next
      case 2
      then show ?thesis using assms by (simp add: items_swap idx)
    next
      case 3
      then have "items q ! k \<noteq> items q ! i" "items q ! k \<noteq> items q ! j"
        using idx_ok_inj assms k' by metis+
      then show ?thesis using 3 k' assms(1) by (simp add: items_swap idx idx_ok_def)
    qed
  qed
qed

lemma mset_swap_items:
  "i < length (items q) \<Longrightarrow> j < length (items q) \<Longrightarrow> mset (items (swap_items i j q)) = mset (items q)"
  using mset_swap [of j "items q" i] by (simp add: items_swap)

lemma set_swap_items:
  "i < length (items q) \<Longrightarrow> j < length (items q) \<Longrightarrow> set (items (swap_items i j q)) = set (items q)"
  using mset_swap_items by (metis set_mset_mset)

text \<open>Both loops permute the items and keep the positions right, whatever the comparison says.\<close>

lemma best_idx_bound: "2 * idx + 1 < length xs \<Longrightarrow> best_idx compare xs idx < length xs"
  by (auto simp: best_idx_def Let_def)

lemma heapify_frame:
  assumes "idx_ok q"
  shows "mset (items (smartlist_heapify compare idx q)) = mset (items q) \<and> idx_ok (smartlist_heapify compare idx q) \<and>
    (x \<notin> set (items q) \<longrightarrow> idx_of (smartlist_heapify compare idx q) x = idx_of q x)"
  using assms
proof (induction compare idx q rule: smartlist_heapify.induct)
  case (1 compare idx q)
  let ?b = "best_idx compare (items q) idx"
  show ?case
  proof (cases "idx \<le> MAX_PARENT_IDX \<and> 2 * idx + 1 < length (items q) \<and> ?b \<noteq> idx")
    case True
    then have b: "?b < length (items q)" "idx < length (items q)" using best_idx_bound by auto
    have eq: "smartlist_heapify compare idx q = smartlist_heapify compare ?b (swap_items idx ?b q)"
      using True by (simp add: smartlist_heapify.simps [of compare idx q] Let_def)
    have ok: "idx_ok (swap_items idx ?b q)" using idx_ok_swap(1) 1(2) b True by metis
    show ?thesis
      using 1(1) [OF _ _ refl _ ok] True mset_swap_items [OF b(2,1)] set_swap_items [OF b(2,1)]
        idx_ok_swap(2) [OF 1(2) b(2,1)] unfolding eq by auto
  next
    case False
    then have "smartlist_heapify compare idx q = q" by (auto simp: smartlist_heapify.simps [of compare idx q] Let_def)
    then show ?thesis using 1(2) by simp
  qed
qed

lemma pqueue_up_frame:
  assumes "idx_ok q" "idx < length (items q)"
  shows "mset (items (pqueue_up compare idx q)) = mset (items q) \<and> idx_ok (pqueue_up compare idx q)"
  using assms
proof (induction compare idx q rule: pqueue_up.induct)
  case (1 compare idx q)
  let ?p = "PARENT idx"
  show ?case
  proof (cases "idx \<noteq> 0 \<and> compare (items q ! idx) (items q ! ?p) < 0")
    case True
    then have p: "?p < length (items q)" "?p \<noteq> idx" using 1(3) by auto
    have eq: "pqueue_up compare idx q = pqueue_up compare ?p (swap_items ?p idx q)"
      using True by (simp add: pqueue_up.simps [of compare idx q])
    have ok: "idx_ok (swap_items ?p idx q)" using idx_ok_swap(1) [OF 1(2) p(1) 1(3) p(2)] .
    show ?thesis
      using 1(1) [OF _ _ ok] True p mset_swap_items [OF p(1) 1(3)] unfolding eq by simp
  next
    case False
    then have "pqueue_up compare idx q = q" by (auto simp: pqueue_up.simps [of compare idx q])
    then show ?thesis using 1(2) by simp
  qed
qed

subsection \<open>The operations keep the heap\<close>

text \<open>The largest length of a smartlist.\<close>

definition MAX_CAPACITY :: nat where "MAX_CAPACITY = 2147483647"

definition pqueue_ok :: "('a \<Rightarrow> 'a \<Rightarrow> int) \<Rightarrow> 'a pqueue \<Rightarrow> bool" where
  "pqueue_ok compare q \<longleftrightarrow> smartlist_pqueue_assert_ok compare q \<and> length (items q) \<le> MAX_CAPACITY"

lemma mset_replace_last:
  assumes "i < length xs - 1"
  shows "mset xs = add_mset (xs ! i) (mset ((take (length xs - 1) xs)[i := xs ! (length xs - 1)]))"
proof -
  let ?n = "length xs - 1"
  have xs: "xs = take ?n xs @ [xs ! ?n]" using assms take_Suc_conv_app_nth [of ?n xs] by simp
  have "mset ((take ?n xs)[i := xs ! ?n]) = add_mset (xs ! ?n) (mset (take ?n xs) - {#xs ! i#})"
    using assms by (simp add: mset_update)
  moreover have "xs ! i \<in># mset (take ?n xs)" using assms by (auto simp: in_set_conv_nth intro!: exI [of _ i])
  moreover have "mset xs = add_mset (xs ! ?n) (mset (take ?n xs))" by (subst xs) simp
  ultimately show ?thesis by simp
qed

context comparison
begin

lemma assert_ok_iff: "smartlist_pqueue_assert_ok compare q \<longleftrightarrow> is_heap (items q) \<and> idx_ok q"
  by (auto simp: smartlist_pqueue_assert_ok_def is_heap_def idx_ok_def list_all_iff)

lemma heapify_heap:
  "heap_below idx (items q) \<Longrightarrow> length (items q) \<le> MAX_CAPACITY \<Longrightarrow>
   is_heap (items (smartlist_heapify compare idx q))"
proof (induction "length (items q) - idx" arbitrary: idx q rule: less_induct)
  case less
  note 1 = less
  let ?b = "best_idx compare (items q) idx"
  show ?case
  proof (cases "idx \<le> MAX_PARENT_IDX \<and> 2 * idx + 1 < length (items q)")
    case True
    show ?thesis
    proof (cases "?b = idx")
      case same: True
      then have "smartlist_heapify compare idx q = q"
        using True by (simp add: smartlist_heapify.simps [of compare idx q] Let_def)
      moreover have "compare (items q ! PARENT i) (items q ! i) \<le> 0" if "0 < i" "i < length (items q)" for i
        using that 1(2) best_idx_least(3) [of idx "items q" ?b i] True same
        by (cases "PARENT i = idx") (auto simp: heap_below_def)
      ultimately show ?thesis by (simp add: is_heap_def)
    next
      case False
      then have eq: "smartlist_heapify compare idx q = smartlist_heapify compare ?b (swap_items idx ?b q)"
        using True by (simp add: smartlist_heapify.simps [of compare idx q] Let_def)
      have "heap_below ?b (items (swap_items idx ?b q))"
        using heap_below_swap [OF 1(2) _ refl False] True by (simp add: items_swap)
      moreover have "length (items (swap_items idx ?b q)) - ?b < length (items q) - idx"
        using best_idx_cases [of compare "items q" idx] False True by auto
      ultimately show ?thesis using 1(1) 1(3) unfolding eq by simp
    qed
  next
    case False
    then have "smartlist_heapify compare idx q = q" by (auto simp: smartlist_heapify.simps [of compare idx q] Let_def)
    moreover have "PARENT i \<noteq> idx" if "0 < i" "i < length (items q)" for i
    proof
      assume "PARENT i = idx"
      then have "i = 2 * idx + 1 \<or> i = 2 * idx + 2" using that(1) by auto
      then show False using False that(2) 1(3) by (auto simp: MAX_PARENT_IDX_def MAX_CAPACITY_def)
    qed
    ultimately show ?thesis using 1(2) by (auto simp: is_heap_def heap_below_def)
  qed
qed

lemma pqueue_up_heap:
  "heap_above idx (items q) \<Longrightarrow> idx < length (items q) \<Longrightarrow> is_heap (items (pqueue_up compare idx q))"
proof (induction idx arbitrary: q rule: less_induct)
  case (less idx)
  note 1 = less
  let ?p = "PARENT idx"
  show ?case
  proof (cases "idx \<noteq> 0 \<and> compare (items q ! idx) (items q ! ?p) < 0")
    case True
    then have eq: "pqueue_up compare idx q = pqueue_up compare ?p (swap_items ?p idx q)"
      by (simp add: pqueue_up.simps [of compare idx q])
    have "heap_above ?p (items (swap_items ?p idx q))"
      using heap_above_swap [OF 1(2)] True 1(3) by (simp add: items_swap)
    moreover have "?p < length (items (swap_items ?p idx q))" using 1(3) by simp
    moreover have "?p < idx" using True by auto
    ultimately show ?thesis using 1(1) unfolding eq by blast
  next
    case False
    then have "pqueue_up compare idx q = q" by (auto simp: pqueue_up.simps [of compare idx q])
    moreover have "compare (items q ! PARENT i) (items q ! i) \<le> 0" if "0 < i" "i < length (items q)" for i
      using that 1(2) False not_less [of "items q ! idx" "items q ! ?p"] by (cases "i = idx") (auto simp: heap_above_def)
    ultimately show ?thesis by (simp add: is_heap_def)
  qed
qed

lemma heap_root:
  assumes "is_heap xs" "i < length xs"
  shows "compare (xs ! 0) (xs ! i) \<le> 0"
  using assms(2)
proof (induction i rule: less_induct)
  case (less i)
  show ?case
  proof (cases "i = 0")
    case False
    then have "compare (xs ! 0) (xs ! PARENT i) \<le> 0" using less by auto
    moreover have "compare (xs ! PARENT i) (xs ! i) \<le> 0" using assms(1) False less(2) by (simp add: is_heap_def)
    ultimately show ?thesis by (rule compare_trans)
  qed (simp add: compare_refl)
qed

lemma pqueue_add_ok:
  assumes "pqueue_ok compare q" "x \<notin> set (items q)" "length (items q) < MAX_CAPACITY"
  shows "pqueue_ok compare (smartlist_pqueue_add compare x q)"
    "mset (items (smartlist_pqueue_add compare x q)) = add_mset x (mset (items q))"
proof -
  let ?n = "length (items q)"
  define q1 where "q1 = UPDATE_IDX ?n (q\<lparr>items := items q @ [x]\<rparr>)"
  have h: "is_heap (items q)" "idx_ok q" using assms(1) assert_ok_iff by (auto simp: pqueue_ok_def)
  have items: "items q1 = items q @ [x]" by (simp add: q1_def UPDATE_IDX_def)
  have ok: "idx_ok q1"
    using h(2) assms(2) by (auto simp: idx_ok_def q1_def UPDATE_IDX_def nth_append less_Suc_eq)
  have "heap_above ?n (items q1)"
    unfolding heap_above_def
  proof (intro conjI allI impI; elim conjE)
    fix i assume "0 < i" "i < length (items q1)" "i \<noteq> ?n"
    then show "compare (items q1 ! PARENT i) (items q1 ! i) \<le> 0"
      using h(1) by (auto simp: is_heap_def items nth_append)
  next
    fix i assume "0 < ?n" "0 < i" "i < length (items q1)" "PARENT i = ?n"
    then show "compare (items q1 ! PARENT ?n) (items q1 ! i) \<le> 0" by (auto simp: items)
  qed
  then have "is_heap (items (pqueue_up compare ?n q1))" using pqueue_up_heap items by simp
  moreover have f: "mset (items (pqueue_up compare ?n q1)) = mset (items q1)" "idx_ok (pqueue_up compare ?n q1)"
    using pqueue_up_frame [OF ok, of ?n compare] items by auto
  moreover have "length (items (pqueue_up compare ?n q1)) = Suc ?n"
    using mset_eq_length [OF f(1)] items by simp
  ultimately show "pqueue_ok compare (smartlist_pqueue_add compare x q)"
    "mset (items (smartlist_pqueue_add compare x q)) = add_mset x (mset (items q))"
    using assms(3) items assert_ok_iff
    by (simp_all add: smartlist_pqueue_add_def q1_def [symmetric] pqueue_ok_def Let_def)
qed

end

text \<open>The queue after an item was taken out and the last one put in its place.\<close>

definition replace_by_last :: "nat \<Rightarrow> 'a pqueue \<Rightarrow> 'a pqueue" where
  "replace_by_last i q =
     (let n = length (items q) - 1
      in UPDATE_IDX i (q\<lparr>idx_of := (idx_of q)(items q ! i := -1), items := (take n (items q))[i := items q ! n]\<rparr>))"

lemma replace_by_last_ok:
  assumes "idx_ok q" "i < length (items q) - 1"
  shows "idx_ok (replace_by_last i q)" "mset (items q) = add_mset (items q ! i) (mset (items (replace_by_last i q)))"
    "items q ! i \<notin> set (items (replace_by_last i q))" "idx_of (replace_by_last i q) (items q ! i) = -1"
    "length (items (replace_by_last i q)) = length (items q) - 1"
proof -
  let ?xs = "items q" and ?n = "length (items q) - 1"
  have n: "i < length ?xs" "?n < length ?xs" "i \<noteq> ?n" using assms(2) by auto
  have items: "items (replace_by_last i q) = (take ?n ?xs)[i := ?xs ! ?n]"
    by (simp add: replace_by_last_def UPDATE_IDX_def Let_def)
  have idx: "idx_of (replace_by_last i q) = (idx_of q)(?xs ! i := -1, ?xs ! ?n := int i)"
    using assms(2) by (simp add: replace_by_last_def UPDATE_IDX_def Let_def)
  show ms: "mset ?xs = add_mset (?xs ! i) (mset (items (replace_by_last i q)))"
    unfolding items by (rule mset_replace_last [OF assms(2)])
  show "?xs ! i \<notin> set (items (replace_by_last i q))"
  proof -
    have "distinct ?xs" by (rule idx_ok_distinct [OF assms(1)])
    then have "count (mset ?xs) (?xs ! i) = 1" using n(1) by (simp add: distinct_count_atmost_1)
    then have "count (mset (items (replace_by_last i q))) (?xs ! i) = 0" using ms by simp
    then show ?thesis by (metis count_eq_zero_iff set_mset_mset)
  qed
  show "idx_of (replace_by_last i q) (?xs ! i) = -1"
    using idx_ok_inj [OF assms(1) n(1,2)] n(3) by (auto simp: idx)
  show "length (items (replace_by_last i q)) = ?n" by (simp add: items)
  show "idx_ok (replace_by_last i q)"
    unfolding idx_ok_def
  proof (intro allI impI)
    fix k assume k: "k < length (items (replace_by_last i q))"
    then have k': "k < ?n" by (simp add: items)
    show "idx_of (replace_by_last i q) (items (replace_by_last i q) ! k) = int k"
    proof (cases "k = i")
      case False
      then have "?xs ! k \<noteq> ?xs ! i" "?xs ! k \<noteq> ?xs ! ?n" using idx_ok_inj [OF assms(1)] k' n by (metis less_irrefl less_trans)+
      then show ?thesis using False k' assms(1) by (simp add: items idx idx_ok_def)
    qed (use k' in \<open>simp add: items idx\<close>)
  qed
qed

lemma pqueue_pop_eq:
  assumes "items q \<noteq> []"
  shows "smartlist_pqueue_pop compare q =
    Some (items q ! 0, if length (items q) = 1 then q\<lparr>idx_of := (idx_of q)(items q ! 0 := -1), items := []\<rparr>
                       else smartlist_heapify compare 0 (replace_by_last 0 q))"
proof -
  consider "length (items q) = 1" | "length (items q) - 1 \<noteq> 0" "length (items q) \<noteq> 1"
    using assms by (cases "items q") auto
  then show ?thesis
    using assms by cases (simp_all add: smartlist_pqueue_pop_def replace_by_last_def Let_def)
qed

lemma pqueue_remove_eq:
  assumes "idx_ok q" "i < length (items q)"
  shows "smartlist_pqueue_remove compare (items q ! i) q =
    Some (if i = length (items q) - 1
          then q\<lparr>idx_of := (idx_of q)(items q ! i := -1), items := take (length (items q) - 1) (items q)\<rparr>
          else smartlist_heapify compare i (replace_by_last i q))"
proof -
  have "idx_of q (items q ! i) = int i" using assms by (simp add: idx_ok_def)
  then show ?thesis using assms(2) by (simp add: smartlist_pqueue_remove_def replace_by_last_def Let_def)
qed

context comparison
begin

lemma heap_below_replace:
  assumes "is_heap (items q)" "i < length (items q) - 1"
    "0 < i \<Longrightarrow> compare (items q ! PARENT i) (items q ! (length (items q) - 1)) \<le> 0"
  shows "heap_below i (items (replace_by_last i q))"
proof -
  let ?n = "length (items q) - 1"
  have items: "items (replace_by_last i q) = (take ?n (items q))[i := items q ! ?n]"
    by (simp add: replace_by_last_def UPDATE_IDX_def Let_def)
  have h: "compare (items q ! PARENT k) (items q ! k) \<le> 0" if "0 < k" "k < ?n" for k
    using assms(1) that by (simp add: is_heap_def)
  have up: "compare (items q ! PARENT i) (items q ! k) \<le> 0" if "0 < i" "0 < k" "k < ?n" "PARENT k = i" for k
    using compare_trans [OF h [of i]] h [of k] that assms(2) by simp
  show ?thesis
    unfolding heap_below_def items
  proof (intro conjI allI impI; elim conjE)
    fix k assume k: "0 < k" "k < length ((take ?n (items q))[i := items q ! ?n])" "PARENT k \<noteq> i"
    show "compare ((take ?n (items q))[i := items q ! ?n] ! PARENT k) ((take ?n (items q))[i := items q ! ?n] ! k) \<le> 0"
    proof (cases "k = i")
      case True
      have "PARENT i < ?n" "PARENT i \<noteq> i" using assms(2) k(1) True by auto
      then show ?thesis using True assms(2,3) k(1) by simp
    qed (use k h [of k] in auto)
  next
    fix k assume k: "0 < i" "0 < k" "k < length ((take ?n (items q))[i := items q ! ?n])" "PARENT k = i"
    then have "k \<noteq> i" "PARENT i \<noteq> i" "PARENT i < ?n" using assms(2) by auto
    then show "compare ((take ?n (items q))[i := items q ! ?n] ! PARENT i) ((take ?n (items q))[i := items q ! ?n] ! k) \<le> 0"
      using up [of k] k assms(2) by auto
  qed
qed

lemma heapify_replace_ok:
  assumes "pqueue_ok compare q" "i < length (items q) - 1"
    "0 < i \<Longrightarrow> compare (items q ! PARENT i) (items q ! (length (items q) - 1)) \<le> 0"
  shows "pqueue_ok compare (smartlist_heapify compare i (replace_by_last i q))"
proof -
  have h: "is_heap (items q)" "idx_ok q" using assms(1) assert_ok_iff by (auto simp: pqueue_ok_def)
  note r = replace_by_last_ok [OF h(2) assms(2)]
  have f: "mset (items (smartlist_heapify compare i (replace_by_last i q))) = mset (items (replace_by_last i q))"
    "idx_ok (smartlist_heapify compare i (replace_by_last i q))" using heapify_frame [OF r(1)] by blast+
  have "is_heap (items (smartlist_heapify compare i (replace_by_last i q)))"
    using heapify_heap [OF heap_below_replace [OF h(1) assms(2,3)]] r(5) assms(1) by (auto simp: pqueue_ok_def)
  then show ?thesis
    using f(2) mset_eq_length [OF f(1)] r(5) assms(1) assert_ok_iff by (auto simp: pqueue_ok_def)
qed

lemma pqueue_pop_ok:
  assumes "pqueue_ok compare q" "items q \<noteq> []"
  shows "\<exists>x q'. smartlist_pqueue_pop compare q = Some (x, q') \<and> pqueue_ok compare q' \<and> idx_of q' x = -1 \<and>
    mset (items q) = add_mset x (mset (items q')) \<and> (\<forall>y \<in> set (items q). compare x y \<le> 0)"
proof -
  have h: "is_heap (items q)" "idx_ok q" using assms(1) assert_ok_iff by (auto simp: pqueue_ok_def)
  have least: "\<forall>y \<in> set (items q). compare (items q ! 0) y \<le> 0"
    using heap_root [OF h(1)] by (auto simp: in_set_conv_nth)
  show ?thesis
  proof (cases "length (items q) = 1")
    case True
    then obtain x where x: "items q = [x]" by (cases "items q") auto
    define q' where "q' = q\<lparr>idx_of := (idx_of q)(x := -1), items := []\<rparr>"
    have "smartlist_pqueue_pop compare q = Some (x, q')" using pqueue_pop_eq [OF assms(2)] x by (simp add: q'_def)
    moreover have "pqueue_ok compare q'" by (simp add: q'_def pqueue_ok_def smartlist_pqueue_assert_ok_def)
    ultimately show ?thesis using least x by (auto simp: q'_def)
  next
    case False
    then have n: "0 < length (items q) - 1" using assms(2) by (cases "items q") auto
    let ?q' = "smartlist_heapify compare 0 (replace_by_last 0 q)"
    note r = replace_by_last_ok [OF h(2) n]
    have f: "mset (items ?q') = mset (items (replace_by_last 0 q))"
      "idx_of ?q' (items q ! 0) = idx_of (replace_by_last 0 q) (items q ! 0)"
      using heapify_frame [OF r(1), of compare 0 "items q ! 0"] r(3) by blast+
    have "pqueue_ok compare ?q'" using heapify_replace_ok [OF assms(1) n] by blast
    then show ?thesis using pqueue_pop_eq [OF assms(2)] False least f r(2,4) by auto
  qed
qed

end

subsection \<open>The interface of a priority queue\<close>

locale priority_queue =
  fixes ok :: "'q \<Rightarrow> bool" and content :: "'q \<Rightarrow> 'a multiset" and le :: "'a \<Rightarrow> 'a \<Rightarrow> bool"
    and room :: "'a \<Rightarrow> 'q \<Rightarrow> bool" and add :: "'a \<Rightarrow> 'q \<Rightarrow> 'q" and pop :: "'q \<Rightarrow> ('a \<times> 'q) option"
  assumes add_law: "ok q \<Longrightarrow> room x q \<Longrightarrow> ok (add x q) \<and> content (add x q) = add_mset x (content q)"
    and pop_law: "ok q \<Longrightarrow> content q \<noteq> {#} \<Longrightarrow>
      \<exists>x q'. pop q = Some (x, q') \<and> ok q' \<and> content q = add_mset x (content q') \<and> (\<forall>y \<in># content q. le x y)"
begin

text \<open>Taking items out until \<open>n\<close> have been taken.\<close>

primrec pops :: "nat \<Rightarrow> 'q \<Rightarrow> 'a list" where
  "pops 0 q = []"
| "pops (Suc n) q = (case pop q of None \<Rightarrow> [] | Some (x, q') \<Rightarrow> x # pops n q')"

lemma pops_sorted:
  "ok q \<Longrightarrow> size (content q) = n \<Longrightarrow> mset (pops n q) = content q \<and> sorted_wrt le (pops n q)"
proof (induction n arbitrary: q)
  case (Suc n)
  then have "content q \<noteq> {#}" by auto
  then obtain x q' where x: "pop q = Some (x, q')" "ok q'" "content q = add_mset x (content q')" "\<forall>y \<in># content q. le x y"
    using pop_law Suc.prems(1) by blast
  then have "mset (pops n q') = content q' \<and> sorted_wrt le (pops n q')" using Suc by simp
  then show ?case using x by (auto simp flip: set_mset_mset)
qed simp

end

text \<open>A heap with any comparison function is such a queue.\<close>

sublocale comparison \<subseteq> heap: priority_queue "pqueue_ok compare" "\<lambda>q. mset (items q)" "\<lambda>a b. compare a b \<le> 0"
  "\<lambda>x q. x \<notin> set (items q) \<and> length (items q) < MAX_CAPACITY" "smartlist_pqueue_add compare" "smartlist_pqueue_pop compare"
proof unfold_locales
  fix q :: "'a pqueue" and x
  assume "pqueue_ok compare q" "x \<notin> set (items q) \<and> length (items q) < MAX_CAPACITY"
  then show "pqueue_ok compare (smartlist_pqueue_add compare x q) \<and>
      mset (items (smartlist_pqueue_add compare x q)) = add_mset x (mset (items q))"
    using pqueue_add_ok by blast
next
  fix q :: "'a pqueue"
  assume ok: "pqueue_ok compare q" and ne: "mset (items q) \<noteq> {#}"
  have "items q \<noteq> []" using ne by simp
  then show "\<exists>x q'. smartlist_pqueue_pop compare q = Some (x, q') \<and> pqueue_ok compare q' \<and>
      mset (items q) = add_mset x (mset (items q')) \<and> (\<forall>y \<in># mset (items q). compare x y \<le> 0)"
    using pqueue_pop_ok [OF ok] unfolding set_mset_mset by blast
qed

subsection \<open>Properties\<close>

definition int_compare :: "int \<Rightarrow> int \<Rightarrow> int" where
  "int_compare a b = a - b"

lemma int_comparison: "comparison int_compare"
  by unfold_locales (auto simp: int_compare_def)

definition empty_pqueue :: "'a pqueue" where
  "empty_pqueue = \<lparr>items = [], idx_of = (\<lambda>_. -1)\<rparr>"

lemma empty_pqueue_ok: "pqueue_ok compare empty_pqueue"
  by (simp add: pqueue_ok_def smartlist_pqueue_assert_ok_def empty_pqueue_def)

text \<open>Popping \<open>n\<close> items.\<close>

primrec pqueue_pops :: "('a \<Rightarrow> 'a \<Rightarrow> int) \<Rightarrow> nat \<Rightarrow> 'a pqueue \<Rightarrow> 'a list" where
  "pqueue_pops compare 0 q = []"
| "pqueue_pops compare (Suc n) q =
     (case smartlist_pqueue_pop compare q of None \<Rightarrow> [] | Some (x, q') \<Rightarrow> x # pqueue_pops compare n q')"

context comparison
begin

lemma pqueue_pops_eq: "pqueue_pops compare n q = heap.pops n q"
  by (induction n arbitrary: q) (auto split: option.split)

lemma pqueue_pops_sorted:
  "pqueue_ok compare q \<Longrightarrow> mset (pqueue_pops compare (length (items q)) q) = mset (items q) \<and>
     sorted_wrt (\<lambda>a b. compare a b \<le> 0) (pqueue_pops compare (length (items q)) q)"
  using heap.pops_sorted [of q "length (items q)"] by (simp add: pqueue_pops_eq)

end

text \<open>
  C9. Priority queues, for a comparison function that is a total preorder. Adding an item that is not
  in the queue adds it to the contents; popping a non-empty queue never fails and returns an item
  that no other precedes, marked as not queued. Both leave a queue that passes
  \<^verbatim>\<open>smartlist_pqueue_assert_ok\<close>, and popping everything returns the contents in order.
\<close>

theorem smartlist_pqueue_correct:
  assumes "comparison compare" "pqueue_ok compare q"
  shows "(x \<notin> set (items q) \<and> length (items q) < MAX_CAPACITY \<longrightarrow>
      pqueue_ok compare (smartlist_pqueue_add compare x q) \<and>
      mset (items (smartlist_pqueue_add compare x q)) = add_mset x (mset (items q))) \<and>
    (items q \<noteq> [] \<longrightarrow>
      (\<exists>y q'. smartlist_pqueue_pop compare q = Some (y, q') \<and> pqueue_ok compare q' \<and> idx_of q' y = -1 \<and>
        mset (items q) = add_mset y (mset (items q')) \<and> (\<forall>z \<in> set (items q). compare y z \<le> 0))) \<and>
    mset (pqueue_pops compare (length (items q)) q) = mset (items q) \<and>
    sorted_wrt (\<lambda>a b. compare a b \<le> 0) (pqueue_pops compare (length (items q)) q)"
  using comparison.pqueue_add_ok [OF assms] comparison.pqueue_pop_ok [OF assms] comparison.pqueue_pops_sorted [OF assms]
  by blast

lemma demo_pqueue: "pqueue_ok int_compare \<lparr>items = [2, 5, 3], idx_of = (\<lambda>_. -1)(2 := 0, 5 := 1, 3 := 2)\<rparr>"
  by (simp add: pqueue_ok_def smartlist_pqueue_assert_ok_def int_compare_def MAX_CAPACITY_def)

theorem smartlist_pqueue_correct_witness:
  "\<exists>y q'. smartlist_pqueue_pop int_compare \<lparr>items = [2, 5, 3], idx_of = (\<lambda>_. -1)(2 := 0, 5 := 1, 3 := 2)\<rparr> = Some (y, q') \<and>
     pqueue_ok int_compare q'"
  using smartlist_pqueue_correct [OF int_comparison demo_pqueue, of 9] by auto

text \<open>
  Removing an arbitrary item. The item leaves the contents, is marked as not queued, and the other
  positions stay right. The heap order is kept when the last item, which takes its place, does not
  precede the parent of that place: only then does \<^verbatim>\<open>smartlist_heapify\<close>, which moves an item down but
  never up, restore the order.
\<close>

theorem smartlist_pqueue_remove_correct:
  assumes "comparison compare" "pqueue_ok compare q" "i < length (items q)"
  shows "\<exists>q'. smartlist_pqueue_remove compare (items q ! i) q = Some q' \<and> idx_of q' (items q ! i) = -1 \<and>
    mset (items q) = add_mset (items q ! i) (mset (items q')) \<and> idx_ok q' \<and>
    (i = 0 \<or> i = length (items q) - 1 \<or> compare (items q ! PARENT i) (last (items q)) \<le> 0 \<longrightarrow> pqueue_ok compare q')"
proof -
  have h: "comparison.is_heap compare (items q)" "idx_ok q"
    using assms(2) comparison.assert_ok_iff [OF assms(1)] by (auto simp: pqueue_ok_def)
  let ?n = "length (items q) - 1"
  note eq = pqueue_remove_eq [OF h(2) assms(3), of compare]
  have lst: "last (items q) = items q ! ?n" using assms(3) by (intro last_conv_nth) auto
  show ?thesis
  proof (cases "i = ?n")
    case True
    let ?q' = "q\<lparr>idx_of := (idx_of q)(items q ! i := -1), items := take ?n (items q)\<rparr>"
    have "idx_ok ?q'"
      unfolding idx_ok_def
    proof (intro allI impI)
      fix k assume "k < length (items ?q')"
      then have "k < ?n" by simp
      then show "idx_of ?q' (items ?q' ! k) = int k"
        using h(2) idx_ok_inj [OF h(2), of k i] True assms(3) by (auto simp: idx_ok_def)
    qed
    moreover have "comparison.is_heap compare (items ?q')"
      using h(1) by (auto simp: comparison.is_heap_def [OF assms(1)])
    ultimately have "pqueue_ok compare ?q'" "idx_ok ?q'"
      using assms(2) comparison.assert_ok_iff [OF assms(1)] by (auto simp: pqueue_ok_def)
    moreover have "mset (items q) = add_mset (items q ! i) (mset (take ?n (items q)))"
    proof -
      have "items q = take ?n (items q) @ [items q ! ?n]"
        using assms(3) take_Suc_conv_app_nth [of ?n "items q"] by simp
      then show ?thesis using True by (metis mset_append mset_single_iff_right add_mset_add_single mset.simps)
    qed
    ultimately show ?thesis using eq True by auto
  next
    case False
    then have n: "i < ?n" using assms(3) by simp
    let ?q' = "smartlist_heapify compare i (replace_by_last i q)"
    note r = replace_by_last_ok [OF h(2) n]
    have f: "mset (items ?q') = mset (items (replace_by_last i q))" "idx_ok ?q'"
      "idx_of ?q' (items q ! i) = idx_of (replace_by_last i q) (items q ! i)"
      using heapify_frame [OF r(1), of compare i "items q ! i"] r(3) by blast+
    have "pqueue_ok compare ?q'" if "i = 0 \<or> compare (items q ! PARENT i) (last (items q)) \<le> 0"
      using comparison.heapify_replace_ok [OF assms(1,2) n] that lst by auto
    then show ?thesis using eq False f r(2,4) by auto
  qed
qed

theorem smartlist_pqueue_remove_witness:
  "\<exists>q'. smartlist_pqueue_remove int_compare 3 \<lparr>items = [2, 5, 3], idx_of = (\<lambda>_. -1)(2 := 0, 5 := 1, 3 := 2)\<rparr> = Some q' \<and>
     pqueue_ok int_compare q'"
  using smartlist_pqueue_remove_correct [OF int_comparison demo_pqueue, of 2] by auto

text \<open>
  A removal that breaks the queue: after adding 1, 3, 5, 6, 4, 2, 0 and removing 6, the item 2 is
  below 3, \<^verbatim>\<open>smartlist_pqueue_assert_ok\<close> fails, and 3 is popped before 2.
\<close>

theorem smartlist_pqueue_remove_breaks_order:
  "\<exists>q q'. q = fold (smartlist_pqueue_add int_compare) [1, 3, 5, 6, 4, 2, 0] empty_pqueue \<and>
     smartlist_pqueue_assert_ok int_compare q \<and> smartlist_pqueue_remove int_compare 6 q = Some q' \<and>
     \<not> smartlist_pqueue_assert_ok int_compare q' \<and> pqueue_pops int_compare 6 q' = [0, 1, 3, 2, 4, 5]"
proof -
  define q where "q = fold (smartlist_pqueue_add int_compare) [1, 3, 5, 6, 4, 2, 0] empty_pqueue"
  note defs = smartlist_pqueue_add_def UPDATE_IDX_def swap_items_def int_compare_def pqueue_up.simps empty_pqueue_def
  have q: "items q = [0, 3, 1, 6, 4, 5, 2]" "idx_of q = (\<lambda>_. -1 :: int)(0 := 0, 3 := 1, 1 := 2, 6 := 3, 4 := 4, 5 := 5, 2 := 6)"
    unfolding q_def by (simp add: defs, force simp: defs)
  have ok: "smartlist_pqueue_assert_ok int_compare q" by (simp add: smartlist_pqueue_assert_ok_def q int_compare_def)
  define r where "r = the (smartlist_pqueue_remove int_compare 6 q)"
  have r: "smartlist_pqueue_remove int_compare 6 q = Some r" "items r = [0, 3, 1, 2, 4, 5]"
    unfolding r_def
    by (simp_all add: smartlist_pqueue_remove_def q arr_get_def smartlist_heapify.simps UPDATE_IDX_def Let_def)
  have bad: "\<not> smartlist_pqueue_assert_ok int_compare r"
    by (simp add: smartlist_pqueue_assert_ok_def r(2) int_compare_def)
  have six: "6 = Suc (Suc (Suc (Suc (Suc (Suc 0)))))" by simp
  have "pqueue_pops int_compare 6 r = [0, 1, 3, 2, 4, 5]"
    unfolding six
    by (simp add: smartlist_pqueue_pop_def r(2) smartlist_heapify.simps best_idx_def swap_items_def
        UPDATE_IDX_def int_compare_def MAX_PARENT_IDX_def Let_def)
  then show ?thesis using q_def ok r(1) bad by blast
qed

end
