(* ===== verification/Netstatus.thy ===== *)
theory Netstatus
  imports Pem Directory Versions Smartlist
begin

text \<open>
  The client's side of the directory: parsing of router entries and of the consensus text
  (\<^verbatim>\<open>src/BADNET/src/feature/dirparse/ns_parse.c\<close>), installing it (\<^verbatim>\<open>feature/nodelist/networkstatus.c\<close>), and
  the callback that downloads the digests and reloads the file (\<^verbatim>\<open>core/mainloop/mainloop.c\<close>). The RSA
  library is a parameter. A failed assertion or the use of a null pointer is \<open>Aborted\<close>.
\<close>

subsection \<open>Fields of an entry\<close>

definition LEGAL_NICKNAME_CHARACTERS :: string where
  "LEGAL_NICKNAME_CHARACTERS = ''abcdefghijklmnopqrstuvwxyzABCDEFGHIJKLMNOPQRSTUVWXYZ0123456789''"

definition MAX_NICKNAME_LEN :: nat where "MAX_NICKNAME_LEN = 19"

definition is_legal_nickname :: "string \<Rightarrow> bool" where
  "is_legal_nickname s \<longleftrightarrow> length s > 0 \<and> length s \<le> MAX_NICKNAME_LEN \<and>
     length (takeWhile (\<lambda>c. c \<in> set LEGAL_NICKNAME_CHARACTERS) s) = length s"

definition digest_from_base64 :: "string \<Rightarrow> byte list option" where
  "digest_from_base64 d64 =
     (case base64_decode 20 d64 of Some bs \<Rightarrow> if length bs = 20 then Some bs else None | None \<Rightarrow> None)"

definition digest256_from_base64 :: "string \<Rightarrow> byte list option" where
  "digest256_from_base64 d64 =
     (case base64_decode 32 d64 of Some bs \<Rightarrow> if length bs = 32 then Some bs else None | None \<Rightarrow> None)"

definition curve25519_public_from_base64 :: "string \<Rightarrow> byte list option" where
  "curve25519_public_from_base64 input =
     (if length input = 43 then digest256_from_base64 input
      else if length input = 44 then
        (case base64_decode 45 input of Some bs \<Rightarrow> if length bs = 32 then Some bs else None | None \<Rightarrow> None)
      else None)"

definition ed25519_public_from_base64 :: "string \<Rightarrow> byte list option" where
  "ed25519_public_from_base64 input = digest256_from_base64 input"

subsection \<open>One router entry\<close>

datatype consensus_flavor = FLAV_NS | FLAV_MICRODESC

definition INT_MAX :: int where "INT_MAX = 2 ^ 31 - 1"

definition rtrstatus_token_table :: "token_rule list" where
  "rtrstatus_token_table =
     [\<lparr>rule_t = ''r'', rule_v = K_R, min_args = 4, max_args = INT_MAX, concat_args = False, os = NO_OBJ,
        min_cnt = 1, max_cnt = 1, at_start = False, at_end = False\<rparr>,
      \<lparr>rule_t = ''onion-key'', rule_v = K_ONION_KEY, min_args = 0, max_args = 0, concat_args = False,
        os = NEED_KEY_1024, min_cnt = 1, max_cnt = 1, at_start = False, at_end = False\<rparr>,
      \<lparr>rule_t = ''ntor-onion-key'', rule_v = K_ONION_KEY_NTOR, min_args = 1, max_args = INT_MAX,
        concat_args = False, os = NO_OBJ, min_cnt = 0, max_cnt = 1, at_start = False, at_end = False\<rparr>,
      \<lparr>rule_t = ''id'', rule_v = K_ID, min_args = 2, max_args = INT_MAX, concat_args = False, os = NO_OBJ,
        min_cnt = 0, max_cnt = INT_MAX, at_start = False, at_end = False\<rparr>]"

record download_status =
  next_attempt_at :: int
  n_download_failures :: uint8
  n_download_attempts :: uint8
  last_backoff_position :: uint8
  last_delay_used :: int

definition no_download_status :: download_status where
  "no_download_status = \<lparr>next_attempt_at = 0, n_download_failures = 0, n_download_attempts = 0,
     last_backoff_position = 0, last_delay_used = 0\<rparr>"

text \<open>
  The fields that parsing sets, the digest of the descriptor, which it leaves zero, and the local
  information that a new consensus takes over from the old one.
\<close>

record routerstatus =
  rs_nickname :: string
  rs_identity_digest :: "byte list"
  rs_ipv4_addr :: uint32
  rs_ipv4_orport :: uint16
  md_onion_pkey :: "byte list"
  md_onion_curve25519_pkey :: "byte list option"
  md_ed25519_identity_pkey :: "byte list option"
  is_exit :: bool
  is_stable :: bool
  is_fast :: bool
  is_flagged_running :: bool
  is_valid :: bool
  is_possible_guard :: bool
  is_hs_dir :: bool
  is_v2_dir :: bool
  bandwidth_kb :: int
  has_bandwidth :: bool
  bw_is_unmeasured :: bool
  rs_pv :: protover_summary_flags
  rs_descriptor_digest :: "byte list"
  last_dir_503_at :: int
  dl_status :: download_status

text \<open>The offset of the end of the entry that \<open>s\<close> starts with.\<close>

definition find_start_of_next_routerstatus :: "string \<Rightarrow> nat" where
  "find_start_of_next_routerstatus s =
     (let eos = (case tor_memstr s (NL # ''r '') of Some k \<Rightarrow> k + 1 | None \<Rightarrow> length s);
          footer = tor_memstr (take eos s) (NL # ''directory-footer'');
          sig = tor_memstr (take eos s) (NL # ''directory-signature'')
      in case (footer, sig) of
           (Some f, Some g) \<Rightarrow> min f g + 1
         | (Some f, None) \<Rightarrow> f + 1
         | (None, Some g) \<Rightarrow> g + 1
         | (None, None) \<Rightarrow> eos)"

text \<open>The loop over the \<^verbatim>\<open>id\<close> lines: the ed25519 key seen so far.\<close>

fun id_lines :: "'k directory_token list \<Rightarrow> byte list option \<Rightarrow> byte list option parsed" where
  "id_lines [] ed = Parsed ed"
| "id_lines (t # ts) ed =
     (if length (args t) < 2 then Aborted
      else if args t ! 0 = ''ed25519'' then
        (if ed \<noteq> None then Rejected
         else case ed25519_public_from_base64 (args t ! 1) of
                None \<Rightarrow> Rejected
              | Some k \<Rightarrow> id_lines ts (Some k))
      else id_lines ts ed)"

definition entry_protocols :: string where
  "entry_protocols = ''Cons=1-2 Desc=1-2 DirCache=1-2 HSDir=1-2 HSIntro=3-5 HSRend=1-2 Link=1-5 LinkAuth=1,3 '' @
     ''Microdesc=1-2 Relay=1-2 Padding=2 FlowCtrl=1''"

text \<open>The entry from its tokens: the body of \<^verbatim>\<open>routerstatus_parse_entry_from_string\<close> after tokenizing.
  The protocol flags are those of \<^verbatim>\<open>summarize_protover_flags\<close>, whose cache does not affect them.\<close>

definition routerstatus_of_tokens ::
  "'k pk_lib \<Rightarrow> consensus_flavor \<Rightarrow> 'k directory_token list \<Rightarrow> routerstatus parsed" where
  "routerstatus_of_tokens pk flav tokens =
     (if length tokens < 1 then Rejected
      else case find_by_keyword tokens K_R of
        None \<Rightarrow> Aborted
      | Some tok \<Rightarrow>
          let a = args tok; addr_arg = (if flav = FLAV_MICRODESC then 2 else 3)
          in if length a < 4 then Aborted
             else if flav = FLAV_NS \<and> length a < 8 then Rejected
             else if \<not> is_legal_nickname (a ! 0) then Rejected
             else case digest_from_base64 (a ! 1) of
               None \<Rightarrow> Rejected
             | Some digest \<Rightarrow>
                 (case tor_inet_aton (a ! addr_arg) of
                    None \<Rightarrow> Rejected
                  | Some addr \<Rightarrow>
                      let (port, _, _) = tor_parse_long (a ! (addr_arg + 1)) 0 65535 False
                      in case find_by_keyword tokens K_ONION_KEY of
                           None \<Rightarrow> Aborted
                         | Some okt \<Rightarrow>
                             (case (key okt, object_body okt) of
                                (Some k, Some body) \<Rightarrow>
                                  if \<not> pk_exponent_ok pk k then Rejected
                                  else case (case find_opt_by_keyword tokens K_ONION_KEY_NTOR of
                                               None \<Rightarrow> Parsed None
                                             | Some nt \<Rightarrow>
                                                 if length (args nt) < 1 then Aborted
                                                 else (case curve25519_public_from_base64 (args nt ! 0) of
                                                         None \<Rightarrow> Rejected
                                                       | Some c \<Rightarrow> Parsed (Some c))) of
                                    Rejected \<Rightarrow> Rejected
                                  | Aborted \<Rightarrow> Aborted
                                  | Parsed curve \<Rightarrow>
                                      (case id_lines (find_all_by_keyword tokens K_ID) None of
                                         Rejected \<Rightarrow> Rejected
                                       | Aborted \<Rightarrow> Aborted
                                       | Parsed ed \<Rightarrow>
                                           Parsed \<lparr>rs_nickname = take MAX_NICKNAME_LEN (a ! 0),
                                             rs_identity_digest = digest, rs_ipv4_addr = addr,
                                             rs_ipv4_orport = of_int port, md_onion_pkey = body,
                                             md_onion_curve25519_pkey = curve,
                                             md_ed25519_identity_pkey = ed,
                                             is_exit = True, is_stable = True, is_fast = True,
                                             is_flagged_running = True, is_valid = True,
                                             is_possible_guard = True, is_hs_dir = True, is_v2_dir = True,
                                             bandwidth_kb = 1, has_bandwidth = True,
                                             bw_is_unmeasured = True,
                                             rs_pv = protover_flags_of (Some entry_protocols, Some ''Tor 0.4.6.5''),
                                             rs_descriptor_digest = replicate 32 0,
                                             last_dir_503_at = 0, dl_status = no_download_status\<rparr>)
                              | _ \<Rightarrow> Aborted)))"

text \<open>
  \<^verbatim>\<open>routerstatus_parse_entry_from_string\<close> for a consensus: the result and the text after the entry. The
  bandwidth is parsed from the constant \<^verbatim>\<open>"Bandwidth=1"\<close>.
\<close>

definition routerstatus_parse_entry_from_string ::
  "'k pk_lib \<Rightarrow> nat \<Rightarrow> consensus_flavor \<Rightarrow> string \<Rightarrow> routerstatus parsed \<times> string" where
  "routerstatus_parse_entry_from_string pk consensus_method flav0 s =
     (let flav = (if consensus_method = 0 then FLAV_NS else flav0);
          n = find_start_of_next_routerstatus s
      in ((case tokenize_string pk (take n s) [] rtrstatus_token_table no_tokenize_flags of
             Inl _ \<Rightarrow> Rejected
           | Inr tokens \<Rightarrow> routerstatus_of_tokens pk flav tokens), drop n s))"

lemma find_start_pos: "s \<noteq> [] \<Longrightarrow> 0 < find_start_of_next_routerstatus s"
  by (auto simp: find_start_of_next_routerstatus_def Let_def split: option.splits)

subsection \<open>The consensus\<close>

record networkstatus =
  ns_flavor :: consensus_flavor
  consensus_method :: nat
  valid_after :: int
  recommended_client_protocols :: string
  recommended_relay_protocols :: string
  required_client_protocols :: string
  required_relay_protocols :: string
  known_flags :: "string list"
  routerstatus_list :: "routerstatus list"
  weight_params :: "string list"

function rs_loop ::
  "'k pk_lib \<Rightarrow> nat \<Rightarrow> consensus_flavor \<Rightarrow> string \<Rightarrow> routerstatus list parsed" where
  "rs_loop pk meth flav s =
     (if starts_with s ''r '' then
        (case routerstatus_parse_entry_from_string pk meth flav s of
           (Rejected, _) \<Rightarrow> Rejected
         | (Aborted, _) \<Rightarrow> Aborted
         | (Parsed rs, rest) \<Rightarrow>
             (case rs_loop pk meth flav rest of
                Parsed l \<Rightarrow> Parsed (rs # l)
              | Rejected \<Rightarrow> Rejected
              | Aborted \<Rightarrow> Aborted))
      else Parsed [])"
  by pat_completeness auto
termination
proof (relation "measure (\<lambda>(pk, m, f, s). length s)", goal_cases)
  case (2 pk meth flav s x1 rest rs)
  have "s \<noteq> []" using 2(1) by (auto simp: starts_with_def)
  then show ?case
    using 2(2) find_start_pos [of s] by (auto simp: routerstatus_parse_entry_from_string_def Let_def)
qed simp

declare rs_loop.simps [simp del]

definition flag_names :: "string list" where
  "flag_names = [''Authority'', ''Exit'', ''Fast'', ''Guard'', ''HSDir'', ''NoEdConsensus'', ''Running'',
     ''Stable'', ''StaleDesc'', ''V2Dir'', ''Valid'']"

definition bw_weights :: "string list" where
  "bw_weights = [''Wbd=3333'', ''Wbe=0'', ''Wbg=0'', ''Wbm=10000'', ''Wdb=10000'', ''Web=10000'', ''Wed=3333'',
     ''Wee=10000'', ''Weg=3333'', ''Wem=10000'', ''Wgb=10000'', ''Wgd=3333'', ''Wgg=10000'', ''Wgm=10000'',
     ''Wmb=10000'', ''Wmd=3333'', ''Wme=0'', ''Wmg=0'', ''Wmm=10000'']"

text \<open>\<^verbatim>\<open>strcmp(a, b) < 0\<close>.\<close>

definition str_less :: "string \<Rightarrow> string \<Rightarrow> bool" where
  "str_less a b \<longleftrightarrow> cmp_keys (str_key a) (str_key b) < 0"

fun in_order :: "string list \<Rightarrow> bool" where
  "in_order (a # b # l) \<longleftrightarrow> str_less a b \<and> in_order (b # l)"
| "in_order _ \<longleftrightarrow> True"

definition weight_ok :: "string \<Rightarrow> bool" where
  "weight_ok w \<longleftrightarrow> (case dropWhile (\<lambda>c. c \<noteq> CHR ''='') w of
     [] \<Rightarrow> False
   | _ # v \<Rightarrow> (let (_, ok, _) = tor_parse_long v (- (2 ^ 31)) INT_MAX False in ok))"

definition client_protocols :: string where
  "client_protocols = ''Cons=1-2 Desc=1-2 DirCache=1 HSDir=1 HSIntro=3 HSRend=1 Link=4 Microdesc=1-2 Relay=2''"

definition relay_protocols :: string where
  "relay_protocols = ''Cons=1 Desc=1 DirCache=1 HSDir=1 HSIntro=3 HSRend=1 Link=3-4 Microdesc=1 Relay=1-2''"

text \<open>
  \<^verbatim>\<open>networkstatus_parse_vote_from_string\<close>; \<open>want_consensus\<close> says that the caller asked for a consensus.
  The record is allocated with zeros, and nothing sets \<^verbatim>\<open>valid_after\<close>.
\<close>

definition networkstatus_parse_vote_from_string ::
  "'k pk_lib \<Rightarrow> bool \<Rightarrow> string \<Rightarrow> networkstatus parsed" where
  "networkstatus_parse_vote_from_string pk want_consensus s =
     (if \<not> want_consensus then Rejected
      else if \<not> in_order flag_names then Rejected
      else case rs_loop pk 29 FLAV_MICRODESC s of
             Rejected \<Rightarrow> Rejected
           | Aborted \<Rightarrow> Aborted
           | Parsed rss \<Rightarrow>
               if \<not> list_all weight_ok bw_weights then Rejected
               else Parsed \<lparr>ns_flavor = FLAV_MICRODESC, consensus_method = 29, valid_after = 0,
                      recommended_client_protocols = client_protocols,
                      recommended_relay_protocols = client_protocols,
                      required_client_protocols = client_protocols,
                      required_relay_protocols = relay_protocols,
                      known_flags = flag_names, routerstatus_list = rss, weight_params = bw_weights\<rparr>)"

end
