(* ===== verification/Netstatus_Parse.thy ===== *)
theory Netstatus_Parse
  imports Netstatus
begin

text \<open>
  Correctness of the client's parser: it never fails an assertion, and it reads back exactly the router
  entries that the relays write.
\<close>

subsection \<open>No assertion fails\<close>

lemma conforms_rtrstatus:
  assumes "conforms pk rtrstatus_token_table t"
  shows "tp t = K_R \<Longrightarrow> 4 \<le> length (args t)"
    "tp t = K_ONION_KEY_NTOR \<Longrightarrow> 1 \<le> length (args t)"
    "tp t = K_ID \<Longrightarrow> 2 \<le> length (args t)"
    "tp t = K_ONION_KEY \<Longrightarrow> \<exists>k. key t = Some k"
  using assms by (auto simp: conforms_def rtrstatus_token_table_def obj_ok_def)

lemma count_tp_find: "0 < count_tp v out \<Longrightarrow> \<exists>t. find (\<lambda>t. tp t = v) out = Some t \<and> t \<in> set out \<and> tp t = v"
  by (induction out) (auto simp: count_tp_def)

text \<open>A token with a key has a body: they are set together.\<close>

definition key_has_body :: "'k directory_token \<Rightarrow> bool" where
  "key_has_body t \<longleftrightarrow> (key t \<noteq> None \<longrightarrow> object_body t \<noteq> None)"

lemma get_next_token_body:
  assumes "get_next_token pk table s = Inr (tok, rest)"
  shows "key_has_body tok"
proof -
  obtain line kw aft kwd o_syn tok0 tok1 s1 where
    kw: "keyword_line table line kw aft = Inr (kwd, o_syn, tok0)" and
    obj: "read_object pk o_syn tok0 s1 = Inr (tok1, rest)" and
    chk: "token_check_object pk kwd tok1 o_syn = Inr tok"
    using assms by (auto simp: get_next_token_def Let_def split: if_splits sum.splits prod.splits)
  have "key tok0 = None" using kw by (auto simp: keyword_line_def Let_def split: if_splits option.splits)
  then have "key_has_body tok1"
    using obj by (auto simp: read_object_def key_has_body_def Let_def split: if_splits option.splits)
  then show ?thesis using token_check_object_ok [OF chk] by simp
qed

lemma tokenize_loop_body:
  "tokenize_loop pk table s out = Inr out' \<Longrightarrow> \<forall>t \<in> set out. key_has_body t \<Longrightarrow> \<forall>t \<in> set out'. key_has_body t"
proof (induction pk table s out rule: tokenize_loop.induct)
  case (1 pk table s out)
  show ?case
  proof (cases "s = []")
    case True
    then show ?thesis using 1(2,3) by (simp add: tokenize_loop.simps)
  next
    case False
    obtain tok rest where t: "get_next_token pk table s = Inr (tok, rest)"
      using 1(2) False by (auto simp: tokenize_loop.simps [of pk table s] split: sum.splits)
    then show ?thesis
      using 1(1) [OF False t, of tok rest] 1(2,3) False get_next_token_body [OF t]
      by (simp add: tokenize_loop.simps [of pk table s])
  qed
qed

lemma id_lines_no_abort: "\<forall>t \<in> set ts. 2 \<le> length (args t) \<Longrightarrow> id_lines ts ed \<noteq> Aborted"
  by (induction ts ed rule: id_lines.induct) (auto split: option.splits)

lemma routerstatus_of_tokens_no_abort:
  assumes "tokenize_string pk s [] rtrstatus_token_table no_tokenize_flags = Inr tokens"
  shows "routerstatus_of_tokens pk flav tokens \<noteq> Aborted"
proof -
  note ok = tokenize_ok [OF assms] 
  have nc: "\<not> TS_NOCHECK no_tokenize_flags" by (simp add: no_tokenize_flags_def)
  have conf: "\<forall>t \<in> set tokens. conforms pk rtrstatus_token_table t" using ok(1) [OF nc] .
  have cnt: "0 < count_tp K_R tokens" "0 < count_tp K_ONION_KEY tokens"
    using ok(2) [OF nc, of "rtrstatus_token_table ! 0"] ok(2) [OF nc, of "rtrstatus_token_table ! 1"]
    by (auto simp: rtrstatus_token_table_def)
  have body: "\<forall>t \<in> set tokens. key_has_body t"
    using assms tokenize_loop_body by (fastforce simp: tokenize_string_def split: if_splits sum.splits option.splits)
  obtain tr where tr: "find_by_keyword tokens K_R = Some tr" "4 \<le> length (args tr)"
    using count_tp_find [OF cnt(1)] conf conforms_rtrstatus(1) by (fastforce simp: find_by_keyword_def find_opt_by_keyword_def)
  obtain tk k b where tk: "find_by_keyword tokens K_ONION_KEY = Some tk" "key tk = Some k" "object_body tk = Some b"
    using count_tp_find [OF cnt(2)] conf conforms_rtrstatus(4) body
    by (fastforce simp: find_by_keyword_def find_opt_by_keyword_def key_has_body_def)
  have nt: "1 \<le> length (args t)" if "find_opt_by_keyword tokens K_ONION_KEY_NTOR = Some t" for t
    using that conf conforms_rtrstatus(2) by (fastforce simp: find_opt_by_keyword_def find_Some_iff)
  have ids: "id_lines (find_all_by_keyword tokens K_ID) None \<noteq> Aborted"
    using conf conforms_rtrstatus(3) by (intro id_lines_no_abort) (fastforce simp: find_all_by_keyword_def)
  show ?thesis
    using tr tk nt ids
    by (auto simp: routerstatus_of_tokens_def Let_def split: if_splits option.splits parsed.splits prod.splits)
qed

lemma rs_loop_no_abort: "rs_loop pk meth flav s \<noteq> Aborted"
proof (induction pk meth flav s rule: rs_loop.induct)
  case (1 pk meth flav s)
  have entry: "fst (routerstatus_parse_entry_from_string pk meth flav s) \<noteq> Aborted"
    using routerstatus_of_tokens_no_abort
    by (fastforce simp: routerstatus_parse_entry_from_string_def Let_def split: sum.splits)
  show ?case
    using 1 entry by (subst rs_loop.simps) (auto split: prod.splits parsed.splits)
qed

text \<open>
  C17. Parsing a consensus never fails an assertion or uses a missing token, whatever the text: the
  rule table guarantees all that the parser relies on.
\<close>

theorem networkstatus_parse_never_aborts:
  "networkstatus_parse_vote_from_string pk want s \<noteq> Aborted"
  using rs_loop_no_abort [of pk 29 FLAV_MICRODESC s]
  by (auto simp: networkstatus_parse_vote_from_string_def split: parsed.splits)

subsection \<open>Finding the end of an entry\<close>

definition text_lines :: "string list \<Rightarrow> string" where
  "text_lines L = concat (map (\<lambda>l. l @ [NL]) L)"

lemma text_lines_simps [simp]: "text_lines [] = []" "text_lines (l # L) = l @ NL # text_lines L"
  "text_lines (L @ M) = text_lines L @ text_lines M"
  by (simp_all add: text_lines_def)

lemma tor_memstr_skip: "c \<noteq> hd p \<Longrightarrow> p \<noteq> [] \<Longrightarrow> tor_memstr (c # s) p = map_option Suc (tor_memstr s p)"
  by (cases p) (auto simp: starts_with_def)

lemma tor_memstr_skip_line:
  "NL \<notin> set l \<Longrightarrow> tor_memstr (l @ s) (NL # p) = map_option ((+) (length l)) (tor_memstr s (NL # p))"
  by (induction l) (cases "tor_memstr s (NL # p)"; auto simp: starts_with_def)+

lemma starts_with_iff: "starts_with s p \<longleftrightarrow> (\<exists>r. s = p @ r)"
  by (metis append_eq_conv_conj starts_with_def)

lemma starts_with_cross:
  assumes "NL \<notin> set p" "starts_with (l @ NL # s) p"
  shows "starts_with l p"
proof (cases "length p \<le> length l")
  case False
  then have "p = l @ NL # take (length p - Suc (length l)) s"
    using assms(2) by (simp add: starts_with_def take_Cons' split: if_splits)
  then show ?thesis using assms(1) by (metis in_set_conv_decomp)
qed (use assms(2) in \<open>simp add: starts_with_def\<close>)

text \<open>
  A pattern after a newline is first found where the first line after the beginning starts with it.
\<close>

lemma tor_memstr_lines:
  assumes "NL \<notin> set p" "p \<noteq> []" "\<forall>l \<in> set L. NL \<notin> set l" "\<forall>l \<in> set (tl L). \<not> starts_with l p" "L \<noteq> []"
  shows "starts_with rest p \<Longrightarrow> tor_memstr (text_lines L @ rest) (NL # p) = Some (length (text_lines L) - 1)"
    "tor_memstr (text_lines L) (NL # p) = None"
proof -
  have "(starts_with rest p \<longrightarrow> tor_memstr (text_lines L @ rest) (NL # p) = Some (length (text_lines L) - 1)) \<and>
    tor_memstr (text_lines L) (NL # p) = None"
    using assms(3-5)
  proof (induction L)
    case (Cons l L)
    show ?case
    proof (cases L)
      case Nil
      then show ?thesis
        using Cons(2) assms(2) by (auto simp: tor_memstr_skip_line starts_with_def)
    next
      case l2: (Cons l' L')
      have "\<not> starts_with (text_lines L @ r) p" for r
        using starts_with_cross [OF assms(1), of l' "text_lines L' @ r"] Cons(3) l2 by auto
      then have n: "\<not> starts_with (NL # text_lines L @ r) (NL # p)" for r by (simp add: starts_with_def)
      have IH: "(starts_with rest p \<longrightarrow> tor_memstr (text_lines L @ rest) (NL # p) = Some (length (text_lines L) - 1)) \<and>
          tor_memstr (text_lines L) (NL # p) = None"
        using Cons l2 by (intro Cons(1)) auto
      have pos: "0 < length (text_lines L)" using l2 by simp
      show ?thesis
        using IH n [of rest] n [of "[]"] Cons(2) pos by (auto simp: tor_memstr_skip_line simp del: text_lines_simps(3))
    qed
  qed simp
  then show "starts_with rest p \<Longrightarrow> tor_memstr (text_lines L @ rest) (NL # p) = Some (length (text_lines L) - 1)"
    "tor_memstr (text_lines L) (NL # p) = None" by auto
qed

lemma find_start_lines:
  assumes "\<forall>l \<in> set L. NL \<notin> set l" "L \<noteq> []"
    "\<forall>l \<in> set (tl L). \<not> starts_with l ''r '' \<and> \<not> starts_with l ''directory-footer'' \<and> \<not> starts_with l ''directory-signature''"
    and rest: "rest = [] \<or> starts_with rest ''r ''"
  shows "find_start_of_next_routerstatus (text_lines L @ rest) = length (text_lines L)"
proof -
  have nl: "NL \<notin> set ''r ''" "NL \<notin> set ''directory-footer''" "NL \<notin> set ''directory-signature''" by (auto simp: NL_def)
  have pos: "0 < length (text_lines L)" using assms(2) by (cases L) auto
  have r: "tor_memstr (text_lines L @ rest) (NL # ''r '') = (if rest = [] then None else Some (length (text_lines L) - 1))"
    using tor_memstr_lines [OF nl(1) _ assms(1) _ assms(2)] assms(3) rest by auto
  have "tor_memstr (text_lines L) (NL # ''directory-footer'') = None"
    "tor_memstr (text_lines L) (NL # ''directory-signature'') = None"
    using tor_memstr_lines(2) [OF nl(2) _ assms(1) _ assms(2)] tor_memstr_lines(2) [OF nl(3) _ assms(1) _ assms(2)] assms(3)
    by auto
  then show ?thesis
    using r pos by (auto simp: find_start_of_next_routerstatus_def Let_def)
qed

lemma lines_exist:
  "b = [] \<or> (\<exists>b'. b = b' @ [NL]) \<Longrightarrow> \<exists>L. b = text_lines L \<and> (\<forall>l \<in> set L. NL \<notin> set l \<and> set l \<subseteq> set b)"
proof (induction b rule: length_induct)
  case (1 b)
  show ?case
  proof (cases "b = []")
    case False
    then have "NL \<in> set b" using 1(2) by auto
    then obtain l r where b: "b = l @ NL # r" "NL \<notin> set l" by (meson split_list_first)
    moreover have "r = [] \<or> (\<exists>b'. r = b' @ [NL])" using 1(2) b(1) by (metis append_is_Nil_conv append_butlast_last_id
          last.simps last_appendR last_snoc list.discI)
    moreover have "length r < length b" using b(1) by simp
    ultimately obtain L where "r = text_lines L" "\<forall>l \<in> set L. NL \<notin> set l \<and> set l \<subseteq> set r" using 1(1) by blast
    then have "b = text_lines (l # L) \<and> (\<forall>x \<in> set (l # L). NL \<notin> set x \<and> set x \<subseteq> set b)" using b by auto
    then show ?thesis by blast
  qed (auto intro!: exI [of _ "[]"])
qed

subsection \<open>Reading one entry\<close>

text \<open>A router whose entry a client accepts: a legal nickname and a 1024-bit public onion key.\<close>

definition acceptable :: "'k pk_lib \<Rightarrow> routerinfo \<Rightarrow> byte list \<Rightarrow> bool" where
  "acceptable pk ri der \<longleftrightarrow> wf_router ri \<and> is_legal_nickname (nickname ri) \<and>
     pem_encode 4096 der ''RSA PUBLIC KEY'' = Some (onion_pkey_pem ri) \<and>
     (\<exists>k. pk_asn1_decode pk der = Some k \<and> pk_num_bits pk k = 1024 \<and> \<not> pk_is_private pk k \<and> pk_exponent_ok pk k)"

text \<open>The entry of a router in the client's consensus.\<close>

definition status_of :: "routerinfo \<Rightarrow> byte list \<Rightarrow> routerstatus" where
  "status_of ri der = \<lparr>rs_nickname = nickname ri, rs_identity_digest = identity_digest ri,
     rs_ipv4_addr = ipv4_addr ri, rs_ipv4_orport = ipv4_orport ri, md_onion_pkey = der,
     md_onion_curve25519_pkey = Some (onion_curve25519_pkey ri), md_ed25519_identity_pkey = Some (ed_signing_key ri),
     is_exit = True, is_stable = True, is_fast = True, is_flagged_running = True, is_valid = True,
     is_possible_guard = True, is_hs_dir = True, is_v2_dir = True, bandwidth_kb = 1, has_bandwidth = True,
     bw_is_unmeasured = True, rs_pv = protover_flags_of (Some entry_protocols, Some ''Tor 0.4.6.5''),
     rs_descriptor_digest = replicate 32 0, last_dir_503_at = 0, dl_status = no_download_status\<rparr>"

lemma base64_word: "s \<noteq> [] \<Longrightarrow> list_all base64_char s \<Longrightarrow> word s"
  by (auto simp: word_def list_all_iff dest: base64_char_not)

lemma digit_word: "s \<noteq> [] \<Longrightarrow> \<forall>c \<in> set s. is_digit c \<or> c = CHR ''.'' \<Longrightarrow> word s"
  by (auto simp: word_def list_all_iff ends_word_def is_blank_def is_digit_def NL_def)

lemma ntoa_word: "word (tor_inet_ntoa a)"
  by (rule digit_word) (auto simp: tor_inet_ntoa_def Let_def dest: show_nat_digits)

lemma nickname_word: "is_legal_nickname s \<Longrightarrow> word s"
proof -
  assume legal: "is_legal_nickname s"
  have eq: "takeWhile (\<lambda>c. c \<in> set LEGAL_NICKNAME_CHARACTERS) s = s"
    using legal takeWhile_take [of "\<lambda>c. c \<in> set LEGAL_NICKNAME_CHARACTERS" s] by (simp add: is_legal_nickname_def)
  have "\<forall>c \<in> set s. c \<in> set LEGAL_NICKNAME_CHARACTERS" by (metis eq set_takeWhileD)
  moreover have "\<forall>c \<in> set LEGAL_NICKNAME_CHARACTERS. \<not> ends_word c"
    by (simp add: LEGAL_NICKNAME_CHARACTERS_def ends_word_def is_blank_def NL_def)
  ultimately show ?thesis using legal by (auto simp: word_def list_all_iff is_legal_nickname_def)
qed

lemma encode_chars_one_line: "0 < l + length cs \<Longrightarrow> l + length cs < 64 \<Longrightarrow> encode_chars l cs = cs @ [NL]"
  by (induction l cs rule: encode_chars.induct) (auto simp: BASE64_OPENSSL_LINELEN_def)

lemma pem_encode_text:
  assumes "pem_encode n der ''RSA PUBLIC KEY'' = Some t"
  obtains b m where "base64_encode m der True = Some b" "t = pem_text ''RSA PUBLIC KEY'' b @ [NL]"
proof (rule pem_encode_shape [OF assms])
  fix b m
  assume "base64_encode m der True = Some b"
    "t = (''-----BEGIN '' @ ''RSA PUBLIC KEY'' @ ''-----'' @ [NL]) @ b @ ''-----END '' @ ''RSA PUBLIC KEY'' @ ''-----'' @ [NL]"
  then show thesis using that [of m b] by (simp add: pem_text_def)
qed

text \<open>The parts of an entry.\<close>

lemma digest_size: "base64_encode_size 20 False = Some 28"
  by (simp add: base64_encode_size_def ceil_div_def INT32_MAX_def)

lemma sri_text_parts:
  assumes "sri_text ri = Some t" "acceptable pk ri der"
  obtains d e b k64 m where
    "base64_encode_nopad 29 (identity_digest ri) = Some d"
    "base64_encode_nopad 256 (ed_signing_key ri) = Some e"
    "base64_encode 128 (onion_curve25519_pkey ri) True = Some (k64 @ [NL])"
    "base64_encode m der True = Some b" "length b \<le> 800"
    "word d" "word e" "word k64" "length k64 = 44"
    "t = item_line ''r'' [nickname ri, d, tor_inet_ntoa (ipv4_addr ri), show_nat (unat (ipv4_orport ri))] @
       NL # item_line ''onion-key'' [] @ NL # pem_text ''RSA PUBLIC KEY'' b @ NL #
       item_line ''ntor-onion-key'' [k64] @ NL # item_line ''id'' [''ed25519'', e] @ [NL]"
proof -
  have wf: "wf_router ri" and pem: "pem_encode 4096 der ''RSA PUBLIC KEY'' = Some (onion_pkey_pem ri)"
    using assms(2) by (auto simp: acceptable_def)
  obtain d kbuf e where enc: "base64_encode_nopad 29 (identity_digest ri) = Some d"
      "base64_encode 128 (onion_curve25519_pkey ri) True = Some kbuf" "base64_encode_nopad 256 (ed_signing_key ri) = Some e"
    and t: "t = ''r '' @ nickname ri @ '' '' @ d @ '' '' @ tor_inet_ntoa (ipv4_addr ri) @ '' '' @
        show_nat (unat (ipv4_orport ri)) @ [NL] @ ''onion-key'' @ [NL] @ onion_pkey_pem ri @
        ''ntor-onion-key '' @ kbuf @ ''id ed25519 '' @ e @ [NL]"
    using assms(1) digest256_to_base64_text [of "ed_signing_key ri"] wf
    by (auto simp: sri_text_def ed25519_public_to_base64_def wf_router_def digest_size split: option.splits)
  obtain b m where b: "base64_encode m der True = Some b" "onion_pkey_pem ri = pem_text ''RSA PUBLIC KEY'' b @ [NL]"
    using pem_encode_text [OF pem] .
  have "length b \<le> length (onion_pkey_pem ri)" by (simp add: b(2) pem_text_def)
  then have blen: "length b \<le> 800" using wf by (simp add: wf_router_def)
  define k64 where "k64 = encode_loop 0 0 (onion_curve25519_pkey ri)"
  have k: "length k64 = 44" using wf by (simp add: k64_def length_encode_loop wf_router_def ceil_div_def)
  then have kbuf: "kbuf = k64 @ [NL]"
    using enc(2) encode_chars_one_line [of 0 k64] by (simp add: base64_encode_def k64_def Let_def split: if_splits option.splits)
  have "d \<noteq> []" "e \<noteq> []"
    using base64_decode_encode [OF _ _ disjI2 [OF enc(1)], of 20] base64_decode_encode [OF _ _ disjI2 [OF enc(3)], of 32] wf
    by (auto simp: wf_router_def INT32_MAX_def base64_decode_def decode_finish_def)
  then have words: "word d" "word e" using base64_text_chars(2) enc base64_word by blast+
  have "list_all base64_char k64"
    using encode_loop_chars [of 0 0 "onion_curve25519_pkey ri"] by (auto simp: k64_def list_all_iff base64_char_def)
  then have "word k64" using k by (intro base64_word) auto
  moreover have "t = item_line ''r'' [nickname ri, d, tor_inet_ntoa (ipv4_addr ri), show_nat (unat (ipv4_orport ri))] @
       NL # item_line ''onion-key'' [] @ NL # pem_text ''RSA PUBLIC KEY'' b @ NL #
       item_line ''ntor-onion-key'' [k64] @ NL # item_line ''id'' [''ed25519'', e] @ [NL]"
    by (simp add: t b(2) kbuf item_line_def)
  ultimately show ?thesis using that enc b(1) blen kbuf words k by blast
qed

text \<open>One step of the tokenizer on a line without an object, and on one with a key.\<close>

lemma tokenize_line:
  fixes pk :: "'k pk_lib"
  assumes kw: "word kw" "kw \<noteq> ''opt''" and ws: "\<forall>w \<in> set ws. word w" "length ws \<le> MAX_ARGS"
    and r: "find (\<lambda>r. rule_t r = kw) table = Some r" "\<not> concat_args r"
      "min_args r \<le> int (length ws)" "int (length ws) \<le> max_args r" "os r = NO_OBJ"
    and len: "length (item_line kw ws) \<le> MAX_LINE_LENGTH"
    and rest: "eat_whitespace_eos rest = rest" "rest = [] \<or> hd rest \<noteq> CHR ''-''"
  shows "tokenize_loop pk table (item_line kw ws @ NL # rest) out =
    tokenize_loop pk table rest (out @ [\<lparr>tp = rule_v r, args = ws, object_type = None, object_body = None, key = None\<rparr>])"
proof -
  have "get_next_token pk table (item_line kw ws @ NL # rest) =
      Inr (\<lparr>tp = rule_v r, args = ws, object_type = None, object_body = None, key = None\<rparr>, rest)"
    using get_next_token_item [OF kw ws r(1-4) len, where pk = pk and rest = rest] rest(1) r(5)
    by (simp add: token_check_object_def read_object_none [OF rest(2)])
  then show ?thesis using rest(1) by (simp add: tokenize_loop.simps [of pk table "item_line kw ws @ NL # rest"])
qed

lemma tokenize_key:
  fixes pk :: "'k pk_lib"
  assumes kw: "word kw" "kw \<noteq> ''opt''"
    and r: "find (\<lambda>r. rule_t r = kw) table = Some r" "\<not> concat_args r" "min_args r \<le> 0" "0 \<le> max_args r" "os r = NEED_KEY_1024"
    and len: "length kw \<le> MAX_LINE_LENGTH"
    and b: "base64_encode m der True = Some b" "length b \<le> MAX_UNPARSED_OBJECT_SIZE"
    and key: "pk_asn1_decode pk der = Some k" "pk_num_bits pk k = 1024" "\<not> pk_is_private pk k"
    and rest: "eat_whitespace_eos rest = rest"
  shows "tokenize_loop pk table (item_line kw [] @ NL # pem_text ''RSA PUBLIC KEY'' b @ NL # rest) out =
    tokenize_loop pk table rest (out @ [\<lparr>tp = rule_v r, args = [], object_type = Some ''RSA PUBLIC KEY'',
      object_body = Some der, key = Some k\<rparr>])"
proof -
  let ?tok = "\<lparr>tp = rule_v r, args = [], object_type = Some ''RSA PUBLIC KEY'', object_body = Some der, key = Some k\<rparr>"
  have eat: "eat_whitespace_eos (pem_text ''RSA PUBLIC KEY'' b @ NL # rest) = pem_text ''RSA PUBLIC KEY'' b @ NL # rest"
    by (simp add: pem_text_def is_blank_def NL_def)
  have "get_next_token pk table (item_line kw [] @ NL # pem_text ''RSA PUBLIC KEY'' b @ NL # rest) = Inr (?tok, NL # rest)"
    using get_next_token_item [OF kw, where ws = "[]" and pk = pk and rest = "pem_text ''RSA PUBLIC KEY'' b @ NL # rest"]
      r len read_object_pem [OF b key(1), of NEED_KEY_1024 _ rest] key(2,3)
    by (simp add: eat token_check_object_def PK_BYTES_def item_line_def)
  moreover have "eat_whitespace_eos (NL # rest) = rest" using rest by simp
  ultimately show ?thesis
    by (simp add: tokenize_loop.simps [of pk table "item_line kw [] @ NL # pem_text ''RSA PUBLIC KEY'' b @ NL # rest"])
qed

lemma eat_item_line: "word kw \<Longrightarrow> eat_whitespace_eos (item_line kw ws @ r) = item_line kw ws @ r"
  by (simp add: item_line_def eat_whitespace_word)

lemma entry_keywords: "word ''r''" "word ''onion-key''" "word ''ntor-onion-key''" "word ''id''" "word ''ed25519''"
  by (simp_all add: word_def ends_word_def is_blank_def NL_def)

lemma base64_short:
  "base64_encode_nopad m bs = Some d \<Longrightarrow> length d \<le> ceil_div (length bs) 3 * 4"
  by (auto simp: base64_encode_nopad_def base64_encode_def Let_def length_encode_loop [symmetric] split: if_splits option.splits)

lemma entry_tokenize_loop:
  fixes pk :: "'k pk_lib"
  assumes words: "word nick" "word d" "word addr" "word port" "word k64" "word e"
    and short: "length nick \<le> 19" "length d \<le> 28" "length addr \<le> 15" "length port \<le> 5" "length k64 = 44" "length e \<le> 44"
    and b: "base64_encode m der True = Some b" "length b \<le> 800"
    and key: "pk_asn1_decode pk der = Some k" "pk_num_bits pk k = 1024" "\<not> pk_is_private pk k"
  shows "tokenize_loop pk rtrstatus_token_table
      (item_line ''r'' [nick, d, addr, port] @ NL # item_line ''onion-key'' [] @ NL # pem_text ''RSA PUBLIC KEY'' b @ NL #
       item_line ''ntor-onion-key'' [k64] @ NL # item_line ''id'' [''ed25519'', e] @ [NL]) [] =
    Inr [\<lparr>tp = K_R, args = [nick, d, addr, port], object_type = None, object_body = None, key = None\<rparr>,
      \<lparr>tp = K_ONION_KEY, args = [], object_type = Some ''RSA PUBLIC KEY'', object_body = Some der, key = Some k\<rparr>,
      \<lparr>tp = K_ONION_KEY_NTOR, args = [k64], object_type = None, object_body = None, key = None\<rparr>,
      \<lparr>tp = K_ID, args = [''ed25519'', e], object_type = None, object_body = None, key = None\<rparr>]"
proof -
  let ?T = rtrstatus_token_table
  have find: "find (\<lambda>r. rule_t r = ''r'') ?T = Some (?T ! 0)" "find (\<lambda>r. rule_t r = ''onion-key'') ?T = Some (?T ! 1)"
    "find (\<lambda>r. rule_t r = ''ntor-onion-key'') ?T = Some (?T ! 2)" "find (\<lambda>r. rule_t r = ''id'') ?T = Some (?T ! 3)"
    by (simp_all add: rtrstatus_token_table_def)
  note lens = MAX_LINE_LENGTH_def MAX_ARGS_def item_line_def
  have big: "length b \<le> MAX_UNPARSED_OBJECT_SIZE" using b(2) by (simp add: MAX_UNPARSED_OBJECT_SIZE_def)
  define s4 where "s4 = item_line ''id'' [''ed25519'', e] @ [NL]"
  define s3 where "s3 = item_line ''ntor-onion-key'' [k64] @ NL # s4"
  define s2 where "s2 = item_line ''onion-key'' [] @ NL # pem_text ''RSA PUBLIC KEY'' b @ NL # s3"
  have eat: "eat_whitespace_eos s2 = s2" "eat_whitespace_eos s3 = s3" "eat_whitespace_eos s4 = s4"
    unfolding s2_def s3_def s4_def by (rule eat_item_line entry_keywords)+
  have hd: "hd s2 \<noteq> CHR ''-''" "hd s4 \<noteq> CHR ''-''" by (simp_all add: s2_def s4_def item_line_def)
  have 1: "tokenize_loop pk ?T (item_line ''r'' [nick, d, addr, port] @ NL # s2) [] =
      tokenize_loop pk ?T s2 [\<lparr>tp = K_R, args = [nick, d, addr, port], object_type = None, object_body = None, key = None\<rparr>]"
    using words short eat hd
    by (subst tokenize_line [OF entry_keywords(1) _ _ _ find(1)]) (simp_all add: rtrstatus_token_table_def lens INT_MAX_def)
  have 2: "tokenize_loop pk ?T s2 out = tokenize_loop pk ?T s3 (out @ [\<lparr>tp = K_ONION_KEY, args = [],
      object_type = Some ''RSA PUBLIC KEY'', object_body = Some der, key = Some k\<rparr>])" for out
    unfolding s2_def using eat
    by (subst tokenize_key [OF entry_keywords(2) _ find(2) _ _ _ _ _ b(1) big key]) (simp_all add: rtrstatus_token_table_def lens)
  have 3: "tokenize_loop pk ?T s3 out = tokenize_loop pk ?T s4 (out @ [\<lparr>tp = K_ONION_KEY_NTOR, args = [k64],
      object_type = None, object_body = None, key = None\<rparr>])" for out
    unfolding s3_def using words short eat hd
    by (subst tokenize_line [OF entry_keywords(3) _ _ _ find(3)]) (simp_all add: rtrstatus_token_table_def lens INT_MAX_def)
  have 4: "tokenize_loop pk ?T s4 out = Inr (out @ [\<lparr>tp = K_ID, args = [''ed25519'', e],
      object_type = None, object_body = None, key = None\<rparr>])" for out
    unfolding s4_def using words short entry_keywords(5)
    by (subst tokenize_line [OF entry_keywords(4) _ _ _ find(4)])
      (simp_all add: rtrstatus_token_table_def lens INT_MAX_def tokenize_loop.simps [of pk _ "[]"])
  show ?thesis using 1 2 3 4 by (simp add: s2_def s3_def s4_def)
qed

lemma pem_text_chars:
  assumes "base64_encode m der True = Some b"
  shows "NUL \<notin> set (pem_text ''RSA PUBLIC KEY'' b)"
  using base64_text_chars(3) [OF assms] base64_char_not
  by (auto simp: pem_text_def list_all_iff NL_def base64_char_def base64_encode_table_def)

lemma digest_from_nopad:
  "base64_encode_nopad m bs = Some d \<Longrightarrow> length bs = 20 \<Longrightarrow> digest_from_base64 d = Some bs"
  "base64_encode_nopad m bs = Some d \<Longrightarrow> length bs = 32 \<Longrightarrow> ed25519_public_from_base64 d = Some bs"
  using base64_decode_encode [OF _ _ disjI2, of bs _ m d]
  by (auto simp: digest_from_base64_def ed25519_public_from_base64_def digest256_from_base64_def INT32_MAX_def)

lemma curve25519_from_line:
  assumes "base64_encode m bs True = Some (k64 @ [NL])" "length bs = 32" "length k64 = 44"
  shows "curve25519_public_from_base64 k64 = Some bs"
proof -
  have "base64_decode 45 (k64 @ [NL]) = Some bs"
    using base64_decode_encode [OF _ _ disjI1 [OF assms(1)]] assms(2) by (simp add: INT32_MAX_def)
  then have "base64_decode 45 k64 = Some bs"
    by (simp add: base64_decode_def decode_loop_NL del: decode_loop.simps split: if_splits)
  then show ?thesis using assms(2,3) by (simp add: curve25519_public_from_base64_def)
qed

lemma tor_parse_port: "tor_parse_long (show_nat (unat (p :: uint16))) 0 65535 False = (int (unat p), True, [])"
proof -
  have "unat p < 2 ^ LENGTH(16)" by (rule unsigned_less)
  then have "unat p \<le> 65535" by simp
  then have "int (unat p) \<le> 65535" by (metis of_nat_le_iff of_nat_numeral)
  then show ?thesis
    using strtol10_show_nat [of "[]" "unat p"] show_nat_nonempty [of "unat p"]
    by (auto simp: tor_parse_long_def check_strtox_def LONG_MAX_def simp del: show_nat_nonempty)
qed

lemma entry_parse:
  assumes "sri_text ri = Some t" "acceptable pk ri der"
  shows "\<exists>tokens. tokenize_string pk t [] rtrstatus_token_table no_tokenize_flags = Inr tokens \<and>
    routerstatus_of_tokens pk FLAV_MICRODESC tokens = Parsed (status_of ri der)"
proof -
  obtain k where key: "pk_asn1_decode pk der = Some k" "pk_num_bits pk k = 1024" "\<not> pk_is_private pk k" "pk_exponent_ok pk k"
    using assms(2) by (auto simp: acceptable_def)
  have wf: "wf_router ri" and legal: "is_legal_nickname (nickname ri)" using assms(2) by (auto simp: acceptable_def)
  obtain d e b k64 m where d: "base64_encode_nopad 29 (identity_digest ri) = Some d"
    and e: "base64_encode_nopad 256 (ed_signing_key ri) = Some e"
    and kb: "base64_encode 128 (onion_curve25519_pkey ri) True = Some (k64 @ [NL])"
    and b: "base64_encode m der True = Some b" "length b \<le> 800"
    and words: "word d" "word e" "word k64" "length k64 = 44"
    and t: "t = item_line ''r'' [nickname ri, d, tor_inet_ntoa (ipv4_addr ri), show_nat (unat (ipv4_orport ri))] @
       NL # item_line ''onion-key'' [] @ NL # pem_text ''RSA PUBLIC KEY'' b @ NL #
       item_line ''ntor-onion-key'' [k64] @ NL # item_line ''id'' [''ed25519'', e] @ [NL]"
    by (rule sri_text_parts [OF assms])
  have port: "word (show_nat (unat (ipv4_orport ri)))" by (rule digit_word) (auto dest: show_nat_digits)
  have "unat (ipv4_orport ri) < 2 ^ LENGTH(16)" by (rule unsigned_less)
  then have plen: "length (show_nat (unat (ipv4_orport ri))) \<le> 5" by (intro length_show_nat) simp_all
  let ?ws = "[nickname ri, d, tor_inet_ntoa (ipv4_addr ri), show_nat (unat (ipv4_orport ri))]"
  have ws: "\<forall>w \<in> set ?ws. word w" using nickname_word [OF legal] words ntoa_word port by auto
  define tokens where "tokens = [\<lparr>tp = K_R, args = ?ws, object_type = None, object_body = None, key = None\<rparr>,
      \<lparr>tp = K_ONION_KEY, args = [], object_type = Some ''RSA PUBLIC KEY'', object_body = Some der, key = Some k\<rparr>,
      \<lparr>tp = K_ONION_KEY_NTOR, args = [k64], object_type = None, object_body = None, key = None\<rparr>,
      \<lparr>tp = K_ID, args = [''ed25519'', e], object_type = None, object_body = None, key = None\<rparr>]"
  have loop: "tokenize_loop pk rtrstatus_token_table t [] = Inr tokens"
    unfolding t tokens_def
    using wf base64_short [OF d] base64_short [OF e] tor_inet_ntoa_short(1) plen words b
    by (intro entry_tokenize_loop [where m = m] nickname_word [OF legal] ntoa_word port key(1-3)) (auto simp: wf_router_def ceil_div_def)
  have items: "NUL \<notin> set (item_line ''r'' ?ws)" "NUL \<notin> set (item_line ''onion-key'' [])"
    "NUL \<notin> set (item_line ''ntor-onion-key'' [k64])" "NUL \<notin> set (item_line ''id'' [''ed25519'', e])"
    using item_line_chars(2) [OF entry_keywords(1) ws] item_line_chars(2) [OF entry_keywords(2), of "[]"]
      item_line_chars(2) [OF entry_keywords(3), of "[k64]"] item_line_chars(2) [OF entry_keywords(4), of "[''ed25519'', e]"]
      words entry_keywords(5) by auto
  have nul: "NUL \<notin> set t"
    using items pem_text_chars [OF b(1)] unfolding t by (simp add: NL_def)
  have rules: "check_rules tokens 0 rtrstatus_token_table = None"
    by (simp add: tokens_def rtrstatus_token_table_def rule_error_def count_tp_def INT_MAX_def)
  have "tokenize_string pk t [] rtrstatus_token_table no_tokenize_flags = Inr tokens"
    using nul loop rules
    by (simp add: tokenize_string_def no_tokenize_flags_def check_annotations_def is_annotation_def tokens_def)
  moreover have "routerstatus_of_tokens pk FLAV_MICRODESC tokens = Parsed (status_of ri der)"
    using legal digest_from_nopad(1) [OF d] digest_from_nopad(2) [OF e] curve25519_from_line [OF kb _ words(4)] wf key(4)
    by (simp add: routerstatus_of_tokens_def tokens_def find_by_keyword_def find_opt_by_keyword_def find_all_by_keyword_def
        inet_aton_ntoa tor_parse_port status_of_def wf_router_def MAX_NICKNAME_LEN_def Let_def)
  ultimately show ?thesis by blast
qed

lemma entry_lines:
  assumes "sri_text ri = Some t" "acceptable pk ri der"
  obtains L where "t = text_lines L" "\<forall>l \<in> set L. NL \<notin> set l" "L \<noteq> []"
    "\<forall>l \<in> set (tl L). \<not> starts_with l ''r '' \<and> \<not> starts_with l ''directory-footer'' \<and> \<not> starts_with l ''directory-signature''"
    "starts_with t ''r ''"
proof -
  obtain d e b k64 m where b: "base64_encode m der True = Some b"
    and words: "word d" "word e" "word k64"
    and t: "t = item_line ''r'' [nickname ri, d, tor_inet_ntoa (ipv4_addr ri), show_nat (unat (ipv4_orport ri))] @
       NL # item_line ''onion-key'' [] @ NL # pem_text ''RSA PUBLIC KEY'' b @ NL #
       item_line ''ntor-onion-key'' [k64] @ NL # item_line ''id'' [''ed25519'', e] @ [NL]"
    by (rule sri_text_parts [OF assms])
  have legal: "is_legal_nickname (nickname ri)" using assms(2) by (simp add: acceptable_def)
  have port: "word (show_nat (unat (ipv4_orport ri)))" by (rule digit_word) (auto dest: show_nat_digits)
  let ?ws = "[nickname ri, d, tor_inet_ntoa (ipv4_addr ri), show_nat (unat (ipv4_orport ri))]"
  have ws: "\<forall>w \<in> set ?ws. word w" using nickname_word [OF legal] words ntoa_word port by auto
  obtain Lb where Lb: "b = text_lines Lb" "\<forall>l \<in> set Lb. NL \<notin> set l \<and> set l \<subseteq> set b"
    using lines_exist [OF base64_multiline_end [OF b]] by blast
  let ?L = "item_line ''r'' ?ws # [item_line ''onion-key'' [], ''-----BEGIN RSA PUBLIC KEY-----''] @ Lb @
    [''-----END RSA PUBLIC KEY-----'', item_line ''ntor-onion-key'' [k64], item_line ''id'' [''ed25519'', e]]"
  have eq: "t = text_lines ?L" by (simp add: t Lb(1) pem_text_def)
  have nl: "\<forall>l \<in> set ?L. NL \<notin> set l"
    using item_line_chars(1) [OF entry_keywords(1) ws] item_line_chars(1) [OF entry_keywords(2), of "[]"]
      item_line_chars(1) [OF entry_keywords(3), of "[k64]"] item_line_chars(1) [OF entry_keywords(4), of "[''ed25519'', e]"]
      words entry_keywords(5) Lb(2) by (auto simp: NL_def)
  have b64: "\<not> starts_with l ''r '' \<and> \<not> starts_with l ''directory-footer'' \<and> \<not> starts_with l ''directory-signature''"
    if "l \<in> set Lb" for l
  proof -
    have "\<forall>c \<in> set l. base64_char c"
      using that Lb(2) base64_text_chars(3) [OF b] by (auto simp: list_all_iff)
    then have no: "CHR '' '' \<notin> set l" "CHR ''-'' \<notin> set l" using base64_char_not ends_word_space by blast+
    have mem: "c \<in> set l" if "starts_with l p" "c \<in> set p" for p c using that by (auto simp: starts_with_iff)
    show ?thesis
      using no mem [of "''r ''" "CHR '' ''"] mem [of "''directory-footer''" "CHR ''-''"]
        mem [of "''directory-signature''" "CHR ''-''"] by auto
  qed
  have "\<forall>l \<in> set (tl ?L). \<not> starts_with l ''r '' \<and> \<not> starts_with l ''directory-footer'' \<and> \<not> starts_with l ''directory-signature''"
    using b64 by (auto simp: starts_with_def item_line_def)
  moreover have "starts_with t ''r ''" by (simp add: t item_line_def starts_with_def)
  ultimately show ?thesis using that [of ?L] eq nl by blast
qed

lemma entry_from_text:
  assumes "sri_text ri = Some t" "acceptable pk ri der" "rest = [] \<or> starts_with rest ''r ''"
  shows "routerstatus_parse_entry_from_string pk 29 FLAV_MICRODESC (t @ rest) = (Parsed (status_of ri der), rest)"
proof -
  obtain L where "t = text_lines L" "\<forall>l \<in> set L. NL \<notin> set l" "L \<noteq> []"
    "\<forall>l \<in> set (tl L). \<not> starts_with l ''r '' \<and> \<not> starts_with l ''directory-footer'' \<and> \<not> starts_with l ''directory-signature''"
    by (rule entry_lines [OF assms(1,2)])
  then have "find_start_of_next_routerstatus (t @ rest) = length t" using find_start_lines assms(3) by blast
  then show ?thesis
    using entry_parse [OF assms(1,2)] by (auto simp: routerstatus_parse_entry_from_string_def Let_def)
qed

subsection \<open>Reading the whole file\<close>

text \<open>The file of a client: the entries of the routers, one after the other.\<close>

definition entries_text :: "routerinfo list \<Rightarrow> string" where
  "entries_text ris = concat (map (\<lambda>ri. case sri_text ri of None \<Rightarrow> [] | Some t \<Rightarrow> t) ris)"

lemma rs_loop_entries:
  assumes "list_all2 (\<lambda>ri der. acceptable pk ri der) ris ders"
  shows "rs_loop pk 29 FLAV_MICRODESC (entries_text ris) = Parsed (map2 status_of ris ders) \<and>
    (entries_text ris = [] \<or> starts_with (entries_text ris) ''r '')"
  using assms
proof (induction ris ders rule: list_all2_induct)
  case Nil
  then show ?case by (simp add: entries_text_def rs_loop.simps starts_with_def)
next
  case (Cons ri ris der ders)
  obtain t where t: "sri_text ri = Some t" using sri_text_wf Cons(1) by (auto simp: acceptable_def)
  have "starts_with t ''r ''" using entry_lines [OF t Cons(1)] by blast
  then have st: "starts_with (t @ entries_text ris) ''r ''" by (auto simp: starts_with_iff)
  have parse: "routerstatus_parse_entry_from_string pk 29 FLAV_MICRODESC (t @ entries_text ris) =
      (Parsed (status_of ri der), entries_text ris)"
    using entry_from_text [OF t Cons(1)] Cons(3) by blast
  have txt_eq: "entries_text (ri # ris) = t @ entries_text ris" by (simp add: entries_text_def t)
  have "rs_loop pk 29 FLAV_MICRODESC (t @ entries_text ris) = Parsed (map2 status_of (ri # ris) (der # ders))"
    using st parse Cons(3) by (subst rs_loop.simps) simp
  then show ?case using st txt_eq by simp
qed

lemma constants_ok: "in_order flag_names" "list_all weight_ok bw_weights"
  by (simp_all add: flag_names_def str_less_def str_key_def bw_weights_def weight_ok_def tor_parse_long_def
      check_strtox_def strtol10_def strto_sign_def is_space_def is_digit_def digits_val_def digit_val_def
      INT_MAX_def LONG_MAX_def LONG_MIN_def)

text \<open>The consensus with the given routers.\<close>

definition consensus_of :: "routerstatus list \<Rightarrow> networkstatus" where
  "consensus_of rss = \<lparr>ns_flavor = FLAV_MICRODESC, consensus_method = 29, valid_after = 0,
     recommended_client_protocols = client_protocols, recommended_relay_protocols = client_protocols,
     required_client_protocols = client_protocols, required_relay_protocols = relay_protocols,
     known_flags = flag_names, routerstatus_list = rss, weight_params = bw_weights\<rparr>"

lemma parse_vote_loop:
  "networkstatus_parse_vote_from_string pk True s =
     (case rs_loop pk 29 FLAV_MICRODESC s of
        Parsed rss \<Rightarrow> Parsed (consensus_of rss) | Rejected \<Rightarrow> Rejected | Aborted \<Rightarrow> Aborted)"
  by (simp add: networkstatus_parse_vote_from_string_def constants_ok consensus_of_def split: parsed.split)

lemma parse_vote_other:
  "\<not> starts_with s ''r '' \<Longrightarrow> networkstatus_parse_vote_from_string pk True s = Parsed (consensus_of [])"
  by (simp add: parse_vote_loop rs_loop.simps)

text \<open>
  C7. A client reads what the relays wrote: when its file is the concatenation of the entries of
  routers, each with a legal nickname and a 1024-bit onion key, parsing succeeds and the consensus
  lists exactly these routers, in order, with their nickname, identity, address, port and keys.
\<close>

theorem networkstatus_roundtrip:
  assumes "list_all2 (acceptable pk) ris ders"
  shows "networkstatus_parse_vote_from_string pk True (entries_text ris) = Parsed (consensus_of (map2 status_of ris ders))"
  using rs_loop_entries [OF assms] by (simp add: parse_vote_loop)

definition demo_pk :: "unit pk_lib" where
  "demo_pk = \<lparr>pk_asn1_decode = (\<lambda>bs. if bs = [1, 255, 7, 16] then Some () else None), pk_num_bits = (\<lambda>_. 1024),
     pk_is_private = (\<lambda>_. False), pk_exponent_ok = (\<lambda>_. True)\<rparr>"

definition demo_key_router :: routerinfo where
  "demo_key_router = \<lparr>nickname = ''relay'', identity_digest = replicate 20 7, ipv4_addr = 0x7F000001, ipv4_orport = 9001,
     onion_pkey_pem = ''-----BEGIN RSA PUBLIC KEY-----'' @ [NL] @ ''Af8HEA=='' @ [NL] @ ''-----END RSA PUBLIC KEY-----'' @ [NL],
     onion_curve25519_pkey = replicate 32 3, ed_signing_key = replicate 32 5\<rparr>"

lemma demo_acceptable: "acceptable demo_pk demo_key_router [1, 255, 7, 16]"
proof -
  have "pem_encode 4096 [1, 255, 7, 16] ''RSA PUBLIC KEY'' = Some (onion_pkey_pem demo_key_router)"
    by (simp add: pem_encode_def base64_encode_def base64_encode_size_def ceil_div_def BASE64_OPENSSL_LINELEN_def
        encode_n_def base64_encode_table_def NL_def demo_key_router_def INT32_MAX_def SIZE_T_CEILING_def)
  moreover have "wf_router demo_key_router" by (simp add: wf_router_def demo_key_router_def NL_def)
  moreover have "is_legal_nickname (nickname demo_key_router)"
    by (simp add: is_legal_nickname_def demo_key_router_def MAX_NICKNAME_LEN_def LEGAL_NICKNAME_CHARACTERS_def)
  ultimately show ?thesis by (simp add: acceptable_def demo_pk_def)
qed

theorem networkstatus_roundtrip_witness:
  "networkstatus_parse_vote_from_string demo_pk True (entries_text [demo_key_router]) =
     Parsed (consensus_of [status_of demo_key_router [1, 255, 7, 16]])"
  using networkstatus_roundtrip [of demo_pk "[demo_key_router]" "[[1, 255, 7, 16]]"] demo_acceptable by simp

end
