(* ===== verification/Consensus.thy ===== *)
theory Consensus
  imports Netstatus_Parse
begin

text \<open>
  Installing and refreshing the client's consensus: \<^verbatim>\<open>src/BADNET/src/feature/nodelist/networkstatus.c\<close>, the
  periodic callback of \<^verbatim>\<open>core/mainloop/mainloop.c\<close> and \<^verbatim>\<open>SC/Client.py\<close>. The configuration and the files are
  parameters. The notifications of other subsystems about a new consensus are left out.
\<close>

subsection \<open>Flavors and options\<close>

record ns_options =
  server_mode :: bool
  any_client_port_set :: bool
  UseMicrodescriptors :: bool
  wants_all_flavors :: bool
  release_date :: int
  cache_dir :: string

definition is_client :: "ns_options \<Rightarrow> bool" where
  "is_client opts \<longleftrightarrow> any_client_port_set opts \<or> \<not> server_mode opts"

definition networkstatus_get_flavor_name :: "consensus_flavor \<Rightarrow> string" where
  "networkstatus_get_flavor_name flav = (case flav of FLAV_NS \<Rightarrow> ''ns'' | FLAV_MICRODESC \<Rightarrow> ''microdesc'')"

definition networkstatus_parse_flavor_name :: "string \<Rightarrow> consensus_flavor option" where
  "networkstatus_parse_flavor_name flavname =
     (if flavname = ''ns'' then Some FLAV_NS else if flavname = ''microdesc'' then Some FLAV_MICRODESC else None)"

definition we_use_microdescriptors_for_circuits :: "ns_options \<Rightarrow> bool" where
  "we_use_microdescriptors_for_circuits opts = UseMicrodescriptors opts"

definition usable_consensus_flavor :: "ns_options \<Rightarrow> consensus_flavor" where
  "usable_consensus_flavor opts = (if we_use_microdescriptors_for_circuits opts then FLAV_MICRODESC else FLAV_NS)"

text \<open>\<open>wants_all_flavors\<close> stands for an authority, a directory cache or \<^verbatim>\<open>FetchUselessDescriptors\<close>.\<close>

definition we_want_to_fetch_flavor :: "ns_options \<Rightarrow> consensus_flavor \<Rightarrow> bool" where
  "we_want_to_fetch_flavor opts flavor \<longleftrightarrow> wants_all_flavors opts \<or> flavor = usable_consensus_flavor opts"

subsection \<open>Required protocols\<close>

text \<open>Whether to exit, and the warning's list of missing protocols.\<close>

definition networkstatus_check_required_protocols :: "ns_options \<Rightarrow> networkstatus \<Rightarrow> bool \<Rightarrow> bool \<times> string option" where
  "networkstatus_check_required_protocols opts ns client_mode =
     (if \<not> valid_after ns \<ge> release_date opts then (False, None)
      else let required = (if client_mode then required_client_protocols ns else required_relay_protocols ns);
               recommended = (if client_mode then recommended_client_protocols ns else recommended_relay_protocols ns)
           in case protover_all_supported (Some required) of
                (False, missing) \<Rightarrow> (True, missing)
              | (True, _) \<Rightarrow>
                  (case protover_all_supported (Some recommended) of
                     (False, missing) \<Rightarrow> (False, missing)
                   | (True, _) \<Rightarrow> (False, None)))"

text \<open>Whether the process exits.\<close>

definition handle_missing_protocol_warning_impl :: "ns_options \<Rightarrow> networkstatus \<Rightarrow> bool \<Rightarrow> bool" where
  "handle_missing_protocol_warning_impl opts c client = fst (networkstatus_check_required_protocols opts c client)"

definition handle_missing_protocol_warning :: "ns_options \<Rightarrow> networkstatus \<Rightarrow> bool" where
  "handle_missing_protocol_warning opts c \<longleftrightarrow>
     (server_mode opts \<and> handle_missing_protocol_warning_impl opts c False) \<or>
     (is_client opts \<and> handle_missing_protocol_warning_impl opts c True)"

subsection \<open>Looking up and carrying over entries\<close>

definition digest_cmp :: "byte list \<Rightarrow> byte list \<Rightarrow> int" where
  "digest_cmp a b = cmp_keys (map unat a) (map unat b)"

definition compare_digest_to_routerstatus_entry :: "byte list \<Rightarrow> routerstatus \<Rightarrow> int" where
  "compare_digest_to_routerstatus_entry digest rs = digest_cmp digest (rs_identity_digest rs)"

definition networkstatus_vote_find_entry :: "networkstatus \<Rightarrow> byte list \<Rightarrow> routerstatus option option" where
  "networkstatus_vote_find_entry ns digest =
     smartlist_bsearch compare_digest_to_routerstatus_entry digest (routerstatus_list ns)"

definition networkstatus_vote_find_entry_idx :: "networkstatus \<Rightarrow> byte list \<Rightarrow> (bool \<times> int) option" where
  "networkstatus_vote_find_entry_idx ns digest =
     smartlist_bsearch_idx compare_digest_to_routerstatus_entry digest (routerstatus_list ns)"

definition copy_local_info :: "routerstatus \<Rightarrow> routerstatus \<Rightarrow> routerstatus" where
  "copy_local_info rs_old rs_new =
     (let r = rs_new\<lparr>last_dir_503_at := last_dir_503_at rs_old\<rparr>
      in if rs_descriptor_digest rs_old = rs_descriptor_digest rs_new then r\<lparr>dl_status := dl_status rs_old\<rparr> else r)"

text \<open>The join of the old list with the new one: both are walked forward, as if they were sorted.\<close>

fun join_old_new :: "routerstatus list \<Rightarrow> routerstatus list \<Rightarrow> routerstatus list" where
  "join_old_new olds [] = []"
| "join_old_new olds (rs_new # news) =
     (let olds1 = dropWhile (\<lambda>rs_old. digest_cmp (rs_identity_digest rs_old) (rs_identity_digest rs_new) < 0) olds
      in case olds1 of
           [] \<Rightarrow> rs_new # join_old_new [] news
         | rs_old # _ \<Rightarrow>
             (if digest_cmp (rs_identity_digest rs_old) (rs_identity_digest rs_new) = 0
              then copy_local_info rs_old rs_new else rs_new) # join_old_new olds1 news)"

definition networkstatus_copy_old_consensus_info :: "networkstatus \<Rightarrow> networkstatus \<Rightarrow> networkstatus" where
  "networkstatus_copy_old_consensus_info new_c old_c =
     (if routerstatus_list old_c = [] then new_c
      else new_c\<lparr>routerstatus_list := join_old_new (routerstatus_list old_c) (routerstatus_list new_c)\<rparr>)"

subsection \<open>Installing a consensus\<close>

record consensus_state =
  current_ns_consensus :: "networkstatus option"
  current_md_consensus :: "networkstatus option"

record nsset_flags =
  NSSET_FROM_CACHE :: bool
  NSSET_WAS_WAITING_FOR_CERTS :: bool
  NSSET_DONT_DOWNLOAD_CERTS :: bool
  NSSET_REQUIRE_FLAVOR :: bool

datatype set_result = Returned int | Exited | Asserted

definition take_over :: "networkstatus \<Rightarrow> networkstatus option \<Rightarrow> networkstatus" where
  "take_over c old = (case old of None \<Rightarrow> c | Some oldc \<Rightarrow> networkstatus_copy_old_consensus_info c oldc)"

definition networkstatus_set_current_consensus ::
  "'k pk_lib \<Rightarrow> ns_options \<Rightarrow> string \<Rightarrow> string \<Rightarrow> nsset_flags \<Rightarrow> consensus_state \<Rightarrow> set_result \<times> consensus_state" where
  "networkstatus_set_current_consensus pk opts consensus flavor flags st =
     (case networkstatus_parse_flavor_name flavor of
        None \<Rightarrow> (Returned (-2), st)
      | Some flav \<Rightarrow>
          (case networkstatus_parse_vote_from_string pk True consensus of
             Rejected \<Rightarrow> (Returned (-2), st)
           | Aborted \<Rightarrow> (Asserted, st)
           | Parsed c \<Rightarrow>
               if ns_flavor c \<noteq> flav \<and> NSSET_REQUIRE_FLAVOR flags then (Returned (-1), st)
               else let flav1 = ns_flavor c
                    in if flav1 \<noteq> usable_consensus_flavor opts \<and> \<not> we_want_to_fetch_flavor opts flav1 then (Returned (-1), st)
                       else if handle_missing_protocol_warning opts c then (Exited, st)
                       else (Returned 0,
                             case flav1 of
                               FLAV_NS \<Rightarrow> st\<lparr>current_ns_consensus := Some (take_over c (current_ns_consensus st))\<rparr>
                             | FLAV_MICRODESC \<Rightarrow>
                                 st\<lparr>current_md_consensus := Some (take_over c (current_md_consensus st))\<rparr>)))"

subsection \<open>The files\<close>

definition networkstatus_get_cache_fname :: "ns_options \<Rightarrow> consensus_flavor \<Rightarrow> string \<Rightarrow> bool \<Rightarrow> string" where
  "networkstatus_get_cache_fname opts flav flavorname unverified_consensus =
     (let prefix = (if unverified_consensus then ''unverified'' else ''cached'');
          buf = (if flav = FLAV_NS then prefix @ ''-consensus'' else prefix @ ''-'' @ flavorname @ ''-consensus'')
      in cache_dir opts @ ''/'' @ buf)"

definition clientPath :: string where "clientPath = ''/usr/local/BADNET-V3-client/''"

text \<open>\<^verbatim>\<open>tor_mmap_file\<close> fails on a missing and on an empty file.\<close>

definition tor_mmap_file :: "(string \<Rightarrow> string option) \<Rightarrow> string \<Rightarrow> string option" where
  "tor_mmap_file files fname = (case files fname of None \<Rightarrow> None | Some s \<Rightarrow> if s = [] then None else Some s)"

definition reload_consensus_from_file ::
  "'k pk_lib \<Rightarrow> ns_options \<Rightarrow> (string \<Rightarrow> string option) \<Rightarrow> string \<Rightarrow> string \<Rightarrow> nsset_flags \<Rightarrow> consensus_state \<Rightarrow>
   set_result \<times> consensus_state" where
  "reload_consensus_from_file pk opts files fname0 flavor flags st =
     (let fname = (if is_client opts \<and> fname0 = clientPath @ ''lib/cached-microdesc-consensus''
                   then clientPath @ ''lib/GSRI'' else fname0)
      in case tor_mmap_file files fname of
           None \<Rightarrow> (Returned 0, st)
         | Some data \<Rightarrow> networkstatus_set_current_consensus pk opts data flavor flags st)"

text \<open>A step of a sequence that stops when the process ends.\<close>

definition then_run :: "set_result \<times> 's \<Rightarrow> ('s \<Rightarrow> set_result \<times> 's) \<Rightarrow> set_result \<times> 's" where
  "then_run r f = (case r of (Returned _, st) \<Rightarrow> f st | (e, st) \<Rightarrow> (e, st))"

definition reload_flavor ::
  "'k pk_lib \<Rightarrow> ns_options \<Rightarrow> (string \<Rightarrow> string option) \<Rightarrow> consensus_flavor \<Rightarrow> consensus_state \<Rightarrow> set_result \<times> consensus_state" where
  "reload_flavor pk opts files flav st =
     (let flavor = networkstatus_get_flavor_name flav;
          flags = \<lparr>NSSET_FROM_CACHE = True, NSSET_WAS_WAITING_FOR_CERTS = False, NSSET_DONT_DOWNLOAD_CERTS = True,
                   NSSET_REQUIRE_FLAVOR = False\<rparr>
      in then_run (reload_consensus_from_file pk opts files (networkstatus_get_cache_fname opts flav flavor False) flavor flags st)
           (reload_consensus_from_file pk opts files (networkstatus_get_cache_fname opts flav flavor True) flavor
              (flags\<lparr>NSSET_WAS_WAITING_FOR_CERTS := True\<rparr>)))"

definition router_reload_consensus_networkstatus ::
  "'k pk_lib \<Rightarrow> ns_options \<Rightarrow> (string \<Rightarrow> string option) \<Rightarrow> consensus_state \<Rightarrow> set_result \<times> consensus_state" where
  "router_reload_consensus_networkstatus pk opts files st =
     then_run (then_run (reload_flavor pk opts files FLAV_NS st) (reload_flavor pk opts files FLAV_MICRODESC))
       (\<lambda>st. (Returned 0, st))"

subsection \<open>The digests of the descriptors\<close>

text \<open>The loop that writes the file, from relay \<open>relayID\<close> on, with \<open>loc\<close> digests written.\<close>

fun write_NSD :: "string \<Rightarrow> bool list \<Rightarrow> nat \<Rightarrow> nat \<Rightarrow> string" where
  "write_NSD NSD [] relayID loc = []"
| "write_NSD NSD (listed # NSDIndex) relayID loc =
     (if listed then show_nat (relayID + 1) @ '' '' @ take 64 (drop (loc * 64) NSD) @ [NL] @
                     write_NSD NSD NSDIndex (relayID + 1) (loc + 1)
      else write_NSD NSD NSDIndex (relayID + 1) loc)"

text \<open>The new contents of the file; \<open>None\<close> when the call raises an exception.\<close>

definition clientDownloadNSD :: "bool \<Rightarrow> contract \<Rightarrow> string option" where
  "clientDownloadNSD up c =
     (if \<not> up then None
      else case client_download_NSD c of
             None \<Rightarrow> None
           | Some (NSDIndex, NSD) \<Rightarrow> Some (write_NSD (hexlify NSD) NSDIndex 0 0))"

subsection \<open>The periodic callback\<close>

record client_state =
  client_python :: bool
  NSD_download_times :: int
  NSD_file :: "string option"
  consensuses :: consensus_state

text \<open>What the callback meets: the interpreter, the module, the chain and the files.\<close>

record client_env =
  py_init_ok :: bool
  import_ok :: bool
  chain_up :: bool
  chain_state :: contract
  client_files :: "string \<Rightarrow> string option"

text \<open>The result of the Python call is not tested.\<close>

definition download_NSD_from_blockchain :: "client_env \<Rightarrow> client_state \<Rightarrow> bool \<times> client_state" where
  "download_NSD_from_blockchain env st =
     (if \<not> client_python st \<and> \<not> py_init_ok env then (False, st)
      else let st1 = st\<lparr>client_python := True\<rparr>
           in if \<not> import_ok env then (False, st1)
              else (True, case clientDownloadNSD (chain_up env) (chain_state env) of
                            None \<Rightarrow> st1
                          | Some t \<Rightarrow> st1\<lparr>NSD_file := Some t\<rparr>))"

definition fetch_networkstatus_callback ::
  "'k pk_lib \<Rightarrow> ns_options \<Rightarrow> client_env \<Rightarrow> client_state \<Rightarrow> set_result \<times> client_state" where
  "fetch_networkstatus_callback pk opts env st =
     (if \<not> is_client opts then (Returned 60, st)
      else if NSD_download_times st = 60 then
        (let (ok, st1) = download_NSD_from_blockchain env st
         in if ok then
              (case router_reload_consensus_networkstatus pk opts (client_files env) (consensuses st1) of
                 (Returned _, cs) \<Rightarrow> (Returned 60, st1\<lparr>NSD_download_times := 0, consensuses := cs\<rparr>)
               | (e, cs) \<Rightarrow> (e, st1\<lparr>NSD_download_times := 0, consensuses := cs\<rparr>))
            else (Returned 60, st1))
      else (Returned 60, st\<lparr>NSD_download_times := NSD_download_times st + 1\<rparr>))"

definition client_start :: client_state where
  "client_start = \<lparr>client_python = False, NSD_download_times = 60, NSD_file = None,
     consensuses = \<lparr>current_ns_consensus = None, current_md_consensus = None\<rparr>\<rparr>"

subsection \<open>The installation\<close>

lemma set_consensus_parsed:
  assumes "networkstatus_parse_vote_from_string pk True s = Parsed (consensus_of rss)"
    "UseMicrodescriptors opts" "0 < release_date opts" "flavor = ''microdesc'' \<or> flavor = ''ns'' \<and> \<not> NSSET_REQUIRE_FLAVOR flags"
  shows "networkstatus_set_current_consensus pk opts s flavor flags st =
    (Returned 0, st\<lparr>current_md_consensus := Some (take_over (consensus_of rss) (current_md_consensus st))\<rparr>)"
proof -
  have "\<not> handle_missing_protocol_warning opts (consensus_of rss)"
    using assms(3) by (simp add: handle_missing_protocol_warning_def handle_missing_protocol_warning_impl_def
        networkstatus_check_required_protocols_def consensus_of_def)
  moreover have "ns_flavor (consensus_of rss) = FLAV_MICRODESC" by (simp add: consensus_of_def)
  ultimately show ?thesis
    using assms by (auto simp: networkstatus_set_current_consensus_def networkstatus_parse_flavor_name_def
        usable_consensus_flavor_def we_use_microdescriptors_for_circuits_def Let_def)
qed

lemma rs_loop_result: "rs_loop pk 29 FLAV_MICRODESC s = Rejected \<or> (\<exists>rss. rs_loop pk 29 FLAV_MICRODESC s = Parsed rss)"
  using rs_loop_no_abort [of pk 29 FLAV_MICRODESC s] by (cases "rs_loop pk 29 FLAV_MICRODESC s") auto

lemma set_consensus_cases:
  assumes "0 < release_date opts"
  shows "\<exists>r st'. networkstatus_set_current_consensus pk opts s flavor flags st = (Returned r, st') \<and>
    (r = 0 \<and> (\<exists>rss. networkstatus_parse_vote_from_string pk True s = Parsed (consensus_of rss) \<and>
       st' = st\<lparr>current_md_consensus := Some (take_over (consensus_of rss) (current_md_consensus st))\<rparr>) \<or>
     (r = -1 \<or> r = -2) \<and> st' = st)"
proof (cases "networkstatus_parse_flavor_name flavor")
  case None
  then show ?thesis by (simp add: networkstatus_set_current_consensus_def)
next
  case (Some flav)
  consider "rs_loop pk 29 FLAV_MICRODESC s = Rejected" | rss where "rs_loop pk 29 FLAV_MICRODESC s = Parsed rss"
    using rs_loop_result by blast
  then show ?thesis
  proof cases
    case 1
    then show ?thesis using Some by (simp add: networkstatus_set_current_consensus_def parse_vote_loop)
  next
    case (2 rss)
    then have p: "networkstatus_parse_vote_from_string pk True s = Parsed (consensus_of rss)" by (simp add: parse_vote_loop)
    have "\<not> handle_missing_protocol_warning opts (consensus_of rss)"
      using assms by (simp add: handle_missing_protocol_warning_def handle_missing_protocol_warning_impl_def
          networkstatus_check_required_protocols_def consensus_of_def)
    moreover have "ns_flavor (consensus_of rss) = FLAV_MICRODESC" by (simp add: consensus_of_def)
    ultimately show ?thesis using Some p by (auto simp: networkstatus_set_current_consensus_def Let_def)
  qed
qed

text \<open>
  Installing a consensus never ends the process: whatever the text, \<open>networkstatus_set_current_consensus\<close>
  returns 0, -1 or -2. It replaces the microdescriptor consensus exactly when it returns 0, by the
  parsed one with the local information of the old one; otherwise nothing changes.
\<close>

theorem set_current_consensus_result:
  assumes "0 < release_date opts"
  shows "\<exists>r st'. networkstatus_set_current_consensus pk opts s flavor flags st = (Returned r, st') \<and>
    (r = 0 \<and> (\<exists>rss. networkstatus_parse_vote_from_string pk True s = Parsed (consensus_of rss) \<and>
       st' = st\<lparr>current_md_consensus := Some (take_over (consensus_of rss) (current_md_consensus st))\<rparr>) \<or>
     (r = -1 \<or> r = -2) \<and> st' = st)"
  using assms by (rule set_consensus_cases)

definition demo_options :: ns_options where
  "demo_options = \<lparr>server_mode = False, any_client_port_set = True, UseMicrodescriptors = True, wants_all_flavors = False,
     release_date = 1623628800, cache_dir = ''/usr/local/BADNET-V3-client/lib''\<rparr>"

definition no_flags :: nsset_flags where
  "no_flags = \<lparr>NSSET_FROM_CACHE = False, NSSET_WAS_WAITING_FOR_CERTS = False, NSSET_DONT_DOWNLOAD_CERTS = False,
     NSSET_REQUIRE_FLAVOR = False\<rparr>"

definition no_consensus :: consensus_state where
  "no_consensus = \<lparr>current_ns_consensus = None, current_md_consensus = None\<rparr>"

theorem set_current_consensus_result_witness:
  "\<exists>r st'. networkstatus_set_current_consensus demo_pk demo_options ''garbage'' ''microdesc'' no_flags no_consensus = (Returned r, st') \<and>
     current_ns_consensus st' = None"
  using set_current_consensus_result [of demo_options demo_pk "''garbage''" "''microdesc''" no_flags no_consensus]
  by (auto simp: demo_options_def no_consensus_def)

text \<open>
  A file that does not begin with a router entry, such as the text in which a relay keeps the
  descriptors with their index lines, is accepted as a consensus without routers: it returns 0 and
  replaces the routers the client had.
\<close>

theorem other_text_empties_consensus:
  assumes "\<not> starts_with s ''r ''" "UseMicrodescriptors opts" "0 < release_date opts"
  shows "\<exists>c. networkstatus_set_current_consensus pk opts s ''microdesc'' flags st = (Returned 0, st\<lparr>current_md_consensus := Some c\<rparr>) \<and>
    routerstatus_list c = []"
proof -
  have "routerstatus_list (take_over (consensus_of []) old) = []" for old
    by (simp add: take_over_def networkstatus_copy_old_consensus_info_def consensus_of_def split: option.split)
  then show ?thesis
    using set_consensus_parsed [OF parse_vote_other [OF assms(1)] assms(2,3), where flavor = "''microdesc''"] by blast
qed

theorem other_text_empties_consensus_witness:
  "\<exists>c. networkstatus_set_current_consensus demo_pk demo_options ''index 1'' ''microdesc'' no_flags no_consensus =
     (Returned 0, no_consensus\<lparr>current_md_consensus := Some c\<rparr>) \<and> routerstatus_list c = []"
  using other_text_empties_consensus [of "''index 1''" demo_options demo_pk no_flags no_consensus]
  by (simp add: demo_options_def starts_with_def)

subsection \<open>Required protocols\<close>

text \<open>The parsed lists of required protocols.\<close>

definition client_entries :: "proto_entry list" where
  "client_entries =
     [\<lparr>pe_name = ''Cons'', bitmask = 6\<rparr>, \<lparr>pe_name = ''Desc'', bitmask = 6\<rparr>, \<lparr>pe_name = ''DirCache'', bitmask = 2\<rparr>,
      \<lparr>pe_name = ''HSDir'', bitmask = 2\<rparr>, \<lparr>pe_name = ''HSIntro'', bitmask = 8\<rparr>, \<lparr>pe_name = ''HSRend'', bitmask = 2\<rparr>,
      \<lparr>pe_name = ''Link'', bitmask = 16\<rparr>, \<lparr>pe_name = ''Microdesc'', bitmask = 6\<rparr>, \<lparr>pe_name = ''Relay'', bitmask = 4\<rparr>]"

definition relay_entries :: "proto_entry list" where
  "relay_entries =
     [\<lparr>pe_name = ''Cons'', bitmask = 2\<rparr>, \<lparr>pe_name = ''Desc'', bitmask = 2\<rparr>, \<lparr>pe_name = ''DirCache'', bitmask = 2\<rparr>,
      \<lparr>pe_name = ''HSDir'', bitmask = 2\<rparr>, \<lparr>pe_name = ''HSIntro'', bitmask = 8\<rparr>, \<lparr>pe_name = ''HSRend'', bitmask = 2\<rparr>,
      \<lparr>pe_name = ''Link'', bitmask = 24\<rparr>, \<lparr>pe_name = ''Microdesc'', bitmask = 2\<rparr>, \<lparr>pe_name = ''Relay'', bitmask = 6\<rparr>]"

lemma encode_required_ranges:
  "encode_ranges 2 0 True = Some ''1''" "encode_ranges 8 0 True = Some ''3''" "encode_ranges 16 0 True = Some ''4''"
  "encode_ranges 24 0 True = Some ''3-4''"
  by code_simp+

lemma parse_required:
  "parse_protocol_list client_protocols = Some client_entries"
  "parse_protocol_list relay_protocols = Some relay_entries"
proof -
  have "encode_protocol_list client_entries = Some client_protocols" "encode_protocol_list relay_entries = Some relay_protocols"
    by (simp_all add: encode_protocol_list_def client_entries_def relay_entries_def proto_entry_encode_def
        encode_supported_ranges encode_required_ranges client_protocols_def relay_protocols_def)
  moreover have "\<forall>e \<in> set client_entries. valid_name (pe_name e)" "\<forall>e \<in> set relay_entries. valid_name (pe_name e)"
    by (simp_all add: client_entries_def relay_entries_def valid_name_def is_valid_keyword_def is_alnum_def is_digit_def
        MAX_PROTOCOL_NAME_LENGTH_def)
  ultimately show "parse_protocol_list client_protocols = Some client_entries"
    "parse_protocol_list relay_protocols = Some relay_entries" using parse_encode_list by blast+
qed

lemma missing_required:
  "missing_entries get_supported_protocol_list client_entries = [\<lparr>pe_name = ''DirCache'', bitmask = 2\<rparr>]"
  "missing_entries get_supported_protocol_list relay_entries = [\<lparr>pe_name = ''DirCache'', bitmask = 2\<rparr>]"
  by (simp_all add: missing_entries_def supported_list supported_entries_def client_entries_def relay_entries_def
      find_entry_by_name_def)

lemma required_unsupported:
  "protover_all_supported (Some client_protocols) = (False, Some ''DirCache=1'')"
  "protover_all_supported (Some relay_protocols) = (False, Some ''DirCache=1'')"
  by (simp_all add: protover_all_supported_def parse_required missing_required encode_protocol_list_def
      proto_entry_encode_def encode_required_ranges)

text \<open>
  The protocols that the parser lists as required include \<^verbatim>\<open>DirCache=1\<close>, which this release does not
  support: a consensus dated after the release would end every client and relay. The check has no
  effect only because parsing leaves the date zero.
\<close>

theorem required_protocols_would_exit:
  assumes "0 < release_date opts"
  shows "\<not> handle_missing_protocol_warning opts (consensus_of rss) \<and>
    (release_date opts \<le> t \<longrightarrow> handle_missing_protocol_warning opts ((consensus_of rss)\<lparr>valid_after := t\<rparr>) \<and>
       networkstatus_check_required_protocols opts ((consensus_of rss)\<lparr>valid_after := t\<rparr>) client_mode = (True, Some ''DirCache=1''))"
  using assms
  by (auto simp: handle_missing_protocol_warning_def handle_missing_protocol_warning_impl_def is_client_def
      networkstatus_check_required_protocols_def consensus_of_def required_unsupported)

theorem required_protocols_would_exit_witness:
  "handle_missing_protocol_warning demo_options ((consensus_of [])\<lparr>valid_after := 1623628800\<rparr>)"
  using required_protocols_would_exit [of demo_options "[]" 1623628800 True] by (simp add: demo_options_def)

subsection \<open>Looking up routers\<close>

lemma digest_cmp_less: "digest_cmp a b < 0 \<longleftrightarrow> map unat a < map unat b" "digest_cmp a b = 0 \<longleftrightarrow> a = b"
  "digest_cmp a b > 0 \<longleftrightarrow> map unat b < map unat a"
proof -
  show 1: "digest_cmp a b < 0 \<longleftrightarrow> map unat a < map unat b" by (simp add: digest_cmp_def cmp_keys_less)
  have "inj (map (unat :: byte \<Rightarrow> nat))" by (auto intro!: injI inj_mapI simp: word_unat_eq_iff)
  then show 2: "digest_cmp a b = 0 \<longleftrightarrow> a = b" by (auto simp: digest_cmp_def cmp_keys_eq inj_eq)
  show "digest_cmp a b > 0 \<longleftrightarrow> map unat b < map unat a"
    using 1 2 \<open>inj (map unat)\<close> by (metis inj_eq less_linear order_less_asym)
qed

interpretation digests: comparison digest_cmp
  by unfold_locales (auto simp: digest_cmp_less not_less [symmetric] linorder_not_le)

definition digest_less :: "routerstatus \<Rightarrow> routerstatus \<Rightarrow> bool" where
  "digest_less a b \<longleftrightarrow> digest_cmp (rs_identity_digest a) (rs_identity_digest b) < 0"

lemma sorted_list_sorted_for:
  assumes "sorted_wrt digest_less l"
  shows "sorted_for compare_digest_to_routerstatus_entry d l"
proof -
  have "sgn (digest_cmp d (rs_identity_digest b)) \<le> sgn (digest_cmp d (rs_identity_digest a))"
    if "digest_less a b" for a b
  proof -
    have "map unat (rs_identity_digest a) < map unat (rs_identity_digest b)" using that by (simp add: digest_less_def digest_cmp_less)
    then show ?thesis
      using digest_cmp_less [of d "rs_identity_digest a"] digest_cmp_less [of d "rs_identity_digest b"]
      by (auto simp: sgn_if)
  qed
  then show ?thesis
    using assms by (auto simp: sorted_for_def compare_digest_to_routerstatus_entry_def intro: sorted_wrt_mono_rel)
qed

lemma find_entry_sorted:
  assumes "sorted_wrt digest_less (routerstatus_list ns)"
  shows "networkstatus_vote_find_entry ns d = Some (find (\<lambda>rs. rs_identity_digest rs = d) (routerstatus_list ns))"
proof -
  let ?l = "routerstatus_list ns" and ?c = compare_digest_to_routerstatus_entry
  have c: "?c d rs = 0 \<longleftrightarrow> rs_identity_digest rs = d" for rs
    by (auto simp: compare_digest_to_routerstatus_entry_def digest_cmp_less)
  obtain found idx where r: "smartlist_bsearch_idx ?c d ?l = Some (found, idx)"
    "found \<Longrightarrow> 0 \<le> idx \<and> idx < int (length ?l) \<and> ?c d (?l ! nat idx) = 0"
    using smartlist_bsearch_idx_total [of ?c d ?l] by blast
  have f: "found \<longleftrightarrow> (\<exists>x \<in> set ?l. ?c d x = 0)" using bsearch_sorted(1) [OF sorted_list_sorted_for [OF assms] r(1)] .
  show ?thesis
  proof (cases found)
    case True
    have uniq: "i = j" if "i < length ?l" "j < length ?l" "?c d (?l ! i) = 0" "?c d (?l ! j) = 0" for i j
    proof (rule ccontr)
      assume "i \<noteq> j"
      then have "digest_less (?l ! i) (?l ! j) \<or> digest_less (?l ! j) (?l ! i)"
        using assms that(1,2) by (auto simp: sorted_wrt_iff_nth_less neq_iff)
      then show False using that(3,4) by (auto simp: c digest_less_def digest_cmp_less)
    qed
    have "find (\<lambda>rs. rs_identity_digest rs = d) ?l = Some (?l ! nat idx)"
    proof -
      have i: "nat idx < length ?l" "?c d (?l ! nat idx) = 0" using r(2) [OF True] by auto
      have "\<forall>j < nat idx. ?c d (?l ! j) \<noteq> 0" using uniq [OF i(1) _ i(2)] i(1) by (metis less_irrefl less_trans)
      then show ?thesis unfolding find_Some_iff using i by (intro exI [of _ "nat idx"]) (auto simp: c)
    qed
    then show ?thesis
      using r True by (simp add: networkstatus_vote_find_entry_def smartlist_bsearch_def arr_get_def)
  next
    case False
    then have "find (\<lambda>rs. rs_identity_digest rs = d) ?l = None" using f by (auto simp: find_None_iff c)
    then show ?thesis using r(1) False by (simp add: networkstatus_vote_find_entry_def smartlist_bsearch_def)
  qed
qed

text \<open>
  Looking up a router by its identity is right when the entries are sorted by identity, which the
  parser no longer demands: they come in the order in which the relays registered. Of two entries in
  descending order, the second is not found.
\<close>

theorem find_entry_needs_order:
  "(sorted_wrt digest_less (routerstatus_list ns) \<longrightarrow>
      networkstatus_vote_find_entry ns d = Some (find (\<lambda>rs. rs_identity_digest rs = d) (routerstatus_list ns))) \<and>
   (digest_less b a \<longrightarrow> networkstatus_vote_find_entry (consensus_of [a, b]) (rs_identity_digest b) = Some None)"
proof -
  have "networkstatus_vote_find_entry (consensus_of [a, b]) (rs_identity_digest b) = Some None" if "digest_less b a"
  proof -
    have "compare_digest_to_routerstatus_entry (rs_identity_digest b) a < 0"
      using that by (simp add: digest_less_def compare_digest_to_routerstatus_entry_def)
    then have "smartlist_bsearch_idx compare_digest_to_routerstatus_entry (rs_identity_digest b) [a, b] = Some (False, 0)"
      by (simp add: smartlist_bsearch_idx_def bsearch_loop.simps arr_get_def Let_def)
    then show ?thesis by (simp add: networkstatus_vote_find_entry_def smartlist_bsearch_def consensus_of_def)
  qed
  then show ?thesis using find_entry_sorted by blast
qed

definition demo_status :: "byte \<Rightarrow> routerstatus" where
  "demo_status n = status_of (demo_key_router\<lparr>identity_digest := replicate 20 n\<rparr>) [1, 255, 7, 16]"

theorem find_entry_needs_order_witness:
  "networkstatus_vote_find_entry (consensus_of [demo_status 2, demo_status 1]) (replicate 20 1) = Some None \<and>
   networkstatus_vote_find_entry (consensus_of [demo_status 1, demo_status 2]) (replicate 20 1) = Some (Some (demo_status 1))"
proof -
  have id: "rs_identity_digest (demo_status n) = replicate 20 n" for n by (simp add: demo_status_def status_of_def)
  have "digest_cmp (replicate 20 1) (replicate 20 2) < 0" by code_simp
  then have less: "digest_less (demo_status 1) (demo_status 2)" by (simp add: digest_less_def id)
  have "networkstatus_vote_find_entry (consensus_of [demo_status 2, demo_status 1]) (rs_identity_digest (demo_status 1)) = Some None"
    using find_entry_needs_order [where a = "demo_status 2" and b = "demo_status 1"] less by blast
  moreover have "networkstatus_vote_find_entry (consensus_of [demo_status 1, demo_status 2]) (replicate 20 1) =
      Some (find (\<lambda>rs. rs_identity_digest rs = replicate 20 1) [demo_status 1, demo_status 2])"
    using find_entry_needs_order [where ns = "consensus_of [demo_status 1, demo_status 2]"] less by (simp add: consensus_of_def)
  ultimately show ?thesis by (simp add: id)
qed

subsection \<open>Local information of the old consensus\<close>

definition carried_over :: "routerstatus list \<Rightarrow> routerstatus \<Rightarrow> routerstatus" where
  "carried_over olds rs_new =
     (case find (\<lambda>rs_old. rs_identity_digest rs_old = rs_identity_digest rs_new) olds of
        None \<Rightarrow> rs_new
      | Some rs_old \<Rightarrow> copy_local_info rs_old rs_new)"

lemma digest_less_trans: "digest_less a b \<Longrightarrow> digest_less b c \<Longrightarrow> digest_less a c"
  by (auto simp: digest_less_def digest_cmp_less)

lemma digest_less_irrefl: "\<not> digest_less a a"
  by (simp add: digest_less_def digest_cmp_less)

lemma find_dropWhile:
  "\<forall>x \<in> set (takeWhile P xs). \<not> Q x \<Longrightarrow> find Q (dropWhile P xs) = find Q xs"
  by (induction xs) auto

lemma join_old_new_sorted:
  assumes "sorted_wrt digest_less olds" "sorted_wrt digest_less news"
  shows "join_old_new olds news = map (carried_over olds) news"
  using assms
proof (induction news arbitrary: olds)
  case (Cons rs news)
  define P where "P = (\<lambda>old :: routerstatus. digest_cmp (rs_identity_digest old) (rs_identity_digest rs) < 0)"
  define olds1 where "olds1 = dropWhile P olds"
  have step: "join_old_new olds (rs # news) = (case olds1 of
       [] \<Rightarrow> rs # join_old_new [] news
     | rs_old # x \<Rightarrow>
         (if digest_cmp (rs_identity_digest rs_old) (rs_identity_digest rs) = 0 then copy_local_info rs_old rs else rs) #
         join_old_new olds1 news)"
    unfolding olds1_def P_def by (simp only: join_old_new.simps Let_def)
  have sorted1: "sorted_wrt digest_less olds1" unfolding olds1_def
    by (metis Cons(2) sorted_wrt_append takeWhile_dropWhile_id)
  have passed: "\<not> (rs_identity_digest old = rs_identity_digest n)" if "old \<in> set (takeWhile P olds)" "n \<in> set (rs # news)" for old n
  proof -
    have "digest_less old rs" using set_takeWhileD [OF that(1)] by (simp add: P_def digest_less_def)
    then have "digest_less old n" using Cons(3) that(2) digest_less_trans by auto
    then show ?thesis by (auto simp: digest_less_def digest_cmp_less)
  qed
  then have same: "carried_over olds1 n = carried_over olds n" if "n \<in> set (rs # news)" for n
    using that find_dropWhile [of P olds "\<lambda>old. rs_identity_digest old = rs_identity_digest n"] by (simp add: carried_over_def olds1_def)
  have rest: "join_old_new olds1 news = map (carried_over olds) news"
    using Cons(1) [OF sorted1] Cons(3) same by simp
  show ?case
  proof (cases olds1)
    case Nil
    then have "join_old_new olds (rs # news) = rs # join_old_new olds1 news" using step by simp
    moreover have "carried_over olds rs = rs" using same [of rs] Nil by (simp add: carried_over_def)
    ultimately show ?thesis using rest by simp
  next
    case (Cons o1 os1)
    then have "join_old_new olds (rs # news) =
        (if digest_cmp (rs_identity_digest o1) (rs_identity_digest rs) = 0 then copy_local_info o1 rs else rs) #
        join_old_new olds1 news"
      using step by simp
    moreover have "carried_over olds rs =
        (if digest_cmp (rs_identity_digest o1) (rs_identity_digest rs) = 0 then copy_local_info o1 rs else rs)"
    proof (cases "rs_identity_digest o1 = rs_identity_digest rs")
      case True
      then show ?thesis using same [of rs] Cons by (simp add: carried_over_def digest_cmp_less)
    next
      case False
      have "\<not> P o1" using Cons hd_dropWhile [of P olds] by (metis olds1_def list.distinct(1) list.sel(1))
      then have "digest_less rs o1"
        using False digest_cmp_less [of "rs_identity_digest o1" "rs_identity_digest rs"]
          digest_cmp_less [of "rs_identity_digest rs" "rs_identity_digest o1"]
        by (auto simp: P_def digest_less_def)
      then have "\<forall>old \<in> set olds1. rs_identity_digest old \<noteq> rs_identity_digest rs"
        using Cons sorted1 digest_less_trans digest_less_irrefl by (auto simp: digest_less_def digest_cmp_less)
      then have "find (\<lambda>old. rs_identity_digest old = rs_identity_digest rs) olds1 = None" by (simp add: find_None_iff)
      then show ?thesis using same [of rs] False by (simp add: carried_over_def digest_cmp_less)
    qed
    ultimately show ?thesis using rest by simp
  qed
qed simp

text \<open>
  Carrying local information over. When both consensuses are sorted by identity, every router of
  the new one that the old one listed takes over its local fields, and no other field changes.
\<close>

theorem copy_old_consensus_info_sorted:
  assumes "sorted_wrt digest_less (routerstatus_list old_c)" "sorted_wrt digest_less (routerstatus_list new_c)"
  shows "networkstatus_copy_old_consensus_info new_c old_c =
    new_c\<lparr>routerstatus_list := map (carried_over (routerstatus_list old_c)) (routerstatus_list new_c)\<rparr>"
proof (cases "routerstatus_list old_c = []")
  case True
  then have "map (carried_over (routerstatus_list old_c)) (routerstatus_list new_c) = routerstatus_list new_c"
    by (intro map_idI) (simp add: carried_over_def True)
  then show ?thesis using True by (simp add: networkstatus_copy_old_consensus_info_def)
qed (simp add: networkstatus_copy_old_consensus_info_def join_old_new_sorted [OF assms])

theorem copy_old_consensus_info_witness:
  "networkstatus_copy_old_consensus_info (consensus_of [demo_status 2]) (consensus_of [(demo_status 2)\<lparr>last_dir_503_at := 9\<rparr>]) =
   consensus_of [(demo_status 2)\<lparr>last_dir_503_at := 9\<rparr>]"
  using copy_old_consensus_info_sorted [of "consensus_of [(demo_status 2)\<lparr>last_dir_503_at := 9\<rparr>]" "consensus_of [demo_status 2]"]
  by (simp add: consensus_of_def carried_over_def copy_local_info_def demo_status_def status_of_def)

subsection \<open>Refreshing\<close>

text \<open>The entry of a router without its local fields.\<close>

definition published :: "routerstatus \<Rightarrow> routerstatus" where
  "published rs = rs\<lparr>last_dir_503_at := 0, dl_status := no_download_status\<rparr>"

lemma published_copy: "published (copy_local_info old rs) = published rs"
  by (simp add: copy_local_info_def published_def Let_def)

lemma published_join: "map published (join_old_new olds news) = map published news"
  by (induction news arbitrary: olds) (simp_all add: Let_def published_copy split: list.split)

lemma published_take_over: "map published (routerstatus_list (take_over c old)) = map published (routerstatus_list c)"
  by (simp add: take_over_def networkstatus_copy_old_consensus_info_def published_join split: option.split)

lemma published_status_of: "map published (map2 status_of ris ders) = map2 status_of ris ders"
  by (rule map_idI) (auto simp: published_def status_of_def)

definition client_lib :: string where "client_lib = ''/usr/local/BADNET-V3-client/lib''"

lemma reload_GSRI:
  assumes acc: "list_all2 (acceptable pk) ris ders" "ris \<noteq> []"
    and opts: "is_client opts" "UseMicrodescriptors opts" "0 < release_date opts" "cache_dir opts = client_lib"
    and files: "files (client_lib @ ''/GSRI'') = Some (entries_text ris)" "files (client_lib @ ''/cached-consensus'') = None"
      "files (client_lib @ ''/unverified-consensus'') = None" "files (client_lib @ ''/unverified-microdesc-consensus'') = None"
  shows "router_reload_consensus_networkstatus pk opts files st =
    (Returned 0, st\<lparr>current_md_consensus := Some (take_over (consensus_of (map2 status_of ris ders)) (current_md_consensus st))\<rparr>)"
proof -
  let ?c = "consensus_of (map2 status_of ris ders)"
  have parse: "networkstatus_parse_vote_from_string pk True (entries_text ris) = Parsed ?c"
    using rs_loop_entries [OF acc(1)] by (simp add: parse_vote_loop)
  have ne: "entries_text ris \<noteq> []"
  proof
    assume "entries_text ris = []"
    then have "Parsed (map2 status_of ris ders) = Parsed []"
      using rs_loop_entries [OF acc(1)] by (simp add: rs_loop.simps starts_with_def)
    then show False using acc by (cases ris; cases ders) auto
  qed
  have none: "reload_consensus_from_file pk opts files f fl flags st' = (Returned 0, st')"
    if "files f = None" "f \<noteq> clientPath @ ''lib/cached-microdesc-consensus''" for f fl flags st'
    using that by (simp add: reload_consensus_from_file_def tor_mmap_file_def)
  have names: "clientPath @ ''lib/cached-microdesc-consensus'' = client_lib @ ''/cached-microdesc-consensus''"
    "clientPath @ ''lib/GSRI'' = client_lib @ ''/GSRI''" by (simp_all add: clientPath_def client_lib_def)
  have md: "reload_consensus_from_file pk opts files (client_lib @ ''/cached-microdesc-consensus'') ''microdesc'' flags st' =
      (Returned 0, st'\<lparr>current_md_consensus := Some (take_over ?c (current_md_consensus st'))\<rparr>)" for flags st'
    unfolding reload_consensus_from_file_def names
    using opts(1) files(1) ne set_consensus_parsed [OF parse opts(2,3), where flavor = "''microdesc''"]
    by (simp add: tor_mmap_file_def)
  show ?thesis
    using none [OF files(2)] none [OF files(3)] none [OF files(4)] md
    by (simp add: router_reload_consensus_networkstatus_def reload_flavor_def then_run_def networkstatus_get_cache_fname_def
        networkstatus_get_flavor_name_def opts(4) names)
qed

text \<open>
  C6. A refresh of the client. When the counter is at 60 and the interpreter works, the callback
  downloads the digests, starts the counter again and reloads the consensus: when the file of
  descriptors holds the entries of acceptable routers and no other cached file exists, the client's
  consensus then lists exactly these routers.
\<close>

theorem fetch_networkstatus_refresh:
  assumes "list_all2 (acceptable pk) ris ders" "ris \<noteq> []"
    and "is_client opts" "UseMicrodescriptors opts" "0 < release_date opts" "cache_dir opts = client_lib"
    and "client_files env (client_lib @ ''/GSRI'') = Some (entries_text ris)"
      "client_files env (client_lib @ ''/cached-consensus'') = None"
      "client_files env (client_lib @ ''/unverified-consensus'') = None"
      "client_files env (client_lib @ ''/unverified-microdesc-consensus'') = None"
    and "NSD_download_times st = 60" "py_init_ok env \<or> client_python st" "import_ok env"
  shows "\<exists>st' c. fetch_networkstatus_callback pk opts env st = (Returned 60, st') \<and> NSD_download_times st' = 0 \<and>
    current_md_consensus (consensuses st') = Some c \<and> map published (routerstatus_list c) = map2 status_of ris ders \<and>
    NSD_file st' = (case clientDownloadNSD (chain_up env) (chain_state env) of None \<Rightarrow> NSD_file st | Some t \<Rightarrow> Some t)"
proof -
  let ?c = "consensus_of (map2 status_of ris ders)"
  define st1 where "st1 = (case clientDownloadNSD (chain_up env) (chain_state env) of
      None \<Rightarrow> st\<lparr>client_python := True\<rparr> | Some t \<Rightarrow> st\<lparr>client_python := True, NSD_file := Some t\<rparr>)"
  have dl: "download_NSD_from_blockchain env st = (True, st1)"
    using assms(12,13) by (auto simp: download_NSD_from_blockchain_def st1_def split: option.split)
  define cs where "cs = (consensuses st1)\<lparr>current_md_consensus := Some (take_over ?c (current_md_consensus (consensuses st1)))\<rparr>"
  have "fetch_networkstatus_callback pk opts env st = (Returned 60, st1\<lparr>NSD_download_times := 0, consensuses := cs\<rparr>)"
    using assms(3,11) dl reload_GSRI [OF assms(1-10), of "consensuses st1"]
    by (simp add: fetch_networkstatus_callback_def cs_def)
  moreover have "map published (routerstatus_list (take_over ?c old)) = map2 status_of ris ders" for old
    by (simp only: published_take_over consensus_of_def networkstatus.simps published_status_of)
  ultimately show ?thesis by (auto simp: cs_def st1_def split: option.split)
qed











definition demo_client_env :: "routerinfo list \<Rightarrow> client_env" where
  "demo_client_env ris = \<lparr>py_init_ok = True, import_ok = True, chain_up = False, chain_state = constructor 5,
     client_files = (\<lambda>_. None)(client_lib @ ''/GSRI'' := Some (entries_text ris))\<rparr>"


theorem fetch_networkstatus_refresh_witness:
  "\<exists>st' c. fetch_networkstatus_callback demo_pk demo_options (demo_client_env [demo_key_router]) client_start = (Returned 60, st') \<and>
     current_md_consensus (consensuses st') = Some c \<and>
     map published (routerstatus_list c) = [status_of demo_key_router [1, 255, 7, 16]]"
proof -
  have acc: "list_all2 (acceptable demo_pk) [demo_key_router] [[1, 255, 7, 16]]" using demo_acceptable by simp
  show ?thesis
    using fetch_networkstatus_refresh [OF acc, of demo_options "demo_client_env [demo_key_router]" client_start]
    by (auto simp: demo_options_def demo_client_env_def client_start_def is_client_def client_lib_def)
qed

subsection \<open>The file of digests\<close>

definition NSD_line :: "contract \<Rightarrow> nat \<Rightarrow> string" where
  "NSD_line c i = show_nat i @ '' '' @ hexlify (relay_NSD (relay_of c (of_nat i))) @ [NL]"

lemma hexlify_append [simp]: "hexlify (a @ b) = hexlify a @ hexlify b" "hexlify [] = []"
  by (simp_all add: hexlify_def)

lemma write_NSD_lines:
  assumes "\<forall>i. k \<le> i \<and> i < k + m \<and> h i \<longrightarrow> length (d i) = 32" "length pre = loc * 64" "0 < k"
  shows "write_NSD (pre @ hexlify (concat (map d (filter h [k ..< k + m])))) (map h [k ..< k + m]) (k - 1) loc =
    concat (map (\<lambda>i. show_nat i @ '' '' @ hexlify (d i) @ [NL]) (filter h [k ..< k + m]))"
  using assms
proof (induction m arbitrary: pre loc k)
  case (Suc m)
  have upt: "[k ..< k + Suc m] = k # [Suc k ..< Suc k + m]" by (simp add: upt_conv_Cons)
  let ?l = "[Suc k ..< Suc k + m]"
  have k: "k - 1 + 1 = Suc k - 1" "k - 1 + 1 = k" using Suc(4) by auto
  show ?case
  proof (cases "h k")
    case True
    have len: "length (hexlify (d k)) = 64" using Suc(2) True by simp
    have "write_NSD ((pre @ hexlify (d k)) @ hexlify (concat (map d (filter h ?l)))) (map h ?l) (Suc k - 1) (loc + 1) =
        concat (map (\<lambda>i. show_nat i @ '' '' @ hexlify (d i) @ [NL]) (filter h ?l))"
      using Suc(2,3) len by (intro Suc(1)) auto
    then show ?thesis unfolding upt using True len Suc(3) k by simp
  next
    case False
    have "write_NSD (pre @ hexlify (concat (map d (filter h ?l)))) (map h ?l) (Suc k - 1) loc =
        concat (map (\<lambda>i. show_nat i @ '' '' @ hexlify (d i) @ [NL]) (filter h ?l))"
      using Suc(2,3) by (intro Suc(1)) auto
    then show ?thesis unfolding upt using False k by simp
  qed
qed simp

lemma NSD_file_lines:
  assumes "ledger n c" "n < 65535" "n = 0 \<or> healthflag (relay_of c (of_nat n))"
    "\<forall>i. 0 < i \<and> i \<le> n \<and> healthflag (relay_of c (of_nat i)) \<longrightarrow> length (relay_NSD (relay_of c (of_nat i))) = 32"
  shows "clientDownloadNSD True c = Some (concat (map (NSD_line c) (filter (\<lambda>i. healthflag (relay_of c (of_nat i))) [1 ..< Suc n])))"
proof -
  let ?h = "\<lambda>i. healthflag (relay_of c (of_nat i))" and ?d = "\<lambda>i. relay_NSD (relay_of c (of_nat i))"
  have "write_NSD ([] @ hexlify (concat (map ?d (filter ?h [1 ..< 1 + n])))) (map ?h [1 ..< 1 + n]) (1 - 1) 0 =
      concat (map (\<lambda>i. show_nat i @ '' '' @ hexlify (?d i) @ [NL]) (filter ?h [1 ..< 1 + n]))"
    using assms(4) by (intro write_NSD_lines) auto
  then show ?thesis
    using client_download_NSD_value [OF assms(1,2)] assms(3)
    by (simp add: clientDownloadNSD_def NSD_line_def [abs_def] del: upt_Suc)
qed

text \<open>
  The file of digests. When the chain answers and every healthy relay has uploaded a digest of 32
  bytes, the client's file lists exactly the healthy relays, in order, each with its own digest.
\<close>

theorem NSD_file_contents:
  assumes "ledger n c" "n < 65535" "n = 0 \<or> healthflag (relay_of c (of_nat n))"
    "\<forall>i. 0 < i \<and> i \<le> n \<and> healthflag (relay_of c (of_nat i)) \<longrightarrow> length (relay_NSD (relay_of c (of_nat i))) = 32"
  shows "clientDownloadNSD True c = Some (concat (map (NSD_line c) (filter (\<lambda>i. healthflag (relay_of c (of_nat i))) [1 ..< Suc n])))"
  using assms by (rule NSD_file_lines)

definition demo_one_relay :: contract where
  "demo_one_relay =
     the (relay_upload_SRI_and_NSD (the (sol_relay_register (constructor 5) 9)) 9 1 [] [] (replicate 32 7))"

lemma demo_one_relay: "ledger 1 demo_one_relay" "healthflag (relay_of demo_one_relay 1)"
  "relay_NSD (relay_of demo_one_relay 1) = replicate 32 7"
proof -
  note defs = sol_relay_register_def is_registered_def constructor_def empty_relay_def relay_upload_SRI_and_NSD_def Let_def
  define c1 where "c1 = the (sol_relay_register (constructor 5) 9)"
  have 1: "sol_relay_register (constructor 5) 9 = Some c1" unfolding c1_def by (simp add: defs)
  have 2: "relay_upload_SRI_and_NSD c1 9 1 [] [] (replicate 32 7) = Some demo_one_relay"
    unfolding demo_one_relay_def c1_def by (simp add: defs)
  have "ledger 1 c1" using ledger_tx [OF ledger_init, of 5 "TxRegister 9" c1] 1 by simp
  then show "ledger 1 demo_one_relay"
    using ledger_tx [of 1 c1 "TxUpload 9 1 [] [] (replicate 32 7)" demo_one_relay] 2 by simp
  show "healthflag (relay_of demo_one_relay 1)" "relay_NSD (relay_of demo_one_relay 1) = replicate 32 7"
    unfolding demo_one_relay_def by (simp_all add: defs)
qed

theorem NSD_file_contents_witness:
  "clientDownloadNSD True demo_one_relay = Some (''1 '' @ hexlify (replicate 32 7) @ [NL])"
proof -
  have all: "\<forall>i. 0 < i \<and> i \<le> 1 \<and> healthflag (relay_of demo_one_relay (of_nat i)) \<longrightarrow>
      length (relay_NSD (relay_of demo_one_relay (of_nat i))) = 32"
  proof clarify
    fix i :: nat
    assume "0 < i" "i \<le> 1"
    then have "i = 1" by simp
    then show "length (relay_NSD (relay_of demo_one_relay (of_nat i))) = 32" using demo_one_relay(3) by simp
  qed
  have "show_nat (Suc 0) = ''1''" by code_simp
  then show ?thesis
    using NSD_file_contents [OF demo_one_relay(1) _ _ all] demo_one_relay(2,3) by (simp add: NSD_line_def)
qed

text \<open>
  Digests of the wrong relay. When the first of two healthy relays has not uploaded yet, its line in
  the file shows the digest of the second, whose own line is empty: the contract joins the digests
  without their indices, and the client cuts the result into pieces of equal length.
\<close>

theorem NSD_file_misaligned:
  assumes "ledger 2 c" "healthflag (relay_of c 1)" "healthflag (relay_of c 2)" "relay_NSD (relay_of c 1) = []"
    "length (relay_NSD (relay_of c 2)) = 32"
  shows "clientDownloadNSD True c = Some (''1 '' @ hexlify (relay_NSD (relay_of c 2)) @ [NL] @ ''2 '' @ [NL])"
proof -
  have two: "[1 ..< Suc 2] = [1, 2]" by (simp add: upt_rec)
  have "client_download_NSD c = Some ([True, True], relay_NSD (relay_of c 2))"
    using client_download_NSD_value [OF assms(1)] assms(2-4) unfolding two by simp
  moreover have "show_nat (Suc 0) = ''1''" "show_nat 2 = ''2''" by code_simp+
  ultimately show ?thesis using assms(5) by (simp add: clientDownloadNSD_def numeral_2_eq_2)
qed

definition demo_two_relays :: contract where
  "demo_two_relays =
     (let c1 = the (sol_relay_register (constructor 5) 8); c2 = the (sol_relay_register c1 9)
      in the (relay_upload_SRI_and_NSD c2 9 1 [] [] (replicate 32 7)))"

lemma demo_two_relays: "ledger 2 demo_two_relays" "healthflag (relay_of demo_two_relays 1)"
  "healthflag (relay_of demo_two_relays 2)" "relay_NSD (relay_of demo_two_relays 1) = []"
  "relay_NSD (relay_of demo_two_relays 2) = replicate 32 7"
proof -
  note defs = sol_relay_register_def is_registered_def constructor_def empty_relay_def relay_upload_SRI_and_NSD_def Let_def
  define c1 where "c1 = the (sol_relay_register (constructor 5) 8)"
  define c2 where "c2 = the (sol_relay_register c1 9)"
  have 1: "sol_relay_register (constructor 5) 8 = Some c1" unfolding c1_def by (simp add: defs)
  have 2: "sol_relay_register c1 9 = Some c2" unfolding c2_def c1_def by (simp add: defs)
  have 3: "relay_upload_SRI_and_NSD c2 9 1 [] [] (replicate 32 7) = Some demo_two_relays"
    unfolding demo_two_relays_def c2_def c1_def by (simp add: defs)
  have "ledger 1 c1" using ledger_tx [OF ledger_init, of 5 "TxRegister 8" c1] 1 by simp
  then have "ledger 2 c2" using ledger_tx [of 1 c1 "TxRegister 9" c2] 2 by (simp add: numeral_2_eq_2)
  then show "ledger 2 demo_two_relays"
    using ledger_tx [of 2 c2 "TxUpload 9 1 [] [] (replicate 32 7)" demo_two_relays] 3 by simp
  show "healthflag (relay_of demo_two_relays 1)" "healthflag (relay_of demo_two_relays 2)"
    "relay_NSD (relay_of demo_two_relays 1) = []" "relay_NSD (relay_of demo_two_relays 2) = replicate 32 7"
    unfolding demo_two_relays_def by (simp_all add: defs)
qed

theorem NSD_file_misaligned_witness:
  "clientDownloadNSD True demo_two_relays = Some (''1 '' @ hexlify (replicate 32 7) @ [NL] @ ''2 '' @ [NL])"
  using NSD_file_misaligned [OF demo_two_relays(1-4)] demo_two_relays(5) by simp

end
