(* ===== verification/Buffers.thy ===== *)
theory Buffers
  imports Prelude "HOL-Library.Monad_Syntax"
begin

text \<open>
  The byte buffers of \<^verbatim>\<open>lib/buf/buffers.c\<close>: a list of chunks, each with its own memory. Memory that
  nothing has been written to is \<open>None\<close>, and a read of it, an access outside an allocation or a failed
  assertion makes an operation \<open>None\<close>. The linked list from \<^verbatim>\<open>head\<close> to \<^verbatim>\<open>tail\<close> is a list of chunks. The
  number \<open>allocd\<close> that the operations pass along is \<^verbatim>\<open>total_bytes_allocated_in_chunks\<close>.
\<close>

section \<open>Chunks\<close>

definition CHUNK_HEADER_LEN :: nat where "CHUNK_HEADER_LEN = 44"
definition SENTINEL_LEN :: nat where "SENTINEL_LEN = 4"
definition CHUNK_OVERHEAD :: nat where "CHUNK_OVERHEAD = CHUNK_HEADER_LEN + SENTINEL_LEN"
definition MIN_CHUNK_ALLOC :: nat where "MIN_CHUNK_ALLOC = 256"
definition MAX_CHUNK_ALLOC :: nat where "MAX_CHUNK_ALLOC = 65536"
definition BUF_MAX_LEN :: nat where "BUF_MAX_LEN = 2147483646"

abbreviation CHUNK_ALLOC_SIZE :: "nat \<Rightarrow> nat" where "CHUNK_ALLOC_SIZE memlen \<equiv> CHUNK_OVERHEAD + memlen"
abbreviation CHUNK_SIZE_WITH_ALLOC :: "nat \<Rightarrow> nat" where "CHUNK_SIZE_WITH_ALLOC alloc \<equiv> alloc - CHUNK_OVERHEAD"

text \<open>The field \<open>data\<close> is the offset of the first byte in \<open>mem\<close>, which ends in the sentinel.\<close>

record chunk =
  datalen :: nat
  memlen :: nat
  DBG_alloc :: nat
  data :: nat
  inserted_time :: uint32
  mem :: "byte option list"

definition CHUNK_REMAINING_CAPACITY :: "chunk \<Rightarrow> nat" where
  "CHUNK_REMAINING_CAPACITY ch = memlen ch - (data ch + datalen ch)"

definition mem_read :: "byte option list \<Rightarrow> nat \<Rightarrow> nat \<Rightarrow> byte list option" where
  "mem_read m p n = (if p + n \<le> length m then those (take n (drop p m)) else None)"

definition mem_write :: "byte option list \<Rightarrow> nat \<Rightarrow> byte list \<Rightarrow> byte option list option" where
  "mem_write m p bs =
     (if p + length bs \<le> length m then Some (take p m @ map Some bs @ drop (p + length bs) m) else None)"

definition chunk_repack :: "chunk \<Rightarrow> chunk option" where
  "chunk_repack chunk =
     (if datalen chunk \<noteq> 0 \<and> data chunk \<noteq> 0 then
        do {
          bs \<leftarrow> mem_read (mem chunk) (data chunk) (datalen chunk);
          m \<leftarrow> mem_write (mem chunk) 0 bs;
          Some (chunk\<lparr>mem := m, data := 0\<rparr>)
        }
      else Some (chunk\<lparr>data := 0\<rparr>))"

definition buf_chunk_free_unchecked :: "chunk \<Rightarrow> nat \<Rightarrow> nat option" where
  "buf_chunk_free_unchecked chunk allocd =
     (if CHUNK_ALLOC_SIZE (memlen chunk) \<noteq> DBG_alloc chunk then None
      else if allocd < CHUNK_ALLOC_SIZE (memlen chunk) then None
      else Some (allocd - CHUNK_ALLOC_SIZE (memlen chunk)))"

definition chunk_new_with_alloc_size :: "nat \<Rightarrow> uint32 \<Rightarrow> nat \<Rightarrow> chunk \<times> nat" where
  "chunk_new_with_alloc_size alloc now allocd =
     (\<lparr>datalen = 0, memlen = CHUNK_SIZE_WITH_ALLOC alloc, DBG_alloc = alloc, data = 0, inserted_time = now,
       mem = replicate (CHUNK_SIZE_WITH_ALLOC alloc) None @ replicate SENTINEL_LEN (Some 0)\<rparr>, allocd + alloc)"

definition chunk_grow :: "chunk \<Rightarrow> nat \<Rightarrow> nat \<Rightarrow> (chunk \<times> nat) option" where
  "chunk_grow chunk sz allocd =
     (let orig_alloc = CHUNK_ALLOC_SIZE (memlen chunk); new_alloc = CHUNK_ALLOC_SIZE sz
      in if \<not> sz > memlen chunk then None
         else if DBG_alloc chunk \<noteq> orig_alloc then None
         else Some (chunk\<lparr>memlen := sz, DBG_alloc := new_alloc,
                mem := take sz (mem chunk @ replicate (sz - memlen chunk) None) @ replicate SENTINEL_LEN (Some 0)\<rparr>,
              allocd + (new_alloc - orig_alloc)))"

text \<open>The loop that doubles the size; below the overhead \<^verbatim>\<open>CHUNK_SIZE_WITH_ALLOC\<close> would wrap to a huge number.\<close>

function preferred_loop :: "nat \<Rightarrow> nat \<Rightarrow> nat" where
  "preferred_loop target sz =
     (if CHUNK_OVERHEAD \<le> sz \<and> CHUNK_SIZE_WITH_ALLOC sz < target then preferred_loop target (2 * sz) else sz)"
  by pat_completeness auto
termination
  by (relation "measure (\<lambda>(target, sz). target + CHUNK_OVERHEAD - sz)")
    (auto simp: CHUNK_OVERHEAD_def CHUNK_HEADER_LEN_def SENTINEL_LEN_def)

declare preferred_loop.simps [simp del]

definition buf_preferred_chunk_size :: "nat \<Rightarrow> nat option" where
  "buf_preferred_chunk_size target =
     (if \<not> target \<le> SIZE_T_CEILING - CHUNK_OVERHEAD then None
      else if CHUNK_ALLOC_SIZE target \<ge> MAX_CHUNK_ALLOC then Some (CHUNK_ALLOC_SIZE target)
      else Some (preferred_loop target MIN_CHUNK_ALLOC))"

section \<open>Buffers\<close>

definition BUFFER_MAGIC :: uint32 where "BUFFER_MAGIC = 0xB0FFF312"

record buf =
  magic :: uint32
  buf_len :: nat
  default_chunk_size :: nat
  chunks :: "chunk list"

definition buf_new :: buf where
  "buf_new = \<lparr>magic = BUFFER_MAGIC, buf_len = 0, default_chunk_size = 4096, chunks = []\<rparr>"

definition buf_new_with_capacity :: "nat \<Rightarrow> buf option" where
  "buf_new_with_capacity sz =
     map_option (\<lambda>n. buf_new\<lparr>default_chunk_size := n\<rparr>) (buf_preferred_chunk_size sz)"

fun free_chunks :: "chunk list \<Rightarrow> nat \<Rightarrow> nat option" where
  "free_chunks [] allocd = Some allocd"
| "free_chunks (chunk # rest) allocd =
     do { allocd \<leftarrow> buf_chunk_free_unchecked chunk allocd; free_chunks rest allocd }"

definition buf_clear :: "buf \<Rightarrow> nat \<Rightarrow> (buf \<times> nat) option" where
  "buf_clear buf allocd =
     map_option (\<lambda>allocd. (buf\<lparr>buf_len := 0, chunks := []\<rparr>, allocd)) (free_chunks (chunks buf) allocd)"

definition buf_allocation :: "buf \<Rightarrow> nat" where
  "buf_allocation buf = sum_list (map (\<lambda>ch. CHUNK_ALLOC_SIZE (memlen ch)) (chunks buf))"

definition buf_slack :: "buf \<Rightarrow> nat" where
  "buf_slack buf = (if chunks buf = [] then 0 else CHUNK_REMAINING_CAPACITY (last (chunks buf)))"

text \<open>The data of the first chunk has \<open>len_out\<close> bytes, the first component of the result.\<close>

fun pullup_loop :: "nat \<Rightarrow> chunk \<Rightarrow> chunk list \<Rightarrow> nat \<Rightarrow> (chunk \<times> chunk list \<times> nat) option" where
  "pullup_loop bytes dest [] allocd = (if datalen dest < bytes then None else Some (dest, [], allocd))"
| "pullup_loop bytes dest (src # rest) allocd =
     (if datalen dest < bytes then
        (let n = bytes - datalen dest
         in if n \<ge> datalen src then
              do {
                bs \<leftarrow> mem_read (mem src) (data src) (datalen src);
                m \<leftarrow> mem_write (mem dest) (data dest + datalen dest) bs;
                allocd \<leftarrow> buf_chunk_free_unchecked src allocd;
                pullup_loop bytes (dest\<lparr>mem := m, datalen := datalen dest + datalen src\<rparr>) rest allocd
              }
            else
              do {
                bs \<leftarrow> mem_read (mem src) (data src) n;
                m \<leftarrow> mem_write (mem dest) (data dest + datalen dest) bs;
                (if datalen dest + n = bytes
                 then Some (dest\<lparr>mem := m, datalen := datalen dest + n\<rparr>,
                        src\<lparr>data := data src + n, datalen := datalen src - n\<rparr> # rest, allocd)
                 else None)
              })
      else Some (dest, src # rest, allocd))"

definition pullup_room :: "chunk \<Rightarrow> nat \<Rightarrow> nat \<Rightarrow> (chunk \<times> nat) option" where
  "pullup_room head capacity allocd =
     (if memlen head \<ge> capacity then
        (let needed = capacity - datalen head
         in do {
              head \<leftarrow> (if CHUNK_REMAINING_CAPACITY head < needed then chunk_repack head else Some head);
              (if CHUNK_REMAINING_CAPACITY head \<ge> needed then Some (head, allocd) else None)
            })
      else
        do {
          head \<leftarrow> chunk_repack head;
          newalloc \<leftarrow> buf_preferred_chunk_size capacity;
          (newhead, allocd) \<leftarrow> chunk_grow head (CHUNK_SIZE_WITH_ALLOC newalloc) allocd;
          (if memlen newhead \<ge> capacity then Some (newhead, allocd) else None)
        })"

definition buf_pullup :: "buf \<Rightarrow> nat \<Rightarrow> nat \<Rightarrow> (nat \<times> buf \<times> nat) option" where
  "buf_pullup buf bytes0 allocd =
     (case chunks buf of
        [] \<Rightarrow> Some (0, buf, allocd)
      | head # rest \<Rightarrow>
          let bytes = (if buf_len buf < bytes0 then buf_len buf else bytes0)
          in if datalen head \<ge> bytes then Some (datalen head, buf, allocd)
             else do {
               (dest, allocd) \<leftarrow> pullup_room head bytes allocd;
               (dest, rest, allocd) \<leftarrow> pullup_loop bytes dest rest allocd;
               Some (datalen dest, buf\<lparr>chunks := dest # rest\<rparr>, allocd)
             })"

fun drain_loop :: "nat \<Rightarrow> chunk list \<Rightarrow> nat \<Rightarrow> nat \<Rightarrow> (chunk list \<times> nat \<times> nat) option" where
  "drain_loop n chs len allocd =
     (if n = 0 then Some (chs, len, allocd)
      else case chs of
             [] \<Rightarrow> None
           | head # rest \<Rightarrow>
               if datalen head > n then
                 Some (head\<lparr>data := data head + n, datalen := datalen head - n\<rparr> # rest, len - n, allocd)
               else do {
                 allocd \<leftarrow> buf_chunk_free_unchecked head allocd;
                 drain_loop (n - datalen head) rest (len - datalen head) allocd
               })"

declare drain_loop.simps [simp del]

definition buf_drain :: "buf \<Rightarrow> nat \<Rightarrow> nat \<Rightarrow> (buf \<times> nat) option" where
  "buf_drain buf n allocd =
     (if \<not> buf_len buf \<ge> n then None
      else do {
        (chs, len, allocd) \<leftarrow> drain_loop n (chunks buf) (buf_len buf) allocd;
        Some (buf\<lparr>chunks := chs, buf_len := len\<rparr>, allocd)
      })"

text \<open>The copies keep the offsets of the data in their memory.\<close>

definition buf_copy :: "buf \<Rightarrow> nat \<Rightarrow> buf \<times> nat" where
  "buf_copy buf allocd =
     (buf_new\<lparr>default_chunk_size := default_chunk_size buf, chunks := chunks buf, buf_len := buf_len buf\<rparr>,
      allocd + sum_list (map (\<lambda>ch. CHUNK_ALLOC_SIZE (memlen ch)) (chunks buf)))"

definition buf_add_chunk_with_capacity :: "uint32 \<Rightarrow> nat \<Rightarrow> bool \<Rightarrow> buf \<Rightarrow> nat \<Rightarrow> (buf \<times> nat) option" where
  "buf_add_chunk_with_capacity now capacity capped buf allocd =
     do {
       alloc \<leftarrow> (if CHUNK_ALLOC_SIZE capacity < default_chunk_size buf then Some (default_chunk_size buf)
                 else if capped \<and> CHUNK_ALLOC_SIZE capacity > MAX_CHUNK_ALLOC then Some MAX_CHUNK_ALLOC
                 else buf_preferred_chunk_size capacity);
       let (chunk, allocd) = chunk_new_with_alloc_size alloc now allocd in
       Some (buf\<lparr>chunks := chunks buf @ [chunk]\<rparr>, allocd)
     }"

definition buf_get_oldest_chunk_timestamp :: "buf \<Rightarrow> uint32 \<Rightarrow> uint32" where
  "buf_get_oldest_chunk_timestamp buf now = (case chunks buf of [] \<Rightarrow> 0 | ch # _ \<Rightarrow> now - inserted_time ch)"

partial_function (option) buf_add_loop :: "uint32 \<Rightarrow> byte list \<Rightarrow> buf \<Rightarrow> nat \<Rightarrow> (buf \<times> nat) option" where
  "buf_add_loop now string buf allocd =
     (if string = [] then Some (buf, allocd)
      else do {
        (buf, allocd) \<leftarrow> (if chunks buf = [] \<or> CHUNK_REMAINING_CAPACITY (last (chunks buf)) = 0
                         then buf_add_chunk_with_capacity now (length string) True buf allocd else Some (buf, allocd));
        let tail = last (chunks buf); copy = min (CHUNK_REMAINING_CAPACITY tail) (length string) in do {
          m \<leftarrow> mem_write (mem tail) (data tail + datalen tail) (take copy string);
          buf_add_loop now (drop copy string)
            (buf\<lparr>chunks := butlast (chunks buf) @ [tail\<lparr>mem := m, datalen := datalen tail + copy\<rparr>],
                 buf_len := buf_len buf + copy\<rparr>) allocd
        }
      })"

text \<open>The second test subtracts a length of type \<^verbatim>\<open>size_t\<close>, which wraps around.\<close>

definition buf_add :: "uint32 \<Rightarrow> byte list \<Rightarrow> buf \<Rightarrow> nat \<Rightarrow> (int \<times> buf \<times> nat) option" where
  "buf_add now string buf allocd =
     (if string = [] then Some (int (buf_len buf), buf, allocd)
      else if buf_len buf > BUF_MAX_LEN then Some (-1, buf, allocd)
      else if int (buf_len buf) > (int BUF_MAX_LEN - int (length string)) mod 2 ^ 64 then Some (-1, buf, allocd)
      else do {
        (buf, allocd) \<leftarrow> buf_add_loop now string buf allocd;
        (if buf_len buf \<le> BUF_MAX_LEN then Some (int (buf_len buf), buf, allocd) else None)
      })"

definition buf_add_string :: "uint32 \<Rightarrow> byte list \<Rightarrow> buf \<Rightarrow> nat \<Rightarrow> (buf \<times> nat) option" where
  "buf_add_string now string buf allocd = map_option snd (buf_add now (takeWhile (\<lambda>c. c \<noteq> 0) string) buf allocd)"

fun peek_loop :: "nat \<Rightarrow> chunk list \<Rightarrow> byte list option" where
  "peek_loop string_len chs =
     (if string_len = 0 then Some []
      else case chs of
             [] \<Rightarrow> None
           | chunk # rest \<Rightarrow>
               let copy = min string_len (datalen chunk)
               in do {
                    bs \<leftarrow> mem_read (mem chunk) (data chunk) copy;
                    more \<leftarrow> peek_loop (string_len - copy) rest;
                    Some (bs @ more)
                  })"

declare peek_loop.simps [simp del]

definition buf_peek :: "buf \<Rightarrow> nat \<Rightarrow> byte list option" where
  "buf_peek buf string_len = (if string_len \<le> buf_len buf then peek_loop string_len (chunks buf) else None)"

definition buf_extract :: "buf \<Rightarrow> byte list option" where
  "buf_extract buf = buf_peek buf (buf_len buf)"

definition buf_get_bytes :: "buf \<Rightarrow> nat \<Rightarrow> nat \<Rightarrow> (byte list \<times> int \<times> buf \<times> nat) option" where
  "buf_get_bytes buf string_len allocd =
     do {
       string \<leftarrow> buf_peek buf string_len;
       (buf, allocd) \<leftarrow> buf_drain buf string_len allocd;
       (if buf_len buf \<le> BUF_MAX_LEN then Some (string, int (buf_len buf), buf, allocd) else None)
     }"

text \<open>The pieces of the copy have the size of the array on the stack.\<close>

function move_loop :: "uint32 \<Rightarrow> nat \<Rightarrow> buf \<Rightarrow> buf \<Rightarrow> nat \<Rightarrow> (buf \<times> buf \<times> nat) option" where
  "move_loop now len buf_out buf_in allocd =
     (if len = 0 then Some (buf_out, buf_in, allocd)
      else let n = (if len > 4096 then 4096 else len)
           in do {
                (b, _, buf_in, allocd) \<leftarrow> buf_get_bytes buf_in n allocd;
                (_, buf_out, allocd) \<leftarrow> buf_add now b buf_out allocd;
                move_loop now (len - n) buf_out buf_in allocd
              })"
  by pat_completeness auto
termination by (relation "measure (\<lambda>(now, len, _). len)") (auto split: if_splits)

declare move_loop.simps [simp del]

definition buf_move_to_buf :: "uint32 \<Rightarrow> buf \<Rightarrow> buf \<Rightarrow> nat \<Rightarrow> nat \<Rightarrow> (int \<times> nat \<times> buf \<times> buf \<times> nat) option" where
  "buf_move_to_buf now buf_out buf_in buf_flushlen allocd =
     (if buf_len buf_out > BUF_MAX_LEN \<or> buf_flushlen > BUF_MAX_LEN then Some (-1, buf_flushlen, buf_out, buf_in, allocd)
      else if buf_len buf_out > BUF_MAX_LEN - buf_flushlen then Some (-1, buf_flushlen, buf_out, buf_in, allocd)
      else let len = min buf_flushlen (buf_len buf_in)
           in do {
                (buf_out, buf_in, allocd) \<leftarrow> move_loop now len buf_out buf_in allocd;
                Some (int len, buf_flushlen - len, buf_out, buf_in, allocd)
              })"

definition buf_move_all :: "buf \<Rightarrow> buf \<Rightarrow> nat \<times> buf \<times> buf" where
  "buf_move_all buf_out buf_in =
     (if buf_len buf_in = 0 then (0, buf_out, buf_in)
      else if buf_len buf_out > BUF_MAX_LEN \<or> buf_len buf_in > BUF_MAX_LEN then (0, buf_out, buf_in)
      else if buf_len buf_out > BUF_MAX_LEN - buf_len buf_in then (0, buf_out, buf_in)
      else (buf_len buf_in,
            buf_out\<lparr>chunks := chunks buf_out @ chunks buf_in, buf_len := buf_len buf_out + buf_len buf_in\<rparr>,
            buf_in\<lparr>chunks := [], buf_len := 0\<rparr>))"

section \<open>Searching\<close>

text \<open>The chunk that a position points to is the first of the chunks that remain.\<close>

record buf_pos =
  rest_chunks :: "chunk list"
  pos :: nat
  chunk_pos :: nat

definition buf_pos_init :: "buf \<Rightarrow> buf_pos" where
  "buf_pos_init buf = \<lparr>rest_chunks = chunks buf, pos = 0, chunk_pos = 0\<rparr>"

definition memchr_at :: "byte \<Rightarrow> byte list \<Rightarrow> nat option" where
  "memchr_at ch bs = (if ch \<in> set bs then Some (length (takeWhile (\<lambda>c. c \<noteq> ch) bs)) else None)"

text \<open>The result is the position of the byte; the inner \<open>None\<close> says that there is none.\<close>

fun find_char_loop :: "byte \<Rightarrow> nat \<Rightarrow> chunk list \<Rightarrow> nat \<Rightarrow> buf_pos option option" where
  "find_char_loop ch p [] cpos = Some None"
| "find_char_loop ch p (chunk # rest) cpos =
     do {
       bs \<leftarrow> mem_read (mem chunk) (data chunk + p) (datalen chunk - p);
       (case memchr_at ch bs of
          Some k \<Rightarrow> if p + k \<le> BUF_MAX_LEN then Some (Some \<lparr>rest_chunks = chunk # rest, pos = p + k, chunk_pos = cpos\<rparr>) else None
        | None \<Rightarrow> find_char_loop ch 0 rest (cpos + datalen chunk))
     }"

definition buf_find_pos_of_char :: "byte \<Rightarrow> buf_pos \<Rightarrow> buf_pos option option" where
  "buf_find_pos_of_char ch out =
     (if (case rest_chunks out of
            [] \<Rightarrow> True
          | chunk # _ \<Rightarrow> if datalen chunk \<noteq> 0 then pos out < datalen chunk else pos out = 0)
      then find_char_loop ch (pos out) (rest_chunks out) (chunk_pos out) else None)"

definition buf_pos_inc :: "buf_pos \<Rightarrow> buf_pos option option" where
  "buf_pos_inc p =
     (if \<not> pos p < BUF_MAX_LEN then None
      else case rest_chunks p of
             [] \<Rightarrow> None
           | chunk # rest \<Rightarrow>
               if pos p + 1 = datalen chunk then
                 (if rest = [] then Some None
                  else Some (Some \<lparr>rest_chunks = rest, pos = 0, chunk_pos = chunk_pos p + datalen chunk\<rparr>))
               else Some (Some (p\<lparr>pos := pos p + 1\<rparr>)))"

fun buf_matches_at_pos :: "buf_pos \<Rightarrow> byte list \<Rightarrow> bool option" where
  "buf_matches_at_pos p [] = Some True"
| "buf_matches_at_pos p (c # s) =
     (case rest_chunks p of
        [] \<Rightarrow> None
      | chunk # _ \<Rightarrow>
          do {
            ch \<leftarrow> mem_read (mem chunk) (data chunk + pos p) 1;
            (if ch \<noteq> [c] then Some False
             else if s = [] then Some True
             else do {
               q \<leftarrow> buf_pos_inc p;
               (case q of None \<Rightarrow> Some False | Some p \<Rightarrow> buf_matches_at_pos p s)
             })
          })"

definition pos_left :: "buf_pos \<Rightarrow> nat" where
  "pos_left p = sum_list (map datalen (rest_chunks p)) - pos p"

lemma mem_read_length: "mem_read m p n = Some bs \<Longrightarrow> length bs = n"
proof -
  have "those xs = Some ys \<Longrightarrow> length ys = length xs" for xs and ys :: "byte list"
    by (induction xs arbitrary: ys) (auto split: option.splits)
  then show "mem_read m p n = Some bs \<Longrightarrow> length bs = n"
    by (auto simp: mem_read_def split: if_splits)
qed

lemma memchr_at_less: "memchr_at ch bs = Some k \<Longrightarrow> k < length bs"
  by (induction bs arbitrary: k) (auto simp: memchr_at_def split: if_splits)

lemma find_char_loop_left:
  "find_char_loop ch p chs cpos = Some (Some q) \<Longrightarrow> chs \<noteq> [] \<longrightarrow> p \<le> datalen (hd chs) \<Longrightarrow>
   pos_left q \<le> sum_list (map datalen chs) - p \<and> rest_chunks q \<noteq> [] \<and> pos q < datalen (hd (rest_chunks q))"
proof (induction ch p chs cpos rule: find_char_loop.induct)
  case (2 ch p chunk rest cpos)
  obtain bs where bs: "mem_read (mem chunk) (data chunk + p) (datalen chunk - p) = Some bs"
    using 2(2) by (auto simp: bind_eq_Some_conv)
  show ?case
  proof (cases "memchr_at ch bs")
    case None
    then show ?thesis using 2 bs by auto
  next
    case (Some k)
    then show ?thesis
      using 2(2) bs memchr_at_less [OF Some] mem_read_length [OF bs] by (auto simp: pos_left_def split: if_splits)
  qed
qed simp

lemma find_pos_left:
  "buf_find_pos_of_char ch p = Some (Some q) \<Longrightarrow>
   pos_left q \<le> pos_left p \<and> rest_chunks q \<noteq> [] \<and> pos q < datalen (hd (rest_chunks q))"
  using find_char_loop_left [of ch "pos p" "rest_chunks p" "chunk_pos p" q]
  by (cases "rest_chunks p") (auto simp: buf_find_pos_of_char_def pos_left_def split: if_splits)

lemma pos_inc_left:
  "buf_pos_inc p = Some (Some q) \<Longrightarrow> rest_chunks p \<noteq> [] \<Longrightarrow> pos p < datalen (hd (rest_chunks p)) \<Longrightarrow> pos_left q < pos_left p"
  by (cases "rest_chunks p") (auto simp: buf_pos_inc_def pos_left_def split: if_splits)

function find_string_loop :: "byte list \<Rightarrow> buf_pos \<Rightarrow> nat option option" where
  "find_string_loop s p0 =
     (case buf_find_pos_of_char (hd s) p0 of
        None \<Rightarrow> None
      | Some None \<Rightarrow> Some None
      | Some (Some p) \<Rightarrow>
          (case buf_matches_at_pos p s of
             None \<Rightarrow> None
           | Some True \<Rightarrow> if chunk_pos p + pos p \<le> BUF_MAX_LEN then Some (Some (chunk_pos p + pos p)) else None
           | Some False \<Rightarrow>
               (case buf_pos_inc p of
                  None \<Rightarrow> None
                | Some None \<Rightarrow> Some None
                | Some (Some q) \<Rightarrow> find_string_loop s q)))"
  by pat_completeness auto
termination
proof (relation "measure (\<lambda>(s, p). pos_left p)", goal_cases)
  case (2 s p0 x p m x2 q)
  then show ?case using find_pos_left pos_inc_left by fastforce
qed simp

declare find_string_loop.simps [simp del]

text \<open>The first byte of the string is read whatever its length, so the empty string is excluded.\<close>

definition buf_find_string_offset :: "buf \<Rightarrow> byte list \<Rightarrow> nat option option" where
  "buf_find_string_offset buf s = (if s = [] then None else find_string_loop s (buf_pos_init buf))"

definition PEEK_BUF_STARTSWITH_MAX :: nat where "PEEK_BUF_STARTSWITH_MAX = 16"

definition buf_peek_startswith :: "buf \<Rightarrow> byte list \<Rightarrow> bool option" where
  "buf_peek_startswith buf cmd =
     (if cmd = [] then Some True
      else if length cmd > PEEK_BUF_STARTSWITH_MAX then Some False
      else if buf_len buf < length cmd then Some False
      else map_option (\<lambda>tmp. tmp = cmd) (buf_peek buf (length cmd)))"

fun find_offset_loop :: "byte \<Rightarrow> chunk list \<Rightarrow> nat \<Rightarrow> nat option option" where
  "find_offset_loop ch [] offset = Some None"
| "find_offset_loop ch (chunk # rest) offset =
     do {
       bs \<leftarrow> mem_read (mem chunk) (data chunk) (datalen chunk);
       (case memchr_at ch bs of
          Some k \<Rightarrow> Some (Some (offset + k))
        | None \<Rightarrow> find_offset_loop ch rest (offset + datalen chunk))
     }"

definition buf_find_offset_of_char :: "buf \<Rightarrow> byte \<Rightarrow> nat option option" where
  "buf_find_offset_of_char buf ch =
     (if buf_len buf \<le> BUF_MAX_LEN then find_offset_loop ch (chunks buf) 0 else None)"

text \<open>What \<^verbatim>\<open>buf_get_line\<close> reports: no line yet, the size that a line needs, or a line.\<close>

datatype get_line = NoLine | TooLong nat | Line "byte list"

definition buf_get_line :: "buf \<Rightarrow> nat \<Rightarrow> nat \<Rightarrow> (get_line \<times> buf \<times> nat) option" where
  "buf_get_line buf data_len allocd =
     (if chunks buf = [] then Some (NoLine, buf, allocd)
      else do {
        offset \<leftarrow> buf_find_offset_of_char buf 10;
        (case offset of
           None \<Rightarrow> Some (NoLine, buf, allocd)
         | Some sz \<Rightarrow>
             if sz + 2 > data_len then Some (TooLong (sz + 2), buf, allocd)
             else do {
               (line, _, buf, allocd) \<leftarrow> buf_get_bytes buf (sz + 1) allocd;
               Some (Line line, buf, allocd)
             })
      })"

end
