(* ===== verification/Buffers_Correct.thy ===== *)
theory Buffers_Correct
  imports Buffers
begin

text \<open>
  What the buffers promise. A chunk holds its bytes inside its memory, and every operation keeps
  that, changes the contents as its name says, and accounts exactly for the memory. The buffers
  implement the interface \<open>byte_queue\<close>; the search for a string is right when no chunk is empty, and reads
  uninitialised memory otherwise.
\<close>

section \<open>What a chunk holds\<close>

text \<open>The bytes of a chunk lie inside its memory, are initialised, and the sentinel is intact.\<close>

definition chunk_holds :: "chunk \<Rightarrow> byte list \<Rightarrow> bool" where
  "chunk_holds ch bs \<longleftrightarrow> length bs = datalen ch \<and> DBG_alloc ch = CHUNK_ALLOC_SIZE (memlen ch) \<and>
     (\<exists>pre post. mem ch = pre @ map Some bs @ post @ replicate SENTINEL_LEN (Some 0) \<and> length pre = data ch \<and>
        length pre + length bs + length post = memlen ch)"

definition chunk_bytes :: "chunk \<Rightarrow> byte list" where
  "chunk_bytes ch = map the (take (datalen ch) (drop (data ch) (mem ch)))"

lemma chunk_holdsE:
  assumes "chunk_holds ch bs"
  obtains pre post where "mem ch = pre @ map Some bs @ post @ replicate SENTINEL_LEN (Some 0)" "length pre = data ch"
    "length pre + length bs + length post = memlen ch" "length bs = datalen ch" "DBG_alloc ch = CHUNK_ALLOC_SIZE (memlen ch)"
  using assms unfolding chunk_holds_def by blast

lemma chunk_holdsI:
  assumes "mem ch = pre @ map Some bs @ post @ replicate SENTINEL_LEN (Some 0)" "length pre = data ch"
    "length pre + length bs + length post = memlen ch" "length bs = datalen ch" "DBG_alloc ch = CHUNK_ALLOC_SIZE (memlen ch)"
  shows "chunk_holds ch bs"
  using assms unfolding chunk_holds_def by blast

lemma chunk_holds_len: "chunk_holds ch bs \<Longrightarrow> length bs = datalen ch"
  by (simp add: chunk_holds_def)

lemma chunk_bytes_eq: "chunk_holds ch bs \<Longrightarrow> chunk_bytes ch = bs"
  by (elim chunk_holdsE) (simp add: chunk_bytes_def comp_def)

lemma those_map_Some [simp]: "those (map Some xs) = Some xs"
  by (induction xs) auto

lemma chunk_read:
  assumes "chunk_holds ch bs" "p + n \<le> datalen ch"
  shows "mem_read (mem ch) (data ch + p) n = Some (take n (drop p bs))"
  using assms(1)
proof (rule chunk_holdsE)
  fix pre post
  assume h: "mem ch = pre @ map Some bs @ post @ replicate SENTINEL_LEN (Some 0)" "length pre = data ch"
    "length bs = datalen ch"
  have "take n (drop (data ch + p) (mem ch)) = map Some (take n (drop p bs))"
    using h assms(2) by (simp add: take_map drop_map add.commute)
  then show ?thesis using h assms(2) by (simp add: mem_read_def)
qed

lemmas chunk_read_front = chunk_read [where p = 0, simplified]

lemma chunk_append:
  assumes "chunk_holds ch bs" "length xs \<le> CHUNK_REMAINING_CAPACITY ch"
  shows "\<exists>m. mem_write (mem ch) (data ch + datalen ch) xs = Some m \<and>
    chunk_holds (ch\<lparr>mem := m, datalen := datalen ch + length xs\<rparr>) (bs @ xs)"
  using assms(1)
proof (rule chunk_holdsE)
  fix pre post
  assume h: "mem ch = pre @ map Some bs @ post @ replicate SENTINEL_LEN (Some 0)" "length pre = data ch"
    "length pre + length bs + length post = memlen ch" "length bs = datalen ch" "DBG_alloc ch = CHUNK_ALLOC_SIZE (memlen ch)"
  then have fits: "length xs \<le> length post" using assms(2) by (simp add: CHUNK_REMAINING_CAPACITY_def)
  let ?m = "pre @ map Some (bs @ xs) @ drop (length xs) post @ replicate SENTINEL_LEN (Some 0)"
  have "mem_write (mem ch) (data ch + datalen ch) xs = Some ?m"
    using h fits by (simp add: mem_write_def)
  moreover have "chunk_holds (ch\<lparr>mem := ?m, datalen := datalen ch + length xs\<rparr>) (bs @ xs)"
    by (rule chunk_holdsI [where pre = pre and post = "drop (length xs) post"]) (use h fits in simp_all)
  ultimately show ?thesis by blast
qed

lemma chunk_advance:
  assumes "chunk_holds ch bs" "n \<le> datalen ch"
  shows "chunk_holds (ch\<lparr>data := data ch + n, datalen := datalen ch - n\<rparr>) (drop n bs)"
  using assms(1)
proof (rule chunk_holdsE)
  fix pre post
  assume h: "mem ch = pre @ map Some bs @ post @ replicate SENTINEL_LEN (Some 0)" "length pre = data ch"
    "length pre + length bs + length post = memlen ch" "length bs = datalen ch" "DBG_alloc ch = CHUNK_ALLOC_SIZE (memlen ch)"
  have "map Some bs = map Some (take n bs) @ map Some (drop n bs)"
    by (metis append_take_drop_id map_append)
  then show ?thesis
    using h assms(2) by (intro chunk_holdsI [where pre = "pre @ map Some (take n bs)" and post = post]) simp_all
qed

lemma chunk_repack_ok:
  assumes "chunk_holds ch bs"
  shows "\<exists>ch'. chunk_repack ch = Some ch' \<and> chunk_holds ch' bs \<and> data ch' = 0 \<and> memlen ch' = memlen ch \<and> datalen ch' = datalen ch"
  using assms
proof (rule chunk_holdsE)
  fix pre post
  assume h: "mem ch = pre @ map Some bs @ post @ replicate SENTINEL_LEN (Some 0)" "length pre = data ch"
    "length pre + length bs + length post = memlen ch" "length bs = datalen ch" "DBG_alloc ch = CHUNK_ALLOC_SIZE (memlen ch)"
  let ?post = "drop (length bs) (pre @ map Some bs @ post)"
  let ?m = "map Some bs @ ?post @ replicate SENTINEL_LEN (Some 0)"
  have read: "mem_read (mem ch) (data ch) (datalen ch) = Some bs"
    using chunk_read_front [OF assms, of "datalen ch"] h by simp
  have wr: "mem_write (mem ch) 0 bs = Some ?m" using h by (simp add: mem_write_def)
  have "chunk_holds (ch\<lparr>mem := ?m, data := 0\<rparr>) bs"
    by (rule chunk_holdsI [where pre = "[]" and post = ?post]) (use h in simp_all)
  moreover have "chunk_holds (ch\<lparr>data := 0\<rparr>) bs" if "datalen ch = 0 \<or> data ch = 0"
  proof (rule chunk_holdsI [where pre = "[]" and post = "pre @ post"])
    show "mem (ch\<lparr>data := 0\<rparr>) = [] @ map Some bs @ (pre @ post) @ replicate SENTINEL_LEN (Some 0)" using h that by auto
  qed (use h in simp_all)
  ultimately show ?thesis using read wr by (auto simp: chunk_repack_def)
qed

lemma chunk_grow_ok:
  assumes "chunk_holds ch bs" "memlen ch < sz"
  shows "\<exists>ch'. chunk_grow ch sz allocd = Some (ch', allocd + (sz - memlen ch)) \<and> chunk_holds ch' bs \<and> memlen ch' = sz \<and>
    data ch' = data ch \<and> datalen ch' = datalen ch"
  using assms(1)
proof (rule chunk_holdsE)
  fix pre post
  assume h: "mem ch = pre @ map Some bs @ post @ replicate SENTINEL_LEN (Some 0)" "length pre = data ch"
    "length pre + length bs + length post = memlen ch" "length bs = datalen ch" "DBG_alloc ch = CHUNK_ALLOC_SIZE (memlen ch)"
  let ?post = "take (sz - length pre - length bs) (post @ replicate SENTINEL_LEN (Some 0) @ replicate (sz - memlen ch) None)"
  let ?ch = "ch\<lparr>memlen := sz, DBG_alloc := CHUNK_ALLOC_SIZE sz,
    mem := take sz (mem ch @ replicate (sz - memlen ch) None) @ replicate SENTINEL_LEN (Some 0)\<rparr>"
  have "take sz (mem ch @ replicate (sz - memlen ch) None) = pre @ map Some bs @ ?post"
    using h assms(2) by simp
  then have "chunk_holds ?ch bs"
    using h assms(2) by (intro chunk_holdsI [where pre = pre and post = ?post]) simp_all
  moreover have "chunk_grow ch sz allocd = Some (?ch, allocd + (sz - memlen ch))"
    using h assms(2) by (simp add: chunk_grow_def Let_def)
  ultimately show ?thesis by auto
qed

lemma chunk_new_ok:
  assumes "CHUNK_OVERHEAD \<le> alloc" "chunk_new_with_alloc_size alloc now allocd = (ch, allocd')"
  shows "chunk_holds ch []" "memlen ch = alloc - CHUNK_OVERHEAD" "datalen ch = 0" "data ch = 0" "allocd' = allocd + alloc"
  using assms by (auto simp: chunk_new_with_alloc_size_def intro!: chunk_holdsI [where pre = "[]"])

lemma preferred_size:
  assumes "target \<le> SIZE_T_CEILING - CHUNK_OVERHEAD"
  shows "\<exists>n. buf_preferred_chunk_size target = Some n \<and> CHUNK_ALLOC_SIZE target \<le> n \<and> MIN_CHUNK_ALLOC \<le> n"
proof -
  have "CHUNK_ALLOC_SIZE target \<le> preferred_loop target sz \<and> sz \<le> preferred_loop target sz" if "CHUNK_OVERHEAD \<le> sz" for sz
    using that
  proof (induction target sz rule: preferred_loop.induct)
    case (1 target sz)
    then show ?case by (subst (1 2) preferred_loop.simps) auto
  qed
  then have "CHUNK_ALLOC_SIZE target \<le> preferred_loop target MIN_CHUNK_ALLOC \<and> MIN_CHUNK_ALLOC \<le> preferred_loop target MIN_CHUNK_ALLOC"
    by (simp add: MIN_CHUNK_ALLOC_def CHUNK_OVERHEAD_def CHUNK_HEADER_LEN_def SENTINEL_LEN_def)
  then show ?thesis
    using assms unfolding buf_preferred_chunk_size_def by (simp add: MAX_CHUNK_ALLOC_def MIN_CHUNK_ALLOC_def)
qed

section \<open>What a buffer holds\<close>

definition chunk_ok :: "chunk \<Rightarrow> bool" where
  "chunk_ok ch \<longleftrightarrow> chunk_holds ch (chunk_bytes ch)"

definition chunks_bytes :: "chunk list \<Rightarrow> byte list" where
  "chunks_bytes chs = concat (map chunk_bytes chs)"

definition chunks_alloc :: "chunk list \<Rightarrow> nat" where
  "chunks_alloc chs = sum_list (map (\<lambda>ch. CHUNK_ALLOC_SIZE (memlen ch)) chs)"

abbreviation buf_bytes :: "buf \<Rightarrow> byte list" where "buf_bytes b \<equiv> chunks_bytes (chunks b)"

text \<open>
  Well-formed buffers, apart from their maximal length. The last condition ties the buffer to the
  number of bytes in all chunks of the program.
\<close>

definition buf_wf :: "buf \<Rightarrow> nat \<Rightarrow> bool" where
  "buf_wf b allocd \<longleftrightarrow> magic b = BUFFER_MAGIC \<and> list_all chunk_ok (chunks b) \<and> buf_len b = length (buf_bytes b) \<and>
     MIN_CHUNK_ALLOC \<le> default_chunk_size b \<and> buf_allocation b \<le> allocd"

definition buf_ok :: "buf \<Rightarrow> nat \<Rightarrow> bool" where
  "buf_ok b allocd \<longleftrightarrow> buf_wf b allocd \<and> buf_len b \<le> BUF_MAX_LEN"

lemma chunks_bytes_simps [simp]:
  "chunks_bytes [] = []" "chunks_bytes (ch # chs) = chunk_bytes ch @ chunks_bytes chs"
  "chunks_bytes (chs @ chs') = chunks_bytes chs @ chunks_bytes chs'"
  by (simp_all add: chunks_bytes_def)

lemma chunks_alloc_simps [simp]:
  "chunks_alloc [] = 0" "chunks_alloc (ch # chs) = CHUNK_ALLOC_SIZE (memlen ch) + chunks_alloc chs"
  "chunks_alloc (chs @ chs') = chunks_alloc chs + chunks_alloc chs'"
  by (simp_all add: chunks_alloc_def)

lemma buf_allocation_eq: "buf_allocation b = chunks_alloc (chunks b)"
  by (simp add: buf_allocation_def chunks_alloc_def)

lemma chunk_holds_ok: "chunk_holds ch bs \<Longrightarrow> chunk_ok ch \<and> chunk_bytes ch = bs"
  by (simp add: chunk_ok_def chunk_bytes_eq)

lemma chunk_okD:
  assumes "chunk_ok ch"
  shows "length (chunk_bytes ch) = datalen ch" "chunk_holds ch (chunk_bytes ch)"
    "DBG_alloc ch = CHUNK_ALLOC_SIZE (memlen ch)" "data ch + datalen ch \<le> memlen ch"
proof -
  show h: "chunk_holds ch (chunk_bytes ch)" using assms by (simp add: chunk_ok_def)
  show "length (chunk_bytes ch) = datalen ch" "DBG_alloc ch = CHUNK_ALLOC_SIZE (memlen ch)" "data ch + datalen ch \<le> memlen ch"
    using h by (auto elim!: chunk_holdsE)
qed

lemma free_chunk:
  "chunk_ok ch \<Longrightarrow> CHUNK_ALLOC_SIZE (memlen ch) \<le> allocd \<Longrightarrow>
   buf_chunk_free_unchecked ch allocd = Some (allocd - CHUNK_ALLOC_SIZE (memlen ch))"
  by (simp add: buf_chunk_free_unchecked_def chunk_okD)

lemma free_chunks_ok:
  "list_all chunk_ok chs \<Longrightarrow> chunks_alloc chs \<le> allocd \<Longrightarrow> free_chunks chs allocd = Some (allocd - chunks_alloc chs)"
  by (induction chs arbitrary: allocd) (simp_all add: free_chunk)

subsection \<open>Taking bytes out\<close>

lemma peek_loop_ok:
  "list_all chunk_ok chs \<Longrightarrow> n \<le> length (chunks_bytes chs) \<Longrightarrow> peek_loop n chs = Some (take n (chunks_bytes chs))"
proof (induction chs arbitrary: n)
  case (Cons ch chs)
  let ?k = "min n (datalen ch)"
  have ok: "chunk_ok ch" "length (chunk_bytes ch) = datalen ch" using Cons.prems(1) by (simp_all add: chunk_okD)
  have "mem_read (mem ch) (data ch) ?k = Some (take n (chunk_bytes ch))"
    using chunk_read_front [OF chunk_okD(2) [OF ok(1)], of ?k] ok(2) by (simp add: min_def)
  moreover have "peek_loop (n - ?k) chs = Some (take (n - datalen ch) (chunks_bytes chs))"
    using Cons ok(2) by (simp add: min_def)
  ultimately show ?case using ok(2) by (subst peek_loop.simps) (simp add: Let_def)
qed (simp add: peek_loop.simps)

lemma drain_loop_ok:
  "list_all chunk_ok chs \<Longrightarrow> n \<le> length (chunks_bytes chs) \<Longrightarrow> chunks_alloc chs \<le> allocd \<Longrightarrow>
   \<exists>chs' allocd'. drain_loop n chs len allocd = Some (chs', len - n, allocd') \<and> list_all chunk_ok chs' \<and>
     chunks_bytes chs' = drop n (chunks_bytes chs) \<and> allocd' + chunks_alloc chs = allocd + chunks_alloc chs'"
proof (induction chs arbitrary: n len allocd)
  case (Cons ch chs)
  have ok: "chunk_ok ch" "length (chunk_bytes ch) = datalen ch" "list_all chunk_ok chs"
    using Cons.prems(1) by (simp_all add: chunk_okD)
  show ?case
  proof (cases "n = 0 \<or> datalen ch > n")
    case True
    then show ?thesis
      using Cons.prems(1) ok chunk_holds_ok [OF chunk_advance [OF chunk_okD(2) [OF ok(1)], of n]]
      by (auto simp: drain_loop.simps)
  next
    case False
    have "n - datalen ch \<le> length (chunks_bytes chs)" "chunks_alloc chs \<le> allocd - CHUNK_ALLOC_SIZE (memlen ch)"
      using Cons.prems(2,3) ok(2) by simp_all
    then obtain chs' allocd' where IH:
      "drain_loop (n - datalen ch) chs (len - datalen ch) (allocd - CHUNK_ALLOC_SIZE (memlen ch)) =
         Some (chs', len - datalen ch - (n - datalen ch), allocd')" "list_all chunk_ok chs'"
      "chunks_bytes chs' = drop (n - datalen ch) (chunks_bytes chs)"
      "allocd' + chunks_alloc chs = allocd - CHUNK_ALLOC_SIZE (memlen ch) + chunks_alloc chs'"
      using Cons.IH [OF ok(3), of "n - datalen ch" "allocd - CHUNK_ALLOC_SIZE (memlen ch)" "len - datalen ch"] by blast
    then show ?thesis
      using False ok Cons.prems(3) by (subst drain_loop.simps) (simp add: free_chunk)
  qed
qed (simp add: drain_loop.simps)

lemma buf_drain_ok:
  assumes "buf_wf b allocd" "n \<le> buf_len b"
  shows "\<exists>b' allocd'. buf_drain b n allocd = Some (b', allocd') \<and> buf_wf b' allocd' \<and> buf_bytes b' = drop n (buf_bytes b) \<and>
    allocd' + buf_allocation b = allocd + buf_allocation b'"
proof -
  obtain chs' allocd' where "drain_loop n (chunks b) (buf_len b) allocd = Some (chs', buf_len b - n, allocd')"
    "list_all chunk_ok chs'" "chunks_bytes chs' = drop n (buf_bytes b)" "allocd' + chunks_alloc (chunks b) = allocd + chunks_alloc chs'"
    using drain_loop_ok [of "chunks b" n allocd "buf_len b"] assms by (auto simp: buf_wf_def buf_allocation_eq)
  then show ?thesis using assms by (simp add: buf_drain_def buf_wf_def buf_allocation_eq)
qed

lemma buf_peek_ok: "buf_wf b allocd \<Longrightarrow> n \<le> buf_len b \<Longrightarrow> buf_peek b n = Some (take n (buf_bytes b))"
  by (simp add: buf_peek_def buf_wf_def peek_loop_ok)

lemma buf_wf_len: "buf_wf b allocd \<Longrightarrow> buf_len b = length (buf_bytes b)"
  by (simp add: buf_wf_def)

lemma buf_get_bytes_ok:
  assumes "buf_ok b allocd" "n \<le> buf_len b"
  shows "\<exists>b' allocd'. buf_get_bytes b n allocd = Some (take n (buf_bytes b), int (buf_len b - n), b', allocd') \<and>
    buf_ok b' allocd' \<and> buf_bytes b' = drop n (buf_bytes b) \<and> allocd' + buf_allocation b = allocd + buf_allocation b'"
proof -
  have wf: "buf_wf b allocd" "buf_len b \<le> BUF_MAX_LEN" using assms(1) by (simp_all add: buf_ok_def)
  obtain b' allocd' where d: "buf_drain b n allocd = Some (b', allocd')" "buf_wf b' allocd'" "buf_bytes b' = drop n (buf_bytes b)"
    "allocd' + buf_allocation b = allocd + buf_allocation b'"
    using buf_drain_ok [OF wf(1) assms(2)] by blast
  moreover have "buf_len b' = buf_len b - n" using d(2,3) wf(1) by (simp add: buf_wf_def)
  ultimately show ?thesis
    using wf buf_peek_ok [OF wf(1) assms(2)] by (simp add: buf_get_bytes_def buf_ok_def)
qed

subsection \<open>Putting bytes in\<close>

lemma add_chunk_ok:
  assumes "buf_wf b allocd"
  shows "\<exists>ch allocd'. buf_add_chunk_with_capacity now n True b allocd = Some (b\<lparr>chunks := chunks b @ [ch]\<rparr>, allocd') \<and>
    chunk_holds ch [] \<and> 0 < CHUNK_REMAINING_CAPACITY ch \<and> allocd' = allocd + CHUNK_ALLOC_SIZE (memlen ch) \<and>
    data ch = 0 \<and> mem ch = replicate (memlen ch) None @ replicate SENTINEL_LEN (Some 0)"
proof -
  note sizes = MAX_CHUNK_ALLOC_def MIN_CHUNK_ALLOC_def CHUNK_OVERHEAD_def CHUNK_HEADER_LEN_def SENTINEL_LEN_def
  have wf: "MIN_CHUNK_ALLOC \<le> default_chunk_size b" using assms by (simp add: buf_wf_def)
  have pref: "\<exists>a. buf_preferred_chunk_size n = Some a \<and> MIN_CHUNK_ALLOC \<le> a" if "CHUNK_ALLOC_SIZE n \<le> MAX_CHUNK_ALLOC"
    using that preferred_size [of n] by (auto simp: sizes SIZE_T_CEILING_def)
  obtain a where a: "(if CHUNK_ALLOC_SIZE n < default_chunk_size b then Some (default_chunk_size b)
      else if True \<and> CHUNK_ALLOC_SIZE n > MAX_CHUNK_ALLOC then Some MAX_CHUNK_ALLOC
      else buf_preferred_chunk_size n) = Some a" "MIN_CHUNK_ALLOC \<le> a"
    using wf pref by (cases "CHUNK_ALLOC_SIZE n < default_chunk_size b"; cases "CHUNK_ALLOC_SIZE n > MAX_CHUNK_ALLOC")
      (auto simp: MAX_CHUNK_ALLOC_def MIN_CHUNK_ALLOC_def not_less)
  obtain ch allocd' where ch: "chunk_new_with_alloc_size a now allocd = (ch, allocd')" by fastforce
  have "CHUNK_OVERHEAD < a" using a(2) by (simp add: sizes)
  moreover have "mem ch = replicate (memlen ch) None @ replicate SENTINEL_LEN (Some 0)"
    using ch by (auto simp: chunk_new_with_alloc_size_def)
  ultimately show ?thesis
    using a(1) ch chunk_new_ok [OF _ ch]
    by (auto simp: buf_add_chunk_with_capacity_def CHUNK_REMAINING_CAPACITY_def)
qed

text \<open>The chunk that the next bytes go to, and the chunks before it.\<close>

lemma add_room:
  assumes "buf_wf b allocd"
  shows "\<exists>b1 allocd1 chs ch. (if chunks b = [] \<or> CHUNK_REMAINING_CAPACITY (last (chunks b)) = 0
        then buf_add_chunk_with_capacity now n True b allocd else Some (b, allocd)) = Some (b1, allocd1) \<and>
      chunks b1 = chs @ [ch] \<and> chunk_ok ch \<and> 0 < CHUNK_REMAINING_CAPACITY ch \<and> buf_wf b1 allocd1 \<and>
      buf_bytes b1 = buf_bytes b \<and> allocd1 + buf_allocation b = allocd + buf_allocation b1"
proof (cases "chunks b = [] \<or> CHUNK_REMAINING_CAPACITY (last (chunks b)) = 0")
  case True
  obtain ch allocd' where "buf_add_chunk_with_capacity now n True b allocd = Some (b\<lparr>chunks := chunks b @ [ch]\<rparr>, allocd')"
    "chunk_holds ch []" "0 < CHUNK_REMAINING_CAPACITY ch" "allocd' = allocd + CHUNK_ALLOC_SIZE (memlen ch)"
    using add_chunk_ok [OF assms] by blast
  then show ?thesis
    using True assms chunk_holds_ok [of ch "[]"] by (auto simp: buf_wf_def buf_allocation_eq)
next
  case False
  then obtain chs ch where "chunks b = chs @ [ch]" by (metis append_butlast_last_id)
  then show ?thesis using False assms by (auto simp: buf_wf_def)
qed

lemma buf_add_loop_ok:
  "buf_wf b allocd \<Longrightarrow> \<exists>b' allocd'. buf_add_loop now string b allocd = Some (b', allocd') \<and> buf_wf b' allocd' \<and>
     buf_bytes b' = buf_bytes b @ string \<and> allocd' + buf_allocation b = allocd + buf_allocation b'"
proof (induction "length string" arbitrary: string b allocd rule: less_induct)
  case less
  show ?case
  proof (cases "string = []")
    case True
    then show ?thesis using less.prems by (simp add: buf_add_loop.simps)
  next
    case False
    obtain b1 allocd1 chs ch where r: "(if chunks b = [] \<or> CHUNK_REMAINING_CAPACITY (last (chunks b)) = 0
          then buf_add_chunk_with_capacity now (length string) True b allocd else Some (b, allocd)) = Some (b1, allocd1)"
      "chunks b1 = chs @ [ch]" "chunk_ok ch" "0 < CHUNK_REMAINING_CAPACITY ch" "buf_wf b1 allocd1"
      "buf_bytes b1 = buf_bytes b" "allocd1 + buf_allocation b = allocd + buf_allocation b1"
      using add_room [OF less.prems] by blast
    define copy where "copy = min (CHUNK_REMAINING_CAPACITY ch) (length string)"
    have copy: "0 < copy" "copy \<le> length string" "copy \<le> CHUNK_REMAINING_CAPACITY ch" using False r(4) by (auto simp: copy_def)
    obtain m where m: "mem_write (mem ch) (data ch + datalen ch) (take copy string) = Some m"
      "chunk_holds (ch\<lparr>mem := m, datalen := datalen ch + copy\<rparr>) (chunk_bytes ch @ take copy string)"
      using chunk_append [OF chunk_okD(2) [OF r(3)], of "take copy string"] copy by auto
    define b2 where "b2 = b1\<lparr>chunks := chs @ [ch\<lparr>mem := m, datalen := datalen ch + copy\<rparr>], buf_len := buf_len b1 + copy\<rparr>"
    have b2: "buf_wf b2 allocd1" "buf_bytes b2 = buf_bytes b @ take copy string" "buf_allocation b2 = buf_allocation b1"
      using r(2,5) r(6) [symmetric] chunk_holds_ok [OF m(2)] copy(2) by (simp_all add: b2_def buf_wf_def buf_allocation_eq)
    obtain b' allocd' where IH: "buf_add_loop now (drop copy string) b2 allocd1 = Some (b', allocd')" "buf_wf b' allocd'"
      "buf_bytes b' = buf_bytes b2 @ drop copy string" "allocd' + buf_allocation b2 = allocd1 + buf_allocation b'"
      using less.hyps [OF _ b2(1), of "drop copy string"] copy False by auto
    have "buf_add_loop now string b allocd = buf_add_loop now (drop copy string) b2 allocd1"
      using False r(1,2) m(1) by (subst buf_add_loop.simps) (simp add: copy_def [symmetric] b2_def)
    then show ?thesis using IH b2 r(7) by simp
  qed
qed

lemma buf_add_ok:
  assumes "buf_ok b allocd" "buf_len b + length string \<le> BUF_MAX_LEN"
  shows "\<exists>b' allocd'. buf_add now string b allocd = Some (int (buf_len b + length string), b', allocd') \<and> buf_ok b' allocd' \<and>
    buf_bytes b' = buf_bytes b @ string \<and> allocd' + buf_allocation b = allocd + buf_allocation b'"
proof (cases "string = []")
  case True
  then show ?thesis using assms by (simp add: buf_add_def)
next
  case False
  have wf: "buf_wf b allocd" using assms(1) by (simp add: buf_ok_def)
  obtain b' allocd' where l: "buf_add_loop now string b allocd = Some (b', allocd')" "buf_wf b' allocd'"
    "buf_bytes b' = buf_bytes b @ string" "allocd' + buf_allocation b = allocd + buf_allocation b'"
    using buf_add_loop_ok [OF wf] by blast
  have "(int BUF_MAX_LEN - int (length string)) mod 2 ^ 64 = int BUF_MAX_LEN - int (length string)"
    using assms(2) by (intro mod_pos_pos_trivial) (simp_all add: BUF_MAX_LEN_def)
  moreover have "buf_len b' = buf_len b + length string" using l(2,3) wf by (simp add: buf_wf_def)
  ultimately show ?thesis using False assms(2) l by (simp add: buf_add_def buf_ok_def)
qed

text \<open>
  A string longer than the maximal length escapes the second test, which wraps around, and ends in
  a failed assertion instead of the result -1.
\<close>

lemma buf_add_huge:
  assumes "buf_ok b allocd" "BUF_MAX_LEN < length string" "length string < 2 ^ 63"
  shows "buf_add now string b allocd = None"
proof -
  have wf: "buf_wf b allocd" "buf_len b \<le> BUF_MAX_LEN" using assms(1) by (simp_all add: buf_ok_def)
  obtain b' allocd' where l: "buf_add_loop now string b allocd = Some (b', allocd')" "buf_wf b' allocd'"
    "buf_bytes b' = buf_bytes b @ string"
    using buf_add_loop_ok [OF wf(1)] by blast
  have "(int BUF_MAX_LEN - int (length string)) mod 2 ^ 64 = int BUF_MAX_LEN - int (length string) + 2 ^ 64"
    using assms(2,3) by (subst mod_add_self2 [symmetric], intro mod_pos_pos_trivial) (simp_all add: BUF_MAX_LEN_def)
  moreover have "length string \<le> buf_len b'" using l(2,3) by (simp add: buf_wf_def)
  ultimately show ?thesis using assms(2,3) wf(2) l(1) by (auto simp: buf_add_def BUF_MAX_LEN_def)
qed

subsection \<open>Making the front contiguous\<close>

lemma pullup_room_ok:
  assumes "chunk_ok head" "datalen head < capacity" "capacity \<le> BUF_MAX_LEN"
  shows "\<exists>head' allocd'. pullup_room head capacity allocd = Some (head', allocd') \<and> chunk_holds head' (chunk_bytes head) \<and>
    capacity - datalen head \<le> CHUNK_REMAINING_CAPACITY head' \<and>
    allocd' + CHUNK_ALLOC_SIZE (memlen head) = allocd + CHUNK_ALLOC_SIZE (memlen head')"
proof -
  obtain h where h: "chunk_repack head = Some h" "chunk_holds h (chunk_bytes head)" "data h = 0" "memlen h = memlen head"
    "datalen h = datalen head"
    using chunk_repack_ok [OF chunk_okD(2) [OF assms(1)]] by blast
  show ?thesis
  proof (cases "memlen head \<ge> capacity")
    case True
    then show ?thesis
      using h chunk_okD(2) [OF assms(1)] by (auto simp: pullup_room_def Let_def CHUNK_REMAINING_CAPACITY_def)
  next
    case False
    have "capacity \<le> SIZE_T_CEILING - CHUNK_OVERHEAD"
      using assms(3) by (simp add: BUF_MAX_LEN_def SIZE_T_CEILING_def CHUNK_OVERHEAD_def CHUNK_HEADER_LEN_def SENTINEL_LEN_def)
    from preferred_size [OF this] obtain a where a: "buf_preferred_chunk_size capacity = Some a" "CHUNK_ALLOC_SIZE capacity \<le> a"
      by blast
    then have "memlen h < CHUNK_SIZE_WITH_ALLOC a" "capacity \<le> CHUNK_SIZE_WITH_ALLOC a" using False h(4) by simp_all
    then show ?thesis
      using False h a chunk_grow_ok [OF h(2), of "CHUNK_SIZE_WITH_ALLOC a" allocd]
      by (auto simp: pullup_room_def CHUNK_REMAINING_CAPACITY_def)
  qed
qed

lemma pullup_loop_ok:
  "chunk_holds dest bs \<Longrightarrow> list_all chunk_ok srcs \<Longrightarrow> bytes \<le> length bs + length (chunks_bytes srcs) \<Longrightarrow>
   bytes - datalen dest \<le> CHUNK_REMAINING_CAPACITY dest \<Longrightarrow> chunks_alloc srcs \<le> allocd \<Longrightarrow>
   \<exists>dest' srcs' allocd'. pullup_loop bytes dest srcs allocd = Some (dest', srcs', allocd') \<and> chunk_ok dest' \<and>
     list_all chunk_ok srcs' \<and> chunk_bytes dest' @ chunks_bytes srcs' = bs @ chunks_bytes srcs \<and> bytes \<le> datalen dest' \<and>
     memlen dest' = memlen dest \<and> allocd' + chunks_alloc srcs = allocd + chunks_alloc srcs'"
proof (induction srcs arbitrary: dest bs allocd)
  case Nil
  then show ?case using chunk_holds_ok [OF Nil(1)] chunk_holds_len [OF Nil(1)] by simp
next
  case (Cons src rest)
  have src: "chunk_ok src" "length (chunk_bytes src) = datalen src" using Cons.prems(2) by (simp_all add: chunk_okD)
  note holds = chunk_holds_ok [OF Cons.prems(1)] chunk_holds_len [OF Cons.prems(1)]
  show ?case
  proof (cases "datalen dest < bytes")
    case False
    then show ?thesis using holds Cons.prems(2) by simp
  next
    case True
    define n where "n = min (bytes - datalen dest) (datalen src)"
    have nle: "n \<le> datalen src" "n \<le> CHUNK_REMAINING_CAPACITY dest" using Cons.prems(4) by (simp_all add: n_def)
    have "mem_read (mem src) (data src) n = Some (take n (chunk_bytes src))"
      using chunk_read_front [OF chunk_okD(2) [OF src(1)], of n] by (simp add: n_def)
    moreover obtain m where m: "mem_write (mem dest) (data dest + datalen dest) (take n (chunk_bytes src)) = Some m"
      "chunk_holds (dest\<lparr>mem := m, datalen := datalen dest + n\<rparr>) (bs @ take n (chunk_bytes src))"
      using chunk_append [OF Cons.prems(1), of "take n (chunk_bytes src)"] nle src(2) by auto
    ultimately show ?thesis
    proof (cases "bytes - datalen dest \<ge> datalen src")
      case whole: True
      then have n: "n = datalen src" by (simp add: n_def)
      let ?dest = "dest\<lparr>mem := m, datalen := datalen dest + datalen src\<rparr>" and ?a = "allocd - CHUNK_ALLOC_SIZE (memlen src)"
      have d: "chunk_holds ?dest (bs @ chunk_bytes src)" using m(2) src(2) by (simp add: n)
      have room: "bytes - datalen ?dest \<le> CHUNK_REMAINING_CAPACITY ?dest" using Cons.prems(4) by (simp add: CHUNK_REMAINING_CAPACITY_def)
      have "bytes \<le> length (bs @ chunk_bytes src) + length (chunks_bytes rest)" "chunks_alloc rest \<le> ?a" "list_all chunk_ok rest"
        using Cons.prems by simp_all
      from Cons.IH [OF d this(3,1) room this(2)] show ?thesis
        using True whole Cons.prems(5) src m(1) \<open>mem_read (mem src) (data src) n = _\<close> by (auto simp: n free_chunk)
    next
      case part: False
      then have n: "n = bytes - datalen dest" by (simp add: n_def)
      show ?thesis
        using True part m \<open>mem_read (mem src) (data src) n = _\<close> Cons.prems(2)
          chunk_holds_ok [OF m(2)] chunk_holds_ok [OF chunk_advance [OF chunk_okD(2) [OF src(1)], of n]]
        by (simp add: n)
    qed
  qed
qed

lemma buf_pullup_ok:
  assumes "buf_ok b allocd"
  shows "\<exists>len b' allocd'. buf_pullup b n allocd = Some (len, b', allocd') \<and> buf_ok b' allocd' \<and> buf_bytes b' = buf_bytes b \<and>
    allocd' + buf_allocation b = allocd + buf_allocation b' \<and> min n (buf_len b) \<le> len \<and>
    (chunks b \<noteq> [] \<longrightarrow> chunks b' \<noteq> [] \<and> chunk_bytes (hd (chunks b')) = take len (buf_bytes b))"
proof (cases "chunks b")
  case Nil
  then show ?thesis using assms by (simp add: buf_pullup_def buf_ok_def buf_wf_def)
next
  case (Cons head rest)
  have wf: "chunk_ok head" "list_all chunk_ok rest" "buf_len b = length (chunk_bytes head @ chunks_bytes rest)"
    "buf_len b \<le> BUF_MAX_LEN" "CHUNK_ALLOC_SIZE (memlen head) + chunks_alloc rest \<le> allocd"
    using assms Cons by (simp_all add: buf_ok_def buf_wf_def buf_allocation_eq)
  note len = chunk_okD(1) [OF wf(1)]
  define bytes where "bytes = min n (buf_len b)"
  have bytes: "bytes \<le> BUF_MAX_LEN" "bytes \<le> length (chunk_bytes head) + length (chunks_bytes rest)"
    using wf(3,4) by (simp_all add: bytes_def)
  show ?thesis
  proof (cases "datalen head \<ge> bytes")
    case True
    then show ?thesis using assms Cons len by (auto simp: buf_pullup_def bytes_def min_def)
  next
    case False
    obtain h a where h: "pullup_room head bytes allocd = Some (h, a)" "chunk_holds h (chunk_bytes head)"
      "bytes - datalen head \<le> CHUNK_REMAINING_CAPACITY h" "a + CHUNK_ALLOC_SIZE (memlen head) = allocd + CHUNK_ALLOC_SIZE (memlen h)"
      using pullup_room_ok [OF wf(1), of bytes allocd] False bytes by auto
    have "datalen h = datalen head" using chunk_holds_len [OF h(2)] len by simp
    then obtain d srcs a' where d: "pullup_loop bytes h rest a = Some (d, srcs, a')" "chunk_ok d" "list_all chunk_ok srcs"
      "chunk_bytes d @ chunks_bytes srcs = chunk_bytes head @ chunks_bytes rest" "bytes \<le> datalen d" "memlen d = memlen h"
      "a' + chunks_alloc rest = a + chunks_alloc srcs"
      using pullup_loop_ok [OF h(2) wf(2), of bytes a] h(3,4) wf(5) bytes(2) by auto
    have "buf_pullup b n allocd = Some (datalen d, b\<lparr>chunks := d # srcs\<rparr>, a')"
      using False h(1) d(1) Cons by (simp add: buf_pullup_def bytes_def min_def split: if_splits)
    moreover have "chunk_bytes d = take (datalen d) (chunk_bytes head @ chunks_bytes rest)"
      using d(4) [symmetric] chunk_okD(1) [OF d(2)] by simp
    ultimately show ?thesis
      using assms Cons d(2-7) h(4) by (auto simp: buf_ok_def buf_wf_def buf_allocation_eq bytes_def)
  qed
qed

subsection \<open>Moving between buffers\<close>

text \<open>Two buffers, with the number of bytes allocated for both and for the rest of the program.\<close>

definition bufs_ok :: "buf \<Rightarrow> buf \<Rightarrow> nat \<Rightarrow> bool" where
  "bufs_ok b1 b2 allocd \<longleftrightarrow> buf_ok b1 allocd \<and> buf_ok b2 allocd \<and> buf_allocation b1 + buf_allocation b2 \<le> allocd"

lemma buf_ok_total: "buf_ok b allocd \<Longrightarrow> buf_allocation b \<le> allocd' \<Longrightarrow> buf_ok b allocd'"
  by (simp add: buf_ok_def buf_wf_def)

lemma buf_ok_len: "buf_ok b allocd \<Longrightarrow> buf_len b = length (buf_bytes b)"
  by (simp add: buf_ok_def buf_wf_def)

lemma buf_ok_alloc: "buf_ok b allocd \<Longrightarrow> buf_allocation b \<le> allocd"
  by (simp add: buf_ok_def buf_wf_def)

lemma bufs_len: "bufs_ok b1 b2 allocd \<Longrightarrow> buf_len b1 = length (buf_bytes b1) \<and> buf_len b2 = length (buf_bytes b2)"
  unfolding bufs_ok_def using buf_ok_len by blast

lemma move_loop_ok:
  "bufs_ok out inb allocd \<Longrightarrow> len \<le> buf_len inb \<Longrightarrow> buf_len out + len \<le> BUF_MAX_LEN \<Longrightarrow>
   \<exists>out' inb' allocd'. move_loop now len out inb allocd = Some (out', inb', allocd') \<and> bufs_ok out' inb' allocd' \<and>
     buf_bytes out' = buf_bytes out @ take len (buf_bytes inb) \<and> buf_bytes inb' = drop len (buf_bytes inb) \<and>
     allocd' + buf_allocation out + buf_allocation inb = allocd + buf_allocation out' + buf_allocation inb'"
proof (induction len arbitrary: out inb allocd rule: less_induct)
  case (less len)
  note ok = less.prems(1) [unfolded bufs_ok_def]
  show ?case
  proof (cases "len = 0")
    case True
    then show ?thesis using less.prems by (simp add: move_loop.simps)
  next
    case False
    define n where "n = (if len > 4096 then 4096 else len)"
    have n: "0 < n" "n \<le> len" using False by (auto simp: n_def)
    have "n \<le> buf_len inb" using n less.prems(2) by simp
    then obtain inb1 a1 where g: "buf_get_bytes inb n allocd = Some (take n (buf_bytes inb), int (buf_len inb - n), inb1, a1)"
      "buf_ok inb1 a1" "buf_bytes inb1 = drop n (buf_bytes inb)" "a1 + buf_allocation inb = allocd + buf_allocation inb1"
      using buf_get_bytes_ok ok by blast
    have lens: "length (take n (buf_bytes inb)) = n" "buf_len inb1 = buf_len inb - n"
      using \<open>n \<le> buf_len inb\<close> bufs_len [OF less.prems(1)] buf_ok_len [OF g(2)] g(3) by simp_all
    have "buf_ok out a1" using ok g(4) buf_ok_total [of out allocd a1] by simp
    then obtain out1 a2 where p: "buf_add now (take n (buf_bytes inb)) out a1 = Some (int (buf_len out + n), out1, a2)"
      "buf_ok out1 a2" "buf_bytes out1 = buf_bytes out @ take n (buf_bytes inb)" "a2 + buf_allocation out = a1 + buf_allocation out1"
      using buf_add_ok [of out a1 "take n (buf_bytes inb)" now] lens less.prems(3) n by auto
    have ok1: "bufs_ok out1 inb1 a2"
      using ok g(2,4) p(2,4) buf_ok_total [of inb1 a1 a2] unfolding bufs_ok_def by simp
    have len1: "buf_len out1 = buf_len out + n" using buf_ok_len [OF p(2)] p(3) bufs_len [OF less.prems(1)] lens by simp
    have "len - n < len" "len - n \<le> buf_len inb1" "buf_len out1 + (len - n) \<le> BUF_MAX_LEN"
      using n less.prems lens len1 by simp_all
    from less.IH [OF this(1) ok1 this(2,3)] obtain out' inb' a' where IH:
      "move_loop now (len - n) out1 inb1 a2 = Some (out', inb', a')" "bufs_ok out' inb' a'"
      "buf_bytes out' = buf_bytes out1 @ take (len - n) (buf_bytes inb1)" "buf_bytes inb' = drop (len - n) (buf_bytes inb1)"
      "a' + buf_allocation out1 + buf_allocation inb1 = a2 + buf_allocation out' + buf_allocation inb'" by blast
    have "move_loop now len out inb allocd = Some (out', inb', a')"
      using False g(1) p(1) IH(1) by (subst move_loop.simps) (simp add: n_def [symmetric] Let_def)
    moreover have "take len (buf_bytes inb) = take n (buf_bytes inb) @ take (len - n) (drop n (buf_bytes inb))"
      using n(2) by (metis le_add_diff_inverse take_add)
    ultimately show ?thesis using IH(2-5) g(3,4) p(3,4) n(2) by simp
  qed
qed

lemma buf_move_to_buf_ok:
  assumes "bufs_ok out inb allocd" "buf_len out + flushlen \<le> BUF_MAX_LEN"
  shows "\<exists>out' inb' allocd'. buf_move_to_buf now out inb flushlen allocd =
      Some (int (min flushlen (buf_len inb)), flushlen - buf_len inb, out', inb', allocd') \<and> bufs_ok out' inb' allocd' \<and>
    buf_bytes out' = buf_bytes out @ take flushlen (buf_bytes inb) \<and> buf_bytes inb' = drop flushlen (buf_bytes inb)"
proof -
  let ?n = "min flushlen (buf_len inb)"
  note len = bufs_len [OF assms(1)]
  have "buf_len out + ?n \<le> BUF_MAX_LEN" "\<not> (buf_len out > BUF_MAX_LEN \<or> flushlen > BUF_MAX_LEN)" "\<not> buf_len out > BUF_MAX_LEN - flushlen"
    using assms(2) by (simp_all add: min_def)
  moreover have "take ?n (buf_bytes inb) = take flushlen (buf_bytes inb)" "drop ?n (buf_bytes inb) = drop flushlen (buf_bytes inb)"
    "flushlen - ?n = flushlen - buf_len inb"
    using len by (simp_all add: min_def)
  ultimately show ?thesis
    using move_loop_ok [OF assms(1), of ?n now] unfolding buf_move_to_buf_def Let_def by auto
qed

lemma buf_move_all_ok:
  assumes "bufs_ok out inb allocd" "buf_len out + buf_len inb \<le> BUF_MAX_LEN"
  shows "\<exists>out' inb'. buf_move_all out inb = (buf_len inb, out', inb') \<and> bufs_ok out' inb' allocd \<and>
    buf_bytes out' = buf_bytes out @ buf_bytes inb \<and> buf_bytes inb' = [] \<and>
    buf_allocation out' + buf_allocation inb' = buf_allocation out + buf_allocation inb"
proof (cases "buf_len inb = 0")
  case True
  then show ?thesis using assms bufs_len [OF assms(1)] by (simp add: buf_move_all_def)
next
  case False
  then show ?thesis
    using assms by (auto simp: buf_move_all_def bufs_ok_def buf_ok_def buf_wf_def buf_allocation_eq)
qed

lemma buf_copy_ok:
  assumes "buf_ok b allocd" "buf_copy b allocd = (c, allocd')"
  shows "bufs_ok b c allocd'" "buf_bytes c = buf_bytes b" "allocd' = allocd + buf_allocation c"
  using assms by (auto simp: buf_copy_def buf_new_def bufs_ok_def buf_ok_def buf_wf_def buf_allocation_eq chunks_alloc_def)

lemma buf_clear_ok:
  assumes "buf_ok b allocd"
  shows "\<exists>b'. buf_clear b allocd = Some (b', allocd - buf_allocation b) \<and> buf_ok b' (allocd - buf_allocation b) \<and> buf_bytes b' = []"
  using assms by (simp add: buf_clear_def free_chunks_ok buf_ok_def buf_wf_def buf_allocation_eq)

subsection \<open>Lines\<close>

lemma memchr_at_None: "memchr_at ch bs = None \<longleftrightarrow> ch \<notin> set bs"
  by (simp add: memchr_at_def)

lemma find_offset_loop_ok:
  "list_all chunk_ok chs \<Longrightarrow> find_offset_loop ch chs off =
     Some (map_option (\<lambda>k. off + k) (memchr_at ch (chunks_bytes chs)))"
proof (induction chs arbitrary: off)
  case (Cons c chs)
  have ok: "chunk_ok c" "length (chunk_bytes c) = datalen c" using Cons.prems by (simp_all add: chunk_okD)
  have "mem_read (mem c) (data c) (datalen c) = Some (chunk_bytes c)"
    using chunk_read_front [OF chunk_okD(2) [OF ok(1)], of "datalen c"] ok(2) by simp
  then show ?case
  proof (cases "ch \<in> set (chunk_bytes c)")
    case False
    then have "takeWhile (\<lambda>x. x \<noteq> ch) (chunk_bytes c @ chunks_bytes chs) = chunk_bytes c @ takeWhile (\<lambda>x. x \<noteq> ch) (chunks_bytes chs)"
      by (intro takeWhile_append2) auto
    with False show ?thesis
      using \<open>mem_read (mem c) (data c) (datalen c) = _\<close> Cons ok(2) by (simp add: memchr_at_def comp_def)
  qed (simp add: memchr_at_def)
qed (simp add: memchr_at_def)

lemma buf_get_line_ok:
  assumes "buf_ok b allocd"
  shows "if 10 \<notin> set (buf_bytes b) then buf_get_line b cap allocd = Some (NoLine, b, allocd)
    else let line = takeWhile (\<lambda>c. c \<noteq> 10) (buf_bytes b) @ [10]
      in if cap < length line + 1 then buf_get_line b cap allocd = Some (TooLong (length line + 1), b, allocd)
         else \<exists>b' allocd'. buf_get_line b cap allocd = Some (Line line, b', allocd') \<and> buf_ok b' allocd' \<and>
           line @ buf_bytes b' = buf_bytes b \<and> allocd' + buf_allocation b = allocd + buf_allocation b'"
proof (cases "10 \<in> set (buf_bytes b)")
  case False
  then show ?thesis
    using assms by (simp add: buf_get_line_def buf_find_offset_of_char_def find_offset_loop_ok buf_ok_def buf_wf_def memchr_at_def)
next
  case True
  let ?w = "takeWhile (\<lambda>c. c \<noteq> 10) (buf_bytes b)"
  obtain r where r: "buf_bytes b = ?w @ 10 # r"
  proof -
    obtain ys zs where "buf_bytes b = ys @ 10 # zs" "10 \<notin> set ys" using split_list_first [OF True] by blast
    moreover from this have "?w = ys" by (auto simp: takeWhile_tail)
    ultimately show ?thesis using that by simp
  qed
  have line: "take (length ?w + 1) (buf_bytes b) = ?w @ [10]" "drop (length ?w + 1) (buf_bytes b) = r"
    using arg_cong [OF r, of "take (length ?w + 1)"] arg_cong [OF r, of "drop (length ?w + 1)"] by simp_all
  have "length ?w + 1 \<le> buf_len b" using arg_cong [OF r, of length] buf_ok_len [OF assms] by simp
  from buf_get_bytes_ok [OF assms this] obtain b' allocd' where g:
    "buf_get_bytes b (length ?w + 1) allocd = Some (?w @ [10], int (buf_len b - (length ?w + 1)), b', allocd')" "buf_ok b' allocd'"
    "buf_bytes b' = r" "allocd' + buf_allocation b = allocd + buf_allocation b'"
    unfolding line by blast
  have off: "buf_find_offset_of_char b 10 = Some (Some (length ?w))"
    using assms True by (simp add: buf_find_offset_of_char_def find_offset_loop_ok buf_ok_def buf_wf_def memchr_at_def)
  have "chunks b \<noteq> []" using True by auto
  then show ?thesis using True g off r by (auto simp: buf_get_line_def Let_def)
qed

section \<open>A queue of bytes\<close>

text \<open>
  The interface that connections rely on. \<open>balance\<close> is what the rest of the program has allocated; an
  operation on one buffer must not change it.
\<close>

datatype traffic = Put "byte list" | Take nat

primrec run_traffic ::
  "(byte list \<Rightarrow> 'q \<Rightarrow> 'q option) \<Rightarrow> (nat \<Rightarrow> 'q \<Rightarrow> (byte list \<times> 'q) option) \<Rightarrow> traffic list \<Rightarrow> 'q \<Rightarrow> (byte list \<times> 'q) option" where
  "run_traffic put get [] q = Some ([], q)"
| "run_traffic put get (t # ts) q =
     (case t of
        Put s \<Rightarrow> do { q \<leftarrow> put s q; run_traffic put get ts q }
      | Take n \<Rightarrow> do { (s, q) \<leftarrow> get n q; (out, q) \<leftarrow> run_traffic put get ts q; Some (s @ out, q) })"

text \<open>A sequence that from \<open>n\<close> bytes on never asks for more than is there and never exceeds the maximum.\<close>

primrec traffic_fits :: "nat \<Rightarrow> traffic list \<Rightarrow> nat \<Rightarrow> bool" where
  "traffic_fits mx [] n \<longleftrightarrow> True"
| "traffic_fits mx (t # ts) n \<longleftrightarrow>
     (case t of Put s \<Rightarrow> n + length s \<le> mx \<and> traffic_fits mx ts (n + length s)
              | Take k \<Rightarrow> k \<le> n \<and> traffic_fits mx ts (n - k))"

primrec written :: "traffic list \<Rightarrow> byte list" where
  "written [] = []"
| "written (t # ts) = (case t of Put s \<Rightarrow> s | Take _ \<Rightarrow> []) @ written ts"

locale byte_queue =
  fixes ok :: "'q \<Rightarrow> bool" and bytes :: "'q \<Rightarrow> byte list" and balance :: "'q \<Rightarrow> nat" and mx :: nat
    and put :: "byte list \<Rightarrow> 'q \<Rightarrow> 'q option" and get :: "nat \<Rightarrow> 'q \<Rightarrow> (byte list \<times> 'q) option"
  assumes put: "ok q \<Longrightarrow> length (bytes q) + length s \<le> mx \<Longrightarrow>
      \<exists>q'. put s q = Some q' \<and> ok q' \<and> bytes q' = bytes q @ s \<and> balance q' = balance q"
    and get: "ok q \<Longrightarrow> n \<le> length (bytes q) \<Longrightarrow>
      \<exists>q'. get n q = Some (take n (bytes q), q') \<and> ok q' \<and> bytes q' = drop n (bytes q) \<and> balance q' = balance q"
begin

lemma traffic_fifo:
  "ok q \<Longrightarrow> traffic_fits mx ts (length (bytes q)) \<Longrightarrow>
   \<exists>out q'. run_traffic put get ts q = Some (out, q') \<and> ok q' \<and> out @ bytes q' = bytes q @ written ts \<and> balance q' = balance q"
proof (induction ts arbitrary: q)
  case (Cons t ts)
  show ?case
  proof (cases t)
    case (Put s)
    then obtain q1 where "put s q = Some q1" "ok q1" "bytes q1 = bytes q @ s" "balance q1 = balance q"
      using put [OF Cons.prems(1), of s] Cons.prems(2) by auto
    then show ?thesis using Cons.IH [of q1] Cons.prems(2) Put by auto
  next
    case (Take n)
    then obtain q1 where "get n q = Some (take n (bytes q), q1)" "ok q1" "bytes q1 = drop n (bytes q)" "balance q1 = balance q"
      using get [OF Cons.prems(1), of n] Cons.prems(2) by auto
    then show ?thesis using Cons.IH [of q1] Cons.prems(2) Take by fastforce
  qed
qed simp

end

definition buf_put :: "uint32 \<Rightarrow> byte list \<Rightarrow> buf \<times> nat \<Rightarrow> (buf \<times> nat) option" where
  "buf_put now s q = map_option snd (buf_add now s (fst q) (snd q))"

definition buf_take :: "nat \<Rightarrow> buf \<times> nat \<Rightarrow> (byte list \<times> buf \<times> nat) option" where
  "buf_take n q = map_option (\<lambda>(s, _, q). (s, q)) (buf_get_bytes (fst q) n (snd q))"

interpretation buffer: byte_queue "\<lambda>q. buf_ok (fst q) (snd q)" "\<lambda>q. buf_bytes (fst q)" "\<lambda>q. snd q - buf_allocation (fst q)"
  BUF_MAX_LEN "buf_put now" buf_take for now
proof (unfold_locales, goal_cases)
  case (1 q s)
  have "buf_len (fst q) + length s \<le> BUF_MAX_LEN" using 1(2) buf_ok_len [OF 1(1)] by simp
  from buf_add_ok [OF 1(1) this] obtain b a where r: "map_option snd (buf_add now s (fst q) (snd q)) = Some (b, a)" "buf_ok b a"
    "buf_bytes b = buf_bytes (fst q) @ s" "a + buf_allocation (fst q) = snd q + buf_allocation b" by fastforce
  then show ?case using buf_ok_alloc [OF 1(1)] by (auto simp: buf_put_def)
next
  case (2 q n)
  have "n \<le> buf_len (fst q)" using 2(2) buf_ok_len [OF 2(1)] by simp
  from buf_get_bytes_ok [OF 2(1) this] obtain b a where
    r: "map_option (\<lambda>(s, _, q). (s, q)) (buf_get_bytes (fst q) n (snd q)) = Some (take n (buf_bytes (fst q)), b, a)" "buf_ok b a"
    "buf_bytes b = drop n (buf_bytes (fst q))" "a + buf_allocation (fst q) = snd q + buf_allocation b" by fastforce
  then show ?case using buf_ok_alloc [OF 2(1)] by (auto simp: buf_take_def)
qed

section \<open>Searching\<close>

text \<open>The bytes from a position on, and its distance from the start of the buffer.\<close>

definition pos_bytes :: "buf_pos \<Rightarrow> byte list" where
  "pos_bytes p = drop (pos p) (chunks_bytes (rest_chunks p))"

definition pos_offset :: "buf_pos \<Rightarrow> nat" where
  "pos_offset p = chunk_pos p + pos p"

definition full_chunks :: "chunk list \<Rightarrow> bool" where
  "full_chunks chs \<longleftrightarrow> list_all (\<lambda>ch. chunk_ok ch \<and> 0 < datalen ch) chs"

definition pos_ok :: "buf_pos \<Rightarrow> bool" where
  "pos_ok p \<longleftrightarrow> full_chunks (rest_chunks p) \<and> (rest_chunks p \<noteq> [] \<longrightarrow> pos p < datalen (hd (rest_chunks p))) \<and>
     (rest_chunks p = [] \<longrightarrow> pos p = 0) \<and> pos_offset p + length (pos_bytes p) \<le> BUF_MAX_LEN"

lemma full_chunks_simps [simp]:
  "full_chunks []" "full_chunks (ch # chs) \<longleftrightarrow> chunk_ok ch \<and> 0 < datalen ch \<and> full_chunks chs"
  by (auto simp: full_chunks_def)

lemma full_chunks_ok: "full_chunks chs \<Longrightarrow> list_all chunk_ok chs"
  by (simp add: full_chunks_def list_all_iff)

lemma find_char_loop_ok:
  "full_chunks chs \<Longrightarrow> (chs \<noteq> [] \<Longrightarrow> p < datalen (hd chs)) \<Longrightarrow> (chs = [] \<Longrightarrow> p = 0) \<Longrightarrow>
   cpos + length (chunks_bytes chs) \<le> BUF_MAX_LEN \<Longrightarrow> view = drop p (chunks_bytes chs) \<Longrightarrow>
   if ch \<notin> set view then find_char_loop ch p chs cpos = Some None
   else \<exists>q. find_char_loop ch p chs cpos = Some (Some q) \<and> pos_ok q \<and> pos_bytes q = dropWhile (\<lambda>c. c \<noteq> ch) view \<and>
     pos_offset q = cpos + p + length (takeWhile (\<lambda>c. c \<noteq> ch) view)"
proof (induction ch p chs cpos arbitrary: view rule: find_char_loop.induct)
  case (2 ch p chunk rest cpos)
  have ok: "chunk_ok chunk" "length (chunk_bytes chunk) = datalen chunk" "p < datalen chunk" "full_chunks rest"
    using 2(2,3) by (simp_all add: chunk_okD)
  let ?here = "drop p (chunk_bytes chunk)"
  have view: "view = ?here @ chunks_bytes rest" using 2(6) ok(2,3) by simp
  have read: "mem_read (mem chunk) (data chunk + p) (datalen chunk - p) = Some ?here"
    using chunk_read [OF chunk_okD(2) [OF ok(1)], of p "datalen chunk - p"] ok(2,3) by simp
  show ?case
  proof (cases "ch \<in> set ?here")
    case True
    define k where "k = length (takeWhile (\<lambda>c. c \<noteq> ch) ?here)"
    have "memchr_at ch ?here = Some k" using True by (simp add: memchr_at_def k_def)
    moreover have k: "k < datalen chunk - p" using memchr_at_less [OF calculation] ok(2) by simp
    moreover have tw: "takeWhile (\<lambda>c. c \<noteq> ch) view = takeWhile (\<lambda>c. c \<noteq> ch) ?here"
      unfolding view using True by (simp add: takeWhile_append1)
    moreover have "dropWhile (\<lambda>c. c \<noteq> ch) view = drop k view"
      unfolding dropWhile_eq_drop tw k_def ..
    moreover have "p + k \<le> BUF_MAX_LEN" "cpos + (p + k) + (datalen chunk + length (chunks_bytes rest) - (p + k)) \<le> BUF_MAX_LEN"
      using k 2(5) ok(2) by auto
    ultimately show ?thesis
      using True read 2(2,6) ok by (auto simp: view k_def [symmetric] pos_ok_def pos_bytes_def pos_offset_def add.commute)
  next
    case False
    then have mc: "memchr_at ch ?here = None" by (simp add: memchr_at_def)
    have split: "takeWhile (\<lambda>c. c \<noteq> ch) view = ?here @ takeWhile (\<lambda>c. c \<noteq> ch) (chunks_bytes rest)"
      "dropWhile (\<lambda>c. c \<noteq> ch) view = dropWhile (\<lambda>c. c \<noteq> ch) (chunks_bytes rest)"
      unfolding view using False by (auto intro!: takeWhile_append2 dropWhile_append2)
    have "rest \<noteq> [] \<Longrightarrow> 0 < datalen (hd rest)" using ok(4) by (cases rest) auto
    then have "if ch \<notin> set (chunks_bytes rest) then find_char_loop ch 0 rest (cpos + datalen chunk) = Some None
      else \<exists>q. find_char_loop ch 0 rest (cpos + datalen chunk) = Some (Some q) \<and> pos_ok q \<and>
        pos_bytes q = dropWhile (\<lambda>c. c \<noteq> ch) (chunks_bytes rest) \<and>
        pos_offset q = cpos + datalen chunk + 0 + length (takeWhile (\<lambda>c. c \<noteq> ch) (chunks_bytes rest))"
      using 2(5) ok by (intro 2(1) [OF read mc]) auto
    then show ?thesis using False read mc ok(2,3) unfolding split by (auto simp: view)
  qed
qed simp

lemma find_pos_ok:
  assumes "pos_ok p"
  shows "if ch \<notin> set (pos_bytes p) then buf_find_pos_of_char ch p = Some None
    else \<exists>q. buf_find_pos_of_char ch p = Some (Some q) \<and> pos_ok q \<and> pos_bytes q = dropWhile (\<lambda>c. c \<noteq> ch) (pos_bytes p) \<and>
      pos_offset q = pos_offset p + length (takeWhile (\<lambda>c. c \<noteq> ch) (pos_bytes p))"
proof -
  have lens: "chunk_pos p + length (chunks_bytes (rest_chunks p)) \<le> BUF_MAX_LEN"
    using assms by (cases "rest_chunks p") (auto simp: pos_ok_def pos_offset_def pos_bytes_def chunk_okD)
  have "buf_find_pos_of_char ch p = find_char_loop ch (pos p) (rest_chunks p) (chunk_pos p)"
    using assms by (cases "rest_chunks p") (auto simp: buf_find_pos_of_char_def pos_ok_def)
  moreover have "if ch \<notin> set (pos_bytes p) then find_char_loop ch (pos p) (rest_chunks p) (chunk_pos p) = Some None
    else \<exists>q. find_char_loop ch (pos p) (rest_chunks p) (chunk_pos p) = Some (Some q) \<and> pos_ok q \<and>
      pos_bytes q = dropWhile (\<lambda>c. c \<noteq> ch) (pos_bytes p) \<and>
      pos_offset q = chunk_pos p + pos p + length (takeWhile (\<lambda>c. c \<noteq> ch) (pos_bytes p))"
    by (rule find_char_loop_ok) (use assms lens in \<open>auto simp: pos_ok_def pos_bytes_def\<close>)
  ultimately show ?thesis by (simp only: pos_offset_def [of p])
qed

lemma pos_inc_ok:
  assumes "pos_ok p" "pos_bytes p \<noteq> []"
  shows "if tl (pos_bytes p) = [] then buf_pos_inc p = Some None
    else \<exists>q. buf_pos_inc p = Some (Some q) \<and> pos_ok q \<and> pos_bytes q = tl (pos_bytes p) \<and> pos_offset q = pos_offset p + 1"
proof -
  obtain chunk rest where r: "rest_chunks p = chunk # rest" using assms(2) by (cases "rest_chunks p") (auto simp: pos_bytes_def)
  have ok: "chunk_ok chunk" "length (chunk_bytes chunk) = datalen chunk" "full_chunks rest" "pos p < datalen chunk"
    using assms(1) r by (auto simp: pos_ok_def chunk_okD)
  have view: "pos_bytes p = drop (pos p) (chunk_bytes chunk) @ chunks_bytes rest" using r ok by (simp add: pos_bytes_def)
  have tl: "tl (pos_bytes p) = drop (pos p + 1) (chunk_bytes chunk) @ chunks_bytes rest"
  proof -
    have "drop (pos p) (chunk_bytes chunk) \<noteq> []" using ok by simp
    then show ?thesis unfolding view by (simp add: drop_Suc tl_drop)
  qed
  have rest: "chunks_bytes rest = [] \<longleftrightarrow> rest = []" "rest \<noteq> [] \<Longrightarrow> 0 < datalen (hd rest)"
    using ok(3) chunk_okD(1) by (cases rest; fastforce)+
  have bound: "chunk_pos p + (datalen chunk + length (chunks_bytes rest)) \<le> BUF_MAX_LEN"
    using assms(1) ok r by (auto simp: pos_ok_def pos_offset_def pos_bytes_def)
  show ?thesis
    using ok rest bound assms(1) unfolding tl
    by (auto simp: buf_pos_inc_def r pos_ok_def pos_bytes_def pos_offset_def)
qed

lemma matches_ok:
  "pos_ok p \<Longrightarrow> pos_bytes p \<noteq> [] \<Longrightarrow> buf_matches_at_pos p s = Some (take (length s) (pos_bytes p) = s)"
proof (induction p s rule: buf_matches_at_pos.induct)
  case (2 p c s)
  obtain chunk rest where r: "rest_chunks p = chunk # rest" using 2(3) by (cases "rest_chunks p") (auto simp: pos_bytes_def)
  have ok: "chunk_ok chunk" "length (chunk_bytes chunk) = datalen chunk" "pos p < datalen chunk"
    using 2(2) r by (auto simp: pos_ok_def chunk_okD)
  obtain x xs where x: "pos_bytes p = x # xs" using 2(3) by (cases "pos_bytes p") auto
  have "drop (pos p) (chunk_bytes chunk) \<noteq> []" using ok by simp
  then have "take 1 (drop (pos p) (chunk_bytes chunk)) = [x]"
    using x r ok by (cases "drop (pos p) (chunk_bytes chunk)") (auto simp: pos_bytes_def)
  then have read: "mem_read (mem chunk) (data chunk + pos p) 1 = Some [x]"
    using chunk_read [OF chunk_okD(2) [OF ok(1)], of "pos p" 1] ok by simp
  show ?case
  proof (cases "x = c \<and> s \<noteq> []")
    case False
    then show ?thesis using read r x by auto
  next
    case True
    show ?thesis
    proof (cases "xs = []")
      case nil: True
      then show ?thesis using True read r x pos_inc_ok [OF 2(2,3)] by auto
    next
      case cons: False
      then obtain q where "buf_pos_inc p = Some (Some q)" "pos_ok q" "pos_bytes q = xs" using pos_inc_ok [OF 2(2,3)] x by auto
      then show ?thesis using True read r x cons 2(1) [OF r read] by simp
    qed
  qed
qed simp

text \<open>The first place where a string occurs.\<close>

definition occurs_at :: "byte list \<Rightarrow> nat \<Rightarrow> byte list \<Rightarrow> bool" where
  "occurs_at s k bs \<longleftrightarrow> take (length s) (drop k bs) = s"

definition first_at :: "byte list \<Rightarrow> nat \<Rightarrow> byte list \<Rightarrow> bool" where
  "first_at s k bs \<longleftrightarrow> occurs_at s k bs \<and> (\<forall>j < k. \<not> occurs_at s j bs)"

lemma occurs_skip:
  assumes "s \<noteq> []" "hd s \<notin> set xs"
  shows "occurs_at s k (xs @ ys) \<longleftrightarrow> length xs \<le> k \<and> occurs_at s (k - length xs) ys"
proof (cases "length xs \<le> k")
  case False
  then have "drop k xs \<noteq> []" by simp
  then obtain x zs where x: "drop k xs = x # zs" by (cases "drop k xs") auto
  then have "x \<in> set xs" by (metis in_set_dropD list.set_intros(1))
  then show ?thesis using assms False x by (cases s) (auto simp: occurs_at_def)
qed (simp add: occurs_at_def)

text \<open>What a search in \<open>bs\<close> answers, when the bytes start at offset \<open>off\<close>.\<close>

definition search_answer :: "byte list \<Rightarrow> byte list \<Rightarrow> nat \<Rightarrow> nat option option \<Rightarrow> bool" where
  "search_answer s bs off r \<longleftrightarrow>
     (if \<exists>k. occurs_at s k bs then \<exists>k. r = Some (Some (off + k)) \<and> first_at s k bs else r = Some None)"

lemma search_nothing: "s \<noteq> [] \<Longrightarrow> search_answer s [] off (Some None)"
  by (simp add: search_answer_def occurs_at_def)

lemma search_here: "occurs_at s 0 bs \<Longrightarrow> search_answer s bs off (Some (Some off))"
  by (auto simp: search_answer_def first_at_def)

lemma search_shift:
  assumes "\<And>k. occurs_at s k bs \<longleftrightarrow> n \<le> k \<and> occurs_at s (k - n) bs'" "search_answer s bs' (off + n) r"
  shows "search_answer s bs off r"
proof (cases "\<exists>k. occurs_at s k bs'")
  case True
  then obtain k where k: "r = Some (Some (off + n + k))" "first_at s k bs'" using assms(2) by (auto simp: search_answer_def)
  then have "first_at s (n + k) bs" unfolding first_at_def assms(1) by auto
  then show ?thesis using k(1) by (auto simp: search_answer_def first_at_def add.assoc)
next
  case False
  then show ?thesis using assms by (simp add: search_answer_def)
qed

lemma search_skip:
  assumes "s \<noteq> []" "hd s \<notin> set xs" "search_answer s ys (off + length xs) r"
  shows "search_answer s (xs @ ys) off r"
  by (rule search_shift [OF _ assms(3)]) (rule occurs_skip [OF assms(1,2)])

lemma search_tl:
  assumes "\<not> occurs_at s 0 bs" "search_answer s (tl bs) (off + 1) r"
  shows "search_answer s bs off r"
proof (rule search_shift [OF _ assms(2)])
  show "occurs_at s k bs \<longleftrightarrow> 1 \<le> k \<and> occurs_at s (k - 1) (tl bs)" for k
    using assms(1) by (cases k) (simp_all add: occurs_at_def drop_Suc)
qed

lemma find_string_loop_ok:
  "pos_ok p \<Longrightarrow> s \<noteq> [] \<Longrightarrow> search_answer s (pos_bytes p) (pos_offset p) (find_string_loop s p)"
proof (induction s p rule: find_string_loop.induct)
  case (1 s p)
  let ?pre = "takeWhile (\<lambda>c. c \<noteq> hd s) (pos_bytes p)"
  show ?case
  proof (cases "hd s \<in> set (pos_bytes p)")
    case False
    then have "find_string_loop s p = Some None"
      using find_pos_ok [OF 1(2), of "hd s"] by (simp add: find_string_loop.simps)
    then show ?thesis using search_skip [OF 1(3) False search_nothing [OF 1(3)]] by simp
  next
    case True
    then obtain q where q: "buf_find_pos_of_char (hd s) p = Some (Some q)" "pos_ok q"
      "pos_bytes q = dropWhile (\<lambda>c. c \<noteq> hd s) (pos_bytes p)" "pos_offset q = pos_offset p + length ?pre"
      using find_pos_ok [OF 1(2), of "hd s"] by auto
    have ne: "pos_bytes q \<noteq> []" using True q(3) by auto
    have m: "buf_matches_at_pos q s = Some (occurs_at s 0 (pos_bytes q))"
      using matches_ok [OF q(2) ne, of s] by (simp add: occurs_at_def)
    have "search_answer s (pos_bytes q) (pos_offset q) (find_string_loop s p)"
    proof (cases "occurs_at s 0 (pos_bytes q)")
      case here: True
      have "pos_offset q \<le> BUF_MAX_LEN" using q(2) by (simp add: pos_ok_def)
      then have "find_string_loop s p = Some (Some (pos_offset q))"
        using q(1) m here by (subst find_string_loop.simps) (simp add: pos_offset_def)
      then show ?thesis using search_here [OF here] by simp
    next
      case later: False
      have unfold: "find_string_loop s p = (case buf_pos_inc q of None \<Rightarrow> None | Some None \<Rightarrow> Some None | Some (Some r) \<Rightarrow> find_string_loop s r)"
        using q(1) m later by (subst find_string_loop.simps) simp
      have mF: "buf_matches_at_pos q s = Some False" using m later by simp
      show ?thesis
        using pos_inc_ok [OF q(2) ne] 1(1) [OF q(1) refl mF _ _ refl _ 1(3)] search_nothing [OF 1(3)]
        by (intro search_tl [OF later]) (auto simp: unfold split: if_splits)
    qed
    moreover have "hd s \<notin> set ?pre" by (auto dest: set_takeWhileD)
    ultimately have "search_answer s (?pre @ pos_bytes q) (pos_offset p) (find_string_loop s p)"
      using search_skip [OF 1(3)] q(4) by simp
    then show ?thesis using q(3) by simp
  qed
qed

section \<open>The properties\<close>

text \<open>
  C31. Buffers are queues of bytes. For any sequence of writes and reads that never asks for more bytes
  than there are and never exceeds the maximal length, no assertion fails, memory is never read
  before it is written nor accessed outside an allocation, the bytes read followed by those left are
  the bytes that were there followed by those written, and the count of allocated bytes changes by
  exactly what the buffer allocates and frees.
\<close>

theorem buf_traffic_fifo:
  assumes "buf_ok b allocd" "traffic_fits BUF_MAX_LEN ts (buf_len b)"
  shows "\<exists>out b' allocd'. run_traffic (buf_put now) buf_take ts (b, allocd) = Some (out, b', allocd') \<and>
    out @ buf_bytes b' = buf_bytes b @ written ts \<and> buf_ok b' allocd' \<and>
    allocd' - buf_allocation b' = allocd - buf_allocation b"
  using buffer.traffic_fifo [of "(b, allocd)" ts now] assms buf_ok_len [OF assms(1)] by auto

lemma buf_new_ok: "buf_ok buf_new allocd" "chunks buf_new = []" "buf_len buf_new = 0"
  by (simp_all add: buf_new_def buf_ok_def buf_wf_def MIN_CHUNK_ALLOC_def buf_allocation_def)

theorem buf_traffic_fifo_witness:
  "\<exists>out b allocd. run_traffic (buf_put 7) buf_take [Put [1, 2, 3], Take 2, Put [4]] (buf_new, 0) = Some (out, b, allocd) \<and>
    out @ buf_bytes b = [1, 2, 3, 4] \<and> allocd = buf_allocation b"
  using buf_traffic_fifo [OF buf_new_ok(1), where ts = "[Put [1, 2, 3], Take 2, Put [4]]" and allocd = 0 and now = 7]
  by (auto simp: buf_new_ok BUF_MAX_LEN_def buf_allocation_def dest: buf_ok_alloc)

text \<open>
  C32. Searching a buffer. When no chunk is empty the search for a string returns its first occurrence, or
  reports that there is none.
\<close>

theorem buf_find_string_correct:
  assumes "buf_ok b allocd" "\<forall>ch \<in> set (chunks b). datalen ch \<noteq> 0" "s \<noteq> []"
  shows "if \<exists>k. occurs_at s k (buf_bytes b)
    then \<exists>k. buf_find_string_offset b s = Some (Some k) \<and> first_at s k (buf_bytes b)
    else buf_find_string_offset b s = Some None"
proof -
  have "pos_ok (buf_pos_init b)"
    using assms(1,2) by (cases "chunks b") (auto simp: pos_ok_def buf_pos_init_def full_chunks_def list_all_iff pos_offset_def
        pos_bytes_def buf_ok_def buf_wf_def)
  from find_string_loop_ok [OF this assms(3)] show ?thesis
    using assms(3)
    by (auto simp: buf_find_string_offset_def search_answer_def buf_pos_init_def pos_bytes_def pos_offset_def split: if_splits)
qed

definition demo_request :: buf where
  "demo_request = fst (the (buf_put 7 [71, 13, 10, 13] (buf_new, 0)))"

lemma demo_request:
  "buf_ok demo_request (buf_allocation demo_request)" "buf_bytes demo_request = [71, 13, 10, 13]"
  "\<exists>ch. chunks demo_request = [ch]" "\<forall>ch \<in> set (chunks demo_request). datalen ch \<noteq> 0"
proof -
  obtain b a where b: "buf_put 7 [71, 13, 10, 13] (buf_new, 0) = Some (b, a)" "buf_ok b a" "buf_bytes b = [71, 13, 10, 13]"
    using buffer.put [of "(buf_new, 0)" "[71, 13, 10, 13]" 7] buf_new_ok by (auto simp: BUF_MAX_LEN_def)
  have d: "demo_request = b" by (simp add: demo_request_def b(1))
  show "buf_ok demo_request (buf_allocation demo_request)" "buf_bytes demo_request = [71, 13, 10, 13]"
    using b(2,3) by (simp_all add: d buf_ok_def buf_wf_def)
  note sizes = CHUNK_OVERHEAD_def CHUNK_HEADER_LEN_def SENTINEL_LEN_def CHUNK_REMAINING_CAPACITY_def
  have "\<exists>ch. chunks b = [ch] \<and> datalen ch = 4"
    using b(1) unfolding buf_put_def buf_add_def buf_new_def
    by (auto simp: buf_add_loop.simps buf_add_chunk_with_capacity_def chunk_new_with_alloc_size_def sizes mem_write_def BUF_MAX_LEN_def)
  then show "\<exists>ch. chunks demo_request = [ch]" "\<forall>ch \<in> set (chunks demo_request). datalen ch \<noteq> 0" by (auto simp: d)
qed

theorem buf_find_string_correct_witness:
  "buf_find_string_offset demo_request [13, 10, 13] = Some (Some 1)"
proof -
  have o: "occurs_at [13, 10, 13] k (buf_bytes demo_request) \<longleftrightarrow> k = 1" for k
    unfolding demo_request(2) by (simp add: occurs_at_def drop_Cons' take_Cons')
  then show ?thesis
    using buf_find_string_correct [OF demo_request(1,4), of "[13, 10, 13]"] by (auto simp: first_at_def)
qed

lemma matches_into_empty:
  assumes "rest_chunks p = [ch, e]" "chunk_ok ch" "pos p < datalen ch" "mem_read (mem e) (data e) 1 = None"
    "s = drop (pos p) (chunk_bytes ch) @ c # r"
  shows "buf_matches_at_pos p s = None"
  using assms
proof (induction "datalen ch - pos p" arbitrary: p s)
  case (Suc n)
  have len: "length (chunk_bytes ch) = datalen ch" using Suc.prems(2) by (rule chunk_okD)
  have s: "s = (chunk_bytes ch ! pos p) # drop (pos p + 1) (chunk_bytes ch) @ c # r"
    using Suc.prems(3,5) len by (simp add: Cons_nth_drop_Suc)
  have read: "mem_read (mem ch) (data ch + pos p) 1 = Some [chunk_bytes ch ! pos p]"
    using chunk_read [OF chunk_okD(2) [OF Suc.prems(2)], of "pos p" 1] Suc.prems(3) len
    by (simp add: take_Suc_conv_app_nth hd_drop_conv_nth)
  show ?case
  proof (cases "pos p + 1 = datalen ch")
    case True
    then show ?thesis
      using Suc.prems(1,4) read len by (auto simp: s buf_pos_inc_def)
  next
    case False
    let ?q = "p\<lparr>pos := pos p + 1\<rparr>"
    have "buf_matches_at_pos ?q (drop (pos p + 1) (chunk_bytes ch) @ c # r) = None"
      using Suc False by (intro Suc.hyps(1)) auto
    then show ?thesis using Suc.prems(1) read False by (auto simp: s buf_pos_inc_def)
  qed
qed simp

text \<open>
  A read of uninitialised memory. When a chunk has been added for data that did not arrive, and the
  buffer's bytes are a proper prefix of the string searched for, the search goes on into the empty
  chunk and reads memory that nothing was written to.
\<close>

theorem buf_find_string_uninitialised:
  assumes "buf_ok b allocd" "chunks b = [ch]" "buf_bytes b \<noteq> []"
    "buf_add_chunk_with_capacity now n True b allocd = Some (b', allocd')"
  shows "buf_ok b' allocd' \<and> buf_bytes b' = buf_bytes b \<and> buf_find_string_offset b' (buf_bytes b @ c # r) = None"
proof -
  have wf: "buf_wf b allocd" using assms(1) by (simp add: buf_ok_def)
  obtain e where e: "b' = b\<lparr>chunks := [ch, e]\<rparr>" "chunk_holds e []" "0 < CHUNK_REMAINING_CAPACITY e"
    "allocd' = allocd + CHUNK_ALLOC_SIZE (memlen e)" "data e = 0" "mem e = replicate (memlen e) None @ replicate SENTINEL_LEN (Some 0)"
    using add_chunk_ok [OF wf, of now n] assms(2,4) by auto
  have uninit: "mem_read (mem e) (data e) 1 = None"
    using e(3,5,6) by (cases "memlen e") (simp_all add: mem_read_def CHUNK_REMAINING_CAPACITY_def)
  have ch: "chunk_ok ch" "length (chunk_bytes ch) = datalen ch" "chunk_bytes ch \<noteq> []"
    using assms(1-3) by (auto simp: buf_ok_def buf_wf_def chunk_okD)
  let ?p = "\<lparr>rest_chunks = [ch, e], pos = 0, chunk_pos = 0\<rparr>" and ?s = "chunk_bytes ch @ c # r"
  have "mem_read (mem ch) (data ch) (datalen ch) = Some (chunk_bytes ch)"
    using chunk_read_front [OF chunk_okD(2) [OF ch(1)], of "datalen ch"] ch(2) by simp
  then have "buf_find_pos_of_char (hd ?s) ?p = Some (Some ?p)"
    using ch by (cases "chunk_bytes ch") (auto simp: buf_find_pos_of_char_def memchr_at_def)
  moreover have "buf_matches_at_pos ?p ?s = None"
    using uninit ch by (intro matches_into_empty [where ch = ch and e = e]) (auto simp flip: length_greater_0_conv)
  ultimately have "find_string_loop ?s ?p = None" by (subst find_string_loop.simps) simp
  moreover have "buf_ok b' allocd'"
    using assms(1,2) e chunk_holds_ok [OF e(2)] by (simp add: buf_ok_def buf_wf_def buf_allocation_eq)
  ultimately show ?thesis
    using e(1) assms(2) chunk_holds_ok [OF e(2)] by (simp add: buf_find_string_offset_def buf_pos_init_def)
qed

theorem buf_find_string_uninitialised_witness:
  "\<exists>b' allocd'. buf_add_chunk_with_capacity 8 100 True demo_request (buf_allocation demo_request) = Some (b', allocd') \<and>
    buf_ok b' allocd' \<and> buf_bytes b' = [71, 13, 10, 13] \<and> buf_find_string_offset b' ([71, 13, 10, 13] @ [10]) = None"
proof -
  have wf: "buf_wf demo_request (buf_allocation demo_request)" using demo_request(1) by (simp add: buf_ok_def)
  obtain ch where ch: "chunks demo_request = [ch]" using demo_request(3) by blast
  obtain b' allocd' where b': "buf_add_chunk_with_capacity 8 100 True demo_request (buf_allocation demo_request) = Some (b', allocd')"
    using add_chunk_ok [OF wf] by blast
  then show ?thesis
    using buf_find_string_uninitialised [OF demo_request(1) ch _ b', of 10 "[]"] demo_request(2) by simp
qed

end
