(* ===== verification/Cells.thy ===== *)
theory Cells
  imports Buffers_Correct
begin

unbundle bit_operations_syntax

text \<open>
  Cells on the wire: packing and unpacking in \<^verbatim>\<open>core/or/connection_or.c\<close> and \<^verbatim>\<open>core/or/relay.c\<close>, the
  variable-length cells of \<^verbatim>\<open>core/proto/proto_cell.c\<close>, the messages of \<^verbatim>\<open>core/proto/proto_ext_or.c\<close>, and the
  loop that takes cells off the input buffer of a connection. What a sender writes is what the
  receiver's loop hands on, however the network cuts the bytes into pieces.
\<close>

section \<open>Integers in network order\<close>

definition put_uint16 :: "uint16 \<Rightarrow> byte list" where
  "put_uint16 w = [ucast (drop_bit 8 w), ucast w]"

definition put_uint32 :: "uint32 \<Rightarrow> byte list" where
  "put_uint32 w = [ucast (drop_bit 24 w), ucast (drop_bit 16 w), ucast (drop_bit 8 w), ucast w]"

definition get_uint16 :: "byte list \<Rightarrow> uint16" where
  "get_uint16 bs = push_bit 8 (ucast (bs ! 0)) OR ucast (bs ! 1)"

definition get_uint32 :: "byte list \<Rightarrow> uint32" where
  "get_uint32 bs = push_bit 24 (ucast (bs ! 0)) OR push_bit 16 (ucast (bs ! 1)) OR push_bit 8 (ucast (bs ! 2)) OR ucast (bs ! 3)"

lemma length_put_uint [simp]: "length (put_uint16 w) = 2" "length (put_uint32 v) = 4"
  by (simp_all add: put_uint16_def put_uint32_def)

lemma get_put_uint16 [simp]: "get_uint16 (put_uint16 w @ r) = w"
  unfolding get_uint16_def put_uint16_def
  by (rule bit_word_eqI) (auto simp: bit_simps)

lemma get_put_uint32 [simp]: "get_uint32 (put_uint32 w @ r) = w"
proof (rule bit_word_eqI)
  fix n
  assume n: "n < LENGTH(32)"
  consider "n < 8" | "8 \<le> n" "n < 16" | "16 \<le> n" "n < 24" | "24 \<le> n" by linarith
  then show "bit (get_uint32 (put_uint32 w @ r)) n = bit w n"
    using n by cases (auto simp: get_uint32_def put_uint32_def bit_simps)
qed

section \<open>Cells\<close>

definition CELL_PAYLOAD_SIZE :: nat where "CELL_PAYLOAD_SIZE = 509"
definition CELL_MAX_NETWORK_SIZE :: nat where "CELL_MAX_NETWORK_SIZE = 514"
definition VAR_CELL_MAX_HEADER_SIZE :: nat where "VAR_CELL_MAX_HEADER_SIZE = 7"
definition CELL_VERSIONS :: uint8 where "CELL_VERSIONS = 7"
definition MIN_LINK_PROTO_FOR_WIDE_CIRC_IDS :: int where "MIN_LINK_PROTO_FOR_WIDE_CIRC_IDS = 4"

definition get_cell_network_size :: "bool \<Rightarrow> nat" where
  "get_cell_network_size wide = (if wide then CELL_MAX_NETWORK_SIZE else CELL_MAX_NETWORK_SIZE - 2)"

definition get_var_cell_header_size :: "bool \<Rightarrow> nat" where
  "get_var_cell_header_size wide = (if wide then VAR_CELL_MAX_HEADER_SIZE else VAR_CELL_MAX_HEADER_SIZE - 2)"

definition get_circ_id_size :: "bool \<Rightarrow> nat" where
  "get_circ_id_size wide = (if wide then 4 else 2)"

lemmas cell_sizes = CELL_PAYLOAD_SIZE_def CELL_MAX_NETWORK_SIZE_def VAR_CELL_MAX_HEADER_SIZE_def
  get_cell_network_size_def get_var_cell_header_size_def get_circ_id_size_def

record cell =
  circ_id :: uint32
  command :: uint8
  payload :: "byte list"

record var_cell =
  var_command :: uint8
  var_circ_id :: uint32
  payload_len :: uint16
  var_payload :: "byte list"

text \<open>The body of a packed cell: the narrow form clears the last two bytes.\<close>

definition cell_pack :: "cell \<Rightarrow> bool \<Rightarrow> byte list" where
  "cell_pack src wide =
     (if wide then put_uint32 (circ_id src) @ [command src] @ take CELL_PAYLOAD_SIZE (payload src)
      else put_uint16 (ucast (circ_id src)) @ [command src] @ take CELL_PAYLOAD_SIZE (payload src) @ [0, 0])"

definition cell_unpack :: "byte list \<Rightarrow> bool \<Rightarrow> cell" where
  "cell_unpack src wide =
     (let n = get_circ_id_size wide
      in \<lparr>circ_id = (if wide then get_uint32 src else ucast (get_uint16 src)), command = src ! n,
          payload = take CELL_PAYLOAD_SIZE (drop (n + 1) src)\<rparr>)"

definition var_cell_pack_header :: "var_cell \<Rightarrow> bool \<Rightarrow> byte list" where
  "var_cell_pack_header cell wide =
     (if wide then put_uint32 (var_circ_id cell) else put_uint16 (ucast (var_circ_id cell))) @
     [var_command cell] @ put_uint16 (payload_len cell)"

definition cell_command_is_var_length :: "uint8 \<Rightarrow> int \<Rightarrow> bool" where
  "cell_command_is_var_length cmd linkproto =
     (if linkproto = 1 then False
      else if linkproto = 2 then cmd = CELL_VERSIONS
      else cmd = CELL_VERSIONS \<or> cmd \<ge> 128)"

text \<open>The results 0, 1 without and 1 with a cell.\<close>

datatype var_fetch = NotVarCell | VarCellIncomplete | VarCell var_cell

definition fetch_var_cell_from_buf :: "buf \<Rightarrow> int \<Rightarrow> nat \<Rightarrow> (var_fetch \<times> buf \<times> nat) option" where
  "fetch_var_cell_from_buf buf linkproto allocd =
     (let wide = (linkproto \<ge> MIN_LINK_PROTO_FOR_WIDE_CIRC_IDS);
          circ_id_len = get_circ_id_size wide; header_len = get_var_cell_header_size wide
      in if buf_len buf < header_len then Some (NotVarCell, buf, allocd)
         else do {
           hdr \<leftarrow> buf_peek buf header_len;
           let cmd = hdr ! circ_id_len; length = get_uint16 (drop (circ_id_len + 1) hdr) in
           if \<not> cell_command_is_var_length cmd linkproto then Some (NotVarCell, buf, allocd)
           else if buf_len buf < header_len + unat length then Some (VarCellIncomplete, buf, allocd)
           else do {
             (buf, allocd) \<leftarrow> buf_drain buf header_len allocd;
             body \<leftarrow> buf_peek buf (unat length);
             (buf, allocd) \<leftarrow> buf_drain buf (unat length) allocd;
             Some (VarCell \<lparr>var_command = cmd,
                            var_circ_id = (if wide then get_uint32 hdr else ucast (get_uint16 hdr)),
                            payload_len = length, var_payload = body\<rparr>, buf, allocd)
           }
         })"

section \<open>Relay cells\<close>

definition RELAY_HEADER_SIZE :: nat where "RELAY_HEADER_SIZE = 1 + 2 + 2 + 4 + 2"
definition RELAY_PAYLOAD_SIZE :: nat where "RELAY_PAYLOAD_SIZE = CELL_PAYLOAD_SIZE - RELAY_HEADER_SIZE"
definition CELL_PADDING_GAP :: nat where "CELL_PADDING_GAP = 4"

record relay_header =
  rh_command :: uint8
  recognized :: uint16
  stream_id :: uint16
  integrity :: "byte list"
  rh_length :: uint16

text \<open>The header overwrites the start of the payload \<open>dest\<close> of a cell.\<close>

definition relay_header_pack :: "byte list \<Rightarrow> relay_header \<Rightarrow> byte list" where
  "relay_header_pack dest src =
     [rh_command src] @ put_uint16 (recognized src) @ put_uint16 (stream_id src) @ take 4 (integrity src) @
     put_uint16 (rh_length src) @ drop RELAY_HEADER_SIZE dest"

definition relay_header_unpack :: "byte list \<Rightarrow> relay_header" where
  "relay_header_unpack src =
     \<lparr>rh_command = src ! 0, recognized = get_uint16 (drop 1 src), stream_id = get_uint16 (drop 3 src),
      integrity = take 4 (drop 5 src), rh_length = get_uint16 (drop 9 src)\<rparr>"

text \<open>Where the random padding of a relay cell starts; 0 when there is no room for it. A failed assertion is \<open>None\<close>.\<close>

definition get_pad_cell_offset :: "nat \<Rightarrow> nat option" where
  "get_pad_cell_offset data_len =
     (if \<not> data_len \<le> RELAY_PAYLOAD_SIZE then None
      else let offset = RELAY_HEADER_SIZE + data_len + CELL_PADDING_GAP
           in Some (if offset \<ge> CELL_PAYLOAD_SIZE then 0 else offset))"

definition pad_cell_payload :: "byte list \<Rightarrow> byte list \<Rightarrow> nat \<Rightarrow> byte list option" where
  "pad_cell_payload rng cell_payload data_len =
     (case get_pad_cell_offset data_len of
        None \<Rightarrow> None
      | Some off \<Rightarrow> Some (if off = 0 then cell_payload
                          else take off cell_payload @ take (CELL_PAYLOAD_SIZE - off) rng))"

lemma relay_header_roundtrip:
  assumes "length (integrity h) = 4"
  shows "relay_header_unpack (relay_header_pack dest h) = h"
  using assms by (cases h) (simp add: relay_header_pack_def relay_header_unpack_def)

text \<open>The padding leaves the header, the data and the gap after it alone.\<close>

lemma pad_cell_payload_keeps:
  assumes "length cell_payload = CELL_PAYLOAD_SIZE" "CELL_PAYLOAD_SIZE \<le> length rng" "data_len \<le> RELAY_PAYLOAD_SIZE"
  shows "\<exists>p. pad_cell_payload rng cell_payload data_len = Some p \<and> length p = CELL_PAYLOAD_SIZE \<and>
    take (min CELL_PAYLOAD_SIZE (RELAY_HEADER_SIZE + data_len + CELL_PADDING_GAP)) p =
    take (min CELL_PAYLOAD_SIZE (RELAY_HEADER_SIZE + data_len + CELL_PADDING_GAP)) cell_payload"
  using assms by (auto simp: pad_cell_payload_def get_pad_cell_offset_def Let_def min_def)

section \<open>Messages of pluggable transports\<close>

definition EXT_OR_CMD_HEADER_SIZE :: nat where "EXT_OR_CMD_HEADER_SIZE = 4"

record ext_or_cmd =
  ext_cmd :: uint16
  cmd_len :: uint16
  cmd_body :: "byte list"

definition connection_write_ext_or_command ::
  "uint32 \<Rightarrow> uint16 \<Rightarrow> byte list \<Rightarrow> buf \<times> nat \<Rightarrow> (int \<times> buf \<times> nat) option" where
  "connection_write_ext_or_command now cmd body outbuf =
     (if length body > 65535 then Some (-1, outbuf)
      else do {
        outbuf \<leftarrow> buf_put now (put_uint16 cmd @ put_uint16 (of_nat (length body))) outbuf;
        outbuf \<leftarrow> (if body \<noteq> [] then buf_put now body outbuf else Some outbuf);
        Some (0, outbuf)
      })"

text \<open>The results 0 and 1; the code has no path that returns -1.\<close>

definition fetch_ext_or_command_from_buf :: "buf \<Rightarrow> nat \<Rightarrow> (ext_or_cmd option \<times> buf \<times> nat) option" where
  "fetch_ext_or_command_from_buf buf allocd =
     (if buf_len buf < EXT_OR_CMD_HEADER_SIZE then Some (None, buf, allocd)
      else do {
        hdr \<leftarrow> buf_peek buf EXT_OR_CMD_HEADER_SIZE;
        let len = get_uint16 (drop 2 hdr) in
        if buf_len buf < unat len + EXT_OR_CMD_HEADER_SIZE then Some (None, buf, allocd)
        else do {
          (buf, allocd) \<leftarrow> buf_drain buf EXT_OR_CMD_HEADER_SIZE allocd;
          (body, _, buf, allocd) \<leftarrow> buf_get_bytes buf (unat len) allocd;
          Some (Some \<lparr>ext_cmd = get_uint16 hdr, cmd_len = len, cmd_body = body\<rparr>, buf, allocd)
        }
      })"

lemma ext_or_roundtrip:
  assumes "buf_ok b allocd" "buf_bytes b = []" "length body \<le> 65535"
  shows "\<exists>b1 a1 b2 a2. connection_write_ext_or_command now c body (b, allocd) = Some (0, b1, a1) \<and>
    fetch_ext_or_command_from_buf b1 a1 = Some (Some \<lparr>ext_cmd = c, cmd_len = of_nat (length body), cmd_body = body\<rparr>, b2, a2) \<and>
    buf_ok b2 a2 \<and> buf_bytes b2 = []"
proof -
  let ?hdr = "put_uint16 c @ put_uint16 (of_nat (length body))"
  have n: "unat (of_nat (length body) :: uint16) = length body" using assms(3) by (simp add: unat_of_nat)
  obtain b1 a1 where p1: "buf_put now ?hdr (b, allocd) = Some (b1, a1)" "buf_ok b1 a1" "buf_bytes b1 = ?hdr"
    using buffer.put [of "(b, allocd)" ?hdr now] assms(1,2) by (auto simp: BUF_MAX_LEN_def)
  obtain b2 a2 where p2: "buf_put now body (b1, a1) = Some (b2, a2)" "buf_ok b2 a2" "buf_bytes b2 = ?hdr @ body"
    using buffer.put [of "(b1, a1)" body now] p1 assms(3) by (auto simp: BUF_MAX_LEN_def)
  have "buf_put now [] (b1, a1) = Some (b1, a1)" by (simp add: buf_put_def buf_add_def)
  then have wr: "connection_write_ext_or_command now c body (b, allocd) = Some (0, b2, a2)"
    using assms(3) p1(1) p2(1) by (auto simp: connection_write_ext_or_command_def)
  have wf: "buf_wf b2 a2" and len: "buf_len b2 = 4 + length body" using p2(2,3) by (simp_all add: buf_ok_def buf_wf_def)
  have peek: "buf_peek b2 4 = Some ?hdr" using buf_peek_ok [OF wf, of 4] len p2(3) by simp
  obtain b3 a3 where d: "buf_drain b2 4 a2 = Some (b3, a3)" "buf_wf b3 a3" "buf_bytes b3 = body"
    using buf_drain_ok [OF wf, of 4] len p2(3) by auto
  then have ok3: "buf_ok b3 a3" "buf_len b3 = length body" using p2(2) len by (simp_all add: buf_ok_def buf_wf_def)
  obtain b4 a4 where g: "buf_get_bytes b3 (length body) a3 = Some (body, 0, b4, a4)" "buf_ok b4 a4" "buf_bytes b4 = []"
    using buf_get_bytes_ok [OF ok3(1), of "length body"] ok3(2) d(3) by auto
  have "get_uint16 (drop 2 ?hdr) = of_nat (length body)" using get_put_uint16 [of "of_nat (length body)" "[]"] by simp
  then show ?thesis
    using wr len peek d(1) g n by (simp add: fetch_ext_or_command_from_buf_def EXT_OR_CMD_HEADER_SIZE_def)
qed

definition peek_buf_has_control0_command :: "buf \<Rightarrow> bool option" where
  "peek_buf_has_control0_command buf =
     (if buf_len buf \<ge> 4 then map_option (\<lambda>header. get_uint16 (drop 2 header) \<le> 0x14) (buf_peek buf 4) else Some False)"

section \<open>The connection\<close>

datatype frame = Fixed cell | Var var_cell

definition connection_or_write_cell_to_buf :: "uint32 \<Rightarrow> bool \<Rightarrow> cell \<Rightarrow> buf \<times> nat \<Rightarrow> (buf \<times> nat) option" where
  "connection_or_write_cell_to_buf now wide c outbuf =
     buf_put now (take (get_cell_network_size wide) (cell_pack c wide)) outbuf"

definition connection_or_write_var_cell_to_buf :: "uint32 \<Rightarrow> bool \<Rightarrow> var_cell \<Rightarrow> buf \<times> nat \<Rightarrow> (buf \<times> nat) option" where
  "connection_or_write_var_cell_to_buf now wide c outbuf =
     do {
       outbuf \<leftarrow> buf_put now (var_cell_pack_header c wide) outbuf;
       buf_put now (take (unat (payload_len c)) (var_payload c)) outbuf
     }"

fun write_frames :: "uint32 \<Rightarrow> bool \<Rightarrow> frame list \<Rightarrow> buf \<times> nat \<Rightarrow> (buf \<times> nat) option" where
  "write_frames now wide [] outbuf = Some outbuf"
| "write_frames now wide (Fixed c # fs) outbuf =
     do { outbuf \<leftarrow> connection_or_write_cell_to_buf now wide c outbuf; write_frames now wide fs outbuf }"
| "write_frames now wide (Var c # fs) outbuf =
     do { outbuf \<leftarrow> connection_or_write_var_cell_to_buf now wide c outbuf; write_frames now wide fs outbuf }"

lemma drain_loop_len: "drain_loop n chs len allocd = Some (chs', len', allocd') \<Longrightarrow> len' = len - n"
proof (induction chs arbitrary: n len allocd)
  case Nil
  then show ?case by (simp add: drain_loop.simps split: if_splits)
next
  case (Cons ch chs)
  from Cons.prems show ?case
    by (subst (asm) drain_loop.simps) (auto split: if_splits simp: bind_eq_Some_conv dest!: Cons.IH)
qed

lemma buf_drain_len: "buf_drain buf n allocd = Some (buf', allocd') \<Longrightarrow> buf_len buf' = buf_len buf - n \<and> n \<le> buf_len buf"
  by (auto simp: buf_drain_def bind_eq_Some_conv dest: drain_loop_len split: if_splits)

lemma buf_get_bytes_len: "buf_get_bytes buf n allocd = Some (s, r, buf', allocd') \<Longrightarrow> buf_len buf' = buf_len buf - n \<and> n \<le> buf_len buf"
  by (auto simp: buf_get_bytes_def bind_eq_Some_conv dest: buf_drain_len split: if_splits)

lemma fetch_var_shorter:
  "fetch_var_cell_from_buf buf lp allocd = Some (VarCell c, buf', allocd') \<Longrightarrow> buf_len buf' < buf_len buf"
  by (auto simp: fetch_var_cell_from_buf_def Let_def bind_eq_Some_conv cell_sizes dest!: buf_drain_len split: if_splits)

text \<open>
  The loop over the input buffer. The cells that it hands to \<^verbatim>\<open>channel_tls_handle_cell\<close> and
  \<^verbatim>\<open>channel_tls_handle_var_cell\<close> are collected in the order of the calls.
\<close>

function connection_or_process_cells_from_inbuf ::
  "int \<Rightarrow> bool \<Rightarrow> buf \<Rightarrow> nat \<Rightarrow> (frame list \<times> buf \<times> nat) option" where
  "connection_or_process_cells_from_inbuf lp wide inbuf allocd =
     (case fetch_var_cell_from_buf inbuf lp allocd of
        None \<Rightarrow> None
      | Some (VarCellIncomplete, inbuf, allocd) \<Rightarrow> Some ([], inbuf, allocd)
      | Some (VarCell c, inbuf', allocd) \<Rightarrow>
          map_option (\<lambda>(fs, r). (Var c # fs, r)) (connection_or_process_cells_from_inbuf lp wide inbuf' allocd)
      | Some (NotVarCell, _, _) \<Rightarrow>
          if buf_len inbuf < get_cell_network_size wide then Some ([], inbuf, allocd)
          else case buf_get_bytes inbuf (get_cell_network_size wide) allocd of
                 None \<Rightarrow> None
               | Some (b, _, inbuf', allocd) \<Rightarrow>
                   map_option (\<lambda>(fs, r). (Fixed (cell_unpack b wide) # fs, r))
                     (connection_or_process_cells_from_inbuf lp wide inbuf' allocd))"
  by pat_completeness auto
termination
  by (relation "measure (\<lambda>(lp, wide, inbuf, allocd). buf_len inbuf)")
    (auto dest: fetch_var_shorter dest!: buf_get_bytes_len simp: cell_sizes split: if_splits)

declare connection_or_process_cells_from_inbuf.simps [simp del]

section \<open>Frames on the wire\<close>

fun frame_bytes :: "bool \<Rightarrow> frame \<Rightarrow> byte list" where
  "frame_bytes wide (Fixed c) = take (get_cell_network_size wide) (cell_pack c wide)"
| "frame_bytes wide (Var c) = var_cell_pack_header c wide @ var_payload c"

text \<open>Frames that a sender may write: narrow circuit identifiers have 16 bits.\<close>

fun frame_ok :: "int \<Rightarrow> bool \<Rightarrow> frame \<Rightarrow> bool" where
  "frame_ok lp wide (Fixed c) \<longleftrightarrow> length (payload c) = CELL_PAYLOAD_SIZE \<and> \<not> cell_command_is_var_length (command c) lp \<and>
     (wide \<or> unat (circ_id c) < 65536)"
| "frame_ok lp wide (Var c) \<longleftrightarrow> length (var_payload c) = unat (payload_len c) \<and> cell_command_is_var_length (var_command c) lp \<and>
     (wide \<or> unat (var_circ_id c) < 65536)"

lemma ucast_narrow: "unat (w :: uint32) < 65536 \<Longrightarrow> ucast (ucast w :: uint16) = w"
  by (rule word_unat_eq_iff [THEN iffD2]) (simp add: unsigned_ucast_eq unsigned_take_bit_eq take_bit_nat_def)

lemma fixed_bytes:
  assumes "length (payload c) = CELL_PAYLOAD_SIZE"
  shows "frame_bytes wide (Fixed c) =
    (if wide then put_uint32 (circ_id c) else put_uint16 (ucast (circ_id c))) @ [command c] @ payload c"
  using assms by (simp add: cell_pack_def cell_sizes)

declare frame_bytes.simps(1) [simp del]

lemma unpack_pack:
  assumes "frame_ok lp wide (Fixed c)"
  shows "cell_unpack (frame_bytes wide (Fixed c)) wide = c"
proof -
  have "length (payload c) = CELL_PAYLOAD_SIZE" "wide \<or> unat (circ_id c) < 65536" using assms by simp_all
  then show ?thesis
    by (cases c, cases wide)
      (simp_all add: fixed_bytes cell_unpack_def get_circ_id_size_def nth_append ucast_narrow)
qed

lemma frame_length:
  "frame_ok lp wide f \<Longrightarrow> length (frame_bytes wide f) =
     (case f of Fixed _ \<Rightarrow> get_cell_network_size wide | Var c \<Rightarrow> get_var_cell_header_size wide + unat (payload_len c))"
  by (cases f) (simp_all add: fixed_bytes var_cell_pack_header_def cell_sizes)

text \<open>The bytes of a frame that cannot be taken off the buffer yet.\<close>

definition incomplete :: "bool \<Rightarrow> byte list \<Rightarrow> frame list \<Rightarrow> bool" where
  "incomplete wide part fs \<longleftrightarrow>
     (case fs of [] \<Rightarrow> part = []
      | f # _ \<Rightarrow> length part < length (frame_bytes wide f) \<and> part = take (length part) (frame_bytes wide f))"

lemma stream_split:
  "xs @ ys = concat (map (frame_bytes wide) fs) \<Longrightarrow> \<forall>f \<in> set fs. frame_bytes wide f \<noteq> [] \<Longrightarrow>
   \<exists>fs1 fs2 part. fs = fs1 @ fs2 \<and> xs = concat (map (frame_bytes wide) fs1) @ part \<and> incomplete wide part fs2 \<and>
     part @ ys = concat (map (frame_bytes wide) fs2)"
proof (induction fs arbitrary: xs)
  case Nil
  then show ?case by (simp add: incomplete_def)
next
  case (Cons f fs)
  let ?b = "frame_bytes wide f"
  show ?case
  proof (cases "length xs < length ?b")
    case True
    have "xs = take (length xs) (?b @ concat (map (frame_bytes wide) fs))"
      using arg_cong [OF Cons.prems(1), of "take (length xs)"] by simp
    then have "incomplete wide xs (f # fs)" using True by (simp add: incomplete_def)
    then show ?thesis using Cons.prems(1) by (intro exI [of _ "[]"] exI [of _ "f # fs"] exI [of _ xs]) simp
  next
    case False
    then have x: "xs = ?b @ drop (length ?b) xs"
      using Cons.prems(1) by (metis append_eq_append_conv_if append_eq_conv_conj list.simps(9) concat.simps(2) not_less)
    then have "drop (length ?b) xs @ ys = concat (map (frame_bytes wide) fs)"
      using Cons.prems(1) by (metis append.assoc list.simps(9) concat.simps(2) same_append_eq)
    from Cons.IH [OF this] Cons.prems(2) obtain fs1 fs2 part where IH: "fs = fs1 @ fs2"
      "drop (length ?b) xs = concat (map (frame_bytes wide) fs1) @ part" "incomplete wide part fs2"
      "part @ ys = concat (map (frame_bytes wide) fs2)" by auto
    have "xs = concat (map (frame_bytes wide) (f # fs1)) @ part" using x unfolding IH(2) by simp
    then show ?thesis using IH by (intro exI [of _ "f # fs1"] exI [of _ fs2] exI [of _ part]) simp
  qed
qed

text \<open>The header of a frame, as \<^verbatim>\<open>fetch_var_cell_from_buf\<close> sees it.\<close>

lemma frame_command:
  assumes "frame_ok lp wide f" "n = get_circ_id_size wide" "n < k"
  shows "take k (frame_bytes wide f @ r) ! n = (case f of Fixed c \<Rightarrow> command c | Var c \<Rightarrow> var_command c)"
  using assms by (cases f) (auto simp: fixed_bytes var_cell_pack_header_def get_circ_id_size_def nth_append)

lemma var_header:
  assumes "frame_ok lp wide (Var c)"
  defines "hdr \<equiv> var_cell_pack_header c wide"
  shows "length hdr = get_var_cell_header_size wide" "hdr ! get_circ_id_size wide = var_command c"
    "get_uint16 (drop (get_circ_id_size wide + 1) hdr) = payload_len c"
    "(if wide then get_uint32 hdr else ucast (get_uint16 hdr)) = var_circ_id c"
proof -
  show "length hdr = get_var_cell_header_size wide" "hdr ! get_circ_id_size wide = var_command c"
    by (simp_all add: hdr_def var_cell_pack_header_def cell_sizes nth_append)
  show "get_uint16 (drop (get_circ_id_size wide + 1) hdr) = payload_len c"
    using get_put_uint16 [of "payload_len c" "[]"] by (simp add: hdr_def var_cell_pack_header_def get_circ_id_size_def)
  show "(if wide then get_uint32 hdr else ucast (get_uint16 hdr)) = var_circ_id c"
    using assms(1) by (auto simp: hdr_def var_cell_pack_header_def ucast_narrow)
qed

lemma fetch_fixed:
  assumes "buf_ok b allocd" "frame_ok lp wide (Fixed c)" "wide = (lp \<ge> MIN_LINK_PROTO_FOR_WIDE_CIRC_IDS)"
    "buf_bytes b = take n (frame_bytes wide (Fixed c)) @ r" "n < length (frame_bytes wide (Fixed c)) \<longrightarrow> r = []"
  shows "fetch_var_cell_from_buf b lp allocd = Some (NotVarCell, b, allocd)"
proof (cases "buf_len b < get_var_cell_header_size wide")
  case True
  then show ?thesis using assms(3) by (simp add: fetch_var_cell_from_buf_def Let_def)
next
  case False
  let ?k = "get_var_cell_header_size wide"
  have wf: "buf_wf b allocd" using assms(1) by (simp add: buf_ok_def)
  have "?k \<le> length (frame_bytes wide (Fixed c))" using frame_length [OF assms(2)] by (simp add: cell_sizes)
  moreover have "?k \<le> length (take n (frame_bytes wide (Fixed c)) @ r)" using False buf_ok_len [OF assms(1)] assms(4) by simp
  moreover have "take k (take n F @ r) = take k F" if "k \<le> length F" "k \<le> length (take n F @ r)" "n < length F \<longrightarrow> r = []"
    for k and F :: "byte list" using that by (cases "n < length F") (auto simp: min_def)
  ultimately have "take ?k (buf_bytes b) = take ?k (frame_bytes wide (Fixed c) @ [])"
    using assms(5) unfolding assms(4) append_Nil2 by blast
  then have "take ?k (buf_bytes b) ! get_circ_id_size wide = command c"
    using frame_command [OF assms(2) refl, of ?k "[]"] by (simp add: cell_sizes)
  then show ?thesis
    using False assms(2,3) buf_peek_ok [OF wf, of ?k] by (simp add: fetch_var_cell_from_buf_def Let_def)
qed

lemma fetch_var:
  assumes "buf_ok b allocd" "frame_ok lp wide (Var c)" "wide = (lp \<ge> MIN_LINK_PROTO_FOR_WIDE_CIRC_IDS)"
    "buf_bytes b = frame_bytes wide (Var c) @ r"
  shows "\<exists>b' allocd'. fetch_var_cell_from_buf b lp allocd = Some (VarCell c, b', allocd') \<and> buf_ok b' allocd' \<and> buf_bytes b' = r"
proof -
  let ?hdr = "var_cell_pack_header c wide" and ?k = "get_var_cell_header_size wide" and ?n = "unat (payload_len c)"
  have wf: "buf_wf b allocd" and len: "buf_len b = length (?hdr @ var_payload c @ r)"
    using assms(1,4) by (simp_all add: buf_ok_def buf_wf_def)
  note hdr = var_header [OF assms(2)]
  have k: "length (var_payload c) = ?n" using assms(2) by simp
  have peek0: "buf_peek b ?k = Some ?hdr" using buf_peek_ok [OF wf, of ?k] len hdr(1) assms(4) by simp
  obtain b1 a1 where d1: "buf_drain b ?k allocd = Some (b1, a1)" "buf_wf b1 a1" "buf_bytes b1 = var_payload c @ r"
    using buf_drain_ok [OF wf, of ?k] len hdr(1) assms(4) by auto
  then have len1: "buf_len b1 = ?n + length r" using k by (simp add: buf_wf_def)
  have peek: "buf_peek b1 ?n = Some (var_payload c)" using buf_peek_ok [OF d1(2), of ?n] len1 d1(3) k by simp
  obtain b2 a2 where d2: "buf_drain b1 ?n a1 = Some (b2, a2)" "buf_wf b2 a2" "buf_bytes b2 = r"
    using buf_drain_ok [OF d1(2), of ?n] len1 d1(3) k by auto
  have "buf_len b2 \<le> BUF_MAX_LEN" using d2(2,3) assms(1) len by (simp add: buf_wf_def buf_ok_def)
  then have ok: "buf_ok b2 a2" using d2(2) by (simp add: buf_ok_def)
  have "\<not> buf_len b < ?k" "\<not> buf_len b < ?k + ?n" using len hdr(1) k by simp_all
  then have "fetch_var_cell_from_buf b lp allocd = Some (VarCell \<lparr>var_command = ?hdr ! get_circ_id_size wide,
      var_circ_id = (if wide then get_uint32 ?hdr else ucast (get_uint16 ?hdr)),
      payload_len = get_uint16 (drop (get_circ_id_size wide + 1) ?hdr), var_payload = var_payload c\<rparr>, b2, a2)"
    using assms(2) peek0 d1(1) peek d2(1) hdr(2,3) unfolding fetch_var_cell_from_buf_def assms(3) [symmetric] Let_def by simp
  then show ?thesis using ok d2(3) unfolding hdr(2-4) by simp
qed

lemma fetch_var_incomplete:
  assumes "buf_ok b allocd" "frame_ok lp wide (Var c)" "wide = (lp \<ge> MIN_LINK_PROTO_FOR_WIDE_CIRC_IDS)"
    "buf_bytes b = take n (frame_bytes wide (Var c))" "n < length (frame_bytes wide (Var c))"
  shows "fetch_var_cell_from_buf b lp allocd =
    Some (if n < get_var_cell_header_size wide then NotVarCell else VarCellIncomplete, b, allocd)"
proof -
  let ?k = "get_var_cell_header_size wide" and ?hdr = "var_cell_pack_header c wide"
  have wf: "buf_wf b allocd" and len: "buf_len b = n"
    using assms(1,4,5) by (simp_all add: buf_ok_def buf_wf_def)
  note hdr = var_header [OF assms(2)]
  have short: "n < ?k + unat (payload_len c)" using assms(2,5) hdr(1) by simp
  have "buf_peek b ?k = Some ?hdr" if "\<not> n < ?k"
    using buf_peek_ok [OF wf, of ?k] that hdr(1) unfolding assms(4) len by (simp add: take_append min_def)
  then show ?thesis
    using assms(2) hdr(2,3) short len unfolding fetch_var_cell_from_buf_def assms(3) [symmetric] Let_def by simp
qed

section \<open>The stream of frames\<close>

lemma process_incomplete:
  assumes "buf_ok b allocd" "\<forall>f \<in> set fs. frame_ok lp wide f" "wide = (lp \<ge> MIN_LINK_PROTO_FOR_WIDE_CIRC_IDS)"
    "buf_bytes b = part" "incomplete wide part fs"
  shows "connection_or_process_cells_from_inbuf lp wide b allocd = Some ([], b, allocd)"
proof (cases fs)
  case Nil
  then have "buf_len b = 0" using assms(4,5) buf_ok_len [OF assms(1)] by (simp add: incomplete_def)
  then show ?thesis
    by (subst connection_or_process_cells_from_inbuf.simps) (simp add: fetch_var_cell_from_buf_def Let_def cell_sizes)
next
  case (Cons f rest)
  define n where "n = length part"
  have f: "frame_ok lp wide f" "n < length (frame_bytes wide f)" "buf_bytes b = take n (frame_bytes wide f)" "buf_len b = n"
    using assms Cons buf_ok_len [OF assms(1)] by (auto simp: incomplete_def n_def)
  show ?thesis
  proof (cases f)
    case (Fixed c)
    have "fetch_var_cell_from_buf b lp allocd = Some (NotVarCell, b, allocd)"
      using f Fixed assms(3) by (intro fetch_fixed [OF assms(1), where n = n and r = "[]" and c = c]) auto
    then show ?thesis
      using f Fixed frame_length [OF f(1)] by (subst connection_or_process_cells_from_inbuf.simps) simp
  next
    case (Var c)
    have "fetch_var_cell_from_buf b lp allocd =
        Some (if n < get_var_cell_header_size wide then NotVarCell else VarCellIncomplete, b, allocd)"
      using f Var assms(3) by (intro fetch_var_incomplete [OF assms(1), where c = c]) auto
    moreover have "n < get_var_cell_header_size wide \<Longrightarrow> n < get_cell_network_size wide" by (simp add: cell_sizes split: if_splits)
    ultimately show ?thesis using f(4) by (subst connection_or_process_cells_from_inbuf.simps) simp
  qed
qed

lemma process_frame:
  assumes "buf_ok b allocd" "frame_ok lp wide f" "wide = (lp \<ge> MIN_LINK_PROTO_FOR_WIDE_CIRC_IDS)"
    "buf_bytes b = frame_bytes wide f @ r"
  shows "\<exists>b' allocd'. connection_or_process_cells_from_inbuf lp wide b allocd =
      map_option (\<lambda>(fs, r). (f # fs, r)) (connection_or_process_cells_from_inbuf lp wide b' allocd') \<and>
    buf_ok b' allocd' \<and> buf_bytes b' = r"
proof (cases f)
  case (Fixed c)
  have n: "length (frame_bytes wide f) = get_cell_network_size wide" using frame_length [OF assms(2)] Fixed by simp
  have len: "get_cell_network_size wide \<le> buf_len b" using buf_ok_len [OF assms(1)] assms(4) n by simp
  have "fetch_var_cell_from_buf b lp allocd = Some (NotVarCell, b, allocd)"
    using assms(2-4) Fixed
    by (intro fetch_fixed [OF assms(1), where n = "length (frame_bytes wide f)" and r = r and c = c]) auto
  moreover obtain b' allocd' where "buf_get_bytes b (get_cell_network_size wide) allocd =
      Some (frame_bytes wide f, int (buf_len b - get_cell_network_size wide), b', allocd')" "buf_ok b' allocd'" "buf_bytes b' = r"
    using buf_get_bytes_ok [OF assms(1) len] assms(4) n by auto
  ultimately show ?thesis
    using len unpack_pack [of lp wide c] assms(2) Fixed
    by (subst connection_or_process_cells_from_inbuf.simps) (auto simp del: frame_bytes.simps)
next
  case (Var c)
  then obtain b' allocd' where "fetch_var_cell_from_buf b lp allocd = Some (VarCell c, b', allocd')" "buf_ok b' allocd'" "buf_bytes b' = r"
    using fetch_var [OF assms(1), of lp wide c r] assms(2-4) by auto
  then show ?thesis using Var by (subst connection_or_process_cells_from_inbuf.simps) auto
qed

lemma process_stream:
  "buf_ok b allocd \<Longrightarrow> \<forall>f \<in> set (fs1 @ fs2). frame_ok lp wide f \<Longrightarrow> wide = (lp \<ge> MIN_LINK_PROTO_FOR_WIDE_CIRC_IDS) \<Longrightarrow>
   buf_bytes b = concat (map (frame_bytes wide) fs1) @ part \<Longrightarrow> incomplete wide part fs2 \<Longrightarrow>
   \<exists>b' allocd'. connection_or_process_cells_from_inbuf lp wide b allocd = Some (fs1, b', allocd') \<and> buf_ok b' allocd' \<and> buf_bytes b' = part"
proof (induction fs1 arbitrary: b allocd)
  case Nil
  then show ?case using process_incomplete [of b allocd fs2 lp wide part] by auto
next
  case (Cons f fs1)
  then obtain b1 a1 where "connection_or_process_cells_from_inbuf lp wide b allocd =
      map_option (\<lambda>(fs, r). (f # fs, r)) (connection_or_process_cells_from_inbuf lp wide b1 a1)"
    "buf_ok b1 a1" "buf_bytes b1 = concat (map (frame_bytes wide) fs1) @ part"
    using process_frame [OF Cons.prems(1), of lp wide f "concat (map (frame_bytes wide) fs1) @ part"] by auto
  then show ?case using Cons.IH [of b1 a1] Cons.prems by auto
qed

text \<open>The receiver: the pieces that the network delivers, each followed by a run of the loop.\<close>

primrec deliver :: "int \<Rightarrow> bool \<Rightarrow> uint32 \<Rightarrow> byte list list \<Rightarrow> buf \<times> nat \<Rightarrow> (frame list \<times> buf \<times> nat) option" where
  "deliver lp wide now [] q = Some ([], q)"
| "deliver lp wide now (piece # pieces) q =
     do {
       (inbuf, allocd) \<leftarrow> buf_put now piece q;
       (fs, q) \<leftarrow> connection_or_process_cells_from_inbuf lp wide inbuf allocd;
       (fs', q) \<leftarrow> deliver lp wide now pieces q;
       Some (fs @ fs', q)
     }"

lemma frame_nonempty: "frame_ok lp wide f \<Longrightarrow> frame_bytes wide f \<noteq> []"
  using frame_length [of lp wide f] by (auto simp: cell_sizes split: frame.splits if_splits)

lemma deliver_stream:
  assumes "wide = (lp \<ge> MIN_LINK_PROTO_FOR_WIDE_CIRC_IDS)"
  shows "buf_ok b allocd \<Longrightarrow> \<forall>f \<in> set fs. frame_ok lp wide f \<Longrightarrow> length (concat (map (frame_bytes wide) fs)) \<le> BUF_MAX_LEN \<Longrightarrow>
    buf_bytes b @ concat pieces = concat (map (frame_bytes wide) fs) \<Longrightarrow> incomplete wide (buf_bytes b) fs \<Longrightarrow>
    \<exists>b' allocd'. deliver lp wide now pieces (b, allocd) = Some (fs, b', allocd') \<and> buf_ok b' allocd' \<and> buf_bytes b' = []"
proof (induction pieces arbitrary: b allocd fs)
  case Nil
  then have "fs = []" by (cases fs) (auto simp: incomplete_def)
  then show ?case using Nil by simp
next
  case (Cons piece pieces)
  have "length (buf_bytes b) + length piece \<le> BUF_MAX_LEN"
    using Cons.prems(3) arg_cong [OF Cons.prems(4), of length] by simp
  then obtain b1 a1 where p: "buf_put now piece (b, allocd) = Some (b1, a1)" "buf_ok b1 a1" "buf_bytes b1 = buf_bytes b @ piece"
    using buffer.put [of "(b, allocd)" piece now] Cons.prems(1) by auto
  have "(buf_bytes b @ piece) @ concat pieces = concat (map (frame_bytes wide) fs)" using Cons.prems(4) by simp
  from stream_split [OF this] Cons.prems(2) frame_nonempty obtain fs1 fs2 part where s: "fs = fs1 @ fs2"
    "buf_bytes b @ piece = concat (map (frame_bytes wide) fs1) @ part" "incomplete wide part fs2"
    "part @ concat pieces = concat (map (frame_bytes wide) fs2)" by blast
  obtain b2 a2 where r: "connection_or_process_cells_from_inbuf lp wide b1 a1 = Some (fs1, b2, a2)" "buf_ok b2 a2" "buf_bytes b2 = part"
    using process_stream [OF p(2) _ assms, of fs1 fs2 part] Cons.prems(2) s p(3) by auto
  have "\<exists>b' allocd'. deliver lp wide now pieces (b2, a2) = Some (fs2, b', allocd') \<and> buf_ok b' allocd' \<and> buf_bytes b' = []"
    using Cons.prems(2,3) s r(3) by (intro Cons.IH [OF r(2)]) auto
  then show ?case using p(1) r(1) s(1) by auto
qed

lemma write_frames_ok:
  "buf_ok (fst q) (snd q) \<Longrightarrow> \<forall>f \<in> set fs. frame_ok lp wide f \<Longrightarrow>
   length (buf_bytes (fst q)) + length (concat (map (frame_bytes wide) fs)) \<le> BUF_MAX_LEN \<Longrightarrow>
   \<exists>q'. write_frames now wide fs q = Some q' \<and> buf_ok (fst q') (snd q') \<and>
     buf_bytes (fst q') = buf_bytes (fst q) @ concat (map (frame_bytes wide) fs)"
proof (induction now wide fs q rule: write_frames.induct)
  case (2 now wide c fs q)
  obtain q1 where q1: "connection_or_write_cell_to_buf now wide c q = Some q1" "buf_ok (fst q1) (snd q1)"
    "buf_bytes (fst q1) = buf_bytes (fst q) @ frame_bytes wide (Fixed c)"
    using buffer.put [OF 2(2), of "frame_bytes wide (Fixed c)" now] 2(4) by (auto simp: connection_or_write_cell_to_buf_def frame_bytes.simps(1))
  then show ?case using 2(1) [of q1] 2(3,4) by auto
next
  case (3 now wide c fs q)
  have body: "take (unat (payload_len c)) (var_payload c) = var_payload c" using 3(3) by simp
  obtain q1 where q1: "buf_put now (var_cell_pack_header c wide) q = Some q1" "buf_ok (fst q1) (snd q1)"
    "buf_bytes (fst q1) = buf_bytes (fst q) @ var_cell_pack_header c wide"
    using buffer.put [OF 3(2), of "var_cell_pack_header c wide" now] 3(4) by auto
  moreover obtain q2 where "buf_put now (var_payload c) q1 = Some q2" "buf_ok (fst q2) (snd q2)"
    "buf_bytes (fst q2) = buf_bytes (fst q1) @ var_payload c"
    using buffer.put [OF q1(2), of "var_payload c" now] q1(3) 3(4) by auto
  ultimately show ?case using 3(1) [of q2] 3(3,4) body by (auto simp: connection_or_write_var_cell_to_buf_def)
qed simp

text \<open>
  C33. Cells survive any segmentation. When two ends of a connection agree on the link protocol, a
  sequence of fixed and variable-length cells that one end writes to its output buffer is what the
  other end's loop hands on, in order and without loss, however the network cuts the bytes into
  pieces; nothing is left in the input buffer, and no assertion fails on the way.
\<close>

theorem cells_survive_segmentation:
  assumes "wide = (lp \<ge> MIN_LINK_PROTO_FOR_WIDE_CIRC_IDS)" "\<forall>f \<in> set fs. frame_ok lp wide f"
    "length (concat (map (frame_bytes wide) fs)) \<le> BUF_MAX_LEN"
  shows "\<exists>outbuf allocd. write_frames now wide fs (buf_new, 0) = Some (outbuf, allocd) \<and>
    (\<forall>pieces. concat pieces = buf_bytes outbuf \<longrightarrow>
       (\<exists>inbuf allocd'. deliver lp wide now pieces (buf_new, 0) = Some (fs, inbuf, allocd') \<and> buf_bytes inbuf = []))"
proof -
  have new: "buf_ok buf_new 0" "buf_bytes buf_new = []" by (simp_all add: buf_new_ok)
  obtain out a where w: "write_frames now wide fs (buf_new, 0) = Some (out, a)" "buf_bytes out = concat (map (frame_bytes wide) fs)"
    using write_frames_ok [of "(buf_new, 0)" fs lp wide now] new assms(2,3) by auto
  have inc: "incomplete wide (buf_bytes buf_new) fs"
    using assms(2) frame_nonempty by (cases fs) (auto simp: incomplete_def new(2))
  have "\<exists>inbuf allocd'. deliver lp wide now pieces (buf_new, 0) = Some (fs, inbuf, allocd') \<and> buf_bytes inbuf = []"
    if "concat pieces = buf_bytes out" for pieces
    using deliver_stream [OF assms(1) new(1) assms(2,3) _ inc, of pieces now] that w(2) new(2) by auto
  then show ?thesis using w(1) by blast
qed

definition demo_frames :: "frame list" where
  "demo_frames = [Var \<lparr>var_command = 7, var_circ_id = 0, payload_len = 4, var_payload = [0, 4, 0, 5]\<rparr>,
     Fixed \<lparr>circ_id = 0x80000001, command = 3, payload = replicate 509 1\<rparr>]"

theorem cells_survive_segmentation_witness:
  "\<exists>outbuf allocd. write_frames 1 True demo_frames (buf_new, 0) = Some (outbuf, allocd) \<and>
     (\<exists>inbuf allocd'. deliver 5 True 1 [take 6 (buf_bytes outbuf), drop 6 (buf_bytes outbuf)] (buf_new, 0) =
        Some (demo_frames, inbuf, allocd') \<and> buf_bytes inbuf = [])"
proof -
  have f: "\<forall>f \<in> set demo_frames. frame_ok 5 True f"
    by (simp add: demo_frames_def cell_command_is_var_length_def CELL_VERSIONS_def CELL_PAYLOAD_SIZE_def)
  have "length (concat (map (frame_bytes True) demo_frames)) \<le> BUF_MAX_LEN"
    by (simp add: demo_frames_def fixed_bytes var_cell_pack_header_def CELL_PAYLOAD_SIZE_def BUF_MAX_LEN_def)
  from cells_survive_segmentation [OF _ f this, where now = 1] obtain out a where
    "write_frames 1 True demo_frames (buf_new, 0) = Some (out, a)"
    "\<forall>pieces. concat pieces = buf_bytes out \<longrightarrow>
       (\<exists>inbuf allocd'. deliver 5 True 1 pieces (buf_new, 0) = Some (demo_frames, inbuf, allocd') \<and> buf_bytes inbuf = [])"
    by (auto simp: MIN_LINK_PROTO_FOR_WIDE_CIRC_IDS_def)
  from this(1) this(2) [rule_format, of "[take 6 (buf_bytes out), drop 6 (buf_bytes out)]"] show ?thesis
    by (metis append_Nil2 append_take_drop_id concat.simps)
qed

end
