(* ===== verification/Address.thy ===== *)
theory Address
  imports Versions Cells
begin

unbundle bit_operations_syntax

text \<open>
  Addresses (\<^verbatim>\<open>lib/net/address.c\<close>): families, the comparison of two addresses on their first bits, and
  the tests for null, loopback and internal addresses. The comparison is characterised by the bits
  of the addresses, which makes it an equivalence that gets finer with the number of bits.
\<close>

section \<open>Addresses\<close>

text \<open>An IPv6 address is its 16 bytes. A local socket has no address; the number stands for the identity of the object.\<close>

datatype tor_addr = AF_UNSPEC | AF_INET uint32 | AF_INET6 "byte list" | AF_UNIX nat

datatype tor_addr_comparison = CMP_EXACT | CMP_SEMANTIC

fun tor_addr_family :: "tor_addr \<Rightarrow> nat" where
  "tor_addr_family AF_UNSPEC = 0"
| "tor_addr_family (AF_UNIX _) = 1"
| "tor_addr_family (AF_INET _) = 2"
| "tor_addr_family (AF_INET6 _) = 10"

definition tor_addr_to_in6_addr32 :: "byte list \<Rightarrow> nat \<Rightarrow> uint32" where
  "tor_addr_to_in6_addr32 bs i = get_uint32 (drop (4 * i) bs)"

fun tor_addr_to_ipv4h :: "tor_addr \<Rightarrow> uint32" where
  "tor_addr_to_ipv4h (AF_INET a) = a"
| "tor_addr_to_ipv4h _ = 0"

fun tor_addr_to_mapped_ipv4h :: "tor_addr \<Rightarrow> uint32" where
  "tor_addr_to_mapped_ipv4h (AF_INET6 bs) = tor_addr_to_in6_addr32 bs 3"
| "tor_addr_to_mapped_ipv4h _ = 0"

fun tor_addr_is_v4 :: "tor_addr \<Rightarrow> bool" where
  "tor_addr_is_v4 (AF_INET _) \<longleftrightarrow> True"
| "tor_addr_is_v4 (AF_INET6 bs) \<longleftrightarrow> tor_addr_to_in6_addr32 bs 0 = 0 \<and> tor_addr_to_in6_addr32 bs 1 = 0 \<and>
     tor_addr_to_in6_addr32 bs 2 = 0xffff"
| "tor_addr_is_v4 _ \<longleftrightarrow> False"

fun tor_addr_is_null :: "tor_addr \<Rightarrow> bool" where
  "tor_addr_is_null (AF_INET6 bs) \<longleftrightarrow> tor_addr_to_in6_addr32 bs 0 = 0 \<and> tor_addr_to_in6_addr32 bs 1 = 0 \<and>
     tor_addr_to_in6_addr32 bs 2 = 0 \<and> tor_addr_to_in6_addr32 bs 3 = 0"
| "tor_addr_is_null (AF_INET a) \<longleftrightarrow> a = 0"
| "tor_addr_is_null (AF_UNIX _) \<longleftrightarrow> True"
| "tor_addr_is_null AF_UNSPEC \<longleftrightarrow> True"

fun tor_addr_is_loopback :: "tor_addr \<Rightarrow> bool" where
  "tor_addr_is_loopback (AF_INET6 bs) \<longleftrightarrow> tor_addr_to_in6_addr32 bs 0 = 0 \<and> tor_addr_to_in6_addr32 bs 1 = 0 \<and>
     tor_addr_to_in6_addr32 bs 2 = 0 \<and> tor_addr_to_in6_addr32 bs 3 = 1"
| "tor_addr_is_loopback (AF_INET a) \<longleftrightarrow> a AND 0xff000000 = 0x7f000000"
| "tor_addr_is_loopback _ \<longleftrightarrow> False"

definition internal_ipv4 :: "uint32 \<Rightarrow> bool \<Rightarrow> bool" where
  "internal_ipv4 iph4 for_listening \<longleftrightarrow>
     \<not> (for_listening \<and> (iph4 = 0 \<or> iph4 AND 0xffc00000 = 0x64400000)) \<and>
     (iph4 AND 0xff000000 = 0x0a000000 \<or> iph4 AND 0xff000000 = 0 \<or> iph4 AND 0xff000000 = 0x7f000000 \<or>
      iph4 AND 0xffc00000 = 0x64400000 \<or> iph4 AND 0xffff0000 = 0xa9fe0000 \<or>
      iph4 AND 0xfff00000 = 0xac100000 \<or> iph4 AND 0xffff0000 = 0xc0a80000)"

definition internal_ipv6 :: "byte list \<Rightarrow> bool \<Rightarrow> bool" where
  "internal_ipv6 bs for_listening \<longleftrightarrow>
     (let iph6 = tor_addr_to_in6_addr32 bs
      in \<not> (for_listening \<and> iph6 0 = 0 \<and> iph6 1 = 0 \<and> iph6 2 = 0 \<and> iph6 3 = 0) \<and>
         (iph6 0 AND 0xfe000000 = 0xfc000000 \<or> iph6 0 AND 0xffc00000 = 0xfe800000 \<or> iph6 0 AND 0xffc00000 = 0xfec00000 \<or>
          iph6 0 = 0 \<and> iph6 1 = 0 \<and> iph6 2 = 0 \<and> iph6 3 AND 0xfffffffe = 0))"

fun tor_addr_is_internal :: "tor_addr \<Rightarrow> bool \<Rightarrow> bool" where
  "tor_addr_is_internal (AF_INET a) for_listening = internal_ipv4 a for_listening"
| "tor_addr_is_internal (AF_INET6 bs) for_listening =
     (if tor_addr_is_v4 (AF_INET6 bs) then internal_ipv4 (tor_addr_to_in6_addr32 bs 3) for_listening
      else internal_ipv6 bs for_listening)"
| "tor_addr_is_internal _ for_listening = True"

section \<open>Comparison\<close>

definition TRISTATE :: "nat \<Rightarrow> nat \<Rightarrow> int" where
  "TRISTATE a b = (if a < b then -1 else if a = b then 0 else 1)"

definition compare_ipv4 :: "uint32 \<Rightarrow> uint32 \<Rightarrow> nat \<Rightarrow> int" where
  "compare_ipv4 a1 a2 mbits =
     (let mbits = min mbits 32 in TRISTATE (unat (drop_bit (32 - mbits) a1)) (unat (drop_bit (32 - mbits) a2)))"

definition compare_ipv6 :: "byte list \<Rightarrow> byte list \<Rightarrow> nat \<Rightarrow> int" where
  "compare_ipv6 a1 a2 mbits0 =
     (let mbits = min mbits0 128; bytes = mbits div 8; leftover_bits = mbits mod 8;
          r = cmp_keys (map unat (take bytes a1)) (map unat (take bytes a2))
      in if bytes \<noteq> 0 \<and> r \<noteq> 0 then r
         else if leftover_bits \<noteq> 0 then
           TRISTATE (unat (drop_bit (8 - leftover_bits) (a1 ! bytes))) (unat (drop_bit (8 - leftover_bits) (a2 ! bytes)))
         else 0)"

definition compare_mapped :: "tor_addr \<Rightarrow> tor_addr \<Rightarrow> nat \<Rightarrow> int" where
  "compare_mapped addr1 addr2 mbits =
     (case addr1 of
        AF_INET6 _ \<Rightarrow>
          if mbits \<le> 96 then 0
          else compare_ipv4 (tor_addr_to_mapped_ipv4h addr1)
                 (case addr2 of AF_INET6 _ \<Rightarrow> tor_addr_to_mapped_ipv4h addr2 | _ \<Rightarrow> tor_addr_to_ipv4h addr2) (mbits - 96)
      | _ \<Rightarrow> compare_ipv4 (tor_addr_to_ipv4h addr1)
               (case addr2 of AF_INET6 _ \<Rightarrow> tor_addr_to_mapped_ipv4h addr2 | _ \<Rightarrow> tor_addr_to_ipv4h addr2) mbits)"

definition tor_addr_compare_masked :: "tor_addr \<Rightarrow> tor_addr \<Rightarrow> nat \<Rightarrow> tor_addr_comparison \<Rightarrow> int" where
  "tor_addr_compare_masked addr1 addr2 mbits how =
     (case (addr1, addr2) of
        (AF_UNSPEC, AF_UNSPEC) \<Rightarrow> 0
      | (AF_INET a1, AF_INET a2) \<Rightarrow> if mbits = 0 then 0 else compare_ipv4 a1 a2 mbits
      | (AF_INET6 a1, AF_INET6 a2) \<Rightarrow> compare_ipv6 a1 a2 mbits
      | (AF_UNIX p1, AF_UNIX p2) \<Rightarrow> TRISTATE p1 p2
      | _ \<Rightarrow>
          if how = CMP_EXACT then TRISTATE (tor_addr_family addr1) (tor_addr_family addr2)
          else if mbits = 0 then 0
          else if (if tor_addr_is_v4 addr1 then 2 else tor_addr_family addr1) =
                  (if tor_addr_is_v4 addr2 then 2 else tor_addr_family addr2)
               then compare_mapped addr1 addr2 mbits
               else TRISTATE (tor_addr_family addr1) (tor_addr_family addr2))"

definition tor_addr_compare :: "tor_addr \<Rightarrow> tor_addr \<Rightarrow> tor_addr_comparison \<Rightarrow> int" where
  "tor_addr_compare addr1 addr2 how = tor_addr_compare_masked addr1 addr2 128 how"

section \<open>The bits of an address\<close>

fun addr_ok :: "tor_addr \<Rightarrow> bool" where
  "addr_ok (AF_INET6 bs) \<longleftrightarrow> length bs = 16"
| "addr_ok (AF_UNIX _) \<longleftrightarrow> False"
| "addr_ok _ \<longleftrightarrow> True"

fun addr_bits :: "tor_addr \<Rightarrow> nat" where
  "addr_bits (AF_INET _) = 32"
| "addr_bits (AF_INET6 _) = 128"
| "addr_bits _ = 0"

text \<open>The bits from the most significant one on.\<close>

fun addr_bit :: "tor_addr \<Rightarrow> nat \<Rightarrow> bool" where
  "addr_bit (AF_INET a) i \<longleftrightarrow> bit a (31 - i)"
| "addr_bit (AF_INET6 bs) i \<longleftrightarrow> bit (bs ! (i div 8)) (7 - i mod 8)"
| "addr_bit _ i \<longleftrightarrow> False"

definition same_prefix :: "nat \<Rightarrow> tor_addr \<Rightarrow> tor_addr \<Rightarrow> bool" where
  "same_prefix n a b \<longleftrightarrow> tor_addr_family a = tor_addr_family b \<and> (\<forall>i < min n (addr_bits a). addr_bit a i = addr_bit b i)"

lemma TRISTATE_zero [simp]: "TRISTATE a b = 0 \<longleftrightarrow> a = b"
  by (simp add: TRISTATE_def)

lemma drop_bit_eq_iff:
  fixes a b :: "'a::len word"
  assumes "n \<le> LENGTH('a)"
  shows "drop_bit (LENGTH('a) - n) a = drop_bit (LENGTH('a) - n) b \<longleftrightarrow> (\<forall>i < n. bit a (LENGTH('a) - 1 - i) = bit b (LENGTH('a) - 1 - i))"
proof
  assume e: "drop_bit (LENGTH('a) - n) a = drop_bit (LENGTH('a) - n) b"
  show "\<forall>i < n. bit a (LENGTH('a) - 1 - i) = bit b (LENGTH('a) - 1 - i)"
  proof (intro allI impI)
    fix i assume "i < n"
    then have "LENGTH('a) - 1 - i = (LENGTH('a) - n) + (n - 1 - i)" using assms by simp
    then show "bit a (LENGTH('a) - 1 - i) = bit b (LENGTH('a) - 1 - i)"
      using arg_cong [OF e, of "\<lambda>w. bit w (n - 1 - i)"] by (simp add: bit_drop_bit_eq)
  qed
next
  assume e: "\<forall>i < n. bit a (LENGTH('a) - 1 - i) = bit b (LENGTH('a) - 1 - i)"
  show "drop_bit (LENGTH('a) - n) a = drop_bit (LENGTH('a) - n) b"
  proof (rule bit_word_eqI)
    fix k assume "k < LENGTH('a)"
    show "bit (drop_bit (LENGTH('a) - n) a) k = bit (drop_bit (LENGTH('a) - n) b) k"
    proof (cases "k < n")
      case True
      then have "LENGTH('a) - n + k = LENGTH('a) - 1 - (n - 1 - k)" "n - 1 - k < n" using assms by simp_all
      then show ?thesis using e [rule_format, of "n - 1 - k"] by (simp add: bit_drop_bit_eq)
    next
      case False
      then have "LENGTH('a) \<le> LENGTH('a) - n + k" using assms by simp
      then have "\<not> bit a (LENGTH('a) - n + k)" "\<not> bit b (LENGTH('a) - n + k)" by (auto dest: bit_imp_le_length)
      then show ?thesis by (simp add: bit_drop_bit_eq)
    qed
  qed
qed

lemma compare_ipv4_zero: "compare_ipv4 a b n = 0 \<longleftrightarrow> (\<forall>i < min n 32. bit a (31 - i) = bit b (31 - i))"
  using drop_bit_eq_iff [of "min n 32" a b] by (simp add: compare_ipv4_def Let_def flip: word_unat_eq_iff)

lemma byte_prefix:
  assumes "length a = 16" "length b = 16" "k \<le> 16"
  shows "take k a = take k b \<longleftrightarrow> (\<forall>i < 8 * k. addr_bit (AF_INET6 a) i = addr_bit (AF_INET6 b) i)"
proof
  assume e: "take k a = take k b"
  show "\<forall>i < 8 * k. addr_bit (AF_INET6 a) i = addr_bit (AF_INET6 b) i"
  proof (intro allI impI)
    fix i assume "i < 8 * k"
    then have "i div 8 < k" by simp
    then have "a ! (i div 8) = b ! (i div 8)" using e by (metis nth_take)
    then show "addr_bit (AF_INET6 a) i = addr_bit (AF_INET6 b) i" by simp
  qed
next
  assume e: "\<forall>i < 8 * k. addr_bit (AF_INET6 a) i = addr_bit (AF_INET6 b) i"
  have "a ! j = b ! j" if "j < k" for j
  proof (rule bit_word_eqI)
    fix n assume "n < LENGTH(8)"
    then have n: "n < 8" by simp
    define i where "i = 8 * j + (7 - n)"
    have "i < 8 * k" "i div 8 = j" using that n by (auto simp: i_def)
    moreover have "i mod 8 = 7 - n" using n by (simp only: i_def mod_mult_self4) simp
    ultimately show "bit (a ! j) n = bit (b ! j) n" using e [rule_format, of i] n by simp
  qed
  then show "take k a = take k b" using assms by (intro nth_equalityI) auto
qed

lemma compare_ipv6_zero:
  assumes "length a = 16" "length b = 16"
  shows "compare_ipv6 a b n = 0 \<longleftrightarrow> (\<forall>i < min n 128. addr_bit (AF_INET6 a) i = addr_bit (AF_INET6 b) i)"
proof -
  define m where "m = min n 128"
  define k where "k = m div 8"
  define l where "l = m mod 8"
  have m: "m = 8 * k + l" "l < 8" "k \<le> 16" unfolding k_def l_def m_def by auto
  have front: "cmp_keys (map unat (take k a)) (map unat (take k b)) = 0 \<longleftrightarrow> take k a = take k b"
    using cmp_keys_eq by (metis map_injective inj_def word_unat_eq_iff)
  have last: "drop_bit (8 - l) (a ! k) = drop_bit (8 - l) (b ! k) \<longleftrightarrow>
      (\<forall>i < l. addr_bit (AF_INET6 a) (8 * k + i) = addr_bit (AF_INET6 b) (8 * k + i))"
    using drop_bit_eq_iff [of l "a ! k" "b ! k"] m(2) by simp
  have split: "(\<forall>i < m. P i) \<longleftrightarrow> (\<forall>i < 8 * k. P i) \<and> (\<forall>i < l. P (8 * k + i))" for P
  proof
    assume r: "(\<forall>i < 8 * k. P i) \<and> (\<forall>i < l. P (8 * k + i))"
    show "\<forall>i < m. P i"
    proof (intro allI impI)
      fix i assume "i < m"
      show "P i"
      proof (cases "i < 8 * k")
        case False
        then have "i - 8 * k < l" "8 * k + (i - 8 * k) = i" using \<open>i < m\<close> m(1) by simp_all
        then show ?thesis using r by metis
      qed (use r in blast)
    qed
  qed (use m(1) in auto)
  have "compare_ipv6 a b n = 0 \<longleftrightarrow> take k a = take k b \<and> (l \<noteq> 0 \<longrightarrow> drop_bit (8 - l) (a ! k) = drop_bit (8 - l) (b ! k))"
    unfolding compare_ipv6_def Let_def m_def [symmetric] k_def [symmetric] l_def [symmetric] using front by (auto simp flip: word_unat_eq_iff)
  also have "\<dots> \<longleftrightarrow> (\<forall>i < m. addr_bit (AF_INET6 a) i = addr_bit (AF_INET6 b) i)"
    unfolding split byte_prefix [OF assms m(3)] last by auto
  finally show ?thesis by (simp only: m_def)
qed

text \<open>An exact comparison is 0 when the families and the first bits agree.\<close>

lemma compare_masked_zero:
  assumes "addr_ok a" "addr_ok b"
  shows "tor_addr_compare_masked a b n CMP_EXACT = 0 \<longleftrightarrow> same_prefix n a b"
  using assms compare_ipv6_zero
  by (cases a; cases b) (auto simp: tor_addr_compare_masked_def same_prefix_def compare_ipv4_zero)

lemma same_prefix_sym: "same_prefix n a b \<Longrightarrow> same_prefix n b a"
  by (cases a; cases b) (auto simp: same_prefix_def)

lemma same_prefix_trans: "same_prefix n a b \<Longrightarrow> same_prefix n b c \<Longrightarrow> same_prefix n a c"
  by (cases a; cases b; cases c) (auto simp: same_prefix_def)

lemma same_prefix_mono: "same_prefix n a b \<Longrightarrow> m \<le> n \<Longrightarrow> same_prefix m a b"
  by (auto simp: same_prefix_def)

lemma same_prefix_zero: "same_prefix 0 a b \<longleftrightarrow> tor_addr_family a = tor_addr_family b"
  by (simp add: same_prefix_def)

end
