(* ===== verification/Addr_Text.thy ===== *)
theory Addr_Text
  imports Address Scanf
begin

unbundle bit_operations_syntax

text \<open>
  Addresses as text: \<^verbatim>\<open>tor_inet_ntop\<close> and \<^verbatim>\<open>tor_inet_pton\<close> of \<^verbatim>\<open>lib/net/inaddr.c\<close>, and the parser of
  address patterns with masks and port ranges in \<^verbatim>\<open>lib/net/address.c\<close>. A position in a text is an index; the
  index of the end stands for the terminating NUL.
\<close>

section \<open>Printing\<close>

definition hex_digit_lower :: "nat \<Rightarrow> char" where
  "hex_digit_lower n = char_of (if n < 10 then 48 + n else 87 + n)"

text \<open>\<^verbatim>\<open>printf\<close>'s \<^verbatim>\<open>%x\<close>.\<close>

fun show_hex :: "nat \<Rightarrow> string" where
  "show_hex n = (if n < 16 then [hex_digit_lower n] else show_hex (n div 16) @ [hex_digit_lower (n mod 16)])"

declare show_hex.simps [simp del]

definition addr_words :: "byte list \<Rightarrow> uint16 list" where
  "addr_words bs = map (\<lambda>i. push_bit 8 (ucast (bs ! (2 * i))) + ucast (bs ! (2 * i + 1))) [0 ..< 8]"

text \<open>The loop that finds the longest run of zero words: its position (-1 for none) and length.\<close>

function longest_gap :: "uint16 list \<Rightarrow> nat \<Rightarrow> int \<Rightarrow> nat \<Rightarrow> int \<times> nat" where
  "longest_gap [] i longestGapPos longestGapLen = (longestGapPos, longestGapLen)"
| "longest_gap (w # ws) i longestGapPos longestGapLen =
     (if w = 0 then
        let curGapLen = Suc (length (takeWhile (\<lambda>v. v = 0) ws)); rest = dropWhile (\<lambda>v. v = 0) ws
        in if curGapLen > longestGapLen then longest_gap rest (i + curGapLen) (int i) curGapLen
           else longest_gap rest (i + curGapLen) longestGapPos longestGapLen
      else longest_gap ws (i + 1) longestGapPos longestGapLen)"
  by pat_completeness auto
termination
  by (relation "measure (\<lambda>(ws, _). length ws)") (auto simp: le_imp_less_Suc length_dropWhile_le)

function ntop_words :: "int \<Rightarrow> uint16 list \<Rightarrow> nat \<Rightarrow> string" where
  "ntop_words gap [] i = []"
| "ntop_words gap (w # ws) i =
     (if w = 0 \<and> gap = int i then
        (if i = 0 then '':'' else []) @ '':'' @
        ntop_words gap (dropWhile (\<lambda>v. v = 0) ws) (i + 1 + length (takeWhile (\<lambda>v. v = 0) ws))
      else show_hex (unat w) @ (if i \<noteq> 7 then '':'' else []) @ ntop_words gap ws (i + 1))"
  by pat_completeness auto
termination
  by (relation "measure (\<lambda>(gap, ws, i). length ws)") (auto simp: le_imp_less_Suc length_dropWhile_le)

definition dotted_tail :: "byte list \<Rightarrow> string" where
  "dotted_tail bs = show_nat (unat (bs ! 12)) @ ''.'' @ show_nat (unat (bs ! 13)) @ ''.'' @
     show_nat (unat (bs ! 14)) @ ''.'' @ show_nat (unat (bs ! 15))"

definition ntop_ipv6 :: "byte list \<Rightarrow> string" where
  "ntop_ipv6 bs =
     (let words = addr_words bs
      in if words ! 0 = 0 \<and> words ! 1 = 0 \<and> words ! 2 = 0 \<and> words ! 3 = 0 \<and> words ! 4 = 0 \<and>
            (words ! 5 = 0 \<and> words ! 6 \<noteq> 0 \<and> words ! 7 \<noteq> 0 \<or> words ! 5 = 0xffff) then
           (if words ! 5 = 0 then ''::'' @ dotted_tail bs
            else ''::'' @ show_hex (unat (words ! 5)) @ '':'' @ dotted_tail bs)
         else let (longestGapPos, longestGapLen) = longest_gap words 0 (-1) 0
              in ntop_words (if longestGapLen \<le> 1 then -1 else longestGapPos) words 0)"

text \<open>\<^verbatim>\<open>tor_inet_ntop\<close> with a buffer of \<open>len\<close> bytes; \<open>None\<close> is NULL.\<close>

fun tor_inet_ntop :: "tor_addr \<Rightarrow> nat \<Rightarrow> string option" where
  "tor_inet_ntop (AF_INET a) len = (if length (tor_inet_ntoa a) < len then Some (tor_inet_ntoa a) else None)"
| "tor_inet_ntop (AF_INET6 bs) len = (if length (ntop_ipv6 bs) + 1 > len then None else Some (ntop_ipv6 bs))"
| "tor_inet_ntop _ len = None"

section \<open>Parsing\<close>

definition strchr :: "char \<Rightarrow> string \<Rightarrow> nat option" where
  "strchr c s = (let n = length (takeWhile (\<lambda>d. d \<noteq> c) s) in if n < length s then Some n else None)"

definition hex_val :: "string \<Rightarrow> int" where
  "hex_val ds = foldl (\<lambda>a c. 16 * a + hex_decode_digit c) 0 ds"

text \<open>
  \<^verbatim>\<open>strtol(s, &next, 16)\<close> on a text that starts with a hexadecimal digit: the value and the number of
  characters read, with an optional \<^verbatim>\<open>0x\<close>.
\<close>

definition strtol16 :: "string \<Rightarrow> int \<times> nat" where
  "strtol16 s =
     (let skip = (if length s > 2 \<and> s ! 0 = CHR ''0'' \<and> s ! 1 \<in> {CHR ''x'', CHR ''X''} \<and> is_xdigit (s ! 2) then 2 else 0);
          ds = takeWhile is_xdigit (drop skip s)
      in (min (hex_val ds) LONG_MAX, skip + length ds))"

text \<open>The loop over the words: on its end the position of the gap, the words and their number.\<close>

function pton_loop :: "string \<Rightarrow> nat \<Rightarrow> nat \<Rightarrow> nat \<Rightarrow> nat option \<Rightarrow> uint16 list \<Rightarrow> nat \<Rightarrow> (nat option \<times> uint16 list \<times> nat) parsed" where
  "pton_loop s eow src i gapPos words setWords =
     (if src < eow then
        if i > 7 then Rejected
        else if is_xdigit (s ! src) then
          (let (r, n) = strtol16 (drop src s);
               len = (if src + n = length s then eow - src else n)
           in if n = 0 then Rejected
              else if len > 4 then Rejected
              else if len > 1 \<and> \<not> is_xdigit (s ! (src + 1)) then Rejected
              else if r \<ge> 65536 then Aborted
              else if \<not> (src + n < length s \<and> s ! (src + n) = CHR '':'') \<and> src + n \<noteq> eow then Rejected
              else pton_loop s eow (src + n + 1) (i + 1) gapPos (words[i := of_int r]) (setWords + 1))
        else if s ! src = CHR '':'' \<and> i > 0 \<and> gapPos = None then
          pton_loop s eow (src + 1) i (Some i) words setWords
        else if s ! src = CHR '':'' \<and> i = 0 \<and> src + 1 < eow \<and> s ! (src + 1) = CHR '':'' \<and> gapPos = None then
          pton_loop s eow (src + 2) i (Some i) words setWords
        else Rejected
      else Parsed (gapPos, words, setWords))"
  by pat_completeness auto
termination
  by (relation "measure (\<lambda>(s, eow, src, _). eow - src)") auto

declare pton_loop.simps [simp del]

definition pton_finish :: "bool \<Rightarrow> (nat option \<times> uint16 list \<times> nat) parsed \<Rightarrow> byte list parsed" where
  "pton_finish dot res =
     (case res of Rejected \<Rightarrow> Rejected | Aborted \<Rightarrow> Aborted
      | Parsed (gapPos, words, setWords) \<Rightarrow>
          if setWords > 8 \<or> setWords = 8 \<and> gapPos \<noteq> None \<or> setWords < 8 \<and> gapPos = None then Rejected
          else (case gapPos of
                  None \<Rightarrow> Parsed (concat (map put_uint16 words))
                | Some g \<Rightarrow>
                    (let nToMove = int setWords - (if dot then 2 else 0) - int g; gapLen = 8 - setWords
                     in if nToMove < 0 then Aborted
                        else Parsed (concat (map put_uint16
                               (take g words @ replicate gapLen 0 @ take (nat nToMove) (drop g words) @
                                drop (g + gapLen + nat nToMove) words))))))"

text \<open>The loop that walks back from the first dot over digits.\<close>

fun pton_eow :: "string \<Rightarrow> nat \<Rightarrow> nat" where
  "pton_eow s 0 = 0"
| "pton_eow s (Suc k) = (if is_digit (s ! Suc k) then pton_eow s k else Suc k)"

definition pton_dotted :: "string \<Rightarrow> nat \<Rightarrow> byte list parsed" where
  "pton_dotted src eow =
     (case tor_sscanf (drop eow src) ''%3u.%3u.%3u.%3u%c'' of
        Some (n, [UVal byte1, UVal byte2, UVal byte3, UVal byte4]) \<Rightarrow>
          if n \<noteq> 4 \<or> byte1 > 255 \<or> byte2 > 255 \<or> byte3 > 255 \<or> byte4 > 255 then Rejected
          else pton_finish True (pton_loop src eow 0 0 None
                 ((replicate 8 0xf8f8)[6 := push_bit 8 (of_int byte1) OR of_int byte2, 7 := push_bit 8 (of_int byte3) OR of_int byte4]) 2)
      | _ \<Rightarrow> Rejected)"

definition pton_ipv6 :: "string \<Rightarrow> byte list parsed" where
  "pton_ipv6 src =
     (let len = length src
      in if len > 2 \<and> src ! (len - 1) = CHR '':'' \<and> src ! (len - 2) \<noteq> CHR '':'' then Rejected
         else (case strchr CHR ''.'' src of
                 None \<Rightarrow> pton_finish False (pton_loop src len 0 0 None (replicate 8 0xf8f8) 0)
               | Some dot \<Rightarrow>
                   if dot = 0 then Rejected
                   else let eow = pton_eow src (dot - 1)
                        in if src ! eow \<noteq> CHR '':'' then Rejected else pton_dotted src (eow + 1)))"

text \<open>\<^verbatim>\<open>tor_inet_pton\<close> for a family.\<close>

definition tor_inet_pton :: "nat \<Rightarrow> string \<Rightarrow> tor_addr parsed" where
  "tor_inet_pton af src =
     (if af = 2 then (case tor_inet_aton src of Some a \<Rightarrow> Parsed (AF_INET a) | None \<Rightarrow> Rejected)
      else if af = 10 then
        (case pton_ipv6 src of Parsed bs \<Rightarrow> Parsed (AF_INET6 bs) | Rejected \<Rightarrow> Rejected | Aborted \<Rightarrow> Aborted)
      else Rejected)"

section \<open>Masks and ports\<close>

definition addr_mask_get_bits :: "uint32 \<Rightarrow> nat option" where
  "addr_mask_get_bits m =
     (if m = 0 then Some 0
      else if m = 0xffffffff then Some 32
      else find (\<lambda>i. m = NOT (push_bit (32 - i) 1 - 1)) [1 ..< 33])"

text \<open>The range is a pair of port numbers; the text may be absent.\<close>

definition parse_port_range :: "string option \<Rightarrow> (nat \<times> nat) option" where
  "parse_port_range port =
     (let clamp = (\<lambda>(lo, hi). Some (nat (if lo < 1 then 1 else lo), nat (if hi > 65535 then 65535 else hi)))
      in if port = None \<or> port = Some [] \<or> port = Some ''*'' then clamp (1, 65535)
         else let (port_min, ok, endptr) = tor_parse_long (the port) 0 65535 True
              in if \<not> ok then None
                 else if endptr \<noteq> [] \<and> hd endptr = CHR ''-'' then
                   (let (port_max, ok, _) = tor_parse_long (tl endptr) 1 65535 True
                    in if \<not> ok then None
                       else if port_min > port_max then None
                       else clamp (port_min, port_max))
                 else clamp (port_min, port_min))"

record tapmp_flags =
  TAPMP_EXTENDED_STAR :: bool
  TAPMP_STAR_IPV4_ONLY :: bool
  TAPMP_STAR_IPV6_ONLY :: bool

definition no_tapmp :: tapmp_flags where
  "no_tapmp = \<lparr>TAPMP_EXTENDED_STAR = False, TAPMP_STAR_IPV4_ONLY = False, TAPMP_STAR_IPV6_ONLY = False\<rparr>"

definition MAX_ADDRESS_LENGTH :: nat where "MAX_ADDRESS_LENGTH = 80"

definition nil_bytes :: "byte list" where "nil_bytes = replicate 16 0"

text \<open>
  The three parts of a pattern: the text before the bracket, mask or port; the mask; the port.
  \<open>None\<close> is a missing closing bracket. What stands between a bracket and the next separator is dropped.
\<close>

definition split_pattern :: "string \<Rightarrow> (string \<times> string option \<times> string option) option" where
  "split_pattern s =
     (let bracket = (s \<noteq> [] \<and> hd s = CHR ''[''); address = (if bracket then tl s else s)
      in if bracket \<and> strchr CHR '']'' address = None then None
         else let base = (if bracket then drop (the (strchr CHR '']'' address)) address else address)
              in case strchr CHR ''/'' base of
                   None \<Rightarrow>
                     (let p = strchr CHR '':'' base
                      in Some (if bracket then take (the (strchr CHR '']'' address)) address
                               else (case p of None \<Rightarrow> base | Some k \<Rightarrow> take k base),
                               None, map_option (\<lambda>k. drop (k + 1) base) p))
                 | Some m \<Rightarrow>
                     (let tail = drop (m + 1) base; p = strchr CHR '':'' tail
                      in Some (if bracket then take (the (strchr CHR '']'' address)) address else take m base,
                               Some (case p of None \<Rightarrow> tail | Some k \<Rightarrow> take k tail),
                               map_option (\<lambda>k. drop (k + 1) tail) p)))"

text \<open>The address part, with the flag \<^verbatim>\<open>any_flag\<close>.\<close>

definition parse_address_part :: "string \<Rightarrow> tapmp_flags \<Rightarrow> (tor_addr \<times> bool) parsed" where
  "parse_address_part address flags =
     (if address = ''*'' then
        Parsed (if TAPMP_EXTENDED_STAR flags then
                  (if TAPMP_STAR_IPV4_ONLY flags then AF_INET 0
                   else if TAPMP_STAR_IPV6_ONLY flags then AF_INET6 nil_bytes else AF_UNSPEC)
                else AF_INET 0, True)
      else if address = ''*4'' \<and> TAPMP_EXTENDED_STAR flags then Parsed (AF_INET 0, True)
      else if address = ''*6'' \<and> TAPMP_EXTENDED_STAR flags then Parsed (AF_INET6 nil_bytes, True)
      else (case tor_inet_pton 10 address of
              Parsed a \<Rightarrow> Parsed (a, False)
            | Aborted \<Rightarrow> Aborted
            | Rejected \<Rightarrow>
                (case tor_inet_pton 2 address of Parsed a \<Rightarrow> Parsed (a, False) | Rejected \<Rightarrow> Rejected | Aborted \<Rightarrow> Aborted)))"

text \<open>The conversion of a \<^verbatim>\<open>long\<close> to \<^verbatim>\<open>int\<close>.\<close>

definition int_of_long :: "int \<Rightarrow> int" where
  "int_of_long v = (v + 2 ^ 31) mod 2 ^ 32 - 2 ^ 31"

definition parse_mask_part :: "string option \<Rightarrow> tor_addr \<Rightarrow> bool \<Rightarrow> nat option" where
  "parse_mask_part mask_text addr any_flag =
     (case mask_text of
        Some m \<Rightarrow>
          (let (v, _, endptr) = strtol10 m; n = int_of_long v;
               is_v4 = (tor_addr_family addr = 2); is_v6 = (tor_addr_family addr = 10);
               bits = (if endptr = [] then
                         (if n < 0 \<or> n > 128 \<or> is_v4 \<and> n > 32 then None else Some (nat n))
                       else case tor_inet_aton m of None \<Rightarrow> None | Some v4mask \<Rightarrow> addr_mask_get_bits v4mask)
           in case bits of None \<Rightarrow> None
              | Some b \<Rightarrow>
                  if is_v6 \<and> tor_addr_is_v4 addr \<and> b > 32 \<and> b < 96 then None
                  else if any_flag then None
                  else Some (if is_v6 \<and> tor_addr_is_v4 addr then 96 + b mod 32 else b))
      | None \<Rightarrow>
          Some (if any_flag then 0
                else if tor_addr_family addr = 2 then 32
                else if tor_addr_family addr = 10 then 128 else 0))"

text \<open>
  The callers ask for the mask always, and for both ports or for none (\<open>want_ports\<close>). Without ports
  the range is reported as \<open>(0, 0)\<close>.
\<close>

definition tor_addr_parse_mask_ports :: "string \<Rightarrow> tapmp_flags \<Rightarrow> bool \<Rightarrow> (tor_addr \<times> nat \<times> nat \<times> nat) parsed" where
  "tor_addr_parse_mask_ports s flags want_ports =
     (if TAPMP_STAR_IPV4_ONLY flags \<and> TAPMP_STAR_IPV6_ONLY flags then Aborted
      else if length s > MAX_ADDRESS_LENGTH then Rejected
      else case split_pattern s of None \<Rightarrow> Rejected
      | Some (address, mask_text, port) \<Rightarrow>
          (case parse_address_part address flags of Aborted \<Rightarrow> Aborted | Rejected \<Rightarrow> Rejected
           | Parsed (addr, any_flag) \<Rightarrow>
               (case parse_mask_part mask_text addr any_flag of None \<Rightarrow> Rejected
                | Some bits \<Rightarrow>
                    if want_ports then
                      (case parse_port_range port of None \<Rightarrow> Rejected
                       | Some (lo, hi) \<Rightarrow> Parsed (addr, bits, lo, hi))
                    else if port \<noteq> None then Rejected else Parsed (addr, bits, 0, 0))))"

end
