(* ===== verification/Addr_Text_Correct.thy ===== *)
theory Addr_Text_Correct
  imports Addr_Text
begin

unbundle bit_operations_syntax

text \<open>
  Every address that \<^verbatim>\<open>tor_inet_ntop\<close> prints is read back by \<^verbatim>\<open>tor_inet_pton\<close>, also with compressed
  runs of zeroes and with a dotted tail, and what the pattern parser makes of masks and port ranges.
\<close>

section \<open>Hexadecimal numbers\<close>

lemma hex_digit_lower_value [simp]: "n < 16 \<Longrightarrow> hex_value (hex_digit_lower n) = Some n"
  by (auto simp: hex_value_def hex_digit_lower_def Let_def)

lemma hex_digit_lower_simps [simp]:
  "n < 16 \<Longrightarrow> hex_decode_digit (hex_digit_lower n) = int n" "n < 16 \<Longrightarrow> is_xdigit (hex_digit_lower n)"
  by (simp_all add: hex_decode_digit_def is_xdigit_def)

lemma show_hex_xdigits: "c \<in> set (show_hex n) \<Longrightarrow> is_xdigit c"
proof (induction n rule: show_hex.induct)
  case (1 n)
  then show ?case by (cases "n < 16") (auto simp: show_hex.simps [of n])
qed

lemma show_hex_nonempty [simp]: "show_hex n \<noteq> []"
  by (subst show_hex.simps) simp

lemma hex_val_show_hex [simp]: "hex_val (show_hex n) = int n"
proof (induction n rule: show_hex.induct)
  case (1 n)
  then show ?case by (cases "n < 16") (auto simp: show_hex.simps [of n] hex_val_def zdiv_int zmod_int)
qed

lemma length_show_hex: "n < 16 ^ k \<Longrightarrow> 0 < k \<Longrightarrow> length (show_hex n) \<le> k"
proof (induction k arbitrary: n)
  case (Suc k)
  show ?case
  proof (cases "n < 16")
    case True
    then show ?thesis by (simp add: show_hex.simps)
  next
    case False
    then have "0 < k" using Suc.prems by (cases k) auto
    moreover have "n div 16 < 16 ^ k" using Suc.prems(1) by (simp add: less_mult_imp_div_less mult.commute)
    ultimately have "length (show_hex (n div 16)) \<le> k" by (intro Suc.IH)
    then show ?thesis using False by (simp add: show_hex.simps [of n])
  qed
qed simp

lemma xdigit_simps [simp]: "\<not> is_xdigit CHR '':''" "\<not> is_xdigit CHR ''.''" "\<not> is_xdigit CHR ''x''" "\<not> is_xdigit CHR ''X''"
  by (simp_all add: is_xdigit_def hex_decode_digit_def hex_value_def)

lemma digit_xdigit: "is_digit c \<Longrightarrow> is_xdigit c"
  by (auto simp: is_digit_def is_xdigit_def hex_decode_digit_def hex_value_def)

lemma strtol16_show_hex:
  assumes "n < 65536" "r = [] \<or> hd r = CHR '':''"
  shows "strtol16 (show_hex n @ r) = (int n, length (show_hex n))"
proof -
  let ?s = "show_hex n @ r"
  have "?s ! 1 \<notin> {CHR ''x'', CHR ''X''}" if "length ?s > 2"
  proof (cases "length (show_hex n) > 1")
    case True
    then show ?thesis using show_hex_xdigits [of "show_hex n ! 1" n] by (auto simp: nth_append)
  next
    case False
    moreover have "0 < length (show_hex n)" by simp
    ultimately have "length (show_hex n) = 1" by linarith
    then have "?s ! 1 = hd r" using that by (cases r) (auto simp: nth_append)
    then show ?thesis using assms(2) that \<open>length (show_hex n) = 1\<close> by auto
  qed
  then have skip: "\<not> (length ?s > 2 \<and> ?s ! 0 = CHR ''0'' \<and> ?s ! 1 \<in> {CHR ''x'', CHR ''X''} \<and> is_xdigit (?s ! 2))" by blast
  have "takeWhile is_xdigit ?s = show_hex n"
    using assms(2) by (cases r) (auto simp: takeWhile_append2 show_hex_xdigits)
  then show ?thesis using assms(1) unfolding strtol16_def if_not_P [OF skip] by (simp add: LONG_MAX_def min_def)
qed

section \<open>The words of an address\<close>

lemma byte_bit: "bit (b :: byte) n \<Longrightarrow> n < 8"
  using bit_imp_le_length [of b n] by simp

lemma bytes_or: "push_bit 8 (ucast (a :: byte)) + ucast (b :: byte) = (push_bit 8 (ucast a) OR ucast b :: uint16)"
proof (rule disjunctive_add_eq_or)
  have "\<not> bit b n" if "8 \<le> n" for n using byte_bit [of b n] that by auto
  then show "push_bit 8 (ucast a) AND ucast b = (0 :: uint16)" by (intro bit_word_eqI) (auto simp: bit_simps)
qed

lemma word_bytes: "put_uint16 (push_bit 8 (ucast (a :: byte)) + ucast (b :: byte)) = [a, b]"
proof -
  have "\<not> bit b (8 + n)" for n using byte_bit [of b "8 + n"] by auto
  then show ?thesis unfolding bytes_or put_uint16_def by (auto intro!: bit_word_eqI simp: bit_simps)
qed

lemma length_addr_words [simp]: "length (addr_words bs) = 8"
  by (simp add: addr_words_def)

lemma concat_pairs: "concat (map (\<lambda>i. [f (2 * i), f (2 * i + 1)]) [0 ..< n]) = map f [0 ..< 2 * n]"
  by (induction n) simp_all

lemma words_bytes:
  assumes "length bs = 16"
  shows "concat (map put_uint16 (addr_words bs)) = bs"
proof -
  have "concat (map put_uint16 (addr_words bs)) = concat (map (\<lambda>i. [bs ! (2 * i), bs ! (2 * i + 1)]) [0 ..< 8])"
    unfolding addr_words_def map_map comp_def word_bytes ..
  also have "\<dots> = map ((!) bs) [0 ..< 16]" using concat_pairs [of "(!) bs" 8] by simp
  also have "\<dots> = bs" using assms map_nth [of bs] by simp
  finally show ?thesis .
qed

section \<open>Text of words\<close>

definition colon_words :: "uint16 list \<Rightarrow> string" where
  "colon_words ws = concat (map (\<lambda>w. show_hex (unat w) @ '':'') ws)"

definition word_list_text :: "uint16 list \<Rightarrow> string" where
  "word_list_text ws = (if ws = [] then [] else colon_words (butlast ws) @ show_hex (unat (last ws)))"

lemma colon_words_simps [simp]:
  "colon_words [] = []" "colon_words (w # ws) = show_hex (unat w) @ CHR '':'' # colon_words ws"
  "colon_words (us @ ws) = colon_words us @ colon_words ws"
  by (simp_all add: colon_words_def)

lemma pton_word_step:
  assumes "src = length p" "s = p @ show_hex (unat w) @ r" "src < eow" "i \<le> 7"
    and "r = [] \<and> eow = length s \<or> r \<noteq> [] \<and> hd r = CHR '':''"
  shows "pton_loop s eow src i g ws k =
         pton_loop s eow (src + length (show_hex (unat w)) + 1) (i + 1) g (ws[i := w]) (k + 1)"
proof -
  have w: "unat w < 65536" using unsigned_less [where ?'a = nat and w = w] by simp
  then have len: "length (show_hex (unat w)) \<le> 4" "0 < length (show_hex (unat w))"
    using length_show_hex [of "unat w" 4] by simp_all
  have nth: "s ! (src + j) = (show_hex (unat w) @ r) ! j" for j by (simp add: assms(1,2))
  have first: "is_xdigit (s ! src)" using nth [of 0] len(2) show_hex_xdigits [of "show_hex (unat w) ! 0" "unat w"] by (simp add: nth_append)
  have "drop src s = show_hex (unat w) @ r" "r = [] \<or> hd r = CHR '':''" using assms(1,2,5) by auto
  then have tol: "strtol16 (drop src s) = (int (unat w), length (show_hex (unat w)))" using strtol16_show_hex [OF w] by simp
  have "int (unat w) < 65536" using w by linarith
  then have wi: "uint w < 65536" by simp
  have second: "is_xdigit (s ! (src + 1))" if "length (show_hex (unat w)) > 1"
    using nth [of 1] that show_hex_xdigits [of "show_hex (unat w) ! 1" "unat w"] by (simp add: nth_append)
  have l: "(if src + length (show_hex (unat w)) = length s then eow - src else length (show_hex (unat w))) = length (show_hex (unat w))"
    using assms(1,2,5) by auto
  have "(src + length (show_hex (unat w)) < length s \<and> s ! (src + length (show_hex (unat w))) = CHR '':'') \<or>
      src + length (show_hex (unat w)) = eow"
    using assms(1,2,5) nth [of "length (show_hex (unat w))"] by (cases r) auto
  then show ?thesis
    using assms(3,4) first second len wi
    by (subst pton_loop.simps) (auto simp: tol l Let_def)
qed

lemma pton_colon_words:
  assumes "src = length p" "s = p @ colon_words us @ r" "length p + length (colon_words us) \<le> eow" "i + length us \<le> 8" "length ws = 8"
  shows "pton_loop s eow src i g ws k =
         pton_loop s eow (src + length (colon_words us)) (i + length us) g (take i ws @ us @ drop (i + length us) ws) (k + length us)"
  using assms
proof (induction us arbitrary: src p i ws k)
  case (Cons u us)
  have "pton_loop s eow src i g ws k =
        pton_loop s eow (src + length (show_hex (unat u)) + 1) (i + 1) g (ws[i := u]) (k + 1)"
    using Cons.prems by (intro pton_word_step [where p = p and r = "CHR '':'' # colon_words us @ r"]) auto
  also have "\<dots> = pton_loop s eow (src + length (show_hex (unat u)) + 1 + length (colon_words us)) (i + 1 + length us) g
      (take (i + 1) (ws[i := u]) @ us @ drop (i + 1 + length us) (ws[i := u])) (k + 1 + length us)"
    using Cons.prems by (intro Cons.IH [where p = "p @ show_hex (unat u) @ '':''"]) auto
  also have "take (i + 1) (ws[i := u]) @ us @ drop (i + 1 + length us) (ws[i := u]) =
      take i ws @ (u # us) @ drop (i + length (u # us)) ws"
    using Cons.prems by (simp add: take_Suc_conv_app_nth)
  finally show ?case by (simp add: add.commute add.left_commute)
qed simp

text \<open>The words at the end of the text.\<close>

lemma pton_last_words:
  assumes "s = p @ word_list_text us" "src = length p" "i + length us \<le> 8" "length ws = 8"
  shows "pton_loop s (length s) src i g ws k = Parsed (g, take i ws @ us @ drop (i + length us) ws, k + length us)"
proof (cases us rule: rev_cases)
  case Nil
  then show ?thesis using assms by (subst pton_loop.simps) (simp add: word_list_text_def)
next
  case (snoc vs v)
  define q where "q = src + length (colon_words vs)"
  define ws1 where "ws1 = take i ws @ vs @ drop (i + length vs) ws"
  have "pton_loop s (length s) src i g ws k = pton_loop s (length s) q (i + length vs) g ws1 (k + length vs)"
    unfolding q_def ws1_def using assms snoc
    by (intro pton_colon_words [where p = p and r = "show_hex (unat v)"]) (auto simp: word_list_text_def)
  also have "\<dots> = pton_loop s (length s) (q + length (show_hex (unat v)) + 1) (i + length vs + 1) g (ws1[i + length vs := v]) (k + length vs + 1)"
    using assms snoc
    by (intro pton_word_step [where p = "p @ colon_words vs" and r = "[]"]) (auto simp: word_list_text_def q_def)
  also have "\<dots> = Parsed (g, ws1[i + length vs := v], k + length vs + 1)"
    using assms snoc by (subst pton_loop.simps) (simp add: word_list_text_def q_def)
  also have "ws1[i + length vs := v] = take i ws @ us @ drop (i + length us) ws"
    using assms snoc by (simp add: ws1_def list_update_append upd_conv_take_nth_drop)
  finally show ?thesis using snoc by simp
qed

section \<open>The compressed run of zeroes\<close>

lemma takeWhile_zero_run: "takeWhile (\<lambda>v. v = 0) ws = replicate (length (takeWhile (\<lambda>v. v = 0) ws)) 0" for ws :: "uint16 list"
  by (induction ws) auto

lemma longest_gap_run:
  assumes "all = pre @ ws" "length pre = i"
    and "p = -1 \<and> n = 0 \<or> 0 \<le> p \<and> n = length (takeWhile (\<lambda>v. v = 0) (drop (nat p) all))"
    and "longest_gap ws i p n = (p', n')"
  shows "p' = -1 \<and> n' = 0 \<or> 0 \<le> p' \<and> n' = length (takeWhile (\<lambda>v. v = 0) (drop (nat p') all))"
  using assms
proof (induction ws i p n arbitrary: pre rule: longest_gap.induct)
  case (2 w ws i p n)
  show ?case
  proof (cases "w = 0")
    case True
    let ?z = "takeWhile (\<lambda>v. v = 0) ws"
    let ?r = "dropWhile (\<lambda>v. v = 0) ws"
    have shape: "all = (pre @ w # ?z) @ ?r" "length (pre @ w # ?z) = i + Suc (length ?z)" using 2(4,5) by simp_all
    have run: "Suc (length ?z) = length (takeWhile (\<lambda>v. v = 0) (drop (nat (int i)) all))" using 2(4,5) True by simp
    show ?thesis
    proof (cases "Suc (length ?z) > n")
      case long: True
      then have "longest_gap ?r (i + Suc (length ?z)) (int i) (Suc (length ?z)) = (p', n')" using 2(7) True by (simp add: Let_def)
      then show ?thesis using 2(1) [OF True refl refl long shape] run by simp
    next
      case False
      then have "longest_gap ?r (i + Suc (length ?z)) p n = (p', n')" using 2(7) True by (simp add: Let_def)
      then show ?thesis using 2(2) [OF True refl refl False shape 2(6)] by simp
    qed
  next
    case False
    then show ?thesis using 2(3) [OF False, of "pre @ [w]"] 2(4-7) by simp
  qed
qed simp

lemma ntop_no_gap:
  assumes "length ws + i = 8" "gap < int i"
  shows "ntop_words gap ws i = word_list_text ws"
  using assms
proof (induction ws arbitrary: i)
  case (Cons w ws)
  have "ntop_words gap ws (i + 1) = word_list_text ws" using Cons.prems by (intro Cons.IH) auto
  moreover have "i \<noteq> 7 \<longleftrightarrow> ws \<noteq> []" using Cons.prems(1) by (cases ws) auto
  moreover have "gap \<noteq> int i" using Cons.prems(2) by simp
  ultimately have "ntop_words gap (w # ws) i = show_hex (unat w) @ (if ws \<noteq> [] then '':'' else []) @ word_list_text ws"
    by (simp only: ntop_words.simps) simp
  then show ?case by (simp add: word_list_text_def)
qed (simp add: word_list_text_def)

lemma ntop_gap:
  assumes "length pre + i = g" "g + n + length post = 8" "0 < n" "post \<noteq> [] \<Longrightarrow> hd post \<noteq> 0"
  shows "ntop_words (int g) (pre @ replicate n 0 @ post) i =
         colon_words pre @ (if g = 0 then '':'' else []) @ '':'' @ word_list_text post"
  using assms
proof (induction pre arbitrary: i)
  case Nil
  obtain m where n: "n = Suc m" using assms(3) by (cases n) auto
  have "takeWhile (\<lambda>v. v = 0) (replicate m 0 @ post) = replicate m 0 \<and> dropWhile (\<lambda>v. v = 0) (replicate m 0 @ post) = post"
  proof (cases post)
    case (Cons v vs)
    then have "v \<noteq> 0" using assms(4) by simp
    then show ?thesis unfolding Cons by (induction m) simp_all
  qed (induction m, simp_all)
  moreover have "ntop_words (int g) post (g + 1 + m) = word_list_text post"
    using Nil.prems(1,2) n by (intro ntop_no_gap) simp_all
  ultimately show ?case using Nil.prems(1) n by simp
next
  case (Cons w pre)
  have ih: "ntop_words (int g) (pre @ replicate n 0 @ post) (i + 1) =
      colon_words pre @ (if g = 0 then '':'' else []) @ '':'' @ word_list_text post"
    using Cons.prems by (intro Cons.IH) auto
  have "int g \<noteq> int i" "i \<noteq> 7" using Cons.prems(1-3) by auto
  then show ?case by (simp only: append_Cons ntop_words.simps ih) simp
qed

lemma text_no_dot: "CHR ''.'' \<notin> set (colon_words ws)" "CHR ''.'' \<notin> set (word_list_text ws)"
proof -
  show c: "CHR ''.'' \<notin> set (colon_words ws)" for ws by (induction ws) (auto dest: show_hex_xdigits)
  show "CHR ''.'' \<notin> set (word_list_text ws)" using c by (auto simp: word_list_text_def dest: show_hex_xdigits)
qed

lemma strchr_None: "c \<notin> set s \<Longrightarrow> strchr c s = None"
  by (induction s) (auto simp: strchr_def Let_def)

lemma last_word_text: "us \<noteq> [] \<Longrightarrow> word_list_text us \<noteq> [] \<and> is_xdigit (last (word_list_text us))"
  using show_hex_xdigits [OF last_in_set [OF show_hex_nonempty]] by (simp add: word_list_text_def)

lemma pton_plain:
  assumes "length ws = 8"
  shows "pton_ipv6 (word_list_text ws) = Parsed (concat (map put_uint16 ws))"
proof -
  define s where "s = word_list_text ws"
  have ne: "s \<noteq> []" "is_xdigit (last s)" using last_word_text [of ws] assms unfolding s_def by fastforce+
  have "s ! (length s - 1) \<noteq> CHR '':''" using ne xdigit_simps(1) unfolding last_conv_nth [OF ne(1), symmetric] by metis
  moreover have "strchr CHR ''.'' s = None" unfolding s_def using text_no_dot by (intro strchr_None)
  moreover have "pton_loop s (length s) 0 0 None (replicate 8 0xf8f8) 0 = Parsed (None, ws, 8)"
    using pton_last_words [of s "[]" ws 0 0 "replicate 8 0xf8f8" None 0] assms by (simp add: s_def)
  ultimately show ?thesis unfolding pton_ipv6_def s_def [symmetric] by (simp add: pton_finish_def)
qed

lemma pton_gap:
  assumes "length pre = g" "g + n + length post = 8" "0 < n"
  shows "pton_ipv6 (colon_words pre @ (if g = 0 then '':'' else []) @ '':'' @ word_list_text post) =
         Parsed (concat (map put_uint16 (pre @ replicate n 0 @ post)))"
proof -
  define s where "s = colon_words pre @ (if g = 0 then '':'' else []) @ '':'' @ word_list_text post"
  define q where "q = length (colon_words pre) + (if g = 0 then 2 else 1)"
  define ws0 :: "uint16 list" where "ws0 = replicate 8 0xf8f8"
  define ws1 where "ws1 = pre @ drop g ws0"
  have nodot: "strchr CHR ''.'' s = None"
    unfolding s_def using text_no_dot by (intro strchr_None) auto
  have fin: "\<not> (length s > 2 \<and> s ! (length s - 1) = CHR '':'' \<and> s ! (length s - 2) \<noteq> CHR '':'')"
  proof (cases "post = []")
    case True
    show ?thesis
    proof (cases pre rule: rev_cases)
      case (snoc vs v)
      then show ?thesis using True assms(1) by (auto simp: s_def word_list_text_def nth_append)
    qed (use True assms(1) in \<open>simp add: s_def word_list_text_def\<close>)
  next
    case False
    then have "s \<noteq> []" "is_xdigit (last s)" using last_word_text [OF False] by (auto simp: s_def)
    then show ?thesis using last_conv_nth [of s] xdigit_simps(1) by metis
  qed
  have "pton_loop s (length s) 0 0 None ws0 0 = pton_loop s (length s) (length (colon_words pre)) g None ws1 g"
    using pton_colon_words [of 0 "[]" s pre "(if g = 0 then '':'' else []) @ '':'' @ word_list_text post" "length s" 0 ws0 None 0] assms
    by (simp add: s_def ws0_def ws1_def)
  also have "\<dots> = pton_loop s (length s) q g (Some g) ws1 g"
  proof (cases "g = 0")
    case True
    then show ?thesis using assms(1) by (subst pton_loop.simps) (auto simp: s_def q_def)
  next
    case False
    then show ?thesis using assms by (subst pton_loop.simps) (auto simp: s_def q_def nth_append)
  qed
  also have "\<dots> = Parsed (Some g, take g ws1 @ post @ drop (g + length post) ws1, g + length post)"
    using assms
    by (intro pton_last_words [where p = "colon_words pre @ (if g = 0 then '':'' else []) @ '':''"])
      (auto simp: s_def q_def ws1_def ws0_def)
  also have "take g ws1 @ post @ drop (g + length post) ws1 = pre @ post @ drop (g + length post) ws1"
    using assms(1) by (simp add: ws1_def)
  finally have loop: "pton_loop s (length s) 0 0 None ws0 0 = Parsed (Some g, pre @ post @ drop (g + length post) ws1, g + length post)" .
  have gap: "8 - (length pre + length post) = n" using assms by simp
  have "pton_finish False (pton_loop s (length s) 0 0 None ws0 0) = Parsed (concat (map put_uint16 (pre @ replicate n 0 @ post)))"
    using assms gap unfolding loop pton_finish_def by (auto simp: Let_def ws1_def ws0_def)
  then show ?thesis unfolding s_def [symmetric] pton_ipv6_def Let_def if_not_P [OF fin] nodot ws0_def by simp
qed

section \<open>Dotted tails\<close>

lemma colon_digit: "\<not> is_digit CHR '':''"
  by (simp add: is_digit_def)

lemma pton_eow_digits:
  assumes "k < length p" "\<not> is_digit (p ! k)" "k = length p - 1" "\<forall>c \<in> set ds. is_digit c"
  shows "pton_eow (p @ ds @ r) (k + length ds) = k"
proof -
  have "pton_eow (p @ ds @ r) (k + j) = k" if "j \<le> length ds" for j
    using that
  proof (induction j)
    case 0
    then show ?case using assms(1,2) by (cases k) (auto simp: nth_append)
  next
    case (Suc j)
    have "(p @ ds @ r) ! Suc (k + j) = ds ! j" using assms(1,3) Suc.prems by (auto simp: nth_append)
    then have "is_digit ((p @ ds @ r) ! Suc (k + j))" using assms(4) Suc.prems by simp
    then show ?case using Suc by simp
  qed
  then show ?thesis by simp
qed

lemma strchr_dot:
  assumes "CHR ''.'' \<notin> set p"
  shows "strchr CHR ''.'' (p @ CHR ''.'' # r) = Some (length p)"
proof -
  have "takeWhile (\<lambda>d. d \<noteq> CHR ''.'') (p @ CHR ''.'' # r) = p" using assms by (subst takeWhile_append2) auto
  then show ?thesis by (simp add: strchr_def)
qed

text \<open>The prefix \<open>p\<close> ends in a colon; the dotted tail gives the last two words.\<close>

lemma pton_dotted_tail:
  assumes "p = q @ '':''" "CHR ''.'' \<notin> set p" "length bs = 16"
  shows "pton_ipv6 (p @ dotted_tail bs) =
         pton_finish True (pton_loop (p @ dotted_tail bs) (length p) 0 0 None
           (replicate 6 0xf8f8 @ [addr_words bs ! 6, addr_words bs ! 7]) 2)"
proof -
  let ?o = "\<lambda>i. show_nat (unat (bs ! i))"
  define r where "r = ?o 13 @ ''.'' @ ?o 14 @ ''.'' @ ?o 15"
  define s where "s = p @ dotted_tail bs"
  have s: "s = (p @ ?o 12) @ CHR ''.'' # r" "s = p @ ?o 12 @ CHR ''.'' # r" by (simp_all add: s_def dotted_tail_def r_def)
  have "CHR ''.'' \<notin> set (?o 12)" using show_nat_digits [of "CHR ''.''" "unat (bs ! 12)"] by (auto simp: is_digit_def)
  then have dot: "strchr CHR ''.'' s = Some (length p + length (?o 12))"
    unfolding s(1) using assms(2) by (subst strchr_dot) auto
  have pos: "length p + length (?o 12) - 1 = (length p - 1) + length (?o 12)" "0 < length p" using assms(1) by simp_all
  have eow: "pton_eow s (length p + length (?o 12) - 1) = length p - 1"
    unfolding pos(1) s(2) using assms(1) by (intro pton_eow_digits) (auto simp: colon_digit)
  have lt: "unat (b :: byte) < 256" for b using unsigned_less [where ?'a = nat and w = b] by simp
  have scan: "tor_sscanf (drop (length p) s) ''%3u.%3u.%3u.%3u%c'' =
      Some (4, [UVal (int (unat (bs ! 12))), UVal (int (unat (bs ! 13))), UVal (int (unat (bs ! 14))), UVal (int (unat (bs ! 15)))])"
    unfolding s_def dotted_tail_def using inet_sscanf [OF lt lt lt lt] by simp
  have "is_digit (last s)" unfolding s_def dotted_tail_def using show_nat_digits [OF last_in_set [OF show_nat_nonempty]] by simp
  then have "last s \<noteq> CHR '':''" by (auto simp: is_digit_def)
  moreover have "s \<noteq> []" using s(1) by simp
  ultimately have "s ! (length s - 1) \<noteq> CHR '':''" by (simp add: last_conv_nth)
  then have fin: "\<not> (length s > 2 \<and> s ! (length s - 1) = CHR '':'' \<and> s ! (length s - 2) \<noteq> CHR '':'')" by blast
  have colon: "s ! (length p - 1) = CHR '':''" using assms(1) by (simp add: s_def nth_append)
  have le: "\<not> int (unat (b :: byte)) > 255" for b using lt [of b] by linarith
  have ws: "(replicate 8 (0xf8f8 :: uint16))[6 := v, 7 := w] = replicate 6 0xf8f8 @ [v, w]" for v w
    by (simp add: eval_nat_numeral)
  have aw: "addr_words bs ! 6 = push_bit 8 (ucast (bs ! 12)) + ucast (bs ! 13)"
    "addr_words bs ! 7 = push_bit 8 (ucast (bs ! 14)) + ucast (bs ! 15)"
    by (simp_all add: addr_words_def)
  have "pton_dotted s (length p) = pton_finish True (pton_loop s (length p) 0 0 None
           (replicate 6 0xf8f8 @ [addr_words bs ! 6, addr_words bs ! 7]) 2)"
    using le unfolding pton_dotted_def scan aw by (simp add: bytes_or ws)
  then show ?thesis
    unfolding s_def [symmetric] pton_ipv6_def Let_def if_not_P [OF fin] dot using eow colon pos by simp
qed

lemma pton_mapped:
  assumes "length bs = 16" "w \<noteq> 0"
  shows "pton_ipv6 (''::'' @ dotted_tail bs) = Parsed (concat (map put_uint16 (replicate 6 0 @ [addr_words bs ! 6, addr_words bs ! 7])))"
    and "pton_ipv6 ((''::'' @ show_hex (unat w) @ '':'') @ dotted_tail bs) =
         Parsed (concat (map put_uint16 (replicate 5 0 @ [w, addr_words bs ! 6, addr_words bs ! 7])))"
proof -
  define ws where "ws = replicate 6 0xf8f8 @ [addr_words bs ! 6, addr_words bs ! 7]"
  have "pton_loop (''::'' @ dotted_tail bs) 2 0 0 None ws 2 = Parsed (Some 0, ws, 2)"
    by (subst pton_loop.simps, simp, subst pton_loop.simps, simp)
  then show "pton_ipv6 (''::'' @ dotted_tail bs) = Parsed (concat (map put_uint16 (replicate 6 0 @ [addr_words bs ! 6, addr_words bs ! 7])))"
    using pton_dotted_tail [of "''::''" "'':''" bs] assms(1) unfolding ws_def by (simp add: pton_finish_def eval_nat_numeral)
next
  define ws where "ws = replicate 6 0xf8f8 @ [addr_words bs ! 6, addr_words bs ! 7]"
  define p where "p = ''::'' @ show_hex (unat w) @ '':''"
  have nodot: "CHR ''.'' \<notin> set p" by (auto simp: p_def dest: show_hex_xdigits)
  have len: "length p = 2 + length (show_hex (unat w)) + 1" "2 < length p" by (simp_all add: p_def)
  have "pton_loop (p @ dotted_tail bs) (length p) 0 0 None ws 2 = pton_loop (p @ dotted_tail bs) (length p) 2 0 (Some 0) ws 2"
    using len(2) by (subst pton_loop.simps) (simp add: p_def numeral_2_eq_2)
  also have "\<dots> = pton_loop (p @ dotted_tail bs) (length p) (2 + length (show_hex (unat w)) + 1) (0 + 1) (Some 0) (ws[0 := w]) (2 + 1)"
    using len(2) by (intro pton_word_step [where p = "''::''" and r = "CHR '':'' # dotted_tail bs"]) (auto simp: p_def)
  also have "\<dots> = Parsed (Some 0, ws[0 := w], 3)" unfolding len(1) [symmetric] by (subst pton_loop.simps) simp
  finally show "pton_ipv6 ((''::'' @ show_hex (unat w) @ '':'') @ dotted_tail bs) =
      Parsed (concat (map put_uint16 (replicate 5 0 @ [w, addr_words bs ! 6, addr_words bs ! 7])))"
    using pton_dotted_tail [of p "''::'' @ show_hex (unat w)" bs] assms(1) nodot unfolding p_def [symmetric] ws_def
    by (simp add: p_def pton_finish_def eval_nat_numeral)
qed

lemma words_eta:
  assumes "length ws = 8"
  shows "ws = [ws ! 0, ws ! 1, ws ! 2, ws ! 3, ws ! 4, ws ! 5, ws ! 6, ws ! 7]"
  using assms by (intro nth_equalityI) (auto simp: less_Suc_eq numeral_eq_Suc)

lemma gap_split:
  assumes "longest_gap ws 0 (-1) 0 = (p, n)" "length ws = 8" "1 < n"
  obtains pre post where "ws = pre @ replicate n 0 @ post" "p = int (length pre)" "post \<noteq> [] \<Longrightarrow> hd post \<noteq> 0"
proof
  let ?P = "\<lambda>v :: uint16. v = 0"
  have run: "0 \<le> p" "n = length (takeWhile ?P (drop (nat p) ws))"
    using longest_gap_run [of ws "[]" ws 0 "-1" 0 p n] assms by auto
  then have le: "nat p \<le> length ws" using assms(3) by (cases "nat p \<le> length ws") auto
  show "ws = take (nat p) ws @ replicate n 0 @ dropWhile ?P (drop (nat p) ws)"
    using takeWhile_zero_run [of "drop (nat p) ws"] run(2) by (metis append_take_drop_id takeWhile_dropWhile_id)
  show "p = int (length (take (nat p) ws))" using le run(1) by simp
  show "dropWhile ?P (drop (nat p) ws) \<noteq> [] \<Longrightarrow> hd (dropWhile ?P (drop (nat p) ws)) \<noteq> 0" by (rule hd_dropWhile)
qed

lemma length_word_text: "length (colon_words ws) \<le> 5 * length ws" "length (word_list_text ws) \<le> 5 * length ws"
proof -
  have hex: "length (show_hex (unat w)) \<le> 4" for w :: uint16
    using length_show_hex [of "unat w" 4] unsigned_less [where ?'a = nat and w = w] by simp
  show c: "length (colon_words ws) \<le> 5 * length ws" for ws
  proof (induction ws)
    case (Cons w ws)
    then show ?case using hex [of w] by simp
  qed simp
  show "length (word_list_text ws) \<le> 5 * length ws"
    using c [of "butlast ws"] hex [of "last ws"] by (cases ws rule: rev_cases) (auto simp: word_list_text_def)
qed

lemma length_dotted_tail: "length (dotted_tail bs) \<le> 15"
proof -
  have "length (show_nat (unat b)) \<le> 3" for b :: byte
  proof (rule length_show_nat)
    have "unat b < 256" using unsigned_less [where ?'a = nat and w = b] by simp
    then have "unat b < 1000" by linarith
    then show "unat b < 10 ^ 3" by simp
  qed simp
  from this [of "bs ! 12"] this [of "bs ! 13"] this [of "bs ! 14"] this [of "bs ! 15"] show ?thesis by (simp add: dotted_tail_def)
qed

lemma pton_ntop_ipv6:
  assumes "length bs = 16"
  shows "pton_ipv6 (ntop_ipv6 bs) = Parsed bs \<and> length (ntop_ipv6 bs) < 48"
proof -
  define ws where "ws = addr_words bs"
  have ws: "length ws = 8" "concat (map put_uint16 ws) = bs" using words_bytes [OF assms] by (simp_all add: ws_def)
  show ?thesis
  proof (cases "ws ! 0 = 0 \<and> ws ! 1 = 0 \<and> ws ! 2 = 0 \<and> ws ! 3 = 0 \<and> ws ! 4 = 0 \<and>
      (ws ! 5 = 0 \<and> ws ! 6 \<noteq> 0 \<and> ws ! 7 \<noteq> 0 \<or> ws ! 5 = 0xffff)")
    case True
    then have shown: "ntop_ipv6 bs = (if ws ! 5 = 0 then ''::'' @ dotted_tail bs
        else (''::'' @ show_hex (unat (ws ! 5)) @ '':'') @ dotted_tail bs)"
      unfolding ntop_ipv6_def ws_def [symmetric] by simp
    have eta: "ws = replicate 5 0 @ [ws ! 5, ws ! 6, ws ! 7]" using words_eta [OF ws(1)] True by (simp add: eval_nat_numeral)
    show ?thesis
    proof (cases "ws ! 5 = 0")
      case zero: True
      then have "replicate 6 0 @ [ws ! 6, ws ! 7] = ws" using eta by (simp add: eval_nat_numeral)
      then show ?thesis using shown zero pton_mapped(1) [OF assms, of 1] ws(2) length_dotted_tail [of bs] unfolding ws_def [symmetric] by simp
    next
      case False
      moreover have "length (show_hex (unat (ws ! 5))) \<le> 4"
        using length_show_hex [of "unat (ws ! 5)" 4] unsigned_less [where ?'a = nat and w = "ws ! 5"] by simp
      ultimately show ?thesis
        using shown pton_mapped(2) [OF assms False] ws(2) eta length_dotted_tail [of bs] unfolding ws_def [symmetric] by simp
    qed
  next
    case False
    obtain p n where pn: "longest_gap ws 0 (-1) 0 = (p, n)" by force
    have shown: "ntop_ipv6 bs = ntop_words (if n \<le> 1 then -1 else p) ws 0"
      unfolding ntop_ipv6_def ws_def [symmetric] Let_def if_not_P [OF False] pn by simp
    show ?thesis
    proof (cases "n \<le> 1")
      case True
      then have "ntop_ipv6 bs = word_list_text ws" using ntop_no_gap [of ws 0 "-1"] ws(1) shown by simp
      then show ?thesis using pton_plain [OF ws(1)] ws length_word_text(2) [of ws] by simp
    next
      case gap: False
      then have "1 < n" by simp
      then obtain pre post where split: "ws = pre @ replicate n 0 @ post" "p = int (length pre)" "post \<noteq> [] \<Longrightarrow> hd post \<noteq> 0"
        using gap_split [OF pn ws(1)] by blast
      then have l: "length pre + n + length post = 8" using ws(1) by simp
      have "ntop_ipv6 bs = colon_words pre @ (if length pre = 0 then '':'' else []) @ '':'' @ word_list_text post"
        using ntop_gap [of pre 0 "length pre" n post] shown gap split l by simp
      then show ?thesis
        using pton_gap [of pre "length pre" n post] gap l ws(2) split(1) length_word_text(1) [of pre] length_word_text(2) [of post] by simp
    qed
  qed
qed

lemma length_ntoa: "length (tor_inet_ntoa v) \<le> 15"
proof -
  have "length (show_nat (unat v div 2 ^ k mod 256)) \<le> 3" for k
    using length_show_nat [of "unat v div 2 ^ k mod 256" 3] by simp
  from this [of 24] this [of 16] this [of 8] this [of 0] show ?thesis by (simp add: tor_inet_ntoa_def)
qed

text \<open>
  C39. Every IPv4 and IPv6 address is printed into a buffer of at least 48 bytes (the code's
  \<^verbatim>\<open>TOR_ADDR_BUF_LEN\<close>), and the text is parsed back to the same address, whichever run of
  zeroes was compressed and whether or not the tail is dotted.
\<close>

theorem inet_text_roundtrip:
  assumes "addr_ok a" "a \<noteq> AF_UNSPEC" "48 \<le> len"
  shows "\<exists>s. tor_inet_ntop a len = Some s \<and> tor_inet_pton (tor_addr_family a) s = Parsed a"
proof (cases a)
  case (AF_INET v)
  have "length (tor_inet_ntoa v) < 48" using length_ntoa [of v] by simp
  then show ?thesis using AF_INET assms(3) by (simp add: tor_inet_pton_def inet_aton_ntoa)
next
  case (AF_INET6 bs)
  then show ?thesis using pton_ntop_ipv6 [of bs] assms by (simp add: tor_inet_pton_def)
qed (use assms in auto)

theorem inet_text_roundtrip_witness:
  "\<exists>s. tor_inet_ntop (AF_INET6 (0x20 # 1 # replicate 13 0 @ [7])) 48 = Some s \<and>
       tor_inet_pton 10 s = Parsed (AF_INET6 (0x20 # 1 # replicate 13 0 @ [7]))"
  using inet_text_roundtrip [of "AF_INET6 (0x20 # 1 # replicate 13 0 @ [7])" 48] by simp

end
