(* ===== verification/Policies.thy ===== *)
theory Policies
  imports Addr_Text_Correct Parsecommon "HOL-Library.Monad_Syntax"
begin

unbundle bit_operations_syntax

text \<open>
  Exit policies (\<^verbatim>\<open>core/or/policies.c\<close>, \<^verbatim>\<open>feature/dirparse/policy_parse.c\<close>): reading an entry, matching an
  address and a port, removal of redundant entries, and the summaries of policies that clients use.
  Ports are numbers below 65536, with the wrap-around of \<^verbatim>\<open>uint16_t\<close> written out. The fields
  \<^verbatim>\<open>refcnt\<close> and \<^verbatim>\<open>is_canonical\<close> of an entry, which only manage its memory, are left out.
  \<open>None\<close> is a failed assertion unless said otherwise.
\<close>

section \<open>Entries\<close>

datatype addr_policy_action = ADDR_POLICY_ACCEPT | ADDR_POLICY_REJECT

record addr_policy =
  policy_type :: addr_policy_action
  is_private :: bool
  maskbits :: nat
  paddr :: tor_addr
  prt_min :: nat
  prt_max :: nat

datatype addr_policy_result =
    ADDR_POLICY_ACCEPTED | ADDR_POLICY_REJECTED | ADDR_POLICY_PROBABLY_ACCEPTED | ADDR_POLICY_PROBABLY_REJECTED

definition private_nets :: "string list" where
  "private_nets =
     [''0.0.0.0/8'', ''169.254.0.0/16'', ''127.0.0.0/8'', ''192.168.0.0/16'', ''10.0.0.0/8'', ''172.16.0.0/12'',
      ''[::]/8'', ''[fc00::]/7'', ''[fe80::]/10'', ''[fec0::]/10'', ''[ff00::]/8'', ''[::]/127'']"

definition expand_private_item :: "addr_policy \<Rightarrow> addr_policy list option" where
  "expand_private_item p =
     (if \<not> is_private p then Some [p]
      else those (map (\<lambda>net. case tor_addr_parse_mask_ports net no_tapmp True of
                               Parsed (a, m, _, _) \<Rightarrow> Some (p\<lparr>is_private := False, maskbits := m, paddr := a\<rparr>)
                             | _ \<Rightarrow> None) private_nets))"

definition policy_expand_private :: "addr_policy list \<Rightarrow> addr_policy list option" where
  "policy_expand_private policy = map_option concat (those (map expand_private_item policy))"

definition expand_unspec_item :: "addr_policy \<Rightarrow> addr_policy list" where
  "expand_unspec_item p =
     (if tor_addr_family (paddr p) = 10 \<or> tor_addr_family (paddr p) = 2 \<or> is_private p then [p]
      else if tor_addr_family (paddr p) = 0 then
        [p\<lparr>maskbits := 0, paddr := AF_INET 0\<rparr>, p\<lparr>maskbits := 0, paddr := AF_INET6 nil_bytes\<rparr>]
      else [p])"

definition policy_expand_unspec :: "addr_policy list \<Rightarrow> addr_policy list" where
  "policy_expand_unspec policy = concat (map expand_unspec_item policy)"

section \<open>Reading an entry\<close>

definition token_action :: "directory_keyword \<Rightarrow> addr_policy_action" where
  "token_action k = (if k = K_REJECT \<or> k = K_REJECT6 then ADDR_POLICY_REJECT else ADDR_POLICY_ACCEPT)"

definition policy_keyword :: "directory_keyword \<Rightarrow> bool" where
  "policy_keyword k \<longleftrightarrow> k = K_REJECT \<or> k = K_REJECT6 \<or> k = K_ACCEPT \<or> k = K_ACCEPT6"

definition router_parse_addr_policy_private :: "'k directory_token \<Rightarrow> addr_policy parsed" where
  "router_parse_addr_policy_private tok =
     (let arg = args tok ! 0
      in if \<not> starts_with arg ''private'' then Rejected
         else let rest = eat_whitespace (drop 7 arg)
              in if rest = [] \<or> hd rest \<noteq> CHR '':'' then Rejected
                 else (case parse_port_range (Some (tl rest)) of
                         None \<Rightarrow> Rejected
                       | Some (lo, hi) \<Rightarrow>
                           Parsed \<lparr>policy_type = token_action (tp tok), is_private = True, maskbits = 0,
                                   paddr = AF_UNSPEC, prt_min = lo, prt_max = hi\<rparr>))"

definition router_parse_addr_policy :: "'k directory_token \<Rightarrow> tapmp_flags \<Rightarrow> addr_policy parsed" where
  "router_parse_addr_policy tok fmt_flags =
     (if \<not> policy_keyword (tp tok) then Aborted
      else if length (args tok) \<noteq> 1 then Rejected
      else let arg = args tok ! 0
           in if starts_with arg ''private'' then router_parse_addr_policy_private tok
              else let flags = (if TAPMP_EXTENDED_STAR fmt_flags \<and> (tp tok = K_ACCEPT6 \<or> tp tok = K_REJECT6)
                                then fmt_flags\<lparr>TAPMP_STAR_IPV6_ONLY := True\<rparr> else fmt_flags)
                   in (case tor_addr_parse_mask_ports arg flags True of
                         Parsed (a, m, lo, hi) \<Rightarrow>
                           Parsed \<lparr>policy_type = token_action (tp tok), is_private = False, maskbits = m,
                                   paddr = a, prt_min = lo, prt_max = hi\<rparr>
                       | Rejected \<Rightarrow> Rejected | Aborted \<Rightarrow> Aborted))"

text \<open>An entry of a descriptor: the keyword must fit the family of the address.\<close>

definition router_add_exit_policy :: "addr_policy list \<Rightarrow> 'k directory_token \<Rightarrow> addr_policy list parsed" where
  "router_add_exit_policy exit_policy tok =
     (case router_parse_addr_policy tok no_tapmp of
        Rejected \<Rightarrow> Rejected | Aborted \<Rightarrow> Aborted
      | Parsed newe \<Rightarrow>
          if (tp tok = K_ACCEPT6 \<or> tp tok = K_REJECT6) \<and> tor_addr_family (paddr newe) = 2 \<or>
             (tp tok = K_ACCEPT \<or> tp tok = K_REJECT) \<and> tor_addr_family (paddr newe) = 10
          then Rejected else Parsed (exit_policy @ [newe]))"

text \<open>
  The policy of a descriptor, as \<^verbatim>\<open>router_parse_entry_from_string\<close> makes it from the tokens: every entry has
  to be accepted, then the entries for \<^verbatim>\<open>private\<close> are expanded.
\<close>

definition find_all_exitpolicy :: "'k directory_token list \<Rightarrow> 'k directory_token list" where
  "find_all_exitpolicy tokens = filter (\<lambda>t. policy_keyword (tp t)) tokens"

fun add_exit_policies :: "addr_policy list \<Rightarrow> 'k directory_token list \<Rightarrow> addr_policy list parsed" where
  "add_exit_policies exit_policy [] = Parsed exit_policy"
| "add_exit_policies exit_policy (t # ts) =
     (case router_add_exit_policy exit_policy t of
        Parsed exit_policy' \<Rightarrow> add_exit_policies exit_policy' ts
      | Rejected \<Rightarrow> Rejected | Aborted \<Rightarrow> Aborted)"

definition descriptor_exit_policy :: "'k directory_token list \<Rightarrow> addr_policy list parsed" where
  "descriptor_exit_policy tokens =
     (let exit_policy_tokens = find_all_exitpolicy tokens
      in if exit_policy_tokens = [] then Rejected
         else case add_exit_policies [] exit_policy_tokens of
                Parsed exit_policy \<Rightarrow>
                  (case policy_expand_private exit_policy of None \<Rightarrow> Aborted | Some expanded \<Rightarrow> Parsed expanded)
              | Rejected \<Rightarrow> Rejected | Aborted \<Rightarrow> Aborted)"

section \<open>Matching\<close>

definition addr_matches :: "tor_addr \<Rightarrow> addr_policy \<Rightarrow> bool" where
  "addr_matches a p \<longleftrightarrow> tor_addr_compare_masked a (paddr p) (maskbits p) CMP_EXACT = 0"

fun compare_known_tor_addr_to_addr_policy :: "tor_addr \<Rightarrow> nat \<Rightarrow> addr_policy list \<Rightarrow> addr_policy_result" where
  "compare_known_tor_addr_to_addr_policy a port [] = ADDR_POLICY_ACCEPTED"
| "compare_known_tor_addr_to_addr_policy a port (tmpe # policy) =
     (if addr_matches a tmpe \<and> port \<ge> prt_min tmpe \<and> port \<le> prt_max tmpe then
        (if policy_type tmpe = ADDR_POLICY_ACCEPT then ADDR_POLICY_ACCEPTED else ADDR_POLICY_REJECTED)
      else compare_known_tor_addr_to_addr_policy a port policy)"

text \<open>The end of the two loops that keep track of entries that may match.\<close>

definition uncertain_result :: "addr_policy_action \<Rightarrow> bool \<Rightarrow> bool \<Rightarrow> addr_policy_result" where
  "uncertain_result action maybe_accept maybe_reject =
     (if action = ADDR_POLICY_ACCEPT then
        (if maybe_reject then ADDR_POLICY_PROBABLY_ACCEPTED else ADDR_POLICY_ACCEPTED)
      else (if maybe_accept then ADDR_POLICY_PROBABLY_REJECTED else ADDR_POLICY_REJECTED))"

fun known_noport_loop :: "tor_addr \<Rightarrow> bool \<Rightarrow> bool \<Rightarrow> addr_policy list \<Rightarrow> addr_policy_result" where
  "known_noport_loop a maybe_accept maybe_reject [] =
     (if maybe_reject then ADDR_POLICY_PROBABLY_ACCEPTED else ADDR_POLICY_ACCEPTED)"
| "known_noport_loop a maybe_accept maybe_reject (tmpe # policy) =
     (if addr_matches a tmpe then
        (if prt_min tmpe \<le> 1 \<and> prt_max tmpe \<ge> 65535 then uncertain_result (policy_type tmpe) maybe_accept maybe_reject
         else if policy_type tmpe = ADDR_POLICY_REJECT then known_noport_loop a maybe_accept True policy
         else known_noport_loop a True maybe_reject policy)
      else known_noport_loop a maybe_accept maybe_reject policy)"

definition compare_known_tor_addr_to_addr_policy_noport :: "tor_addr \<Rightarrow> addr_policy list \<Rightarrow> addr_policy_result" where
  "compare_known_tor_addr_to_addr_policy_noport a policy = known_noport_loop a False False policy"

fun unknown_loop :: "nat \<Rightarrow> bool \<Rightarrow> bool \<Rightarrow> addr_policy list \<Rightarrow> addr_policy_result" where
  "unknown_loop port maybe_accept maybe_reject [] =
     (if maybe_reject then ADDR_POLICY_PROBABLY_ACCEPTED else ADDR_POLICY_ACCEPTED)"
| "unknown_loop port maybe_accept maybe_reject (tmpe # policy) =
     (if prt_min tmpe \<le> port \<and> port \<le> prt_max tmpe then
        (if maskbits tmpe = 0 then uncertain_result (policy_type tmpe) maybe_accept maybe_reject
         else if policy_type tmpe = ADDR_POLICY_REJECT then unknown_loop port maybe_accept True policy
         else unknown_loop port True maybe_reject policy)
      else unknown_loop port maybe_accept maybe_reject policy)"

definition compare_unknown_tor_addr_to_addr_policy :: "nat \<Rightarrow> addr_policy list \<Rightarrow> addr_policy_result" where
  "compare_unknown_tor_addr_to_addr_policy port policy = unknown_loop port False False policy"

text \<open>A missing policy or address is \<open>None\<close>.\<close>

definition compare_tor_addr_to_addr_policy :: "tor_addr option \<Rightarrow> nat \<Rightarrow> addr_policy list option \<Rightarrow> addr_policy_result" where
  "compare_tor_addr_to_addr_policy addr_opt port policy_opt =
     (case policy_opt of
        None \<Rightarrow> ADDR_POLICY_ACCEPTED
      | Some policy \<Rightarrow>
          (if addr_opt = None \<or> tor_addr_is_null (the addr_opt) then
             (if port = 0 then ADDR_POLICY_REJECTED else compare_unknown_tor_addr_to_addr_policy port policy)
           else if port = 0 then compare_known_tor_addr_to_addr_policy_noport (the addr_opt) policy
           else compare_known_tor_addr_to_addr_policy (the addr_opt) port policy))"

definition addr_policy_permits_tor_addr :: "tor_addr \<Rightarrow> nat \<Rightarrow> addr_policy list option \<Rightarrow> bool" where
  "addr_policy_permits_tor_addr a port policy =
     (case compare_tor_addr_to_addr_policy (Some a) port policy of
        ADDR_POLICY_PROBABLY_ACCEPTED \<Rightarrow> True | ADDR_POLICY_ACCEPTED \<Rightarrow> True
      | ADDR_POLICY_PROBABLY_REJECTED \<Rightarrow> False | ADDR_POLICY_REJECTED \<Rightarrow> False)"

text \<open>The options enter as flags: client mode, \<^verbatim>\<open>ClientUseIPv4\<close> and \<^verbatim>\<open>reachable_addr_use_ipv6\<close>.\<close>

definition reachable_addr_allows ::
  "bool \<Rightarrow> bool \<Rightarrow> bool \<Rightarrow> tor_addr option \<Rightarrow> nat \<Rightarrow> addr_policy list option \<Rightarrow> bool \<Rightarrow> bool \<Rightarrow> bool" where
  "reachable_addr_allows client_mode use_ipv4 use_ipv6 addr_opt port firewall_policy pref_only pref_ipv6 =
     (case addr_opt of
        None \<Rightarrow> False
      | Some a \<Rightarrow>
          (if tor_addr_is_null a \<or> port = 0 then False
           else if tor_addr_family a = 2 \<and> client_mode \<and> (\<not> use_ipv4 \<or> pref_only \<and> pref_ipv6) then False
           else if tor_addr_family a = 10 \<and> (\<not> use_ipv6 \<or> pref_only \<and> \<not> pref_ipv6) then False
           else addr_policy_permits_tor_addr a port firewall_policy))"

definition policy_is_reject_star :: "addr_policy list option \<Rightarrow> nat \<Rightarrow> bool \<Rightarrow> bool" where
  "policy_is_reject_star policy_opt family default_reject =
     (let fits = (\<lambda>p. tor_addr_family (paddr p) = family \<or> tor_addr_family (paddr p) = 0)
      in case find (\<lambda>p. fits p \<and> (policy_type p = ADDR_POLICY_ACCEPT \<or>
                          prt_min p \<le> 1 \<and> prt_max p = 65535 \<and> maskbits p = 0))
                (case policy_opt of None \<Rightarrow> [] | Some policy \<Rightarrow> policy) of
           None \<Rightarrow> default_reject
         | Some p \<Rightarrow> policy_type p = ADDR_POLICY_REJECT)"

section \<open>Equality and redundancy\<close>

definition single_addr_policy_eq :: "addr_policy \<Rightarrow> addr_policy \<Rightarrow> bool" where
  "single_addr_policy_eq a b \<longleftrightarrow>
     policy_type a = policy_type b \<and> is_private a = is_private b \<and>
     tor_addr_compare (paddr a) (paddr b) CMP_EXACT = 0 \<and>
     maskbits a = maskbits b \<and> prt_min a = prt_min b \<and> prt_max a = prt_max b"

definition addr_policies_eq :: "addr_policy list option \<Rightarrow> addr_policy list option \<Rightarrow> bool" where
  "addr_policies_eq a b =
     (let xs = (case a of None \<Rightarrow> [] | Some l \<Rightarrow> l); ys = (case b of None \<Rightarrow> [] | Some l \<Rightarrow> l)
      in length xs = length ys \<and> list_all2 single_addr_policy_eq xs ys)"

definition addr_policy_covers :: "addr_policy \<Rightarrow> addr_policy \<Rightarrow> bool" where
  "addr_policy_covers a b \<longleftrightarrow>
     tor_addr_family (paddr a) = tor_addr_family (paddr b) \<and> \<not> maskbits a > maskbits b \<and>
     tor_addr_compare_masked (paddr a) (paddr b) (maskbits a) CMP_EXACT = 0 \<and>
     prt_min a \<le> prt_min b \<and> prt_max a \<ge> prt_max b"

definition addr_policy_intersects :: "addr_policy \<Rightarrow> addr_policy \<Rightarrow> bool" where
  "addr_policy_intersects a b \<longleftrightarrow>
     (let minbits = (if maskbits a < maskbits b then maskbits a else maskbits b)
      in tor_addr_compare_masked (paddr a) (paddr b) minbits CMP_EXACT = 0 \<and>
         \<not> (prt_max a < prt_min b \<or> prt_max b < prt_min a))"

text \<open>
  The three passes of \<^verbatim>\<open>exit_policy_remove_redundancies\<close>. A pass that deletes the entry at its index and
  steps back is a recursion that drops the entry.
\<close>

fun kill_after_catch_all :: "bool \<Rightarrow> bool \<Rightarrow> addr_policy list \<Rightarrow> addr_policy list" where
  "kill_after_catch_all kill_v4 kill_v6 [] = []"
| "kill_after_catch_all kill_v4 kill_v6 (ap # dest) =
     (let family = tor_addr_family (paddr ap)
      in if family = 2 \<and> kill_v4 \<or> family = 10 \<and> kill_v6 then kill_after_catch_all kill_v4 kill_v6 dest
         else let catch_all = (maskbits ap = 0 \<and> prt_min ap \<le> 1 \<and> prt_max ap \<ge> 65535)
              in ap # kill_after_catch_all (kill_v4 \<or> catch_all \<and> family = 2) (kill_v6 \<or> catch_all \<and> family = 10) dest)"

function kill_covered :: "addr_policy list \<Rightarrow> addr_policy list" where
  "kill_covered [] = []"
| "kill_covered (ap # dest) = ap # kill_covered (filter (\<lambda>tmp. \<not> addr_policy_covers ap tmp) dest)"
  by pat_completeness auto
termination
  by (relation "measure length") (auto simp: le_imp_less_Suc)

fun covered_later :: "addr_policy \<Rightarrow> addr_policy list \<Rightarrow> bool" where
  "covered_later ap [] = False"
| "covered_later ap (tmp # dest) =
     (if policy_type ap \<noteq> policy_type tmp then
        (if addr_policy_intersects ap tmp then False else covered_later ap dest)
      else if addr_policy_covers tmp ap then True
      else covered_later ap dest)"

fun kill_covered_later :: "addr_policy list \<Rightarrow> addr_policy list" where
  "kill_covered_later [] = []"
| "kill_covered_later (ap # dest) =
     (if covered_later ap dest then kill_covered_later dest else ap # kill_covered_later dest)"

definition exit_policy_remove_redundancies :: "addr_policy list \<Rightarrow> addr_policy list" where
  "exit_policy_remove_redundancies dest = kill_covered_later (kill_covered (kill_after_catch_all False False dest))"

section \<open>General exits\<close>

text \<open>The loop over the blocks \<open>i\<close> that an entry touches: either the answer 1 (\<open>None\<close>) or the new statuses.\<close>

fun subnet_loop :: "bool \<Rightarrow> addr_policy \<Rightarrow> nat list \<Rightarrow> bool list \<Rightarrow> bool list option" where
  "subnet_loop allow_private p [] subnet_status = Some subnet_status"
| "subnet_loop allow_private p (i # is) subnet_status =
     (if subnet_status ! i then subnet_loop allow_private p is subnet_status
      else if tor_addr_is_internal (AF_INET (push_bit 24 (of_nat i))) False \<and> \<not> allow_private then
        subnet_loop allow_private p is subnet_status
      else if policy_type p = ADDR_POLICY_ACCEPT then
        (if maskbits p > 8 then subnet_loop allow_private p is subnet_status else None)
      else subnet_loop allow_private p is (subnet_status[i := True]))"

definition policy_mask :: "nat \<Rightarrow> uint32" where
  "policy_mask bits = (if bits \<noteq> 0 then push_bit (32 - bits) 0xffffffff else 0)"

fun general_exit_loop :: "bool \<Rightarrow> nat \<Rightarrow> bool list \<Rightarrow> addr_policy list \<Rightarrow> bool option" where
  "general_exit_loop allow_private port subnet_status [] = Some False"
| "general_exit_loop allow_private port subnet_status (p # policy) =
     (if tor_addr_family (paddr p) \<noteq> 2 \<or> prt_min p > port \<or> prt_max p < port then
        general_exit_loop allow_private port subnet_status policy
      else if maskbits p > 32 then None
      else let m = policy_mask (maskbits p); ip = tor_addr_to_ipv4h (paddr p);
               lo = unat (drop_bit 24 (m AND ip)); hi = unat (drop_bit 24 (NOT ((m AND ip) XOR m)))
           in case subnet_loop allow_private p [lo ..< hi + 1] subnet_status of
                None \<Rightarrow> Some True
              | Some subnet_status \<Rightarrow> general_exit_loop allow_private port subnet_status policy)"

definition exit_policy_is_general_exit_helper :: "bool \<Rightarrow> addr_policy list \<Rightarrow> nat \<Rightarrow> bool option" where
  "exit_policy_is_general_exit_helper allow_private policy port =
     general_exit_loop allow_private port (replicate 256 False) policy"

definition exit_policy_is_general_exit :: "bool \<Rightarrow> addr_policy list option \<Rightarrow> bool option" where
  "exit_policy_is_general_exit allow_private policy_opt =
     (case policy_opt of
        None \<Rightarrow> Some False
      | Some policy \<Rightarrow>
          (case exit_policy_is_general_exit_helper allow_private policy 80 of
             None \<Rightarrow> None
           | Some False \<Rightarrow> Some False
           | Some True \<Rightarrow> exit_policy_is_general_exit_helper allow_private policy 443))"

end
