(* ===== verification/Policies_Correct.thy ===== *)
theory Policies_Correct
  imports Policies
begin

unbundle bit_operations_syntax

text \<open>
  What exit policies decide. A policy is a list of rules of which the first that fits gives the verdict;
  the passes that remove redundant entries do not change any verdict, an answer about an unknown port or
  address is definite only if every port or address agrees, and a general exit really accepts a block of addresses.
\<close>

section \<open>Lists of rules\<close>

fun first_match :: "('q \<Rightarrow> 'r \<Rightarrow> bool) \<Rightarrow> ('r \<Rightarrow> 'v) \<Rightarrow> 'v \<Rightarrow> 'r list \<Rightarrow> 'q \<Rightarrow> 'v" where
  "first_match hit verdict dflt [] q = dflt"
| "first_match hit verdict dflt (r # rs) q = (if hit q r then verdict r else first_match hit verdict dflt rs q)"

locale rule_list =
  fixes hit :: "'q \<Rightarrow> 'r \<Rightarrow> bool" and verdict :: "'r \<Rightarrow> 'v" and dflt :: 'v
    and covers :: "'r \<Rightarrow> 'r \<Rightarrow> bool" and intersects :: "'r \<Rightarrow> 'r \<Rightarrow> bool" and ok :: "'r \<Rightarrow> bool" and query :: "'q \<Rightarrow> bool"
  assumes covers_hit: "covers a b \<Longrightarrow> ok a \<Longrightarrow> ok b \<Longrightarrow> query q \<Longrightarrow> hit q b \<Longrightarrow> hit q a"
    and intersects_hit: "hit q a \<Longrightarrow> hit q b \<Longrightarrow> ok a \<Longrightarrow> ok b \<Longrightarrow> query q \<Longrightarrow> intersects a b"
begin

lemma first_match_filter:
  assumes "query q" "\<not> hit q a" "ok a" "\<forall>b \<in> set rs. ok b"
  shows "first_match hit verdict dflt (filter (\<lambda>b. \<not> covers a b) rs) q = first_match hit verdict dflt rs q"
  using assms by (induction rs) (auto dest: covers_hit)

text \<open>A rule that a later one covers adds nothing, if no rule in between that disagrees intersects it.\<close>

lemma first_match_later:
  assumes "query q" "hit q a" "ok a" "\<forall>b \<in> set (us @ c # vs). ok b" "covers c a" "verdict c = verdict a"
    and "\<forall>b \<in> set us. verdict b = verdict a \<or> \<not> intersects a b"
  shows "first_match hit verdict dflt (us @ c # vs) q = verdict a"
  using assms by (induction us) (auto dest: covers_hit intersects_hit)

end

section \<open>Verdicts of a policy\<close>

definition entry_ok :: "addr_policy \<Rightarrow> bool" where
  "entry_ok e \<longleftrightarrow> addr_ok (paddr e)"

definition entry_hit :: "tor_addr \<times> nat \<Rightarrow> addr_policy \<Rightarrow> bool" where
  "entry_hit q e \<longleftrightarrow> addr_matches (fst q) e \<and> prt_min e \<le> snd q \<and> snd q \<le> prt_max e"

definition entry_verdict :: "addr_policy \<Rightarrow> addr_policy_result" where
  "entry_verdict e = (if policy_type e = ADDR_POLICY_ACCEPT then ADDR_POLICY_ACCEPTED else ADDR_POLICY_REJECTED)"

lemma entry_verdict_eq: "entry_verdict a = entry_verdict b \<longleftrightarrow> policy_type a = policy_type b"
  by (cases "policy_type a"; cases "policy_type b") (simp_all add: entry_verdict_def)

lemma compare_known_first_match:
  "compare_known_tor_addr_to_addr_policy a port policy = first_match entry_hit entry_verdict ADDR_POLICY_ACCEPTED policy (a, port)"
  by (induction policy) (auto simp: entry_hit_def entry_verdict_def)

lemma addr_matches_prefix: "addr_ok a \<Longrightarrow> entry_ok e \<Longrightarrow> addr_matches a e \<longleftrightarrow> same_prefix (maskbits e) a (paddr e)"
  by (simp add: addr_matches_def entry_ok_def compare_masked_zero)

interpretation policy: rule_list entry_hit entry_verdict ADDR_POLICY_ACCEPTED addr_policy_covers addr_policy_intersects entry_ok
  "\<lambda>q. addr_ok (fst q)"
proof
  fix a b and q :: "tor_addr \<times> nat"
  assume h: "addr_policy_covers a b" "entry_ok a" "entry_ok b" "addr_ok (fst q)" "entry_hit q b"
  then have "same_prefix (maskbits a) (fst q) (paddr b)" "same_prefix (maskbits a) (paddr a) (paddr b)"
    by (auto simp: entry_hit_def addr_matches_prefix addr_policy_covers_def compare_masked_zero entry_ok_def intro: same_prefix_mono)
  then have "same_prefix (maskbits a) (fst q) (paddr a)" by (blast intro: same_prefix_trans same_prefix_sym)
  then show "entry_hit q a" using h by (auto simp: entry_hit_def addr_matches_prefix addr_policy_covers_def)
next
  fix a b and q :: "tor_addr \<times> nat"
  assume h: "entry_hit q a" "entry_hit q b" "entry_ok a" "entry_ok b" "addr_ok (fst q)"
  define m where "m = (if maskbits a < maskbits b then maskbits a else maskbits b)"
  have "same_prefix m (fst q) (paddr a)" "same_prefix m (fst q) (paddr b)"
    using h by (auto simp: entry_hit_def addr_matches_prefix m_def intro: same_prefix_mono)
  then have "same_prefix m (paddr a) (paddr b)" by (blast intro: same_prefix_trans same_prefix_sym)
  then have "tor_addr_compare_masked (paddr a) (paddr b) m CMP_EXACT = 0" using h by (simp add: compare_masked_zero entry_ok_def)
  then show "addr_policy_intersects a b"
    using h(1,2) by (auto simp: addr_policy_intersects_def Let_def m_def [symmetric] entry_hit_def)
qed

lemma covered_laterD:
  assumes "covered_later ap dest"
  obtains us c vs where "dest = us @ c # vs" "policy_type c = policy_type ap" "addr_policy_covers c ap"
    "\<forall>b \<in> set us. policy_type b = policy_type ap \<or> \<not> addr_policy_intersects ap b"
  using assms
proof (induction dest arbitrary: thesis)
  case (Cons tmp dest)
  show ?case
  proof (cases "policy_type ap = policy_type tmp \<and> addr_policy_covers tmp ap")
    case True
    then show ?thesis using Cons.prems(1) [of "[]" tmp dest] by simp
  next
    case False
    then have "covered_later ap dest" "policy_type tmp = policy_type ap \<or> \<not> addr_policy_intersects ap tmp"
      using Cons.prems(2) by (auto split: if_splits)
    moreover from this(1) obtain us c vs where "dest = us @ c # vs" "policy_type c = policy_type ap" "addr_policy_covers c ap"
      "\<forall>b \<in> set us. policy_type b = policy_type ap \<or> \<not> addr_policy_intersects ap b"
      using Cons.IH by blast
    ultimately show ?thesis by (intro Cons.prems(1) [of "tmp # us" c vs]) auto
  qed
qed simp

lemma kill_covered_later_verdict:
  assumes "\<forall>e \<in> set ps. entry_ok e" "addr_ok a"
  shows "compare_known_tor_addr_to_addr_policy a port (kill_covered_later ps) = compare_known_tor_addr_to_addr_policy a port ps"
  using assms(1)
proof (induction ps)
  case (Cons ap dest)
  show ?case
  proof (cases "covered_later ap dest \<and> entry_hit (a, port) ap")
    case True
    then obtain us c vs where split: "dest = us @ c # vs" "policy_type c = policy_type ap" "addr_policy_covers c ap"
      "\<forall>b \<in> set us. policy_type b = policy_type ap \<or> \<not> addr_policy_intersects ap b"
      by (auto elim: covered_laterD)
    have "first_match entry_hit entry_verdict ADDR_POLICY_ACCEPTED (us @ c # vs) (a, port) = entry_verdict ap"
      using Cons.prems assms(2) True split by (intro policy.first_match_later) (auto simp: entry_verdict_eq)
    then show ?thesis using Cons True split(1) unfolding compare_known_first_match by simp
  next
    case False
    then show ?thesis using Cons unfolding compare_known_first_match by auto
  qed
qed simp

lemma kill_covered_verdict:
  assumes "\<forall>e \<in> set ps. entry_ok e" "addr_ok a"
  shows "compare_known_tor_addr_to_addr_policy a port (kill_covered ps) = compare_known_tor_addr_to_addr_policy a port ps"
  using assms(1)
proof (induction ps rule: kill_covered.induct)
  case (2 ap dest)
  have "first_match entry_hit entry_verdict ADDR_POLICY_ACCEPTED (filter (\<lambda>tmp. \<not> addr_policy_covers ap tmp) dest) (a, port) =
      first_match entry_hit entry_verdict ADDR_POLICY_ACCEPTED dest (a, port)" if "\<not> entry_hit (a, port) ap"
    using 2(2) assms(2) that by (intro policy.first_match_filter) auto
  then show ?case using 2 unfolding compare_known_first_match by auto
qed simp

lemma set_kill_covered: "set (kill_covered ps) \<subseteq> set ps"
  by (induction ps rule: kill_covered.induct) auto

lemma set_kill_after: "set (kill_after_catch_all v4 v6 ps) \<subseteq> set ps"
  by (induction ps arbitrary: v4 v6) (auto simp: Let_def split: if_splits)

lemma matches_family: "addr_ok a \<Longrightarrow> entry_ok e \<Longrightarrow> addr_matches a e \<Longrightarrow> tor_addr_family (paddr e) = tor_addr_family a"
  by (simp add: addr_matches_prefix same_prefix_def)

lemma catch_all_hit:
  assumes "addr_ok a" "entry_ok e" "maskbits e = 0" "prt_min e \<le> 1" "65535 \<le> prt_max e" "1 \<le> port" "port \<le> 65535"
    "tor_addr_family (paddr e) = tor_addr_family a"
  shows "entry_hit (a, port) e"
  using assms by (simp add: entry_hit_def addr_matches_prefix same_prefix_zero)

lemma kill_after_verdict:
  assumes "\<forall>e \<in> set ps. entry_ok e" "addr_ok a" "1 \<le> port" "port \<le> 65535"
    and "v4 \<Longrightarrow> tor_addr_family a \<noteq> 2" "v6 \<Longrightarrow> tor_addr_family a \<noteq> 10"
  shows "compare_known_tor_addr_to_addr_policy a port (kill_after_catch_all v4 v6 ps) =
         compare_known_tor_addr_to_addr_policy a port ps"
  using assms(1,5,6)
proof (induction ps arbitrary: v4 v6)
  case (Cons ap dest)
  show ?case
  proof (cases "tor_addr_family (paddr ap) = 2 \<and> v4 \<or> tor_addr_family (paddr ap) = 10 \<and> v6")
    case True
    then have "\<not> addr_matches a ap" using Cons.prems matches_family [of a ap] assms(2) by auto
    then show ?thesis using True Cons by (simp add: Let_def)
  next
    case False
    define ca where "ca \<longleftrightarrow> maskbits ap = 0 \<and> prt_min ap \<le> 1 \<and> prt_max ap \<ge> 65535"
    have step: "kill_after_catch_all v4 v6 (ap # dest) =
        ap # kill_after_catch_all (v4 \<or> ca \<and> tor_addr_family (paddr ap) = 2) (v6 \<or> ca \<and> tor_addr_family (paddr ap) = 10) dest"
      using False by (simp only: kill_after_catch_all.simps Let_def ca_def) simp
    show ?thesis
    proof (cases "entry_hit (a, port) ap")
      case True
      then show ?thesis unfolding step by (simp add: entry_hit_def)
    next
      case miss: False
      then have "\<not> (ca \<and> tor_addr_family (paddr ap) = tor_addr_family a)"
        using catch_all_hit [of a ap port] Cons.prems(1) assms(2-4) by (auto simp: ca_def)
      then have "compare_known_tor_addr_to_addr_policy a port
          (kill_after_catch_all (v4 \<or> ca \<and> tor_addr_family (paddr ap) = 2) (v6 \<or> ca \<and> tor_addr_family (paddr ap) = 10) dest) =
          compare_known_tor_addr_to_addr_policy a port dest"
        using Cons.prems by (intro Cons.IH) auto
      then show ?thesis using miss unfolding step by (auto simp: entry_hit_def)
    qed
  qed
qed simp

text \<open>
  C36. Removing redundant entries from an exit policy changes no decision: for every address and every
  port from 1 to 65535 the shortened policy gives the verdict of the original one.
\<close>

theorem exit_policy_remove_redundancies_equivalent:
  assumes "\<forall>e \<in> set policy. addr_ok (paddr e)" "addr_ok a" "1 \<le> port" "port \<le> 65535"
  shows "compare_known_tor_addr_to_addr_policy a port (exit_policy_remove_redundancies policy) =
         compare_known_tor_addr_to_addr_policy a port policy"
proof -
  have ok: "\<forall>e \<in> set policy. entry_ok e" using assms(1) by (simp add: entry_ok_def)
  have ok1: "\<forall>e \<in> set (kill_after_catch_all False False policy). entry_ok e" using ok set_kill_after by blast
  then have ok2: "\<forall>e \<in> set (kill_covered (kill_after_catch_all False False policy)). entry_ok e" using set_kill_covered by blast
  show ?thesis
    unfolding exit_policy_remove_redundancies_def kill_covered_later_verdict [OF ok2 assms(2)] kill_covered_verdict [OF ok1 assms(2)]
    using kill_after_verdict [OF ok assms(2-4)] by simp
qed

theorem exit_policy_remove_redundancies_equivalent_witness:
  "compare_known_tor_addr_to_addr_policy (AF_INET 7) 80 (exit_policy_remove_redundancies
     [\<lparr>policy_type = ADDR_POLICY_REJECT, is_private = False, maskbits = 0, paddr = AF_INET 0, prt_min = 80, prt_max = 80\<rparr>,
      \<lparr>policy_type = ADDR_POLICY_ACCEPT, is_private = False, maskbits = 8, paddr = AF_INET 0, prt_min = 80, prt_max = 80\<rparr>]) =
   ADDR_POLICY_REJECTED"
  using exit_policy_remove_redundancies_equivalent [of
     "[\<lparr>policy_type = ADDR_POLICY_REJECT, is_private = False, maskbits = 0, paddr = AF_INET 0, prt_min = 80, prt_max = 80\<rparr>,
      \<lparr>policy_type = ADDR_POLICY_ACCEPT, is_private = False, maskbits = 8, paddr = AF_INET 0, prt_min = 80, prt_max = 80\<rparr>]" "AF_INET 7" 80]
  by (simp add: addr_matches_def tor_addr_compare_masked_def)

section \<open>Unknown ports and addresses\<close>

lemma noport_loop_sound:
  assumes "1 \<le> port" "port \<le> 65535"
  shows "(known_noport_loop a ma mr ps = ADDR_POLICY_ACCEPTED \<longrightarrow>
            \<not> mr \<and> compare_known_tor_addr_to_addr_policy a port ps = ADDR_POLICY_ACCEPTED) \<and>
         (known_noport_loop a ma mr ps = ADDR_POLICY_REJECTED \<longrightarrow>
            \<not> ma \<and> compare_known_tor_addr_to_addr_policy a port ps = ADDR_POLICY_REJECTED)"
proof (induction ps arbitrary: ma mr)
  case (Cons e ps)
  consider "\<not> addr_matches a e" | "addr_matches a e" "prt_min e \<le> 1 \<and> prt_max e \<ge> 65535"
    | "addr_matches a e" "\<not> (prt_min e \<le> 1 \<and> prt_max e \<ge> 65535)" by blast
  then show ?case
  proof cases
    case 1
    then show ?thesis using Cons.IH [of ma mr] by auto
  next
    case 2
    then show ?thesis using assms by (cases "policy_type e"; simp add: uncertain_result_def)
  next
    case 3
    then show ?thesis using Cons.IH [of ma True] Cons.IH [of True mr] by (cases "policy_type e") auto
  qed
qed simp

lemma unknown_loop_sound:
  assumes "\<forall>e \<in> set ps. maskbits e = 0 \<longrightarrow> addr_matches a e"
  shows "(unknown_loop port ma mr ps = ADDR_POLICY_ACCEPTED \<longrightarrow>
            \<not> mr \<and> compare_known_tor_addr_to_addr_policy a port ps = ADDR_POLICY_ACCEPTED) \<and>
         (unknown_loop port ma mr ps = ADDR_POLICY_REJECTED \<longrightarrow>
            \<not> ma \<and> compare_known_tor_addr_to_addr_policy a port ps = ADDR_POLICY_REJECTED)"
  using assms
proof (induction ps arbitrary: ma mr)
  case (Cons e ps)
  consider "\<not> (prt_min e \<le> port \<and> port \<le> prt_max e)" | "prt_min e \<le> port" "port \<le> prt_max e" "maskbits e = 0"
    | "prt_min e \<le> port" "port \<le> prt_max e" "maskbits e \<noteq> 0" by blast
  then show ?case
  proof cases
    case 1
    then have same: "unknown_loop port ma mr (e # ps) = unknown_loop port ma mr ps"
      "compare_known_tor_addr_to_addr_policy a port (e # ps) = compare_known_tor_addr_to_addr_policy a port ps" by auto
    show ?thesis unfolding same using Cons.IH [of ma mr] Cons.prems by auto
  next
    case 2
    then show ?thesis using Cons.prems by (cases "policy_type e"; simp add: uncertain_result_def)
  next
    case 3
    then show ?thesis using Cons.IH [of ma True] Cons.IH [of True mr] Cons.prems by (cases "policy_type e") auto
  qed
qed simp

text \<open>
  A policy as its author writes it for both families: an entry for all addresses names no family, and
  \<^verbatim>\<open>policy_expand_unspec\<close> makes the two entries of it that stand side by side.
\<close>

definition stars_unspec :: "addr_policy list \<Rightarrow> bool" where
  "stars_unspec q \<longleftrightarrow> (\<forall>e \<in> set q. \<not> is_private e \<and> (maskbits e = 0 \<longrightarrow> tor_addr_family (paddr e) = 0))"

lemma expanded_star_hit:
  assumes "addr_ok a" "tor_addr_family a = 2 \<or> tor_addr_family a = 10"
  shows "addr_matches a (e\<lparr>maskbits := 0, paddr := AF_INET 0\<rparr>) \<or> addr_matches a (e\<lparr>maskbits := 0, paddr := AF_INET6 nil_bytes\<rparr>)"
  using assms by (cases a) (auto simp: addr_matches_prefix entry_ok_def same_prefix_zero nil_bytes_def)

lemma unknown_loop_expanded:
  assumes "stars_unspec q" "addr_ok a" "tor_addr_family a = 2 \<or> tor_addr_family a = 10"
  shows "(unknown_loop port ma mr (policy_expand_unspec q) = ADDR_POLICY_ACCEPTED \<longrightarrow>
            \<not> mr \<and> compare_known_tor_addr_to_addr_policy a port (policy_expand_unspec q) = ADDR_POLICY_ACCEPTED) \<and>
         (unknown_loop port ma mr (policy_expand_unspec q) = ADDR_POLICY_REJECTED \<longrightarrow>
            \<not> ma \<and> compare_known_tor_addr_to_addr_policy a port (policy_expand_unspec q) = ADDR_POLICY_REJECTED)"
  using assms(1)
proof (induction q arbitrary: ma mr)
  case Nil
  then show ?case by (simp add: policy_expand_unspec_def)
next
  case (Cons e q)
  have q: "stars_unspec q" and e: "\<not> is_private e" "maskbits e = 0 \<longrightarrow> tor_addr_family (paddr e) = 0"
    using Cons.prems by (auto simp: stars_unspec_def)
  have split: "policy_expand_unspec (e # q) = expand_unspec_item e @ policy_expand_unspec q" by (simp add: policy_expand_unspec_def)
  show ?case
  proof (cases "tor_addr_family (paddr e) = 0")
    case True
    then have "expand_unspec_item e = [e\<lparr>maskbits := 0, paddr := AF_INET 0\<rparr>, e\<lparr>maskbits := 0, paddr := AF_INET6 nil_bytes\<rparr>]"
      using e by (simp add: expand_unspec_item_def)
    then show ?thesis
      using Cons.IH [OF q, of ma mr] expanded_star_hit [OF assms(2,3), of e]
      by (cases "policy_type e") (auto simp: split uncertain_result_def)
  next
    case False
    then have "expand_unspec_item e = [e]" "maskbits e \<noteq> 0" using e by (auto simp: expand_unspec_item_def)
    then show ?thesis
      using Cons.IH [OF q, of ma mr] Cons.IH [OF q, of ma True] Cons.IH [OF q, of True mr]
      by (cases "policy_type e") (auto simp: split)
  qed
qed

lemma reject_star_sound:
  assumes "\<forall>e \<in> set ps. entry_ok e \<and> tor_addr_family (paddr e) \<noteq> 0" "addr_ok a" "1 \<le> port" "port \<le> 65535"
    and "policy_is_reject_star (Some ps) (tor_addr_family a) False"
  shows "compare_known_tor_addr_to_addr_policy a port ps = ADDR_POLICY_REJECTED"
  using assms
proof (induction ps)
  case (Cons e ps)
  show ?case
  proof (cases "tor_addr_family (paddr e) = tor_addr_family a \<and>
      (policy_type e = ADDR_POLICY_ACCEPT \<or> prt_min e \<le> 1 \<and> prt_max e = 65535 \<and> maskbits e = 0)")
    case True
    then have "policy_type e = ADDR_POLICY_REJECT" using Cons.prems(5) by (simp add: policy_is_reject_star_def)
    then show ?thesis using True Cons.prems catch_all_hit [of a e port] by (auto simp: entry_hit_def)
  next
    case False
    then have "compare_known_tor_addr_to_addr_policy a port ps = ADDR_POLICY_REJECTED"
      using Cons by (intro Cons.IH) (auto simp: policy_is_reject_star_def)
    moreover have "policy_type e = ADDR_POLICY_REJECT" if "addr_matches a e"
      using False matches_family [of a e] that Cons.prems by (cases "policy_type e") auto
    ultimately show ?thesis by auto
  qed
qed (simp add: policy_is_reject_star_def)

section \<open>General exits\<close>

lemma addr_matches_ipv4:
  assumes "maskbits e \<le> 32"
  shows "addr_matches (AF_INET a) e \<longleftrightarrow>
    tor_addr_family (paddr e) = 2 \<and> unat a div 2 ^ (32 - maskbits e) = unat (tor_addr_to_ipv4h (paddr e)) div 2 ^ (32 - maskbits e)"
proof (cases "paddr e")
  case (AF_INET b)
  have "unat a < 2 ^ 32" "unat b < 2 ^ 32" using unsigned_less [where ?'a = nat and w = a] unsigned_less [where ?'a = nat and w = b] by simp_all
  then show ?thesis
    using assms AF_INET by (simp add: addr_matches_def tor_addr_compare_masked_def compare_ipv4_def Let_def unat_drop_bit)
qed (auto simp: addr_matches_def tor_addr_compare_masked_def TRISTATE_def)

lemma bit_policy_mask: "n \<le> 32 \<Longrightarrow> bit (policy_mask n) i \<longleftrightarrow> 32 - n \<le> i \<and> i < 32"
proof -
  have ones: "(0xffffffff :: uint32) = mask 32" by (simp add: mask_eq_exp_minus_1)
  show "n \<le> 32 \<Longrightarrow> ?thesis" unfolding policy_mask_def ones by (auto simp: bit_simps)
qed

lemma policy_range:
  assumes "n \<le> 32"
  shows "unat (policy_mask n AND ip) = unat ip div 2 ^ (32 - n) * 2 ^ (32 - n)"
    and "unat (NOT ((policy_mask n AND ip) XOR policy_mask n)) = unat ip div 2 ^ (32 - n) * 2 ^ (32 - n) + 2 ^ (32 - n) - 1"
proof -
  define k where "k = 32 - n"
  have k: "k \<le> 32" by (simp add: k_def)
  have lt: "unat ip < 2 ^ 32" using unsigned_less [where ?'a = nat and w = ip] by simp
  have m: "policy_mask n AND ip = push_bit k (drop_bit k ip)"
    by (rule bit_word_eqI) (auto simp: bit_simps bit_policy_mask [OF assms] k_def)
  have le: "unat ip div 2 ^ k * 2 ^ k \<le> unat ip" by simp
  have "unat (push_bit k (drop_bit k ip)) = take_bit 32 (unat ip div 2 ^ k * 2 ^ k)"
    unfolding unsigned_push_bit_eq unat_drop_bit by (simp add: push_bit_eq_mult)
  also have "\<dots> = unat ip div 2 ^ k * 2 ^ k" by (rule take_bit_nat_eq_self [OF le_less_trans [OF le lt]])
  finally show lo: "unat (policy_mask n AND ip) = unat ip div 2 ^ (32 - n) * 2 ^ (32 - n)" unfolding m k_def .
  have "NOT ((policy_mask n AND ip) XOR policy_mask n) = (policy_mask n AND ip) OR mask k"
    by (rule bit_word_eqI) (auto simp: bit_simps bit_policy_mask [OF assms] k_def)
  also have "\<dots> = (policy_mask n AND ip) + mask k"
    by (rule disjunctive_add_eq_or [symmetric], rule bit_word_eqI) (auto simp: bit_simps bit_policy_mask [OF assms] k_def)
  finally have hi: "NOT ((policy_mask n AND ip) XOR policy_mask n) = (policy_mask n AND ip) + mask k" .
  have "unat (mask k :: uint32) = mask k" by (rule bit_eqI) (use k in \<open>auto simp: bit_simps\<close>)
  then have mk: "unat (mask k :: uint32) = 2 ^ k - 1" by (simp add: mask_eq_exp_minus_1)
  have "unat ip div 2 ^ k < 2 ^ (32 - k)"
    using lt k by (simp add: less_mult_imp_div_less flip: power_add)
  then have "(unat ip div 2 ^ k + 1) * 2 ^ k \<le> 2 ^ (32 - k) * 2 ^ k" by (intro mult_right_mono) auto
  also have "\<dots> = 2 ^ 32" using k by (simp flip: power_add)
  finally have "unat ip div 2 ^ k * 2 ^ k + (2 ^ k - 1) < 2 ^ 32" by (simp add: algebra_simps)
  then have "unat ((policy_mask n AND ip) + mask k) = unat ip div 2 ^ k * 2 ^ k + (2 ^ k - 1)"
    using lo mk unat_add_lem [of "policy_mask n AND ip" "mask k"] by (simp add: k_def)
  then show "unat (NOT ((policy_mask n AND ip) XOR policy_mask n)) = unat ip div 2 ^ (32 - n) * 2 ^ (32 - n) + 2 ^ (32 - n) - 1"
    unfolding hi k_def by simp
qed

definition routable_block :: "bool \<Rightarrow> nat \<Rightarrow> bool" where
  "routable_block allow_private i \<longleftrightarrow> allow_private \<or> \<not> tor_addr_is_internal (AF_INET (push_bit 24 (of_nat i))) False"

lemma subnet_loop_accept:
  assumes "policy_type p = ADDR_POLICY_ACCEPT"
  shows "subnet_loop allow p is st = None \<Longrightarrow> maskbits p \<le> 8 \<and> (\<exists>i \<in> set is. \<not> st ! i \<and> routable_block allow i)"
    and "subnet_loop allow p is st = Some st' \<Longrightarrow> st' = st"
  using assms by (induction "is") (auto simp: routable_block_def split: if_splits)

lemma subnet_loop_reject:
  assumes "policy_type p = ADDR_POLICY_REJECT" "\<forall>i \<in> set is. i < length st"
  shows "\<exists>st'. subnet_loop allow p is st = Some st' \<and> length st' = length st \<and>
           (\<forall>i < length st. \<not> st' ! i \<longrightarrow> \<not> st ! i \<and> (routable_block allow i \<longrightarrow> i \<notin> set is))"
  using assms(2)
proof (induction "is" arbitrary: st)
  case (Cons j js)
  show ?case
  proof (cases "st ! j \<or> \<not> routable_block allow j")
    case True
    then have "subnet_loop allow p (j # js) st = subnet_loop allow p js st" by (auto simp: routable_block_def)
    then show ?thesis using Cons.IH [of st] Cons.prems True by fastforce
  next
    case False
    then have "subnet_loop allow p (j # js) st = subnet_loop allow p js (st[j := True])" using assms(1) by (auto simp: routable_block_def)
    then show ?thesis using Cons.IH [of "st[j := True]"] Cons.prems by (fastforce simp: nth_list_update split: if_splits)
  qed
qed simp

text \<open>The blocks from the first to the last index of an entry are those that hold addresses of it.\<close>

lemma block_bounds:
  fixes a ip :: uint32
  assumes "n \<le> 32"
  defines "lo \<equiv> unat (drop_bit 24 (policy_mask n AND ip))"
    and "hi \<equiv> unat (drop_bit 24 (NOT ((policy_mask n AND ip) XOR policy_mask n)))"
  shows "unat a div 2 ^ (32 - n) = unat ip div 2 ^ (32 - n) \<Longrightarrow> lo \<le> unat a div 2 ^ 24 \<and> unat a div 2 ^ 24 \<le> hi"
    and "n \<le> 8 \<Longrightarrow> lo \<le> unat a div 2 ^ 24 \<Longrightarrow> unat a div 2 ^ 24 \<le> hi \<Longrightarrow> unat a div 2 ^ (32 - n) = unat ip div 2 ^ (32 - n)"
    and "hi < 256"
proof -
  define K :: nat where "K = 2 ^ (32 - n)"
  define q where "q = unat ip div K"
  have K: "0 < K" by (simp add: K_def)
  have lo: "lo = q * K div 2 ^ 24" and hi: "hi = (q * K + K - 1) div 2 ^ 24"
    unfolding lo_def hi_def unat_drop_bit policy_range [OF assms(1)] by (simp_all add: q_def K_def)
  show "lo \<le> unat a div 2 ^ 24 \<and> unat a div 2 ^ 24 \<le> hi" if "unat a div 2 ^ (32 - n) = unat ip div 2 ^ (32 - n)"
  proof -
    have "unat a div K = q" using that by (simp add: q_def K_def)
    then have "q * K + unat a mod K = unat a" "unat a mod K < K" using div_mult_mod_eq [of "unat a" K] K by simp_all
    then have "q * K \<le> unat a" "unat a \<le> q * K + K - 1" by linarith+
    then show ?thesis unfolding lo hi by (simp add: div_le_mono)
  qed
  show "unat a div 2 ^ (32 - n) = unat ip div 2 ^ (32 - n)" if "n \<le> 8" "lo \<le> unat a div 2 ^ 24" "unat a div 2 ^ 24 \<le> hi"
  proof -
    define L :: nat where "L = 2 ^ (8 - n)"
    have "32 - n = 24 + (8 - n)" using that(1) by simp
    then have KL: "K = 2 ^ 24 * L" unfolding K_def L_def by (simp only: power_add)
    have L: "0 < L" by (simp add: L_def)
    have "q * K + K - 1 < (q * L + L) * 2 ^ 24" using K unfolding KL by (simp add: algebra_simps)
    then have "hi < q * L + L" unfolding hi by (rule less_mult_imp_div_less)
    moreover have "lo = q * L" unfolding lo KL by (simp add: algebra_simps)
    ultimately have "unat a div 2 ^ 24 div L = q" using that L by (intro div_nat_eqI) (auto simp: algebra_simps)
    then have "unat a div K = q" unfolding KL by (simp add: div_mult2_eq)
    then show ?thesis by (simp add: q_def K_def)
  qed
  show "hi < 256" unfolding hi_def unat_drop_bit
    using unsigned_less [where ?'a = nat and w = "NOT ((policy_mask n AND ip) XOR policy_mask n)"] by (simp add: less_mult_imp_div_less)
qed

lemma general_exit_loop_sound:
  assumes "general_exit_loop allow port st policy = Some True" "length st = 256"
  shows "\<exists>i < 256. \<not> st ! i \<and> routable_block allow i \<and>
           (\<forall>a. unat a div 2 ^ 24 = i \<longrightarrow> compare_known_tor_addr_to_addr_policy (AF_INET a) port policy = ADDR_POLICY_ACCEPTED)"
  using assms
proof (induction policy arbitrary: st)
  case (Cons p policy)
  show ?case
  proof (cases "tor_addr_family (paddr p) \<noteq> 2 \<or> prt_min p > port \<or> prt_max p < port")
    case True
    then have miss: "\<not> (addr_matches (AF_INET a) p \<and> port \<ge> prt_min p \<and> port \<le> prt_max p)" for a
      by (cases "paddr p") (auto simp: addr_matches_def tor_addr_compare_masked_def TRISTATE_def)
    have "general_exit_loop allow port st policy = Some True" using Cons.prems(1) True by (simp split: if_splits)
    then show ?thesis using Cons.IH [OF _ Cons.prems(2)] unfolding compare_known_tor_addr_to_addr_policy.simps if_not_P [OF miss] by blast
  next
    case False
    define ip where "ip = tor_addr_to_ipv4h (paddr p)"
    define lo where "lo = unat (drop_bit 24 (policy_mask (maskbits p) AND ip))"
    define hi where "hi = unat (drop_bit 24 (NOT ((policy_mask (maskbits p) AND ip) XOR policy_mask (maskbits p))))"
    have n: "maskbits p \<le> 32" using Cons.prems(1) False by (auto split: if_splits)
    note hit = addr_matches_ipv4 [OF n, folded ip_def]
    note bounds = block_bounds [OF n, where ip = ip, folded lo_def hi_def]
    have step: "general_exit_loop allow port st (p # policy) =
        (case subnet_loop allow p [lo ..< hi + 1] st of None \<Rightarrow> Some True | Some st' \<Rightarrow> general_exit_loop allow port st' policy)"
      using False n by (simp add: Let_def lo_def hi_def ip_def)
    show ?thesis
    proof (cases "policy_type p")
      case ADDR_POLICY_ACCEPT
      show ?thesis
      proof (cases "subnet_loop allow p [lo ..< hi + 1] st")
        case None
        then obtain i where i: "lo \<le> i" "i \<le> hi" "\<not> st ! i" "routable_block allow i" "maskbits p \<le> 8"
          using subnet_loop_accept(1) [OF ADDR_POLICY_ACCEPT None] by auto
        have "addr_matches (AF_INET a) p" if "unat a div 2 ^ 24 = i" for a
          using bounds(2) [of a] i that False unfolding hit ip_def by auto
        then show ?thesis using i bounds(3) False ADDR_POLICY_ACCEPT by (intro exI [of _ i]) auto
      next
        case (Some st')
        then have "general_exit_loop allow port st policy = Some True"
          using Cons.prems(1) subnet_loop_accept(2) [OF ADDR_POLICY_ACCEPT Some] unfolding step by simp
        then show ?thesis using Cons.IH [OF _ Cons.prems(2)] ADDR_POLICY_ACCEPT by fastforce
      qed
    next
      case ADDR_POLICY_REJECT
      have inside: "\<forall>i \<in> set [lo ..< hi + 1]. i < length st" using bounds(3) Cons.prems(2) by auto
      obtain st' where st': "subnet_loop allow p [lo ..< hi + 1] st = Some st'" "length st' = 256"
        "\<forall>i < 256. \<not> st' ! i \<longrightarrow> \<not> st ! i \<and> (routable_block allow i \<longrightarrow> i \<notin> set [lo ..< hi + 1])"
        using subnet_loop_reject [OF ADDR_POLICY_REJECT inside, of allow] Cons.prems(2) by auto
      then have "general_exit_loop allow port st' policy = Some True" using Cons.prems(1) unfolding step by simp
      then obtain i where i: "i < 256" "\<not> st' ! i" "routable_block allow i"
        "\<forall>a. unat a div 2 ^ 24 = i \<longrightarrow> compare_known_tor_addr_to_addr_policy (AF_INET a) port policy = ADDR_POLICY_ACCEPTED"
        using Cons.IH [OF _ st'(2)] by blast
      then have out: "\<not> st ! i" "\<not> (lo \<le> i \<and> i \<le> hi)" using st'(3) by auto
      have "\<not> addr_matches (AF_INET a) p" if "unat a div 2 ^ 24 = i" for a
        using bounds(1) [of a] out(2) that unfolding hit by auto
      then show ?thesis using i out(1) by (intro exI [of _ i]) simp
    qed
  qed
qed simp

section \<open>Properties\<close>

text \<open>
  C37. What a definite answer to an incomplete question is worth. (1) A definite answer without a port
  holds for every port. (2) A definite answer without an address holds for an address \<open>a\<close> when all entries
  are of the family of \<open>a\<close>, or when the policy mixes families but was written with entries for all
  addresses that name no family, so that \<^verbatim>\<open>policy_expand_unspec\<close> made them; it need not hold when an
  entry covers all addresses of one family only, as \<open>unknown_address_ignores_family\<close> shows. (3) A policy
  that counts as \<^verbatim>\<open>reject *\<close> for a family rejects every address of this family on every port.
\<close>

theorem policy_answers_definite:
  assumes "\<forall>e \<in> set policy. addr_ok (paddr e) \<and> tor_addr_family (paddr e) \<noteq> 0"
    and "addr_ok a" "\<not> tor_addr_is_null a" "1 \<le> port" "port \<le> 65535"
    and "v = ADDR_POLICY_ACCEPTED \<or> v = ADDR_POLICY_REJECTED"
  shows "(compare_tor_addr_to_addr_policy (Some a) 0 (Some policy) = v \<longrightarrow>
            compare_tor_addr_to_addr_policy (Some a) port (Some policy) = v) \<and>
         (compare_tor_addr_to_addr_policy None port (Some policy) = v \<and>
          ((\<forall>e \<in> set policy. tor_addr_family (paddr e) = tor_addr_family a) \<or>
           (\<exists>q. stars_unspec q \<and> policy = policy_expand_unspec q)) \<longrightarrow>
            compare_tor_addr_to_addr_policy (Some a) port (Some policy) = v) \<and>
         (policy_is_reject_star (Some policy) (tor_addr_family a) False \<longrightarrow>
            compare_tor_addr_to_addr_policy (Some a) port (Some policy) = ADDR_POLICY_REJECTED)"
proof -
  have ok: "\<forall>e \<in> set policy. entry_ok e" using assms(1) by (simp add: entry_ok_def)
  have fam: "tor_addr_family a = 2 \<or> tor_addr_family a = 10" using assms(3) by (cases a) auto
  have known: "compare_tor_addr_to_addr_policy (Some a) port (Some policy) = compare_known_tor_addr_to_addr_policy a port policy"
    "compare_tor_addr_to_addr_policy (Some a) 0 (Some policy) = known_noport_loop a False False policy"
    "compare_tor_addr_to_addr_policy None port (Some policy) = unknown_loop port False False policy"
    using assms(3,4) by (simp_all add: compare_tor_addr_to_addr_policy_def compare_known_tor_addr_to_addr_policy_noport_def
        compare_unknown_tor_addr_to_addr_policy_def)
  have "compare_known_tor_addr_to_addr_policy a port policy = v" if "known_noport_loop a False False policy = v"
    using noport_loop_sound [OF assms(4,5), of a False False policy] assms(6) that by auto
  moreover have "compare_known_tor_addr_to_addr_policy a port policy = v"
    if "unknown_loop port False False policy = v" "\<forall>e \<in> set policy. tor_addr_family (paddr e) = tor_addr_family a"
  proof -
    have "\<forall>e \<in> set policy. maskbits e = 0 \<longrightarrow> addr_matches a e"
      using ok assms(2) that(2) by (simp add: addr_matches_prefix same_prefix_zero)
    then show ?thesis using unknown_loop_sound [of policy a port False False] that(1) assms(6) by auto
  qed
  moreover have "compare_known_tor_addr_to_addr_policy a port policy = v"
    if "unknown_loop port False False policy = v" "stars_unspec q" "policy = policy_expand_unspec q" for q
    using unknown_loop_expanded [OF that(2) assms(2) fam, of port False False] that(1,3) assms(6) by auto
  moreover have "compare_known_tor_addr_to_addr_policy a port policy = ADDR_POLICY_REJECTED"
    if "policy_is_reject_star (Some policy) (tor_addr_family a) False"
    using reject_star_sound [of policy a port] ok assms(1,2,4,5) that by auto
  ultimately show ?thesis unfolding known by blast
qed

text \<open>\<^verbatim>\<open>accept 10.0.0.0/8:*\<close>, \<^verbatim>\<open>accept *:80\<close>, \<^verbatim>\<open>reject *:*\<close>.\<close>

definition demo_mixed_policy :: "addr_policy list" where
  "demo_mixed_policy =
     [\<lparr>policy_type = ADDR_POLICY_ACCEPT, is_private = False, maskbits = 8, paddr = AF_INET 0x0A000000, prt_min = 1, prt_max = 65535\<rparr>,
      \<lparr>policy_type = ADDR_POLICY_ACCEPT, is_private = False, maskbits = 0, paddr = AF_UNSPEC, prt_min = 80, prt_max = 80\<rparr>,
      \<lparr>policy_type = ADDR_POLICY_REJECT, is_private = False, maskbits = 0, paddr = AF_UNSPEC, prt_min = 1, prt_max = 65535\<rparr>]"

theorem policy_answers_definite_witness:
  "compare_tor_addr_to_addr_policy (Some (AF_INET 0x0A020304)) 0 (Some (policy_expand_unspec demo_mixed_policy)) = ADDR_POLICY_ACCEPTED \<and>
   compare_tor_addr_to_addr_policy (Some (AF_INET 0x0A020304)) 81 (Some (policy_expand_unspec demo_mixed_policy)) = ADDR_POLICY_ACCEPTED \<and>
   compare_tor_addr_to_addr_policy None 80 (Some (policy_expand_unspec demo_mixed_policy)) = ADDR_POLICY_ACCEPTED \<and>
   compare_tor_addr_to_addr_policy (Some (AF_INET6 (replicate 16 1))) 80 (Some (policy_expand_unspec demo_mixed_policy)) = ADDR_POLICY_ACCEPTED \<and>
   policy_is_reject_star (Some (policy_expand_unspec [demo_mixed_policy ! 2])) 10 False \<and>
   compare_tor_addr_to_addr_policy (Some (AF_INET6 (replicate 16 1))) 80 (Some (policy_expand_unspec [demo_mixed_policy ! 2])) = ADDR_POLICY_REJECTED"
proof -
  let ?p = "policy_expand_unspec demo_mixed_policy" and ?r = "policy_expand_unspec [demo_mixed_policy ! 2]"
  note defs = policy_expand_unspec_def expand_unspec_item_def demo_mixed_policy_def
  have ok: "\<forall>e \<in> set ?p. addr_ok (paddr e) \<and> tor_addr_family (paddr e) \<noteq> 0" "\<forall>e \<in> set ?r. addr_ok (paddr e) \<and> tor_addr_family (paddr e) \<noteq> 0"
    by (simp_all add: defs nil_bytes_def)
  have a: "addr_ok (AF_INET 0x0A020304)" "\<not> tor_addr_is_null (AF_INET 0x0A020304)"
    "addr_ok (AF_INET6 (replicate 16 1))" "\<not> tor_addr_is_null (AF_INET6 (replicate 16 1))"
    by (simp_all, code_simp)
  have 1: "compare_tor_addr_to_addr_policy (Some (AF_INET 0x0A020304)) 0 (Some ?p) = ADDR_POLICY_ACCEPTED"
    by (simp add: compare_tor_addr_to_addr_policy_def compare_known_tor_addr_to_addr_policy_noport_def defs
        addr_matches_def tor_addr_compare_masked_def compare_ipv4_def TRISTATE_def uncertain_result_def)
  have 2: "compare_tor_addr_to_addr_policy None 80 (Some ?p) = ADDR_POLICY_ACCEPTED"
    by (simp add: compare_tor_addr_to_addr_policy_def compare_unknown_tor_addr_to_addr_policy_def defs uncertain_result_def)
  have 3: "policy_is_reject_star (Some ?r) 10 False" by (simp add: policy_is_reject_star_def defs)
  have q: "stars_unspec demo_mixed_policy" by (simp add: stars_unspec_def demo_mixed_policy_def)
  show ?thesis
    using policy_answers_definite [OF ok(1) a(1,2), of 81 ADDR_POLICY_ACCEPTED] 1
      policy_answers_definite [OF ok(1) a(3,4), of 80 ADDR_POLICY_ACCEPTED] 2 q
      policy_answers_definite [OF ok(2) a(3,4), of 80 ADDR_POLICY_REJECTED] 3
    by auto
qed

text \<open>
  An answer for an unknown address is not sound across families: an entry for all IPv6 addresses is
  taken for one that covers every address. A policy can be said to accept port 80 definitely although
  it rejects every IPv4 address on it.
\<close>

theorem unknown_address_ignores_family:
  "\<exists>policy. compare_tor_addr_to_addr_policy None 80 (Some policy) = ADDR_POLICY_ACCEPTED \<and>
     (\<forall>a. compare_known_tor_addr_to_addr_policy (AF_INET a) 80 policy = ADDR_POLICY_REJECTED)"
proof (intro exI conjI allI)
  let ?p = "[\<lparr>policy_type = ADDR_POLICY_ACCEPT, is_private = False, maskbits = 0, paddr = AF_INET6 nil_bytes, prt_min = 80, prt_max = 80\<rparr>,
             \<lparr>policy_type = ADDR_POLICY_REJECT, is_private = False, maskbits = 0, paddr = AF_INET 0, prt_min = 1, prt_max = 65535\<rparr>]"
  show "compare_tor_addr_to_addr_policy None 80 (Some ?p) = ADDR_POLICY_ACCEPTED"
    by (simp add: compare_tor_addr_to_addr_policy_def compare_unknown_tor_addr_to_addr_policy_def uncertain_result_def)
  show "compare_known_tor_addr_to_addr_policy (AF_INET a) 80 ?p = ADDR_POLICY_REJECTED" for a
    by (simp add: addr_matches_def tor_addr_compare_masked_def TRISTATE_def)
qed

text \<open>
  C38. A policy that counts as a general exit accepts, for each of the ports 80 and 443, all addresses
  of some block of 2^24 IPv4 addresses that is not internal (unless private addresses are allowed).
\<close>

theorem general_exit_accepts_block:
  assumes "exit_policy_is_general_exit allow_private (Some policy) = Some True" "port = 80 \<or> port = 443"
  shows "\<exists>i < 256. (allow_private \<or> \<not> tor_addr_is_internal (AF_INET (push_bit 24 (of_nat i))) False) \<and>
    (\<forall>a. unat a div 2 ^ 24 = i \<longrightarrow> compare_known_tor_addr_to_addr_policy (AF_INET a) port policy = ADDR_POLICY_ACCEPTED)"
proof -
  have "general_exit_loop allow_private port (replicate 256 False) policy = Some True"
    using assms by (auto simp: exit_policy_is_general_exit_def exit_policy_is_general_exit_helper_def split: option.splits bool.splits)
  then have "\<exists>i < 256. \<not> replicate 256 False ! i \<and> routable_block allow_private i \<and>
      (\<forall>a. unat a div 2 ^ 24 = i \<longrightarrow> compare_known_tor_addr_to_addr_policy (AF_INET a) port policy = ADDR_POLICY_ACCEPTED)"
    by (rule general_exit_loop_sound) simp
  then show ?thesis unfolding routable_block_def by blast
qed

theorem general_exit_accepts_block_witness:
  "exit_policy_is_general_exit True
     (Some [\<lparr>policy_type = ADDR_POLICY_ACCEPT, is_private = False, maskbits = 8, paddr = AF_INET 0x05000000, prt_min = 1, prt_max = 65535\<rparr>]) = Some True \<and>
   (\<exists>i. i < 256 \<and> {a. unat a div 2 ^ 24 = i} \<subseteq> {a. compare_known_tor_addr_to_addr_policy (AF_INET a) 80
      [\<lparr>policy_type = ADDR_POLICY_ACCEPT, is_private = False, maskbits = 8, paddr = AF_INET 0x05000000, prt_min = 1, prt_max = 65535\<rparr>] =
      ADDR_POLICY_ACCEPTED})"
proof -
  let ?p = "[\<lparr>policy_type = ADDR_POLICY_ACCEPT, is_private = False, maskbits = 8, paddr = AF_INET 0x05000000, prt_min = 1, prt_max = 65535\<rparr>]"
  have general: "exit_policy_is_general_exit True (Some ?p) = Some True"
    by (simp add: exit_policy_is_general_exit_def exit_policy_is_general_exit_helper_def policy_mask_def)
  from general_exit_accepts_block [OF this, of 80] obtain i where "i < 256"
    "\<forall>a. unat a div 2 ^ 24 = i \<longrightarrow> compare_known_tor_addr_to_addr_policy (AF_INET a) 80 ?p = ADDR_POLICY_ACCEPTED" by auto
  then show ?thesis using general by blast
qed

end
