(* ===== verification/Policy_Summary.thy ===== *)
theory Policy_Summary
  imports Policies
begin

text \<open>
  Summaries of exit policies (\<^verbatim>\<open>core/or/policies.c\<close>): the partition of the ports into ranges, the counts
  of rejected addresses, the text \<^verbatim>\<open>accept 80,443\<close> or \<^verbatim>\<open>reject 1-79\<close> made from it, and the short policies that
  clients read from the text. \<open>None\<close> is a failed assertion or an access outside the list.
\<close>

section \<open>The partition of the ports\<close>

text \<open>\<^verbatim>\<open>reject_count\<close> is a \<^verbatim>\<open>uint64_t\<close>; its additions are guarded in the code, and never exceed \<open>UINT64_MAX\<close>.\<close>

record policy_summary_item =
  s_min :: nat
  s_max :: nat
  reject_count :: nat
  accepted :: bool

definition UINT64_MAX :: nat where "UINT64_MAX = 2 ^ 64 - 1"

definition policy_summary_create :: "policy_summary_item list" where
  "policy_summary_create = [\<lparr>s_min = 1, s_max = 65535, reject_count = 0, accepted = False\<rparr>]"

text \<open>The shortened old item and the new one; \<^verbatim>\<open>new_starts - 1\<close> is computed in 16 bits.\<close>

definition policy_summary_item_split ::
  "policy_summary_item \<Rightarrow> nat \<Rightarrow> (policy_summary_item \<times> policy_summary_item) option" where
  "policy_summary_item_split old new_starts =
     (let new = old\<lparr>s_min := new_starts\<rparr>; old' = old\<lparr>s_max := (new_starts + 65535) mod 65536\<rparr>
      in if s_min old' \<le> s_max old' \<and> s_min new \<le> s_max new then Some (old', new) else None)"

text \<open>The loops \<^verbatim>\<open>while (AT(i)->prt_max < port) i++\<close>.\<close>

function summary_seek :: "policy_summary_item list \<Rightarrow> nat \<Rightarrow> nat \<Rightarrow> nat option" where
  "summary_seek summary i port =
     (if i < length summary then
        (if s_max (summary ! i) < port then summary_seek summary (i + 1) port else Some i)
      else None)"
  by pat_completeness auto
termination
  by (relation "measure (\<lambda>(summary, i, _). length summary - i)") auto

declare summary_seek.simps [simp del]

definition summary_insert :: "policy_summary_item list \<Rightarrow> nat \<Rightarrow> nat \<Rightarrow> policy_summary_item list option" where
  "summary_insert summary i new_starts =
     (case policy_summary_item_split (summary ! i) new_starts of
        None \<Rightarrow> None
      | Some (old, new) \<Rightarrow> Some (take i summary @ old # new # drop (i + 1) summary))"

definition policy_summary_split :: "policy_summary_item list \<Rightarrow> nat \<Rightarrow> nat \<Rightarrow> (policy_summary_item list \<times> nat) option" where
  "policy_summary_split summary lo hi =
     do {
       i \<leftarrow> summary_seek summary 0 lo;
       (summary, start_at_index) \<leftarrow>
         (if s_min (summary ! i) \<noteq> lo then map_option (\<lambda>l. (l, i + 1)) (summary_insert summary i lo)
          else Some (summary, i));
       i \<leftarrow> summary_seek summary start_at_index hi;
       summary \<leftarrow>
         (if s_max (summary ! i) \<noteq> hi then summary_insert summary i ((hi + 1) mod 65536) else Some summary);
       Some (summary, start_at_index)
     }"

text \<open>The loops that update the items from index \<open>i\<close> on up to the port \<open>hi\<close>, and the assertion after them.\<close>

function summary_update ::
  "(policy_summary_item \<Rightarrow> policy_summary_item) \<Rightarrow> nat \<Rightarrow> policy_summary_item list \<Rightarrow> nat \<Rightarrow> policy_summary_item list option" where
  "summary_update f hi summary i =
     (if i < length summary \<and> s_max (summary ! i) \<le> hi then summary_update f hi (summary[i := f (summary ! i)]) (i + 1)
      else if i < length summary \<or> hi = 65535 then Some summary else None)"
  by pat_completeness auto
termination
  by (relation "measure (\<lambda>(f, hi, summary, i). length summary - i)") auto

declare summary_update.simps [simp del]

definition reject_cutoff :: "nat \<Rightarrow> nat" where
  "reject_cutoff family = (if family = 2 then 2 ^ (32 - 0 - 7) else 2 ^ (128 - 64 - 16))"

definition accept_item :: "nat \<Rightarrow> policy_summary_item \<Rightarrow> policy_summary_item" where
  "accept_item family it = (if \<not> accepted it \<and> reject_count it \<le> reject_cutoff family then it\<lparr>accepted := True\<rparr> else it)"

definition policy_summary_accept :: "policy_summary_item list \<Rightarrow> nat \<Rightarrow> nat \<Rightarrow> nat \<Rightarrow> policy_summary_item list option" where
  "policy_summary_accept summary lo hi family =
     do {
       (summary, i) \<leftarrow> policy_summary_split summary lo hi;
       summary_update (accept_item family) hi summary i
     }"

definition reject_item :: "nat \<Rightarrow> policy_summary_item \<Rightarrow> policy_summary_item" where
  "reject_item count it =
     (if reject_count it \<le> UINT64_MAX - count then it\<lparr>reject_count := reject_count it + count\<rparr>
      else it\<lparr>reject_count := UINT64_MAX\<rparr>)"

definition policy_summary_reject :: "policy_summary_item list \<Rightarrow> nat \<Rightarrow> nat \<Rightarrow> nat \<Rightarrow> nat \<Rightarrow> policy_summary_item list option" where
  "policy_summary_reject summary bits lo hi family =
     do {
       (summary, i) \<leftarrow> policy_summary_split summary lo hi;
       let addrbits = (if family = 2 then 32 else 128 :: nat);
       let scale = (if family = 2 then 0 else 64 :: nat);
       if bits > addrbits - scale then Some summary
       else let count = (if addrbits - scale - bits \<ge> 64 then UINT64_MAX else 2 ^ (addrbits - scale - bits))
            in summary_update (reject_item count) hi summary i
     }"

text \<open>Is the network of the entry one of the private ones?\<close>

fun private_entry :: "addr_policy \<Rightarrow> string list \<Rightarrow> bool option" where
  "private_entry p [] = Some False"
| "private_entry p (net # nets) =
     (case tor_addr_parse_mask_ports net no_tapmp False of
        Parsed (a, m, _, _) \<Rightarrow>
          if tor_addr_compare (paddr p) a CMP_EXACT = 0 \<and> maskbits p = m then Some True else private_entry p nets
      | _ \<Rightarrow> None)"

definition policy_summary_add_item :: "policy_summary_item list \<Rightarrow> addr_policy \<Rightarrow> policy_summary_item list option" where
  "policy_summary_add_item summary p =
     (if policy_type p = ADDR_POLICY_ACCEPT then
        (if maskbits p = 0 then policy_summary_accept summary (prt_min p) (prt_max p) (tor_addr_family (paddr p))
         else Some summary)
      else do {
        priv \<leftarrow> private_entry p private_nets;
        if priv then Some summary
        else policy_summary_reject summary (maskbits p) (prt_min p) (prt_max p) (tor_addr_family (paddr p))
      })"

fun policy_summary_build :: "policy_summary_item list \<Rightarrow> nat \<Rightarrow> addr_policy list \<Rightarrow> policy_summary_item list option" where
  "policy_summary_build summary family [] = Some summary"
| "policy_summary_build summary family (p # policy) =
     (if tor_addr_family (paddr p) \<noteq> family then policy_summary_build summary family policy
      else do {
        summary \<leftarrow> policy_summary_add_item summary p;
        policy_summary_build summary family policy
      })"

section \<open>The text of a summary\<close>

definition MAX_EXITPOLICY_SUMMARY_LEN :: nat where "MAX_EXITPOLICY_SUMMARY_LEN = 1000"

definition port_range_text :: "nat \<times> nat \<Rightarrow> string" where
  "port_range_text r = (if fst r = snd r then show_nat (fst r) else show_nat (fst r) @ ''-'' @ show_nat (snd r))"

text \<open>The merged ranges, each with its verdict.\<close>

fun summary_ranges :: "nat \<Rightarrow> policy_summary_item list \<Rightarrow> ((nat \<times> nat) \<times> bool) list" where
  "summary_ranges start_prt [] = []"
| "summary_ranges start_prt [it] = [((start_prt, s_max it), accepted it)]"
| "summary_ranges start_prt (it # nxt # items) =
     (if accepted it \<noteq> accepted nxt then ((start_prt, s_max it), accepted it) # summary_ranges (s_min nxt) (nxt # items)
      else summary_ranges start_prt (nxt # items))"

fun join_comma :: "string list \<Rightarrow> string" where
  "join_comma [] = []"
| "join_comma [s] = s"
| "join_comma (s # t # ss) = s @ '','' @ join_comma (t # ss)"

text \<open>The loop that walks back to a comma.\<close>

fun last_comma :: "string \<Rightarrow> nat \<Rightarrow> nat option" where
  "last_comma s 0 = (if s ! 0 = CHR '','' then Some 0 else None)"
| "last_comma s (Suc c) = (if s ! Suc c = CHR '','' then Some (Suc c) else last_comma s c)"

definition summary_text :: "((nat \<times> nat) \<times> bool) list \<Rightarrow> string option" where
  "summary_text ranges =
     (let accepts = map (port_range_text \<circ> fst) (filter snd ranges); rejects = map (port_range_text \<circ> fst) (filter (\<lambda>r. \<not> snd r) ranges);
          accepts_str = join_comma accepts; rejects_str = join_comma rejects
      in if accepts = [] then Some ''reject 1-65535''
         else if rejects = [] then Some ''accept 1-65535''
         else if length rejects_str > MAX_EXITPOLICY_SUMMARY_LEN - 6 - 1 \<and> length accepts_str > MAX_EXITPOLICY_SUMMARY_LEN - 6 - 1 then
           map_option (\<lambda>c. ''accept '' @ take c accepts_str) (last_comma accepts_str (MAX_EXITPOLICY_SUMMARY_LEN - 6 - 1))
         else if length rejects_str < length accepts_str then Some (''reject '' @ rejects_str)
         else Some (''accept '' @ accepts_str))"

definition policy_summarize :: "addr_policy list \<Rightarrow> nat \<Rightarrow> string option" where
  "policy_summarize policy family =
     do {
       summary \<leftarrow> policy_summary_build policy_summary_create family policy;
       summary_text (summary_ranges 1 summary)
     }"

section \<open>Short policies\<close>

record short_policy =
  is_accept :: bool
  entries :: "(nat \<times> nat) list"

text \<open>One round of the loop: the bad entry (\<open>None\<close>), or the ranges it adds and the rest of the text, if it goes on.\<close>

definition short_policy_entry :: "string \<Rightarrow> ((nat \<times> nat) list \<times> string option) option" where
  "short_policy_entry summary =
     (let (low, ok, nxt) = tor_parse_ulong summary 1 65535 True
      in if \<not> ok then
           (if \<not> is_digit (hd summary) \<or> hd summary = CHR '','' then
              Some ([], map_option (\<lambda>k. drop (k + 1) nxt) (strchr CHR '','' nxt))
            else None)
         else if nxt = [] then Some ([(nat low, nat low)], Some [])
         else if hd nxt = CHR '','' then Some ([(nat low, nat low)], Some (tl nxt))
         else if hd nxt = CHR ''-'' then
           (let (high, ok, nxt) = tor_parse_ulong (tl nxt) low 65535 True
            in if \<not> ok then None
               else if nxt = [] then Some ([(nat low, nat high)], Some [])
               else if hd nxt = CHR '','' then Some ([(nat low, nat high)], Some (tl nxt))
               else None)
         else None)"

lemma strto_sign_rest: "snd (strto_sign s) = s \<or> length (snd (strto_sign s)) < length s"
proof -
  have "dropWhile is_space s = s \<or> length (dropWhile is_space s) < length s"
    by (cases s) (auto simp: le_imp_less_Suc length_dropWhile_le)
  then show ?thesis by (auto simp: strto_sign_def split: list.splits)
qed

lemma strtoul10_rest:
  assumes "strtoul10 s = (v, e, r)"
  shows "r = s \<or> length r < length s"
proof -
  obtain neg t where t: "strto_sign s = (neg, t)" by (cases "strto_sign s") auto
  show ?thesis
  proof (cases "takeWhile is_digit t = []")
    case False
    then obtain c u where "t = c # u" "is_digit c" by (cases t) (auto split: if_splits)
    then have "length (dropWhile is_digit t) < length t" by (simp add: le_imp_less_Suc length_dropWhile_le)
    moreover have "length t \<le> length s" using strto_sign_rest [of s] t by auto
    moreover have "r = dropWhile is_digit t" using assms False by (auto simp: strtoul10_def t Let_def split: if_splits)
    ultimately show ?thesis by simp
  qed (use assms in \<open>auto simp: strtoul10_def t Let_def\<close>)
qed

lemma tor_parse_ulong_rest: "tor_parse_ulong s mn mx b = (v, ok, r) \<Longrightarrow> length r \<le> length s \<and> (ok \<longrightarrow> length r < length s)"
proof -
  assume a: "tor_parse_ulong s mn mx b = (v, ok, r)"
  obtain w e q where q: "strtoul10 s = (w, e, q)" by (cases "strtoul10 s") auto
  then have "r = q" "ok \<longrightarrow> q \<noteq> s" using a by (auto simp: tor_parse_ulong_def check_strtox_def split: if_splits)
  then show ?thesis using strtoul10_rest [OF q] by auto
qed

lemma short_policy_entry_shorter:
  assumes "short_policy_entry summary = Some (es, Some r)" "summary \<noteq> []"
  shows "length r < length summary"
proof -
  obtain low ok nxt where p: "tor_parse_ulong summary 1 65535 True = (low, ok, nxt)" by (cases "tor_parse_ulong summary 1 65535 True") auto
  note le = tor_parse_ulong_rest [OF p]
  obtain high ok2 nxt2 where p2: "tor_parse_ulong (tl nxt) low 65535 True = (high, ok2, nxt2)"
    by (cases "tor_parse_ulong (tl nxt) low 65535 True") auto
  note le2 = tor_parse_ulong_rest [OF p2]
  show ?thesis
  proof (cases ok)
    case False
    then obtain k where "strchr CHR '','' nxt = Some k" "r = drop (k + 1) nxt"
      using assms(1) by (auto simp: short_policy_entry_def p split: if_splits)
    moreover from this have "k < length nxt" by (auto simp: strchr_def Let_def split: if_splits)
    ultimately show ?thesis using le by auto
  next
    case True
    then show ?thesis using assms le le2 by (auto simp: short_policy_entry_def p p2 split: if_splits)
  qed
qed

function short_policy_loop :: "string \<Rightarrow> (nat \<times> nat) list \<Rightarrow> (nat \<times> nat) list option" where
  "short_policy_loop summary acc =
     (if summary = [] then Some acc
      else if length acc = MAX_EXITPOLICY_SUMMARY_LEN then None
      else case short_policy_entry summary of
             None \<Rightarrow> None
           | Some (es, None) \<Rightarrow> Some (acc @ es)
           | Some (es, Some nxt) \<Rightarrow> short_policy_loop nxt (acc @ es))"
  by pat_completeness auto
termination
  by (relation "measure (\<lambda>(summary, acc). length summary)") (auto dest: short_policy_entry_shorter)

declare short_policy_loop.simps [simp del]

text \<open>\<open>None\<close> is NULL.\<close>

definition parse_short_policy :: "string \<Rightarrow> short_policy option" where
  "parse_short_policy summary =
     (let body = (\<lambda>acc. case short_policy_loop (drop 7 summary) [] of
                          None \<Rightarrow> None
                        | Some es \<Rightarrow> if es = [] then None else Some \<lparr>is_accept = acc, entries = es\<rparr>)
      in if starts_with summary ''accept '' then body True
         else if starts_with summary ''reject '' then body False
         else None)"

definition write_short_policy :: "short_policy \<Rightarrow> string" where
  "write_short_policy policy =
     (if is_accept policy then ''accept '' else ''reject '') @ join_comma (map port_range_text (entries policy))"

definition compare_tor_addr_to_short_policy :: "bool \<Rightarrow> tor_addr option \<Rightarrow> nat \<Rightarrow> short_policy \<Rightarrow> addr_policy_result option" where
  "compare_tor_addr_to_short_policy reject_internal addr_opt port policy =
     (if port = 0 then None
      else Some (if (case addr_opt of None \<Rightarrow> False
                     | Some a \<Rightarrow> \<not> tor_addr_is_null a \<and> reject_internal \<and>
                                 (tor_addr_is_internal a False \<or> tor_addr_is_loopback a)) then ADDR_POLICY_REJECTED
                 else let found_match = (\<exists>e \<in> set (entries policy). fst e \<le> port \<and> port \<le> snd e);
                          accept = (if found_match then is_accept policy else \<not> is_accept policy)
                      in if accept then ADDR_POLICY_PROBABLY_ACCEPTED else ADDR_POLICY_REJECTED))"

definition short_policy_is_reject_star :: "short_policy \<Rightarrow> bool" where
  "short_policy_is_reject_star policy \<longleftrightarrow> \<not> is_accept policy \<and> entries policy = [(1, 65535)]"

end
