(* ===== verification/Policy_Summary_Correct.thy ===== *)
theory Policy_Summary_Correct
  imports Policies_Correct Policy_Summary
begin

unbundle bit_operations_syntax

text \<open>
  Summaries of exit policies refine a run over the policy for each port separately, the text that is
  published is read back to the same decisions, and a port that a summary accepts is rejected
  for few public addresses only.
\<close>

section \<open>Tilings of the ports\<close>

text \<open>The items cover the ports from \<open>lo\<close> to below \<open>n\<close> in order, without gaps and overlaps.\<close>

fun tiles :: "nat \<Rightarrow> policy_summary_item list \<Rightarrow> nat \<Rightarrow> bool" where
  "tiles lo [] n \<longleftrightarrow> lo = n"
| "tiles lo (it # items) n \<longleftrightarrow> s_min it = lo \<and> lo \<le> s_max it \<and> tiles (s_max it + 1) items n"

fun lookup :: "policy_summary_item list \<Rightarrow> nat \<Rightarrow> nat \<times> bool" where
  "lookup [] port = (0, False)"
| "lookup (it # items) port = (if port \<le> s_max it then (reject_count it, accepted it) else lookup items port)"

lemma tiles_append: "tiles lo (xs @ ys) n \<longleftrightarrow> (\<exists>m. tiles lo xs m \<and> tiles m ys n)"
  by (induction xs arbitrary: lo) auto

lemma tiles_bounds: "tiles lo xs n \<Longrightarrow> lo \<le> n \<and> (\<forall>it \<in> set xs. lo \<le> s_min it \<and> s_min it \<le> s_max it \<and> s_max it < n)"
proof (induction xs arbitrary: lo)
  case (Cons it xs)
  then have "s_max it + 1 \<le> n \<and> (\<forall>it' \<in> set xs. s_max it + 1 \<le> s_min it' \<and> s_min it' \<le> s_max it' \<and> s_max it' < n)"
    by (intro Cons.IH) simp
  then show ?case using Cons.prems by fastforce
qed simp

lemma lookup_append: "tiles lo xs m \<Longrightarrow> lookup (xs @ ys) port = (if port < m \<and> xs \<noteq> [] then lookup xs port else lookup ys port)"
proof (induction xs arbitrary: lo)
  case (Cons it xs)
  then have "s_max it < m" "tiles (s_max it + 1) xs m" using tiles_bounds [OF Cons.prems] by auto
  then show ?case using Cons.IH [of "s_max it + 1"] by auto
qed simp

lemma lookup_split:
  assumes "x \<le> s_max it"
  shows "lookup (us @ it\<lparr>s_max := x\<rparr> # it\<lparr>s_min := y\<rparr> # vs) port = lookup (us @ it # vs) port"
  using assms by (induction us) auto

lemma seek_tiles:
  assumes "tiles m s n" "m \<le> port" "port < n"
  shows "\<exists>us it vs. s = us @ it # vs \<and> tiles m us (s_min it) \<and> tiles (s_max it + 1) vs n \<and> s_min it \<le> port \<and> port \<le> s_max it \<and>
    summary_seek (pre @ s) (length pre) port = Some (length pre + length us)"
  using assms
proof (induction s arbitrary: m pre)
  case (Cons it s)
  show ?case
  proof (cases "s_max it < port")
    case True
    then obtain us jt vs where split: "s = us @ jt # vs" "tiles (s_max it + 1) us (s_min jt)" "tiles (s_max jt + 1) vs n"
      "s_min jt \<le> port" "port \<le> s_max jt"
      "summary_seek ((pre @ [it]) @ s) (length (pre @ [it])) port = Some (length (pre @ [it]) + length us)"
      using Cons.IH [of "s_max it + 1" "pre @ [it]"] Cons.prems by auto
    moreover have "summary_seek (pre @ it # s) (length pre) port = summary_seek ((pre @ [it]) @ s) (length (pre @ [it])) port"
      using True by (subst summary_seek.simps) simp
    ultimately show ?thesis using Cons.prems(1) by (intro exI [of _ "it # us"] exI [of _ jt] exI [of _ vs]) auto
  next
    case False
    have "summary_seek (pre @ it # s) (length pre) port = Some (length pre)" using False by (subst summary_seek.simps) simp
    then show ?thesis using False Cons.prems by (intro exI [of _ "[]"] exI [of _ it] exI [of _ s]) auto
  qed
qed simp

lemma insert_at:
  assumes "1 \<le> x" "x \<le> 65535" "s_min it < x" "x \<le> s_max it"
  shows "summary_insert (us @ it # vs) (length us) x = Some (us @ it\<lparr>s_max := x - 1\<rparr> # it\<lparr>s_min := x\<rparr> # vs)"
proof -
  have "(x + 65535) mod 65536 = x - 1" using assms(1,2) by (cases x) simp_all
  then show ?thesis using assms by (simp add: summary_insert_def policy_summary_item_split_def Let_def)
qed

lemma split_tiles:
  assumes "tiles 1 s 65536" "1 \<le> lo" "lo \<le> hi" "hi \<le> 65535"
  shows "\<exists>us mid vs. policy_summary_split s lo hi = Some (us @ mid @ vs, length us) \<and>
    tiles 1 us lo \<and> tiles lo mid (hi + 1) \<and> tiles (hi + 1) vs 65536 \<and> lookup (us @ mid @ vs) = lookup s \<and>
    length (us @ mid @ vs) \<le> length s + 2"
proof -
  obtain us0 it vs0 where s: "s = us0 @ it # vs0" "tiles 1 us0 (s_min it)" "tiles (s_max it + 1) vs0 65536" "s_min it \<le> lo" "lo \<le> s_max it"
    "summary_seek s 0 lo = Some (length us0)"
    using seek_tiles [of 1 s 65536 lo "[]"] assms by auto
  have itb: "s_min it \<le> s_max it" using s(4,5) by simp
  obtain us rest where front: "(if s_min (s ! length us0) \<noteq> lo then map_option (\<lambda>l. (l, length us0 + 1)) (summary_insert s (length us0) lo)
        else Some (s, length us0)) = Some (us @ rest, length us)" "tiles 1 us lo" "tiles lo rest 65536" "lookup (us @ rest) = lookup s"
      "length (us @ rest) \<le> length s + 1"
  proof (cases "s_min it = lo")
    case True
    then show ?thesis using s that [of us0 "it # vs0"] by simp
  next
    case False
    then have "summary_insert s (length us0) lo = Some (us0 @ it\<lparr>s_max := lo - 1\<rparr> # it\<lparr>s_min := lo\<rparr> # vs0)"
      using insert_at [of lo it us0 vs0] s assms by simp
    moreover have "lookup (us0 @ it\<lparr>s_max := lo - 1\<rparr> # it\<lparr>s_min := lo\<rparr> # vs0) = lookup s"
      using s(1,5) lookup_split [of "lo - 1" it us0 lo vs0] by auto
    ultimately show ?thesis
      using s False assms(2) that [of "us0 @ [it\<lparr>s_max := lo - 1\<rparr>]" "it\<lparr>s_min := lo\<rparr> # vs0"] by (auto simp: tiles_append)
  qed
  obtain ms jt vs1 where r: "rest = ms @ jt # vs1" "tiles lo ms (s_min jt)" "tiles (s_max jt + 1) vs1 65536" "s_min jt \<le> hi" "hi \<le> s_max jt"
    "summary_seek (us @ rest) (length us) hi = Some (length us + length ms)"
    using seek_tiles [of lo rest 65536 hi us] front(3) assms by auto
  have jmax: "s_max jt \<le> 65535" using tiles_bounds [OF r(3)] by simp
  have unf: "policy_summary_split s lo hi =
      (if s_max ((us @ rest) ! (length us + length ms)) \<noteq> hi
       then map_option (\<lambda>l. (l, length us)) (summary_insert (us @ rest) (length us + length ms) ((hi + 1) mod 65536))
       else Some (us @ rest, length us))"
    unfolding policy_summary_split_def s(6) bind.bind_lunit front(1) using r(6) by (simp add: map_conv_bind_option comp_def)
  show ?thesis
  proof (cases "s_max jt = hi")
    case True
    then show ?thesis
      using unf r front by (intro exI [of _ us] exI [of _ "ms @ [jt]"] exI [of _ vs1]) (auto simp: tiles_append nth_append)
  next
    case False
    then have x: "1 \<le> hi + 1" "hi + 1 \<le> 65535" "s_min jt < hi + 1" "hi + 1 \<le> s_max jt" "(hi + 1) mod 65536 = hi + 1" using r(4,5) jmax by auto
    have "summary_insert (us @ rest) (length us + length ms) ((hi + 1) mod 65536) =
        Some ((us @ ms) @ jt\<lparr>s_max := hi\<rparr> # jt\<lparr>s_min := hi + 1\<rparr> # vs1)"
      using insert_at [OF x(1-4), of "us @ ms" vs1] x(5) r(1) by simp
    moreover have "lookup ((us @ ms) @ jt\<lparr>s_max := hi\<rparr> # jt\<lparr>s_min := hi + 1\<rparr> # vs1) = lookup (us @ rest)"
      using lookup_split [of hi jt "us @ ms" "hi + 1" vs1] x(4) r(1) by auto
    ultimately show ?thesis
      using unf r front False x(4)
      by (intro exI [of _ us] exI [of _ "ms @ [jt\<lparr>s_max := hi\<rparr>]"] exI [of _ "jt\<lparr>s_min := hi + 1\<rparr> # vs1"]) (auto simp: tiles_append nth_append)
  qed
qed

lemma update_tiles:
  assumes "tiles lo mid (hi + 1)" "tiles (hi + 1) vs 65536" "\<And>it. s_max (f it) = s_max it"
  shows "summary_update f hi (us @ mid @ vs) (length us) = Some (us @ map f mid @ vs)"
  using assms(1)
proof (induction mid arbitrary: us lo)
  case Nil
  show ?case
  proof (cases vs)
    case Nil
    then show ?thesis using assms(2) by (subst summary_update.simps) simp
  next
    case (Cons v r)
    then have "hi < s_max v" using tiles_bounds [OF assms(2)] by auto
    then show ?thesis unfolding Cons by (subst summary_update.simps) (simp add: nth_append)
  qed
next
  case (Cons it mid)
  then have "s_max it \<le> hi" using tiles_bounds [OF Cons.prems] by auto
  then have "summary_update f hi (us @ (it # mid) @ vs) (length us) = summary_update f hi ((us @ [f it]) @ mid @ vs) (length (us @ [f it]))"
    by (subst summary_update.simps) (simp add: nth_append list_update_append)
  then show ?case using Cons.IH [of "s_max it + 1" "us @ [f it]"] Cons.prems by simp
qed

section \<open>One port at a time\<close>

text \<open>The effect of an entry on the count and the verdict of a single port.\<close>

definition reject_weight :: "nat \<Rightarrow> nat \<Rightarrow> nat" where
  "reject_weight family bits =
     (if family = 2 then (if bits > 32 then 0 else 2 ^ (32 - bits))
      else if bits > 64 then 0 else if bits = 0 then UINT64_MAX else 2 ^ (64 - bits))"

definition port_step :: "nat \<Rightarrow> nat \<times> bool \<Rightarrow> addr_policy \<Rightarrow> nat \<times> bool" where
  "port_step port st e =
     (let family = tor_addr_family (paddr e)
      in if \<not> (prt_min e \<le> port \<and> port \<le> prt_max e) then st
         else if policy_type e = ADDR_POLICY_ACCEPT then
           (fst st, snd st \<or> maskbits e = 0 \<and> fst st \<le> reject_cutoff family)
         else if private_entry e private_nets = Some True then st
         else (min UINT64_MAX (fst st + reject_weight family (maskbits e)), snd st))"

definition port_summary :: "nat \<Rightarrow> nat \<Rightarrow> addr_policy list \<Rightarrow> nat \<times> bool" where
  "port_summary family port policy =
     foldl (port_step port) (0, False) (filter (\<lambda>e. tor_addr_family (paddr e) = family) policy)"

definition ports_ok :: "addr_policy \<Rightarrow> bool" where
  "ports_ok e \<longleftrightarrow> 1 \<le> prt_min e \<and> prt_min e \<le> prt_max e \<and> prt_max e \<le> 65535"

definition counts_ok :: "policy_summary_item list \<Rightarrow> bool" where
  "counts_ok s \<longleftrightarrow> (\<forall>it \<in> set s. reject_count it \<le> UINT64_MAX)"

lemma lookup_map:
  assumes "tiles lo mid n" "\<And>it. s_max (f it) = s_max it" "\<And>it. (reject_count (f it), accepted (f it)) = g (reject_count it, accepted it)"
    "lo \<le> port" "port < n"
  shows "lookup (map f mid) port = g (lookup mid port)"
  using assms(1,4,5)
proof (induction mid arbitrary: lo)
  case (Cons it mid)
  then show ?case using assms(2,3) [of it] Cons.IH [of "s_max it + 1"] by auto
qed simp

lemma lookup_update:
  assumes "tiles 1 us lo" "tiles lo mid (hi + 1)" "tiles (hi + 1) vs 65536" "lo \<le> hi"
    and "\<And>it. s_max (f it) = s_max it \<and> s_min (f it) = s_min it"
    and "\<And>it. (reject_count (f it), accepted (f it)) = g (reject_count it, accepted it)"
  shows "1 \<le> port \<Longrightarrow> lookup (us @ map f mid @ vs) port =
           (if lo \<le> port \<and> port \<le> hi then g (lookup (us @ mid @ vs) port) else lookup (us @ mid @ vs) port)"
    and "tiles 1 (us @ map f mid @ vs) 65536"
proof -
  have t: "tiles lo (map f mid) (hi + 1)" using assms(2)
  proof (induction mid arbitrary: lo)
    case (Cons it mid)
    then show ?case using assms(5) [of it] by simp
  qed simp
  then show "tiles 1 (us @ map f mid @ vs) 65536" using assms by (auto simp: tiles_append)
  have ne: "mid \<noteq> []" using assms(2,4) by auto
  have "us = [] \<Longrightarrow> lo = 1" using assms(1) by auto
  then show "lookup (us @ map f mid @ vs) port =
      (if lo \<le> port \<and> port \<le> hi then g (lookup (us @ mid @ vs) port) else lookup (us @ mid @ vs) port)" if "1 \<le> port"
    using lookup_append [OF assms(1)] lookup_append [OF assms(2)] lookup_append [OF t] ne that
      lookup_map [OF assms(2), of f g port] assms(5,6)
    by auto
qed

lemma accept_item_simps:
  "s_max (accept_item fam it) = s_max it" "s_min (accept_item fam it) = s_min it"
  "(reject_count (accept_item fam it), accepted (accept_item fam it)) =
   (\<lambda>st. (fst st, snd st \<or> fst st \<le> reject_cutoff fam)) (reject_count it, accepted it)"
  by (auto simp: accept_item_def)

lemma reject_item_simps:
  assumes "count \<le> UINT64_MAX"
  shows "s_max (reject_item count it) = s_max it" "s_min (reject_item count it) = s_min it"
  "(reject_count (reject_item count it), accepted (reject_item count it)) =
   (\<lambda>st. (min UINT64_MAX (fst st + count), snd st)) (reject_count it, accepted it)"
  using assms by (auto simp: reject_item_def)

lemma parse_ipv4_net:
  assumes "tor_inet_ntoa a = t" "split_pattern s = Some (t, Some m, None)" "length s \<le> 80" "t \<noteq> ''*''" "pton_ipv6 t = Rejected"
    "parse_mask_part (Some m) (AF_INET a) False = Some b"
  shows "tor_addr_parse_mask_ports s no_tapmp False = Parsed (AF_INET a, b, 0, 0)"
  using assms inet_aton_ntoa [of a]
  by (simp add: tor_addr_parse_mask_ports_def no_tapmp_def MAX_ADDRESS_LENGTH_def parse_address_part_def tor_inet_pton_def)

lemma ntoa_nets:
  "tor_inet_ntoa 0 = ''0.0.0.0''" "tor_inet_ntoa 0xa9fe0000 = ''169.254.0.0''" "tor_inet_ntoa 0x7f000000 = ''127.0.0.0''"
  "tor_inet_ntoa 0xc0a80000 = ''192.168.0.0''" "tor_inet_ntoa 0x0a000000 = ''10.0.0.0''" "tor_inet_ntoa 0xac100000 = ''172.16.0.0''"
  by (simp_all add: tor_inet_ntoa_def Let_def show_nat.simps digit_char_def char_of_eq_iff)

lemma parse_private_nets:
  "tor_addr_parse_mask_ports ''0.0.0.0/8'' no_tapmp False = Parsed (AF_INET 0, 8, 0, 0)"
  "tor_addr_parse_mask_ports ''169.254.0.0/16'' no_tapmp False = Parsed (AF_INET 0xa9fe0000, 16, 0, 0)"
  "tor_addr_parse_mask_ports ''127.0.0.0/8'' no_tapmp False = Parsed (AF_INET 0x7f000000, 8, 0, 0)"
  "tor_addr_parse_mask_ports ''192.168.0.0/16'' no_tapmp False = Parsed (AF_INET 0xc0a80000, 16, 0, 0)"
  "tor_addr_parse_mask_ports ''10.0.0.0/8'' no_tapmp False = Parsed (AF_INET 0x0a000000, 8, 0, 0)"
  "tor_addr_parse_mask_ports ''172.16.0.0/12'' no_tapmp False = Parsed (AF_INET 0xac100000, 12, 0, 0)"
  by (rule parse_ipv4_net, rule ntoa_nets, code_simp, simp, simp, code_simp, code_simp)+

lemma parse_private_nets6:
  "tor_addr_parse_mask_ports ''[::]/8'' no_tapmp False = Parsed (AF_INET6 nil_bytes, 8, 0, 0)"
  "tor_addr_parse_mask_ports ''[fc00::]/7'' no_tapmp False = Parsed (AF_INET6 (0xfc # replicate 15 0), 7, 0, 0)"
  "tor_addr_parse_mask_ports ''[fe80::]/10'' no_tapmp False = Parsed (AF_INET6 (0xfe # 0x80 # replicate 14 0), 10, 0, 0)"
  "tor_addr_parse_mask_ports ''[fec0::]/10'' no_tapmp False = Parsed (AF_INET6 (0xfe # 0xc0 # replicate 14 0), 10, 0, 0)"
  "tor_addr_parse_mask_ports ''[ff00::]/8'' no_tapmp False = Parsed (AF_INET6 (0xff # replicate 15 0), 8, 0, 0)"
  "tor_addr_parse_mask_ports ''[::]/127'' no_tapmp False = Parsed (AF_INET6 nil_bytes, 127, 0, 0)"
  by code_simp+
lemmas private_nets_parse = private_nets_def parse_private_nets parse_private_nets6

lemma private_entry_some:
  assumes "\<forall>net \<in> set nets. \<exists>a m x y. tor_addr_parse_mask_ports net no_tapmp False = Parsed (a, m, x, y)"
  shows "\<exists>b. private_entry p nets = Some b"
  using assms by (induction nets) (force split: parsed.splits)+

lemma private_entryD:
  assumes "private_entry p nets = Some True"
  shows "\<exists>net \<in> set nets. \<exists>a x y. tor_addr_parse_mask_ports net no_tapmp False = Parsed (a, maskbits p, x, y) \<and>
    tor_addr_compare (paddr p) a CMP_EXACT = 0"
  using assms
proof (induction nets)
  case (Cons net nets)
  then show ?case by (cases "tor_addr_parse_mask_ports net no_tapmp False") (auto split: if_splits)
qed simp

lemma private_nets_ok: "\<forall>net \<in> set private_nets. \<exists>a m x y. tor_addr_parse_mask_ports net no_tapmp False = Parsed (a, m, x, y)"
  unfolding private_nets_parse(1) by (simp add: private_nets_parse(2-))

lemma private_entry_total: "\<exists>b. private_entry p private_nets = Some b"
  by (rule private_entry_some [OF private_nets_ok])

lemma add_item_refines:
  assumes "tiles 1 s 65536" "ports_ok e"
  shows "\<exists>s'. policy_summary_add_item s e = Some s' \<and> tiles 1 s' 65536 \<and> length s' \<le> length s + 2 \<and>
    (\<forall>port \<ge> 1. port \<le> 65535 \<longrightarrow> fst (lookup s port) \<le> UINT64_MAX \<longrightarrow> lookup s' port = port_step port (lookup s port) e)"
proof -
  let ?fam = "tor_addr_family (paddr e)"
  obtain us mid vs where split: "policy_summary_split s (prt_min e) (prt_max e) = Some (us @ mid @ vs, length us)"
    "tiles 1 us (prt_min e)" "tiles (prt_min e) mid (prt_max e + 1)" "tiles (prt_max e + 1) vs 65536" "lookup (us @ mid @ vs) = lookup s"
    "length (us @ mid @ vs) \<le> length s + 2"
    using split_tiles [OF assms(1), of "prt_min e" "prt_max e"] assms(2) by (auto simp: ports_ok_def)
  have le: "prt_min e \<le> prt_max e" using assms(2) by (simp add: ports_ok_def)
  note upd = update_tiles [OF split(3,4)]
  note look = lookup_update [OF split(2-4) le]
  show ?thesis
  proof (cases "policy_type e")
    case ADDR_POLICY_ACCEPT
    show ?thesis
    proof (cases "maskbits e = 0")
      case True
      have "policy_summary_add_item s e = Some (us @ map (accept_item ?fam) mid @ vs)"
        using True ADDR_POLICY_ACCEPT split(1) upd [of "accept_item ?fam" us] accept_item_simps(1)
        by (simp add: policy_summary_add_item_def policy_summary_accept_def)
      then show ?thesis
        using look [of "accept_item ?fam" "\<lambda>st. (fst st, snd st \<or> fst st \<le> reject_cutoff ?fam)"] accept_item_simps [of ?fam]
          split(5,6) True ADDR_POLICY_ACCEPT
        by (simp add: port_step_def Let_def)
    next
      case False
      then show ?thesis using ADDR_POLICY_ACCEPT assms(1) by (simp add: policy_summary_add_item_def port_step_def Let_def)
    qed
  next
    case ADDR_POLICY_REJECT
    obtain b where b: "private_entry e private_nets = Some b" using private_entry_total by blast
    define addrbits where "addrbits = (if ?fam = 2 then 32 else 64 :: nat)"
    define w where "w = reject_weight ?fam (maskbits e)"
    have wmax: "w \<le> UINT64_MAX"
    proof -
      have "(2 :: nat) ^ k \<le> UINT64_MAX" if "k \<le> 63" for k
        using power_increasing [OF that, of "2 :: nat"] by (simp add: UINT64_MAX_def)
      from this [of "32 - maskbits e"] this [of "64 - maskbits e"] show ?thesis unfolding w_def reject_weight_def by auto
    qed
    consider "b" | "\<not> b" "maskbits e > addrbits" | "\<not> b" "maskbits e \<le> addrbits" by linarith
    then show ?thesis
    proof cases
      case 1
      then show ?thesis using ADDR_POLICY_REJECT assms(1) b by (simp add: policy_summary_add_item_def port_step_def Let_def)
    next
      case 2
      then have "policy_summary_add_item s e = Some (us @ mid @ vs)" "w = 0"
        using ADDR_POLICY_REJECT b split(1)
        by (auto simp: policy_summary_add_item_def policy_summary_reject_def addrbits_def w_def reject_weight_def split: if_splits)
      moreover have "tiles 1 (us @ mid @ vs) 65536" using split by (auto simp: tiles_append)
      ultimately show ?thesis
        using ADDR_POLICY_REJECT b 2 split(5,6) by (auto simp: port_step_def Let_def w_def [symmetric] min_absorb2)
    next
      case 3
      then have "policy_summary_add_item s e = Some (us @ map (reject_item w) mid @ vs)"
        using ADDR_POLICY_REJECT b split(1) upd [of "reject_item w" us] reject_item_simps(1) [OF wmax]
        by (auto simp: policy_summary_add_item_def policy_summary_reject_def addrbits_def w_def reject_weight_def split: if_splits)
      then show ?thesis
        using look [of "reject_item w" "\<lambda>st. (min UINT64_MAX (fst st + w), snd st)"] reject_item_simps [OF wmax]
          split(5,6) ADDR_POLICY_REJECT b 3(1)
        by (simp add: port_step_def Let_def w_def [symmetric])
    qed
  qed
qed

lemma build_refines:
  assumes "tiles 1 s 65536" "\<forall>e \<in> set policy. tor_addr_family (paddr e) = family \<longrightarrow> ports_ok e"
    "\<forall>port \<ge> 1. port \<le> 65535 \<longrightarrow> fst (lookup s port) \<le> UINT64_MAX"
  shows "\<exists>s'. policy_summary_build s family policy = Some s' \<and> tiles 1 s' 65536 \<and> length s' \<le> length s + 2 * length policy \<and>
    (\<forall>port \<ge> 1. port \<le> 65535 \<longrightarrow>
       lookup s' port = foldl (port_step port) (lookup s port) (filter (\<lambda>e. tor_addr_family (paddr e) = family) policy))"
  using assms
proof (induction policy arbitrary: s)
  case (Cons e policy)
  show ?case
  proof (cases "tor_addr_family (paddr e) = family")
    case True
    then obtain s1 where s1: "policy_summary_add_item s e = Some s1" "tiles 1 s1 65536" "length s1 \<le> length s + 2"
      "\<forall>port \<ge> 1. port \<le> 65535 \<longrightarrow> lookup s1 port = port_step port (lookup s port) e"
      using add_item_refines [OF Cons.prems(1), of e] Cons.prems(2,3) by auto
    have "\<forall>port \<ge> 1. port \<le> 65535 \<longrightarrow> fst (lookup s1 port) \<le> UINT64_MAX"
      using s1(4) Cons.prems(3) by (auto simp: port_step_def Let_def)
    then obtain s' where "policy_summary_build s1 family policy = Some s'" "tiles 1 s' 65536" "length s' \<le> length s1 + 2 * length policy"
      "\<forall>port \<ge> 1. port \<le> 65535 \<longrightarrow>
         lookup s' port = foldl (port_step port) (lookup s1 port) (filter (\<lambda>e. tor_addr_family (paddr e) = family) policy)"
      using Cons.IH [OF s1(2)] Cons.prems(2) by auto
    then show ?thesis using True s1 by simp
  next
    case False
    then obtain s' where "policy_summary_build s family policy = Some s'" "tiles 1 s' 65536" "length s' \<le> length s + 2 * length policy"
      "\<forall>port \<ge> 1. port \<le> 65535 \<longrightarrow>
         lookup s' port = foldl (port_step port) (lookup s port) (filter (\<lambda>e. tor_addr_family (paddr e) = family) policy)"
      using Cons.IH [OF Cons.prems(1)] Cons.prems(2,3) by auto
    then show ?thesis using False by simp
  qed
qed simp

section \<open>Ranges\<close>

definition range_has :: "nat \<times> nat \<Rightarrow> nat \<Rightarrow> bool" where
  "range_has r port \<longleftrightarrow> fst r \<le> port \<and> port \<le> snd r"

definition range_ok :: "nat \<times> nat \<Rightarrow> bool" where
  "range_ok r \<longleftrightarrow> 1 \<le> fst r \<and> fst r \<le> snd r \<and> snd r \<le> 65535"

lemma summary_ranges_exact:
  assumes "tiles m items n" "items \<noteq> []" "start \<le> m"
  shows "length (summary_ranges start items) \<le> length items \<and>
    (\<forall>r \<in> set (summary_ranges start items). start \<le> fst (fst r) \<and> fst (fst r) \<le> snd (fst r) \<and> snd (fst r) < n) \<and>
    (\<forall>port v. start \<le> port \<longrightarrow> port < n \<longrightarrow>
      (\<exists>r \<in> set (summary_ranges start items). range_has (fst r) port \<and> snd r = v) \<longleftrightarrow> v = snd (lookup items port))"
  using assms
proof (induction start items arbitrary: m rule: summary_ranges.induct)
  case (2 start it)
  then show ?case by (auto simp: range_has_def)
next
  case (3 start it nxt items)
  have t: "s_min nxt = s_max it + 1" "s_min nxt \<le> s_max nxt" "tiles (s_max it + 1) (nxt # items) n" "m \<le> s_max it"
    using 3(3) by auto
  have n: "s_max nxt < n" using tiles_bounds [OF t(3)] by simp
  show ?case
  proof (cases "accepted it \<noteq> accepted nxt")
    case True
    have "length (summary_ranges (s_min nxt) (nxt # items)) \<le> length (nxt # items) \<and>
      (\<forall>r \<in> set (summary_ranges (s_min nxt) (nxt # items)). s_min nxt \<le> fst (fst r) \<and> fst (fst r) \<le> snd (fst r) \<and> snd (fst r) < n) \<and>
      (\<forall>port v. s_min nxt \<le> port \<longrightarrow> port < n \<longrightarrow>
        (\<exists>r \<in> set (summary_ranges (s_min nxt) (nxt # items)). range_has (fst r) port \<and> snd r = v) \<longleftrightarrow> v = snd (lookup (nxt # items) port))"
      using 3(1) [OF True t(3)] t(1) by simp
    then have ih: "length (summary_ranges (s_min nxt) (nxt # items)) \<le> length (nxt # items)"
      "\<forall>r \<in> set (summary_ranges (s_min nxt) (nxt # items)). s_min nxt \<le> fst (fst r) \<and> fst (fst r) \<le> snd (fst r) \<and> snd (fst r) < n"
      "\<And>port v. s_min nxt \<le> port \<Longrightarrow> port < n \<Longrightarrow>
        (\<exists>r \<in> set (summary_ranges (s_min nxt) (nxt # items)). range_has (fst r) port \<and> snd r = v) \<longleftrightarrow> v = snd (lookup (nxt # items) port)"
      by blast+
    have step: "summary_ranges start (it # nxt # items) = ((start, s_max it), accepted it) # summary_ranges (s_min nxt) (nxt # items)"
      using True by simp
    have "(\<exists>r \<in> set (summary_ranges start (it # nxt # items)). range_has (fst r) port \<and> snd r = v) \<longleftrightarrow> v = snd (lookup (it # nxt # items) port)"
      if "start \<le> port" "port < n" for port v
    proof (cases "port \<le> s_max it")
      case True
      then have "\<not> range_has (fst r) port" if "r \<in> set (summary_ranges (s_min nxt) (nxt # items))" for r
        using ih(2) that t(1) by (auto simp: range_has_def)
      then show ?thesis using True that unfolding step by (auto simp: range_has_def)
    next
      case False
      then show ?thesis using ih(3) [of port v] that t(1) unfolding step by (auto simp: range_has_def)
    qed
    then show ?thesis using ih(1,2) t n 3(5) unfolding step by auto
  next
    case False
    have "length (summary_ranges start (nxt # items)) \<le> length (nxt # items) \<and>
      (\<forall>r \<in> set (summary_ranges start (nxt # items)). start \<le> fst (fst r) \<and> fst (fst r) \<le> snd (fst r) \<and> snd (fst r) < n) \<and>
      (\<forall>port v. start \<le> port \<longrightarrow> port < n \<longrightarrow>
        (\<exists>r \<in> set (summary_ranges start (nxt # items)). range_has (fst r) port \<and> snd r = v) \<longleftrightarrow> v = snd (lookup (nxt # items) port))"
      using 3(2) [OF False t(3)] 3(5) t(4) by simp
    moreover have "snd (lookup (it # nxt # items) port) = snd (lookup (nxt # items) port)" for port using False t(1,2) by auto
    ultimately show ?thesis using False by simp
  qed
qed simp

section \<open>Text\<close>

lemma parse_range_entry:
  assumes "range_ok r" "rest = [] \<or> (\<exists>t. rest = CHR '','' # t)"
  shows "short_policy_entry (port_range_text r @ rest) = Some ([r], Some (case rest of [] \<Rightarrow> [] | c # t \<Rightarrow> t))"
proof -
  have ul: "(65535 :: int) \<le> ULONG_MAX" by (simp add: ULONG_MAX_def)
  have nd: "\<not> is_digit CHR ''-''" "\<not> is_digit CHR '',''" by (simp_all add: is_digit_def)
  have rest: "rest = [] \<or> \<not> is_digit (hd rest)" using assms(2) nd by auto
  have ok: "1 \<le> int (fst r)" "int (fst r) \<le> int (snd r)" "int (snd r) \<le> 65535" "int (fst r) \<le> 65535" using assms(1) by (auto simp: range_ok_def)
  show ?thesis
  proof (cases "fst r = snd r")
    case True
    have "tor_parse_ulong (show_nat (fst r) @ rest) 1 65535 True = (int (fst r), True, rest)"
      using ok rest ul by (intro tor_parse_ulong_show_nat) auto
    moreover have "(fst r, fst r) = r" using True by (simp add: prod_eq_iff)
    ultimately show ?thesis using assms(2) unfolding port_range_text_def if_P [OF True] by (auto simp: short_policy_entry_def)
  next
    case False
    have "tor_parse_ulong (show_nat (fst r) @ CHR ''-'' # show_nat (snd r) @ rest) 1 65535 True =
        (int (fst r), True, CHR ''-'' # show_nat (snd r) @ rest)"
      using ok nd ul by (intro tor_parse_ulong_show_nat) auto
    moreover have "tor_parse_ulong (show_nat (snd r) @ rest) (int (fst r)) 65535 True = (int (snd r), True, rest)"
      using ok rest ul by (intro tor_parse_ulong_show_nat) auto
    ultimately show ?thesis using False assms(2) by (auto simp: short_policy_entry_def port_range_text_def)
  qed
qed

lemma port_range_text_nonempty [simp]: "port_range_text r \<noteq> []"
  by (simp add: port_range_text_def)

lemma join_comma_nonempty: "rs \<noteq> [] \<Longrightarrow> join_comma (map port_range_text rs) \<noteq> []"
  by (cases rs rule: list.exhaust; cases "tl rs") auto

lemma short_policy_loop_ranges:
  assumes "\<forall>r \<in> set rs. range_ok r" "length acc + length rs \<le> 1000"
  shows "short_policy_loop (join_comma (map port_range_text rs)) acc = Some (acc @ rs)"
  using assms
proof (induction rs arbitrary: acc)
  case Nil
  then show ?case by (subst short_policy_loop.simps) simp
next
  case (Cons r rs)
  have len: "length acc \<noteq> MAX_EXITPOLICY_SUMMARY_LEN" using Cons.prems(2) by (simp add: MAX_EXITPOLICY_SUMMARY_LEN_def)
  show ?case
  proof (cases rs)
    case Nil
    then show ?thesis
      using len parse_range_entry [of r "[]"] Cons.prems by (subst short_policy_loop.simps) (simp add: short_policy_loop.simps [of "[]"])
  next
    case (Cons r2 rs2)
    then have shape: "join_comma (map port_range_text (r # rs)) = port_range_text r @ CHR '','' # join_comma (map port_range_text rs)" by simp
    show ?thesis
      unfolding shape using len parse_range_entry [of r "CHR '','' # join_comma (map port_range_text rs)"] Cons.IH [of "acc @ [r]"] Cons.prems
      by (subst short_policy_loop.simps) simp
  qed
qed

lemma parse_ranges:
  assumes "\<forall>r \<in> set rs. range_ok r" "length rs \<le> 1000" "rs \<noteq> []"
  shows "parse_short_policy (''accept '' @ join_comma (map port_range_text rs)) = Some \<lparr>is_accept = True, entries = rs\<rparr>"
    and "parse_short_policy (''reject '' @ join_comma (map port_range_text rs)) = Some \<lparr>is_accept = False, entries = rs\<rparr>"
  using short_policy_loop_ranges [OF assms(1), of "[]"] assms(2,3)
  by (simp_all add: parse_short_policy_def starts_with_def Let_def)

lemma length_join: "2 * length rs \<le> length (join_comma (map port_range_text rs)) + 1"
proof (induction rs rule: induct_list012)
  case (3 r r2 rs)
  have "1 \<le> length (port_range_text r)" by (cases "port_range_text r") auto
  then show ?case using 3 by simp
qed (auto simp: Suc_le_eq)

lemma length_range_text:
  assumes "range_ok r"
  shows "length (port_range_text r) \<le> 11"
proof -
  have "fst r < 10 ^ 5" "snd r < 10 ^ 5" using assms by (auto simp: range_ok_def)
  then have "length (show_nat (fst r)) \<le> 5" "length (show_nat (snd r)) \<le> 5" by (auto intro: length_show_nat)
  then show ?thesis by (simp add: port_range_text_def)
qed

lemma length_join_le: "\<forall>r \<in> set rs. range_ok r \<Longrightarrow> length (join_comma (map port_range_text rs)) \<le> 12 * length rs"
proof (induction rs rule: induct_list012)
  case (2 r)
  then show ?case using length_range_text [of r] by simp
next
  case (3 r r2 rs)
  then show ?case using length_range_text [of r] by simp
qed simp

lemma range_text_no_comma: "CHR '','' \<notin> set (port_range_text r)"
  using show_nat_digits [of "CHR '',''"] by (auto simp: port_range_text_def is_digit_def)

lemma last_comma_found:
  assumes "s ! i = CHR '',''" "i \<le> c"
  shows "\<exists>j \<le> c. last_comma s c = Some j \<and> s ! j = CHR '',''"
  using assms
proof (induction c)
  case (Suc c)
  show ?case
  proof (cases "s ! Suc c = CHR '',''")
    case False
    then have "i \<le> c" using Suc.prems by (cases "i = Suc c") auto
    then show ?thesis using Suc.IH [OF Suc.prems(1)] False by auto
  qed simp
qed simp

lemma cut_at_comma:
  assumes "c < length (join_comma (map port_range_text rs))" "join_comma (map port_range_text rs) ! c = CHR '',''"
  shows "\<exists>k. 0 < k \<and> k < length rs \<and> take c (join_comma (map port_range_text rs)) = join_comma (map port_range_text (take k rs))"
  using assms
proof (induction rs arbitrary: c rule: induct_list012)
  case (2 r)
  then show ?case using range_text_no_comma [of r] nth_mem by fastforce
next
  case (3 r r2 rs)
  have shape: "join_comma (map port_range_text (r # r2 # rs)) = port_range_text r @ CHR '','' # join_comma (map port_range_text (r2 # rs))" by simp
  consider "c < length (port_range_text r)" | "c = length (port_range_text r)" | d where "c = length (port_range_text r) + 1 + d"
    by (metis add.assoc add.commute less_imp_Suc_add linorder_neqE_nat plus_1_eq_Suc)
  then show ?case
  proof cases
    case 1
    then have "CHR '','' \<in> set (port_range_text r)" using 3(4) unfolding shape by (metis nth_append nth_mem)
    then show ?thesis using range_text_no_comma by blast
  next
    case 2
    then show ?thesis unfolding shape by (intro exI [of _ 1]) simp
  next
    case 3
    then have "d < length (join_comma (map port_range_text (r2 # rs)))" "join_comma (map port_range_text (r2 # rs)) ! d = CHR '',''"
      using "3.prems" unfolding shape by (auto simp: nth_append)
    then obtain k where "0 < k" "k < length (r2 # rs)" "take d (join_comma (map port_range_text (r2 # rs))) = join_comma (map port_range_text (take k (r2 # rs)))"
      using "3.IH"(2) by blast
    moreover from this(1) obtain k' where "k = Suc k'" by (cases k) auto
    ultimately show ?thesis unfolding shape using 3 by (intro exI [of _ "Suc k"]) simp
  qed
qed simp

definition short_accepts :: "short_policy \<Rightarrow> nat \<Rightarrow> bool" where
  "short_accepts sp port \<longleftrightarrow> (\<exists>e \<in> set (entries sp). range_has e port) = is_accept sp"

lemma summary_text_parse:
  assumes ok: "\<forall>r \<in> set ranges. range_ok (fst r)"
    and exact: "\<And>port v. 1 \<le> port \<Longrightarrow> port \<le> 65535 \<Longrightarrow> (\<exists>r \<in> set ranges. range_has (fst r) port \<and> snd r = v) \<longleftrightarrow> v = V port"
  shows "\<exists>t sp. summary_text ranges = Some t \<and> parse_short_policy t = Some sp \<and>
    (\<forall>port \<ge> 1. port \<le> 65535 \<longrightarrow> (short_accepts sp port \<longrightarrow> V port) \<and> (length ranges \<le> 82 \<longrightarrow> V port \<longrightarrow> short_accepts sp port))"
proof -
  define A where "A = map fst (filter snd ranges)"
  define R where "R = map fst (filter (\<lambda>r. \<not> snd r) ranges)"
  let ?A = "join_comma (map port_range_text A)" and ?R = "join_comma (map port_range_text R)"
  have okA: "\<forall>r \<in> set A. range_ok r" and okR: "\<forall>r \<in> set R. range_ok r" using ok by (auto simp: A_def R_def)
  have hasA: "(\<exists>e \<in> set A. range_has e port) \<longleftrightarrow> V port" if "1 \<le> port" "port \<le> 65535" for port
    using exact [OF that, of True] by (force simp: A_def)
  have hasR: "(\<exists>e \<in> set R. range_has e port) \<longleftrightarrow> \<not> V port" if "1 \<le> port" "port \<le> 65535" for port
    using exact [OF that, of False] by (force simp: R_def)
  have full: "join_comma (map port_range_text [(1, 65535)]) = ''1-65535''" "range_ok (1, 65535)"
    by (simp_all add: port_range_text_def show_nat.simps digit_char_def char_of_eq_iff range_ok_def)
  have fullhas: "range_has (1, 65535) port" if "1 \<le> port" "port \<le> 65535" for port using that by (simp add: range_has_def)
  have st: "summary_text ranges =
     (if A = [] then Some ''reject 1-65535'' else if R = [] then Some ''accept 1-65535''
      else if length ?R > 993 \<and> length ?A > 993 then map_option (\<lambda>c. ''accept '' @ take c ?A) (last_comma ?A 993)
      else if length ?R < length ?A then Some (''reject '' @ ?R) else Some (''accept '' @ ?A))"
    unfolding summary_text_def Let_def A_def R_def MAX_EXITPOLICY_SUMMARY_LEN_def by (simp add: comp_def)
  have short: "length rs \<le> 1000" if "length (join_comma (map port_range_text rs)) \<le> 993" for rs using length_join [of rs] that by simp
  consider "A = []" | "A \<noteq> []" "R = []" | "A \<noteq> []" "R \<noteq> []" "length ?R > 993 \<and> length ?A > 993"
    | "A \<noteq> []" "R \<noteq> []" "\<not> (length ?R > 993 \<and> length ?A > 993)" "length ?R < length ?A"
    | "A \<noteq> []" "R \<noteq> []" "\<not> (length ?R > 993 \<and> length ?A > 993)" "\<not> length ?R < length ?A" by blast
  then show ?thesis
  proof cases
    case 1
    then have "\<not> V port" if "1 \<le> port" "port \<le> 65535" for port using hasA [OF that] by simp
    moreover have "parse_short_policy ''reject 1-65535'' = Some \<lparr>is_accept = False, entries = [(1, 65535)]\<rparr>"
      using parse_ranges(2) [of "[(1, 65535)]"] full by simp
    ultimately show ?thesis using st 1 fullhas by (auto simp: short_accepts_def)
  next
    case 2
    then have "V port" if "1 \<le> port" "port \<le> 65535" for port using hasR [OF that] by simp
    moreover have "parse_short_policy ''accept 1-65535'' = Some \<lparr>is_accept = True, entries = [(1, 65535)]\<rparr>"
      using parse_ranges(1) [of "[(1, 65535)]"] full by simp
    ultimately show ?thesis using st 2 fullhas by (auto simp: short_accepts_def)
  next
    case 3
    then obtain a b A2 where A2: "A = a # b # A2" using length_range_text okA by (cases A; cases "tl A") force+
    then have "?A ! length (port_range_text a) = CHR '',''" "length (port_range_text a) \<le> 993"
      using length_range_text [of a] okA by (auto simp: nth_append)
    then obtain c where c: "c \<le> 993" "last_comma ?A 993 = Some c" "?A ! c = CHR '',''" using last_comma_found by blast
    then obtain k where k: "0 < k" "k < length A" "take c ?A = join_comma (map port_range_text (take k A))"
      using cut_at_comma [of c A] 3(3) by auto
    have "length (take c ?A) \<le> 993" using c(1) by simp
    then have "parse_short_policy (''accept '' @ take c ?A) = Some \<lparr>is_accept = True, entries = take k A\<rparr>"
      unfolding k(3) using okA k(1,2) short [of "take k A"] by (intro parse_ranges(1)) (auto dest: in_set_takeD)
    moreover have "V port" if "\<exists>e \<in> set (take k A). range_has e port" "1 \<le> port" "port \<le> 65535" for port
      using hasA [OF that(2,3)] that(1) by (auto dest: in_set_takeD)
    moreover have "\<not> length ranges \<le> 82"
    proof
      assume "length ranges \<le> 82"
      then have "length A \<le> 82" using le_trans [OF length_filter_le [of snd ranges]] by (simp add: A_def)
      then show False using length_join_le [OF okA] 3(3) by simp
    qed
    ultimately show ?thesis using st 3 c(2) by (auto simp: short_accepts_def)
  next
    case 4
    then have "parse_short_policy (''reject '' @ ?R) = Some \<lparr>is_accept = False, entries = R\<rparr>"
      using okR short [of R] by (intro parse_ranges(2)) auto
    then show ?thesis using st 4 hasR by (simp add: short_accepts_def)
  next
    case 5
    then have "parse_short_policy (''accept '' @ ?A) = Some \<lparr>is_accept = True, entries = A\<rparr>"
      using okA short [of A] by (intro parse_ranges(1)) auto
    then show ?thesis using st 5 hasA by (simp add: short_accepts_def)
  qed
qed

lemma compare_short_accepts:
  assumes "1 \<le> port"
  shows "compare_tor_addr_to_short_policy reject_internal None port sp = Some ADDR_POLICY_PROBABLY_ACCEPTED \<longleftrightarrow> short_accepts sp port"
  using assms by (auto simp: compare_tor_addr_to_short_policy_def short_accepts_def range_has_def)

lemma policy_summary_exact:
  assumes "\<forall>e \<in> set policy. ports_ok e"
  shows "\<exists>t sp. policy_summarize policy family = Some t \<and> parse_short_policy t = Some sp \<and>
    (\<forall>port \<ge> 1. port \<le> 65535 \<longrightarrow> (short_accepts sp port \<longrightarrow> snd (port_summary family port policy)) \<and>
       (length policy \<le> 40 \<longrightarrow> snd (port_summary family port policy) \<longrightarrow> short_accepts sp port))"
proof -
  have start: "tiles 1 policy_summary_create 65536" "lookup policy_summary_create port = (0, False)" for port
    by (auto simp: policy_summary_create_def)
  obtain s where s: "policy_summary_build policy_summary_create family policy = Some s" "tiles 1 s 65536" "length s \<le> 1 + 2 * length policy"
    "\<forall>port \<ge> 1. port \<le> 65535 \<longrightarrow> lookup s port = port_summary family port policy"
    using build_refines [OF start(1), of policy family] assms start(2)
    by (auto simp: port_summary_def policy_summary_create_def)
  have "s \<noteq> []" using s(2) by auto
  note ranges = summary_ranges_exact [OF s(2) this, of 1]
  have ok: "\<forall>r \<in> set (summary_ranges 1 s). range_ok (fst r)" using ranges by (fastforce simp: range_ok_def)
  have exact: "(\<exists>r \<in> set (summary_ranges 1 s). range_has (fst r) port \<and> snd r = v) \<longleftrightarrow> v = snd (port_summary family port policy)"
    if "1 \<le> port" "port \<le> 65535" for port v
    using ranges s(4) that by auto
  have "length (summary_ranges 1 s) \<le> 82" if "length policy \<le> 40" using ranges s(3) that by auto
  then show ?thesis
    using summary_text_parse [OF ok exact] s(1) by (fastforce simp: policy_summarize_def)
qed

section \<open>What an accepted port means\<close>

definition private_ipv4 :: "uint32 \<Rightarrow> bool" where
  "private_ipv4 a \<longleftrightarrow> (\<exists>net \<in> set private_nets. \<exists>b m x y. tor_addr_parse_mask_ports net no_tapmp False = Parsed (b, m, x, y) \<and>
     tor_addr_compare_masked (AF_INET a) b m CMP_EXACT = 0)"

definition refused :: "nat \<Rightarrow> addr_policy list \<Rightarrow> uint32 set" where
  "refused port policy = {a. \<not> private_ipv4 a \<and> compare_known_tor_addr_to_addr_policy (AF_INET a) port policy = ADDR_POLICY_REJECTED}"

lemma card_network: "card {a :: uint32. unat a div 2 ^ k = q} \<le> 2 ^ k"
proof -
  have "inj_on (\<lambda>a :: uint32. unat a mod 2 ^ k) {a. unat a div 2 ^ k = q}"
    by (rule inj_onI) (metis (mono_tags, lifting) div_mult_mod_eq mem_Collect_eq word_unat_eq_iff)
  then have "card {a :: uint32. unat a div 2 ^ k = q} \<le> card {..< (2 :: nat) ^ k}" by (rule card_inj_on_le) auto
  then show ?thesis by simp
qed

lemma private_entry_covers:
  assumes "private_entry e private_nets = Some True" "tor_addr_family (paddr e) = 2" "addr_matches (AF_INET a) e"
  shows "private_ipv4 a"
proof -
  obtain v where v: "paddr e = AF_INET v" using assms(2) by (cases "paddr e") auto
  obtain net b x y where net: "net \<in> set private_nets" "tor_addr_parse_mask_ports net no_tapmp False = Parsed (b, maskbits e, x, y)"
    "tor_addr_compare (paddr e) b CMP_EXACT = 0" using private_entryD [OF assms(1)] by blast
  have "b = AF_INET v" using net(3) v
    by (cases b) (auto simp: tor_addr_compare_def tor_addr_compare_masked_def compare_ipv4_def TRISTATE_def split: if_splits simp flip: word_unat_eq_iff)
  then show ?thesis using net(1,2) assms(3) v unfolding private_ipv4_def addr_matches_def by metis
qed

lemma refused_bound:
  assumes "\<forall>e \<in> set policy. tor_addr_family (paddr e) = 2 \<longrightarrow> maskbits e \<le> 32" "c \<le> UINT64_MAX"
    and "snd (foldl (port_step port) (c, False) (filter (\<lambda>e. tor_addr_family (paddr e) = 2) policy))"
  shows "card (refused port policy) + c \<le> 2 ^ 25"
  using assms
proof (induction policy arbitrary: c)
  case (Cons e policy)
  let ?in = "prt_min e \<le> port \<and> port \<le> prt_max e"
  have fin: "finite (refused port ps)" for ps by simp
  show ?case
  proof (cases "tor_addr_family (paddr e) = 2 \<and> ?in")
    case False
    then have "\<not> (addr_matches (AF_INET a) e \<and> port \<ge> prt_min e \<and> port \<le> prt_max e)" for a
      by (cases "paddr e") (auto simp: addr_matches_def tor_addr_compare_masked_def TRISTATE_def)
    then have "refused port (e # policy) = refused port policy" by (auto simp: refused_def)
    moreover have "snd (foldl (port_step port) (c, False) (filter (\<lambda>e. tor_addr_family (paddr e) = 2) policy))"
    proof (cases "tor_addr_family (paddr e) = 2")
      case True
      then have "port_step port (c, False) e = (c, False)" using False by (auto simp: port_step_def Let_def)
      then show ?thesis using Cons.prems(3) True by simp
    qed (use Cons.prems(3) in simp)
    ultimately show ?thesis using Cons.IH [OF _ Cons.prems(2)] Cons.prems(1) by simp
  next
    case True
    have mb: "maskbits e \<le> 32" using True Cons.prems(1) by simp
    note hit = addr_matches_ipv4 [OF mb]
    show ?thesis
    proof (cases "policy_type e")
      case ADDR_POLICY_ACCEPT
      have sub: "refused port (e # policy) \<subseteq> refused port policy" using ADDR_POLICY_ACCEPT by (auto simp: refused_def split: if_splits)
      show ?thesis
      proof (cases "maskbits e = 0 \<and> c \<le> 2 ^ 25")
        case all: True
        have lt: "unat v div 2 ^ 32 = 0" for v :: uint32 using unsigned_less [where ?'a = nat and w = v] by simp
        have "addr_matches (AF_INET a) e" for a using True all lt unfolding hit by simp
        then have "refused port (e # policy) = {}" using True ADDR_POLICY_ACCEPT by (auto simp: refused_def)
        then show ?thesis using all by simp
      next
        case False
        then have "port_step port (c, False) e = (c, False)" using True ADDR_POLICY_ACCEPT by (auto simp: port_step_def Let_def reject_cutoff_def)
        then have "snd (foldl (port_step port) (c, False) (filter (\<lambda>e. tor_addr_family (paddr e) = 2) policy))" using Cons.prems(3) True by simp
        then have "card (refused port policy) + c \<le> 2 ^ 25" using Cons.IH [OF _ Cons.prems(2)] Cons.prems(1) by simp
        then show ?thesis using card_mono [OF fin sub] by simp
      qed
    next
      case ADDR_POLICY_REJECT
      show ?thesis
      proof (cases "private_entry e private_nets = Some True")
        case priv: True
        have sub: "refused port (e # policy) \<subseteq> refused port policy"
          using private_entry_covers [OF priv] True by (auto simp: refused_def split: if_splits)
        have "port_step port (c, False) e = (c, False)" using ADDR_POLICY_REJECT priv by (auto simp: port_step_def Let_def)
        then have "snd (foldl (port_step port) (c, False) (filter (\<lambda>e. tor_addr_family (paddr e) = 2) policy))" using Cons.prems(3) True by simp
        then have "card (refused port policy) + c \<le> 2 ^ 25" using Cons.IH [OF _ Cons.prems(2)] Cons.prems(1) by simp
        then show ?thesis using card_mono [OF fin sub] by simp
      next
        case False
        define w :: nat where "w = 2 ^ (32 - maskbits e)"
        define q where "q = unat (tor_addr_to_ipv4h (paddr e)) div w"
        have "port_step port (c, False) e = (min UINT64_MAX (c + w), False)"
          using ADDR_POLICY_REJECT False True mb by (auto simp: port_step_def Let_def reject_weight_def w_def)
        then have "snd (foldl (port_step port) (min UINT64_MAX (c + w), False) (filter (\<lambda>e. tor_addr_family (paddr e) = 2) policy))"
          using Cons.prems(3) True by simp
        then have ih: "card (refused port policy) + min UINT64_MAX (c + w) \<le> 2 ^ 25"
          using Cons.IH [of "min UINT64_MAX (c + w)"] Cons.prems(1) by simp
        moreover have "(2 :: nat) ^ 25 < UINT64_MAX" by (simp add: UINT64_MAX_def)
        ultimately have "card (refused port policy) + (c + w) \<le> 2 ^ 25" by linarith
        moreover have "refused port (e # policy) \<subseteq> {a. unat a div w = q} \<union> refused port policy"
          unfolding refused_def using hit by (auto simp: w_def q_def split: if_splits)
        then have "card (refused port (e # policy)) \<le> card {a :: uint32. unat a div w = q} + card (refused port policy)"
          by (meson card_Un_le card_mono finite le_trans)
        moreover have "card {a :: uint32. unat a div w = q} \<le> w" unfolding w_def by (rule card_network)
        ultimately show ?thesis by linarith
      qed
    qed
  qed
qed simp

section \<open>Properties\<close>

text \<open>
  C35. The summary of a policy is published and read back as a decision for each port. For every policy whose
  port ranges are proper, a summary is made, a client can parse it, and a port that the client takes
  for accepted is one that the counting of rejected addresses accepts; for policies of at most 40
  entries, whose text is never cut, it accepts exactly these ports.
\<close>

theorem policy_summary_refines_ports:
  assumes "\<forall>e \<in> set policy. 1 \<le> prt_min e \<and> prt_min e \<le> prt_max e \<and> prt_max e \<le> 65535" "1 \<le> port" "port \<le> 65535"
  shows "\<exists>t sp. policy_summarize policy family = Some t \<and> parse_short_policy t = Some sp \<and>
    (compare_tor_addr_to_short_policy reject_internal None port sp = Some ADDR_POLICY_PROBABLY_ACCEPTED \<longrightarrow>
       snd (port_summary family port policy)) \<and>
    (length policy \<le> 40 \<longrightarrow> snd (port_summary family port policy) \<longrightarrow>
       compare_tor_addr_to_short_policy reject_internal None port sp = Some ADDR_POLICY_PROBABLY_ACCEPTED)"
  using policy_summary_exact [of policy family] assms unfolding compare_short_accepts [OF assms(2)] ports_ok_def by blast

theorem policy_summary_refines_ports_witness:
  "\<exists>t sp. policy_summarize [\<lparr>policy_type = ADDR_POLICY_ACCEPT, is_private = False, maskbits = 0, paddr = AF_INET 0, prt_min = 80, prt_max = 90\<rparr>] 2 = Some t \<and>
     parse_short_policy t = Some sp \<and>
     compare_tor_addr_to_short_policy False None 85 sp = Some ADDR_POLICY_PROBABLY_ACCEPTED"
proof -
  let ?p = "[\<lparr>policy_type = ADDR_POLICY_ACCEPT, is_private = False, maskbits = 0, paddr = AF_INET 0, prt_min = 80, prt_max = 90\<rparr>]"
  have "snd (port_summary 2 85 ?p)" by (simp add: port_summary_def port_step_def)
  then show ?thesis using policy_summary_refines_ports [of ?p 85 2 False] by auto
qed

text \<open>
  C34. A port that a client takes for accepted in the IPv4 summary of a relay is refused by the relay's
  policy for at most 2^25 addresses outside the private networks, that is, two blocks of the size of a /8.
\<close>

theorem policy_summary_few_refused:
  assumes "\<forall>e \<in> set policy. 1 \<le> prt_min e \<and> prt_min e \<le> prt_max e \<and> prt_max e \<le> 65535 \<and>
      (tor_addr_family (paddr e) = 2 \<longrightarrow> maskbits e \<le> 32)"
    and "policy_summarize policy 2 = Some t" "parse_short_policy t = Some sp" "1 \<le> port" "port \<le> 65535"
    and "compare_tor_addr_to_short_policy reject_internal None port sp = Some ADDR_POLICY_PROBABLY_ACCEPTED"
  shows "card {a. \<not> private_ipv4 a \<and> compare_known_tor_addr_to_addr_policy (AF_INET a) port policy = ADDR_POLICY_REJECTED} \<le> 2 ^ 25"
proof -
  have ok: "\<forall>e \<in> set policy. ports_ok e" using assms(1) by (simp add: ports_ok_def)
  have "snd (port_summary 2 port policy)"
    using policy_summary_exact [OF ok, of 2] assms(2-6) by (auto simp: compare_short_accepts)
  then have "card (refused port policy) + 0 \<le> 2 ^ 25"
    using assms(1) unfolding port_summary_def by (intro refused_bound) auto
  then show ?thesis by (simp add: refused_def)
qed

theorem policy_summary_few_refused_witness:
  "card {a. \<not> private_ipv4 a \<and> compare_known_tor_addr_to_addr_policy (AF_INET a) 443
     [\<lparr>policy_type = ADDR_POLICY_REJECT, is_private = False, maskbits = 8, paddr = AF_INET 0x08000000, prt_min = 1, prt_max = 65535\<rparr>,
      \<lparr>policy_type = ADDR_POLICY_ACCEPT, is_private = False, maskbits = 0, paddr = AF_INET 0, prt_min = 443, prt_max = 443\<rparr>] =
     ADDR_POLICY_REJECTED} \<le> 2 ^ 25"
proof -
  let ?p = "[\<lparr>policy_type = ADDR_POLICY_REJECT, is_private = False, maskbits = 8, paddr = AF_INET 0x08000000, prt_min = 1, prt_max = 65535\<rparr>,
      \<lparr>policy_type = ADDR_POLICY_ACCEPT, is_private = False, maskbits = 0, paddr = AF_INET 0, prt_min = 443, prt_max = 443\<rparr>]"
  have "private_entry (?p ! 0) private_nets \<noteq> Some True"
    by (simp add: private_nets_parse tor_addr_compare_def tor_addr_compare_masked_def compare_ipv4_def TRISTATE_def)
  then have "snd (port_summary 2 443 ?p)"
    by (simp add: port_summary_def port_step_def reject_weight_def reject_cutoff_def UINT64_MAX_def)
  moreover obtain t sp where "policy_summarize ?p 2 = Some t" "parse_short_policy t = Some sp"
      "snd (port_summary 2 443 ?p) \<longrightarrow> short_accepts sp 443"
    using policy_summary_exact [of ?p 2] by (auto simp: ports_ok_def)
  ultimately show ?thesis
    using policy_summary_few_refused [of ?p t sp 443 False] by (simp add: compare_short_accepts)
qed

section \<open>Ranges of ports in descriptors\<close>

lemma those_map_set: "those (map f xs) = Some ys \<Longrightarrow> y \<in> set ys \<Longrightarrow> \<exists>x \<in> set xs. f x = Some y"
proof (induction xs arbitrary: ys)
  case (Cons x xs)
  then obtain z zs where "f x = Some z" "those (map f xs) = Some zs" "ys = z # zs"
    by (auto split: option.splits)
  then show ?case using Cons by auto
qed simp

text \<open>
  The ranges that a descriptor can bring: a proper one, or the range from 1 to 0 that
  \<^verbatim>\<open>parse_port_range\<close> makes of port 0.
\<close>

definition port_zero :: "addr_policy \<Rightarrow> bool" where
  "port_zero e \<longleftrightarrow> prt_min e = 1 \<and> prt_max e = 0"

lemma tor_parse_long_bounds: "tor_parse_long s mn mx b = (v, True, r) \<Longrightarrow> mn \<le> v \<and> v \<le> mx"
  by (auto simp: tor_parse_long_def check_strtox_def Let_def split: prod.splits if_splits)

lemma parse_port_range_cases:
  assumes "parse_port_range s = Some (lo, hi)"
  shows "1 \<le> lo \<and> lo \<le> hi \<and> hi \<le> 65535 \<or> lo = 1 \<and> hi = 0"
proof (cases "s = None \<or> s = Some [] \<or> s = Some ''*''")
  case True
  then show ?thesis using assms by (auto simp: parse_port_range_def)
next
  case False
  obtain v ok r where v: "tor_parse_long (the s) 0 65535 True = (v, ok, r)" by (cases "tor_parse_long (the s) 0 65535 True")
  obtain v' ok' r' where v': "tor_parse_long (tl r) 1 65535 True = (v', ok', r')" by (cases "tor_parse_long (tl r) 1 65535 True")
  have ok: "ok" using assms False v by (auto simp: parse_port_range_def split: if_splits)
  then have "0 \<le> v" "v \<le> 65535" using tor_parse_long_bounds v by auto
  moreover have "ok' \<Longrightarrow> 1 \<le> v' \<and> v' \<le> 65535" using tor_parse_long_bounds v' by auto
  ultimately show ?thesis using assms False v v' ok by (auto simp: parse_port_range_def Let_def split: if_splits)
qed

lemma router_parse_addr_policy_ports:
  assumes "router_parse_addr_policy tok flags = Parsed e"
  shows "ports_ok e \<or> port_zero e"
proof -
  obtain s where "parse_port_range s = Some (prt_min e, prt_max e)"
    using assms by (auto simp: router_parse_addr_policy_def router_parse_addr_policy_private_def tor_addr_parse_mask_ports_def Let_def
        split: if_splits option.splits parsed.splits prod.splits)
  then show ?thesis using parse_port_range_cases by (auto simp: ports_ok_def port_zero_def)
qed

lemma add_exit_policies_ports:
  "add_exit_policies p ts = Parsed q \<Longrightarrow> \<forall>e \<in> set p. ports_ok e \<or> port_zero e \<Longrightarrow> \<forall>e \<in> set q. ports_ok e \<or> port_zero e"
proof (induction p ts rule: add_exit_policies.induct)
  case (2 p t ts)
  obtain p' where p': "router_add_exit_policy p t = Parsed p'" "add_exit_policies p' ts = Parsed q"
    using 2(2) by (auto split: parsed.splits)
  obtain e where e: "router_parse_addr_policy t no_tapmp = Parsed e" "p' = p @ [e]"
    using p'(1) by (auto simp: router_add_exit_policy_def split: parsed.splits if_splits)
  then have "\<forall>e \<in> set p'. ports_ok e \<or> port_zero e" using 2(3) router_parse_addr_policy_ports [OF e(1)] by auto
  then show ?case using 2(1) p' by blast
qed simp

lemma expand_private_ports:
  assumes "expand_private_item p = Some es" "e \<in> set es"
  shows "prt_min e = prt_min p \<and> prt_max e = prt_max p"
proof (cases "is_private p")
  case True
  define f where "f = (\<lambda>net. case tor_addr_parse_mask_ports net no_tapmp True of
      Parsed (a, m, _, _) \<Rightarrow> Some (p\<lparr>is_private := False, maskbits := m, paddr := a\<rparr>) | _ \<Rightarrow> None)"
  have "those (map f private_nets) = Some es" using True assms(1) by (simp add: expand_private_item_def f_def)
  then obtain net where "f net = Some e" using those_map_set [OF _ assms(2), of f private_nets] by auto
  then show ?thesis by (auto simp: f_def split: parsed.splits)
qed (use assms in \<open>auto simp: expand_private_item_def\<close>)

lemma descriptor_ports:
  assumes "descriptor_exit_policy tokens = Parsed policy"
  shows "\<forall>e \<in> set policy. ports_ok e \<or> port_zero e"
proof
  fix e assume e: "e \<in> set policy"
  obtain q where q: "add_exit_policies [] (find_all_exitpolicy tokens) = Parsed q" "policy_expand_private q = Some policy"
    using assms by (auto simp: descriptor_exit_policy_def Let_def split: if_splits parsed.splits option.splits)
  then obtain ess where ess: "those (map expand_private_item q) = Some ess" "policy = concat ess"
    by (auto simp: policy_expand_private_def)
  then obtain es where es: "es \<in> set ess" "e \<in> set es" using e by auto
  then obtain p where p: "p \<in> set q" "expand_private_item p = Some es" using those_map_set [OF ess(1) es(1)] by auto
  have "ports_ok p \<or> port_zero p" using add_exit_policies_ports [OF q(1)] p(1) by simp
  then show "ports_ok e \<or> port_zero e" using expand_private_ports [OF p(2) es(2)] by (simp add: ports_ok_def port_zero_def)
qed

text \<open>The entries that a summary takes into account.\<close>

definition summarized :: "nat \<Rightarrow> addr_policy \<Rightarrow> bool" where
  "summarized family e \<longleftrightarrow> tor_addr_family (paddr e) = family \<and>
     (if policy_type e = ADDR_POLICY_ACCEPT then maskbits e = 0 else private_entry e private_nets = Some False)"

lemma build_summarized: "policy_summary_build s family policy = policy_summary_build s family (filter (summarized family) policy)"
proof (induction policy arbitrary: s)
  case (Cons e policy)
  obtain b where "private_entry e private_nets = Some b" using private_entry_total by blast
  then have "tor_addr_family (paddr e) = family \<Longrightarrow> \<not> summarized family e \<Longrightarrow> policy_summary_add_item s e = Some s"
    by (auto simp: summarized_def policy_summary_add_item_def split: if_splits)
  then show ?case using Cons by (cases "tor_addr_family (paddr e) = family"; cases "summarized family e")
    (auto simp: summarized_def)
qed simp

lemma split_port_zero:
  assumes "tiles 1 s 65536"
  shows "policy_summary_split s 1 0 = None"
proof -
  obtain it items where s: "s = it # items" "s_min it = 1" "1 \<le> s_max it" using assms by (cases s) auto
  then show ?thesis
    by (simp add: policy_summary_split_def summary_seek.simps [of _ 0] summary_insert_def policy_summary_item_split_def)
qed

lemma add_item_port_zero:
  assumes "tiles 1 s 65536" "summarized family e" "port_zero e"
  shows "policy_summary_add_item s e = None"
  using assms(2,3) split_port_zero [OF assms(1)]
  by (auto simp: summarized_def port_zero_def policy_summary_add_item_def policy_summary_accept_def policy_summary_reject_def)

lemma build_port_zero:
  assumes "tiles 1 s 65536" "\<forall>e \<in> set policy. summarized family e \<and> (ports_ok e \<or> port_zero e)" "\<exists>e \<in> set policy. port_zero e"
  shows "policy_summary_build s family policy = None"
  using assms
proof (induction policy arbitrary: s)
  case (Cons e policy)
  have fam: "tor_addr_family (paddr e) = family" using Cons.prems(2) by (simp add: summarized_def)
  show ?case
  proof (cases "port_zero e")
    case True
    then have "policy_summary_add_item s e = None"
      using add_item_port_zero [OF Cons.prems(1), of family e] Cons.prems(2) by simp
    then show ?thesis using fam by simp
  next
    case False
    then obtain s1 where "policy_summary_add_item s e = Some s1" "tiles 1 s1 65536"
      using add_item_refines [OF Cons.prems(1), of e] Cons.prems(2) by auto
    then show ?thesis using Cons.IH [of s1] Cons.prems False fam by auto
  qed
qed simp

text \<open>
  C40. When the summary of a descriptor's exit policy fails. The ranges of a policy read from a
  descriptor are proper, except that \<^verbatim>\<open>parse_port_range\<close> checks that a range is not empty before it raises
  the lower bound to 1, so port 0 is accepted as the range from 1 to 0. The summary of such a policy for a
  family fails an assertion of \<^verbatim>\<open>policy_summary_item_split\<close>, which ends the process, exactly when
  an entry of this family with the range from 1 to 0 is one that \<^verbatim>\<open>policy_summary_add_item\<close> takes into account:
  an \<^verbatim>\<open>accept\<close> entry for all addresses, or a \<^verbatim>\<open>reject\<close> entry that is not a private network.
\<close>

theorem port_zero_aborts_summary:
  assumes "descriptor_exit_policy tokens = Parsed policy"
  shows "policy_summarize policy family = None \<longleftrightarrow>
    (\<exists>e \<in> set policy. tor_addr_family (paddr e) = family \<and> prt_min e = 1 \<and> prt_max e = 0 \<and>
       (if policy_type e = ADDR_POLICY_ACCEPT then maskbits e = 0 else private_entry e private_nets = Some False))"
proof -
  let ?q = "filter (summarized family) policy"
  have ports: "\<forall>e \<in> set policy. ports_ok e \<or> port_zero e" by (rule descriptor_ports [OF assms])
  have q: "policy_summarize policy family = policy_summarize ?q family"
    by (simp only: policy_summarize_def build_summarized [of _ family policy])
  have "policy_summarize ?q family = None \<longleftrightarrow> (\<exists>e \<in> set ?q. port_zero e)"
  proof (cases "\<exists>e \<in> set ?q. port_zero e")
    case True
    have "tiles 1 policy_summary_create 65536" by (simp add: policy_summary_create_def)
    then have "policy_summary_build policy_summary_create family ?q = None" using True ports by (intro build_port_zero) auto
    then show ?thesis using True by (simp add: policy_summarize_def)
  next
    case False
    then have "\<forall>e \<in> set ?q. ports_ok e" using ports by auto
    then show ?thesis using False policy_summary_exact [of ?q family] by auto
  qed
  then show ?thesis unfolding q by (auto simp: summarized_def port_zero_def)
qed

text \<open>\<^verbatim>\<open>accept 1.2.3.4:0\<close> is read and left out of the summary; with \<^verbatim>\<open>reject *:0\<close> the summary fails.\<close>

definition policy_token :: "directory_keyword \<Rightarrow> string \<Rightarrow> unit directory_token" where
  "policy_token k arg = \<lparr>tp = k, args = [arg], object_type = None, object_body = None, key = None\<rparr>"

lemma parse_address_zero:
  "tor_addr_parse_mask_ports ''1.2.3.4:0'' no_tapmp True = Parsed (AF_INET 0x01020304, 32, 1, 0)"
proof -
  have "tor_inet_ntoa 0x01020304 = ''1.2.3.4''"
    by (simp add: tor_inet_ntoa_def Let_def show_nat.simps digit_char_def char_of_eq_iff)
  then have "tor_inet_aton ''1.2.3.4'' = Some 0x01020304" using inet_aton_ntoa [of "0x01020304"] by simp
  moreover have "pton_ipv6 ''1.2.3.4'' = Rejected" by code_simp
  moreover have "split_pattern ''1.2.3.4:0'' = Some (''1.2.3.4'', None, Some ''0'')" by code_simp
  moreover have "parse_port_range (Some ''0'') = Some (1, 0)" by code_simp
  ultimately show ?thesis
    by (simp add: tor_addr_parse_mask_ports_def no_tapmp_def MAX_ADDRESS_LENGTH_def parse_address_part_def tor_inet_pton_def parse_mask_part_def)
qed

lemma parse_star_zero: "tor_addr_parse_mask_ports ''*:0'' no_tapmp True = Parsed (AF_INET 0, 0, 1, 0)"
  by code_simp

theorem port_zero_aborts_summary_witness:
  "\<exists>policy1 policy2.
     descriptor_exit_policy [policy_token K_ACCEPT ''1.2.3.4:0''] = Parsed policy1 \<and> policy_summarize policy1 2 \<noteq> None \<and>
     descriptor_exit_policy [policy_token K_ACCEPT ''1.2.3.4:0'', policy_token K_REJECT ''*:0''] = Parsed policy2 \<and>
     policy_summarize policy2 2 = None"
proof -
  let ?e1 = "\<lparr>policy_type = ADDR_POLICY_ACCEPT, is_private = False, maskbits = 32, paddr = AF_INET 0x01020304, prt_min = 1, prt_max = 0\<rparr>"
  let ?e2 = "\<lparr>policy_type = ADDR_POLICY_REJECT, is_private = False, maskbits = 0, paddr = AF_INET 0, prt_min = 1, prt_max = 0\<rparr>"
  have no_star: "\<not> TAPMP_EXTENDED_STAR no_tapmp" by (simp add: no_tapmp_def)
  have e1: "router_add_exit_policy p (policy_token K_ACCEPT ''1.2.3.4:0'') = Parsed (p @ [?e1])" for p
    using parse_address_zero
    by (simp add: router_add_exit_policy_def router_parse_addr_policy_def policy_token_def policy_keyword_def starts_with_def
        token_action_def no_star)
  have e2: "router_add_exit_policy p (policy_token K_REJECT ''*:0'') = Parsed (p @ [?e2])" for p
    using parse_star_zero
    by (simp add: router_add_exit_policy_def router_parse_addr_policy_def policy_token_def policy_keyword_def starts_with_def
        token_action_def no_star)
  have keys: "find_all_exitpolicy ts = ts" if "ts \<in> {[policy_token K_ACCEPT ''1.2.3.4:0''], [policy_token K_ACCEPT ''1.2.3.4:0'', policy_token K_REJECT ''*:0'']}" for ts
    using that by (auto simp: find_all_exitpolicy_def policy_keyword_def policy_token_def)
  have 1: "descriptor_exit_policy [policy_token K_ACCEPT ''1.2.3.4:0''] = Parsed [?e1]"
    by (simp add: descriptor_exit_policy_def keys e1 policy_expand_private_def expand_private_item_def)
  have 2: "descriptor_exit_policy [policy_token K_ACCEPT ''1.2.3.4:0'', policy_token K_REJECT ''*:0''] = Parsed [?e1, ?e2]"
    by (simp add: descriptor_exit_policy_def keys e1 e2 policy_expand_private_def expand_private_item_def)
  have "private_entry ?e2 private_nets = Some False"
    by (simp add: private_nets_parse tor_addr_compare_def tor_addr_compare_masked_def TRISTATE_def)
  then show ?thesis
    using 1 2 port_zero_aborts_summary [OF 1, of 2] port_zero_aborts_summary [OF 2, of 2] by auto
qed

end
