(* ===== verification/Onion.thy ===== *)
theory Onion
  imports Cells
begin

text \<open>
  The cells that carry circuit handshakes, \<^verbatim>\<open>core/or/onion.c\<close>: CREATE, CREATE_FAST and CREATE2 cells with their
  answers, and the EXTENDED relay cells that carry an answer back to the client. A formatted cell is
  parsed back to itself, with the one exception of a TAP onionskin that looks like the ntor magic.
\<close>

section \<open>Types\<close>

definition CELL_CREATE :: uint8 where "CELL_CREATE = 1"
definition CELL_CREATED :: uint8 where "CELL_CREATED = 2"
definition CELL_CREATE_FAST :: uint8 where "CELL_CREATE_FAST = 5"
definition CELL_CREATED_FAST :: uint8 where "CELL_CREATED_FAST = 6"
definition CELL_CREATE2 :: uint8 where "CELL_CREATE2 = 10"
definition CELL_CREATED2 :: uint8 where "CELL_CREATED2 = 11"

definition RELAY_COMMAND_EXTENDED :: uint8 where "RELAY_COMMAND_EXTENDED = 7"
definition RELAY_COMMAND_EXTENDED2 :: uint8 where "RELAY_COMMAND_EXTENDED2 = 15"

definition ONION_HANDSHAKE_TYPE_TAP :: uint16 where "ONION_HANDSHAKE_TYPE_TAP = 0"
definition ONION_HANDSHAKE_TYPE_FAST :: uint16 where "ONION_HANDSHAKE_TYPE_FAST = 1"
definition ONION_HANDSHAKE_TYPE_NTOR :: uint16 where "ONION_HANDSHAKE_TYPE_NTOR = 2"
definition MAX_ONION_HANDSHAKE_TYPE :: uint16 where "MAX_ONION_HANDSHAKE_TYPE = 2"

definition TAP_ONIONSKIN_CHALLENGE_LEN :: uint16 where "TAP_ONIONSKIN_CHALLENGE_LEN = 42 + 16 + 128"
definition TAP_ONIONSKIN_REPLY_LEN :: uint16 where "TAP_ONIONSKIN_REPLY_LEN = 128 + 20"
definition CREATE_FAST_LEN :: uint16 where "CREATE_FAST_LEN = 20"
definition CREATED_FAST_LEN :: uint16 where "CREATED_FAST_LEN = 20 * 2"
definition NTOR_ONIONSKIN_LEN :: uint16 where "NTOR_ONIONSKIN_LEN = 84"
definition NTOR_REPLY_LEN :: uint16 where "NTOR_REPLY_LEN = 64"

lemmas cell_commands = CELL_CREATE_def CELL_CREATED_def CELL_CREATE_FAST_def CELL_CREATED_FAST_def
  CELL_CREATE2_def CELL_CREATED2_def RELAY_COMMAND_EXTENDED_def RELAY_COMMAND_EXTENDED2_def

lemmas handshake_types = ONION_HANDSHAKE_TYPE_TAP_def ONION_HANDSHAKE_TYPE_FAST_def
  ONION_HANDSHAKE_TYPE_NTOR_def MAX_ONION_HANDSHAKE_TYPE_def

lemmas handshake_lengths = TAP_ONIONSKIN_CHALLENGE_LEN_def TAP_ONIONSKIN_REPLY_LEN_def CREATE_FAST_LEN_def
  CREATED_FAST_LEN_def NTOR_ONIONSKIN_LEN_def NTOR_REPLY_LEN_def

text \<open>The arrays \<^verbatim>\<open>onionskin\<close> and \<^verbatim>\<open>reply\<close> have 505 and 507 bytes.\<close>

record create_cell =
  cell_type :: uint8
  handshake_type :: uint16
  handshake_len :: uint16
  onionskin :: "byte list"

record created_cell =
  created_cell_type :: uint8
  reply_len :: uint16
  reply :: "byte list"

record extended_cell =
  extended_cell_type :: uint8
  created_cell :: created_cell

definition ONIONSKIN_ROOM :: nat where "ONIONSKIN_ROOM = CELL_PAYLOAD_SIZE - 4"
definition REPLY_ROOM :: nat where "REPLY_ROOM = CELL_PAYLOAD_SIZE - 2"

lemmas handshake_rooms = ONIONSKIN_ROOM_def REPLY_ROOM_def CELL_PAYLOAD_SIZE_def RELAY_PAYLOAD_SIZE_def
  RELAY_HEADER_SIZE_def

text \<open>\<^verbatim>\<open>memset\<close> of an array of \<open>room\<close> bytes to zero and \<^verbatim>\<open>memcpy\<close> of the first \<open>n\<close> bytes of a source to its start.\<close>

definition copied :: "nat \<Rightarrow> nat \<Rightarrow> byte list \<Rightarrow> byte list" where
  "copied room n src = take n src @ replicate (room - n) 0"

section \<open>Checking and parsing\<close>

definition check_create_cell :: "create_cell \<Rightarrow> bool \<Rightarrow> bool" where
  "check_create_cell c unknown_ok =
     ((if cell_type c = CELL_CREATE
       then handshake_type c = ONION_HANDSHAKE_TYPE_TAP \<or> handshake_type c = ONION_HANDSHAKE_TYPE_NTOR
       else if cell_type c = CELL_CREATE_FAST then handshake_type c = ONION_HANDSHAKE_TYPE_FAST
       else cell_type c = CELL_CREATE2) \<and>
      (if handshake_type c = ONION_HANDSHAKE_TYPE_TAP then handshake_len c = TAP_ONIONSKIN_CHALLENGE_LEN
       else if handshake_type c = ONION_HANDSHAKE_TYPE_FAST then handshake_len c = CREATE_FAST_LEN
       else if handshake_type c = ONION_HANDSHAKE_TYPE_NTOR then handshake_len c = NTOR_ONIONSKIN_LEN
       else unknown_ok))"

definition create_cell_init :: "uint8 \<Rightarrow> uint16 \<Rightarrow> uint16 \<Rightarrow> byte list \<Rightarrow> create_cell" where
  "create_cell_init ctype htype hlen skin =
     \<lparr>cell_type = ctype, handshake_type = htype, handshake_len = hlen,
      onionskin = copied ONIONSKIN_ROOM (unat hlen) skin\<rparr>"

definition parse_create2_payload :: "byte list \<Rightarrow> nat \<Rightarrow> create_cell option" where
  "parse_create2_payload p p_len =
     (if p_len < 4 then None
      else let htype = get_uint16 p; hlen = get_uint16 (drop 2 p)
           in if unat hlen > CELL_PAYLOAD_SIZE - 4 \<or> unat hlen > p_len - 4 then None
              else if htype = ONION_HANDSHAKE_TYPE_FAST then None
              else Some (create_cell_init CELL_CREATE2 htype hlen (drop 4 p)))"

definition NTOR_CREATE_MAGIC :: "byte list" where
  "NTOR_CREATE_MAGIC = map of_char ''ntorNTORntorNTOR''"

definition create_cell_parse :: "cell \<Rightarrow> create_cell option" where
  "create_cell_parse c =
     (let parsed =
        (if command c = CELL_CREATE then
           (if take 16 (payload c) = NTOR_CREATE_MAGIC
            then Some (create_cell_init CELL_CREATE ONION_HANDSHAKE_TYPE_NTOR NTOR_ONIONSKIN_LEN (drop 16 (payload c)))
            else Some (create_cell_init CELL_CREATE ONION_HANDSHAKE_TYPE_TAP TAP_ONIONSKIN_CHALLENGE_LEN (payload c)))
         else if command c = CELL_CREATE_FAST
           then Some (create_cell_init CELL_CREATE_FAST ONION_HANDSHAKE_TYPE_FAST CREATE_FAST_LEN (payload c))
         else if command c = CELL_CREATE2 then parse_create2_payload (payload c) CELL_PAYLOAD_SIZE
         else None)
      in case parsed of None \<Rightarrow> None | Some cc \<Rightarrow> (if check_create_cell cc False then Some cc else None))"

definition check_created_cell :: "created_cell \<Rightarrow> bool" where
  "check_created_cell c =
     (if created_cell_type c = CELL_CREATED
      then reply_len c = TAP_ONIONSKIN_REPLY_LEN \<or> reply_len c = NTOR_REPLY_LEN
      else if created_cell_type c = CELL_CREATED_FAST then reply_len c = CREATED_FAST_LEN
      else if created_cell_type c = CELL_CREATED2 then unat (reply_len c) \<le> RELAY_PAYLOAD_SIZE - 2
      else True)"

definition created_cell_of :: "uint8 \<Rightarrow> uint16 \<Rightarrow> byte list \<Rightarrow> created_cell" where
  "created_cell_of ctype len src =
     \<lparr>created_cell_type = ctype, reply_len = len, reply = copied REPLY_ROOM (unat len) src\<rparr>"

text \<open>A command other than the three leaves the zeroed structure, which the check accepts.\<close>

definition created_cell_parse :: "cell \<Rightarrow> created_cell option" where
  "created_cell_parse c =
     (let parsed =
        (if command c = CELL_CREATED then Some (created_cell_of CELL_CREATED TAP_ONIONSKIN_REPLY_LEN (payload c))
         else if command c = CELL_CREATED_FAST
           then Some (created_cell_of CELL_CREATED_FAST CREATED_FAST_LEN (payload c))
         else if command c = CELL_CREATED2 then
           (let len = get_uint16 (payload c)
            in if unat len > CELL_PAYLOAD_SIZE - 2 then None
               else Some (created_cell_of CELL_CREATED2 len (drop 2 (payload c))))
         else Some (created_cell_of 0 0 []))
      in case parsed of None \<Rightarrow> None | Some cc \<Rightarrow> (if check_created_cell cc then Some cc else None))"

definition check_extended_cell :: "extended_cell \<Rightarrow> bool" where
  "check_extended_cell c =
     (let t = created_cell_type (created_cell c)
      in (if t = CELL_CREATED then extended_cell_type c = RELAY_COMMAND_EXTENDED
          else t = CELL_CREATED2 \<and> extended_cell_type c = RELAY_COMMAND_EXTENDED2) \<and>
         check_created_cell (created_cell c))"

text \<open>
  The difference \<^verbatim>\<open>payload_len - 2\<close> is taken in \<^verbatim>\<open>size_t\<close>. The payload is the whole body of a relay cell, of which
  \<open>payload_len\<close> bytes are declared to be in use.
\<close>

definition extended_cell_parse :: "uint8 \<Rightarrow> byte list \<Rightarrow> uint64 \<Rightarrow> extended_cell option" where
  "extended_cell_parse cmd p p_len =
     (if unat p_len > RELAY_PAYLOAD_SIZE then None
      else let parsed =
        (if cmd = RELAY_COMMAND_EXTENDED then
           (if p_len \<noteq> ucast TAP_ONIONSKIN_REPLY_LEN then None
            else Some \<lparr>extended_cell_type = RELAY_COMMAND_EXTENDED,
                       created_cell = created_cell_of CELL_CREATED TAP_ONIONSKIN_REPLY_LEN p\<rparr>)
         else if cmd = RELAY_COMMAND_EXTENDED2 then
           (let len = get_uint16 p
            in if unat len > RELAY_PAYLOAD_SIZE - 2 \<or> ucast len > p_len - 2 then None
               else Some \<lparr>extended_cell_type = RELAY_COMMAND_EXTENDED2,
                          created_cell = created_cell_of CELL_CREATED2 len (drop 2 p)\<rparr>)
         else None)
      in case parsed of None \<Rightarrow> None | Some ec \<Rightarrow> (if check_extended_cell ec then Some ec else None))"

section \<open>Formatting\<close>

definition create_cell_format_impl :: "cell \<Rightarrow> create_cell \<Rightarrow> bool \<Rightarrow> cell parsed" where
  "create_cell_format_impl out c relayed =
     (if \<not> check_create_cell c relayed then Rejected
      else let filled = (\<lambda>bs. Parsed (out\<lparr>command := cell_type c, payload := copied CELL_PAYLOAD_SIZE (length bs) bs\<rparr>));
               skin = take (unat (handshake_len c)) (onionskin c)
           in if cell_type c = CELL_CREATE \<or> cell_type c = CELL_CREATE_FAST then
                (let lead = (if cell_type c = CELL_CREATE \<and> handshake_type c = ONION_HANDSHAKE_TYPE_NTOR
                             then NTOR_CREATE_MAGIC else [])
                 in if unat (handshake_len c) \<le> CELL_PAYLOAD_SIZE - length lead then filled (lead @ skin) else Aborted)
              else if cell_type c = CELL_CREATE2 then
                (if unat (handshake_len c) \<le> CELL_PAYLOAD_SIZE - 4
                 then filled (put_uint16 (handshake_type c) @ put_uint16 (handshake_len c) @ skin) else Aborted)
              else Rejected)"

definition create_cell_format :: "cell \<Rightarrow> create_cell \<Rightarrow> cell parsed" where
  "create_cell_format out c = create_cell_format_impl out c False"

definition create_cell_format_relayed :: "cell \<Rightarrow> create_cell \<Rightarrow> cell parsed" where
  "create_cell_format_relayed out c = create_cell_format_impl out c True"

definition created_cell_format :: "cell \<Rightarrow> created_cell \<Rightarrow> cell parsed" where
  "created_cell_format out c =
     (if \<not> check_created_cell c then Rejected
      else let filled = (\<lambda>bs. Parsed (out\<lparr>command := created_cell_type c, payload := copied CELL_PAYLOAD_SIZE (length bs) bs\<rparr>));
               body = take (unat (reply_len c)) (reply c)
           in if created_cell_type c = CELL_CREATED \<or> created_cell_type c = CELL_CREATED_FAST then
                (if unat (reply_len c) \<le> CELL_PAYLOAD_SIZE then filled body else Aborted)
              else if created_cell_type c = CELL_CREATED2 then
                (if unat (reply_len c) \<le> CELL_PAYLOAD_SIZE - 2 then filled (put_uint16 (reply_len c) @ body) else Aborted)
              else Rejected)"

text \<open>The relay command, the length and the payload.\<close>

definition extended_cell_format :: "extended_cell \<Rightarrow> (uint8 \<times> uint16 \<times> byte list) option" where
  "extended_cell_format c =
     (if \<not> check_extended_cell c then None
      else let cc = created_cell c; len = reply_len cc
           in if extended_cell_type c = RELAY_COMMAND_EXTENDED
              then Some (RELAY_COMMAND_EXTENDED, TAP_ONIONSKIN_REPLY_LEN,
                         copied RELAY_PAYLOAD_SIZE (unat TAP_ONIONSKIN_REPLY_LEN) (reply cc))
              else if extended_cell_type c = RELAY_COMMAND_EXTENDED2 then
                (if 2 + unat len > RELAY_PAYLOAD_SIZE then None
                 else Some (RELAY_COMMAND_EXTENDED2, 2 + len,
                            copied RELAY_PAYLOAD_SIZE (2 + unat len) (put_uint16 len @ reply cc)))
              else None)"

text \<open>A relay in the middle turns a CREATED cell from the next hop into an EXTENDED relay cell for the client.\<close>

definition relay_created_cell :: "cell \<Rightarrow> (uint8 \<times> uint16 \<times> byte list) option" where
  "relay_created_cell c =
     (case created_cell_parse c of
        None \<Rightarrow> None
      | Some cc \<Rightarrow> extended_cell_format
          \<lparr>extended_cell_type = (if created_cell_type cc = CELL_CREATED2 then RELAY_COMMAND_EXTENDED2
                                 else RELAY_COMMAND_EXTENDED),
           created_cell = cc\<rparr>)"

section \<open>Round trips\<close>

lemma unat_ucast16: "unat (ucast (w :: uint16) :: uint64) = unat w"
proof -
  have "unat w < 2 ^ 16" by (rule order.strict_trans2 [OF unsigned_less]) simp
  then have "unat w < 2 ^ 64" by simp
  then show ?thesis by (simp add: unsigned_ucast_eq take_bit_nat_eq_self)
qed

definition create_cell_wf :: "create_cell \<Rightarrow> bool" where
  "create_cell_wf c \<longleftrightarrow> unat (handshake_len c) \<le> ONIONSKIN_ROOM \<and>
     onionskin c = copied ONIONSKIN_ROOM (unat (handshake_len c)) (onionskin c) \<and> length (onionskin c) = ONIONSKIN_ROOM"

definition created_cell_wf :: "created_cell \<Rightarrow> bool" where
  "created_cell_wf c \<longleftrightarrow> unat (reply_len c) \<le> REPLY_ROOM \<and>
     reply c = copied REPLY_ROOM (unat (reply_len c)) (reply c) \<and> length (reply c) = REPLY_ROOM"

lemma length_copied: "n \<le> room \<Longrightarrow> n \<le> length src \<Longrightarrow> length (copied room n src) = room"
  by (simp add: copied_def)

lemma take_copied: "n \<le> length src \<Longrightarrow> take n (copied room n src) = take n src"
  by (simp add: copied_def)

lemma copied_takeI: "take n src = take n src' \<Longrightarrow> copied room n src = copied room n src'"
  by (simp add: copied_def)

text \<open>What was copied behind a head comes back when the head is dropped.\<close>

lemma copied_behind:
  assumes "n \<le> length skin" "k = length h + n"
  shows "copied room n (drop (length h) (copied room' k (h @ take n skin))) = copied room n skin"
proof (rule copied_takeI)
  show "take n (drop (length h) (copied room' k (h @ take n skin))) = take n skin"
    using assms by (simp add: copied_def)
qed

lemma copied_front: "n \<le> length skin \<Longrightarrow> copied room n (copied room' n (take n skin)) = copied room n skin"
  using copied_behind [of n skin n "[]" room room'] by simp

lemma length_NTOR_CREATE_MAGIC [simp]: "length NTOR_CREATE_MAGIC = 16"
  by (simp add: NTOR_CREATE_MAGIC_def)

lemma take_copied_less: "k \<le> n \<Longrightarrow> n \<le> length src \<Longrightarrow> take k (copied room n src) = take k src"
  by (simp add: copied_def min_def)


lemma parse_formatted_create:
  assumes skin: "create_cell_wf c" and chk: "check_create_cell c False"
    and t: "cell_type c = CELL_CREATE" "handshake_type c = ONION_HANDSHAKE_TYPE_TAP"
    and fmt: "create_cell_format out c = Parsed d"
  shows "create_cell_parse d = Some c \<longleftrightarrow> take 16 (onionskin c) \<noteq> NTOR_CREATE_MAGIC"
proof -
  define n where "n = unat TAP_ONIONSKIN_CHALLENGE_LEN"
  have len: "handshake_len c = TAP_ONIONSKIN_CHALLENGE_LEN" "n = 186"
    using chk t by (simp_all add: check_create_cell_def handshake_types n_def handshake_lengths)
  have sk: "length (onionskin c) = 505" "copied ONIONSKIN_ROOM n (onionskin c) = onionskin c"
    using skin len by (simp_all add: create_cell_wf_def n_def handshake_rooms)
  have d: "command d = CELL_CREATE" "payload d = copied CELL_PAYLOAD_SIZE n (take n (onionskin c))"
    using fmt chk t len sk
    by (auto simp: create_cell_format_def create_cell_format_impl_def handshake_types n_def [symmetric] Let_def
        min_def split: if_splits)
  have t16: "take 16 (payload d) = take 16 (onionskin c)"
    using sk len by (simp add: d copied_def min_def)
  have ret: "copied ONIONSKIN_ROOM n (payload d) = onionskin c"
    using copied_front [of n "onionskin c" ONIONSKIN_ROOM CELL_PAYLOAD_SIZE] sk len by (simp add: d)
  have c: "create_cell_init CELL_CREATE ONION_HANDSHAKE_TYPE_TAP TAP_ONIONSKIN_CHALLENGE_LEN (payload d) = c"
    using t len ret by (simp add: create_cell_init_def n_def)
  show ?thesis
    using chk t c by (auto simp: create_cell_parse_def d(1) t16 handshake_types create_cell_init_def)
qed

lemma parse_formatted_ntor:
  assumes skin: "create_cell_wf c" and chk: "check_create_cell c False"
    and t: "cell_type c = CELL_CREATE" "handshake_type c = ONION_HANDSHAKE_TYPE_NTOR"
    and fmt: "create_cell_format out c = Parsed d"
  shows "create_cell_parse d = Some c"
proof -
  define n where "n = unat NTOR_ONIONSKIN_LEN"
  have len: "handshake_len c = NTOR_ONIONSKIN_LEN" "n = 84"
    using chk t by (simp_all add: check_create_cell_def handshake_types n_def handshake_lengths)
  have sk: "length (onionskin c) = 505" "copied ONIONSKIN_ROOM n (onionskin c) = onionskin c"
    using skin len by (simp_all add: create_cell_wf_def n_def handshake_rooms)
  have d: "command d = CELL_CREATE" "payload d = copied CELL_PAYLOAD_SIZE (16 + n) (NTOR_CREATE_MAGIC @ take n (onionskin c))"
    using fmt chk t len sk
    by (auto simp: create_cell_format_def create_cell_format_impl_def handshake_types n_def [symmetric] Let_def
        min_def split: if_splits)
  have t16: "take 16 (payload d) = NTOR_CREATE_MAGIC"
    using sk len by (simp add: d copied_def min_def)
  have ret: "copied ONIONSKIN_ROOM n (drop 16 (payload d)) = onionskin c"
    using copied_behind [of n "onionskin c" "16 + n" NTOR_CREATE_MAGIC ONIONSKIN_ROOM CELL_PAYLOAD_SIZE] sk len
    by (simp add: d)
  have c: "create_cell_init CELL_CREATE ONION_HANDSHAKE_TYPE_NTOR NTOR_ONIONSKIN_LEN (drop 16 (payload d)) = c"
    using t len ret by (simp add: create_cell_init_def n_def)
  show ?thesis
    using chk t c by (auto simp: create_cell_parse_def d(1) t16)
qed

lemma parse_formatted_fast:
  assumes skin: "create_cell_wf c" and chk: "check_create_cell c False"
    and t: "cell_type c = CELL_CREATE_FAST"
    and fmt: "create_cell_format out c = Parsed d"
  shows "create_cell_parse d = Some c"
proof -
  define n where "n = unat CREATE_FAST_LEN"
  have len: "handshake_len c = CREATE_FAST_LEN" "n = 20" "handshake_type c = ONION_HANDSHAKE_TYPE_FAST"
    using chk t by (simp_all add: check_create_cell_def handshake_types n_def handshake_lengths cell_commands split: if_splits)
  have sk: "length (onionskin c) = 505" "copied ONIONSKIN_ROOM n (onionskin c) = onionskin c"
    using skin len by (simp_all add: create_cell_wf_def n_def handshake_rooms)
  have d: "command d = CELL_CREATE_FAST" "payload d = copied CELL_PAYLOAD_SIZE n (take n (onionskin c))"
    using fmt chk t len sk
    by (auto simp: create_cell_format_def create_cell_format_impl_def n_def [symmetric] Let_def cell_commands
        min_def split: if_splits)
  have ret: "copied ONIONSKIN_ROOM n (payload d) = onionskin c"
    using copied_front [of n "onionskin c" ONIONSKIN_ROOM CELL_PAYLOAD_SIZE] sk len by (simp add: d)
  have c: "create_cell_init CELL_CREATE_FAST ONION_HANDSHAKE_TYPE_FAST CREATE_FAST_LEN (payload d) = c"
    using t len ret by (simp add: create_cell_init_def n_def)
  show ?thesis
    using chk t c by (auto simp: create_cell_parse_def d(1) cell_commands)
qed

lemma parse_formatted_create2:
  assumes skin: "create_cell_wf c" and chk: "check_create_cell c False"
    and t: "cell_type c = CELL_CREATE2"
    and fmt: "create_cell_format out c = Parsed d"
  shows "create_cell_parse d = Some c \<longleftrightarrow> handshake_type c \<noteq> ONION_HANDSHAKE_TYPE_FAST"
proof -
  define n where "n = unat (handshake_len c)"
  let ?h = "put_uint16 (handshake_type c) @ put_uint16 (handshake_len c)"
  have sk: "n \<le> 505" "length (onionskin c) = 505" "copied ONIONSKIN_ROOM n (onionskin c) = onionskin c"
    using skin by (simp_all add: create_cell_wf_def n_def handshake_rooms)
  have four: "4 + n = Suc (Suc (Suc (Suc n)))" by simp
  have d: "command d = CELL_CREATE2" "payload d = copied CELL_PAYLOAD_SIZE (4 + n) (?h @ take n (onionskin c))"
    using fmt chk t sk
    by (auto simp: create_cell_format_def create_cell_format_impl_def n_def [symmetric] Let_def cell_commands
        min_def four split: if_splits)
  have p: "payload d = put_uint16 (handshake_type c) @ put_uint16 (handshake_len c) @
      take n (onionskin c) @ replicate (505 - n) 0"
    using sk by (simp add: d copied_def CELL_PAYLOAD_SIZE_def)
  have g: "get_uint16 (payload d) = handshake_type c" "get_uint16 (drop 2 (payload d)) = handshake_len c"
    by (simp_all add: p)
  have ret: "copied ONIONSKIN_ROOM n (drop 4 (payload d)) = onionskin c"
    using copied_behind [of n "onionskin c" "4 + n" ?h ONIONSKIN_ROOM CELL_PAYLOAD_SIZE] sk by (simp add: d)
  have c: "create_cell_init CELL_CREATE2 (handshake_type c) (handshake_len c) (drop 4 (payload d)) = c"
    using t ret by (simp add: create_cell_init_def n_def)
  show ?thesis
    using chk t c sk
    by (auto simp: create_cell_parse_def d(1) cell_commands parse_create2_payload_def g Let_def n_def [symmetric]
        CELL_PAYLOAD_SIZE_def)
qed

lemma create_cell_format_defined:
  assumes "create_cell_wf c" "check_create_cell c relayed"
  shows "\<exists>d. create_cell_format_impl out c relayed = Parsed d \<and> circ_id d = circ_id out \<and>
    length (payload d) = CELL_PAYLOAD_SIZE"
proof -
  have n: "unat (handshake_len c) \<le> 505" "length (onionskin c) = 505"
    using assms(1) by (simp_all add: create_cell_wf_def handshake_rooms)
  have l: "unat (handshake_len c) = 84"
    if "cell_type c = CELL_CREATE" "handshake_type c = ONION_HANDSHAKE_TYPE_NTOR"
    using assms(2) that by (auto simp: check_create_cell_def handshake_types handshake_lengths)
  consider "cell_type c = CELL_CREATE" "handshake_type c = ONION_HANDSHAKE_TYPE_NTOR"
    | "cell_type c = CELL_CREATE" "handshake_type c \<noteq> ONION_HANDSHAKE_TYPE_NTOR"
    | "cell_type c = CELL_CREATE_FAST" | "cell_type c = CELL_CREATE2"
    using assms(2) by (auto simp: check_create_cell_def split: if_splits)
  then show ?thesis
    using assms(2) n l
    by cases (simp_all add: create_cell_format_impl_def CELL_PAYLOAD_SIZE_def copied_def cell_commands min_def)
qed

text \<open>
  C12. A CREATE, CREATE_FAST or CREATE2 cell that passes the check of its fields is formatted without a failed
  assertion, and the cell on the wire is parsed back to it exactly outside of two cases: a TAP onionskin in a CREATE
  cell that begins with the magic bytes is taken for an ntor onionskin, and a CREATE2 cell with the handshake type FAST,
  which the check and the formatter accept, is not accepted by the parser.
\<close>

theorem create_cell_roundtrip:
  assumes "create_cell_wf c" "check_create_cell c False"
  shows "\<exists>d. create_cell_format out c = Parsed d \<and> circ_id d = circ_id out \<and> length (payload d) = CELL_PAYLOAD_SIZE \<and>
    (create_cell_parse d = Some c \<longleftrightarrow>
      \<not> (cell_type c = CELL_CREATE \<and> handshake_type c = ONION_HANDSHAKE_TYPE_TAP \<and>
         take 16 (onionskin c) = NTOR_CREATE_MAGIC) \<and>
      \<not> (cell_type c = CELL_CREATE2 \<and> handshake_type c = ONION_HANDSHAKE_TYPE_FAST))"
proof -
  obtain d where d: "create_cell_format out c = Parsed d" "circ_id d = circ_id out" "length (payload d) = CELL_PAYLOAD_SIZE"
    using create_cell_format_defined [OF assms] unfolding create_cell_format_def by blast
  have t: "cell_type c = CELL_CREATE \<and> (handshake_type c = ONION_HANDSHAKE_TYPE_TAP \<or> handshake_type c = ONION_HANDSHAKE_TYPE_NTOR)
      \<or> cell_type c = CELL_CREATE_FAST \<or> cell_type c = CELL_CREATE2"
    using assms(2) by (auto simp: check_create_cell_def split: if_splits)
  note rules = parse_formatted_create [OF assms _ _ d(1)] parse_formatted_ntor [OF assms _ _ d(1)]
    parse_formatted_fast [OF assms _ d(1)] parse_formatted_create2 [OF assms _ d(1)]
  have ne: "CELL_CREATE_FAST \<noteq> CELL_CREATE" "CELL_CREATE2 \<noteq> CELL_CREATE" "CELL_CREATE2 \<noteq> CELL_CREATE_FAST"
    "ONION_HANDSHAKE_TYPE_NTOR \<noteq> ONION_HANDSHAKE_TYPE_TAP"
    by (simp_all add: cell_commands handshake_types)
  from t have "create_cell_parse d = Some c \<longleftrightarrow> \<not> (cell_type c = CELL_CREATE \<and>
      handshake_type c = ONION_HANDSHAKE_TYPE_TAP \<and> take 16 (onionskin c) = NTOR_CREATE_MAGIC) \<and>
      \<not> (cell_type c = CELL_CREATE2 \<and> handshake_type c = ONION_HANDSHAKE_TYPE_FAST)"
    using rules ne by metis
  with d show ?thesis by blast
qed

definition demo_create_cell :: create_cell where
  "demo_create_cell = create_cell_init CELL_CREATE2 ONION_HANDSHAKE_TYPE_NTOR NTOR_ONIONSKIN_LEN (replicate 84 7)"

definition demo_fast_cell :: create_cell where
  "demo_fast_cell = create_cell_init CELL_CREATE2 ONION_HANDSHAKE_TYPE_FAST CREATE_FAST_LEN (replicate 20 7)"

lemma demo_create_cell_ok:
  "create_cell_wf demo_create_cell" "check_create_cell demo_create_cell False"
  "cell_type demo_create_cell = CELL_CREATE2" "handshake_type demo_create_cell = ONION_HANDSHAKE_TYPE_NTOR"
  "create_cell_wf demo_fast_cell" "check_create_cell demo_fast_cell False"
  "cell_type demo_fast_cell = CELL_CREATE2" "handshake_type demo_fast_cell = ONION_HANDSHAKE_TYPE_FAST"
  by (simp_all add: demo_create_cell_def demo_fast_cell_def create_cell_wf_def check_create_cell_def create_cell_init_def handshake_rooms
      copied_def handshake_lengths handshake_types cell_commands)

theorem create_cell_roundtrip_witness:
  "\<exists>d e. create_cell_format \<lparr>circ_id = 9, command = 0, payload = []\<rparr> demo_create_cell = Parsed d \<and>
     create_cell_parse d = Some demo_create_cell \<and>
     create_cell_format \<lparr>circ_id = 9, command = 0, payload = []\<rparr> demo_fast_cell = Parsed e \<and>
     create_cell_parse e \<noteq> Some demo_fast_cell"
proof -
  have "ONION_HANDSHAKE_TYPE_NTOR \<noteq> ONION_HANDSHAKE_TYPE_FAST" "CELL_CREATE2 \<noteq> CELL_CREATE"
    by (simp_all add: handshake_types cell_commands)
  then show ?thesis
    using create_cell_roundtrip [of demo_create_cell "\<lparr>circ_id = 9, command = 0, payload = []\<rparr>"]
      create_cell_roundtrip [of demo_fast_cell "\<lparr>circ_id = 9, command = 0, payload = []\<rparr>"]
    by (auto simp: demo_create_cell_ok)
qed

section \<open>The way of an answer\<close>

lemma created2_on_the_wire:
  assumes "created_cell_wf c" "created_cell_type c = CELL_CREATED2" "unat (reply_len c) \<le> 496"
  shows "\<exists>d. created_cell_format out c = Parsed d \<and> created_cell_parse d = Some c"
proof -
  define n where "n = unat (reply_len c)"
  let ?h = "put_uint16 (reply_len c)"
  have sk: "n \<le> 496" "length (reply c) = 507" "copied REPLY_ROOM n (reply c) = reply c"
    using assms by (simp_all add: created_cell_wf_def n_def handshake_rooms)
  have chk: "check_created_cell c"
    using assms by (simp add: check_created_cell_def cell_commands handshake_rooms)
  obtain d where f: "created_cell_format out c = Parsed d" and d: "command d = CELL_CREATED2"
    "payload d = copied CELL_PAYLOAD_SIZE (2 + n) (?h @ take n (reply c))"
    using chk assms(2) sk
    by (simp add: created_cell_format_def Let_def n_def [symmetric] cell_commands CELL_PAYLOAD_SIZE_def min_def)
  have p: "payload d = ?h @ take n (reply c) @ replicate (507 - n) 0"
    using sk by (simp add: d copied_def CELL_PAYLOAD_SIZE_def)
  have ret: "copied REPLY_ROOM n (drop 2 (payload d)) = reply c"
    using copied_behind [of n "reply c" "2 + n" ?h REPLY_ROOM CELL_PAYLOAD_SIZE] sk by (simp add: d)
  have "created_cell_of CELL_CREATED2 (reply_len c) (drop 2 (payload d)) = c"
    using assms(2) ret by (simp add: created_cell_of_def n_def)
  moreover have "get_uint16 (payload d) = reply_len c" by (simp add: p)
  ultimately have "created_cell_parse d = Some c"
    using chk sk(1) by (simp add: created_cell_parse_def d(1) cell_commands n_def [symmetric] CELL_PAYLOAD_SIZE_def)
  with f show ?thesis by blast
qed

lemma created_on_the_wire:
  assumes "created_cell_wf c" "created_cell_type c = CELL_CREATED" "reply_len c = TAP_ONIONSKIN_REPLY_LEN"
  shows "\<exists>d. created_cell_format out c = Parsed d \<and> created_cell_parse d = Some c"
proof -
  define n where "n = unat TAP_ONIONSKIN_REPLY_LEN"
  have sk: "n = 148" "length (reply c) = 507" "copied REPLY_ROOM n (reply c) = reply c"
    using assms by (simp_all add: created_cell_wf_def n_def handshake_rooms handshake_lengths)
  have chk: "check_created_cell c"
    using assms by (simp add: check_created_cell_def)
  obtain d where f: "created_cell_format out c = Parsed d" and d: "command d = CELL_CREATED"
    "payload d = copied CELL_PAYLOAD_SIZE n (take n (reply c))"
    using chk assms(2,3) sk
    by (simp add: created_cell_format_def Let_def n_def [symmetric] CELL_PAYLOAD_SIZE_def min_def)
  have ret: "copied REPLY_ROOM n (payload d) = reply c"
    using copied_front [of n "reply c" REPLY_ROOM CELL_PAYLOAD_SIZE] sk by (simp add: d)
  have "created_cell_of CELL_CREATED TAP_ONIONSKIN_REPLY_LEN (payload d) = c"
    using assms(2,3) ret by (simp add: created_cell_of_def n_def)
  then have "created_cell_parse d = Some c"
    using chk by (simp add: created_cell_parse_def d(1))
  with f show ?thesis by blast
qed

lemma extended2_on_the_wire:
  assumes "created_cell_wf c" "created_cell_type c = CELL_CREATED2" "unat (reply_len c) \<le> 496"
  shows "\<exists>cmd len p. extended_cell_format \<lparr>extended_cell_type = RELAY_COMMAND_EXTENDED2, created_cell = c\<rparr> = Some (cmd, len, p) \<and>
    extended_cell_parse cmd p (ucast len) = Some \<lparr>extended_cell_type = RELAY_COMMAND_EXTENDED2, created_cell = c\<rparr>"
proof -
  define n where "n = unat (reply_len c)"
  let ?h = "put_uint16 (reply_len c)" and ?e = "\<lparr>extended_cell_type = RELAY_COMMAND_EXTENDED2, created_cell = c\<rparr>"
  let ?p = "copied RELAY_PAYLOAD_SIZE (2 + n) (?h @ reply c)"
  have sk: "n \<le> 496" "length (reply c) = 507" "copied REPLY_ROOM n (reply c) = reply c"
    using assms by (simp_all add: created_cell_wf_def n_def handshake_rooms)
  have chk: "check_extended_cell ?e"
    using assms by (simp add: check_extended_cell_def check_created_cell_def cell_commands handshake_rooms)
  have f: "extended_cell_format ?e = Some (RELAY_COMMAND_EXTENDED2, 2 + reply_len c, ?p)"
    using chk sk(1) by (simp add: extended_cell_format_def Let_def n_def [symmetric] cell_commands handshake_rooms)
  have p: "?p = ?h @ take n (reply c) @ replicate (496 - n) 0"
    by (simp add: copied_def handshake_rooms)
  have drp: "copied REPLY_ROOM n (drop 2 ?p) = copied REPLY_ROOM n (reply c)"
    using sk(1,2) by (intro copied_takeI) (simp only: p, simp)
  have len: "unat (2 + reply_len c) = 2 + n"
    using sk(1) by (subst unat_add_lem [THEN iffD1]) (simp_all add: n_def)
  have bound: "unat (ucast (2 + reply_len c) :: uint64) = 2 + n"
    using len sk(1) by (simp add: unat_ucast16)
  have sub: "ucast (2 + reply_len c) - 2 = (ucast (reply_len c) :: uint64)"
    using bound sk(1) by (intro word_unat_eq_iff [THEN iffD2]) (simp add: unat_sub word_le_nat_alt n_def unat_ucast16)
  have "created_cell_of CELL_CREATED2 (reply_len c) (drop 2 ?p) = c"
    using assms(2) drp sk(3) by (simp add: created_cell_of_def n_def)
  moreover have "get_uint16 ?p = reply_len c" unfolding p by simp
  ultimately have "extended_cell_parse RELAY_COMMAND_EXTENDED2 ?p (ucast (2 + reply_len c)) = Some ?e"
    using chk sk(1) bound sub
    by (simp add: extended_cell_parse_def cell_commands n_def [symmetric] handshake_rooms)
  with f show ?thesis by blast
qed

lemma extended_on_the_wire:
  assumes "created_cell_wf c" "created_cell_type c = CELL_CREATED" "reply_len c = TAP_ONIONSKIN_REPLY_LEN"
  shows "\<exists>cmd len p. extended_cell_format \<lparr>extended_cell_type = RELAY_COMMAND_EXTENDED, created_cell = c\<rparr> = Some (cmd, len, p) \<and>
    extended_cell_parse cmd p (ucast len) = Some \<lparr>extended_cell_type = RELAY_COMMAND_EXTENDED, created_cell = c\<rparr>"
proof -
  define n where "n = unat TAP_ONIONSKIN_REPLY_LEN"
  let ?e = "\<lparr>extended_cell_type = RELAY_COMMAND_EXTENDED, created_cell = c\<rparr>"
  let ?p = "copied RELAY_PAYLOAD_SIZE n (reply c)"
  have sk: "n = 148" "length (reply c) = 507" "copied REPLY_ROOM n (reply c) = reply c"
    using assms by (simp_all add: created_cell_wf_def n_def handshake_rooms handshake_lengths)
  have chk: "check_extended_cell ?e"
    using assms by (simp add: check_extended_cell_def check_created_cell_def)
  have f: "extended_cell_format ?e = Some (RELAY_COMMAND_EXTENDED, TAP_ONIONSKIN_REPLY_LEN, ?p)"
    using chk by (simp add: extended_cell_format_def Let_def n_def)
  have "copied REPLY_ROOM n ?p = copied REPLY_ROOM n (reply c)"
    by (rule copied_takeI) (simp add: sk(2) sk(1) copied_def)
  then have "created_cell_of CELL_CREATED TAP_ONIONSKIN_REPLY_LEN ?p = c"
    using assms(2,3) sk(3) by (simp add: created_cell_of_def n_def)
  moreover have "unat (ucast TAP_ONIONSKIN_REPLY_LEN :: uint64) = 148" by (simp add: handshake_lengths)
  ultimately have "extended_cell_parse RELAY_COMMAND_EXTENDED ?p (ucast TAP_ONIONSKIN_REPLY_LEN) = Some ?e"
    using chk by (simp add: extended_cell_parse_def handshake_rooms)
  with f show ?thesis by blast
qed

text \<open>
  C13. The answer of a relay to a CREATE2 cell, or to a CREATE cell with a TAP handshake, reaches the client unchanged
  through a relay in the middle: formatted as a CREATED cell, parsed by the previous relay, packed into an
  EXTENDED relay cell, and parsed by the client.
\<close>

theorem answer_reaches_client:
  assumes "created_cell_wf c"
    and "created_cell_type c = CELL_CREATED2 \<and> unat (reply_len c) \<le> RELAY_PAYLOAD_SIZE - 2 \<or>
         created_cell_type c = CELL_CREATED \<and> reply_len c = TAP_ONIONSKIN_REPLY_LEN"
  shows "\<exists>d cmd len p e. created_cell_format out c = Parsed d \<and> relay_created_cell d = Some (cmd, len, p) \<and>
    extended_cell_parse cmd p (ucast len) = Some e \<and> created_cell e = c"
proof -
  have ne: "CELL_CREATED \<noteq> CELL_CREATED2" by (simp add: cell_commands)
  from assms(2) show ?thesis
  proof
    assume c: "created_cell_type c = CELL_CREATED2 \<and> unat (reply_len c) \<le> RELAY_PAYLOAD_SIZE - 2"
    then have r: "unat (reply_len c) \<le> 496" by (simp add: handshake_rooms)
    show ?thesis
      using created2_on_the_wire [OF assms(1) conjunct1 [OF c] r, of out]
        extended2_on_the_wire [OF assms(1) conjunct1 [OF c] r] c
      by (fastforce simp: relay_created_cell_def)
  next
    assume c: "created_cell_type c = CELL_CREATED \<and> reply_len c = TAP_ONIONSKIN_REPLY_LEN"
    show ?thesis
      using created_on_the_wire [OF assms(1) conjunct1 [OF c] conjunct2 [OF c], of out]
        extended_on_the_wire [OF assms(1) conjunct1 [OF c] conjunct2 [OF c]] c ne
      by (fastforce simp: relay_created_cell_def)
  qed
qed

definition demo_created_cell :: created_cell where
  "demo_created_cell = created_cell_of CELL_CREATED2 NTOR_REPLY_LEN (replicate 64 5)"

theorem answer_reaches_client_witness:
  "\<exists>d cmd len p e. created_cell_format \<lparr>circ_id = 9, command = 0, payload = []\<rparr> demo_created_cell = Parsed d \<and>
    relay_created_cell d = Some (cmd, len, p) \<and> extended_cell_parse cmd p (ucast len) = Some e \<and>
    created_cell e = demo_created_cell"
  by (rule answer_reaches_client)
    (simp_all add: demo_created_cell_def created_cell_of_def created_cell_wf_def handshake_rooms copied_def handshake_lengths)

text \<open>
  The length check of an EXTENDED2 cell wraps: a relay cell that declares a payload of no or one byte is
  accepted, and its answer is made of bytes beyond the declared payload, whenever the two bytes at the
  start of the buffer read as a length of at most 496.
\<close>

theorem extended2_length_wraps:
  assumes "p_len < 2" "length p = RELAY_PAYLOAD_SIZE"
  shows "extended_cell_parse RELAY_COMMAND_EXTENDED2 p p_len =
    (if unat (get_uint16 p) \<le> RELAY_PAYLOAD_SIZE - 2
     then Some \<lparr>extended_cell_type = RELAY_COMMAND_EXTENDED2,
                created_cell = created_cell_of CELL_CREATED2 (get_uint16 p) (drop 2 p)\<rparr>
     else None)"
proof -
  have u: "unat p_len < 2"
    using assms(1) by (simp add: word_less_nat_alt)
  have "p_len = 0 \<or> p_len = 1"
    using u by (metis One_nat_def less_2_cases unat_eq_zero word_unat_eq_iff unsigned_1)
  then have "unat (p_len - 2) \<ge> 65536"
    by (auto simp: unsigned_minus_1_eq_mask mask_eq_exp_minus_1)
  moreover have "unat (ucast (get_uint16 p) :: uint64) < 65536"
    using unsigned_less [of "get_uint16 p"] by (simp add: unat_ucast16)
  ultimately have "\<not> ucast (get_uint16 p) > p_len - 2"
    by (simp add: word_less_nat_alt)
  then show ?thesis
    using u by (auto simp: extended_cell_parse_def handshake_rooms cell_commands check_extended_cell_def
        check_created_cell_def created_cell_of_def Let_def)
qed

theorem extended2_length_wraps_witness:
  "extended_cell_parse RELAY_COMMAND_EXTENDED2 (put_uint16 3 @ [7, 8, 9] @ replicate 493 0) 0 =
    Some \<lparr>extended_cell_type = RELAY_COMMAND_EXTENDED2,
          created_cell = created_cell_of CELL_CREATED2 3 ([7, 8, 9] @ replicate 493 0)\<rparr>"
  using extended2_length_wraps [of 0 "put_uint16 3 @ [7, 8, 9] @ replicate 493 0"]
  by (simp add: handshake_rooms)

end
