(* ===== verification/Handshakes.thy ===== *)
theory Handshakes
  imports Onion Strings "HOL-Library.Monad_Syntax"
begin

text \<open>
  How a relay answers CREATE cells with the help of worker threads: the pool of \<^verbatim>\<open>lib/evloop/workqueue.c\<close>, the
  queue of waiting onionskins in \<^verbatim>\<open>feature/relay/onion_queue.c\<close>, the dispatcher \<^verbatim>\<open>core/mainloop/cpuworker.c\<close>, and
  the life of a circuit in \<^verbatim>\<open>core/or/circuitlist.c\<close> and \<^verbatim>\<open>core/or/command.c\<close>.

  Circuits, queue entries and work entries live in three memories, maps from pointers to structures; a
  freed structure is absent, and pointers are never reused. Every operation returns \<open>None\<close> when an
  assertion fails, or when it follows a pointer to a freed structure or to a circuit that was wiped for its
  worker to free. What the program reads from outside (clocks, random numbers, results of
  cryptographic functions) are arguments.
\<close>

section \<open>State\<close>

datatype circuit_state = CIRCUIT_STATE_BUILDING | CIRCUIT_STATE_ONIONSKIN_PENDING | CIRCUIT_STATE_CHAN_WAIT
  | CIRCUIT_STATE_GUARD_WAIT | CIRCUIT_STATE_OPEN

record or_circuit =
  c_state :: circuit_state
  marked_for_close :: bool
  p_chan :: bool
  p_circ_id :: uint32
  crypto :: bool
  rend_splice :: "nat option"
  onionqueue_entry :: "nat option"
  workqueue_entry :: "nat option"
  global_circuitlist_idx :: int

text \<open>
  \<open>p_chan\<close> says whether the channel to the client is set, \<open>crypto\<close> whether the keys are.
\<close>

text \<open>A circuit whose memory was wiped and that carries \<^verbatim>\<open>DEAD_CIRCUIT_MAGIC\<close> is \<open>Dead\<close>.\<close>

datatype circuit_mem = Live or_circuit | Dead

record onion_queue =
  oq_circ :: nat
  oq_type :: uint16
  oq_onionskin :: "create_cell option"
  when_added :: int

record cpuworker_request =
  req_timed :: bool
  req_started_at :: int
  req_create_cell :: create_cell

record cpuworker_reply =
  rpl_success :: bool
  rpl_timed :: bool
  rpl_type :: uint16
  rpl_started_at :: int
  rpl_n_usec :: uint32
  rpl_created_cell :: created_cell

text \<open>The union of a job: its magic number says which member is valid. Jobs of other subsystems share the pool.\<close>

datatype job_body = Request cpuworker_request | Reply cpuworker_reply
datatype job = Handshake_job nat job_body | Other_job | Freed_job

record work_entry =
  on_pool :: bool
  pending :: bool
  priority :: nat
  work_arg :: job

record relay_options =
  num_cpus :: int
  MaxOnionQueueDelay :: int
  net_params :: "string list option"

text \<open>
  \<open>running\<close> holds the entries that worker threads are executing, \<open>closing\<close> the circuits that an execution of
  \<^verbatim>\<open>circuit_close_all_marked\<close> still has to visit, and \<open>sent\<close> the cells appended to the queues of circuits.
\<close>

record relay =
  circuits :: "nat \<rightharpoonup> circuit_mem"
  global_circuitlist :: "nat list"
  circuits_pending_close :: "nat list"
  closing :: "nat list option"
  onions :: "nat \<rightharpoonup> onion_queue"
  ol_list :: "uint16 \<Rightarrow> nat list"
  ol_entries :: "uint16 \<Rightarrow> int"
  recently_chosen_ntors :: int
  total_pending_tasks :: int
  max_pending_tasks :: int
  works :: "nat \<rightharpoonup> work_entry"
  pool_work :: "nat \<Rightarrow> nat list"
  running :: "nat list"
  answers :: "nat list"
  onionskins_n_processed :: "uint16 \<Rightarrow> uint64"
  onionskins_usec_internal :: "uint16 \<Rightarrow> uint64"
  onionskins_usec_roundtrip :: "uint16 \<Rightarrow> uint64"
  next_ptr :: nat
  options :: relay_options
  sent :: "(nat \<times> cell) list"

text \<open>What one event of the main thread reads: the time in seconds, and for each new job its clock and its random bit.\<close>

record reading =
  now :: int
  usec_of :: "nat \<Rightarrow> int"
  lucky :: "nat \<Rightarrow> bool"

definition live :: "nat \<Rightarrow> relay \<Rightarrow> or_circuit option" where
  "live i s = (case circuits s i of Some (Live c) \<Rightarrow> Some c | _ \<Rightarrow> None)"

definition upd_circ :: "nat \<Rightarrow> (or_circuit \<Rightarrow> or_circuit) \<Rightarrow> relay \<Rightarrow> relay option" where
  "upd_circ i f s = do { c \<leftarrow> live i s; Some (s\<lparr>circuits := (circuits s)(i \<mapsto> Live (f c))\<rparr>) }"

definition check :: "bool \<Rightarrow> unit option" where
  "check b = (if b then Some () else None)"

section \<open>The pool of worker threads\<close>

definition threadpool_queue_work_priority :: "nat \<Rightarrow> job \<Rightarrow> relay \<Rightarrow> (nat \<times> relay) option" where
  "threadpool_queue_work_priority prio arg s = do {
     check (prio \<le> 2);
     let e = next_ptr s;
     Some (e, s\<lparr>next_ptr := e + 1,
               works := (works s)(e \<mapsto> \<lparr>on_pool = True, pending = True, priority = prio, work_arg = arg\<rparr>),
               pool_work := (pool_work s)(prio := pool_work s prio @ [e])\<rparr>)
   }"

definition workqueue_entry_cancel :: "nat \<Rightarrow> relay \<Rightarrow> (job option \<times> relay) option" where
  "workqueue_entry_cancel e s = do {
     w \<leftarrow> works s e;
     check (on_pool w);
     if pending w then do {
       check (e \<in> set (pool_work s (priority w)));
       Some (Some (work_arg w),
             s\<lparr>pool_work := (pool_work s)(priority w := remove1 e (pool_work s (priority w))),
               works := (works s)(e := None)\<rparr>)
     } else Some (None, s)
   }"

text \<open>
  The loop over the priorities: a queue with work is usually taken, and with a small probability the thread
  goes on to look for work of lower priority.
\<close>

fun pick_queue :: "(nat \<Rightarrow> bool) \<Rightarrow> (nat \<Rightarrow> nat list) \<Rightarrow> nat list \<Rightarrow> nat option \<Rightarrow> nat option" where
  "pick_queue one_in_n work [] q = q"
| "pick_queue one_in_n work (p # ps) q =
     (if work p = [] then pick_queue one_in_n work ps q
      else if one_in_n p then pick_queue one_in_n work ps (Some p)
      else Some p)"

definition worker_thread_extract_next_work :: "(nat \<Rightarrow> bool) \<Rightarrow> relay \<Rightarrow> relay option" where
  "worker_thread_extract_next_work one_in_n s =
     (case pick_queue one_in_n (pool_work s) [0, 1, 2] None of
        None \<Rightarrow> Some s
      | Some p \<Rightarrow> (case pool_work s p of
          [] \<Rightarrow> None
        | e # r \<Rightarrow> do {
            w \<leftarrow> works s e;
            Some (s\<lparr>pool_work := (pool_work s)(p := r), works := (works s)(e \<mapsto> w\<lparr>pending := False\<rparr>),
                    running := running s @ [e]\<rparr>)
          }))"

definition queue_reply :: "nat \<Rightarrow> relay \<Rightarrow> relay" where
  "queue_reply e s = s\<lparr>running := remove1 e (running s), answers := answers s @ [e]\<rparr>"

section \<open>Network parameters\<close>

fun find_net_param :: "string list \<Rightarrow> string \<Rightarrow> int option" where
  "find_net_param [] name = None"
| "find_net_param (p # ps) name =
     (if starts_with p name \<and> length name < length p \<and> p ! length name = CHR ''='' then
        (let (v, ok, _) = tor_parse_long (drop (length name + 1) p) (- (2 ^ 31)) (2 ^ 31 - 1) False
         in if ok then Some v else find_net_param ps name)
      else find_net_param ps name)"

definition get_net_param_from_list :: "string list \<Rightarrow> string \<Rightarrow> int \<Rightarrow> int \<Rightarrow> int \<Rightarrow> int option" where
  "get_net_param_from_list params name default_val min_val max_val = do {
     check (max_val > min_val);
     check (min_val \<le> default_val);
     check (max_val \<ge> default_val);
     let res = (case find_net_param params name of None \<Rightarrow> default_val | Some v \<Rightarrow> v);
     let res = (if res < min_val then min_val else if res > max_val then max_val else res);
     check (res \<ge> min_val);
     check (res \<le> max_val);
     Some res
   }"

definition networkstatus_get_param :: "string list option \<Rightarrow> string \<Rightarrow> int \<Rightarrow> int \<Rightarrow> int \<Rightarrow> int option" where
  "networkstatus_get_param params name default_val min_val max_val =
     (case params of None \<Rightarrow> Some default_val
      | Some ps \<Rightarrow> get_net_param_from_list ps name default_val min_val max_val)"

definition num_ntors_per_tap :: "relay \<Rightarrow> int option" where
  "num_ntors_per_tap s = do {
     result \<leftarrow> networkstatus_get_param (net_params (options s)) ''NumNTorsPerTAP'' 10 1 100000;
     check (result > 0);
     Some result
   }"

section \<open>Estimates and room in the queue\<close>

definition should_time_request :: "bool \<Rightarrow> uint16 \<Rightarrow> relay \<Rightarrow> bool" where
  "should_time_request rnd t s =
     (if t > MAX_ONION_HANDSHAKE_TYPE then False
      else if onionskins_n_processed s t < 4096 then True
      else rnd)"

definition estimated_usec_for_onionskins :: "uint32 \<Rightarrow> uint16 \<Rightarrow> relay \<Rightarrow> uint64" where
  "estimated_usec_for_onionskins n_requests t s =
     (if t > MAX_ONION_HANDSHAKE_TYPE then 1000 * ucast n_requests
      else if onionskins_n_processed s t < 100 then 1000 * ucast n_requests
      else (onionskins_usec_internal s t * ucast n_requests) div onionskins_n_processed s t)"

text \<open>\<open>int32\<close> wraps a product of two \<^verbatim>\<open>int\<close> values.\<close>

definition int32 :: "int \<Rightarrow> int" where "int32 x = sint (word_of_int x :: 32 word)"

definition have_room_for_onionskin :: "uint16 \<Rightarrow> relay \<Rightarrow> bool option" where
  "have_room_for_onionskin t s =
     (if ol_entries s t < 50 then Some True
      else do {
        let cpus = (word_of_int (num_cpus (options s)) :: uint64);
        let taps = ol_entries s ONION_HANDSHAKE_TYPE_TAP;
        let ntors = ol_entries s ONION_HANDSHAKE_TYPE_NTOR;
        let delay = (word_of_int (MaxOnionQueueDelay (options s)) :: uint64);
        k \<leftarrow> num_ntors_per_tap s;
        check (cpus \<noteq> 0);
        let tap_usec = estimated_usec_for_onionskins (word_of_int taps) ONION_HANDSHAKE_TYPE_TAP s div cpus;
        let ntor_usec = estimated_usec_for_onionskins (word_of_int ntors) ONION_HANDSHAKE_TYPE_NTOR s div cpus;
        let tap_during_ntor_usec =
          estimated_usec_for_onionskins (word_of_int (min taps (c_div ntors k))) ONION_HANDSHAKE_TYPE_TAP s div cpus;
        let ntor_during_tap_usec =
          estimated_usec_for_onionskins (word_of_int (min ntors (int32 (taps * k)))) ONION_HANDSHAKE_TYPE_NTOR s div cpus;
        Some (\<not> (t = ONION_HANDSHAKE_TYPE_NTOR \<and> (ntor_usec + tap_during_ntor_usec) div 1000 > delay) \<and>
              \<not> (t = ONION_HANDSHAKE_TYPE_TAP \<and> (tap_usec + ntor_during_tap_usec) div 1000 > delay) \<and>
              \<not> (t = ONION_HANDSHAKE_TYPE_TAP \<and> tap_usec div 1000 > delay * 2 div 3))
      })"

section \<open>Marking circuits\<close>

text \<open>The parts of \<^verbatim>\<open>assert_circuit_ok\<close> about the keys and about joined circuits.\<close>

definition keys_ok :: "or_circuit \<Rightarrow> bool" where
  "keys_ok c \<longleftrightarrow> (c_state c \<in> {CIRCUIT_STATE_OPEN, CIRCUIT_STATE_GUARD_WAIT} \<longrightarrow> crypto c)"

definition assert_circuit_ok :: "nat \<Rightarrow> relay \<Rightarrow> unit option" where
  "assert_circuit_ok i s = do {
     c \<leftarrow> live i s;
     check (keys_ok c);
     case rend_splice c of
       None \<Rightarrow> Some ()
     | Some j \<Rightarrow> do {
         check (j \<noteq> i);
         if marked_for_close c then Some ()
         else do { d \<leftarrow> live j s; check (rend_splice d = Some i) }
       }
   }"

partial_function (option) circuit_mark_for_close :: "nat \<Rightarrow> relay \<Rightarrow> relay option" where
  "circuit_mark_for_close i s = do {
     assert_circuit_ok i s;
     c \<leftarrow> live i s;
     if marked_for_close c then Some s
     else do {
       s \<leftarrow> upd_circ i (marked_for_close_update (\<lambda>_. True)) s;
       s \<leftarrow> (case rend_splice c of
               None \<Rightarrow> Some s
             | Some j \<Rightarrow> do {
                 d \<leftarrow> live j s;
                 s \<leftarrow> (if marked_for_close d then Some s else circuit_mark_for_close j s);
                 upd_circ i (rend_splice_update (\<lambda>_. None)) s
               });
       Some (s\<lparr>circuits_pending_close := circuits_pending_close s @ [i]\<rparr>)
     }
   }"

section \<open>The queue of onionskins\<close>

definition ONIONQUEUE_WAIT_CUTOFF :: int where "ONIONQUEUE_WAIT_CUTOFF = 5"

definition onion_queue_entry_remove :: "nat \<Rightarrow> relay \<Rightarrow> relay option" where
  "onion_queue_entry_remove e s = do {
     v \<leftarrow> onions s e;
     let t = oq_type v;
     if t > MAX_ONION_HANDSHAKE_TYPE then Some s
     else do {
       check (e \<in> set (ol_list s t));
       s \<leftarrow> upd_circ (oq_circ v) (onionqueue_entry_update (\<lambda>_. None))
              (s\<lparr>ol_list := (ol_list s)(t := remove1 e (ol_list s t))\<rparr>);
       Some (s\<lparr>ol_entries := (if oq_onionskin v \<noteq> None then (ol_entries s)(t := ol_entries s t - 1) else ol_entries s),
               onions := (onions s)(e := None)\<rparr>)
     }
   }"

partial_function (option) cull_elderly :: "int \<Rightarrow> uint16 \<Rightarrow> relay \<Rightarrow> relay option" where
  "cull_elderly tm t s =
     (case ol_list s t of
        [] \<Rightarrow> None
      | e # _ \<Rightarrow> do {
          v \<leftarrow> onions s e;
          if tm - when_added v < ONIONQUEUE_WAIT_CUTOFF then Some s
          else do {
            s \<leftarrow> upd_circ (oq_circ v) (onionqueue_entry_update (\<lambda>_. None)) s;
            s \<leftarrow> onion_queue_entry_remove e s;
            c \<leftarrow> live (oq_circ v) s;
            s \<leftarrow> (if marked_for_close c then Some s else circuit_mark_for_close (oq_circ v) s);
            cull_elderly tm t s
          }
        })"

text \<open>The flag of the result is \<^verbatim>\<open>0\<close> as true and \<^verbatim>\<open>-1\<close> as false.\<close>

definition onion_pending_add :: "int \<Rightarrow> nat \<Rightarrow> create_cell \<Rightarrow> relay \<Rightarrow> (bool \<times> relay) option" where
  "onion_pending_add tm i skin s =
     (let t = handshake_type skin
      in if t > MAX_ONION_HANDSHAKE_TYPE then Some (False, s)
         else do {
           room \<leftarrow> have_room_for_onionskin t s;
           if \<not> room then Some (False, s)
           else do {
             let e = next_ptr s;
             s \<leftarrow> upd_circ i (onionqueue_entry_update (\<lambda>_. Some e))
                    (s\<lparr>next_ptr := e + 1,
                      onions := (onions s)(e \<mapsto> \<lparr>oq_circ = i, oq_type = t, oq_onionskin = Some skin, when_added = tm\<rparr>),
                      ol_entries := (ol_entries s)(t := ol_entries s t + 1)\<rparr>);
             s \<leftarrow> cull_elderly tm t (s\<lparr>ol_list := (ol_list s)(t := ol_list s t @ [e])\<rparr>);
             Some (True, s)
           }
         })"

definition decide_next_handshake_type :: "relay \<Rightarrow> (uint16 \<times> relay) option" where
  "decide_next_handshake_type s =
     (if ol_entries s ONION_HANDSHAKE_TYPE_NTOR = 0 then Some (ONION_HANDSHAKE_TYPE_TAP, s)
      else do {
        k \<leftarrow> num_ntors_per_tap s;
        let r = recently_chosen_ntors s;
        if ol_entries s ONION_HANDSHAKE_TYPE_TAP = 0 then
          Some (ONION_HANDSHAKE_TYPE_NTOR, if r \<le> k then s\<lparr>recently_chosen_ntors := r + 1\<rparr> else s)
        else if r + 1 \<le> k then Some (ONION_HANDSHAKE_TYPE_NTOR, s\<lparr>recently_chosen_ntors := r + 1\<rparr>)
        else Some (ONION_HANDSHAKE_TYPE_TAP, s\<lparr>recently_chosen_ntors := 0\<rparr>)
      })"

definition onion_next_task :: "relay \<Rightarrow> ((nat \<times> create_cell option) option \<times> relay) option" where
  "onion_next_task s = do {
     (t, s) \<leftarrow> decide_next_handshake_type s;
     case ol_list s t of
       [] \<Rightarrow> Some (None, s)
     | e # _ \<Rightarrow> do {
         v \<leftarrow> onions s e;
         check (oq_type v \<le> MAX_ONION_HANDSHAKE_TYPE);
         let i = oq_circ v;
         let s = (if oq_onionskin v \<noteq> None
                  then s\<lparr>ol_entries := (ol_entries s)(oq_type v := ol_entries s (oq_type v) - 1)\<rparr> else s);
         s \<leftarrow> upd_circ i (onionqueue_entry_update (\<lambda>_. None)) (s\<lparr>onions := (onions s)(e \<mapsto> v\<lparr>oq_onionskin := None\<rparr>)\<rparr>);
         s \<leftarrow> onion_queue_entry_remove e s;
         Some (Some (i, oq_onionskin v), s)
       }
   }"

definition onion_num_pending :: "uint16 \<Rightarrow> relay \<Rightarrow> int" where
  "onion_num_pending t s = ol_entries s t"

section \<open>The dispatcher\<close>

definition cpuworker_cancel_circ_handshake :: "nat \<Rightarrow> relay \<Rightarrow> relay option" where
  "cpuworker_cancel_circ_handshake i s = do {
     c \<leftarrow> live i s;
     case workqueue_entry c of
       None \<Rightarrow> Some s
     | Some e \<Rightarrow> do {
         (arg, s) \<leftarrow> workqueue_entry_cancel e s;
         case arg of
           None \<Rightarrow> Some s
         | Some _ \<Rightarrow> do {
             check (total_pending_tasks s > 0);
             upd_circ i (workqueue_entry_update (\<lambda>_. None)) (s\<lparr>total_pending_tasks := total_pending_tasks s - 1\<rparr>)
           }
       }
   }"

definition onion_pending_remove :: "nat \<Rightarrow> relay \<Rightarrow> relay option" where
  "onion_pending_remove i s = do {
     c \<leftarrow> live i s;
     s \<leftarrow> (case onionqueue_entry c of None \<Rightarrow> Some s | Some victim \<Rightarrow> onion_queue_entry_remove victim s);
     cpuworker_cancel_circ_handshake i s
   }"

definition assign_onionskin_to_cpuworker :: "reading \<Rightarrow> nat \<Rightarrow> create_cell option \<Rightarrow> relay \<Rightarrow> (bool \<times> relay) option" where
  "assign_onionskin_to_cpuworker rd i skin s = do {
     c \<leftarrow> live i s;
     if \<not> p_chan c then Some (False, s)
     else do {
       cc \<leftarrow> skin;
       if total_pending_tasks s \<ge> max_pending_tasks s then onion_pending_add (now rd) i cc s
       else do {
         let e = next_ptr s;
         let timed = should_time_request (lucky rd e) (handshake_type cc) s;
         let req = \<lparr>req_timed = timed, req_started_at = (if timed then usec_of rd e else 0), req_create_cell = cc\<rparr>;
         (e, s) \<leftarrow> threadpool_queue_work_priority 0 (Handshake_job i (Request req))
                    (s\<lparr>total_pending_tasks := total_pending_tasks s + 1\<rparr>);
         s \<leftarrow> upd_circ i (workqueue_entry_update (\<lambda>_. Some e)) s;
         Some (True, s)
       }
     }
   }"

partial_function (option) queue_pending_tasks :: "reading \<Rightarrow> relay \<Rightarrow> relay option" where
  "queue_pending_tasks rd s =
     (if total_pending_tasks s < max_pending_tasks s then do {
        (task, s) \<leftarrow> onion_next_task s;
        case task of
          None \<Rightarrow> Some s
        | Some (i, skin) \<Rightarrow> do {
            (_, s) \<leftarrow> assign_onionskin_to_cpuworker rd i skin s;
            queue_pending_tasks rd s
          }
      } else Some s)"

definition cpu_init :: "relay \<Rightarrow> relay" where
  "cpu_init s = s\<lparr>max_pending_tasks := num_cpus (options s) * 64\<rparr>"

section \<open>Worker threads\<close>

definition MAX_BELIEVABLE_ONIONSKIN_DELAY :: int where "MAX_BELIEVABLE_ONIONSKIN_DELAY = 2 * 1000 * 1000"

text \<open>
  The work function in a worker thread: \<open>hs\<close> is the reply that \<^verbatim>\<open>onion_skin_server_handshake\<close> computed, if it
  succeeded, and \<open>usec\<close> the time it took. A failure zeroes the answer, with its flag \<^verbatim>\<open>timed\<close>.
\<close>

definition cpuworker_onion_handshake_threadfn :: "byte list option \<Rightarrow> int \<Rightarrow> job_body \<Rightarrow> job_body option" where
  "cpuworker_onion_handshake_threadfn hs usec body =
     (case body of
        Reply _ \<Rightarrow> None
      | Request req \<Rightarrow> do {
          let cc = req_create_cell req;
          let zero = \<lparr>rpl_success = False, rpl_timed = False, rpl_type = 0, rpl_started_at = 0, rpl_n_usec = 0,
                      rpl_created_cell = created_cell_of 0 0 []\<rparr>;
          rpl \<leftarrow> (case hs of
             None \<Rightarrow> Some zero
           | Some r \<Rightarrow> do {
               t \<leftarrow> (if cell_type cc = CELL_CREATE then Some CELL_CREATED
                      else if cell_type cc = CELL_CREATE2 then Some CELL_CREATED2
                      else if cell_type cc = CELL_CREATE_FAST then Some CELL_CREATED_FAST
                      else None);
               Some (zero\<lparr>rpl_success := True, rpl_timed := req_timed req, rpl_type := handshake_type cc,
                          rpl_started_at := req_started_at req,
                          rpl_created_cell := created_cell_of t (of_nat (length r)) r\<rparr>)
             });
          let n = (if usec < 0 \<or> usec > MAX_BELIEVABLE_ONIONSKIN_DELAY then MAX_BELIEVABLE_ONIONSKIN_DELAY else usec);
          Some (Reply (if req_timed req then rpl\<lparr>rpl_n_usec := word_of_int n\<rparr> else rpl))
        })"

text \<open>The body of the loop of \<^verbatim>\<open>worker_thread_main\<close> after an entry was extracted.\<close>

definition worker_thread_work :: "nat \<Rightarrow> byte list option \<Rightarrow> int \<Rightarrow> relay \<Rightarrow> relay option" where
  "worker_thread_work e hs usec s = do {
     w \<leftarrow> works s e;
     arg \<leftarrow> (case work_arg w of
        Handshake_job i body \<Rightarrow> map_option (Handshake_job i) (cpuworker_onion_handshake_threadfn hs usec body)
      | Other_job \<Rightarrow> Some Other_job
      | Freed_job \<Rightarrow> None);
     Some (queue_reply e (s\<lparr>works := (works s)(e \<mapsto> w\<lparr>work_arg := arg\<rparr>)\<rparr>))
   }"

section \<open>Answers\<close>

text \<open>\<open>init_ok\<close> is the result of \<^verbatim>\<open>relay_crypto_init\<close>, which asserts that no keys are set yet. The flag of the result is \<^verbatim>\<open>0\<close> as true and \<^verbatim>\<open>-1\<close> as false.\<close>

definition onionskin_answer :: "bool \<Rightarrow> nat \<Rightarrow> created_cell \<Rightarrow> relay \<Rightarrow> (bool \<times> relay) option" where
  "onionskin_answer init_ok i created s =
     (case created_cell_format \<lparr>circ_id = 0, command = 0, payload = replicate CELL_PAYLOAD_SIZE 0\<rparr> created of
        Aborted \<Rightarrow> None
      | Rejected \<Rightarrow> Some (False, s)
      | Parsed cell \<Rightarrow> do {
          c \<leftarrow> live i s;
          check (\<not> crypto c);
          s \<leftarrow> upd_circ i (\<lambda>c. c\<lparr>c_state := CIRCUIT_STATE_OPEN, crypto := init_ok\<rparr>) s;
          if \<not> init_ok then Some (False, s)
          else do {
            check (p_chan c);
            Some (True, s\<lparr>sent := sent s @ [(i, cell\<lparr>circ_id := p_circ_id c\<rparr>)]\<rparr>)
          }
        })"

definition note_onionskin_time :: "int \<Rightarrow> cpuworker_reply \<Rightarrow> relay \<Rightarrow> relay" where
  "note_onionskin_time tv_end rpl s =
     (let t = rpl_type rpl; usec_roundtrip = tv_end - rpl_started_at rpl
      in if rpl_timed rpl \<and> rpl_success rpl \<and> t \<le> MAX_ONION_HANDSHAKE_TYPE \<and>
            0 \<le> usec_roundtrip \<and> usec_roundtrip < MAX_BELIEVABLE_ONIONSKIN_DELAY
         then let n = onionskins_n_processed s t + 1;
                  a = onionskins_usec_internal s t + ucast (rpl_n_usec rpl);
                  b = onionskins_usec_roundtrip s t + word_of_int usec_roundtrip;
                  k = (if n \<ge> 500000 then 2 else 1)
              in s\<lparr>onionskins_n_processed := (onionskins_n_processed s)(t := n div k),
                   onionskins_usec_internal := (onionskins_usec_internal s)(t := a div k),
                   onionskins_usec_roundtrip := (onionskins_usec_roundtrip s)(t := b div k)\<rparr>
         else s)"

definition answer_circuit :: "bool \<Rightarrow> nat \<Rightarrow> cpuworker_reply \<Rightarrow> relay \<Rightarrow> relay option" where
  "answer_circuit init_ok i rpl s = do {
     m \<leftarrow> circuits s i;
     case m of
       Dead \<Rightarrow> Some (s\<lparr>circuits := (circuits s)(i := None)\<rparr>)
     | Live c \<Rightarrow> do {
         s \<leftarrow> upd_circ i (workqueue_entry_update (\<lambda>_. None)) s;
         if marked_for_close c then Some s
         else if \<not> rpl_success rpl then circuit_mark_for_close i s
         else do {
           (ok, s) \<leftarrow> onionskin_answer init_ok i (rpl_created_cell rpl) s;
           if ok then Some s else circuit_mark_for_close i s
         }
       }
   }"

definition cpuworker_onion_handshake_replyfn :: "reading \<Rightarrow> bool \<Rightarrow> nat \<Rightarrow> relay \<Rightarrow> relay option" where
  "cpuworker_onion_handshake_replyfn rd init_ok e s = do {
     w \<leftarrow> works s e;
     case work_arg w of
       Handshake_job i (Reply rpl) \<Rightarrow> do {
         check (total_pending_tasks s > 0);
         s \<leftarrow> answer_circuit init_ok i rpl
                (note_onionskin_time (usec_of rd e) rpl (s\<lparr>total_pending_tasks := total_pending_tasks s - 1\<rparr>));
         queue_pending_tasks rd (s\<lparr>works := (works s)(e \<mapsto> w\<lparr>work_arg := Freed_job\<rparr>)\<rparr>)
       }
     | _ \<Rightarrow> None
   }"

text \<open>One round of the loop of \<^verbatim>\<open>replyqueue_process\<close>.\<close>

definition replyqueue_process_next :: "reading \<Rightarrow> bool \<Rightarrow> relay \<Rightarrow> relay option" where
  "replyqueue_process_next rd init_ok s =
     (case answers s of
        [] \<Rightarrow> Some s
      | e # r \<Rightarrow> do {
          w \<leftarrow> works s e;
          let s = s\<lparr>answers := r, works := (works s)(e \<mapsto> w\<lparr>on_pool := False\<rparr>)\<rparr>;
          s \<leftarrow> (case work_arg w of
             Handshake_job _ _ \<Rightarrow> cpuworker_onion_handshake_replyfn rd init_ok e s
           | Other_job \<Rightarrow> Some s
           | Freed_job \<Rightarrow> None);
          check (works s e \<noteq> None);
          Some (s\<lparr>works := (works s)(e := None)\<rparr>)
        })"

section \<open>The life of a circuit\<close>

definition smartlist_del :: "'a list \<Rightarrow> int \<Rightarrow> 'a list option" where
  "smartlist_del sl idx =
     (if 0 \<le> idx \<and> idx < int (length sl) then Some (butlast (sl[nat idx := last sl])) else None)"

definition or_circuit_new :: "uint32 \<Rightarrow> relay \<Rightarrow> nat \<times> relay" where
  "or_circuit_new cid s =
     (let i = next_ptr s;
          c = \<lparr>c_state = CIRCUIT_STATE_BUILDING, marked_for_close = False, p_chan = True, p_circ_id = cid, crypto = False,
               rend_splice = None, onionqueue_entry = None, workqueue_entry = None,
               global_circuitlist_idx = int (length (global_circuitlist s))\<rparr>
      in (i, s\<lparr>next_ptr := i + 1, circuits := (circuits s)(i \<mapsto> Live c),
               global_circuitlist := global_circuitlist s @ [i]\<rparr>))"

definition circuit_about_to_free :: "nat \<Rightarrow> relay \<Rightarrow> relay option" where
  "circuit_about_to_free i s = do {
     c \<leftarrow> live i s;
     s \<leftarrow> (if c_state c = CIRCUIT_STATE_ONIONSKIN_PENDING then onion_pending_remove i s else Some s);
     upd_circ i (p_chan_update (\<lambda>_. False)) s
   }"

definition delete_from_circuitlist :: "int \<Rightarrow> relay \<Rightarrow> relay option" where
  "delete_from_circuitlist idx s = do {
     lst \<leftarrow> smartlist_del (global_circuitlist s) idx;
     let s = s\<lparr>global_circuitlist := lst\<rparr>;
     if idx < int (length lst) then upd_circ (lst ! nat idx) (global_circuitlist_idx_update (\<lambda>_. idx)) s
     else Some s
   }"

definition circuit_free :: "nat \<Rightarrow> relay \<Rightarrow> relay option" where
  "circuit_free i s = do {
     c \<leftarrow> live i s;
     let should_free = (workqueue_entry c = None);
     s \<leftarrow> (case rend_splice c of None \<Rightarrow> Some s | Some j \<Rightarrow> upd_circ j (rend_splice_update (\<lambda>_. None)) s);
     let idx = global_circuitlist_idx c;
     s \<leftarrow> (if idx \<noteq> -1 then do {
              c2 \<leftarrow> arr_get (global_circuitlist s) idx;
              check (c2 = i);
              delete_from_circuitlist idx s
            } else Some s);
     Some (s\<lparr>circuits := (circuits s)(i := (if should_free then None else Some Dead))\<rparr>)
   }"

text \<open>One round of the loop of \<^verbatim>\<open>circuit_close_all_marked\<close>.\<close>

definition circuit_close_marked :: "nat \<Rightarrow> relay \<Rightarrow> relay option" where
  "circuit_close_marked i s = do {
     c \<leftarrow> live i s;
     check (marked_for_close c);
     s \<leftarrow> delete_from_circuitlist (global_circuitlist_idx c) s;
     s \<leftarrow> upd_circ i (global_circuitlist_idx_update (\<lambda>_. -1)) s;
     s \<leftarrow> circuit_about_to_free i s;
     circuit_free i s
   }"

text \<open>\<^verbatim>\<open>SMARTLIST_DEL_CURRENT\<close> puts the last element in the place of the current one, which the loop visits next.\<close>

function free_circuits :: "nat list \<Rightarrow> relay \<Rightarrow> relay option" where
  "free_circuits [] s = Some s"
| "free_circuits (i # r) s = do {
     s \<leftarrow> upd_circ i (global_circuitlist_idx_update (\<lambda>_. -1)) s;
     s \<leftarrow> upd_circ i (p_chan_update (\<lambda>_. False)) s;
     s \<leftarrow> circuit_free i s;
     free_circuits (if r = [] then [] else last r # butlast r) s
   }"
  by pat_completeness auto
termination
  by (relation "measure (\<lambda>(l, _). length l)") auto

definition circuit_free_all :: "relay \<Rightarrow> relay option" where
  "circuit_free_all s = do {
     s \<leftarrow> free_circuits (global_circuitlist s) s;
     Some (s\<lparr>global_circuitlist := [], circuits_pending_close := []\<rparr>)
   }"

fun remove_victims :: "nat list \<Rightarrow> relay \<Rightarrow> relay option" where
  "remove_victims [] s = Some s"
| "remove_victims (v # vs) s = do { s \<leftarrow> onion_queue_entry_remove v s; remove_victims vs s }"

fun clear_lists :: "uint16 list \<Rightarrow> relay \<Rightarrow> relay option" where
  "clear_lists [] s = Some s"
| "clear_lists (t # ts) s = do {
     s \<leftarrow> remove_victims (ol_list s t) s;
     check (ol_list s t = []);
     clear_lists ts s
   }"

definition clear_pending_onions :: "relay \<Rightarrow> relay option" where
  "clear_pending_onions s = do { s \<leftarrow> clear_lists [0, 1, 2] s; Some (s\<lparr>ol_entries := \<lambda>_. 0\<rparr>) }"

text \<open>The order of \<^verbatim>\<open>tor_free_all\<close>: the circuits go first, the relay subsystem is shut down at the end.\<close>

definition tor_free_all :: "relay \<Rightarrow> relay option" where
  "tor_free_all s = do { s \<leftarrow> circuit_free_all s; clear_pending_onions s }"

section \<open>Commands\<close>

datatype circ_id_type = CIRC_ID_TYPE_LOWER | CIRC_ID_TYPE_HIGHER | CIRC_ID_TYPE_NEITHER

record create_env =
  id_in_use :: bool
  hibernating :: bool
  refuse_cell :: bool
  server_mode :: bool
  public_server_mode :: bool
  chan_outgoing :: bool
  wide_circ_ids :: bool
  chan_circ_id_type :: circ_id_type

text \<open>
  \<open>hs\<close> and \<open>init_ok\<close> are the results of the cryptographic functions for a CREATE_FAST cell. The first component of the
  result is the reason of a DESTROY cell that is sent back at once.
\<close>

definition command_process_create_cell ::
  "reading \<Rightarrow> create_env \<Rightarrow> byte list option \<Rightarrow> bool \<Rightarrow> cell \<Rightarrow> relay \<Rightarrow> (uint8 option \<times> relay) option" where
  "command_process_create_cell rd env hs init_ok cell s =
     (let id_is_high = (if wide_circ_ids env then circ_id cell AND 2 ^ 31 else circ_id cell AND 2 ^ 15) \<noteq> 0
      in if circ_id cell = 0 then Some (None, s)
         else if id_in_use env then Some (None, s)
         else if hibernating env then Some (Some 4, s)
         else if refuse_cell env then Some (Some 5, s)
         else if \<not> server_mode env \<or> (\<not> public_server_mode env \<and> chan_outgoing env) then Some (Some 1, s)
         else if id_is_high \<and> chan_circ_id_type env = CIRC_ID_TYPE_HIGHER \<or>
                 \<not> id_is_high \<and> chan_circ_id_type env = CIRC_ID_TYPE_LOWER then Some (Some 1, s)
         else do {
           let (i, s) = or_circuit_new (circ_id cell) s;
           s \<leftarrow> upd_circ i (c_state_update (\<lambda>_. CIRCUIT_STATE_ONIONSKIN_PENDING)) s;
           s \<leftarrow> (case create_cell_parse cell of
              None \<Rightarrow> circuit_mark_for_close i s
            | Some cc \<Rightarrow>
                (if handshake_type cc \<noteq> ONION_HANDSHAKE_TYPE_FAST then do {
                   (ok, s) \<leftarrow> assign_onionskin_to_cpuworker rd i (Some cc) s;
                   if ok then Some s else circuit_mark_for_close i s
                 } else (case hs of
                   None \<Rightarrow> circuit_mark_for_close i s
                 | Some r \<Rightarrow> do {
                     (ok, s) \<leftarrow> onionskin_answer init_ok i (created_cell_of CELL_CREATED_FAST (of_nat (length r)) r) s;
                     if ok then Some s else circuit_mark_for_close i s
                   })));
           Some (None, s)
         })"

text \<open>A DESTROY cell from the client's side, and the loss of the channel to the client.\<close>

definition command_process_destroy_cell :: "nat \<Rightarrow> relay \<Rightarrow> relay option" where
  "command_process_destroy_cell i s = do {
     s \<leftarrow> upd_circ i (p_chan_update (\<lambda>_. False)) s;
     circuit_mark_for_close i s
   }"

fun circuit_unlink_all_from_channel :: "nat list \<Rightarrow> relay \<Rightarrow> relay option" where
  "circuit_unlink_all_from_channel [] s = Some s"
| "circuit_unlink_all_from_channel (i # r) s = do {
     s \<leftarrow> upd_circ i (p_chan_update (\<lambda>_. False)) s;
     c \<leftarrow> live i s;
     s \<leftarrow> (if marked_for_close c then Some s else circuit_mark_for_close i s);
     circuit_unlink_all_from_channel r s
   }"

definition rend_mid_join :: "nat \<Rightarrow> nat \<Rightarrow> relay \<Rightarrow> relay option" where
  "rend_mid_join i j s = do {
     s \<leftarrow> upd_circ j (rend_splice_update (\<lambda>_. Some i)) s;
     upd_circ i (rend_splice_update (\<lambda>_. Some j)) s
   }"

section \<open>Events\<close>

text \<open>
  The events of the main thread and of the worker threads. The main thread handles one event after the
  other; the loop over the circuits to be closed is split into its rounds, because a worker may take a job
  between two cancellations. The other handlers touch the pool only by appending jobs and by taking the
  first answer, which commutes with the steps of the workers. Circuits are also marked, joined and extended
  by code outside the model: \<open>Ev_mark\<close>, \<open>Ev_join\<close> and \<open>Ev_state\<close> are these calls, under the conditions that the callers
  establish. \<^verbatim>\<open>relay_crypto_init\<close> succeeds: it is called with keys of the right length.
\<close>

datatype event =
    Ev_create reading create_env "byte list option" bool cell
  | Ev_mark nat
  | Ev_destroy nat
  | Ev_unlink "nat list"
  | Ev_join nat nat
  | Ev_state nat circuit_state
  | Ev_other nat
  | Ev_options relay_options
  | Ev_reply reading bool
  | Ev_close_begin
  | Ev_close_next
  | Ev_close_end
  | Ev_extract "nat \<Rightarrow> bool"
  | Ev_work nat "byte list option" int

definition unmarked_open :: "nat \<Rightarrow> relay \<Rightarrow> bool" where
  "unmarked_open i s = (case live i s of None \<Rightarrow> False
     | Some c \<Rightarrow> \<not> marked_for_close c \<and> c_state c = CIRCUIT_STATE_OPEN \<and> rend_splice c = None)"

fun enabled :: "event \<Rightarrow> relay \<Rightarrow> bool" where
  "enabled (Ev_create rd env hs init_ok cell) s \<longleftrightarrow> closing s = None \<and> init_ok \<and> length (payload cell) = CELL_PAYLOAD_SIZE"
| "enabled (Ev_mark i) s \<longleftrightarrow> closing s = None \<and> live i s \<noteq> None"
| "enabled (Ev_destroy i) s \<longleftrightarrow> closing s = None \<and> live i s \<noteq> None"
| "enabled (Ev_unlink l) s \<longleftrightarrow> closing s = None \<and> list_all (\<lambda>i. live i s \<noteq> None) l"
| "enabled (Ev_join i j) s \<longleftrightarrow> closing s = None \<and> i \<noteq> j \<and> unmarked_open i s \<and> unmarked_open j s"
| "enabled (Ev_state i st) s \<longleftrightarrow> closing s = None \<and>
     (case live i s of None \<Rightarrow> False
      | Some c \<Rightarrow> c_state c \<in> {CIRCUIT_STATE_OPEN, CIRCUIT_STATE_CHAN_WAIT} \<and>
                 st \<in> {CIRCUIT_STATE_OPEN, CIRCUIT_STATE_CHAN_WAIT})"
| "enabled (Ev_other prio) s \<longleftrightarrow> closing s = None \<and> prio \<le> 2"
| "enabled (Ev_options opts) s \<longleftrightarrow> closing s = None \<and> 1 \<le> num_cpus opts \<and> num_cpus opts * 64 < 2 ^ 31"
| "enabled (Ev_reply rd init_ok) s \<longleftrightarrow> closing s = None \<and> init_ok"
| "enabled Ev_close_begin s \<longleftrightarrow> closing s = None"
| "enabled Ev_close_next s \<longleftrightarrow> (case closing s of Some (i # r) \<Rightarrow> True | _ \<Rightarrow> False)"
| "enabled Ev_close_end s \<longleftrightarrow> closing s = Some []"
| "enabled (Ev_extract one_in_n) s \<longleftrightarrow> True"
| "enabled (Ev_work e hs usec) s \<longleftrightarrow> e \<in> set (running s)"

fun exec :: "event \<Rightarrow> relay \<Rightarrow> relay option" where
  "exec (Ev_create rd env hs init_ok cell) s = map_option snd (command_process_create_cell rd env hs init_ok cell s)"
| "exec (Ev_mark i) s = circuit_mark_for_close i s"
| "exec (Ev_destroy i) s = command_process_destroy_cell i s"
| "exec (Ev_unlink l) s = circuit_unlink_all_from_channel l s"
| "exec (Ev_join i j) s = rend_mid_join i j s"
| "exec (Ev_state i st) s = upd_circ i (c_state_update (\<lambda>_. st)) s"
| "exec (Ev_other prio) s = map_option snd (threadpool_queue_work_priority prio Other_job s)"
| "exec (Ev_options opts) s = Some (cpu_init (s\<lparr>options := opts\<rparr>))"
| "exec (Ev_reply rd init_ok) s = replyqueue_process_next rd init_ok s"
| "exec Ev_close_begin s = Some (s\<lparr>closing := Some (circuits_pending_close s)\<rparr>)"
| "exec Ev_close_next s =
     (case closing s of
        Some (i # r) \<Rightarrow> map_option (closing_update (\<lambda>_. Some r)) (circuit_close_marked i s)
      | _ \<Rightarrow> Some s)"
| "exec Ev_close_end s = Some (s\<lparr>circuits_pending_close := [], closing := None\<rparr>)"
| "exec (Ev_extract one_in_n) s = worker_thread_extract_next_work one_in_n s"
| "exec (Ev_work e hs usec) s = worker_thread_work e hs usec s"

definition init_relay :: relay where
  "init_relay = cpu_init \<lparr>circuits = Map.empty, global_circuitlist = [], circuits_pending_close = [], closing = None,
     onions = Map.empty, ol_list = \<lambda>_. [], ol_entries = \<lambda>_. 0, recently_chosen_ntors = 0, total_pending_tasks = 0,
     max_pending_tasks = 128, works = Map.empty, pool_work = \<lambda>_. [], running = [], answers = [],
     onionskins_n_processed = \<lambda>_. 0, onionskins_usec_internal = \<lambda>_. 0, onionskins_usec_roundtrip = \<lambda>_. 0,
     next_ptr = 0, options = \<lparr>num_cpus = 1, MaxOnionQueueDelay = 1750, net_params = None\<rparr>, sent = []\<rparr>"

inductive relay_reachable :: "relay \<Rightarrow> bool" where
  relay_reachable_init: "relay_reachable init_relay"
| relay_reachable_step: "relay_reachable s \<Longrightarrow> enabled ev s \<Longrightarrow> exec ev s = Some s' \<Longrightarrow> relay_reachable s'"

end
