(* ===== verification/Handshakes_Inv.thy ===== *)
theory Handshakes_Inv
  imports Handshakes
begin

text \<open>
  The invariant of the handshake state and its preservation by the operations: which structures exist, who points
  to whom, and what the counters count.
\<close>

section \<open>Views of the state\<close>

definition onq :: "relay \<Rightarrow> nat \<rightharpoonup> nat" where
  "onq s i = Option.bind (live i s) onionqueue_entry"

definition wkq :: "relay \<Rightarrow> nat \<rightharpoonup> nat" where
  "wkq s i = Option.bind (live i s) workqueue_entry"

definition owner :: "relay \<Rightarrow> nat \<rightharpoonup> nat" where
  "owner s e = map_option oq_circ (onions s e)"

fun job_circ :: "job \<Rightarrow> nat option" where
  "job_circ (Handshake_job i _) = Some i"
| "job_circ _ = None"

definition job_of :: "relay \<Rightarrow> nat \<rightharpoonup> nat" where
  "job_of s e = Option.bind (works s e) (job_circ \<circ> work_arg)"

definition dead :: "relay \<Rightarrow> nat \<Rightarrow> bool" where
  "dead s i \<longleftrightarrow> circuits s i = Some Dead"

lemma live_unchanged [simp]:
  "live i (s\<lparr>global_circuitlist := a1\<rparr>) = live i s" "live i (s\<lparr>circuits_pending_close := a1\<rparr>) = live i s"
  "live i (s\<lparr>closing := a2\<rparr>) = live i s" "live i (s\<lparr>onions := a3\<rparr>) = live i s"
  "live i (s\<lparr>ol_list := a4\<rparr>) = live i s" "live i (s\<lparr>ol_entries := a5\<rparr>) = live i s"
  "live i (s\<lparr>recently_chosen_ntors := a6\<rparr>) = live i s" "live i (s\<lparr>total_pending_tasks := a6\<rparr>) = live i s"
  "live i (s\<lparr>max_pending_tasks := a6\<rparr>) = live i s" "live i (s\<lparr>works := a7\<rparr>) = live i s"
  "live i (s\<lparr>pool_work := a8\<rparr>) = live i s" "live i (s\<lparr>running := a1\<rparr>) = live i s"
  "live i (s\<lparr>answers := a1\<rparr>) = live i s" "live i (s\<lparr>onionskins_n_processed := a9\<rparr>) = live i s"
  "live i (s\<lparr>onionskins_usec_internal := a9\<rparr>) = live i s" "live i (s\<lparr>onionskins_usec_roundtrip := a9\<rparr>) = live i s"
  "live i (s\<lparr>next_ptr := a10\<rparr>) = live i s" "live i (s\<lparr>options := a11\<rparr>) = live i s" "live i (s\<lparr>sent := a12\<rparr>) = live i s"
  by (simp_all add: live_def)

lemma live_circuits [simp]:
  "live i (s\<lparr>circuits := m(j \<mapsto> Live c)\<rparr>) = (if i = j then Some c else live i (s\<lparr>circuits := m\<rparr>))"
  "live i (s\<lparr>circuits := m(j \<mapsto> Dead)\<rparr>) = (if i = j then None else live i (s\<lparr>circuits := m\<rparr>))"
  "live i (s\<lparr>circuits := m(j := None)\<rparr>) = (if i = j then None else live i (s\<lparr>circuits := m\<rparr>))"
  "live i (s\<lparr>circuits := circuits s\<rparr>) = live i s"
  by (simp_all add: live_def)

lemma live_Some: "live i s = Some c \<longleftrightarrow> circuits s i = Some (Live c)"
  by (auto simp: live_def split: option.splits circuit_mem.splits)

lemma upd_circ_live: "live i s = Some c \<Longrightarrow> upd_circ i f s = Some (s\<lparr>circuits := (circuits s)(i \<mapsto> Live (f c))\<rparr>)"
  by (simp add: upd_circ_def)

lemma check_True [simp]: "check True = Some ()" "check b = Some u \<longleftrightarrow> b"
  by (simp_all add: check_def)

section \<open>The invariant\<close>

definition request_ok :: "create_cell \<Rightarrow> bool" where
  "request_ok cc \<longleftrightarrow> check_create_cell cc False \<and> handshake_type cc \<noteq> ONION_HANDSHAKE_TYPE_FAST"

definition inv_mem :: "relay \<Rightarrow> bool" where
  "inv_mem s \<longleftrightarrow> (\<forall>p \<ge> next_ptr s. circuits s p = None \<and> onions s p = None \<and> works s p = None)"

definition inv_onions :: "relay \<Rightarrow> bool" where
  "inv_onions s \<longleftrightarrow>
     (\<forall>t. distinct (ol_list s t) \<and> ol_entries s t = int (length (ol_list s t))) \<and>
     (\<forall>t e. e \<in> set (ol_list s t) \<longleftrightarrow> map_option oq_type (onions s e) = Some t) \<and>
     (\<forall>e v. onions s e = Some v \<longrightarrow>
        (\<exists>cc. oq_onionskin v = Some cc \<and> request_ok cc \<and> oq_type v = handshake_type cc)) \<and>
     (\<forall>e i. owner s e = Some i \<longleftrightarrow> onq s i = Some e)"

text \<open>\<open>X\<close> holds the entry whose reply the main thread is handling.\<close>

definition arg_ok :: "bool \<Rightarrow> job \<Rightarrow> bool" where
  "arg_ok answered j \<longleftrightarrow>
     (case j of Handshake_job _ (Request r) \<Rightarrow> \<not> answered \<and> request_ok (req_create_cell r)
      | Handshake_job _ (Reply _) \<Rightarrow> answered | Other_job \<Rightarrow> True | Freed_job \<Rightarrow> False)"

definition inv_works :: "nat set \<Rightarrow> relay \<Rightarrow> bool" where
  "inv_works X s \<longleftrightarrow>
     (\<forall>p. distinct (pool_work s p)) \<and> distinct (running s @ answers s) \<and> X \<inter> set (running s @ answers s) = {} \<and>
     (\<forall>p e. e \<in> set (pool_work s p) \<longleftrightarrow> (\<exists>w. works s e = Some w \<and> pending w \<and> priority w = p)) \<and>
     (\<forall>e. e \<in> set (running s @ answers s) \<union> X \<longleftrightarrow> (\<exists>w. works s e = Some w \<and> \<not> pending w)) \<and>
     (\<forall>e w. works s e = Some w \<longrightarrow> e \<notin> X \<longrightarrow> on_pool w \<and> arg_ok (e \<in> set (answers s)) (work_arg w)) \<and>
     (\<forall>e w. works s e = Some w \<longrightarrow> e \<in> X \<longrightarrow> job_circ (work_arg w) = None)"

definition inv_jobs :: "relay \<Rightarrow> bool" where
  "inv_jobs s \<longleftrightarrow>
     (\<forall>i e. wkq s i = Some e \<longrightarrow> job_of s e = Some i) \<and>
     (\<forall>e i. job_of s e = Some i \<longrightarrow> wkq s i = Some e \<or> dead s i \<and> (\<forall>w. works s e = Some w \<longrightarrow> \<not> pending w)) \<and>
     (\<forall>i. dead s i \<longrightarrow> (\<exists>e. job_of s e = Some i)) \<and>
     (\<forall>e e' i. job_of s e = Some i \<longrightarrow> job_of s e' = Some i \<longrightarrow> e = e') \<and>
     total_pending_tasks s = int (card (dom (job_of s)))"

definition circ_ok :: "nat \<Rightarrow> or_circuit \<Rightarrow> bool" where
  "circ_ok i c \<longleftrightarrow>
     (\<not> p_chan c \<longrightarrow> marked_for_close c) \<and>
     (onionqueue_entry c \<noteq> None \<longrightarrow> c_state c = CIRCUIT_STATE_ONIONSKIN_PENDING \<and> workqueue_entry c = None) \<and>
     (workqueue_entry c \<noteq> None \<longrightarrow> c_state c = CIRCUIT_STATE_ONIONSKIN_PENDING) \<and>
     (rend_splice c \<noteq> None \<longrightarrow> \<not> marked_for_close c) \<and>
     (crypto c \<longleftrightarrow> c_state c \<in> {CIRCUIT_STATE_OPEN, CIRCUIT_STATE_GUARD_WAIT, CIRCUIT_STATE_CHAN_WAIT})"

definition inv_splice :: "relay \<Rightarrow> bool" where
  "inv_splice s \<longleftrightarrow> (\<forall>i c j. live i s = Some c \<longrightarrow> rend_splice c = Some j \<longrightarrow>
     j \<noteq> i \<and> (\<exists>d. live j s = Some d \<and> rend_splice d = Some i))"

text \<open>\<open>Z\<close> holds the circuit that is being freed.\<close>

definition inv_list :: "nat set \<Rightarrow> relay \<Rightarrow> bool" where
  "inv_list Z s \<longleftrightarrow> distinct (global_circuitlist s) \<and>
     (\<forall>i. i \<in> set (global_circuitlist s) \<longleftrightarrow> live i s \<noteq> None \<and> i \<notin> Z) \<and>
     (\<forall>i c. live i s = Some c \<longrightarrow>
        (if i \<in> Z then global_circuitlist_idx c = -1
         else arr_get (global_circuitlist s) (global_circuitlist_idx c) = Some i))"

text \<open>\<open>rem\<close> holds the circuits still to be closed.\<close>

definition inv_marked :: "nat list \<Rightarrow> nat set \<Rightarrow> relay \<Rightarrow> bool" where
  "inv_marked rem Z s \<longleftrightarrow> distinct rem \<and>
     (\<forall>i. i \<in> set rem \<longleftrightarrow> i \<notin> Z \<and> (\<exists>c. live i s = Some c \<and> marked_for_close c)) \<and>
     (\<forall>i \<in> Z. \<forall>c. live i s = Some c \<longrightarrow> marked_for_close c)"

text \<open>No circuit is forgotten, with the exception of the circuits in \<open>Y\<close> that an operation is handling.\<close>

definition inv_kept :: "nat set \<Rightarrow> relay \<Rightarrow> bool" where
  "inv_kept Y s \<longleftrightarrow> (\<forall>i c. live i s = Some c \<longrightarrow> i \<notin> Y \<longrightarrow> c_state c = CIRCUIT_STATE_ONIONSKIN_PENDING \<longrightarrow>
     \<not> marked_for_close c \<longrightarrow> onionqueue_entry c \<noteq> None \<or> workqueue_entry c \<noteq> None)"

definition inv_options :: "relay \<Rightarrow> bool" where
  "inv_options s \<longleftrightarrow> 1 \<le> num_cpus (options s) \<and> num_cpus (options s) * 64 < 2 ^ 31 \<and> 0 \<le> recently_chosen_ntors s"

definition inv :: "nat list \<Rightarrow> nat set \<Rightarrow> nat set \<Rightarrow> nat set \<Rightarrow> relay \<Rightarrow> bool" where
  "inv rem Z X Y s \<longleftrightarrow> inv_mem s \<and> inv_onions s \<and> inv_works X s \<and> inv_jobs s \<and>
     (\<forall>i c. live i s = Some c \<longrightarrow> circ_ok i c) \<and> inv_splice s \<and> inv_list Z s \<and> inv_marked rem Z s \<and> inv_kept Y s \<and>
     inv_options s"

lemma invD:
  assumes "inv rem Z X Y s"
  shows "inv_mem s" "inv_onions s" "inv_works X s" "inv_jobs s" "inv_splice s" "inv_list Z s" "inv_marked rem Z s"
    "inv_kept Y s" "inv_options s" "live i s = Some c \<Longrightarrow> circ_ok i c"
  using assms by (simp_all add: inv_def)

lemmas view_defs = onq_def wkq_def owner_def job_of_def dead_def

section \<open>Marking\<close>

text \<open>Marking changes only the flag, the join and the list of circuits to be closed.\<close>

definition same_but_marks :: "or_circuit \<Rightarrow> or_circuit \<Rightarrow> bool" where
  "same_but_marks c c' \<longleftrightarrow> c_state c' = c_state c \<and> p_chan c' = p_chan c \<and> p_circ_id c' = p_circ_id c \<and> crypto c' = crypto c \<and>
     onionqueue_entry c' = onionqueue_entry c \<and> workqueue_entry c' = workqueue_entry c \<and>
     global_circuitlist_idx c' = global_circuitlist_idx c \<and> (marked_for_close c \<longrightarrow> marked_for_close c')"

fun mem_marked :: "circuit_mem option \<Rightarrow> circuit_mem option \<Rightarrow> bool" where
  "mem_marked (Some (Live c)) (Some (Live c')) \<longleftrightarrow> same_but_marks c c'"
| "mem_marked x y \<longleftrightarrow> y = x"

definition mark_frame :: "relay \<Rightarrow> relay \<Rightarrow> bool" where
  "mark_frame s s' \<longleftrightarrow> (\<exists>m l. s' = s\<lparr>circuits := m, circuits_pending_close := l\<rparr> \<and>
     (\<forall>i. mem_marked (circuits s i) (m i)))"

lemma same_but_marks_trans: "same_but_marks c d \<Longrightarrow> same_but_marks d e \<Longrightarrow> same_but_marks c e"
  by (auto simp: same_but_marks_def)

lemma mem_marked_refl [simp]: "mem_marked x x"
  by (cases "(x, x)" rule: mem_marked.cases) (auto simp: same_but_marks_def)

lemma mem_marked_cases:
  assumes "mem_marked x y"
  obtains c c' where "x = Some (Live c)" "y = Some (Live c')" "same_but_marks c c'"
    | "x = None" "y = None" | "x = Some Dead" "y = Some Dead"
  using assms by (cases "(x, y)" rule: mem_marked.cases) auto

lemma mark_frame_live:
  assumes "mark_frame s s'"
  shows "live i s = Some c \<Longrightarrow> \<exists>c'. live i s' = Some c' \<and> same_but_marks c c'"
    and "live i s' = Some c' \<Longrightarrow> \<exists>c. live i s = Some c \<and> same_but_marks c c'"
proof -
  obtain m l where s': "s' = s\<lparr>circuits := m, circuits_pending_close := l\<rparr>" and
    m: "\<And>i. mem_marked (circuits s i) (m i)"
    using assms unfolding mark_frame_def by blast
  show "live i s = Some c \<Longrightarrow> \<exists>c'. live i s' = Some c' \<and> same_but_marks c c'"
    using m [of i] by (cases rule: mem_marked_cases) (auto simp: s' live_Some)
  show "live i s' = Some c' \<Longrightarrow> \<exists>c. live i s = Some c \<and> same_but_marks c c'"
    using m [of i] by (cases rule: mem_marked_cases) (auto simp: s' live_Some)
qed

lemma mark_frame_views:
  assumes "mark_frame s s'"
  shows "onq s' = onq s" "wkq s' = wkq s" "dead s' = dead s" "live i s' = None \<longleftrightarrow> live i s = None"
proof -
  obtain m l where s': "s' = s\<lparr>circuits := m, circuits_pending_close := l\<rparr>" and
    m: "\<And>i. mem_marked (circuits s i) (m i)"
    using assms unfolding mark_frame_def by blast
  have "onq s' i = onq s i \<and> wkq s' i = wkq s i \<and> dead s' i = dead s i \<and> (live i s' = None \<longleftrightarrow> live i s = None)" for i
    using m [of i] by (cases rule: mem_marked_cases) (auto simp: view_defs s' live_def same_but_marks_def)
  then show "onq s' = onq s" "wkq s' = wkq s" "dead s' = dead s" "live i s' = None \<longleftrightarrow> live i s = None"
    by auto
qed

lemma mark_frame_trans:
  assumes "mark_frame s s'" "mark_frame s' s''"
  shows "mark_frame s s''"
proof -
  obtain m l where s': "s' = s\<lparr>circuits := m, circuits_pending_close := l\<rparr>" and
    m: "\<And>i. mem_marked (circuits s i) (m i)"
    using assms(1) unfolding mark_frame_def by blast
  obtain m' l' where s'': "s'' = s'\<lparr>circuits := m', circuits_pending_close := l'\<rparr>" and
    m': "\<And>i. mem_marked (circuits s' i) (m' i)"
    using assms(2) unfolding mark_frame_def by blast
  have "mem_marked (circuits s i) (m' i)" for i
    using m [of i] by (cases rule: mem_marked_cases; use m' [of i] in \<open>cases rule: mem_marked_cases\<close>)
      (auto simp: s' intro: same_but_marks_trans)
  then show ?thesis by (auto simp: mark_frame_def s' s'')
qed

lemma inv_marking:
  assumes I: "inv rem Z X Y s" and F: "mark_frame s s'"
    and S: "inv_splice s'" and M: "inv_marked rem' Z s'"
    and R: "\<And>i c. live i s' = Some c \<Longrightarrow> rend_splice c \<noteq> None \<Longrightarrow> \<not> marked_for_close c"
  shows "inv rem' Z X Y s'"
proof -
  obtain m l where s': "s' = s\<lparr>circuits := m, circuits_pending_close := l\<rparr>" and
    m: "\<And>i. mem_marked (circuits s i) (m i)"
    using F unfolding mark_frame_def by blast
  have none: "m i = None" if "circuits s i = None" for i
    using m [of i] that by (cases rule: mem_marked_cases) auto
  note V = mark_frame_views [OF F] and L = mark_frame_live [OF F]
  have "inv_mem s'" using I none by (simp add: inv_def inv_mem_def s')
  moreover have "owner s' = owner s" "job_of s' = job_of s" by (simp_all add: view_defs fun_eq_iff s')
  then have "inv_onions s'" "inv_jobs s'"
    using I V(1-3) by (simp_all add: inv_def inv_onions_def inv_jobs_def) (simp_all add: s')
  moreover have "inv_works X s'" using I by (simp add: inv_def inv_works_def s')
  moreover have "circ_ok i c'" if c': "live i s' = Some c'" for i c'
  proof -
    obtain c where c: "live i s = Some c" and e: "same_but_marks c c'"
      using L(2) [OF c'] by blast
    show ?thesis using invD(10) [OF I c] e R [OF c'] by (simp add: circ_ok_def same_but_marks_def)
  qed
  moreover have "inv_list Z s'"
  proof -
    have "if i \<in> Z then global_circuitlist_idx c' = -1
        else arr_get (global_circuitlist s') (global_circuitlist_idx c') = Some i" if c': "live i s' = Some c'" for i c'
    proof -
      obtain c where c: "live i s = Some c" and e: "same_but_marks c c'" using L(2) [OF c'] by blast
      then show ?thesis using invD(6) [OF I] by (simp add: inv_list_def s' same_but_marks_def)
    qed
    moreover have "global_circuitlist s' = global_circuitlist s" by (simp add: s')
    ultimately show ?thesis using invD(6) [OF I] V(4) unfolding inv_list_def by metis
  qed
  moreover have "onionqueue_entry c' \<noteq> None \<or> workqueue_entry c' \<noteq> None"
    if "live i s' = Some c'" "i \<notin> Y" "c_state c' = CIRCUIT_STATE_ONIONSKIN_PENDING" "\<not> marked_for_close c'" for i c'
    using L(2) [OF that(1)] that I unfolding inv_def inv_kept_def same_but_marks_def by metis
  then have "inv_kept Y s'" unfolding inv_kept_def by blast
  moreover have "inv_options s'" using I by (simp add: inv_def inv_options_def s')
  ultimately show ?thesis using S M by (simp add: inv_def)
qed

lemma keys_ok_unchanged [simp]:
  "keys_ok (c\<lparr>marked_for_close := b\<rparr>) = keys_ok c" "keys_ok (c\<lparr>rend_splice := q\<rparr>) = keys_ok c"
  "keys_ok (c\<lparr>p_chan := b\<rparr>) = keys_ok c" "keys_ok (c\<lparr>workqueue_entry := q\<rparr>) = keys_ok c"
  by (simp_all add: keys_ok_def)

lemma circ_ok_keys: "circ_ok i c \<Longrightarrow> keys_ok c"
  by (auto simp: circ_ok_def keys_ok_def)

lemma mark_alone:
  assumes I: "inv (circuits_pending_close s) Z X Y s" and c: "live i s = Some c" "\<not> marked_for_close c" "rend_splice c = None"
  defines "s' \<equiv> s\<lparr>circuits := (circuits s)(i \<mapsto> Live (c\<lparr>marked_for_close := True\<rparr>)),
    circuits_pending_close := circuits_pending_close s @ [i]\<rparr>"
  shows "circuit_mark_for_close i s = Some s'" "inv (circuits_pending_close s') Z X Y s'" "mark_frame s s'"
proof -
  show "circuit_mark_for_close i s = Some s'"
    using c circ_ok_keys [OF invD(10) [OF I c(1)]] by (subst circuit_mark_for_close.simps) (simp add: assert_circuit_ok_def upd_circ_live s'_def)
  have "mem_marked (circuits s k) (((circuits s)(i \<mapsto> Live (c\<lparr>marked_for_close := True\<rparr>))) k)" for k
    using c by (auto simp: live_Some same_but_marks_def)
  then show F: "mark_frame s s'"
    unfolding mark_frame_def s'_def by blast
  have L: "live k s' = (if k = i then Some (c\<lparr>marked_for_close := True\<rparr>) else live k s)" for k by (simp add: s'_def)
  have sp: "\<And>k d j. live k s = Some d \<Longrightarrow> rend_splice d = Some j \<Longrightarrow> j \<noteq> k \<and> (\<exists>d. live j s = Some d \<and> rend_splice d = Some k)"
    using I unfolding inv_def inv_splice_def by blast
  have "inv_splice s'"
    unfolding inv_splice_def L
  proof (intro allI impI)
    fix k d j
    assume h: "(if k = i then Some (c\<lparr>marked_for_close := True\<rparr>) else live k s) = Some d" "rend_splice d = Some j"
    with c(3) have "k \<noteq> i" by auto
    with h sp [of k d j] c show "j \<noteq> k \<and>
      (\<exists>d. (if j = i then Some (c\<lparr>marked_for_close := True\<rparr>) else live j s) = Some d \<and> rend_splice d = Some k)" by auto
  qed
  moreover have "inv_marked (circuits_pending_close s') Z s'"
    using I c unfolding inv_def inv_marked_def L by (auto simp: s'_def)
  moreover have "\<not> marked_for_close d" if "live k s' = Some d" "rend_splice d \<noteq> None" for k d
    using that I c by (auto simp: L inv_def circ_ok_def split: if_splits)
  ultimately show "inv (circuits_pending_close s') Z X Y s'"
    by (rule inv_marking [OF I F])
qed

lemma mark_second:
  assumes "live j s = Some d" "\<not> marked_for_close d" "rend_splice d = Some i" "i \<noteq> j" "keys_ok d"
    and "live i s = Some c" "marked_for_close c" "rend_splice c = Some j"
  shows "circuit_mark_for_close j s = Some (s\<lparr>circuits := (circuits s)(j \<mapsto> Live (d\<lparr>marked_for_close := True, rend_splice := None\<rparr>)),
    circuits_pending_close := circuits_pending_close s @ [j]\<rparr>)"
  using assms by (subst circuit_mark_for_close.simps) (simp add: assert_circuit_ok_def upd_circ_live)

lemma mark_joined:
  assumes I: "inv (circuits_pending_close s) Z X Y s" and c: "live i s = Some c" "\<not> marked_for_close c" "rend_splice c = Some j"
  shows "\<exists>s'. circuit_mark_for_close i s = Some s' \<and> inv (circuits_pending_close s') Z X Y s' \<and> mark_frame s s' \<and>
    live i s' = Some (c\<lparr>marked_for_close := True, rend_splice := None\<rparr>)"
proof -
  obtain d where d: "j \<noteq> i" "live j s = Some d" "rend_splice d = Some i"
    using invD(5) [OF I] c unfolding inv_splice_def by blast
  then have dm: "\<not> marked_for_close d" using invD(10) [OF I d(2)] by (simp add: circ_ok_def)
  have keys: "keys_ok c" "keys_ok d" by (rule circ_ok_keys, rule invD(10) [OF I], rule c d)+
  define s1 where "s1 = s\<lparr>circuits := (circuits s)(i \<mapsto> Live (c\<lparr>marked_for_close := True\<rparr>))\<rparr>"
  define s' where "s' = s\<lparr>circuits := (circuits s)(j \<mapsto> Live (d\<lparr>marked_for_close := True, rend_splice := None\<rparr>),
      i \<mapsto> Live (c\<lparr>marked_for_close := True, rend_splice := None\<rparr>)),
    circuits_pending_close := circuits_pending_close s @ [j, i]\<rparr>"
  have "circuit_mark_for_close j s1 = Some (s1\<lparr>circuits := (circuits s1)(j \<mapsto> Live (d\<lparr>marked_for_close := True, rend_splice := None\<rparr>)),
    circuits_pending_close := circuits_pending_close s1 @ [j]\<rparr>)"
    using c d dm keys by (intro mark_second [of _ _ _ i "c\<lparr>marked_for_close := True\<rparr>"]) (simp_all add: s1_def)
  then have call: "circuit_mark_for_close i s = Some s'"
    using c d dm keys
    by (subst circuit_mark_for_close.simps)
      (simp add: assert_circuit_ok_def upd_circ_live s1_def [symmetric], simp add: s1_def s'_def upd_circ_live fun_upd_twist)
  have "mem_marked (circuits s k) (circuits s' k)" for k
    using c d by (auto simp: live_Some same_but_marks_def s'_def)
  then have F: "mark_frame s s'"
    unfolding mark_frame_def s'_def by auto
  have L: "live k s' = (if k = i then Some (c\<lparr>marked_for_close := True, rend_splice := None\<rparr>)
      else if k = j then Some (d\<lparr>marked_for_close := True, rend_splice := None\<rparr>) else live k s)" for k by (simp add: s'_def)
  have sp: "\<And>k d j. live k s = Some d \<Longrightarrow> rend_splice d = Some j \<Longrightarrow> j \<noteq> k \<and> (\<exists>d. live j s = Some d \<and> rend_splice d = Some k)"
    using invD(5) [OF I] unfolding inv_splice_def by blast
  have "inv_splice s'"
    unfolding inv_splice_def
  proof (intro allI impI)
    fix k e h
    assume h: "live k s' = Some e" "rend_splice e = Some h"
    then have k: "k \<noteq> i" "k \<noteq> j" "live k s = Some e" by (auto simp: L split: if_splits)
    with sp [OF k(3) h(2)] c d show "h \<noteq> k \<and> (\<exists>d. live h s' = Some d \<and> rend_splice d = Some k)"
      by (auto simp: L)
  qed
  moreover have "inv_marked (circuits_pending_close s') Z s'"
  proof -
    have z: "i \<notin> Z" "j \<notin> Z" using invD(7) [OF I] c d dm unfolding inv_marked_def by blast+
    have p: "distinct (circuits_pending_close s)" "k \<in> set (circuits_pending_close s) \<longleftrightarrow>
        k \<notin> Z \<and> (\<exists>c. live k s = Some c \<and> marked_for_close c)" "k \<in> Z \<Longrightarrow> live k s = Some e \<Longrightarrow> marked_for_close e" for k e
      using invD(7) [OF I] unfolding inv_marked_def by blast+
    have q: "circuits_pending_close s' = circuits_pending_close s @ [j, i]" by (simp add: s'_def)
    have "distinct (circuits_pending_close s')" using p(1) p(2) [of i] p(2) [of j] c d dm by (auto simp: q)
    moreover have "k \<in> set (circuits_pending_close s') \<longleftrightarrow> k \<notin> Z \<and> (\<exists>c. live k s' = Some c \<and> marked_for_close c)" for k
      using p(2) [of k] z d(1) by (cases "k = i"; cases "k = j") (simp_all add: q L)
    moreover have "marked_for_close e" if "k \<in> Z" "live k s' = Some e" for k e
      using that z p(3) by (auto simp: L split: if_splits)
    ultimately show ?thesis unfolding inv_marked_def by blast
  qed
  moreover have "\<not> marked_for_close e" if "live k s' = Some e" "rend_splice e \<noteq> None" for k e
    using that invD(10) [OF I] by (auto simp: L circ_ok_def split: if_splits)
  ultimately have "inv (circuits_pending_close s') Z X Y s'"
    by (rule inv_marking [OF I F])
  with call F L show ?thesis by auto
qed

lemma mark_ok:
  assumes I: "inv (circuits_pending_close s) Z X Y s" and c: "live i s = Some c"
  obtains s' c' where "circuit_mark_for_close i s = Some s'" "inv (circuits_pending_close s') Z X Y s'" "mark_frame s s'"
    "live i s' = Some c'" "marked_for_close c'"
proof (cases "marked_for_close c")
  case True
  have "assert_circuit_ok i s = Some ()"
    using c True invD(10) [OF I c] circ_ok_keys [OF invD(10) [OF I c]]
    by (auto simp: assert_circuit_ok_def circ_ok_def split: option.splits)
  with True c have "circuit_mark_for_close i s = Some s" by (subst circuit_mark_for_close.simps) simp
  moreover have "mark_frame s s"
    unfolding mark_frame_def by (intro exI [of _ "circuits s"] exI [of _ "circuits_pending_close s"]) simp
  ultimately show thesis using True c I by (blast intro: that)
next
  case False
  show thesis
  proof (cases "rend_splice c")
    case None
    note m = mark_alone [OF I c False None]
    show thesis by (rule that [OF m, of "c\<lparr>marked_for_close := True\<rparr>"]) simp_all
  next
    case (Some j)
    obtain s' where "circuit_mark_for_close i s = Some s'" "inv (circuits_pending_close s') Z X Y s'" "mark_frame s s'"
      "live i s' = Some (c\<lparr>marked_for_close := True, rend_splice := None\<rparr>)"
      using mark_joined [OF I c False Some] by blast
    then show thesis by (rule that) simp
  qed
qed

section \<open>Changing one circuit\<close>

text \<open>A change to the queue and job pointers, the state or the channel of one circuit keeps marks, joins and the list.\<close>

lemma one_circuit:
  assumes I: "inv rem Z X Y s" and c: "live i s = Some c"
    and m: "circuits s' = (circuits s)(i \<mapsto> Live c')" and g: "global_circuitlist s' = global_circuitlist s"
    and o: "options s' = options s \<and> recently_chosen_ntors s' = recently_chosen_ntors s"
    and eq: "marked_for_close c' = marked_for_close c" "rend_splice c' = rend_splice c"
      "global_circuitlist_idx c' = global_circuitlist_idx c"
  shows "inv_splice s'" "inv_list Z s'" "inv_marked rem Z s'" "inv_kept (insert i Y) s'" "inv_options s'"
    and "circ_ok i c' \<Longrightarrow> live k s' = Some d \<Longrightarrow> circ_ok k d"
    and "i \<notin> Y \<Longrightarrow> marked_for_close c \<or> c_state c' \<noteq> CIRCUIT_STATE_ONIONSKIN_PENDING \<or> onionqueue_entry c' \<noteq> None \<or>
      workqueue_entry c' \<noteq> None \<Longrightarrow> inv_kept Y s'"
    and "marked_for_close c \<or> c_state c' \<noteq> CIRCUIT_STATE_ONIONSKIN_PENDING \<or> onionqueue_entry c' \<noteq> None \<or>
      workqueue_entry c' \<noteq> None \<Longrightarrow> inv_kept (Y - {i}) s'"
proof -
  have L: "live k s' = (if k = i then Some c' else live k s)" for k by (simp add: live_def m)
  show "inv_splice s'"
    unfolding inv_splice_def
  proof (intro allI impI)
    fix k d j
    assume h: "live k s' = Some d" "rend_splice d = Some j"
    obtain d0 where "live k s = Some d0" "rend_splice d0 = Some j"
      using h c eq(2) by (auto simp: L split: if_splits)
    then show "j \<noteq> k \<and> (\<exists>d. live j s' = Some d \<and> rend_splice d = Some k)"
      using invD(5) [OF I] c eq(2) by (fastforce simp: L inv_splice_def)
  qed
  show "inv_list Z s'"
    using invD(6) [OF I] c eq unfolding inv_list_def L g by auto
  show "inv_marked rem Z s'"
    using invD(7) [OF I] c eq unfolding inv_marked_def L by auto
  show "inv_kept (insert i Y) s'"
    using invD(8) [OF I] unfolding inv_kept_def L by auto
  show "inv_options s'"
    using invD(9) [OF I] by (simp add: inv_options_def o)
  show "circ_ok i c' \<Longrightarrow> live k s' = Some d \<Longrightarrow> circ_ok k d"
    using invD(10) [OF I] by (auto simp: L split: if_splits)
  assume k: "marked_for_close c \<or> c_state c' \<noteq> CIRCUIT_STATE_ONIONSKIN_PENDING \<or> onionqueue_entry c' \<noteq> None \<or>
      workqueue_entry c' \<noteq> None"
  then show "inv_kept (Y - {i}) s'"
    using invD(8) [OF I] eq(1) unfolding inv_kept_def L by auto
  then show "i \<notin> Y \<Longrightarrow> inv_kept Y s'" by simp
qed

section \<open>The queue\<close>

definition drop_onion :: "nat \<Rightarrow> onion_queue \<Rightarrow> or_circuit \<Rightarrow> relay \<Rightarrow> relay" where
  "drop_onion e v c s = s\<lparr>circuits := (circuits s)(oq_circ v \<mapsto> Live (c\<lparr>onionqueue_entry := None\<rparr>)),
     ol_list := (ol_list s)(oq_type v := remove1 e (ol_list s (oq_type v))),
     ol_entries := (ol_entries s)(oq_type v := ol_entries s (oq_type v) - 1), onions := (onions s)(e := None)\<rparr>"

lemma onion_entry:
  assumes I: "inv_onions s" and v: "onions s e = Some v"
  shows "\<exists>c cc. live (oq_circ v) s = Some c \<and> onionqueue_entry c = Some e \<and> oq_onionskin v = Some cc \<and> request_ok cc \<and>
    oq_type v = handshake_type cc \<and> e \<in> set (ol_list s (oq_type v))"
proof -
  have "owner s e = Some (oq_circ v)" using v by (simp add: owner_def)
  then have "onq s (oq_circ v) = Some e" using I by (simp add: inv_onions_def)
  moreover have "e \<in> set (ol_list s (oq_type v))" using I v by (simp add: inv_onions_def)
  ultimately show ?thesis using I v by (auto simp: inv_onions_def onq_def bind_eq_Some_conv)
qed

lemma inv_onions_drop:
  assumes I: "inv_onions s" and v: "onions s e = Some v" and c: "live (oq_circ v) s = Some c"
  shows "inv_onions (drop_onion e v c s)"
proof -
  let ?s = "drop_onion e v c s"
  have e: "e \<in> set (ol_list s (oq_type v))" "onq s (oq_circ v) = Some e"
    using onion_entry [OF I v] c by (auto simp: onq_def)
  have inj: "onq s i \<noteq> Some e" if "i \<noteq> oq_circ v" for i
    using I v that unfolding inv_onions_def owner_def by (metis option.inject option.map(2))
  have views: "owner ?s = (owner s)(e := None)" "onq ?s = (onq s)(oq_circ v := None)"
    by (auto simp: view_defs drop_onion_def fun_eq_iff)
  have lists: "ol_list ?s t = (if t = oq_type v then remove1 e (ol_list s t) else ol_list s t)"
    "ol_entries ?s t = ol_entries s t - (if t = oq_type v then 1 else 0)" "onions ?s = (onions s)(e := None)" for t
    by (simp_all add: drop_onion_def)
  have d: "distinct (ol_list s t)" "ol_entries s t = int (length (ol_list s t))" for t using I by (simp_all add: inv_onions_def)
  have len: "int (length (remove1 e (ol_list s (oq_type v)))) = int (length (ol_list s (oq_type v))) - 1"
    using e(1) length_pos_if_in_set [OF e(1)] by (simp add: length_remove1 of_nat_diff Suc_leI)
  have "owner ?s f = Some i \<longleftrightarrow> onq ?s i = Some f" for f i
  proof -
    have "owner s f = Some i \<longleftrightarrow> onq s i = Some f" using I by (simp add: inv_onions_def)
    then show ?thesis using e(2) inj [of i] unfolding views
      by (cases "f = e"; cases "i = oq_circ v") simp_all
  qed
  moreover have "f \<in> set (ol_list ?s t) \<longleftrightarrow> map_option oq_type (onions ?s f) = Some t" for f t
    using I v d(1) [of t] by (auto simp: lists inv_onions_def set_remove1_eq)
  ultimately show ?thesis
    using I d len by (simp add: inv_onions_def lists distinct_remove1)
qed

lemma inv_drop_onion:
  assumes I: "inv rem Z X Y s" and v: "onions s e = Some v" and c: "live (oq_circ v) s = Some c"
  shows "inv rem Z X (insert (oq_circ v) Y) (drop_onion e v c s)"
    and "marked_for_close c \<Longrightarrow> inv rem Z X Y (drop_onion e v c s)"
proof -
  let ?s = "drop_onion e v c s" and ?c = "c\<lparr>onionqueue_entry := None\<rparr>"
  have k: "inv_splice ?s" "inv_list Z ?s" "inv_marked rem Z ?s" "inv_kept (insert (oq_circ v) Y) ?s" "inv_options ?s"
    "marked_for_close c \<Longrightarrow> inv_kept (Y - {oq_circ v}) ?s"
    by (rule one_circuit [OF I c, of ?s ?c]; simp add: drop_onion_def)+
  have ok: "circ_ok i d" if "live i ?s = Some d" for i d
    by (rule one_circuit(6) [OF I c, of ?s ?c, OF _ _ _ _ _ _ _ that])
      (use invD(10) [OF I c] in \<open>simp_all add: drop_onion_def circ_ok_def\<close>)
  have "inv_mem ?s" using invD(1) [OF I] c by (auto simp: inv_mem_def drop_onion_def live_Some)
  moreover have "inv_works X ?s" using invD(3) [OF I] by (simp add: inv_works_def drop_onion_def)
  moreover have "wkq ?s = wkq s" "job_of ?s = job_of s"
    using c by (auto simp: view_defs drop_onion_def fun_eq_iff)
  moreover have "dead ?s = dead s"
    using c by (auto simp: view_defs drop_onion_def fun_eq_iff live_Some)
  ultimately have "inv_jobs ?s \<and> inv_mem ?s \<and> inv_works X ?s" using invD(4) [OF I] by (simp add: inv_jobs_def) (simp add: drop_onion_def)
  then show "inv rem Z X (insert (oq_circ v) Y) ?s"
    using k ok inv_onions_drop [OF invD(2) [OF I] v c] by (simp add: inv_def)
  assume "marked_for_close c"
  then have "inv_kept Y ?s" using k(6) by (auto simp: inv_kept_def drop_onion_def)
  then show "inv rem Z X Y ?s"
    using \<open>inv rem Z X (insert (oq_circ v) Y) ?s\<close> by (simp add: inv_def)
qed

lemma request_ok_type: "request_ok cc \<Longrightarrow> handshake_type cc \<le> MAX_ONION_HANDSHAKE_TYPE"
  by (auto simp: request_ok_def check_create_cell_def handshake_types split: if_splits)

lemma inv_unexcept:
  assumes "inv rem Z X (insert i Y) s"
    and "\<And>c. live i s = Some c \<Longrightarrow> marked_for_close c \<or> c_state c \<noteq> CIRCUIT_STATE_ONIONSKIN_PENDING \<or>
      onionqueue_entry c \<noteq> None \<or> workqueue_entry c \<noteq> None"
  shows "inv rem Z X Y s"
proof -
  have "inv_kept Y s" using invD(8) [OF assms(1)] assms(2) unfolding inv_kept_def by (metis insert_iff)
  then show ?thesis using assms(1) by (simp add: inv_def)
qed

lemma remove_effect:
  assumes "onions s e = Some v" "oq_type v \<le> MAX_ONION_HANDSHAKE_TYPE" "e \<in> set (ol_list s (oq_type v))"
    and "live (oq_circ v) s = Some c"
  shows "onion_queue_entry_remove e s =
    Some (s\<lparr>circuits := (circuits s)(oq_circ v \<mapsto> Live (c\<lparr>onionqueue_entry := None\<rparr>)),
            ol_list := (ol_list s)(oq_type v := remove1 e (ol_list s (oq_type v))),
            ol_entries := (if oq_onionskin v \<noteq> None then (ol_entries s)(oq_type v := ol_entries s (oq_type v) - 1)
                           else ol_entries s),
            onions := (onions s)(e := None)\<rparr>)"
  using assms by (simp add: onion_queue_entry_remove_def Let_def upd_circ_live not_less [symmetric])

lemma remove_drops:
  assumes I: "inv_onions s" and v: "onions s e = Some v" and c: "live (oq_circ v) s = Some c"
  shows "onion_queue_entry_remove e s = Some (drop_onion e v c s)"
    and "onion_queue_entry_remove e (s\<lparr>circuits := (circuits s)(oq_circ v \<mapsto> Live (c\<lparr>onionqueue_entry := None\<rparr>))\<rparr>) =
      Some (drop_onion e v c s)"
proof -
  obtain cc where cc: "oq_onionskin v = Some cc" "request_ok cc" "oq_type v = handshake_type cc" "e \<in> set (ol_list s (oq_type v))"
    using onion_entry [OF I v] by blast
  note t = request_ok_type [OF cc(2), folded cc(3)]
  show "onion_queue_entry_remove e s = Some (drop_onion e v c s)"
    using remove_effect [OF v t cc(4) c] cc(1) by (simp add: drop_onion_def)
  let ?s = "s\<lparr>circuits := (circuits s)(oq_circ v \<mapsto> Live (c\<lparr>onionqueue_entry := None\<rparr>))\<rparr>"
  have "onion_queue_entry_remove e ?s = Some (?s\<lparr>circuits := (circuits ?s)(oq_circ v \<mapsto> Live (c\<lparr>onionqueue_entry := None\<rparr>)),
            ol_list := (ol_list s)(oq_type v := remove1 e (ol_list s (oq_type v))),
            ol_entries := (ol_entries s)(oq_type v := ol_entries s (oq_type v) - 1),
            onions := (onions s)(e := None)\<rparr>)"
    using v t cc(1,4) by (subst remove_effect [where v = v and c = "c\<lparr>onionqueue_entry := None\<rparr>"]) simp_all
  then show "onion_queue_entry_remove e ?s = Some (drop_onion e v c s)"
    by (simp add: drop_onion_def)
qed

definition elderly :: "int \<Rightarrow> relay \<Rightarrow> nat \<Rightarrow> bool" where
  "elderly tm s e \<longleftrightarrow> (\<forall>v. onions s e = Some v \<longrightarrow> tm - when_added v \<ge> ONIONQUEUE_WAIT_CUTOFF)"

text \<open>One round of the loop that culls: the first entry goes and its circuit ends up marked.\<close>

lemma cull_round:
  assumes I: "inv (circuits_pending_close s) Z X Y s" and l: "ol_list s t = e # r" and old: "elderly tm s e"
  obtains s' where "cull_elderly tm t s = cull_elderly tm t s'" "inv (circuits_pending_close s') Z X Y s'"
    "ol_list s' = (ol_list s)(t := r)" "onions s' = (onions s)(e := None)" "closing s' = closing s"
    "\<And>k. live k s \<noteq> None \<Longrightarrow> live k s' \<noteq> None"
    "\<And>k c'. live k s' = Some c' \<Longrightarrow> (\<exists>c. live k s = Some c \<and> (onionqueue_entry c \<noteq> Some e \<longrightarrow> same_but_marks c c'))"
proof -
  note IO = invD(2) [OF I]
  have "e \<in> set (ol_list s t)" using l by simp
  then obtain v where v: "onions s e = Some v" "oq_type v = t"
    using IO unfolding inv_onions_def by (metis (no_types, lifting) map_option_eq_Some)
  obtain c where c: "live (oq_circ v) s = Some c" "onionqueue_entry c = Some e" using onion_entry [OF IO v(1)] by blast
  let ?i = "oq_circ v" and ?d = "drop_onion e v c s"
  have Id: "inv (circuits_pending_close ?d) Z X (insert ?i Y) ?d"
    using inv_drop_onion(1) [OF I v(1) c(1)] by (simp add: drop_onion_def)
  have ld: "live k ?d = (if k = ?i then Some (c\<lparr>onionqueue_entry := None\<rparr>) else live k s)" for k by (simp add: drop_onion_def)
  obtain s' c' where m: "circuit_mark_for_close ?i ?d = Some s'" "inv (circuits_pending_close s') Z X (insert ?i Y) s'"
    "mark_frame ?d s'" "live ?i s' = Some c'" "marked_for_close c'"
    using mark_ok [OF Id, of ?i "c\<lparr>onionqueue_entry := None\<rparr>"] ld by auto
  have call: "cull_elderly tm t s = Option.bind (if marked_for_close c then Some ?d else circuit_mark_for_close ?i ?d) (cull_elderly tm t)"
    using old v(1) remove_drops(2) [OF IO v(1) c(1)] ld [of ?i]
    by (subst cull_elderly.simps) (simp add: l elderly_def upd_circ_live [OF c(1)] not_less [symmetric])
  have lists: "ol_list ?d = (ol_list s)(t := r)" "onions ?d = (onions s)(e := None)" "closing ?d = closing s"
    using v l by (simp_all add: drop_onion_def)
  have k0: "live k s = Some c0 \<and> (onionqueue_entry c0 \<noteq> Some e \<longrightarrow> same_but_marks c0 d)"
    if "live k ?d = Some d" "c0 = (if k = ?i then c else d)" for k d c0
    using that c by (auto simp: ld same_but_marks_def split: if_splits)
  show thesis
  proof (cases "marked_for_close c")
    case True
    have inv: "inv (circuits_pending_close ?d) Z X Y ?d"
      using Id by (rule inv_unexcept) (simp add: ld True)
    show thesis
    proof (rule that [of ?d, OF _ inv lists])
      show "cull_elderly tm t s = cull_elderly tm t ?d" using call True by simp
      show "live k ?d \<noteq> None" if "live k s \<noteq> None" for k using that by (simp add: ld)
      show "\<exists>c. live k s = Some c \<and> (onionqueue_entry c \<noteq> Some e \<longrightarrow> same_but_marks c d)" if "live k ?d = Some d" for k d
        using k0 [OF that refl] by blast
    qed
  next
    case False
    have inv: "inv (circuits_pending_close s') Z X Y s'"
      using m(2) by (rule inv_unexcept) (simp add: m)
    show thesis
    proof (rule that [of s', OF _ inv])
      show "cull_elderly tm t s = cull_elderly tm t s'" using call False m(1) by simp
      show "ol_list s' = (ol_list s)(t := r)" "onions s' = (onions s)(e := None)" "closing s' = closing s"
        using m(3) lists by (auto simp: mark_frame_def)
      show "live k s' \<noteq> None" if "live k s \<noteq> None" for k
        using mark_frame_views(4) [OF m(3), of k] that by (simp add: ld)
      show "\<exists>c. live k s = Some c \<and> (onionqueue_entry c \<noteq> Some e \<longrightarrow> same_but_marks c d')" if d': "live k s' = Some d'" for k d'
      proof -
        obtain d where d: "live k ?d = Some d" "same_but_marks d d'" using mark_frame_live(2) [OF m(3) d'] by blast
        then show ?thesis using k0 [OF d(1) refl] same_but_marks_trans [OF _ d(2)] by blast
      qed
    qed
  qed
qed

lemma cull_ok:
  assumes "inv (circuits_pending_close s) Z X Y s" "f \<in> set (ol_list s t)" "\<not> elderly tm s f"
  shows "\<exists>s'. cull_elderly tm t s = Some s' \<and> inv (circuits_pending_close s') Z X Y s' \<and>
    ol_list s' = (ol_list s)(t := dropWhile (elderly tm s) (ol_list s t)) \<and> closing s' = closing s \<and>
    (\<forall>g \<in> set (dropWhile (elderly tm s) (ol_list s t)). onions s' g = onions s g)"
  using assms
proof (induction "ol_list s t" arbitrary: s)
  case (Cons e r)
  note l = Cons.hyps(2) [symmetric] and I = Cons.prems(1)
  show ?case
  proof (cases "elderly tm s e")
    case False
    then obtain v where "onions s e = Some v" "tm - when_added v < ONIONQUEUE_WAIT_CUTOFF" by (auto simp: elderly_def not_le)
    then have "cull_elderly tm t s = Some s" by (subst cull_elderly.simps) (simp add: l)
    then show ?thesis using I False by (auto simp: l fun_upd_idem)
  next
    case True
    obtain s' where s': "cull_elderly tm t s = cull_elderly tm t s'" "inv (circuits_pending_close s') Z X Y s'"
      "ol_list s' = (ol_list s)(t := r)" "onions s' = (onions s)(e := None)" "closing s' = closing s"
      using cull_round [OF I l True] by metis
    have d: "e \<notin> set r" using invD(2) [OF I] l unfolding inv_onions_def by (metis distinct.simps(2))
    have el: "elderly tm s' g = elderly tm s g" if "g \<in> set r" for g
      using that d by (auto simp: elderly_def s')
    then have dw: "dropWhile (elderly tm s') r = dropWhile (elderly tm s) r" by (rule dropWhile_cong [OF refl])
    have f: "f \<in> set r" using Cons.prems(2,3) True by (auto simp: l)
    obtain s'' where s'': "cull_elderly tm t s' = Some s''" "inv (circuits_pending_close s'') Z X Y s''"
      "ol_list s'' = (ol_list s')(t := dropWhile (elderly tm s') (ol_list s' t))" "closing s'' = closing s'"
      "\<forall>g \<in> set (dropWhile (elderly tm s') (ol_list s' t)). onions s'' g = onions s' g"
      using Cons.hyps(1) [of s'] s' f el [OF f] Cons.prems(3) by auto
    moreover have "onions s'' g = onions s g" if "g \<in> set (dropWhile (elderly tm s) r)" for g
      using s''(5) that d set_dropWhileD [OF that] by (auto simp: s' dw)
    ultimately show ?thesis
      using s' True by (simp add: l dw)
  qed
qed simp

lemma num_ntors_defined: "\<exists>k. num_ntors_per_tap s = Some k \<and> 1 \<le> k \<and> k \<le> 100000"
  by (auto simp: num_ntors_per_tap_def networkstatus_get_param_def get_net_param_from_list_def Let_def split: option.splits)

lemma have_room_defined:
  assumes "inv_options s"
  shows "\<exists>b. have_room_for_onionskin t s = Some b"
proof -
  obtain k where "num_ntors_per_tap s = Some k" using num_ntors_defined by blast
  moreover have "(word_of_int (num_cpus (options s)) :: uint64) \<noteq> 0"
  proof
    assume "(word_of_int (num_cpus (options s)) :: uint64) = 0"
    then have "take_bit 64 (num_cpus (options s)) = 0" by (simp add: word_of_int_eq_0_iff take_bit_eq_0_iff)
    moreover have "take_bit 64 (num_cpus (options s)) = num_cpus (options s)"
      using assms by (simp add: inv_options_def take_bit_int_eq_self)
    ultimately show False using assms by (simp add: inv_options_def)
  qed
  ultimately show ?thesis by (auto simp: have_room_for_onionskin_def Let_def)
qed

text \<open>A new entry at the end of a queue.\<close>

definition put_onion :: "int \<Rightarrow> nat \<Rightarrow> create_cell \<Rightarrow> or_circuit \<Rightarrow> relay \<Rightarrow> relay" where
  "put_onion tm i cc c s = (let e = next_ptr s; t = handshake_type cc in
     s\<lparr>next_ptr := e + 1,
       onions := (onions s)(e \<mapsto> \<lparr>oq_circ = i, oq_type = t, oq_onionskin = Some cc, when_added = tm\<rparr>),
       ol_entries := (ol_entries s)(t := ol_entries s t + 1),
       circuits := (circuits s)(i \<mapsto> Live (c\<lparr>onionqueue_entry := Some e\<rparr>)),
       ol_list := (ol_list s)(t := ol_list s t @ [e])\<rparr>)"

lemma inv_onions_put:
  assumes I: "inv_onions s" and M: "inv_mem s" and c: "live i s = Some c" "onionqueue_entry c = None" and cc: "request_ok cc"
  shows "inv_onions (put_onion tm i cc c s)"
proof -
  let ?s = "put_onion tm i cc c s" and ?e = "next_ptr s" and ?t = "handshake_type cc"
  have fresh: "onions s ?e = None" using M by (simp add: inv_mem_def)
  have views: "owner ?s = (owner s)(?e \<mapsto> i)" "onq ?s = (onq s)(i \<mapsto> ?e)"
    by (auto simp: view_defs put_onion_def Let_def fun_eq_iff)
  have old: "owner s f = Some k \<longleftrightarrow> onq s k = Some f" for f k using I by (simp add: inv_onions_def)
  have "owner s ?e = None" "onq s i = None" using fresh c by (simp_all add: view_defs)
  then have "owner ?s f = Some k \<longleftrightarrow> onq ?s k = Some f" for f k
    using old [of f k] old [of f i] old [of ?e k] unfolding views by (cases "f = ?e"; cases "k = i") auto
  moreover have ne: "?e \<notin> set (ol_list s t)" for t using I fresh by (simp add: inv_onions_def)
  moreover have "f \<in> set (ol_list ?s t) \<longleftrightarrow> map_option oq_type (onions ?s f) = Some t" for f t
    using I ne [of t] by (auto simp: put_onion_def Let_def inv_onions_def)
  moreover have "\<exists>cc. oq_onionskin v = Some cc \<and> request_ok cc \<and> oq_type v = handshake_type cc" if "onions ?s f = Some v" for f v
    using that I cc by (auto simp: put_onion_def Let_def inv_onions_def split: if_splits)
  moreover have "distinct (ol_list ?s t) \<and> ol_entries ?s t = int (length (ol_list ?s t))" for t
    using I ne by (simp add: put_onion_def Let_def inv_onions_def)
  ultimately show ?thesis
    unfolding inv_onions_def by blast
qed

lemma inv_put_onion:
  assumes I: "inv rem Z X (insert i Y) s" and c: "live i s = Some c" "onionqueue_entry c = None" "workqueue_entry c = None"
    "c_state c = CIRCUIT_STATE_ONIONSKIN_PENDING" and cc: "request_ok cc"
  shows "inv rem Z X Y (put_onion tm i cc c s)"
proof -
  let ?s = "put_onion tm i cc c s" and ?c = "c\<lparr>onionqueue_entry := Some (next_ptr s)\<rparr>"
  have k: "inv_splice ?s" "inv_list Z ?s" "inv_marked rem Z ?s" "inv_kept (insert i (insert i Y)) ?s" "inv_options ?s"
    by (rule one_circuit [OF I c(1), of ?s ?c]; simp add: put_onion_def Let_def)+
  have ok: "circ_ok j d" if "live j ?s = Some d" for j d
    by (rule one_circuit(6) [OF I c(1), of ?s ?c, OF _ _ _ _ _ _ _ that])
      (use invD(10) [OF I c(1)] c in \<open>simp_all add: put_onion_def Let_def circ_ok_def\<close>)
  have "inv_mem ?s" using invD(1) [OF I] c(1) by (auto simp: inv_mem_def put_onion_def Let_def live_Some Suc_le_eq)
  moreover have "inv_works X ?s" using invD(3) [OF I] by (simp add: inv_works_def put_onion_def Let_def)
  moreover have "wkq ?s = wkq s" "job_of ?s = job_of s"
    using c by (auto simp: view_defs put_onion_def Let_def fun_eq_iff)
  moreover have "dead ?s = dead s"
    using c by (auto simp: view_defs put_onion_def Let_def fun_eq_iff live_Some)
  ultimately have "inv_jobs ?s \<and> inv_mem ?s \<and> inv_works X ?s"
    using invD(4) [OF I] by (simp add: inv_jobs_def) (simp add: put_onion_def Let_def)
  then have "inv rem Z X (insert i Y) ?s"
    using k ok inv_onions_put [OF invD(2) [OF I] invD(1) [OF I] c(1,2) cc] by (simp add: inv_def)
  then show ?thesis
    by (rule inv_unexcept) (auto simp: put_onion_def Let_def)
qed

lemma onion_pending_add_ok:
  assumes I: "inv (circuits_pending_close s) Z X (insert i Y) s"
    and c: "live i s = Some c" "onionqueue_entry c = None" "workqueue_entry c = None"
    "c_state c = CIRCUIT_STATE_ONIONSKIN_PENDING" and cc: "request_ok cc"
  shows "onion_pending_add tm i cc s = Some (False, s) \<or>
    (\<exists>s'. onion_pending_add tm i cc s = Some (True, s') \<and> inv (circuits_pending_close s') Z X Y s' \<and> closing s' = closing s)"
proof -
  obtain room where room: "have_room_for_onionskin (handshake_type cc) s = Some room"
    using have_room_defined [OF invD(9) [OF I]] by blast
  note t = request_ok_type [OF cc]
  show ?thesis
  proof (cases room)
    case False
    then show ?thesis using room t by (simp add: onion_pending_add_def not_less [symmetric])
  next
    case True
    let ?p = "put_onion tm i cc c s"
    have "inv (circuits_pending_close ?p) Z X Y ?p"
      using inv_put_onion [OF I c cc] by (simp add: put_onion_def Let_def)
    moreover have "next_ptr s \<in> set (ol_list ?p (handshake_type cc))" "\<not> elderly tm ?p (next_ptr s)" "closing ?p = closing s"
      by (simp_all add: put_onion_def Let_def elderly_def ONIONQUEUE_WAIT_CUTOFF_def)
    ultimately obtain s' where s': "cull_elderly tm (handshake_type cc) ?p = Some s'" "inv (circuits_pending_close s') Z X Y s'"
      "closing s' = closing s"
      using cull_ok by metis
    have "onion_pending_add tm i cc s = Option.bind (cull_elderly tm (handshake_type cc) ?p) (\<lambda>s. Some (True, s))"
      using room True t c(1) by (simp add: onion_pending_add_def Let_def put_onion_def upd_circ_live not_less [symmetric])
    with s' show ?thesis by simp
  qed
qed

section \<open>Jobs\<close>

lemma finite_jobs:
  assumes "inv_mem s"
  shows "finite (dom (job_of s))"
proof (rule finite_subset)
  have "job_of s e = None" if "next_ptr s \<le> e" for e
    using assms that by (simp add: inv_mem_def job_of_def)
  then show "dom (job_of s) \<subseteq> {..< next_ptr s}"
    by (metis domIff lessThan_iff not_le_imp_less subsetI)
qed simp

definition put_work :: "nat \<Rightarrow> job \<Rightarrow> relay \<Rightarrow> relay" where
  "put_work prio arg s = s\<lparr>next_ptr := next_ptr s + 1,
     works := (works s)(next_ptr s \<mapsto> \<lparr>on_pool = True, pending = True, priority = prio, work_arg = arg\<rparr>),
     pool_work := (pool_work s)(prio := pool_work s prio @ [next_ptr s])\<rparr>"

lemma queue_work_puts: "prio \<le> 2 \<Longrightarrow> threadpool_queue_work_priority prio arg s = Some (next_ptr s, put_work prio arg s)"
  by (simp add: threadpool_queue_work_priority_def put_work_def Let_def)

lemma inv_works_put:
  assumes W: "inv_works X s" and M: "inv_mem s" and a: "arg_ok False arg"
  shows "inv_works X (put_work prio arg s)"
proof -
  let ?s = "put_work prio arg s" and ?e = "next_ptr s"
  have fresh: "works s ?e = None" using M by (simp add: inv_mem_def)
  have pw: "e \<in> set (pool_work s p) \<longleftrightarrow> (\<exists>w. works s e = Some w \<and> pending w \<and> priority w = p)"
    "e \<in> set (running s @ answers s) \<union> X \<longleftrightarrow> (\<exists>w. works s e = Some w \<and> \<not> pending w)" for e p
    using W unfolding inv_works_def by blast+
  have ne: "?e \<notin> set (pool_work s p)" "?e \<notin> set (running s @ answers s) \<union> X" for p
    using pw [of ?e] fresh by auto
  have "e \<in> set (pool_work ?s p) \<longleftrightarrow> (\<exists>w. works ?s e = Some w \<and> pending w \<and> priority w = p)" for e p
    using pw(1) [of e p] ne(1) by (auto simp: put_work_def)
  moreover have "e \<in> set (running ?s @ answers ?s) \<union> X \<longleftrightarrow> (\<exists>w. works ?s e = Some w \<and> \<not> pending w)" for e
    using pw(2) [of e] ne(2) by (cases "e = ?e") (auto simp: put_work_def)
  moreover have "on_pool w \<and> arg_ok (e \<in> set (answers ?s)) (work_arg w)" if "works ?s e = Some w" "e \<notin> X" for e w
  proof (cases "e = ?e")
    case True
    then have "e \<notin> set (answers s)" using ne(2) by auto
    then show ?thesis using True that a by (auto simp: put_work_def)
  next
    case False
    then show ?thesis using that W by (auto simp: put_work_def inv_works_def)
  qed
  moreover have "job_circ (work_arg w) = None" if "works ?s e = Some w" "e \<in> X" for e w
    using that W ne(2) by (auto simp: put_work_def inv_works_def split: if_splits)
  moreover have "distinct (pool_work ?s p)" for p
    using W ne(1) by (simp add: put_work_def inv_works_def)
  moreover have "distinct (running ?s @ answers ?s)" "X \<inter> set (running ?s @ answers ?s) = {}"
    using W by (simp_all add: put_work_def inv_works_def)
  ultimately show ?thesis unfolding inv_works_def by blast
qed

text \<open>A job for a circuit.\<close>

definition put_job :: "nat \<Rightarrow> job_body \<Rightarrow> or_circuit \<Rightarrow> relay \<Rightarrow> relay" where
  "put_job i body c s = (put_work 0 (Handshake_job i body) s)\<lparr>total_pending_tasks := total_pending_tasks s + 1,
     circuits := (circuits s)(i \<mapsto> Live (c\<lparr>workqueue_entry := Some (next_ptr s)\<rparr>))\<rparr>"

lemma inv_jobs_put:
  assumes J: "inv_jobs s" and M: "inv_mem s" and c: "live i s = Some c" "workqueue_entry c = None"
  shows "inv_jobs (put_job i body c s)"
proof -
  let ?s = "put_job i body c s" and ?e = "next_ptr s"
  have fresh: "works s ?e = None" "job_of s ?e = None" using M by (simp_all add: inv_mem_def job_of_def)
  have views: "job_of ?s = (job_of s)(?e \<mapsto> i)" "wkq ?s = (wkq s)(i \<mapsto> ?e)" "dead ?s = dead s"
    using c(1) by (auto simp: view_defs put_job_def put_work_def fun_eq_iff live_Some)
  have ws: "works ?s = (works s)(?e \<mapsto> \<lparr>on_pool = True, pending = True, priority = 0, work_arg = Handshake_job i body\<rparr>)"
    by (simp add: put_job_def put_work_def)
  have wi: "wkq s i = None" "\<not> dead s i" using c by (simp add: wkq_def, simp add: dead_def live_Some)
  have A: "wkq s k = Some e \<Longrightarrow> job_of s e = Some k"
    "job_of s e = Some k \<Longrightarrow> wkq s k = Some e \<or> dead s k \<and> (\<forall>w. works s e = Some w \<longrightarrow> \<not> pending w)"
    "dead s k \<Longrightarrow> \<exists>e. job_of s e = Some k"
    "job_of s e = Some k \<Longrightarrow> job_of s e' = Some k \<Longrightarrow> e = e'" for k e e'
    using J unfolding inv_jobs_def by blast+
  have no: "job_of s e \<noteq> Some i" for e using A(2) [of e i] wi by auto
  have "job_of ?s e = Some k" if "wkq ?s k = Some e" for k e
    using that A(1) [of k e] fresh(2) by (auto simp: views split: if_splits)
  moreover have "wkq ?s k = Some e \<or> dead ?s k \<and> (\<forall>w. works ?s e = Some w \<longrightarrow> \<not> pending w)" if "job_of ?s e = Some k" for k e
    using that A(2) [of e k] no [of e] by (auto simp: views ws split: if_splits)
  moreover have "\<exists>e. job_of ?s e = Some k" if dk: "dead ?s k" for k
  proof -
    obtain e where "job_of s e = Some k" using A(3) [of k] dk unfolding views(3) by blast
    then show ?thesis using fresh(2) by (intro exI [of _ e]) (auto simp: views)
  qed
  moreover have "e = e'" if "job_of ?s e = Some k" "job_of ?s e' = Some k" for e e' k
    using that no A(4) by (auto simp: views split: if_splits)
  moreover have "total_pending_tasks ?s = int (card (dom (job_of ?s)))"
  proof -
    have "?e \<notin> dom (job_of s)" using fresh(2) by auto
    then show ?thesis using J finite_jobs [OF M] by (simp add: views inv_jobs_def) (simp add: put_job_def)
  qed
  ultimately show ?thesis unfolding inv_jobs_def by blast
qed

lemma inv_put_job:
  assumes I: "inv rem Z X (insert i Y) s" and c: "live i s = Some c" "onionqueue_entry c = None" "workqueue_entry c = None"
    "c_state c = CIRCUIT_STATE_ONIONSKIN_PENDING" and a: "arg_ok False (Handshake_job i body)"
  shows "inv rem Z X Y (put_job i body c s)"
proof -
  let ?s = "put_job i body c s" and ?c = "c\<lparr>workqueue_entry := Some (next_ptr s)\<rparr>"
  have k: "inv_splice ?s" "inv_list Z ?s" "inv_marked rem Z ?s" "inv_kept (insert i (insert i Y)) ?s" "inv_options ?s"
    by (rule one_circuit [OF I c(1), of ?s ?c]; simp add: put_job_def put_work_def)+
  have ok: "circ_ok j d" if "live j ?s = Some d" for j d
    by (rule one_circuit(6) [OF I c(1), of ?s ?c, OF _ _ _ _ _ _ _ that])
      (use invD(10) [OF I c(1)] c in \<open>simp_all add: put_job_def put_work_def circ_ok_def\<close>)
  have "inv_mem ?s"
    using invD(1) [OF I] c(1) by (auto simp: inv_mem_def put_job_def put_work_def live_Some Suc_le_eq)
  moreover have "inv_works X ?s"
    using inv_works_put [OF invD(3) [OF I] invD(1) [OF I] a, of 0] by (simp add: inv_works_def put_job_def)
  moreover have "owner ?s = owner s" "onq ?s = onq s"
    using c by (auto simp: view_defs put_job_def put_work_def fun_eq_iff)
  then have "inv_onions ?s"
    using invD(2) [OF I] by (simp add: inv_onions_def) (simp add: put_job_def put_work_def)
  ultimately have "inv rem Z X (insert i Y) ?s"
    using k ok inv_jobs_put [OF invD(4) [OF I] invD(1) [OF I] c(1,3)] by (simp add: inv_def)
  then show ?thesis
    by (rule inv_unexcept) (auto simp: put_job_def put_work_def)
qed

section \<open>Handing out jobs\<close>

text \<open>Fields that the invariant does not mention.\<close>

lemma views_unchanged [simp]:
  "onq (s\<lparr>recently_chosen_ntors := a\<rparr>) = onq s" "wkq (s\<lparr>recently_chosen_ntors := a\<rparr>) = wkq s"
  "owner (s\<lparr>recently_chosen_ntors := a\<rparr>) = owner s" "job_of (s\<lparr>recently_chosen_ntors := a\<rparr>) = job_of s"
  "dead (s\<lparr>recently_chosen_ntors := a\<rparr>) = dead s"
  "onq (s\<lparr>closing := b\<rparr>) = onq s" "wkq (s\<lparr>closing := b\<rparr>) = wkq s" "owner (s\<lparr>closing := b\<rparr>) = owner s"
  "job_of (s\<lparr>closing := b\<rparr>) = job_of s" "dead (s\<lparr>closing := b\<rparr>) = dead s"
  "onq (s\<lparr>circuits_pending_close := l\<rparr>) = onq s" "wkq (s\<lparr>circuits_pending_close := l\<rparr>) = wkq s"
  "owner (s\<lparr>circuits_pending_close := l\<rparr>) = owner s" "job_of (s\<lparr>circuits_pending_close := l\<rparr>) = job_of s"
  "dead (s\<lparr>circuits_pending_close := l\<rparr>) = dead s"
  "onq (s\<lparr>sent := q\<rparr>) = onq s" "wkq (s\<lparr>sent := q\<rparr>) = wkq s" "owner (s\<lparr>sent := q\<rparr>) = owner s"
  "job_of (s\<lparr>sent := q\<rparr>) = job_of s" "dead (s\<lparr>sent := q\<rparr>) = dead s"
  "onq (s\<lparr>max_pending_tasks := a\<rparr>) = onq s" "wkq (s\<lparr>max_pending_tasks := a\<rparr>) = wkq s"
  "owner (s\<lparr>max_pending_tasks := a\<rparr>) = owner s" "job_of (s\<lparr>max_pending_tasks := a\<rparr>) = job_of s"
  "dead (s\<lparr>max_pending_tasks := a\<rparr>) = dead s"
  by (simp_all add: view_defs fun_eq_iff)

lemmas inv_parts = inv_def inv_mem_def inv_onions_def inv_works_def inv_jobs_def inv_splice_def inv_list_def inv_marked_def
  inv_kept_def inv_options_def

lemma inv_unchanged [simp]:
  "inv rem Z X Y s \<Longrightarrow> 0 \<le> a \<Longrightarrow> inv rem Z X Y (s\<lparr>recently_chosen_ntors := a\<rparr>)"
  "inv rem Z X Y (s\<lparr>closing := b\<rparr>) = inv rem Z X Y s"
  "inv rem Z X Y (s\<lparr>circuits_pending_close := l\<rparr>) = inv rem Z X Y s"
  "inv rem Z X Y (s\<lparr>sent := q\<rparr>) = inv rem Z X Y s"
  "inv rem Z X Y (s\<lparr>max_pending_tasks := a\<rparr>) = inv rem Z X Y s"
  by (simp_all add: inv_parts)

lemma decide_ok:
  assumes "0 \<le> recently_chosen_ntors s"
  obtains t a where "0 \<le> a" "decide_next_handshake_type s = Some (t, s\<lparr>recently_chosen_ntors := a\<rparr>)"
    "t = ONION_HANDSHAKE_TYPE_TAP \<or> t = ONION_HANDSHAKE_TYPE_NTOR"
proof -
  obtain k where k: "num_ntors_per_tap s = Some k" using num_ntors_defined by blast
  show thesis
    by (rule that [of "recently_chosen_ntors (snd (the (decide_next_handshake_type s)))"
          "fst (the (decide_next_handshake_type s))"])
      (use assms in \<open>auto simp: decide_next_handshake_type_def k Let_def\<close>)
qed

definition waiting :: "relay \<Rightarrow> nat" where
  "waiting s = length (ol_list s ONION_HANDSHAKE_TYPE_TAP) + length (ol_list s ONION_HANDSHAKE_TYPE_NTOR)"

text \<open>The task handed out is the first of the list that was decided on.\<close>

lemma next_task_head:
  assumes I: "inv rem Z X Y s" and d: "decide_next_handshake_type s = Some (t, s\<lparr>recently_chosen_ntors := a\<rparr>)" "0 \<le> a"
    and l: "ol_list s t = e # r"
  obtains v cc c s' where "onions s e = Some v" "onion_next_task s = Some (Some (oq_circ v, Some cc), s')"
    "inv rem Z X (insert (oq_circ v) Y) s'" "request_ok cc"
    "live (oq_circ v) s' = Some c" "onionqueue_entry c = None" "workqueue_entry c = None"
    "c_state c = CIRCUIT_STATE_ONIONSKIN_PENDING"
    "s' = drop_onion e v (the (live (oq_circ v) s)) (s\<lparr>recently_chosen_ntors := a\<rparr>)" "oq_type v = t"
proof -
  let ?s = "s\<lparr>recently_chosen_ntors := a\<rparr>"
  note IO = invD(2) [OF I]
  have "e \<in> set (ol_list s t)" using l by simp
  then obtain v where v: "onions s e = Some v" "oq_type v = t"
    using IO unfolding inv_onions_def by (metis (no_types, lifting) map_option_eq_Some)
  obtain c cc where c: "live (oq_circ v) s = Some c" "onionqueue_entry c = Some e"
    and cc: "oq_onionskin v = Some cc" "request_ok cc" "oq_type v = handshake_type cc"
    using onion_entry [OF IO v(1)] by blast
  have tm: "t \<le> MAX_ONION_HANDSHAKE_TYPE" using request_ok_type [OF cc(2)] cc(3) v(2) by simp
  let ?i = "oq_circ v" and ?v = "v\<lparr>oq_onionskin := None\<rparr>" and ?c = "c\<lparr>onionqueue_entry := None\<rparr>"
  let ?u = "?s\<lparr>ol_entries := (ol_entries s)(t := ol_entries s t - 1), onions := (onions s)(e \<mapsto> ?v),
    circuits := (circuits s)(?i \<mapsto> Live ?c)\<rparr>"
  let ?d = "drop_onion e v c ?s"
  have "onion_queue_entry_remove e ?u = Some ?d"
    by (subst remove_effect [where v = ?v and c = ?c])
      (use l v tm in \<open>simp_all add: drop_onion_def\<close>)
  then have call: "onion_next_task s = Some (Some (?i, Some cc), ?d)"
    using v cc(1) tm c(1) by (simp add: onion_next_task_def d(1) l Let_def upd_circ_live)
  have inv: "inv rem Z X (insert ?i Y) ?d"
    using inv_drop_onion(1) [of rem Z X Y ?s e v c] I d(2) v(1) c(1) by simp
  have ok: "workqueue_entry ?c = None" "c_state ?c = CIRCUIT_STATE_ONIONSKIN_PENDING" "onionqueue_entry ?c = None"
    using invD(10) [OF I c(1)] c(2) by (simp_all add: circ_ok_def)
  have lv: "live ?i ?d = Some ?c" by (simp add: drop_onion_def)
  show thesis
    by (rule that [OF v(1) call inv cc(2) lv ok(3,1,2)]) (simp_all add: c v)
qed

lemma next_task_ok:
  assumes I: "inv rem Z X Y s"
  obtains a where "0 \<le> a" "onion_next_task s = Some (None, s\<lparr>recently_chosen_ntors := a\<rparr>)"
  | i cc c s' where "onion_next_task s = Some (Some (i, Some cc), s')" "inv rem Z X (insert i Y) s'" "request_ok cc"
      "live i s' = Some c" "onionqueue_entry c = None" "workqueue_entry c = None" "c_state c = CIRCUIT_STATE_ONIONSKIN_PENDING"
      "waiting s' < waiting s" "total_pending_tasks s' = total_pending_tasks s" "max_pending_tasks s' = max_pending_tasks s"
      "circuits_pending_close s' = circuits_pending_close s" "closing s' = closing s"
proof -
  have "0 \<le> recently_chosen_ntors s" using invD(9) [OF I] by (simp add: inv_options_def)
  then obtain t a where d: "0 \<le> a" "decide_next_handshake_type s = Some (t, s\<lparr>recently_chosen_ntors := a\<rparr>)"
    and t: "t = ONION_HANDSHAKE_TYPE_TAP \<or> t = ONION_HANDSHAKE_TYPE_NTOR" by (rule decide_ok)
  let ?s = "s\<lparr>recently_chosen_ntors := a\<rparr>"
  show thesis
  proof (cases "ol_list s t")
    case Nil
    then have "onion_next_task s = Some (None, ?s)" by (simp add: onion_next_task_def d)
    with d(1) show thesis by (rule that(1))
  next
    case (Cons e r)
    show thesis
    proof (rule next_task_head [OF I d(2,1) Cons])
      fix v cc c s'
      assume h: "onions s e = Some v" "onion_next_task s = Some (Some (oq_circ v, Some cc), s')"
        "inv rem Z X (insert (oq_circ v) Y) s'" "request_ok cc"
        "live (oq_circ v) s' = Some c" "onionqueue_entry c = None" "workqueue_entry c = None"
        "c_state c = CIRCUIT_STATE_ONIONSKIN_PENDING"
        "s' = drop_onion e v (the (live (oq_circ v) s)) ?s" "oq_type v = t"
      have ne: "ONION_HANDSHAKE_TYPE_TAP \<noteq> ONION_HANDSHAKE_TYPE_NTOR" by (simp add: handshake_types)
      have w: "waiting s' < waiting s"
        using t ne Cons h(9,10) by (auto simp: waiting_def drop_onion_def)
      show thesis
        by (rule that(2) [OF h(2-8) w]) (simp_all add: h(9) drop_onion_def)
    qed
  qed
qed

lemma assign_ok:
  assumes I: "inv (circuits_pending_close s) Z X (insert i Y) s"
    and c: "live i s = Some c" "onionqueue_entry c = None" "workqueue_entry c = None"
    "c_state c = CIRCUIT_STATE_ONIONSKIN_PENDING" and cc: "request_ok cc"
  obtains "assign_onionskin_to_cpuworker rd i (Some cc) s = Some (False, s)"
      "total_pending_tasks s < max_pending_tasks s \<longrightarrow> marked_for_close c"
  | s' where "assign_onionskin_to_cpuworker rd i (Some cc) s = Some (True, s')" "inv (circuits_pending_close s') Z X Y s'"
      "closing s' = closing s" "total_pending_tasks s < max_pending_tasks s \<longrightarrow> waiting s' = waiting s"
proof -
  consider "\<not> p_chan c" | "p_chan c" "total_pending_tasks s \<ge> max_pending_tasks s" | "p_chan c" "total_pending_tasks s < max_pending_tasks s"
    by linarith
  then show thesis
  proof cases
    case 1
    then have "marked_for_close c" using invD(10) [OF I c(1)] by (simp add: circ_ok_def)
    then show thesis using 1 c(1) by (intro that(1)) (simp_all add: assign_onionskin_to_cpuworker_def)
  next
    case 2
    then have "assign_onionskin_to_cpuworker rd i (Some cc) s = onion_pending_add (now rd) i cc s"
      using c(1) by (simp add: assign_onionskin_to_cpuworker_def)
    with onion_pending_add_ok [OF I c cc, of "now rd"] 2(2) show thesis
      using that by fastforce
  next
    case 3
    define timed where "timed = should_time_request (lucky rd (next_ptr s)) (handshake_type cc) s"
    define req where "req = \<lparr>req_timed = timed, req_started_at = (if timed then usec_of rd (next_ptr s) else 0), req_create_cell = cc\<rparr>"
    let ?p = "put_job i (Request req) c s"
    have "assign_onionskin_to_cpuworker rd i (Some cc) s = Some (True, ?p)"
      using c(1) 3 by (simp add: assign_onionskin_to_cpuworker_def Let_def timed_def [symmetric] req_def [symmetric] queue_work_puts
          upd_circ_live put_job_def put_work_def)
    moreover have "inv (circuits_pending_close ?p) Z X Y ?p"
    proof -
      have "arg_ok False (Handshake_job i (Request req))" using cc by (simp add: arg_ok_def req_def)
      then show ?thesis using inv_put_job [OF I c] by (simp add: put_job_def put_work_def)
    qed
    ultimately show thesis by (rule that(2)) (simp_all add: put_job_def put_work_def waiting_def)
  qed
qed

lemma queue_pending_tasks_ok:
  assumes "inv (circuits_pending_close s) Z X Y s"
  shows "\<exists>s'. queue_pending_tasks rd s = Some s' \<and> inv (circuits_pending_close s') Z X Y s' \<and> closing s' = closing s"
  using assms
proof (induction "waiting s" arbitrary: s rule: less_induct)
  case less
  show ?case
  proof (cases "total_pending_tasks s < max_pending_tasks s")
    case False
    then show ?thesis using less.prems by (subst queue_pending_tasks.simps) simp
  next
    case True
    from less.prems show ?thesis
    proof (cases rule: next_task_ok)
      case (1 a)
      then show ?thesis using True less.prems by (subst queue_pending_tasks.simps) simp
    next
      case (2 i cc c s')
      have I: "inv (circuits_pending_close s') Z X (insert i Y) s'" using 2 by simp
      have tot: "total_pending_tasks s' < max_pending_tasks s'" using True 2 by simp
      have call: "queue_pending_tasks rd s = Option.bind (assign_onionskin_to_cpuworker rd i (Some cc) s') (\<lambda>(_, s). queue_pending_tasks rd s)"
        using True 2(1) by (subst queue_pending_tasks.simps) simp
      from I 2(4-7,3) show ?thesis
      proof (cases rule: assign_ok [where rd = rd])
        case 1
        then have "inv (circuits_pending_close s') Z X Y s'"
          using I 2(4) tot by (intro inv_unexcept [OF I]) simp
        with 1 less.hyps [of s'] 2 call show ?thesis by simp
      next
        case (2 s'')
        with less.hyps [of s''] \<open>waiting s' < waiting s\<close> \<open>closing s' = closing s\<close> tot call show ?thesis by auto
      qed
    qed
  qed
qed

end
