(* ===== verification/Handshakes_Safe.thy ===== *)
theory Handshakes_Safe
  imports Handshakes_Inv
begin

text \<open>
  Every event that can happen in a reachable state is executed without a failed assertion and without use of freed
  memory, and keeps the invariant.
\<close>

section \<open>Closing circuits\<close>

definition drop_job :: "nat \<Rightarrow> nat \<Rightarrow> work_entry \<Rightarrow> or_circuit \<Rightarrow> relay \<Rightarrow> relay" where
  "drop_job i e w c s = s\<lparr>pool_work := (pool_work s)(priority w := remove1 e (pool_work s (priority w))),
     works := (works s)(e := None), total_pending_tasks := total_pending_tasks s - 1,
     circuits := (circuits s)(i \<mapsto> Live (c\<lparr>workqueue_entry := None\<rparr>))\<rparr>"

lemma job_entry:
  assumes J: "inv_jobs s" and c: "live i s = Some c" "workqueue_entry c = Some e"
  shows "\<exists>w u. works s e = Some w \<and> work_arg w = Handshake_job i u"
proof -
  have "job_of s e = Some i" using J c by (simp add: inv_jobs_def wkq_def)
  then obtain w where "works s e = Some w" "job_circ (work_arg w) = Some i"
    by (auto simp: job_of_def bind_eq_Some_conv)
  then show ?thesis by (cases "work_arg w") auto
qed

lemma inv_works_drop:
  assumes W: "inv_works X s" and w: "works s e = Some w" "pending w"
    and s': "pool_work s' = (pool_work s)(priority w := remove1 e (pool_work s (priority w)))" "works s' = (works s)(e := None)"
      "running s' = running s" "answers s' = answers s"
  shows "inv_works X s'"
proof -
  have P: "distinct (pool_work s p)" "f \<in> set (pool_work s p) \<longleftrightarrow> (\<exists>w. works s f = Some w \<and> pending w \<and> priority w = p)"
    "f \<in> set (running s @ answers s) \<union> X \<longleftrightarrow> (\<exists>w. works s f = Some w \<and> \<not> pending w)"
    "works s f = Some x \<Longrightarrow> f \<notin> X \<Longrightarrow> on_pool x \<and> arg_ok (f \<in> set (answers s)) (work_arg x)"
    "distinct (running s @ answers s)" "X \<inter> set (running s @ answers s) = {}"
    "works s f = Some x \<Longrightarrow> f \<in> X \<Longrightarrow> job_circ (work_arg x) = None" for f p x
    using W unfolding inv_works_def by blast+
  have "f \<in> set (pool_work s' p) \<longleftrightarrow> (\<exists>w. works s' f = Some w \<and> pending w \<and> priority w = p)" for f p
    using P(2) [of f p] P(1) [of p] w by (cases "f = e"; cases "p = priority w") (auto simp: s' set_remove1_eq)
  moreover have "f \<in> set (running s' @ answers s') \<union> X \<longleftrightarrow> (\<exists>w. works s' f = Some w \<and> \<not> pending w)" for f
    using P(3) [of f] w by (cases "f = e") (auto simp: s')
  moreover have "on_pool x \<and> arg_ok (f \<in> set (answers s')) (work_arg x)" if "works s' f = Some x" "f \<notin> X" for f x
    using P(4) [of f x] that by (auto simp: s' split: if_splits)
  moreover have "distinct (pool_work s' p)" for p using P(1) by (simp add: s' distinct_remove1)
  moreover have "job_circ (work_arg x) = None" if "works s' f = Some x" "f \<in> X" for f x
    using P(7) [of f x] that by (auto simp: s' split: if_splits)
  ultimately show ?thesis using P(5,6) unfolding inv_works_def s' by blast
qed

text \<open>The end of a job whose circuit is live: the circuit loses its pointer, and the job is no longer counted.\<close>

lemma inv_jobs_end:
  assumes J: "inv_jobs s" and M: "inv_mem s" and c: "live i s = Some c" "workqueue_entry c = Some e"
    and m: "circuits s' = (circuits s)(i \<mapsto> Live c')" "workqueue_entry c' = None"
    and w: "job_of s' = (job_of s)(e := None)" "\<And>f w. f \<noteq> e \<Longrightarrow> works s' f = Some w \<Longrightarrow> works s f = Some w"
    and t: "total_pending_tasks s' = total_pending_tasks s - 1"
  shows "inv_jobs s'"
proof -
  have A: "wkq s k = Some f \<Longrightarrow> job_of s f = Some k"
    "job_of s f = Some k \<Longrightarrow> wkq s k = Some f \<or> dead s k \<and> (\<forall>w. works s f = Some w \<longrightarrow> \<not> pending w)"
    "dead s k \<Longrightarrow> \<exists>f. job_of s f = Some k"
    "job_of s f = Some k \<Longrightarrow> job_of s f' = Some k \<Longrightarrow> f = f'" for k f f'
    using J unfolding inv_jobs_def by blast+
  have views: "wkq s' = (wkq s)(i := None)" "dead s' = dead s"
    using c(1) m by (auto simp: wkq_def dead_def live_def fun_eq_iff split: option.splits circuit_mem.splits)
  have wi: "wkq s i = Some e" "\<not> dead s i" using c by (simp add: wkq_def, simp add: dead_def live_Some)
  note je = A(1) [OF wi(1)]
  have "job_of s' f = Some k" if "wkq s' k = Some f" for k f
    using that A(1) [of k f] A(1) [of k e] je by (auto simp: views w(1) split: if_splits)
  moreover have "wkq s' k = Some f \<or> dead s' k \<and> (\<forall>w. works s' f = Some w \<longrightarrow> \<not> pending w)" if "job_of s' f = Some k" for k f
    using that A(2) [of f k] A(4) [OF je, of f] w(2) [of f] by (auto simp: views w(1) split: if_splits)
  moreover have "\<exists>f. job_of s' f = Some k" if d: "dead s' k" for k
  proof -
    obtain f where "job_of s f = Some k" using A(3) [of k] d unfolding views(2) by blast
    then show ?thesis using je d wi(2) by (intro exI [of _ f]) (auto simp: w(1) views)
  qed
  moreover have "f = f'" if "job_of s' f = Some k" "job_of s' f' = Some k" for f f' k
    using that A(4) [of f k f'] by (auto simp: w(1) split: if_splits)
  moreover have "total_pending_tasks s' = int (card (dom (job_of s')))"
  proof -
    have "e \<in> dom (job_of s)" using je by auto
    then have "int (card (dom (job_of s) - {e})) = int (card (dom (job_of s))) - 1"
      using finite_jobs [OF M] by (simp add: card_Diff_singleton of_nat_diff card_gt_0_iff Suc_leI)
         (metis One_nat_def Suc_leI card_gt_0_iff empty_iff of_nat_diff of_nat_1)
    then show ?thesis using J by (simp add: w(1) t inv_jobs_def)
  qed
  ultimately show ?thesis unfolding inv_jobs_def by blast
qed

lemma inv_drop_job:
  assumes I: "inv rem Z X Y s" and c: "live i s = Some c" "workqueue_entry c = Some e" and w: "works s e = Some w" "pending w"
    and k: "marked_for_close c"
  shows "inv rem Z X Y (drop_job i e w c s)"
proof -
  let ?s = "drop_job i e w c s" and ?c = "c\<lparr>workqueue_entry := None\<rparr>"
  have k': "inv_splice ?s" "inv_list Z ?s" "inv_marked rem Z ?s" "inv_kept (insert i Y) ?s" "inv_options ?s"
    by (rule one_circuit [OF I c(1), of ?s ?c]; simp add: drop_job_def)+
  have ok: "circ_ok j d" if "live j ?s = Some d" for j d
    by (rule one_circuit(6) [OF I c(1), of ?s ?c, OF _ _ _ _ _ _ _ that])
      (use invD(10) [OF I c(1)] c in \<open>simp_all add: drop_job_def circ_ok_def\<close>)
  have "inv_mem ?s" using invD(1) [OF I] c(1) by (auto simp: inv_mem_def drop_job_def live_Some)
  moreover have "inv_works X ?s"
    by (rule inv_works_drop [OF invD(3) [OF I] w]) (simp_all add: drop_job_def)
  moreover have "owner ?s = owner s" "onq ?s = onq s"
    using c by (auto simp: view_defs drop_job_def fun_eq_iff)
  then have "inv_onions ?s"
    using invD(2) [OF I] by (simp add: inv_onions_def) (simp add: drop_job_def)
  moreover have "inv_jobs ?s"
    by (rule inv_jobs_end [OF invD(4) [OF I] invD(1) [OF I] c, where c' = ?c])
      (auto simp: drop_job_def job_of_def fun_eq_iff)
  ultimately have "inv rem Z X (insert i Y) ?s"
    using k' ok by (simp add: inv_def)
  then show ?thesis
    by (rule inv_unexcept) (use k in \<open>auto simp: drop_job_def\<close>)
qed

text \<open>What a cancellation leaves of a circuit.\<close>

definition close_frame :: "nat \<Rightarrow> relay \<Rightarrow> relay \<Rightarrow> bool" where
  "close_frame i s s' \<longleftrightarrow> circuits_pending_close s' = circuits_pending_close s \<and> closing s' = closing s \<and>
     (\<forall>c. live i s = Some c \<longrightarrow> (\<exists>c'. live i s' = Some c' \<and> marked_for_close c' = marked_for_close c \<and>
        rend_splice c' = rend_splice c \<and> c_state c' = c_state c \<and> (onionqueue_entry c = None \<longrightarrow> onionqueue_entry c' = None)))"

lemma close_frame_trans: "close_frame i s s' \<Longrightarrow> close_frame i s' s'' \<Longrightarrow> close_frame i s s''"
  unfolding close_frame_def by (metis (no_types, lifting))

lemma pending_in_pool: "inv_works X s \<Longrightarrow> works s e = Some w \<Longrightarrow> pending w \<Longrightarrow> e \<in> set (pool_work s (priority w))"
  unfolding inv_works_def by blast

lemma in_hand: "inv_works X s \<Longrightarrow> e \<in> X \<Longrightarrow> \<exists>w. works s e = Some w \<and> \<not> pending w"
  unfolding inv_works_def by blast

lemma cancel_ok:
  assumes I: "inv rem Z {} Y s" and c: "live i s = Some c" "marked_for_close c"
  obtains s' c' where "cpuworker_cancel_circ_handshake i s = Some s'" "inv rem Z {} Y s'" "close_frame i s s'"
    "live i s' = Some c'" "\<And>e w. workqueue_entry c' = Some e \<Longrightarrow> works s' e = Some w \<Longrightarrow> \<not> pending w"
proof (cases "workqueue_entry c")
  case None
  then have "cpuworker_cancel_circ_handshake i s = Some s" using c by (simp add: cpuworker_cancel_circ_handshake_def)
  then show thesis by (rule that [OF _ I _ c(1)]) (use None in \<open>auto simp: close_frame_def\<close>)
next
  case (Some e)
  obtain w u where w: "works s e = Some w" "work_arg w = Handshake_job i u"
    using job_entry [OF invD(4) [OF I] c(1) Some] by blast
  have p: "on_pool w" using invD(3) [OF I] w(1) unfolding inv_works_def by blast
  show thesis
  proof (cases "pending w")
    case False
    then have "cpuworker_cancel_circ_handshake i s = Some s"
      using c Some w p by (simp add: cpuworker_cancel_circ_handshake_def workqueue_entry_cancel_def)
    then show thesis by (rule that [OF _ I _ c(1)]) (use False Some w in \<open>auto simp: close_frame_def\<close>)
  next
    case True
    have "job_of s e = Some i" using w by (simp add: job_of_def)
    then have "dom (job_of s) \<noteq> {}" by blast
    then have "total_pending_tasks s > 0"
      using invD(4) [OF I] finite_jobs [OF invD(1) [OF I]] by (simp add: inv_jobs_def card_gt_0_iff)
    then have "cpuworker_cancel_circ_handshake i s = Some (drop_job i e w c s)"
      using c Some w p True pending_in_pool [OF invD(3) [OF I] w(1) True]
      by (simp add: cpuworker_cancel_circ_handshake_def workqueue_entry_cancel_def upd_circ_live drop_job_def)
    moreover have "inv rem Z {} Y (drop_job i e w c s)" by (rule inv_drop_job [OF I c(1) Some w(1) True c(2)])
    moreover have "close_frame i s (drop_job i e w c s)" using c by (auto simp: close_frame_def drop_job_def)
    ultimately show thesis
      by (rule that [where c' = "c\<lparr>workqueue_entry := None\<rparr>"]) (simp_all add: drop_job_def)
  qed
qed

lemma pending_remove_ok:
  assumes I: "inv rem Z {} Y s" and c: "live i s = Some c" "marked_for_close c"
  obtains s' c' where "onion_pending_remove i s = Some s'" "inv rem Z {} Y s'" "close_frame i s s'"
    "live i s' = Some c'" "onionqueue_entry c' = None" "\<And>e w. workqueue_entry c' = Some e \<Longrightarrow> works s' e = Some w \<Longrightarrow> \<not> pending w"
proof -
  obtain s1 c1 where s1: "(case onionqueue_entry c of None \<Rightarrow> Some s | Some victim \<Rightarrow> onion_queue_entry_remove victim s) = Some s1"
    "inv rem Z {} Y s1" "close_frame i s s1" "live i s1 = Some c1" "onionqueue_entry c1 = None" "marked_for_close c1"
  proof (cases "onionqueue_entry c")
    case None
    show thesis by (rule that [OF _ I _ c(1) None c(2)]) (use None in \<open>auto simp: close_frame_def\<close>)
  next
    case (Some e)
    then have "onq s i = Some e" using c(1) by (simp add: onq_def)
    then have "owner s e = Some i" using invD(2) [OF I] by (simp add: inv_onions_def)
    then obtain v where v: "onions s e = Some v" "oq_circ v = i" by (auto simp: owner_def)
    have lv: "live (oq_circ v) s = Some c" using v(2) c(1) by simp
    show thesis
    proof (rule that [of "drop_onion e v c s" "c\<lparr>onionqueue_entry := None\<rparr>"])
      show "(case onionqueue_entry c of None \<Rightarrow> Some s | Some victim \<Rightarrow> onion_queue_entry_remove victim s) = Some (drop_onion e v c s)"
        using remove_drops(1) [OF invD(2) [OF I] v(1) lv] Some by simp
      show "inv rem Z {} Y (drop_onion e v c s)" by (rule inv_drop_onion(2) [OF I v(1) lv c(2)])
    qed (use c v in \<open>auto simp: close_frame_def drop_onion_def\<close>)
  qed
  obtain s' c' where s': "cpuworker_cancel_circ_handshake i s1 = Some s'" "inv rem Z {} Y s'" "close_frame i s1 s'"
    "live i s' = Some c'" "\<And>e w. workqueue_entry c' = Some e \<Longrightarrow> works s' e = Some w \<Longrightarrow> \<not> pending w"
    using cancel_ok [OF s1(2,4,6)] by blast
  have "onion_pending_remove i s = Some s'" using c(1) s1(1) s'(1) by (simp add: onion_pending_remove_def)
  moreover have "onionqueue_entry c' = None" using s'(3,4) s1(4,5) by (auto simp: close_frame_def)
  ultimately show thesis using that close_frame_trans [OF s1(3) s'(3)] s'(2,4,5) by blast
qed

lemma swap_delete:
  assumes "distinct l" "n < length l"
  defines "l' \<equiv> butlast (l[n := last l])"
  shows "length l' = length l - 1" "m < length l - 1 \<Longrightarrow> l' ! m = (if m = n then last l else l ! m)"
    "distinct l'" "set l' = set l - {l ! n}"
proof -
  have ne: "l \<noteq> []" using assms(2) by auto
  show len: "length l' = length l - 1" by (simp add: l'_def)
  show nth: "l' ! m = (if m = n then last l else l ! m)" if "m < length l - 1" for m
    using that assms(2) by (simp add: l'_def nth_butlast nth_list_update)
  have lst: "last l = l ! (length l - 1)" using ne by (rule last_conv_nth)
  have el: "l' ! m \<in> set l - {l ! n}" if "m < length l'" for m
    using that nth [of m] assms(1,2) by (auto simp: len lst nth_eq_iff_index_eq)
  show "distinct l'"
    unfolding distinct_conv_nth
  proof (intro allI impI)
    fix a b
    assume h: "a < length l'" "b < length l'" "a \<noteq> b"
    then show "l' ! a \<noteq> l' ! b"
      using nth [of a] nth [of b] assms(1,2) by (auto simp: len lst nth_eq_iff_index_eq)
  qed
  show "set l' = set l - {l ! n}"
  proof
    show "set l' \<subseteq> set l - {l ! n}" using el by (metis in_set_conv_nth subsetI)
    show "set l - {l ! n} \<subseteq> set l'"
    proof
      fix x
      assume x: "x \<in> set l - {l ! n}"
      then obtain m where m: "m < length l" "x = l ! m" "m \<noteq> n" by (auto simp: in_set_conv_nth)
      show "x \<in> set l'"
      proof (cases "m < length l - 1")
        case True
        then show ?thesis using nth [of m] m len by (metis nth_mem)
      next
        case False
        then have "m = length l - 1" using m by simp
        moreover from this have "n < length l - 1" using assms(2) m by simp
        ultimately show ?thesis using nth [of n] m lst len by (metis nth_mem)
      qed
    qed
  qed
qed

text \<open>A change of the indices of circuits in the list keeps the rest of the invariant.\<close>

definition set_idx :: "int \<Rightarrow> circuit_mem \<Rightarrow> circuit_mem" where
  "set_idx q m = (case m of Live c \<Rightarrow> Live (c\<lparr>global_circuitlist_idx := q\<rparr>) | Dead \<Rightarrow> Dead)"

lemma set_idx_same: "\<exists>q. m = map_option (set_idx q) m"
proof (cases m)
  case (Some cm)
  then show ?thesis
  proof (cases cm)
    case (Live c)
    then show ?thesis using Some by (intro exI [of _ "global_circuitlist_idx c"]) (simp add: set_idx_def)
  qed (simp add: set_idx_def)
qed simp

lemma inv_reindex:
  assumes I: "inv rem Z X Y s" and s': "s' = s\<lparr>global_circuitlist := l', circuits := m\<rparr>"
    and idx: "\<And>j. \<exists>q. circuits s' j = map_option (set_idx q) (circuits s j)"
  shows "inv_mem s'" "inv_onions s'" "inv_works X s'" "inv_jobs s'" "inv_splice s'" "inv_kept Y s'" "inv_options s'"
    "live j s' = Some d \<Longrightarrow> circ_ok j d"
proof -
  obtain q where q: "\<And>j. circuits s' j = map_option (set_idx (q j)) (circuits s j)" using idx by metis
  have lv: "live j s' = map_option (\<lambda>c. c\<lparr>global_circuitlist_idx := q j\<rparr>) (live j s)" for j
    by (simp add: live_def q set_idx_def split: option.split circuit_mem.split)
  have rest: "onions s' = onions s" "works s' = works s" "next_ptr s' = next_ptr s" "ol_list s' = ol_list s" "ol_entries s' = ol_entries s"
    "pool_work s' = pool_work s" "running s' = running s" "answers s' = answers s" "options s' = options s"
    "recently_chosen_ntors s' = recently_chosen_ntors s" "total_pending_tasks s' = total_pending_tasks s"
    unfolding s' by simp_all
  have views: "onq s' = onq s" "wkq s' = wkq s" "owner s' = owner s" "job_of s' = job_of s"
    by (auto simp: view_defs lv rest fun_eq_iff split: bind_splits)
  have "set_idx n cm = Dead \<longleftrightarrow> cm = Dead" for n cm by (simp add: set_idx_def split: circuit_mem.split)
  then have dd: "dead s' = dead s" by (auto simp: dead_def q fun_eq_iff)
  show "inv_mem s'" using invD(1) [OF I] by (simp add: inv_mem_def q rest)
  show "inv_onions s'" "inv_jobs s'" "inv_works X s'" "inv_options s'"
    using invD(2-4,9) [OF I] by (simp_all add: inv_onions_def inv_jobs_def inv_works_def inv_options_def views dd rest)
  show "inv_splice s'" using invD(5) [OF I] unfolding inv_splice_def lv by fastforce
  show "inv_kept Y s'" using invD(8) [OF I] unfolding inv_kept_def lv by fastforce
  show "live j s' = Some d \<Longrightarrow> circ_ok j d" using invD(10) [OF I] by (fastforce simp: lv circ_ok_def)
qed

lemma unlist_ok:
  assumes I: "inv (i # rem) {} {} Y s" and c: "live i s = Some c" "marked_for_close c"
  obtains s1 s' where "delete_from_circuitlist (global_circuitlist_idx c) s = Some s1"
    "upd_circ i (global_circuitlist_idx_update (\<lambda>_. -1)) s1 = Some s'" "inv rem {i} {} Y s'"
    "live i s' = Some (c\<lparr>global_circuitlist_idx := -1\<rparr>)"
    "circuits_pending_close s' = circuits_pending_close s" "closing s' = closing s"
proof -
  let ?l = "global_circuitlist s" and ?i = "global_circuitlist_idx c"
  define n where "n = nat ?i"
  define l' where "l' = butlast (?l[n := last ?l])"
  have L: "distinct ?l" "\<And>j. j \<in> set ?l \<longleftrightarrow> live j s \<noteq> None"
    "\<And>j d. live j s = Some d \<Longrightarrow> arr_get ?l (global_circuitlist_idx d) = Some j"
    using invD(6) [OF I] by (simp_all add: inv_list_def)
  have n: "?i = int n" "n < length ?l" "?l ! n = i"
    using L(3) [OF c(1)] by (auto simp: arr_get_Some_iff n_def)
  note D = swap_delete [OF L(1) n(2), folded l'_def]
  have ne: "?l \<noteq> []" using n(2) by auto
  have last: "last ?l = ?l ! (length ?l - 1)" using ne by (rule last_conv_nth)
  obtain r where r: "live (last ?l) s = Some r" using L(2) [of "last ?l"] ne by auto
  define moved where "moved \<longleftrightarrow> n < length l'"
  have mi: "moved \<longleftrightarrow> last ?l \<noteq> i"
    using n D(1) last L(1) by (auto simp: moved_def nth_eq_iff_index_eq)
  define s1 where "s1 = (if moved then s\<lparr>global_circuitlist := l',
      circuits := (circuits s)(last ?l \<mapsto> Live (r\<lparr>global_circuitlist_idx := ?i\<rparr>))\<rparr> else s\<lparr>global_circuitlist := l'\<rparr>)"
  have del: "smartlist_del ?l (int n) = Some l'" using n(2) by (simp add: smartlist_del_def l'_def)
  have lr: "live (l' ! n) (s\<lparr>global_circuitlist := l'\<rparr>) = Some r" "l' ! n = last ?l" if moved
    using that r D(1) D(2) [of n] by (simp_all add: moved_def)
  have d1: "delete_from_circuitlist ?i s = Some s1"
    unfolding n(1) delete_from_circuitlist_def
    using upd_circ_live [OF lr(1)] lr(2) by (simp add: del s1_def moved_def [symmetric] n(1))
  have c1: "live i s1 = Some c" using c(1) mi by (simp add: s1_def)
  define s' where "s' = s1\<lparr>circuits := (circuits s1)(i \<mapsto> Live (c\<lparr>global_circuitlist_idx := -1\<rparr>))\<rparr>"
  have d2: "upd_circ i (global_circuitlist_idx_update (\<lambda>_. -1)) s1 = Some s'"
    by (simp add: upd_circ_live [OF c1] s'_def)
  have lv: "live j s' = (if j = i then Some (c\<lparr>global_circuitlist_idx := -1\<rparr>)
      else if moved \<and> j = last ?l then Some (r\<lparr>global_circuitlist_idx := ?i\<rparr>) else live j s)" for j
    by (simp add: s'_def s1_def)
  have s'_upd: "s' = s\<lparr>global_circuitlist := l', circuits := circuits s'\<rparr>" by (simp add: s'_def s1_def)
  have list: "global_circuitlist s' = l'" by (simp add: s'_def s1_def)
  have idx: "\<exists>q. circuits s' j = map_option (set_idx q) (circuits s j)" for j
  proof -
    consider "j = i" | "j \<noteq> i" "moved \<and> j = last ?l" | "j \<noteq> i" "\<not> (moved \<and> j = last ?l)" by blast
    then show ?thesis
    proof cases
      case 1
      then show ?thesis using c(1) by (intro exI [of _ "-1"]) (simp add: s'_def live_Some set_idx_def)
    next
      case 2
      then show ?thesis using r by (intro exI [of _ ?i]) (simp add: s'_def s1_def live_Some set_idx_def)
    next
      case 3
      then show ?thesis using set_idx_same by (auto simp: s'_def s1_def)
    qed
  qed
  note kept = inv_reindex [OF I s'_upd idx]
  have "inv_list {i} s'"
  proof -
    have "arr_get l' (global_circuitlist_idx d') = Some j" if d': "live j s' = Some d'" "j \<noteq> i" for j d'
    proof (cases "moved \<and> j = last ?l")
      case True
      then show ?thesis using d' n(1) D(1) D(2) [of n] by (auto simp: lv moved_def)
    next
      case False
      then have dj: "live j s = Some d'" using d' by (simp add: lv split: if_splits)
      obtain m where m: "global_circuitlist_idx d' = int m" "m < length ?l" "?l ! m = j"
        using L(3) [OF dj] by (auto simp: arr_get_Some_iff) (metis nat_0_le nat_less_iff)
      have "m \<noteq> n" using m n d'(2) by auto
      moreover have "m \<noteq> length ?l - 1"
        using False mi m(3) last d'(2) by (cases moved) auto
      ultimately show ?thesis using m D(1) D(2) [of m] by simp
    qed
    moreover have "j \<in> set l' \<longleftrightarrow> live j s' \<noteq> None \<and> j \<notin> {i}" for j
      using D(4) L(2) n(3) c(1) r by (auto simp: lv)
    ultimately show ?thesis using D(3) by (auto simp: inv_list_def list lv)
  qed
  moreover have "inv_marked rem {i} s'"
    using invD(7) [OF I] c r unfolding inv_marked_def by (auto simp: lv)
  ultimately have "inv rem {i} {} Y s'" using kept by (simp add: inv_def)
  then show thesis by (rule that [OF d1 d2]) (simp_all add: lv s'_def s1_def)
qed

lemma inv_free:
  assumes I: "inv rem {i} {} Y s" and c: "live i s = Some c" "marked_for_close c" "onionqueue_entry c = None"
    and w: "\<And>e w. workqueue_entry c = Some e \<Longrightarrow> works s e = Some w \<Longrightarrow> \<not> pending w"
  defines "s' \<equiv> s\<lparr>circuits := (circuits s)(i := (if workqueue_entry c = None then None else Some Dead))\<rparr>"
  shows "inv rem {} {} Y s'"
proof -
  have sp: "rend_splice c = None" using invD(10) [OF I c(1)] c(2) by (auto simp: circ_ok_def)
  have lv: "live j s' = (if j = i then None else live j s)" for j by (simp add: s'_def live_def)
  have onq: "onq s' = onq s" using c by (auto simp: onq_def lv fun_eq_iff)
  have wkq: "wkq s' = (wkq s)(i := None)" by (auto simp: wkq_def lv fun_eq_iff)
  have own: "owner s' = owner s" "job_of s' = job_of s" by (auto simp: view_defs s'_def fun_eq_iff)
  have dead: "dead s' j \<longleftrightarrow> (if j = i then workqueue_entry c \<noteq> None else dead s j)" for j by (simp add: dead_def s'_def)
  have nd: "\<not> dead s i" using c(1) by (simp add: dead_def live_Some)
  have "inv_mem s'" using invD(1) [OF I] c(1) by (auto simp: inv_mem_def s'_def live_Some)
  moreover have "inv_onions s'" using invD(2) [OF I] by (simp add: inv_onions_def onq own) (simp add: s'_def)
  moreover have "inv_works {} s'" "inv_options s'"
    using invD(3,9) [OF I] by (simp_all add: inv_works_def inv_options_def s'_def)
  moreover have "inv_jobs s'"
  proof -
    have A: "wkq s k = Some f \<Longrightarrow> job_of s f = Some k"
      "job_of s f = Some k \<Longrightarrow> wkq s k = Some f \<or> dead s k \<and> (\<forall>w. works s f = Some w \<longrightarrow> \<not> pending w)"
      "dead s k \<Longrightarrow> \<exists>f. job_of s f = Some k"
      "job_of s f = Some k \<Longrightarrow> job_of s f' = Some k \<Longrightarrow> f = f'"
      "total_pending_tasks s = int (card (dom (job_of s)))" for k f f'
      using invD(4) [OF I] unfolding inv_jobs_def by blast+
    have wi: "wkq s i = workqueue_entry c" using c(1) by (simp add: wkq_def)
    have ws: "works s' = works s" "total_pending_tasks s' = total_pending_tasks s" by (simp_all add: s'_def)
    have "wkq s' k = Some f \<or> dead s' k \<and> (\<forall>w. works s' f = Some w \<longrightarrow> \<not> pending w)" if "job_of s' f = Some k" for k f
    proof (cases "k = i")
      case True
      then have "workqueue_entry c = Some f" using that A(2) [of f i] nd wi by (simp add: own)
      then show ?thesis using w [of f] True by (auto simp: dead ws)
    next
      case False
      then show ?thesis using that A(2) [of f k] by (simp add: own wkq dead ws)
    qed
    moreover have "\<exists>f. job_of s' f = Some k" if "dead s' k" for k
      using that A(3) [of k] A(1) [of i] wi by (cases "k = i") (auto simp: own dead)
    moreover have "job_of s' f = Some k" if "wkq s' k = Some f" for k f
      using that A(1) [of k f] by (auto simp: own wkq split: if_splits)
    ultimately show ?thesis using A(4,5) unfolding inv_jobs_def ws own by blast
  qed
  moreover have "circ_ok j d" if "live j s' = Some d" for j d
    using that invD(10) [OF I, of j d] by (simp add: lv split: if_splits)
  moreover have "inv_splice s'"
    unfolding inv_splice_def
  proof (intro allI impI)
    fix j d k
    assume h: "live j s' = Some d" "rend_splice d = Some k"
    then have j: "live j s = Some d" "j \<noteq> i" by (auto simp: lv split: if_splits)
    then obtain e where e: "k \<noteq> j" "live k s = Some e" "rend_splice e = Some j"
      using invD(5) [OF I] h(2) unfolding inv_splice_def by blast
    moreover have "k \<noteq> i" using e c(1) sp by auto
    ultimately show "k \<noteq> j \<and> (\<exists>d. live k s' = Some d \<and> rend_splice d = Some j)" by (simp add: lv)
  qed
  moreover have "inv_list {} s'"
    using invD(6) [OF I] by (auto simp: inv_list_def lv) (simp_all add: s'_def)
  moreover have "inv_marked rem {} s'"
    using invD(7) [OF I] by (auto simp: inv_marked_def lv)
  moreover have "inv_kept Y s'"
    using invD(8) [OF I] by (auto simp: inv_kept_def lv)
  ultimately show ?thesis by (simp add: inv_def)
qed

lemma about_to_free_ok:
  assumes I: "inv rem Z {} Y s" and c: "live i s = Some c" "marked_for_close c"
  obtains s' c' where "circuit_about_to_free i s = Some (s'\<lparr>circuits := (circuits s')(i \<mapsto> Live (c'\<lparr>p_chan := False\<rparr>))\<rparr>)"
    "inv rem Z {} Y s'" "close_frame i s s'" "live i s' = Some c'" "onionqueue_entry c' = None"
    "\<And>e w. workqueue_entry c' = Some e \<Longrightarrow> works s' e = Some w \<Longrightarrow> \<not> pending w"
proof (cases "c_state c = CIRCUIT_STATE_ONIONSKIN_PENDING")
  case True
  obtain s' c' where s': "onion_pending_remove i s = Some s'" "inv rem Z {} Y s'" "close_frame i s s'"
    "live i s' = Some c'" "onionqueue_entry c' = None" "\<And>e w. workqueue_entry c' = Some e \<Longrightarrow> works s' e = Some w \<Longrightarrow> \<not> pending w"
    using pending_remove_ok [OF I c] by blast
  have "circuit_about_to_free i s = Some (s'\<lparr>circuits := (circuits s')(i \<mapsto> Live (c'\<lparr>p_chan := False\<rparr>))\<rparr>)"
    using c(1) True s'(1) by (simp add: circuit_about_to_free_def upd_circ_live [OF s'(4)])
  then show thesis by (rule that [OF _ s'(2-6)])
next
  case False
  have "circuit_about_to_free i s = Some (s\<lparr>circuits := (circuits s)(i \<mapsto> Live (c\<lparr>p_chan := False\<rparr>))\<rparr>)"
    using c(1) False by (simp add: circuit_about_to_free_def upd_circ_live)
  moreover have "onionqueue_entry c = None" "workqueue_entry c = None"
    using invD(10) [OF I c(1)] False by (auto simp: circ_ok_def)
  ultimately show thesis by (intro that [OF _ I _ c(1)]) (auto simp: close_frame_def)
qed

lemma close_marked_ok:
  assumes I: "inv (i # rem) {} {} Y s"
  obtains s' where "circuit_close_marked i s = Some s'" "inv rem {} {} Y s'"
    "circuits_pending_close s' = circuits_pending_close s" "closing s' = closing s"
proof -
  obtain c where c: "live i s = Some c" "marked_for_close c"
    using invD(7) [OF I] unfolding inv_marked_def by (metis list.set_intros(1))
  obtain s1 s2 where u: "delete_from_circuitlist (global_circuitlist_idx c) s = Some s1"
    "upd_circ i (global_circuitlist_idx_update (\<lambda>_. -1)) s1 = Some s2" "inv rem {i} {} Y s2"
    "live i s2 = Some (c\<lparr>global_circuitlist_idx := -1\<rparr>)"
    "circuits_pending_close s2 = circuits_pending_close s" "closing s2 = closing s"
    using unlist_ok [OF I c] by blast
  obtain s3 c3 where a: "circuit_about_to_free i s2 = Some (s3\<lparr>circuits := (circuits s3)(i \<mapsto> Live (c3\<lparr>p_chan := False\<rparr>))\<rparr>)"
    "inv rem {i} {} Y s3" "close_frame i s2 s3" "live i s3 = Some c3" "onionqueue_entry c3 = None"
    "\<And>e w. workqueue_entry c3 = Some e \<Longrightarrow> works s3 e = Some w \<Longrightarrow> \<not> pending w"
    using about_to_free_ok [OF u(3,4)] c(2) by auto
  have m: "marked_for_close c3" using a(3,4) u(4) c(2) by (auto simp: close_frame_def)
  have sp: "rend_splice c3 = None" using invD(10) [OF a(2,4)] m by (auto simp: circ_ok_def)
  have ix: "global_circuitlist_idx c3 = -1" using invD(6) [OF a(2)] a(4) by (auto simp: inv_list_def)
  let ?f = "s3\<lparr>circuits := (circuits s3)(i := (if workqueue_entry c3 = None then None else Some Dead))\<rparr>"
  have "circuit_close_marked i s = Some ?f"
    using c u(1,2) a(1) sp ix by (simp add: circuit_close_marked_def circuit_free_def Let_def)
  moreover have "inv rem {} {} Y ?f" using inv_free [OF a(2,4) m a(5,6)] by simp
  ultimately show thesis by (rule that) (use u a(3) in \<open>simp_all add: close_frame_def\<close>)
qed

section \<open>Workers\<close>

lemma pick_queue_nonempty: "pick_queue rnd work ps q = Some p \<Longrightarrow> q = Some p \<or> work p \<noteq> []"
  by (induction rnd work ps q rule: pick_queue.induct) (auto split: if_splits)

text \<open>A step of a worker moves an entry and keeps its circuit.\<close>

lemma inv_worker_step:
  assumes I: "inv rem Z X Y s" and W: "inv_works X s'"
    and s': "s' = s\<lparr>pool_work := a, works := b, running := c, answers := d\<rparr>"
    and j: "job_of s' = job_of s" "\<And>e w w'. b e = Some w' \<Longrightarrow> works s e = Some w \<Longrightarrow> pending w' \<Longrightarrow> pending w"
    and n: "\<And>e. b e = None \<longleftrightarrow> works s e = None"
  shows "inv rem Z X Y s'"
proof -
  have views: "onq s' = onq s" "wkq s' = wkq s" "owner s' = owner s" "dead s' = dead s"
    by (simp_all add: view_defs s' fun_eq_iff)
  have "inv_jobs s'"
  proof -
    have "wkq s k = Some f \<or> dead s k \<and> (\<forall>w. b f = Some w \<longrightarrow> \<not> pending w)" if jf: "job_of s f = Some k" for k f
    proof -
      have "wkq s k = Some f \<or> dead s k \<and> (\<forall>w. works s f = Some w \<longrightarrow> \<not> pending w)"
        using jf invD(4) [OF I] by (simp add: inv_jobs_def)
      moreover obtain w where "works s f = Some w" using jf by (auto simp: job_of_def bind_eq_Some_conv)
      ultimately show ?thesis using j(2) [of f _ w] by blast
    qed
    then show ?thesis
      using invD(4) [OF I] unfolding inv_jobs_def views j(1) by (simp add: s')
  qed
  moreover have "inv_mem s'" using invD(1) [OF I] n by (simp add: inv_mem_def s')
  moreover have "inv_onions s'" using invD(2) [OF I] by (simp add: inv_onions_def views) (simp add: s')
  moreover have "inv_splice s'" "inv_list Z s'" "inv_marked rem Z s'" "inv_kept Y s'" "inv_options s'"
    using invD(5-9) [OF I] by (simp_all add: inv_splice_def inv_list_def inv_marked_def inv_kept_def inv_options_def s')
  moreover have "\<forall>i c. live i s' = Some c \<longrightarrow> circ_ok i c" using invD(10) [OF I] by (simp add: s')
  ultimately show ?thesis using W by (simp add: inv_def)
qed

lemma inv_worksD:
  assumes "inv_works X s"
  shows "distinct (pool_work s p)" "distinct (running s @ answers s)" "X \<inter> set (running s @ answers s) = {}"
    "e \<in> set (pool_work s p) \<longleftrightarrow> (\<exists>w. works s e = Some w \<and> pending w \<and> priority w = p)"
    "e \<in> set (running s @ answers s) \<union> X \<longleftrightarrow> (\<exists>w. works s e = Some w \<and> \<not> pending w)"
    "works s e = Some w \<Longrightarrow> e \<notin> X \<Longrightarrow> on_pool w \<and> arg_ok (e \<in> set (answers s)) (work_arg w)"
    "works s e = Some w \<Longrightarrow> e \<in> X \<Longrightarrow> job_circ (work_arg w) = None"
  using assms unfolding inv_works_def by blast+

lemma extract_ok:
  assumes I: "inv rem Z {} Y s"
  shows "\<exists>s'. worker_thread_extract_next_work rnd s = Some s' \<and> inv rem Z {} Y s' \<and>
    circuits_pending_close s' = circuits_pending_close s \<and> closing s' = closing s"
proof (cases "pick_queue rnd (pool_work s) [0, 1, 2] None")
  case None
  then show ?thesis using I by (simp add: worker_thread_extract_next_work_def)
next
  case (Some p)
  note W = inv_worksD [OF invD(3) [OF I]]
  obtain e r where q: "pool_work s p = e # r" using pick_queue_nonempty [OF Some] by (cases "pool_work s p") auto
  obtain w where w: "works s e = Some w" "pending w" "priority w = p" using W(4) [of e p] q by auto
  let ?s = "s\<lparr>pool_work := (pool_work s)(p := r), works := (works s)(e \<mapsto> w\<lparr>pending := False\<rparr>), running := running s @ [e]\<rparr>"
  have call: "worker_thread_extract_next_work rnd s = Some ?s"
    unfolding worker_thread_extract_next_work_def Some by (simp add: q w(1))
  have e: "e \<notin> set (running s @ answers s)" "e \<notin> set r" using W(5) [of e] w W(1) [of p] q by auto
  have "inv_works {} ?s"
    unfolding inv_works_def
  proof (intro conjI allI impI)
    fix f p' x
    show "distinct (pool_work ?s p')" using W(1) [of p'] W(1) [of p] q by auto
    show "f \<in> set (pool_work ?s p') \<longleftrightarrow> (\<exists>w. works ?s f = Some w \<and> pending w \<and> priority w = p')"
      using W(4) [of f p'] w q e(2) by (cases "f = e"; cases "p' = p") auto
    show "f \<in> set (running ?s @ answers ?s) \<union> {} \<longleftrightarrow> (\<exists>w. works ?s f = Some w \<and> \<not> pending w)"
      using W(5) [of f] by (cases "f = e") auto
    assume x: "works ?s f = Some x"
    show "on_pool x" "arg_ok (f \<in> set (answers ?s)) (work_arg x)"
      using W(6) [of f] W(6) [OF w(1)] x by (cases "f = e"; auto)+
  qed (use W(2) e(1) in auto)
  then have "inv rem Z {} Y ?s"
    by (rule inv_worker_step [OF I, where a = "(pool_work s)(p := r)" and b = "(works s)(e \<mapsto> w\<lparr>pending := False\<rparr>)"
          and c = "running s @ [e]" and d = "answers s"])
      (use w in \<open>auto simp: job_of_def fun_eq_iff split: if_splits\<close>)
  with call show ?thesis by simp
qed

lemma threadfn_ok:
  assumes "request_ok (req_create_cell req)"
  shows "\<exists>rpl. cpuworker_onion_handshake_threadfn hs usec (Request req) = Some (Reply rpl)"
  using assms
  by (auto simp: cpuworker_onion_handshake_threadfn_def Let_def request_ok_def check_create_cell_def cell_commands
      split: option.splits if_splits)

lemma work_ok:
  assumes I: "inv rem Z {} Y s" and e: "e \<in> set (running s)"
  shows "\<exists>s'. worker_thread_work e hs usec s = Some s' \<and> inv rem Z {} Y s' \<and>
    circuits_pending_close s' = circuits_pending_close s \<and> closing s' = closing s"
proof -
  note W = inv_worksD [OF invD(3) [OF I]]
  obtain w where w: "works s e = Some w" "\<not> pending w" using W(5) [of e] e by auto
  have na: "e \<notin> set (answers s)" using W(2) e by auto
  have ok: "arg_ok False (work_arg w)" "on_pool w" using W(6) [OF w(1)] na by simp_all
  obtain arg where arg: "(case work_arg w of
        Handshake_job i body \<Rightarrow> map_option (Handshake_job i) (cpuworker_onion_handshake_threadfn hs usec body)
      | Other_job \<Rightarrow> Some Other_job | Freed_job \<Rightarrow> None) = Some arg"
    "arg_ok True arg" "job_circ arg = job_circ (work_arg w)"
  proof (cases "work_arg w")
    case (Handshake_job i body)
    then obtain req where body: "body = Request req" "request_ok (req_create_cell req)"
      using ok(1) by (cases body) (auto simp: arg_ok_def)
    then obtain rpl where "cpuworker_onion_handshake_threadfn hs usec body = Some (Reply rpl)" using threadfn_ok by blast
    then show thesis using that [of "Handshake_job i (Reply rpl)"] Handshake_job by (simp add: arg_ok_def)
  next
    case Other_job
    then show thesis using that [of Other_job] by (simp add: arg_ok_def)
  next
    case Freed_job
    then show thesis using ok by (simp add: arg_ok_def)
  qed
  let ?s = "s\<lparr>works := (works s)(e \<mapsto> w\<lparr>work_arg := arg\<rparr>), running := remove1 e (running s), answers := answers s @ [e]\<rparr>"
  have call: "worker_thread_work e hs usec s = Some ?s"
    using w(1) arg(1) by (simp add: worker_thread_work_def queue_reply_def)
  have run: "distinct (running s)" "distinct (answers s)" "set (running s) \<inter> set (answers s) = {}" using W(2) by auto
  have "inv_works {} ?s"
    unfolding inv_works_def
  proof (intro conjI allI impI)
    fix f p' x
    show "distinct (pool_work ?s p')" using W(1) by simp
    show "f \<in> set (pool_work ?s p') \<longleftrightarrow> (\<exists>w. works ?s f = Some w \<and> pending w \<and> priority w = p')"
      using W(4) [of f p'] w by (cases "f = e") auto
    show "f \<in> set (running ?s @ answers ?s) \<union> {} \<longleftrightarrow> (\<exists>w. works ?s f = Some w \<and> \<not> pending w)"
      using W(5) [of f] w run(1) e by (cases "f = e") auto
    assume x: "works ?s f = Some x"
    show "on_pool x" "arg_ok (f \<in> set (answers ?s)) (work_arg x)"
      using W(6) [of f] ok arg(2) x by (cases "f = e"; auto)+
  qed (use run na e in \<open>auto simp: distinct_remove1\<close>)
  then have "inv rem Z {} Y ?s"
    by (rule inv_worker_step [OF I, where a = "pool_work s" and b = "(works s)(e \<mapsto> w\<lparr>work_arg := arg\<rparr>)"
          and c = "remove1 e (running s)" and d = "answers s @ [e]"])
      (use w arg(3) in \<open>auto simp: job_of_def fun_eq_iff split: if_splits\<close>)
  with call show ?thesis by simp
qed

section \<open>Replies\<close>

text \<open>Marking does not look at the jobs.\<close>

lemma mark_works:
  assumes sp: "inv_splice s" and ok: "\<And>k c. live k s = Some c \<Longrightarrow> circ_ok k c" and c: "live i s = Some c"
  shows "circuit_mark_for_close i (s\<lparr>works := W\<rparr>) = map_option (works_update (\<lambda>_. W)) (circuit_mark_for_close i s)"
proof (cases "rend_splice c")
  case None
  then show ?thesis
    unfolding circuit_mark_for_close.simps [of i s] circuit_mark_for_close.simps [of i "s\<lparr>works := W\<rparr>"]
    using c circ_ok_keys [OF ok [OF c]] by (simp add: assert_circuit_ok_def upd_circ_live)
next
  case (Some j)
  obtain d where d: "j \<noteq> i" "live j s = Some d" "rend_splice d = Some i"
    using sp c Some unfolding inv_splice_def by blast
  have m: "\<not> marked_for_close c" "\<not> marked_for_close d" using ok [OF c] ok [OF d(2)] Some d(3) by (simp_all add: circ_ok_def)
  have keys: "keys_ok c" "keys_ok d" by (rule circ_ok_keys, rule ok, rule c d)+
  let ?s = "s\<lparr>circuits := (circuits s)(i \<mapsto> Live (c\<lparr>marked_for_close := True\<rparr>))\<rparr>"
  have A: "circuit_mark_for_close j ?s = Some (?s\<lparr>circuits := (circuits ?s)(j \<mapsto> Live (d\<lparr>marked_for_close := True, rend_splice := None\<rparr>)),
    circuits_pending_close := circuits_pending_close ?s @ [j]\<rparr>)"
    using c d m keys Some by (intro mark_second [of _ _ _ i "c\<lparr>marked_for_close := True\<rparr>"]) simp_all
  have B: "circuit_mark_for_close j (?s\<lparr>works := W\<rparr>) = Some (?s\<lparr>works := W, circuits := (circuits ?s)(j \<mapsto> Live (d\<lparr>marked_for_close := True, rend_splice := None\<rparr>)),
    circuits_pending_close := circuits_pending_close ?s @ [j]\<rparr>)"
    using c d m keys Some by (subst mark_second [of _ _ _ i "c\<lparr>marked_for_close := True\<rparr>"]) simp_all
  have B': "?s\<lparr>works := W\<rparr> = s\<lparr>works := W, circuits := (circuits s)(i \<mapsto> Live (c\<lparr>marked_for_close := True\<rparr>))\<rparr>" by simp
  show ?thesis
    unfolding circuit_mark_for_close.simps [of i s] circuit_mark_for_close.simps [of i "s\<lparr>works := W\<rparr>"]
    using c d m keys Some A B [unfolded B'] by (simp add: assert_circuit_ok_def upd_circ_live)
qed

lemma mark_works_ok:
  assumes I: "inv (circuits_pending_close s) Z X Y s" and c: "live i s = Some c"
  obtains s' c' where "circuit_mark_for_close i (s\<lparr>works := W\<rparr>) = Some (s'\<lparr>works := W\<rparr>)" "works s' = works s"
    "inv (circuits_pending_close s') Z X Y s'" "closing s' = closing s" "live i s' = Some c'" "marked_for_close c'"
proof -
  obtain s' c' where m: "circuit_mark_for_close i s = Some s'" "inv (circuits_pending_close s') Z X Y s'" "mark_frame s s'"
    "live i s' = Some c'" "marked_for_close c'" using mark_ok [OF I c] by blast
  have "works s' = works s" "closing s' = closing s" using m(3) by (auto simp: mark_frame_def)
  moreover have "circuit_mark_for_close i (s\<lparr>works := W\<rparr>) = Some (s'\<lparr>works := W\<rparr>)"
    using mark_works [OF invD(5) [OF I] invD(10) [OF I] c, of W] m(1) by simp
  ultimately show thesis using that m by blast
qed

lemma created_format_no_abort: "created_cell_format out c \<noteq> Aborted"
  by (auto simp: created_cell_format_def check_created_cell_def handshake_rooms handshake_lengths cell_commands Let_def)

lemma views_stats [simp]:
  "onq (s\<lparr>onionskins_n_processed := a, onionskins_usec_internal := b, onionskins_usec_roundtrip := d\<rparr>) = onq s"
  "wkq (s\<lparr>onionskins_n_processed := a, onionskins_usec_internal := b, onionskins_usec_roundtrip := d\<rparr>) = wkq s"
  "owner (s\<lparr>onionskins_n_processed := a, onionskins_usec_internal := b, onionskins_usec_roundtrip := d\<rparr>) = owner s"
  "job_of (s\<lparr>onionskins_n_processed := a, onionskins_usec_internal := b, onionskins_usec_roundtrip := d\<rparr>) = job_of s"
  "dead (s\<lparr>onionskins_n_processed := a, onionskins_usec_internal := b, onionskins_usec_roundtrip := d\<rparr>) = dead s"
  by (simp_all add: view_defs fun_eq_iff)

lemma inv_stats [simp]:
  "inv rem Z X Y (s\<lparr>onionskins_n_processed := a, onionskins_usec_internal := b, onionskins_usec_roundtrip := d\<rparr>) = inv rem Z X Y s"
  by (simp add: inv_parts)

lemma note_time_stats:
  "note_onionskin_time tv rpl s = s\<lparr>onionskins_n_processed := onionskins_n_processed (note_onionskin_time tv rpl s),
     onionskins_usec_internal := onionskins_usec_internal (note_onionskin_time tv rpl s),
     onionskins_usec_roundtrip := onionskins_usec_roundtrip (note_onionskin_time tv rpl s)\<rparr>"
  by (simp add: note_onionskin_time_def Let_def)

text \<open>The main thread takes the first answer, and the job is over.\<close>

definition taken :: "nat \<Rightarrow> nat list \<Rightarrow> work_entry \<Rightarrow> relay \<Rightarrow> relay" where
  "taken e r w s = s\<lparr>answers := r, works := (works s)(e \<mapsto> w\<lparr>on_pool := False, work_arg := Freed_job\<rparr>),
     total_pending_tasks := total_pending_tasks s - 1\<rparr>"

lemma inv_works_taken:
  assumes W: "inv_works {} s" and e: "answers s = e # r" "works s e = Some w"
    and s': "pool_work s' = pool_work s" "running s' = running s" "answers s' = r"
      "works s' = (works s)(e \<mapsto> w')" "pending w' = pending w" "job_circ (work_arg w') = None"
  shows "inv_works {e} s'"
proof -
  note W = inv_worksD [OF W]
  have np: "\<not> pending w" using W(5) [of e] e by auto
  have d: "e \<notin> set (running s)" "e \<notin> set r" "distinct (running s @ r)" using W(2) e(1) by auto
  show ?thesis
    unfolding inv_works_def
  proof (intro conjI allI impI)
    fix f p x
    show "distinct (pool_work s' p)" using W(1) by (simp add: s')
    show "f \<in> set (pool_work s' p) \<longleftrightarrow> (\<exists>w. works s' f = Some w \<and> pending w \<and> priority w = p)"
      using W(4) [of f p] e np by (cases "f = e") (auto simp: s')
    show "f \<in> set (running s' @ answers s') \<union> {e} \<longleftrightarrow> (\<exists>w. works s' f = Some w \<and> \<not> pending w)"
      using W(5) [of f] e np by (cases "f = e") (auto simp: s')
    assume x: "works s' f = Some x" "f \<notin> {e}"
    then show "on_pool x" "arg_ok (f \<in> set (answers s')) (work_arg x)"
      using W(6) [of f x] e(1) by (auto simp: s')
  qed (use d in \<open>auto simp: s'\<close>)
qed

lemma inv_works_forget:
  assumes W: "inv_works {e} s"
    and s': "pool_work s' = pool_work s" "running s' = running s" "answers s' = answers s" "works s' = (works s)(e := None)"
  shows "inv_works {} s'"
proof -
  note W = inv_worksD [OF W]
  show ?thesis
    unfolding inv_works_def
  proof (intro conjI allI impI)
    fix f p x
    show "distinct (pool_work s' p)" using W(1) by (simp add: s')
    show "f \<in> set (pool_work s' p) \<longleftrightarrow> (\<exists>w. works s' f = Some w \<and> pending w \<and> priority w = p)"
      using W(4) [of f p] W(5) [of e] by (cases "f = e") (auto simp: s')
    show "f \<in> set (running s' @ answers s') \<union> {} \<longleftrightarrow> (\<exists>w. works s' f = Some w \<and> \<not> pending w)"
      using W(5) [of f] W(3) by (cases "f = e") (auto simp: s')
    assume x: "works s' f = Some x"
    then show "on_pool x" "arg_ok (f \<in> set (answers s')) (work_arg x)"
      using W(6) [of f x] by (auto simp: s' split: if_splits)
  qed (use W(2) in \<open>auto simp: s'\<close>)
qed

lemma inv_forget:
  assumes I: "inv rem Z {e} Y s" and w: "works s e = Some w" "job_circ (work_arg w) = None"
  shows "inv rem Z {} Y (s\<lparr>works := (works s)(e := None)\<rparr>)"
proof -
  let ?s = "s\<lparr>works := (works s)(e := None)\<rparr>"
  have views: "onq ?s = onq s" "wkq ?s = wkq s" "owner ?s = owner s" "dead ?s = dead s" "job_of ?s = job_of s"
    using w by (auto simp: view_defs fun_eq_iff)
  have "inv_jobs ?s" using invD(4) [OF I] unfolding inv_jobs_def views by auto
  moreover have "inv_works {} ?s" by (rule inv_works_forget [OF invD(3) [OF I]]) simp_all
  moreover have "inv_mem ?s" using invD(1) [OF I] by (simp add: inv_mem_def)
  moreover have "inv_onions ?s" using invD(2) [OF I] by (simp add: inv_onions_def views)
  moreover have "inv_splice ?s" "inv_list Z ?s" "inv_marked rem Z ?s" "inv_kept Y ?s" "inv_options ?s"
    using invD(5-9) [OF I] by (simp_all add: inv_splice_def inv_list_def inv_marked_def inv_kept_def inv_options_def)
  ultimately show ?thesis using invD(10) [OF I] by (simp add: inv_def)
qed

lemma reply_live:
  assumes I: "inv rem {} {} {} s" and e: "answers s = e # r" "works s e = Some w" "job_circ (work_arg w) = Some i"
    and c: "live i s = Some c"
  shows "inv rem {} {e} {i} ((taken e r w s)\<lparr>circuits := (circuits s)(i \<mapsto> Live (c\<lparr>workqueue_entry := None\<rparr>))\<rparr>)"
    (is "inv _ _ _ _ ?s") and "workqueue_entry c = Some e"
proof -
  let ?c = "c\<lparr>workqueue_entry := None\<rparr>"
  have "job_of s e = Some i" "\<not> dead s i" using e c by (simp add: job_of_def, simp add: dead_def live_Some)
  then have "wkq s i = Some e" using invD(4) [OF I] unfolding inv_jobs_def by blast
  then show we: "workqueue_entry c = Some e" using c by (simp add: wkq_def)
  have k': "inv_splice ?s" "inv_list {} ?s" "inv_marked rem {} ?s" "inv_kept (insert i {}) ?s" "inv_options ?s"
    by (rule one_circuit [OF I c, of ?s ?c]; simp add: taken_def)+
  have ok: "circ_ok j d" if "live j ?s = Some d" for j d
    by (rule one_circuit(6) [OF I c, of ?s ?c, OF _ _ _ _ _ _ _ that])
      (use invD(10) [OF I c] we in \<open>simp_all add: taken_def circ_ok_def\<close>)
  have "inv_mem ?s" using invD(1) [OF I] c e(2) by (auto simp: inv_mem_def taken_def live_Some)
  moreover have "inv_works {e} ?s"
    by (rule inv_works_taken [OF invD(3) [OF I] e(1,2), where w' = "w\<lparr>on_pool := False, work_arg := Freed_job\<rparr>"])
      (simp_all add: taken_def)
  moreover have "owner ?s = owner s" "onq ?s = onq s"
    using c by (auto simp: view_defs taken_def fun_eq_iff)
  then have "inv_onions ?s" using invD(2) [OF I] by (simp add: inv_onions_def) (simp add: taken_def)
  moreover have "inv_jobs ?s"
    by (rule inv_jobs_end [OF invD(4) [OF I] invD(1) [OF I] c we, where c' = ?c])
      (auto simp: taken_def job_of_def fun_eq_iff)
  ultimately show "inv rem {} {e} {i} ?s" using k' ok by (simp add: inv_def)
qed

lemma reply_dead:
  assumes I: "inv rem {} {} {} s" and e: "answers s = e # r" "works s e = Some w" "job_circ (work_arg w) = Some i"
    and c: "dead s i"
  shows "inv rem {} {e} {} ((taken e r w s)\<lparr>circuits := (circuits s)(i := None)\<rparr>)" (is "inv _ _ _ _ ?s")
proof -
  have lv: "live j ?s = live j s" for j using c by (simp add: live_def dead_def taken_def)
  have je: "job_of s e = Some i" using e by (simp add: job_of_def)
  have views: "onq ?s = onq s" "wkq ?s = wkq s" "owner ?s = owner s"
    unfolding fun_eq_iff onq_def wkq_def lv by (simp_all add: owner_def taken_def)
  have jobs: "job_of ?s = (job_of s)(e := None)" by (auto simp: job_of_def taken_def fun_eq_iff)
  have dead: "dead ?s j \<longleftrightarrow> dead s j \<and> j \<noteq> i" for j by (simp add: dead_def taken_def)
  have A: "wkq s k = Some f \<Longrightarrow> job_of s f = Some k"
    "job_of s f = Some k \<Longrightarrow> wkq s k = Some f \<or> dead s k \<and> (\<forall>w. works s f = Some w \<longrightarrow> \<not> pending w)"
    "dead s k \<Longrightarrow> \<exists>f. job_of s f = Some k"
    "job_of s f = Some k \<Longrightarrow> job_of s f' = Some k \<Longrightarrow> f = f'"
    "total_pending_tasks s = int (card (dom (job_of s)))" for k f f'
    using invD(4) [OF I] unfolding inv_jobs_def by blast+
  have wi: "wkq s i = None" using c by (simp add: wkq_def dead_def live_def)
  have "inv_jobs ?s"
  proof -
    have "job_of ?s f = Some k" if "wkq ?s k = Some f" for k f
      using that A(1) [of k f] je wi by (auto simp: views jobs)
    moreover have "wkq ?s k = Some f \<or> dead ?s k \<and> (\<forall>w. works ?s f = Some w \<longrightarrow> \<not> pending w)" if h: "job_of ?s f = Some k" for k f
    proof -
      have f: "f \<noteq> e" "job_of s f = Some k" using h by (auto simp: jobs split: if_splits)
      moreover have "k \<noteq> i" using A(4) [OF je, of f] f by auto
      moreover have "works ?s f = works s f" using f(1) by (simp add: taken_def)
      ultimately show ?thesis using A(2) [of f k] unfolding views dead by auto
    qed
    moreover have "\<exists>f. job_of ?s f = Some k" if h: "dead ?s k" for k
    proof -
      obtain f where f: "job_of s f = Some k" using A(3) [of k] h unfolding dead by blast
      moreover have "f \<noteq> e" using f je h by (auto simp: dead)
      ultimately show ?thesis by (intro exI [of _ f]) (simp add: jobs)
    qed
    moreover have "f = f'" if "job_of ?s f = Some k" "job_of ?s f' = Some k" for f f' k
      using that A(4) [of f k f'] by (auto simp: jobs split: if_splits)
    moreover have "total_pending_tasks ?s = int (card (dom (job_of ?s)))"
    proof -
      have "e \<in> dom (job_of s)" using je by auto
      then have "int (card (dom (job_of s) - {e})) = int (card (dom (job_of s))) - 1"
        using finite_jobs [OF invD(1) [OF I]] card_gt_0_iff [of "dom (job_of s)"]
        by (auto simp: card_Diff_singleton of_nat_diff Suc_leI)
      then show ?thesis using A(5) by (simp add: jobs) (simp add: taken_def)
    qed
    ultimately show ?thesis unfolding inv_jobs_def by blast
  qed
  moreover have "inv_mem ?s" using invD(1) [OF I] e(2) by (auto simp: inv_mem_def taken_def)
  moreover have "inv_works {e} ?s"
    by (rule inv_works_taken [OF invD(3) [OF I] e(1,2), where w' = "w\<lparr>on_pool := False, work_arg := Freed_job\<rparr>"])
      (simp_all add: taken_def)
  moreover have "inv_onions ?s" using invD(2) [OF I] unfolding inv_onions_def views by (simp add: taken_def)
  moreover have "inv_splice ?s" "inv_list {} ?s" "inv_marked rem {} ?s" "inv_kept {} ?s"
    using invD(5-8) [OF I] unfolding inv_splice_def inv_list_def inv_marked_def inv_kept_def lv by (simp_all add: taken_def)
  moreover have "inv_options ?s" using invD(9) [OF I] by (simp add: inv_options_def taken_def)
  ultimately show ?thesis using invD(10) [OF I] lv by (simp add: inv_def)
qed

text \<open>A circuit without queue entry and job changes its state or loses its channel.\<close>

lemma inv_one:
  assumes I: "inv rem Z X Y s" and c: "live i s = Some c"
    and eq: "marked_for_close c' = marked_for_close c" "rend_splice c' = rend_splice c"
      "global_circuitlist_idx c' = global_circuitlist_idx c" "onionqueue_entry c' = onionqueue_entry c"
      "workqueue_entry c' = workqueue_entry c"
    and ok: "circ_ok i c'"
  shows "inv rem Z X (insert i Y) (s\<lparr>circuits := (circuits s)(i \<mapsto> Live c')\<rparr>)"
    and "marked_for_close c \<or> c_state c' \<noteq> CIRCUIT_STATE_ONIONSKIN_PENDING \<or> onionqueue_entry c \<noteq> None \<or>
      workqueue_entry c \<noteq> None \<Longrightarrow> inv rem Z X (Y - {i}) (s\<lparr>circuits := (circuits s)(i \<mapsto> Live c')\<rparr>)"
proof -
  let ?s = "s\<lparr>circuits := (circuits s)(i \<mapsto> Live c')\<rparr>"
  have k: "inv_splice ?s" "inv_list Z ?s" "inv_marked rem Z ?s" "inv_kept (insert i Y) ?s" "inv_options ?s"
    by (rule one_circuit [OF I c, of ?s c']; simp add: eq)+
  have k': "marked_for_close c \<or> c_state c' \<noteq> CIRCUIT_STATE_ONIONSKIN_PENDING \<or> onionqueue_entry c' \<noteq> None \<or>
      workqueue_entry c' \<noteq> None \<Longrightarrow> inv_kept (Y - {i}) ?s"
    by (rule one_circuit(8) [OF I c, of ?s c']; simp add: eq)
  have o: "circ_ok j d" if "live j ?s = Some d" for j d
    by (rule one_circuit(6) [OF I c, of ?s c', OF _ _ _ _ _ _ ok that]) (simp_all add: eq)
  have views: "onq ?s = onq s" "wkq ?s = wkq s" "owner ?s = owner s" "job_of ?s = job_of s"
    using c by (auto simp: view_defs eq fun_eq_iff)
  have dd: "dead ?s = dead s" using c by (auto simp: dead_def live_Some fun_eq_iff)
  have "inv_mem ?s" using invD(1) [OF I] c by (auto simp: inv_mem_def live_Some)
  moreover have "inv_onions ?s" "inv_jobs ?s" "inv_works X ?s"
    using invD(2-4) [OF I] by (simp_all add: inv_onions_def inv_jobs_def inv_works_def views dd)
  ultimately show "inv rem Z X (insert i Y) ?s" using k o by (simp add: inv_def)
  then show "marked_for_close c \<or> c_state c' \<noteq> CIRCUIT_STATE_ONIONSKIN_PENDING \<or> onionqueue_entry c \<noteq> None \<or>
      workqueue_entry c \<noteq> None \<Longrightarrow> inv rem Z X (Y - {i}) ?s"
    using k' by (simp add: inv_def eq)
qed

lemma onionskin_answer_ok:
  assumes I: "inv (circuits_pending_close s) Z X {i} s" and c: "live i s = Some c" "onionqueue_entry c = None"
    "workqueue_entry c = None" "\<not> marked_for_close c" "c_state c = CIRCUIT_STATE_ONIONSKIN_PENDING"
  shows "\<exists>ok s' c'. onionskin_answer True i created (s\<lparr>works := W\<rparr>) = Some (ok, s'\<lparr>works := W\<rparr>) \<and> works s' = works s \<and>
    inv (circuits_pending_close s') Z X (if ok then {} else {i}) s' \<and> closing s' = closing s \<and> live i s' = Some c'"
proof (cases "created_cell_format \<lparr>circ_id = 0, command = 0, payload = replicate CELL_PAYLOAD_SIZE 0\<rparr> created")
  case Aborted
  then show ?thesis using created_format_no_abort by blast
next
  case Rejected
  then have "onionskin_answer True i created (s\<lparr>works := W\<rparr>) = Some (False, s\<lparr>works := W\<rparr>)" by (simp add: onionskin_answer_def)
  with I c show ?thesis by auto
next
  case (Parsed cell)
  let ?c = "c\<lparr>c_state := CIRCUIT_STATE_OPEN, crypto := True\<rparr>"
  let ?s = "s\<lparr>circuits := (circuits s)(i \<mapsto> Live ?c)\<rparr>"
  have ok: "circ_ok i ?c" "p_chan c" "\<not> crypto c" using invD(10) [OF I c(1)] c by (simp_all add: circ_ok_def)
  have J: "inv (circuits_pending_close s) Z X ({i} - {i}) ?s"
    by (rule inv_one(2) [OF I c(1)]) (use ok in simp_all)
  have "onionskin_answer True i created (s\<lparr>works := W\<rparr>) =
      Some (True, (?s\<lparr>sent := sent s @ [(i, cell\<lparr>circ_id := p_circ_id c\<rparr>)]\<rparr>)\<lparr>works := W\<rparr>)"
    using Parsed c(1) ok by (simp add: onionskin_answer_def upd_circ_live)
  moreover have "inv (circuits_pending_close s) Z X {} (?s\<lparr>sent := sent s @ [(i, cell\<lparr>circ_id := p_circ_id c\<rparr>)]\<rparr>)" using J by simp
  ultimately show ?thesis by (intro exI conjI) (assumption | simp)+
qed

lemma answer_live:
  assumes I: "inv (circuits_pending_close s) Z X {i} (s\<lparr>circuits := (circuits s)(i \<mapsto> Live (c\<lparr>workqueue_entry := None\<rparr>))\<rparr>)"
    and c: "live i s = Some c" "onionqueue_entry c = None" "c_state c = CIRCUIT_STATE_ONIONSKIN_PENDING"
  shows "\<exists>s'. answer_circuit True i rpl (s\<lparr>works := W\<rparr>) = Some (s'\<lparr>works := W\<rparr>) \<and> works s' = works s \<and>
    inv (circuits_pending_close s') Z X {} s' \<and> closing s' = closing s"
proof -
  let ?c = "c\<lparr>workqueue_entry := None\<rparr>"
  let ?s = "s\<lparr>circuits := (circuits s)(i \<mapsto> Live ?c)\<rparr>"
  have I': "inv (circuits_pending_close ?s) Z X {i} ?s" using I by simp
  have l: "live i ?s = Some ?c" by simp
  have start: "answer_circuit True i rpl (s\<lparr>works := W\<rparr>) =
    (if marked_for_close c then Some (?s\<lparr>works := W\<rparr>)
     else if \<not> rpl_success rpl then circuit_mark_for_close i (?s\<lparr>works := W\<rparr>)
     else do { (ok, s) \<leftarrow> onionskin_answer True i (rpl_created_cell rpl) (?s\<lparr>works := W\<rparr>);
               if ok then Some s else circuit_mark_for_close i s })"
  proof -
    have "circuits s i = Some (Live c)" using c(1) by (simp add: live_Some)
    moreover have "upd_circ i (workqueue_entry_update (\<lambda>_. None)) (s\<lparr>works := W\<rparr>) = Some (?s\<lparr>works := W\<rparr>)"
      using c(1) by (simp add: upd_circ_live)
    ultimately show ?thesis by (simp add: answer_circuit_def)
  qed
  have marking: "\<exists>s'. circuit_mark_for_close i (t\<lparr>works := W\<rparr>) = Some (s'\<lparr>works := W\<rparr>) \<and> works s' = works t \<and>
      inv (circuits_pending_close s') Z X {} s' \<and> closing s' = closing t"
    if t: "inv (circuits_pending_close t) Z X {i} t" "live i t = Some d" for t d
  proof -
    obtain s' c' where m: "circuit_mark_for_close i (t\<lparr>works := W\<rparr>) = Some (s'\<lparr>works := W\<rparr>)" "works s' = works t"
      "inv (circuits_pending_close s') Z X {i} s'" "closing s' = closing t" "live i s' = Some c'" "marked_for_close c'"
      using mark_works_ok [OF t, of W] by blast
    have "inv (circuits_pending_close s') Z X {} s'"
      by (rule inv_unexcept [OF m(3)]) (simp add: m)
    with m show ?thesis by blast
  qed
  consider "marked_for_close c" | "\<not> marked_for_close c" "\<not> rpl_success rpl" | "\<not> marked_for_close c" "rpl_success rpl" by blast
  then show ?thesis
  proof cases
    case 1
    have "inv (circuits_pending_close ?s) Z X {} ?s" by (rule inv_unexcept [OF I']) (simp add: 1)
    with 1 show ?thesis unfolding start by (intro exI [of _ ?s]) simp
  next
    case 2
    then show ?thesis unfolding start using marking [OF I' l] by simp
  next
    case 3
    obtain ok s' c' where a: "onionskin_answer True i (rpl_created_cell rpl) (?s\<lparr>works := W\<rparr>) = Some (ok, s'\<lparr>works := W\<rparr>)"
      "works s' = works ?s" "inv (circuits_pending_close s') Z X (if ok then {} else {i}) s'" "closing s' = closing ?s" "live i s' = Some c'"
      using onionskin_answer_ok [OF I' l, of "rpl_created_cell rpl" W] 3 c(2,3) by auto
    show ?thesis
    proof (cases ok)
      case True
      then show ?thesis unfolding start using 3 a by auto
    next
      case False
      then show ?thesis unfolding start using 3 a marking [of s' c'] by auto
    qed
  qed
qed

lemma reply_other:
  assumes I: "inv (circuits_pending_close s) {} {} {} s" and Cons: "answers s = e # r"
    and w: "works s e = Some w" "\<not> pending w" and Other_job: "work_arg w = Other_job"
  shows "\<exists>s'. replyqueue_process_next rd True s = Some s' \<and> inv (circuits_pending_close s') {} {} {} s' \<and> closing s' = closing s"
proof -
  let ?w1 = "w\<lparr>on_pool := False\<rparr>"
  let ?s1 = "s\<lparr>answers := r, works := (works s)(e \<mapsto> ?w1)\<rparr>"
  have "replyqueue_process_next rd True s = Some (?s1\<lparr>works := (works ?s1)(e := None)\<rparr>)"
    using Cons w(1) Other_job by (simp add: replyqueue_process_next_def)
  moreover have "inv (circuits_pending_close s) {} {e} {} ?s1"
  proof -
    have W1: "inv_works {e} ?s1" by (rule inv_works_taken [OF invD(3) [OF I] Cons w(1), where w' = ?w1])
        (simp_all add: Other_job)
    have views: "onq ?s1 = onq s" "wkq ?s1 = wkq s" "owner ?s1 = owner s" "dead ?s1 = dead s" "job_of ?s1 = job_of s"
      using w by (auto simp: view_defs fun_eq_iff)
    have "inv_jobs ?s1" using invD(4) [OF I] w(2) w(1) unfolding inv_jobs_def views by auto
    moreover have "inv_mem ?s1" using invD(1) [OF I] w(1) by (auto simp: inv_mem_def)
    moreover have "inv_onions ?s1" using invD(2) [OF I] by (simp add: inv_onions_def views)
    moreover have "inv_splice ?s1" "inv_list {} ?s1" "inv_marked (circuits_pending_close s) {} ?s1" "inv_kept {} ?s1" "inv_options ?s1"
      using invD(5-9) [OF I] by (simp_all add: inv_splice_def inv_list_def inv_marked_def inv_kept_def inv_options_def)
    ultimately show ?thesis using W1 invD(10) [OF I] by (simp add: inv_def)
  qed
  then have "inv (circuits_pending_close s) {} {} {} (?s1\<lparr>works := (works ?s1)(e := None)\<rparr>)"
    by (rule inv_forget [where w = ?w1]) (simp_all add: Other_job)
  ultimately show ?thesis by simp
qed

text \<open>The circuit of a reply is answered, or its memory is freed; the job is no longer counted.\<close>

lemma reply_answered:
  assumes I: "inv (circuits_pending_close s) {} {} {} s" and Cons: "answers s = e # r"
    and w: "works s e = Some w" and jc: "job_circ (work_arg w) = Some i"
  obtains s' where "answer_circuit True i rpl ((note_onionskin_time tv rpl (taken e r w s))\<lparr>works := W\<rparr>) = Some (s'\<lparr>works := W\<rparr>)"
    "works s' = (works s)(e \<mapsto> w\<lparr>on_pool := False, work_arg := Freed_job\<rparr>)" "inv (circuits_pending_close s') {} {e} {} s'"
    "closing s' = closing s"
proof -
  let ?T = "note_onionskin_time tv rpl (taken e r w s)"
  have je: "job_of s e = Some i" using w jc by (simp add: job_of_def)
  have fields: "works ?T = (works s)(e \<mapsto> w\<lparr>on_pool := False, work_arg := Freed_job\<rparr>)" "circuits ?T = circuits s" "closing ?T = closing s"
    "circuits_pending_close ?T = circuits_pending_close s"
    by (subst note_time_stats, simp add: taken_def)+
  have lv: "live k ?T = live k s" for k using fields(2) by (simp add: live_def)
  have invT: "inv rem Z X Y (?T\<lparr>circuits := m\<rparr>) = inv rem Z X Y ((taken e r w s)\<lparr>circuits := m\<rparr>)" for rem Z X Y m
  proof -
    have "?T\<lparr>circuits := m\<rparr> = ((taken e r w s)\<lparr>circuits := m\<rparr>)\<lparr>onionskins_n_processed := onionskins_n_processed ?T,
        onionskins_usec_internal := onionskins_usec_internal ?T, onionskins_usec_roundtrip := onionskins_usec_roundtrip ?T\<rparr>"
      by (subst note_time_stats) simp
    then show ?thesis by (simp only: inv_stats)
  qed
  show thesis
  proof (cases "dead s i")
    case True
    have "answer_circuit True i rpl (?T\<lparr>works := W\<rparr>) = Some ((?T\<lparr>circuits := (circuits s)(i := None)\<rparr>)\<lparr>works := W\<rparr>)"
      using True fields(2) by (simp add: answer_circuit_def dead_def)
    moreover have "inv (circuits_pending_close s) {} {e} {} (?T\<lparr>circuits := (circuits s)(i := None)\<rparr>)"
      unfolding invT by (rule reply_dead [OF I Cons w jc True])
    ultimately show thesis
      by (intro that [of "?T\<lparr>circuits := (circuits s)(i := None)\<rparr>"]) (simp_all add: fields)
  next
    case False
    have "wkq s i = Some e" using invD(4) [OF I] je False unfolding inv_jobs_def by blast
    then obtain c where c: "live i s = Some c" by (auto simp: wkq_def bind_eq_Some_conv)
    note rl = reply_live [OF I Cons w jc c]
    have "onionqueue_entry c = None" "c_state c = CIRCUIT_STATE_ONIONSKIN_PENDING"
      using invD(10) [OF I c] rl(2) by (auto simp: circ_ok_def)
    moreover have "inv (circuits_pending_close ?T) {} {e} {i} (?T\<lparr>circuits := (circuits ?T)(i \<mapsto> Live (c\<lparr>workqueue_entry := None\<rparr>))\<rparr>)"
      unfolding invT fields by (rule rl(1))
    ultimately obtain s' where "answer_circuit True i rpl (?T\<lparr>works := W\<rparr>) = Some (s'\<lparr>works := W\<rparr>)" "works s' = works ?T"
      "inv (circuits_pending_close s') {} {e} {} s'" "closing s' = closing ?T"
      using answer_live [of ?T "{}" "{e}" i c rpl W] c lv by metis
    then show thesis using that fields by simp
  qed
qed

lemma reply_handshake:
  assumes I: "inv (circuits_pending_close s) {} {} {} s" and Cons: "answers s = e # r"
    and w: "works s e = Some w" "\<not> pending w" and Handshake_job: "work_arg w = Handshake_job i body" and rpl: "body = Reply rpl"
  shows "\<exists>s'. replyqueue_process_next rd True s = Some s' \<and> inv (circuits_pending_close s') {} {} {} s' \<and> closing s' = closing s"
proof -
  let ?w1 = "w\<lparr>on_pool := False\<rparr>"
  let ?s1 = "s\<lparr>answers := r, works := (works s)(e \<mapsto> ?w1)\<rparr>"
  let ?T = "note_onionskin_time (usec_of rd e) rpl (taken e r w s)" and ?W = "(works s)(e \<mapsto> ?w1)"
  have jc: "job_circ (work_arg w) = Some i" by (simp add: Handshake_job)
  have je: "job_of s e = Some i" using w Handshake_job by (simp add: job_of_def)
  then have "dom (job_of s) \<noteq> {}" by blast
  then have tot: "total_pending_tasks s > 0"
    using invD(4) [OF I] finite_jobs [OF invD(1) [OF I]] by (simp add: inv_jobs_def card_gt_0_iff)
  have note_comm: "note_onionskin_time tv rpl (t\<lparr>works := V\<rparr>) = (note_onionskin_time tv rpl t)\<lparr>works := V\<rparr>" for tv t V
    by (simp add: note_onionskin_time_def Let_def)
  have T: "note_onionskin_time (usec_of rd e) rpl (?s1\<lparr>total_pending_tasks := total_pending_tasks s - 1\<rparr>) = ?T\<lparr>works := ?W\<rparr>"
  proof -
    have "?s1\<lparr>total_pending_tasks := total_pending_tasks s - 1\<rparr> = (taken e r w s)\<lparr>works := ?W\<rparr>" by (simp add: taken_def)
    then show ?thesis by (simp only: note_comm)
  qed
  obtain s' where s': "answer_circuit True i rpl (?T\<lparr>works := ?W\<rparr>) = Some (s'\<lparr>works := ?W\<rparr>)"
    "works s' = (works s)(e \<mapsto> ?w1\<lparr>work_arg := Freed_job\<rparr>)" "inv (circuits_pending_close s') {} {e} {} s'" "closing s' = closing s"
    by (rule reply_answered [OF I Cons w(1) jc]) blast
  have st: "(s'\<lparr>works := ?W\<rparr>)\<lparr>works := (works (s'\<lparr>works := ?W\<rparr>))(e \<mapsto> ?w1\<lparr>work_arg := Freed_job\<rparr>)\<rparr> = s'"
    using s'(2) by simp
  obtain s'' where s'': "queue_pending_tasks rd s' = Some s''" "inv (circuits_pending_close s'') {} {e} {} s''" "closing s'' = closing s"
    using queue_pending_tasks_ok [OF s'(3), of rd] s'(4) by auto
  have call: "cpuworker_onion_handshake_replyfn rd True e ?s1 = Some s''"
    using tot s'(1) st s''(1) T by (simp add: cpuworker_onion_handshake_replyfn_def Handshake_job rpl)
  obtain w'' where w'': "works s'' e = Some w''" "job_circ (work_arg w'') = None"
    using in_hand [OF invD(3) [OF s''(2)], of e] inv_worksD(7) [OF invD(3) [OF s''(2)], of e] by auto
  have "replyqueue_process_next rd True s = Some (s''\<lparr>works := (works s'')(e := None)\<rparr>)"
    using Cons w(1) Handshake_job call w''(1) by (simp add: replyqueue_process_next_def Let_def)
  moreover have "inv (circuits_pending_close s'') {} {} {} (s''\<lparr>works := (works s'')(e := None)\<rparr>)"
    by (rule inv_forget [OF s''(2) w''])
  ultimately show ?thesis using s''(3) by simp
qed

lemma reply_ok:
  assumes I: "inv (circuits_pending_close s) {} {} {} s"
  shows "\<exists>s'. replyqueue_process_next rd True s = Some s' \<and> inv (circuits_pending_close s') {} {} {} s' \<and> closing s' = closing s"
proof (cases "answers s")
  case Nil
  then show ?thesis using I by (simp add: replyqueue_process_next_def)
next
  case (Cons e r)
  note W = inv_worksD [OF invD(3) [OF I]]
  obtain w where w: "works s e = Some w" "\<not> pending w" using W(5) [of e] Cons by auto
  have ok: "arg_ok True (work_arg w)" using W(6) [OF w(1)] Cons by simp
  show ?thesis
  proof (cases "work_arg w")
    case Freed_job
    then show ?thesis using ok by (simp add: arg_ok_def)
  next
    case Other_job
    then show ?thesis by (rule reply_other [OF I Cons w])
  next
    case (Handshake_job i body)
    then obtain rpl where "body = Reply rpl" using ok by (cases body) (auto simp: arg_ok_def)
    with Handshake_job show ?thesis by (rule reply_handshake [OF I Cons w])
  qed
qed

section \<open>Commands\<close>

definition fresh_circuit :: "uint32 \<Rightarrow> relay \<Rightarrow> or_circuit" where
  "fresh_circuit cid s = \<lparr>c_state = CIRCUIT_STATE_ONIONSKIN_PENDING, marked_for_close = False, p_chan = True, p_circ_id = cid, crypto = False,
     rend_splice = None, onionqueue_entry = None, workqueue_entry = None,
     global_circuitlist_idx = int (length (global_circuitlist s))\<rparr>"

lemma inv_new:
  assumes I: "inv rem {} X Y s"
  shows "inv rem {} X (insert (next_ptr s) Y) (s\<lparr>next_ptr := next_ptr s + 1,
    circuits := (circuits s)(next_ptr s \<mapsto> Live (fresh_circuit cid s)), global_circuitlist := global_circuitlist s @ [next_ptr s]\<rparr>)"
    (is "inv _ _ _ _ ?s")
proof -
  let ?i = "next_ptr s" and ?c = "fresh_circuit cid s"
  have none: "circuits s ?i = None" "live ?i s = None" using invD(1) [OF I] by (simp_all add: inv_mem_def live_def)
  have lv: "live j ?s = (if j = ?i then Some ?c else live j s)" for j by simp
  have views: "onq ?s = onq s" "wkq ?s = wkq s" "owner ?s = owner s" "job_of ?s = job_of s"
    using none by (auto simp: view_defs fun_eq_iff fresh_circuit_def)
  have dd: "dead ?s = dead s" using none by (auto simp: dead_def fun_eq_iff)
  have "inv_mem ?s" using invD(1) [OF I] by (auto simp: inv_mem_def Suc_le_eq)
  moreover have "inv_onions ?s" "inv_jobs ?s" "inv_works X ?s" "inv_options ?s"
    using invD(2-4,9) [OF I] unfolding inv_onions_def inv_jobs_def inv_works_def inv_options_def views dd by simp_all
  moreover have "circ_ok j d" if "live j ?s = Some d" for j d
    using that invD(10) [OF I, of j d] by (auto simp: circ_ok_def fresh_circuit_def split: if_splits)
  moreover have "inv_splice ?s"
    unfolding inv_splice_def
  proof (intro allI impI)
    fix j d k
    assume h: "live j ?s = Some d" "rend_splice d = Some k"
    then have j: "live j s = Some d" by (auto simp: fresh_circuit_def split: if_splits)
    then obtain e where "k \<noteq> j" "live k s = Some e" "rend_splice e = Some j"
      using invD(5) [OF I] h(2) unfolding inv_splice_def by blast
    then show "k \<noteq> j \<and> (\<exists>d. live k ?s = Some d \<and> rend_splice d = Some j)" using none(2) by auto
  qed
  moreover have "inv_list {} ?s"
  proof -
    have L: "distinct (global_circuitlist s)" "\<And>j. j \<in> set (global_circuitlist s) \<longleftrightarrow> live j s \<noteq> None"
      "\<And>j d. live j s = Some d \<Longrightarrow> arr_get (global_circuitlist s) (global_circuitlist_idx d) = Some j"
      using invD(6) [OF I] by (simp_all add: inv_list_def)
    have "arr_get (global_circuitlist ?s) (global_circuitlist_idx d) = Some j" if "live j ?s = Some d" for j d
    proof (cases "j = ?i")
      case True
      then have "global_circuitlist_idx d = int (length (global_circuitlist s))" using that by (auto simp: fresh_circuit_def)
      then show ?thesis using True by (simp add: arr_get_Some_iff nth_append)
    next
      case False
      then show ?thesis using L(3) [of j d] that by (auto simp: arr_get_Some_iff nth_append)
    qed
    moreover have "j \<in> set (global_circuitlist ?s) \<longleftrightarrow> live j ?s \<noteq> None" for j using L(2) [of j] by auto
    moreover have "distinct (global_circuitlist ?s)" using L(1) L(2) [of ?i] none(2) by simp
    ultimately show ?thesis unfolding inv_list_def by simp
  qed
  moreover have "inv_marked rem {} ?s"
    using invD(7) [OF I] none(2) unfolding inv_marked_def lv by (auto simp: fresh_circuit_def)
  moreover have "inv_kept (insert ?i Y) ?s"
    using invD(8) [OF I] unfolding inv_kept_def lv by auto
  ultimately show ?thesis by (simp add: inv_def)
qed

lemma marked_unexcept:
  assumes I: "inv (circuits_pending_close s) Z X {i} s" and c: "live i s = Some c"
  shows "\<exists>s'. circuit_mark_for_close i s = Some s' \<and> inv (circuits_pending_close s') Z X {} s' \<and> closing s' = closing s"
proof -
  obtain s' c' where m: "circuit_mark_for_close i s = Some s'" "inv (circuits_pending_close s') Z X {i} s'" "mark_frame s s'"
    "live i s' = Some c'" "marked_for_close c'" using mark_ok [OF I c] by blast
  have "inv (circuits_pending_close s') Z X {} s'" by (rule inv_unexcept [OF m(2)]) (simp add: m)
  moreover have "closing s' = closing s" using m(3) by (auto simp: mark_frame_def)
  ultimately show ?thesis using m(1) by blast
qed

lemma create_cell_parse_checked: "create_cell_parse cell = Some cc \<Longrightarrow> check_create_cell cc False"
  by (auto simp: create_cell_parse_def Let_def split: option.splits if_splits)

text \<open>What is done with a new circuit.\<close>

definition handle_create :: "reading \<Rightarrow> byte list option \<Rightarrow> cell \<Rightarrow> nat \<Rightarrow> relay \<Rightarrow> relay option" where
  "handle_create rd hs cell i t =
     (case create_cell_parse cell of
        None \<Rightarrow> circuit_mark_for_close i t
      | Some cc \<Rightarrow>
          (if handshake_type cc \<noteq> ONION_HANDSHAKE_TYPE_FAST then do {
             (ok, s) \<leftarrow> assign_onionskin_to_cpuworker rd i (Some cc) t;
             if ok then Some s else circuit_mark_for_close i s
           } else (case hs of
             None \<Rightarrow> circuit_mark_for_close i t
           | Some r \<Rightarrow> do {
               (ok, s) \<leftarrow> onionskin_answer True i (created_cell_of CELL_CREATED_FAST (of_nat (length r)) r) t;
               if ok then Some s else circuit_mark_for_close i s
             })))"

lemma handle_create_ok:
  assumes J: "inv (circuits_pending_close t) {} {} {i} t"
    and l: "live i t = Some c" "onionqueue_entry c = None" "workqueue_entry c = None"
      "c_state c = CIRCUIT_STATE_ONIONSKIN_PENDING" "\<not> marked_for_close c"
  shows "\<exists>s'. handle_create rd hs cell i t = Some s' \<and> inv (circuits_pending_close s') {} {} {} s' \<and> closing s' = closing t"
proof -
  note mark = marked_unexcept [OF J l(1)]
  show ?thesis
  proof (cases "create_cell_parse cell")
    case None
    then show ?thesis using mark by (simp add: handle_create_def)
  next
    case (Some cc)
    note chk = create_cell_parse_checked [OF Some]
    show ?thesis
    proof (cases "handshake_type cc = ONION_HANDSHAKE_TYPE_FAST")
      case False
      then have "request_ok cc" using chk by (simp add: request_ok_def)
      from J l(1-4) this show ?thesis
      proof (cases rule: assign_ok [where rd = rd])
        case 1
        then show ?thesis using mark Some False by (simp add: handle_create_def)
      next
        case (2 s')
        then show ?thesis using Some False by (simp add: handle_create_def)
      qed
    next
      case True
      show ?thesis
      proof (cases hs)
        case None
        then show ?thesis using mark Some True by (simp add: handle_create_def)
      next
        case (Some r)
        let ?cr = "created_cell_of CELL_CREATED_FAST (of_nat (length r)) r"
        have id: "t\<lparr>works := works t\<rparr> = t" by simp
        obtain ok s' c' where a0: "onionskin_answer True i ?cr t = Some (ok, s'\<lparr>works := works t\<rparr>)" "works s' = works t"
          and a1: "inv (circuits_pending_close s') {} {} (if ok then {} else {i}) s'" "closing s' = closing t" "live i s' = Some c'"
          using onionskin_answer_ok [OF J l(1-3,5,4), of ?cr "works t", unfolded id] by blast
        have "s'\<lparr>works := works t\<rparr> = s'" unfolding a0(2) [symmetric] by simp
        with a0(1) have "onionskin_answer True i ?cr t = Some (ok, s')" by metis
        note a = this a1
        show ?thesis
        proof (cases ok)
          case True
          then show ?thesis using a \<open>create_cell_parse cell = Some cc\<close> \<open>handshake_type cc = _\<close> Some by (simp add: handle_create_def)
        next
          case False
          then show ?thesis
            using a \<open>create_cell_parse cell = Some cc\<close> \<open>handshake_type cc = _\<close> Some marked_unexcept [of s' "{}" "{}" i c']
            by (simp add: handle_create_def)
        qed
      qed
    qed
  qed
qed

lemma create_ok:
  assumes I: "inv (circuits_pending_close s) {} {} {} s"
  shows "\<exists>r s'. command_process_create_cell rd env hs True cell s = Some (r, s') \<and>
    inv (circuits_pending_close s') {} {} {} s' \<and> closing s' = closing s"
proof -
  let ?i = "next_ptr s" and ?c = "fresh_circuit (circ_id cell) s"
  define t where "t = s\<lparr>next_ptr := next_ptr s + 1, circuits := (circuits s)(next_ptr s \<mapsto> Live ?c),
    global_circuitlist := global_circuitlist s @ [next_ptr s]\<rparr>"
  have J: "inv (circuits_pending_close t) {} {} {?i} t" using inv_new [OF I] by (simp add: t_def)
  have t: "closing t = closing s" by (simp add: t_def)
  have l: "live ?i t = Some ?c" "onionqueue_entry ?c = None" "workqueue_entry ?c = None"
    "c_state ?c = CIRCUIT_STATE_ONIONSKIN_PENDING" "\<not> marked_for_close ?c" by (simp_all add: t_def fresh_circuit_def)
  obtain s' where s': "handle_create rd hs cell ?i t = Some s'" "inv (circuits_pending_close s') {} {} {} s'" "closing s' = closing s"
    using handle_create_ok [OF J l, of rd hs cell] t by auto
  obtain s0 where new: "or_circuit_new (circ_id cell) s = (?i, s0)"
    "upd_circ ?i (c_state_update (\<lambda>_. CIRCUIT_STATE_ONIONSKIN_PENDING)) s0 = Some t"
    by (simp add: or_circuit_new_def Let_def upd_circ_def live_def fresh_circuit_def t_def)
  define high where "high \<longleftrightarrow> (if wide_circ_ids env then circ_id cell AND 2 ^ 31 else circ_id cell AND 2 ^ 15) \<noteq> 0"
  have "command_process_create_cell rd env hs True cell s =
     (if circ_id cell = 0 then Some (None, s)
         else if id_in_use env then Some (None, s)
         else if hibernating env then Some (Some 4, s)
         else if refuse_cell env then Some (Some 5, s)
         else if \<not> server_mode env \<or> (\<not> public_server_mode env \<and> chan_outgoing env) then Some (Some 1, s)
         else if high \<and> chan_circ_id_type env = CIRC_ID_TYPE_HIGHER \<or>
                 \<not> high \<and> chan_circ_id_type env = CIRC_ID_TYPE_LOWER then Some (Some 1, s)
         else Option.bind (handle_create rd hs cell ?i t) (\<lambda>s. Some (None, s)))"
    unfolding command_process_create_cell_def Let_def new(1) high_def handle_create_def by (simp add: new(2))
  with s' I show ?thesis by auto
qed

text \<open>Marking does not look at the channel.\<close>

definition cut_chan :: "nat \<Rightarrow> relay \<Rightarrow> relay" where
  "cut_chan i s = s\<lparr>circuits := (circuits s)(i \<mapsto> Live ((the (live i s))\<lparr>p_chan := False\<rparr>))\<rparr>"

lemma mark_cut_chan:
  assumes sp: "inv_splice s" and ok: "\<And>k c. live k s = Some c \<Longrightarrow> circ_ok k c" and c: "live i s = Some c"
  shows "circuit_mark_for_close i (cut_chan i s) = map_option (cut_chan i) (circuit_mark_for_close i s)"
proof (cases "rend_splice c")
  case None
  let ?c = "c\<lparr>p_chan := False\<rparr>"
  have a: "circuit_mark_for_close i s = (if marked_for_close c then Some s else
      Some (s\<lparr>circuits := (circuits s)(i \<mapsto> Live (c\<lparr>marked_for_close := True\<rparr>)), circuits_pending_close := circuits_pending_close s @ [i]\<rparr>))"
    unfolding circuit_mark_for_close.simps [of i s]
    using c None circ_ok_keys [OF ok [OF c]] by (simp add: assert_circuit_ok_def upd_circ_live)
  have cut: "cut_chan i s = s\<lparr>circuits := (circuits s)(i \<mapsto> Live ?c)\<rparr>" using c by (simp add: cut_chan_def)
  have b: "circuit_mark_for_close i (cut_chan i s) = (if marked_for_close c then Some (cut_chan i s) else
      Some (s\<lparr>circuits := (circuits s)(i \<mapsto> Live (?c\<lparr>marked_for_close := True\<rparr>)), circuits_pending_close := circuits_pending_close s @ [i]\<rparr>))"
    unfolding cut using c None circ_ok_keys [OF ok [OF c]] by (subst circuit_mark_for_close.simps) (simp add: assert_circuit_ok_def upd_circ_live)
  have "?c\<lparr>marked_for_close := True\<rparr> = c\<lparr>marked_for_close := True, p_chan := False\<rparr>" by simp
  then show ?thesis unfolding a b by (simp only: cut_chan_def live_circuits live_unchanged if_True option.sel option.map if_distrib relay.simps) simp
next
  case (Some j)
  obtain d where d: "j \<noteq> i" "live j s = Some d" "rend_splice d = Some i"
    using sp c Some unfolding inv_splice_def by blast
  have m: "\<not> marked_for_close c" "\<not> marked_for_close d" using ok [OF c] ok [OF d(2)] Some d(3) by (simp_all add: circ_ok_def)
  have keys: "keys_ok c" "keys_ok d" by (rule circ_ok_keys, rule ok, rule c d)+
  let ?c = "c\<lparr>p_chan := False\<rparr>" and ?d = "d\<lparr>marked_for_close := True, rend_splice := None\<rparr>"
  let ?s = "s\<lparr>circuits := (circuits s)(i \<mapsto> Live (c\<lparr>marked_for_close := True\<rparr>))\<rparr>"
  let ?t = "s\<lparr>circuits := (circuits s)(i \<mapsto> Live (?c\<lparr>marked_for_close := True\<rparr>))\<rparr>"
  have A: "circuit_mark_for_close j ?s = Some (?s\<lparr>circuits := (circuits ?s)(j \<mapsto> Live ?d), circuits_pending_close := circuits_pending_close ?s @ [j]\<rparr>)"
    using c d m keys Some by (intro mark_second [of _ _ _ i "c\<lparr>marked_for_close := True\<rparr>"]) simp_all
  have B: "circuit_mark_for_close j ?t = Some (?t\<lparr>circuits := (circuits ?t)(j \<mapsto> Live ?d), circuits_pending_close := circuits_pending_close ?t @ [j]\<rparr>)"
    using c d m keys Some by (intro mark_second [of _ _ _ i "?c\<lparr>marked_for_close := True\<rparr>"]) simp_all
  have a: "circuit_mark_for_close i s = Some (s\<lparr>circuits := (circuits s)(j \<mapsto> Live ?d, i \<mapsto> Live (c\<lparr>marked_for_close := True, rend_splice := None\<rparr>)),
      circuits_pending_close := circuits_pending_close s @ [j, i]\<rparr>)"
    unfolding circuit_mark_for_close.simps [of i s]
    using c d m keys Some A by (simp add: assert_circuit_ok_def upd_circ_live fun_upd_twist)
  have cut: "cut_chan i s = s\<lparr>circuits := (circuits s)(i \<mapsto> Live ?c)\<rparr>" using c by (simp add: cut_chan_def)
  have b: "circuit_mark_for_close i (cut_chan i s) = Some (s\<lparr>circuits := (circuits s)(j \<mapsto> Live ?d, i \<mapsto> Live (?c\<lparr>marked_for_close := True, rend_splice := None\<rparr>)),
      circuits_pending_close := circuits_pending_close s @ [j, i]\<rparr>)"
    unfolding cut using c d m keys Some B
    by (subst circuit_mark_for_close.simps) (simp add: assert_circuit_ok_def upd_circ_live fun_upd_twist)
  have com: "?c\<lparr>marked_for_close := True, rend_splice := None\<rparr> = c\<lparr>marked_for_close := True, rend_splice := None, p_chan := False\<rparr>"
    by simp
  show ?thesis unfolding a b com by (simp add: cut_chan_def)
qed

lemma cut_mark_ok:
  assumes I: "inv (circuits_pending_close s) {} {} {} s" and c: "live i s = Some c"
  shows "\<exists>s'. circuit_mark_for_close i (cut_chan i s) = Some s' \<and> inv (circuits_pending_close s') {} {} {} s' \<and> closing s' = closing s \<and>
    (\<forall>k. live k s \<noteq> None \<longrightarrow> live k s' \<noteq> None)"
proof -
  obtain s' c' where m: "circuit_mark_for_close i s = Some s'" "inv (circuits_pending_close s') {} {} {} s'" "mark_frame s s'"
    "live i s' = Some c'" "marked_for_close c'" using mark_ok [OF I c] by blast
  have "circ_ok i (c'\<lparr>p_chan := False\<rparr>)" using invD(10) [OF m(2,4)] m(5) by (simp add: circ_ok_def)
  then have "inv (circuits_pending_close s') {} {} ({} - {i}) (s'\<lparr>circuits := (circuits s')(i \<mapsto> Live (c'\<lparr>p_chan := False\<rparr>))\<rparr>)"
    by (intro inv_one(2) [OF m(2,4)]) (simp_all add: m)
  then have "inv (circuits_pending_close (cut_chan i s')) {} {} {} (cut_chan i s')" by (simp add: cut_chan_def m)
  moreover have "closing (cut_chan i s') = closing s" using m(3) by (auto simp: mark_frame_def cut_chan_def)
  moreover have "live k (cut_chan i s') \<noteq> None" if "live k s \<noteq> None" for k
    using mark_frame_views(4) [OF m(3), of k] that by (simp add: cut_chan_def)
  ultimately show ?thesis
    using mark_cut_chan [OF invD(5) [OF I] invD(10) [OF I] c] m(1) by auto
qed

lemma upd_cut: "live i s = Some c \<Longrightarrow> upd_circ i (p_chan_update (\<lambda>_. False)) s = Some (cut_chan i s)"
  by (simp add: upd_circ_live cut_chan_def)

lemma unlink_ok:
  assumes "inv (circuits_pending_close s) {} {} {} s" "\<forall>i \<in> set l. live i s \<noteq> None"
  shows "\<exists>s'. circuit_unlink_all_from_channel l s = Some s' \<and> inv (circuits_pending_close s') {} {} {} s' \<and> closing s' = closing s"
  using assms
proof (induction l arbitrary: s)
  case (Cons i l)
  obtain c where c: "live i s = Some c" using Cons.prems(2) by auto
  let ?t = "cut_chan i s"
  have lt: "live k ?t = (if k = i then Some (c\<lparr>p_chan := False\<rparr>) else live k s)" for k using c by (simp add: cut_chan_def)
  obtain s1 where s1: "(if marked_for_close c then Some ?t else circuit_mark_for_close i ?t) = Some s1"
    "inv (circuits_pending_close s1) {} {} {} s1" "closing s1 = closing s" "\<forall>k. live k s \<noteq> None \<longrightarrow> live k s1 \<noteq> None"
  proof (cases "marked_for_close c")
    case True
    have "circ_ok i (c\<lparr>p_chan := False\<rparr>)" using invD(10) [OF Cons.prems(1) c] True by (simp add: circ_ok_def)
    then have "inv (circuits_pending_close s) {} {} ({} - {i}) (s\<lparr>circuits := (circuits s)(i \<mapsto> Live (c\<lparr>p_chan := False\<rparr>))\<rparr>)"
      by (intro inv_one(2) [OF Cons.prems(1) c]) (simp_all add: True)
    then have "inv (circuits_pending_close ?t) {} {} {} ?t" "closing ?t = closing s" using c by (simp_all add: cut_chan_def)
    then show thesis using that [of ?t] True by (simp add: lt)
  next
    case False
    then show thesis using cut_mark_ok [OF Cons.prems(1) c] that by auto
  qed
  have "circuit_unlink_all_from_channel (i # l) s = circuit_unlink_all_from_channel l s1"
    using s1(1) c by (simp add: upd_cut lt)
  moreover have "\<forall>k \<in> set l. live k s1 \<noteq> None" using Cons.prems(2) s1(4) by auto
  ultimately show ?case using Cons.IH [OF s1(2)] s1(3) by auto
qed simp

lemma join_ok:
  assumes I: "inv rem {} {} {} s" and ij: "i \<noteq> j" "unmarked_open i s" "unmarked_open j s"
  shows "\<exists>s'. rend_mid_join i j s = Some s' \<and> inv rem {} {} {} s' \<and> closing s' = closing s \<and>
    circuits_pending_close s' = circuits_pending_close s"
proof -
  obtain c d where c: "live i s = Some c" "\<not> marked_for_close c" "c_state c = CIRCUIT_STATE_OPEN" "rend_splice c = None"
    and d: "live j s = Some d" "\<not> marked_for_close d" "c_state d = CIRCUIT_STATE_OPEN" "rend_splice d = None"
    using ij(2,3) by (auto simp: unmarked_open_def split: option.splits)
  let ?c = "c\<lparr>rend_splice := Some j\<rparr>" and ?d = "d\<lparr>rend_splice := Some i\<rparr>"
  let ?s = "s\<lparr>circuits := (circuits s)(j \<mapsto> Live ?d, i \<mapsto> Live ?c)\<rparr>"
  have call: "rend_mid_join i j s = Some ?s" using c(1) d(1) ij(1) by (simp add: rend_mid_join_def upd_circ_live)
  have lv: "live k ?s = (if k = i then Some ?c else if k = j then Some ?d else live k s)" for k by simp
  have proj: "\<exists>e q. live k s = Some e \<and> e' = e\<lparr>rend_splice := q\<rparr>" if e': "live k ?s = Some e'" for k e'
  proof -
    consider "k = i" | "k \<noteq> i" "k = j" | "k \<noteq> i" "k \<noteq> j" by blast
    then show ?thesis
    proof cases
      case 1
      then show ?thesis using e' c(1) by (intro exI [of _ c] exI [of _ "Some j"]) simp
    next
      case 2
      then show ?thesis using e' d(1) by (intro exI [of _ d] exI [of _ "Some i"]) simp
    next
      case 3
      then show ?thesis using e' by (intro exI [of _ e'] exI [of _ "rend_splice e'"]) simp
    qed
  qed
  have some: "live k ?s = None \<longleftrightarrow> live k s = None" for k using c d by simp
  have views: "onq ?s = onq s" "wkq ?s = wkq s" "owner ?s = owner s" "job_of ?s = job_of s"
    using c d by (auto simp: view_defs fun_eq_iff)
  have dd: "dead ?s = dead s" using c d by (auto simp: dead_def live_Some fun_eq_iff)
  have "inv_mem ?s" using invD(1) [OF I] c d by (auto simp: inv_mem_def live_Some)
  moreover have "inv_onions ?s" "inv_jobs ?s" "inv_works {} ?s" "inv_options ?s"
    using invD(2-4,9) [OF I] unfolding inv_onions_def inv_jobs_def inv_works_def inv_options_def views dd by simp_all
  moreover have "circ_ok i ?c" "circ_ok j ?d"
    using c d invD(10) [OF I c(1)] invD(10) [OF I d(1)] by (simp_all add: circ_ok_def)
  then have "circ_ok k e" if "live k ?s = Some e" for k e
    using that invD(10) [OF I, of k e] by (auto split: if_splits)
  moreover have "inv_splice ?s"
    unfolding inv_splice_def
  proof (intro allI impI)
    fix k e h
    assume h: "live k ?s = Some e" "rend_splice e = Some h"
    show "h \<noteq> k \<and> (\<exists>d. live h ?s = Some d \<and> rend_splice d = Some k)"
    proof (cases "k = i \<or> k = j")
      case True
      then show ?thesis using h ij(1) by auto
    next
      case False
      then have "live k s = Some e" using h(1) by simp
      then obtain f where "h \<noteq> k" "live h s = Some f" "rend_splice f = Some k"
        using invD(5) [OF I] h(2) unfolding inv_splice_def by blast
      then show ?thesis using c d by auto
    qed
  qed
  moreover have "inv_list {} ?s"
  proof -
    have "arr_get (global_circuitlist s) (global_circuitlist_idx e') = Some k" if "live k ?s = Some e'" for k e'
      using proj [OF that] invD(6) [OF I] by (auto simp: inv_list_def)
    then show ?thesis using invD(6) [OF I] unfolding inv_list_def some by simp
  qed
  moreover have "inv_marked rem {} ?s"
  proof -
    have "(\<exists>e. live k ?s = Some e \<and> marked_for_close e) \<longleftrightarrow> (\<exists>e. live k s = Some e \<and> marked_for_close e)" for k
      using c d by (cases "k = i"; cases "k = j") simp_all
    then show ?thesis using invD(7) [OF I] unfolding inv_marked_def by blast
  qed
  moreover have "inv_kept {} ?s"
    using invD(8) [OF I] c d unfolding inv_kept_def by (auto split: if_splits)
  ultimately show ?thesis using call by (simp add: inv_def)
qed

end
