(* ===== verification/Handshakes_Correct.thy ===== *)
theory Handshakes_Correct
  imports Handshakes_Safe
begin

text \<open>
  The theorems about handshakes: no interleaving of the main thread with the workers fails an assertion or uses freed
  memory, the counters are exact and no circuit is forgotten; shutting down with onionskins in the queue
  writes to freed memory; TAP handshakes are not starved, and elderly requests are culled.
\<close>

section \<open>Guarded systems\<close>

text \<open>
  A system whose events fail with \<open>None\<close>. The contract: a predicate that holds at first and that every enabled event
  keeps, without failing.
\<close>

locale guarded_system =
  fixes start :: 's
    and guard :: "'e \<Rightarrow> 's \<Rightarrow> bool"
    and act :: "'e \<Rightarrow> 's \<Rightarrow> 's option"
    and safe :: "'s \<Rightarrow> bool"
  assumes start_safe: "safe start"
    and act_safe: "safe s \<Longrightarrow> guard ev s \<Longrightarrow> \<exists>s'. act ev s = Some s' \<and> safe s'"
begin

inductive reach :: "'s \<Rightarrow> bool" where
  start: "reach start"
| step: "reach s \<Longrightarrow> guard ev s \<Longrightarrow> act ev s = Some s' \<Longrightarrow> reach s'"

lemma reach_safe: "reach s \<Longrightarrow> safe s"
proof (induction rule: reach.induct)
  case start
  then show ?case by (rule start_safe)
next
  case (step s ev s')
  then show ?case using act_safe by fastforce
qed

lemma reach_defined: "reach s \<Longrightarrow> guard ev s \<Longrightarrow> \<exists>s'. act ev s = Some s' \<and> reach s'"
  using act_safe [OF reach_safe] reach.step by blast

primrec run :: "'e list \<Rightarrow> 's \<Rightarrow> 's option" where
  "run [] s = Some s"
| "run (ev # evs) s = (if guard ev s then Option.bind (act ev s) (run evs) else None)"

lemma run_reach: "reach s \<Longrightarrow> run evs s = Some s' \<Longrightarrow> reach s'"
proof (induction evs arbitrary: s)
  case (Cons ev evs)
  then show ?case using reach_defined [OF Cons.prems(1), of ev] by (auto split: if_splits simp: bind_eq_Some_conv intro: reach.step)
qed simp

end

section \<open>Every step is safe\<close>

definition relay_safe :: "relay \<Rightarrow> bool" where
  "relay_safe s \<longleftrightarrow> inv (case closing s of None \<Rightarrow> circuits_pending_close s | Some rem \<Rightarrow> rem) {} {} {} s"

lemma init_safe: "relay_safe init_relay"
proof -
  have l: "live i init_relay = None" for i by (simp add: live_def init_relay_def cpu_init_def)
  have v: "owner init_relay = Map.empty" "onq init_relay = Map.empty" "wkq init_relay = Map.empty" "job_of init_relay = Map.empty"
    "dead init_relay = (\<lambda>_. False)"
    by (auto simp: view_defs l fun_eq_iff) (simp_all add: init_relay_def cpu_init_def)
  show ?thesis
    unfolding relay_safe_def inv_def inv_mem_def inv_onions_def inv_works_def inv_jobs_def inv_splice_def inv_list_def inv_marked_def
      inv_kept_def inv_options_def l v
    by (simp add: init_relay_def cpu_init_def)
qed

lemma state_ok:
  assumes I: "inv rem {} {} {} s" and c: "live i s = Some c" "c_state c \<in> {CIRCUIT_STATE_OPEN, CIRCUIT_STATE_CHAN_WAIT}"
    "st \<in> {CIRCUIT_STATE_OPEN, CIRCUIT_STATE_CHAN_WAIT}"
  shows "\<exists>s'. upd_circ i (c_state_update (\<lambda>_. st)) s = Some s' \<and> inv rem {} {} {} s' \<and> closing s' = closing s \<and>
    circuits_pending_close s' = circuits_pending_close s"
proof -
  let ?c = "c\<lparr>c_state := st\<rparr>"
  have "circ_ok i ?c" using invD(10) [OF I c(1)] c(2,3) by (auto simp: circ_ok_def)
  then have "inv rem {} {} ({} - {i}) (s\<lparr>circuits := (circuits s)(i \<mapsto> Live ?c)\<rparr>)"
    by (intro inv_one(2) [OF I c(1)]) (use c(3) in auto)
  then show ?thesis using c(1) by (simp add: upd_circ_live)
qed

lemma other_ok:
  assumes I: "inv rem {} {} {} s" and p: "prio \<le> 2"
  shows "\<exists>s'. map_option snd (threadpool_queue_work_priority prio Other_job s) = Some s' \<and> inv rem {} {} {} s' \<and>
    closing s' = closing s \<and> circuits_pending_close s' = circuits_pending_close s"
proof -
  let ?s = "put_work prio Other_job s"
  have fresh: "works s (next_ptr s) = None" using invD(1) [OF I] by (simp add: inv_mem_def)
  have lv: "live i ?s = live i s" for i by (simp add: put_work_def)
  have views: "onq ?s = onq s" "wkq ?s = wkq s" "owner ?s = owner s" "job_of ?s = job_of s" "dead ?s = dead s"
    using fresh by (auto simp: view_defs put_work_def fun_eq_iff)
  have "inv_works {} ?s" by (rule inv_works_put [OF invD(3) [OF I] invD(1) [OF I]]) (simp add: arg_ok_def)
  moreover have "inv_mem ?s" using invD(1) [OF I] by (auto simp: inv_mem_def put_work_def Suc_le_eq)
  moreover have "inv_onions ?s" using invD(2) [OF I] unfolding inv_onions_def views by (simp add: put_work_def)
  moreover have "inv_jobs ?s"
    using invD(4) [OF I] fresh unfolding inv_jobs_def views by (auto simp: put_work_def job_of_def split: if_splits)
  moreover have "inv_splice ?s" "inv_list {} ?s" "inv_marked rem {} ?s" "inv_kept {} ?s"
    using invD(5-8) [OF I] unfolding inv_splice_def inv_list_def inv_marked_def inv_kept_def lv by (simp_all add: put_work_def)
  moreover have "inv_options ?s" using invD(9) [OF I] by (simp add: inv_options_def put_work_def)
  ultimately have "inv rem {} {} {} ?s" using invD(10) [OF I] lv by (simp add: inv_def)
  then show ?thesis using p by (simp add: queue_work_puts) (simp add: put_work_def)
qed

lemma options_ok:
  assumes "inv rem {} {} {} s" "1 \<le> num_cpus opts" "num_cpus opts * 64 < 2 ^ 31"
  shows "inv rem {} {} {} (cpu_init (s\<lparr>options := opts\<rparr>))"
proof -
  let ?s = "s\<lparr>options := opts\<rparr>"
  have views: "onq ?s = onq s" "wkq ?s = wkq s" "owner ?s = owner s" "job_of ?s = job_of s" "dead ?s = dead s"
    by (simp_all add: view_defs fun_eq_iff)
  have "inv rem {} {} {} ?s"
    using assms unfolding inv_parts views by simp
  then show ?thesis by (simp add: cpu_init_def)
qed

lemma exec_safe:
  assumes S: "relay_safe s" and g: "enabled ev s"
  shows "\<exists>s'. exec ev s = Some s' \<and> relay_safe s'"
proof -
  have I: "inv (circuits_pending_close s) {} {} {} s" if "closing s = None" using S that by (simp add: relay_safe_def)
  have keep: "relay_safe s'" if "inv (circuits_pending_close s') {} {} {} s'" "closing s' = closing s" "closing s = None" for s'
    using that by (simp add: relay_safe_def)
  show ?thesis
  proof (cases ev)
    case (Ev_create rd env hs init_ok cell)
    then show ?thesis using create_ok [OF I, of rd env hs cell] g keep by fastforce
  next
    case (Ev_mark i)
    then obtain c where c: "live i s = Some c" "closing s = None" using g by auto
    obtain s' where "circuit_mark_for_close i s = Some s'" "inv (circuits_pending_close s') {} {} {} s'" "mark_frame s s'"
      using mark_ok [OF I [OF c(2)] c(1)] by blast
    moreover have "closing s' = closing s" using \<open>mark_frame s s'\<close> by (auto simp: mark_frame_def)
    ultimately show ?thesis using keep c(2) Ev_mark by simp
  next
    case (Ev_destroy i)
    then obtain c where c: "live i s = Some c" "closing s = None" using g by auto
    show ?thesis using cut_mark_ok [OF I [OF c(2)] c(1)] keep c Ev_destroy
      by (auto simp: command_process_destroy_cell_def upd_cut)
  next
    case (Ev_unlink l)
    then show ?thesis using unlink_ok [OF I, of l] g keep by (fastforce simp: list_all_iff)
  next
    case (Ev_join i j)
    then show ?thesis using join_ok [OF I, of i j] g keep by fastforce
  next
    case (Ev_state i st)
    then show ?thesis using state_ok [OF I, of i _ st] g keep by (fastforce split: option.splits)
  next
    case (Ev_other prio)
    then show ?thesis using other_ok [OF I, of prio] g keep by fastforce
  next
    case (Ev_options opts)
    then have "inv (circuits_pending_close s) {} {} {} (cpu_init (s\<lparr>options := opts\<rparr>))" using options_ok [OF I] g by simp
    then show ?thesis using g Ev_options by (simp add: relay_safe_def cpu_init_def)
  next
    case (Ev_reply rd init_ok)
    then show ?thesis using reply_ok [OF I, of rd] g keep by fastforce
  next
    case Ev_close_begin
    then show ?thesis using I g by (simp add: relay_safe_def)
  next
    case Ev_close_next
    then obtain i r where c: "closing s = Some (i # r)" using g by (auto split: option.splits list.splits)
    then have "inv (i # r) {} {} {} s" using S by (simp add: relay_safe_def)
    then obtain s' where "circuit_close_marked i s = Some s'" "inv r {} {} {} s'" using close_marked_ok by blast
    then show ?thesis using c Ev_close_next by (simp add: relay_safe_def)
  next
    case Ev_close_end
    then show ?thesis using S g by (simp add: relay_safe_def)
  next
    case (Ev_extract rnd)
    then show ?thesis using extract_ok [OF S [unfolded relay_safe_def], of rnd] by (auto simp: relay_safe_def split: option.splits)
  next
    case (Ev_work e hs usec)
    then show ?thesis using work_ok [OF S [unfolded relay_safe_def], of e hs usec] g by (auto simp: relay_safe_def split: option.splits)
  qed
qed

interpretation handshakes: guarded_system init_relay enabled exec relay_safe
  by unfold_locales (rule init_safe, rule exec_safe)

lemma relay_reachable_reach: "relay_reachable s \<longleftrightarrow> handshakes.reach s"
proof
  show "relay_reachable s \<Longrightarrow> handshakes.reach s"
    by (induction rule: relay_reachable.induct) (auto intro: handshakes.reach.intros)
  show "handshakes.reach s \<Longrightarrow> relay_reachable s"
    by (induction rule: handshakes.reach.induct) (auto intro: relay_reachable.intros)
qed

lemmas relay_reachable_safe = handshakes.reach_safe [folded relay_reachable_reach]

section \<open>Shutting down\<close>

text \<open>The state of the loop of \<^verbatim>\<open>circuit_free_all\<close>: the circuits left are the live ones.\<close>

definition only_live :: "nat list \<Rightarrow> relay \<Rightarrow> bool" where
  "only_live l s \<longleftrightarrow> distinct l \<and> (\<forall>i. i \<in> set l \<longleftrightarrow> live i s \<noteq> None) \<and> inv_splice s"

lemma free_one:
  assumes L: "only_live (i # l) s"
  obtains s' where "free_circuits (i # l) s = free_circuits (if l = [] then [] else last l # butlast l) s'"
    "only_live (if l = [] then [] else last l # butlast l) s'" "onions s' = onions s" "ol_list s' = ol_list s"
proof -
  have d: "distinct (i # l)" and lv: "\<And>k. k \<in> set (i # l) \<longleftrightarrow> live k s \<noteq> None" and sp: "inv_splice s"
    using L by (auto simp: only_live_def)
  obtain c where c: "live i s = Some c" using lv [of i] by auto
  define c1 where "c1 = c\<lparr>global_circuitlist_idx := -1, p_chan := False\<rparr>"
  define m where "m = (circuits s)(i \<mapsto> Live c1)"
  define m1 where "m1 = (case rend_splice c of None \<Rightarrow> m
    | Some j \<Rightarrow> m(j \<mapsto> Live ((the (live j s))\<lparr>rend_splice := None\<rparr>)))"
  define s' where "s' = s\<lparr>circuits := m1(i := (if workqueue_entry c = None then None else Some Dead))\<rparr>"
  have partner: "j \<noteq> i \<and> (\<exists>e. live j s = Some e \<and> rend_splice e = Some i)" if "rend_splice c = Some j" for j
    using sp c that by (auto simp: inv_splice_def)
  have "circuit_free i (s\<lparr>circuits := m\<rparr>) = Some s'"
    using partner
    by (cases "rend_splice c")
      (auto simp: circuit_free_def m_def m1_def s'_def c1_def upd_circ_live Let_def)
  moreover have "free_circuits (i # l) s = Option.bind (circuit_free i (s\<lparr>circuits := m\<rparr>))
      (free_circuits (if l = [] then [] else last l # butlast l))"
    using c by (simp add: upd_circ_live m_def c1_def)
  ultimately have call: "free_circuits (i # l) s = free_circuits (if l = [] then [] else last l # butlast l) s'" by simp
  have lv': "live k s' = (if k = i then None else if rend_splice c = Some k then
      map_option (rend_splice_update (\<lambda>_. None)) (live k s) else live k s)" for k
    using partner by (cases "rend_splice c") (auto simp: s'_def m1_def m_def)
  have spl: "inv_splice s'"
    unfolding inv_splice_def
  proof (intro allI impI)
    fix k e h
    assume k: "live k s' = Some e" "rend_splice e = Some h"
    then have ki: "k \<noteq> i" "rend_splice c \<noteq> Some k" "live k s = Some e" by (auto simp: lv' split: if_splits)
    then obtain f where f: "h \<noteq> k" "live h s = Some f" "rend_splice f = Some k"
      using sp k(2) unfolding inv_splice_def by blast
    moreover have "h \<noteq> i" using f ki(2) c by auto
    moreover have "rend_splice c \<noteq> Some h" using partner [of h] f ki(1) by auto
    ultimately show "h \<noteq> k \<and> (\<exists>d. live h s' = Some d \<and> rend_splice d = Some k)" by (simp add: lv')
  qed
  let ?l = "if l = [] then [] else last l # butlast l"
  have rot: "distinct ?l" "set ?l = set l"
    using d by (cases l rule: rev_cases; auto)+
  have "k \<in> set ?l \<longleftrightarrow> live k s' \<noteq> None" for k
    using lv [of k] d unfolding rot(2) by (auto simp: lv')
  then have "only_live ?l s'" using rot(1) spl by (simp add: only_live_def)
  then show thesis using that [OF call] by (simp add: s'_def)
qed

lemma free_circuits_ok:
  "only_live l s \<Longrightarrow> \<exists>s'. free_circuits l s = Some s' \<and> (\<forall>i. live i s' = None) \<and> onions s' = onions s \<and> ol_list s' = ol_list s"
proof (induction "length l" arbitrary: l s)
  case 0
  then show ?case by (auto simp: only_live_def)
next
  case (Suc n)
  then obtain i r where l: "l = i # r" "length r = n" by (cases l) auto
  show ?case
  proof (rule free_one [OF Suc.prems [unfolded l(1)]])
    fix s'
    assume h: "free_circuits (i # r) s = free_circuits (if r = [] then [] else last r # butlast r) s'"
      "only_live (if r = [] then [] else last r # butlast r) s'" "onions s' = onions s" "ol_list s' = ol_list s"
    have "n = length (if r = [] then [] else last r # butlast r)" using l(2) by auto
    from Suc.hyps(1) [OF this h(2)] show ?case unfolding l(1) h(1) h(3,4) [symmetric] .
  qed
qed

lemma clear_lists_empty: "\<forall>t. ol_list s t = [] \<Longrightarrow> clear_lists ts s = Some s"
  by (induction ts) simp_all

lemma remove_orphan: "live (oq_circ v) s = None \<Longrightarrow> onions s e = Some v \<Longrightarrow> oq_type v \<le> MAX_ONION_HANDSHAKE_TYPE \<Longrightarrow>
    onion_queue_entry_remove e s = None"
  by (simp add: onion_queue_entry_remove_def Let_def upd_circ_def check_def)

text \<open>Without circuits, the first entry of a list cannot be removed.\<close>

lemma clear_lists_fails:
  assumes "\<forall>i. live i s = None" "\<forall>t e. e \<in> set (ol_list s t) \<longrightarrow> (\<exists>v. onions s e = Some v \<and> oq_type v \<le> MAX_ONION_HANDSHAKE_TYPE)"
    "\<exists>t \<in> set ts. ol_list s t \<noteq> []"
  shows "clear_lists ts s = None"
  using assms(3)
proof (induction ts)
  case (Cons t ts)
  show ?case
  proof (cases "ol_list s t")
    case Nil
    then show ?thesis using Cons by simp
  next
    case (Cons e r)
    then obtain v where "onions s e = Some v" "oq_type v \<le> MAX_ONION_HANDSHAKE_TYPE" using assms(2) by (metis list.set_intros(1))
    then show ?thesis using remove_orphan [of v s e] assms(1) Cons by simp
  qed
qed simp

lemma relay_inv:
  assumes "relay_reachable s"
  obtains rem where "inv rem {} {} {} s" "closing s = None \<Longrightarrow> rem = circuits_pending_close s"
  using relay_reachable_safe [OF assms] that by (auto simp: relay_safe_def split: option.splits)

section \<open>Handing out tasks\<close>

text \<open>Tasks taken from the queue, one after the other.\<close>

primrec take_tasks :: "nat \<Rightarrow> relay \<Rightarrow> relay option" where
  "take_tasks 0 s = Some s"
| "take_tasks (Suc n) s = Option.bind (onion_next_task s) (\<lambda>(_, s). take_tasks n s)"

lemma decide_between:
  assumes "inv_onions s" "ol_list s ONION_HANDSHAKE_TYPE_TAP \<noteq> []" "num_ntors_per_tap s = Some k"
  shows "ol_list s ONION_HANDSHAKE_TYPE_NTOR = [] \<Longrightarrow>
      decide_next_handshake_type s = Some (ONION_HANDSHAKE_TYPE_TAP, s\<lparr>recently_chosen_ntors := recently_chosen_ntors s\<rparr>)"
    and "ol_list s ONION_HANDSHAKE_TYPE_NTOR \<noteq> [] \<Longrightarrow> k \<le> recently_chosen_ntors s \<Longrightarrow>
      decide_next_handshake_type s = Some (ONION_HANDSHAKE_TYPE_TAP, s\<lparr>recently_chosen_ntors := 0\<rparr>)"
    and "ol_list s ONION_HANDSHAKE_TYPE_NTOR \<noteq> [] \<Longrightarrow> recently_chosen_ntors s < k \<Longrightarrow>
      decide_next_handshake_type s = Some (ONION_HANDSHAKE_TYPE_NTOR, s\<lparr>recently_chosen_ntors := recently_chosen_ntors s + 1\<rparr>)"
  using assms by (simp_all add: decide_next_handshake_type_def inv_onions_def Let_def)

lemma num_ntors_options: "options s' = options s \<Longrightarrow> num_ntors_per_tap s' = num_ntors_per_tap s"
  by (simp add: num_ntors_per_tap_def)

lemma tap_now:
  assumes I: "inv rem Z X Y s" and l: "ol_list s ONION_HANDSHAKE_TYPE_TAP = e # r" and v: "onions s e = Some v"
    and d: "decide_next_handshake_type s = Some (ONION_HANDSHAKE_TYPE_TAP, s\<lparr>recently_chosen_ntors := a\<rparr>)" "0 \<le> a"
  shows "\<exists>s' cc. onion_next_task s = Some (Some (oq_circ v, Some cc), s')"
  by (rule next_task_head [OF I d l]) (use v in auto)

lemma tap_within:
  assumes "inv rem Z X Y s" "ol_list s ONION_HANDSHAKE_TYPE_TAP = e # r" "onions s e = Some v" "num_ntors_per_tap s = Some k"
  shows "\<exists>n s' s'' cc. n \<le> nat (k - recently_chosen_ntors s) \<and> take_tasks n s = Some s' \<and>
    onion_next_task s' = Some (Some (oq_circ v, Some cc), s'')"
  using assms
proof (induction "nat (k - recently_chosen_ntors s)" arbitrary: s Y rule: less_induct)
  case (less s)
  note I = less.prems(1) and l = less.prems(2) and k = less.prems(4)
  have r0: "0 \<le> recently_chosen_ntors s" using invD(9) [OF I] by (simp add: inv_options_def)
  have ne: "ONION_HANDSHAKE_TYPE_TAP \<noteq> ONION_HANDSHAKE_TYPE_NTOR" by (simp add: handshake_types)
  have tl: "ol_list s ONION_HANDSHAKE_TYPE_TAP \<noteq> []" by (simp add: l)
  note choose = decide_between [OF invD(2) [OF I] tl k]
  consider a where "decide_next_handshake_type s = Some (ONION_HANDSHAKE_TYPE_TAP, s\<lparr>recently_chosen_ntors := a\<rparr>)" "0 \<le> a"
    | f q where "ol_list s ONION_HANDSHAKE_TYPE_NTOR = f # q" "recently_chosen_ntors s < k"
  proof (cases "ol_list s ONION_HANDSHAKE_TYPE_NTOR")
    case Nil
    show thesis by (rule that(1) [OF choose(1) [OF Nil] r0])
  next
    case (Cons f q)
    then have ne: "ol_list s ONION_HANDSHAKE_TYPE_NTOR \<noteq> []" by simp
    show thesis
    proof (cases "recently_chosen_ntors s < k")
      case True
      then show thesis by (rule that(2) [OF Cons])
    next
      case False
      then show thesis using that(1) [OF choose(2) [OF ne]] by simp
    qed
  qed
  then show ?case
  proof cases
    case 1
    then show ?thesis using tap_now [OF I l less.prems(3) 1] by (intro exI [of _ 0]) auto
  next
    case 2
    then have d: "decide_next_handshake_type s = Some (ONION_HANDSHAKE_TYPE_NTOR,
        s\<lparr>recently_chosen_ntors := recently_chosen_ntors s + 1\<rparr>)" "0 \<le> recently_chosen_ntors s + 1"
      using choose(3) r0 by auto
    show ?thesis
    proof (rule next_task_head [OF I d 2(1)])
      fix w cc c s'
      assume h: "onions s f = Some w" "onion_next_task s = Some (Some (oq_circ w, Some cc), s')"
        "inv rem Z X (insert (oq_circ w) Y) s'" "oq_type w = ONION_HANDSHAKE_TYPE_NTOR"
        "s' = drop_onion f w (the (live (oq_circ w) s)) (s\<lparr>recently_chosen_ntors := recently_chosen_ntors s + 1\<rparr>)"
      have ty: "map_option oq_type (onions s x) = Some t'" if "x \<in> set (ol_list s t')" for x t'
        using invD(2) [OF I] that by (simp only: inv_onions_def)
      have "f \<noteq> e" using ty [of e ONION_HANDSHAKE_TYPE_TAP] ty [of f ONION_HANDSHAKE_TYPE_NTOR] l 2(1) ne by auto
      then have s': "ol_list s' ONION_HANDSHAKE_TYPE_TAP = e # r" "onions s' e = Some v" "num_ntors_per_tap s' = Some k"
        "recently_chosen_ntors s' = recently_chosen_ntors s + 1"
        using h(4) l ne less.prems(3) k num_ntors_options [of s' s] by (simp_all add: h(5) drop_onion_def)
      then have "nat (k - recently_chosen_ntors s') < nat (k - recently_chosen_ntors s)" using 2(2) by simp
      from less.hyps [OF this h(3) s'(1-3)] obtain n s1 s2 cd where
        "n \<le> nat (k - recently_chosen_ntors s')" "take_tasks n s' = Some s1" "onion_next_task s1 = Some (Some (oq_circ v, Some cd), s2)"
        by blast
      then show ?thesis using h(2) s'(4) 2(2) by (intro exI [of _ "Suc n"]) auto
    qed
  qed
qed

section \<open>A busy relay\<close>

text \<open>CREATE cells that a public relay accepts, with a TAP onionskin.\<close>

definition tap_cell :: cell where
  "tap_cell = \<lparr>circ_id = 7, command = CELL_CREATE, payload = replicate CELL_PAYLOAD_SIZE 0\<rparr>"

definition public_relay :: create_env where
  "public_relay = \<lparr>id_in_use = False, hibernating = False, refuse_cell = False, server_mode = True, public_server_mode = True,
     chan_outgoing = False, wide_circ_ids = True, chan_circ_id_type = CIRC_ID_TYPE_NEITHER\<rparr>"

definition quiet_clock :: reading where
  "quiet_clock = \<lparr>now = 1000, usec_of = \<lambda>_. 0, lucky = \<lambda>_. False\<rparr>"

lemma tap_cell_parse: "\<exists>cc. create_cell_parse tap_cell = Some cc \<and> handshake_type cc = ONION_HANDSHAKE_TYPE_TAP"
proof -
  have "hd (replicate 16 0) \<noteq> hd NTOR_CREATE_MAGIC" by (simp add: NTOR_CREATE_MAGIC_def)
  then have "replicate 16 0 \<noteq> NTOR_CREATE_MAGIC" by metis
  then show ?thesis
    by (simp add: create_cell_parse_def tap_cell_def cell_commands handshake_types handshake_lengths create_cell_init_def
        check_create_cell_def CELL_PAYLOAD_SIZE_def)
qed

definition create_tap :: "relay \<Rightarrow> relay option" where
  "create_tap s = exec (Ev_create quiet_clock public_relay None True tap_cell) s"

lemma create_tap_assigns: "\<exists>cc i. create_tap s = map_option snd (Option.bind
    (Option.bind (assign_onionskin_to_cpuworker quiet_clock (next_ptr s) (Some cc)
      (s\<lparr>next_ptr := next_ptr s + 1, global_circuitlist := global_circuitlist s @ [next_ptr s],
         circuits := (circuits s)(next_ptr s \<mapsto> Live \<lparr>c_state = CIRCUIT_STATE_ONIONSKIN_PENDING, marked_for_close = False,
           p_chan = True, p_circ_id = 7, crypto = False, rend_splice = None, onionqueue_entry = None, workqueue_entry = None,
           global_circuitlist_idx = int (length (global_circuitlist s))\<rparr>)\<rparr>))
      (\<lambda>(ok, s). if ok then Some s else circuit_mark_for_close i s)) (\<lambda>s. Some (None :: uint8 option, s))) \<and>
    handshake_type cc = ONION_HANDSHAKE_TYPE_TAP"
proof -
  obtain cc where cc: "create_cell_parse tap_cell = Some cc" "handshake_type cc = ONION_HANDSHAKE_TYPE_TAP" using tap_cell_parse by blast
  have "circ_id tap_cell = 7" by (simp add: tap_cell_def)
  with cc show ?thesis
    by (intro exI [of _ cc] exI [of _ "next_ptr s"])
      (simp add: create_tap_def command_process_create_cell_def public_relay_def Let_def or_circuit_new_def upd_circ_live
        handshake_types)
qed

lemma create_tap_job:
  assumes "total_pending_tasks s < max_pending_tasks s"
  shows "\<exists>s'. create_tap s = Some s' \<and> total_pending_tasks s' = total_pending_tasks s + 1 \<and>
    max_pending_tasks s' = max_pending_tasks s \<and> ol_list s' = ol_list s \<and> ol_entries s' = ol_entries s \<and>
    closing s' = closing s \<and> options s' = options s"
proof -
  show ?thesis
    using create_tap_assigns [of s] assms
    by (auto simp: assign_onionskin_to_cpuworker_def Let_def queue_work_puts put_work_def upd_circ_live)
qed

lemma create_tap_waits:
  assumes "max_pending_tasks s \<le> total_pending_tasks s" "ol_list s = (\<lambda>_. [])" "ol_entries s = (\<lambda>_. 0)"
  shows "\<exists>s'. create_tap s = Some s' \<and> ol_list s' ONION_HANDSHAKE_TYPE_TAP \<noteq> [] \<and> closing s' = closing s \<and> options s' = options s"
proof -
  have "\<not> MAX_ONION_HANDSHAKE_TYPE < ONION_HANDSHAKE_TYPE_TAP" by (simp add: handshake_types)
  then show ?thesis
    using create_tap_assigns [of s] assms
    by (auto simp: assign_onionskin_to_cpuworker_def Let_def onion_pending_add_def have_room_for_onionskin_def upd_circ_live
        cull_elderly.simps ONIONQUEUE_WAIT_CUTOFF_def)
qed

lemma create_tap_reaches:
  assumes "relay_reachable s" "closing s = None" "create_tap s = Some s'"
  shows "relay_reachable s'"
  by (rule relay_reachable_step [OF assms(1) _ assms(3) [unfolded create_tap_def]])
    (simp add: assms(2) tap_cell_def)

lemma busy_relay:
  "n \<le> 64 \<Longrightarrow> \<exists>s. relay_reachable s \<and> closing s = None \<and> total_pending_tasks s = int n \<and> max_pending_tasks s = 64 \<and>
    ol_list s = (\<lambda>_. []) \<and> ol_entries s = (\<lambda>_. 0) \<and> options s = options init_relay"
proof (induction n)
  case 0
  then show ?case by (intro exI [of _ init_relay]) (simp add: relay_reachable_init, simp add: init_relay_def cpu_init_def)
next
  case (Suc n)
  then obtain s where s: "relay_reachable s" "closing s = None" "total_pending_tasks s = int n" "max_pending_tasks s = 64"
    "ol_list s = (\<lambda>_. [])" "ol_entries s = (\<lambda>_. 0)" "options s = options init_relay" by auto
  then obtain s' where "create_tap s = Some s'" "total_pending_tasks s' = total_pending_tasks s + 1"
    "max_pending_tasks s' = max_pending_tasks s" "ol_list s' = ol_list s" "ol_entries s' = ol_entries s"
    "closing s' = closing s" "options s' = options s" using create_tap_job [of s] Suc.prems by auto
  then show ?case using s create_tap_reaches by (intro exI [of _ s']) auto
qed

lemma waiting_relay:
  obtains s e r where "relay_reachable s" "closing s = None" "ol_list s ONION_HANDSHAKE_TYPE_TAP = e # r" "num_ntors_per_tap s = Some 10"
proof -
  obtain s where s: "relay_reachable s" "closing s = None" "total_pending_tasks s = 64" "max_pending_tasks s = 64"
    "ol_list s = (\<lambda>_. [])" "ol_entries s = (\<lambda>_. 0)" "options s = options init_relay" using busy_relay [of 64] by auto
  then obtain s' where s': "create_tap s = Some s'" "ol_list s' ONION_HANDSHAKE_TYPE_TAP \<noteq> []" "closing s' = closing s"
    "options s' = options s" using create_tap_waits [of s] by auto
  have "num_ntors_per_tap s' = Some 10"
    using s(7) s'(4) by (simp add: num_ntors_per_tap_def networkstatus_get_param_def init_relay_def cpu_init_def)
  then show thesis using that [of s'] s(1,2) s' create_tap_reaches by (cases "ol_list s' ONION_HANDSHAKE_TYPE_TAP") auto
qed

section \<open>A failed answer\<close>

text \<open>
  \<^verbatim>\<open>onionskin_answer\<close> opens the circuit before it sets the keys. When that fails, its callers mark the circuit, and
  marking asserts that an open circuit has keys: the branch for the failure ends the process.
\<close>

lemma failed_answer_aborts:
  assumes c: "live i s = Some c" "\<not> crypto c"
    and f: "created_cell_format \<lparr>circ_id = 0, command = 0, payload = replicate CELL_PAYLOAD_SIZE 0\<rparr> created = Parsed cell"
  shows "\<exists>s'. onionskin_answer False i created s = Some (False, s') \<and> circuit_mark_for_close i s' = None"
proof -
  let ?s = "s\<lparr>circuits := (circuits s)(i \<mapsto> Live (c\<lparr>c_state := CIRCUIT_STATE_OPEN, crypto := False\<rparr>))\<rparr>"
  have "onionskin_answer False i created s = Some (False, ?s)" using c f by (simp add: onionskin_answer_def upd_circ_live)
  moreover have "circuit_mark_for_close i ?s = None"
    by (subst circuit_mark_for_close.simps) (simp add: assert_circuit_ok_def keys_ok_def check_def)
  ultimately show ?thesis by blast
qed

section \<open>Theorems\<close>

text \<open>
  C4. Whatever the order in which cells arrive, circuits are marked, joined and closed, and workers take and finish
  jobs, no handler fails one of its assertions on queues, jobs, lists, joins and keys, follows a pointer to a freed
  structure, or loops forever: in every reachable state every enabled event has a next state.
\<close>

theorem handshakes_never_fail: "relay_reachable s \<Longrightarrow> enabled ev s \<Longrightarrow> \<exists>s'. exec ev s = Some s'"
  using handshakes.reach_defined by (auto simp: relay_reachable_reach)

theorem handshakes_never_fail_witness: "\<exists>s s'. relay_reachable s \<and> enabled (Ev_extract (\<lambda>_. False)) s \<and>
    total_pending_tasks s = 64 \<and> exec (Ev_extract (\<lambda>_. False)) s = Some s'"
proof -
  obtain s where s: "relay_reachable s" "total_pending_tasks s = 64" using busy_relay [of 64] by auto
  then show ?thesis using handshakes_never_fail [OF s(1), of "Ev_extract (\<lambda>_. False)"] by auto
qed

text \<open>
  C5. In every reachable state the counters are exact: \<open>ol_entries\<close> counts the lists of waiting onionskins, and
  \<open>total_pending_tasks\<close> the handshakes handed to workers and not answered yet. The memory of a wiped circuit is referred to by exactly
  one job, whose reply will free it. No circuit is forgotten: one that waits for its handshake and is not
  marked has an entry in the queue or a job, which is waiting, running or answered.
\<close>

theorem handshake_accounting:
  assumes "relay_reachable s"
  shows "ol_entries s t = int (length (ol_list s t)) \<and>
    total_pending_tasks s = int (card (dom (job_of s))) \<and>
    (circuits s i = Some Dead \<longrightarrow> (\<exists>!e. job_of s e = Some i)) \<and>
    (live i s = Some c \<and> c_state c = CIRCUIT_STATE_ONIONSKIN_PENDING \<and> \<not> marked_for_close c \<longrightarrow>
       (\<exists>t. \<exists>e \<in> set (ol_list s t). map_option oq_circ (onions s e) = Some i) \<or>
       (\<exists>e p. job_of s e = Some i \<and> e \<in> set (pool_work s p) \<union> set (running s) \<union> set (answers s)))"
proof -
  obtain rem where I: "inv rem {} {} {} s" using relay_inv [OF assms] by blast
  have queued: "\<exists>t. \<exists>e \<in> set (ol_list s t). map_option oq_circ (onions s e) = Some i" if "onq s i = Some e" for e
  proof -
    have "owner s e = Some i" using invD(2) [OF I] that by (simp add: inv_onions_def)
    then obtain v where "onions s e = Some v" "oq_circ v = i" by (auto simp: owner_def)
    then show ?thesis using invD(2) [OF I] unfolding inv_onions_def
      by (intro exI [of _ "oq_type v"] bexI [of _ e]) simp_all
  qed
  have job: "\<exists>p. job_of s e = Some i \<and> e \<in> set (pool_work s p) \<union> set (running s) \<union> set (answers s)" if "wkq s i = Some e" for e
  proof -
    have "job_of s e = Some i" using invD(4) [OF I] that by (simp add: inv_jobs_def)
    moreover from this obtain w where "works s e = Some w" by (auto simp: job_of_def bind_eq_Some_conv)
    ultimately show ?thesis using invD(3) [OF I] by (cases "pending w") (auto simp: inv_works_def)
  qed
  have kept: "onq s i \<noteq> None \<or> wkq s i \<noteq> None"
    if "live i s = Some c" "c_state c = CIRCUIT_STATE_ONIONSKIN_PENDING" "\<not> marked_for_close c"
    using invD(8) [OF I] that by (auto simp: inv_kept_def onq_def wkq_def)
  have "\<exists>!e. job_of s e = Some i" if "circuits s i = Some Dead"
    using invD(4) [OF I] that unfolding inv_jobs_def dead_def by blast
  moreover have "ol_entries s t = int (length (ol_list s t))" "total_pending_tasks s = int (card (dom (job_of s)))"
    using invD(2,4) [OF I] by (simp_all add: inv_onions_def inv_jobs_def)
  ultimately show ?thesis using kept queued job by blast
qed

theorem handshake_accounting_witness: "\<exists>s. relay_reachable s \<and> card (dom (job_of s)) = 64"
proof -
  obtain s where s: "relay_reachable s" "total_pending_tasks s = 64" using busy_relay [of 64] by auto
  then show ?thesis using handshake_accounting [OF s(1)] by auto
qed

text \<open>
  C15. Shutting down from any state in which no circuits are being closed uses freed memory exactly when an onionskin is waiting
  in a queue: \<^verbatim>\<open>tor_free_all\<close> frees the circuits first and then clears the queue, which writes
  \<^verbatim>\<open>onionqueue_entry\<close> of the circuits of the entries.
\<close>

theorem shutdown_use_after_free:
  assumes "relay_reachable s" "closing s = None"
  shows "tor_free_all s = None \<longleftrightarrow> (\<exists>t. ol_list s t \<noteq> [])"
proof -
  obtain rem where I: "inv rem {} {} {} s" using relay_inv [OF assms(1)] by blast
  have "only_live (global_circuitlist s) s"
    using invD(5,6) [OF I] by (simp add: only_live_def inv_list_def)
  then obtain s' where s': "free_circuits (global_circuitlist s) s = Some s'" "\<forall>i. live i s' = None"
    "onions s' = onions s" "ol_list s' = ol_list s" using free_circuits_ok by blast
  let ?s = "s'\<lparr>global_circuitlist := [], circuits_pending_close := []\<rparr>"
  have call: "tor_free_all s = clear_pending_onions ?s" by (simp add: tor_free_all_def circuit_free_all_def s'(1))
  have typed: "\<exists>v. onions s e = Some v \<and> oq_type v = t \<and> oq_type v \<le> MAX_ONION_HANDSHAKE_TYPE" if "e \<in> set (ol_list s t)" for e t
    using invD(2) [OF I] that request_ok_type unfolding inv_onions_def by (metis (no_types, lifting) map_option_eq_Some)
  show ?thesis
  proof (cases "\<exists>t. ol_list s t \<noteq> []")
    case False
    then show ?thesis using call clear_lists_empty [of ?s "[0, 1, 2]"] s'(4) by (simp add: clear_pending_onions_def)
  next
    case True
    then obtain t where t: "ol_list s t \<noteq> []" by blast
    then have "t \<le> MAX_ONION_HANDSHAKE_TYPE" using typed [of "hd (ol_list s t)" t] by auto
    then have "t \<in> set [0, 1, 2]" by (auto simp: handshake_types word_le_nat_alt word_unat_eq_iff)
    then have "clear_lists [0, 1, 2] ?s = None"
    proof (intro clear_lists_fails)
      show "\<forall>i. live i ?s = None" using s'(2) by simp
      show "\<forall>t e. e \<in> set (ol_list ?s t) \<longrightarrow> (\<exists>v. onions ?s e = Some v \<and> oq_type v \<le> MAX_ONION_HANDSHAKE_TYPE)"
        using typed s'(3,4) by simp blast
      show "\<exists>t \<in> set [0, 1, 2]. ol_list ?s t \<noteq> []" if "t \<in> set [0, 1, 2]" using that t s'(4) by (intro bexI [of _ t]) simp_all
    qed
    then show ?thesis using call True by (simp add: clear_pending_onions_def)
  qed
qed

theorem shutdown_use_after_free_witness: "\<exists>s. relay_reachable s \<and> closing s = None \<and> tor_free_all s = None"
proof (rule waiting_relay)
  fix s e r
  assume "relay_reachable s" "closing s = None" "ol_list s ONION_HANDSHAKE_TYPE_TAP = e # r"
  then show ?thesis using shutdown_use_after_free [of s] by (intro exI [of _ s]) (metis list.distinct(1))
qed

text \<open>
  C14. TAP handshakes are not starved: the first TAP onionskin in the queue is handed out after at most
  \<^verbatim>\<open>num_ntors_per_tap()\<close> other tasks, however many ntor onionskins are waiting.
\<close>

theorem tap_not_starved:
  assumes "relay_reachable s" "ol_list s ONION_HANDSHAKE_TYPE_TAP = e # r" "num_ntors_per_tap s = Some k"
  shows "\<exists>n v s' cc s''. int n \<le> k \<and> onions s e = Some v \<and> take_tasks n s = Some s' \<and>
    onion_next_task s' = Some (Some (oq_circ v, Some cc), s'')"
proof -
  obtain rem where I: "inv rem {} {} {} s" using relay_inv [OF assms(1)] by blast
  obtain v where v: "onions s e = Some v"
    using invD(2) [OF I] assms(2) unfolding inv_onions_def by (metis list.set_intros(1) map_option_eq_Some)
  have "0 \<le> recently_chosen_ntors s" "0 \<le> k"
    using invD(9) [OF I] num_ntors_defined [of s] assms(3) by (auto simp: inv_options_def)
  then have le: "int n \<le> k" if "n \<le> nat (k - recently_chosen_ntors s)" for n using that by linarith
  show ?thesis using tap_within [OF I assms(2) v assms(3)] v le by blast
qed

theorem tap_not_starved_witness: "\<exists>s e r n v s' cc s''. relay_reachable s \<and> ol_list s ONION_HANDSHAKE_TYPE_TAP = e # r \<and>
    num_ntors_per_tap s = Some 10 \<and> int n \<le> 10 \<and> onions s e = Some v \<and> take_tasks n s = Some s' \<and>
    onion_next_task s' = Some (Some (oq_circ v, Some cc), s'')"
proof (rule waiting_relay)
  fix s e r
  assume "relay_reachable s" "ol_list s ONION_HANDSHAKE_TYPE_TAP = e # r" "num_ntors_per_tap s = Some 10"
  then show ?thesis using tap_not_starved [of s e r 10] by blast
qed

end
