(* ===== verification/Spec2Isabelle.thy ===== *)
theory Spec2Isabelle
  imports Consdiff_Correct Token_Bucket Consensus Policy_Summary_Correct Handshakes_Correct
begin

text \<open>
  A verification library for BADNET, a fork of Tor 0.4.6.5 (\<^verbatim>\<open>src/BADNET/src\<close>) that replaces the
  directory authorities by a contract on a blockchain (\<^verbatim>\<open>src/DirectoryContract.sol\<close>).

  \<^bold>\<open>The program.\<close> A relay registers an account with the contract and gets an index. Once an hour it
  rebuilds its descriptor, encrypts it for all healthy relays with a broadcast encryption scheme and
  uploads the ciphertext and a digest. The other relays download the entries, decrypt them and append
  them to a file of descriptors. A client reads this file as its consensus, and downloads the digests.
  The C code calls the Python modules \<^verbatim>\<open>SC/Relay.py\<close> and \<^verbatim>\<open>SC/Client.py\<close> for everything that concerns
  the chain. Around this the machinery of Tor is in use: tokenizer and consensus parser, consensus
  diffs, protocol and release versions, token buckets, buffers and cells, circuit handshakes in worker
  threads, exit policies, priority queues, text encodings.

  \<^bold>\<open>Foundations.\<close>
  \<^item> \<^verbatim>\<open>Prelude\<close>: types of bytes and words, array accesses that fail out of range, C division, shared
    lemmas on lists and words.
  \<^item> \<^verbatim>\<open>Strings\<close>: \<^verbatim>\<open>lib/string/parse_int.c\<close>, base 16 of \<^verbatim>\<open>lib/encoding/binascii.c\<close>,
    \<^verbatim>\<open>smartlist_split.c\<close>; decimal and base 16 round trips, splitting inverts joining.
  \<^item> \<^verbatim>\<open>Binascii\<close>, \<^verbatim>\<open>Pem\<close>, \<^verbatim>\<open>Scanf\<close>: base 64, \<^verbatim>\<open>lib/encoding/pem.c\<close>, \<^verbatim>\<open>lib/string/scanf.c\<close> and the IPv4 text
    of \<^verbatim>\<open>lib/net/inaddr.c\<close>; what is written is read back, and fits the promised size.
  \<^item> \<^verbatim>\<open>Smartlist\<close>: binary search and the heap of \<^verbatim>\<open>lib/container/smartlist.c\<close>. The heap is shown to
    implement the interface \<^verbatim>\<open>priority_queue\<close> for every comparison function that is a total preorder.

  \<^bold>\<open>The blockchain directory.\<close>
  \<^item> \<^verbatim>\<open>Contract\<close>: the storage and every method of \<^verbatim>\<open>DirectoryContract.sol\<close>. The relation \<^verbatim>\<open>ledger\<close>
    collects the storages that transactions can reach; \<^verbatim>\<open>contract_inv\<close> is its invariant.
  \<^item> \<^verbatim>\<open>Bkem\<close>: \<^verbatim>\<open>get_encryption_key\<close>, \<^verbatim>\<open>get_decryption_key\<close> and the texts around them in
    \<^verbatim>\<open>feature/relay/router.c\<close>, over a pairing library given by its documented laws.
  \<^item> \<^verbatim>\<open>Relay_Py\<close>: \<^verbatim>\<open>SC/Relay.py\<close>; encryption and decryption of descriptors, and what a download makes of an
    old entry after any history of transactions (\<^verbatim>\<open>history\<close>): its receivers are reconstructed from the
    operation log of the chain, unless a relay was reported as unhealthy in between.
  \<^item> \<^verbatim>\<open>Directory\<close>: registration, upload, download and rebuild in \<^verbatim>\<open>router.c\<close> and the callback of
    \<^verbatim>\<open>relay_periodic.c\<close>.
  \<^item> \<^verbatim>\<open>Consensus\<close>: the client: \<^verbatim>\<open>fetch_networkstatus_callback\<close> of \<^verbatim>\<open>core/mainloop/mainloop.c\<close>, the digests
    of \<^verbatim>\<open>SC/Client.py\<close>, reload, installation and lookup in \<^verbatim>\<open>feature/nodelist/networkstatus.c\<close>. What the client
    knows after any number of callbacks is that of the refreshes among them (\<^verbatim>\<open>refreshes\<close>).
  \<^item> This theory joins them: a descriptor that one relay uploads is what another relay stores.

  \<^bold>\<open>Directory documents.\<close>
  \<^item> \<^verbatim>\<open>Parsecommon\<close>: the tokenizer \<^verbatim>\<open>feature/dirparse/parsecommon.c\<close>.
  \<^item> \<^verbatim>\<open>Netstatus\<close>, \<^verbatim>\<open>Netstatus_Parse\<close>: \<^verbatim>\<open>feature/dirparse/ns_parse.c\<close> as the client uses it; parsing is total
    and free of assertion failures, and inverts the text that a relay uploads.
  \<^item> \<^verbatim>\<open>Consdiff\<close>, \<^verbatim>\<open>Consdiff_Correct\<close>: all of \<^verbatim>\<open>feature/dircommon/consdiff.c\<close>; a generated diff applied to its
    base gives its target.
  \<^item> \<^verbatim>\<open>Protover\<close>, \<^verbatim>\<open>Protover_Correct\<close>: \<^verbatim>\<open>core/or/protover.c\<close>: lists of protocol versions as 64-bit masks, with
    printing, parsing, voting and the check of required protocols.
  \<^item> \<^verbatim>\<open>Versions\<close>: \<^verbatim>\<open>core/or/versions.c\<close>: release versions and the cache of protocol summaries.

  \<^bold>\<open>Traffic.\<close>
  \<^item> \<^verbatim>\<open>Token_Bucket\<close>: \<^verbatim>\<open>lib/evloop/token_bucket.c\<close> with its 32-bit arithmetic. The buckets implement the
    interface \<^verbatim>\<open>rate_limiter\<close>, which bounds what is spent over time by a potential argument.
  \<^item> \<^verbatim>\<open>Buffers\<close>, \<^verbatim>\<open>Buffers_Correct\<close>: \<^verbatim>\<open>lib/buf/buffers.c\<close> with the memory of every chunk; a buffer implements
    the interface \<^verbatim>\<open>byte_queue\<close>, whatever sequence of additions, reads and moves takes place.
  \<^item> \<^verbatim>\<open>Cells\<close>: packing of cells and the loop of \<^verbatim>\<open>core/or/connection_or.c\<close> over the input buffer; what one
    end writes the other end hands on, however the network cuts the bytes.

  \<^bold>\<open>Circuit handshakes.\<close>
  \<^item> \<^verbatim>\<open>Onion\<close>: the CREATE, CREATED and EXTENDED cells of \<^verbatim>\<open>core/or/onion.c\<close>. They are read back as they were
    written, and the answer of the next relay reaches the client through the relay in the middle.
  \<^item> \<^verbatim>\<open>Handshakes\<close>: how a relay answers CREATE cells: the queue \<^verbatim>\<open>feature/relay/onion_queue.c\<close>, the dispatcher
    \<^verbatim>\<open>core/mainloop/cpuworker.c\<close>, the pool of threads \<^verbatim>\<open>lib/evloop/workqueue.c\<close>, and the life of a circuit in
    \<^verbatim>\<open>core/or/circuitlist.c\<close> and \<^verbatim>\<open>core/or/command.c\<close>. The state is a record with a memory for each kind of
    structure; \<^verbatim>\<open>relay_reachable\<close> interleaves the events of the main thread with those of the workers.
  \<^item> \<^verbatim>\<open>Handshakes_Inv\<close>, \<^verbatim>\<open>Handshakes_Safe\<close>: the invariant (who points to whom, what the counters count) and its
    preservation by every operation. \<^verbatim>\<open>Handshakes_Correct\<close>: the events implement the interface \<^verbatim>\<open>guarded_system\<close>, so no
    interleaving fails or forgets a circuit; TAP handshakes are not starved; and shutting down with a
    non-empty queue uses freed circuits.

  \<^bold>\<open>Exit policies.\<close>
  \<^item> \<^verbatim>\<open>Address\<close>: addresses and their comparison, \<^verbatim>\<open>lib/net/address.c\<close>.
  \<^item> \<^verbatim>\<open>Addr_Text\<close>, \<^verbatim>\<open>Addr_Text_Correct\<close>: addresses, masks and port ranges as text; printed addresses are
    parsed back.
  \<^item> \<^verbatim>\<open>Policies\<close>, \<^verbatim>\<open>Policies_Correct\<close>: matching and simplification of policies, \<^verbatim>\<open>core/or/policies.c\<close>. A policy is a
    list of rules of which the first that fits decides (\<^verbatim>\<open>rule_list\<close>); simplification keeps all decisions.
  \<^item> \<^verbatim>\<open>Policy_Summary\<close>, \<^verbatim>\<open>Policy_Summary_Correct\<close>: the summaries that relays publish and clients read; they
    implement a count of rejected addresses for each port, an accepted port is refused for few
    public addresses, and a summary fails exactly for certain entries with port 0.

  \<^bold>\<open>Conventions.\<close> A struct is a record, an enumeration a datatype. A failed assertion, an access out of
  range or an uncaught exception is \<open>None\<close> or a constructor of the result type, so that its absence is
  proved. Machine integers are words, or integers with the conversion written out. A loop is a
  total function, with a measure where the recursion is not structural; three recursions of the handshakes
  (marking, culling, handing out tasks) end only by the invariant: they are partial functions, proved to return. The only fuel is in
  \<^verbatim>\<open>split_loop\<close>, one more than the length of the text, of which every round consumes a character.
  Memory management, the reference counts of Python objects and logging are left out.

  \<^bold>\<open>Parameters.\<close> The pairing library, AES, the hash functions, public keys, the web3 client and the file
  system are not part of the sources. They are arguments; what is used of them is stated as a
  hypothesis (\<^verbatim>\<open>pbc_laws\<close>, \<^verbatim>\<open>member\<close>, \<^verbatim>\<open>env_up\<close>) and instantiated by a concrete library in the witnesses.

  \<^bold>\<open>Not modelled.\<close> Circuits of clients, path building, channels, relay cells and streams, connections and their event
  loop, onion services, the control port and the configuration are unchanged from Tor and concern network I/O; TLS and the cryptographic
  wrappers call third-party libraries; the parsers under \<^verbatim>\<open>trunnel\<close> are generated. The voting of
  authorities on whole documents no longer takes place.
\<close>

section \<open>From one relay's upload to another relay's cache\<close>

text \<open>
  C1. End to end. A healthy registered relay uploads its descriptor; later \<open>k\<close> more relays register
  and other relays upload. When a relay \<open>j\<close> that was among the receivers then runs its download loop,
  the round for the uploader appends exactly the uploader's descriptor text, under its index, to the
  relay's descriptor file (and completes the file when it is the last round). The operation counter of the
  contract has 8 bits: the statement is for counters that stay below 256. Reports of unhealthy relays and
  cancellations are not among the later transactions; the theory \<^verbatim>\<open>Relay_Py\<close> covers them, and shows
  what happens when the counter wraps around.
\<close>

theorem published_descriptor_recovered:
  assumes keys: "shared_keys P \<alpha> \<gamma> A B gps PK"
    and up: "member envU P gps PK" "\<And>x. env_up envU x" "start_python envU st = (True, st1)" "wf_router ri"
    and chain: "ledger n (chain w)" "n < 65535" "int n < gN gps"
    and reg: "is_registered (chain w) (env_addr envU)"
      "healthflag (relay_of (chain w) i)" "i = relayaddr (chain w) (env_addr envU)"
    and down: "member envD P gps PK" "\<And>x. env_up envD x" "holds_secret envD \<alpha> \<gamma> B PK j"
      "env_aes envD = env_aes envU" "int j \<in> set (receivers (chain w))"
  shows "\<exists>str w'. sri_text ri = Some str \<and>
     router_upload_descriptor_to_blockchain envU ri st w = Some (1, st1, w') \<and>
     (\<forall>k d v ids. later i (chain w') k d \<longrightarrow> n + k < 65535 \<longrightarrow> unat (CurrentCounter (chain w)) + k < 256 \<longrightarrow>
        chain v = d \<longrightarrow> is_registered d (env_addr envD) \<longrightarrow> relaySet v = receivers d \<longrightarrow>
        Counter v = int (unat (CurrentCounter d)) \<longrightarrow>
        download_loop envD (int j) (int (unat i) # ids) v =
          download_loop envD (int j) ids (store_descriptor (int (unat i)) str (ids = []) v))"
proof -
  obtain str where str: "sri_text ri = Some str" "length str < SRI_BUFFER_LEN" "utf8_text str"
    using sri_text_wf [OF up(4)] ascii_utf8 by blast
  have inv: "contract_inv n (chain w)" using ledger_inv chain by simp
  obtain kp w' where kp: "get_encryption_key P (env_exponent envU) (receivers (chain w)) PK gps = Inr kp"
    and ul: "router_upload_descriptor_to_blockchain envU ri st w = Some (1, st1, w')"
    and tx: "relay_upload_SRI_and_NSD (chain w) (env_addr envU) (CurrentCounter (chain w))
       (concat (map (g1_to_bytes_compressed P) (HDR kp)))
       (cbc_encrypt (env_aes envU) (bytes_of (take 32 (text_of (sprintf_all 512 (gt_to_bytes P (keyK kp)))))) (padding str))
       (env_sha256 envU (bytes_of str)) = Some (chain w')"
    using upload_effect [OF keys up(1,2) str up(3) inv chain(2,3) reg(1)] reg(2,3) by blast
  note frame = upload_frame [OF tx, folded reg(3)]
  have inv': "contract_inv n (chain w')" by (rule upload_inv [OF inv tx])
  have "registered (relay_of (chain w) i)" using reg(1,3) by (simp add: is_registered_def)
  then have i: "unat i \<le> n" using contract_invD(2) [OF inv] by blast
  have S: "\<forall>s \<in> set (receivers (chain w)). 0 \<le> s \<and> s < gN gps" by (rule receivers_range [OF inv chain(2,3)])
  have "download_loop envD (int j) (int (unat i) # ids) v =
      download_loop envD (int j) ids (store_descriptor (int (unat i)) str (ids = []) v)"
    if later: "later i (chain w') k d" "n + k < 65535" "unat (CurrentCounter (chain w)) + k < 256"
      and v: "chain v = d" "is_registered d (env_addr envD)" "relaySet v = receivers d"
        "Counter v = int (unat (CurrentCounter d))" for k d v ids
  proof (rule download_round [OF keys down(1,3) S receivers_distinct down(5) kp str(3) sri_text_nonempty [OF str(1)]])
    show "relayDownloadSRI (env_up envD) (env_addr envD) (int (unat i)) v =
      Some (receivers (chain w), findall_130 (hexlify (concat (map (g1_to_bytes_compressed P) (HDR kp)))),
        hexlify (cbc_encrypt (env_aes envD)
          (bytes_of (take 32 (text_of (sprintf_all 512 (gt_to_bytes P (keyK kp)))))) (padding str)))"
      using download_later [OF inv' i _ _ later(1,2) _ v(1,3,4,2) down(2)] frame later(3) reg(2) down(4)
      by simp
  qed
  then show ?thesis using str(1) ul by blast
qed

theorem published_descriptor_recovered_witness:
  "\<exists>str w' v. sri_text demo_router = Some str \<and>
     router_upload_descriptor_to_blockchain (demo_env 9) demo_router demo_state (demo_world demo_c2) =
       Some (1, demo_state, w') \<and> chain v = chain w' \<and>
     download_loop (demo_env 8) (int 2) [int (unat (1 :: uint16))] v =
       Some (store_descriptor (int (unat (1 :: uint16))) str True v)"
proof -
  have l: "ledger 2 (chain (demo_world demo_c2))"
    using ledger_tx [OF ledger_tx [OF ledger_init demo_c1] demo_c2] by (simp add: demo_world_def numeral_2_eq_2)
  have facts: "is_registered (chain (demo_world demo_c2)) 9" "is_registered (chain (demo_world demo_c2)) 8"
    "healthflag (relay_of (chain (demo_world demo_c2)) 1)" "1 = relayaddr (chain (demo_world demo_c2)) 9"
    "int 2 \<in> set (receivers (chain (demo_world demo_c2)))"
    "unat (CurrentCounter (chain (demo_world demo_c2))) + 0 < 256"
    by (code_simp, code_simp, code_simp, code_simp, code_simp, code_simp)
  have env: "env_addr (demo_env a) = a" "env_up (demo_env a) x" "env_aes (demo_env a) = demo_aes" for a x
    by (simp_all add: demo_env_def)
  obtain str w' where str: "sri_text demo_router = Some str"
    and ul: "router_upload_descriptor_to_blockchain (demo_env 9) demo_router demo_state (demo_world demo_c2) =
       Some (1, demo_state, w')"
    and dl: "\<forall>k d v ids. later 1 (chain w') k d \<longrightarrow> 2 + k < 65535 \<longrightarrow>
        unat (CurrentCounter (chain (demo_world demo_c2))) + k < 256 \<longrightarrow>
        chain v = d \<longrightarrow> is_registered d (env_addr (demo_env 8)) \<longrightarrow> relaySet v = receivers d \<longrightarrow>
        Counter v = int (unat (CurrentCounter d)) \<longrightarrow>
        download_loop (demo_env 8) (int 2) (int (unat (1 :: uint16)) # ids) v =
          download_loop (demo_env 8) (int 2) ids (store_descriptor (int (unat (1 :: uint16))) str (ids = []) v)"
    using published_descriptor_recovered [OF demo_shared demo_member _ demo_python demo_router l _ _ _ _ _
        demo_member _ demo_secret, of 9 1 8 2] facts env by (auto simp: demo_gps_def)
  define v where "v = w'\<lparr>relaySet := receivers (chain w'), Counter := int (unat (CurrentCounter (chain w')))\<rparr>"
  have "is_registered (chain w') 8" using upload_registered [OF ul] facts(2) by blast
  then have "download_loop (demo_env 8) (int 2) [int (unat (1 :: uint16))] v =
      download_loop (demo_env 8) (int 2) [] (store_descriptor (int (unat (1 :: uint16))) str ([] = []) v)"
    using dl [rule_format, OF later_refl, of v "[]"] facts(6) env(1) by (simp add: v_def)
  then have "download_loop (demo_env 8) (int 2) [int (unat (1 :: uint16))] v =
      Some (store_descriptor (int (unat (1 :: uint16))) str True v)"
    by (simp only: download_loop.simps(1) simp_thms)
  moreover have "chain v = chain w'" by (simp add: v_def)
  ultimately show ?thesis using str ul by blast
qed

end
